(* ===== verification/Prelude.thy ===== *)
theory Prelude
  imports Main "HOL-Library.Word" "HOL-Library.Monad_Syntax"
begin

text \<open>
  Shared vocabulary of the development: the machine integer types of
  \<^verbatim>\<open>shared-headers/Units.hpp\<close>, the outcome of code that may abort, the command line
  flags the modelled code reads, the collections of definitions the component proofs unfold,
  and generic lemmas on words, options and lists.

  Conventions.  \<^verbatim>\<open>ensure(e)\<close>, \<^verbatim>\<open>ensure_lt\<close>, \<^verbatim>\<open>ensure_lte\<close> and
  \<^verbatim>\<open>ensure_equal\<close> of \<^verbatim>\<open>shared-headers/Exceptions.hpp\<close> abort the
  process when the check fails: a function that contains one returns an option and \<open>None\<close>
  is the abort.  Reads outside an array are undefined in C++ and are \<open>None\<close> as well.
\<close>

unbundle bit_operations_syntax

section \<open>Machine integers\<close>

type_synonym u8 = "8 word"
type_synonym u16 = "16 word"
type_synonym u32 = "32 word"
type_synonym u64 = "64 word"

type_synonym PID = u64
type_synonym LID = u64
type_synonym ru_epoch_t = int

section \<open>Outcomes\<close>

definition ensure :: "bool \<Rightarrow> unit option" where
  "ensure b = (if b then Some () else None)"

definition nth_opt :: "'a list \<Rightarrow> nat \<Rightarrow> 'a option" where
  "nth_opt xs i = (if i < length xs then Some (xs ! i) else None)"

lemma ensure_True [simp]: "ensure True = Some ()"
  by (simp add: ensure_def)

lemma ensure_False [simp]: "ensure False = None"
  by (simp add: ensure_def)

lemma ensure_eq_Some [simp]: "ensure b = Some u \<longleftrightarrow> b"
  by (simp add: ensure_def)

lemma ensure_bind_eq_Some [simp]: "(ensure b \<bind> f) = Some x \<longleftrightarrow> b \<and> f () = Some x"
  by (simp add: ensure_def)

lemma nth_opt_eq_Some [simp]: "nth_opt xs i = Some x \<longleftrightarrow> i < length xs \<and> xs ! i = x"
  by (auto simp: nth_opt_def)

lemma nth_opt_bind_eq_Some [simp]:
  "(nth_opt xs i \<bind> f) = Some y \<longleftrightarrow> i < length xs \<and> f (xs ! i) = Some y"
  by (simp add: nth_opt_def)

lemma nth_opt_less [simp]: "i < length xs \<Longrightarrow> nth_opt xs i = Some (xs ! i)"
  by (simp add: nth_opt_def)

section \<open>Flags read by the modelled code\<close>

text \<open>The \<^verbatim>\<open>FLAGS_*\<close> variables of \<^verbatim>\<open>backend/leanstore/Config.cpp\<close>, and whether the
  build defines \<^verbatim>\<open>__AVX512F__\<close>.\<close>

record flags =
  FLAGS_discard_lsns_in_parent :: bool
  FLAGS_skip_wal_recovery :: bool
  FLAGS_enable_discarding :: bool
  FLAGS_ru_gc_threads :: int
  FLAGS_bg_page_fixer_variant :: nat
  FLAGS_compress_pages :: bool
  FLAGS_btree_prefix_compression :: bool
  FLAGS_btree_heads :: bool
  FLAGS_btree_hints :: int
  FLAGS_btree_split_alloc_right :: bool
  FLAGS_recycle_pages :: bool
  FLAGS_per_page_logging :: bool
  FLAGS_opportunistic_log_compaction :: bool
  FLAGS_ppl_merge_threshold :: u32
  FLAGS_max_log_records_to_discard :: u32
  FLAGS_wal :: bool
  FLAGS_wal_rfa :: bool
  FLAGS_wal_tuple_rfa :: bool
  FLAGS_wal_pwrite :: bool
  FLAGS_wal_buffer_size :: u64
  FLAGS_todo :: bool
  FLAGS_olap_mode :: bool
  FLAGS_graveyard :: bool
  AVX512F :: bool

definition default_flags :: flags where
  "default_flags =
     \<lparr>FLAGS_discard_lsns_in_parent = True, FLAGS_skip_wal_recovery = True,
      FLAGS_enable_discarding = True, FLAGS_ru_gc_threads = 4,
      FLAGS_bg_page_fixer_variant = 1, FLAGS_compress_pages = False,
      FLAGS_btree_prefix_compression = True, FLAGS_btree_heads = True,
      FLAGS_btree_hints = 1, FLAGS_btree_split_alloc_right = True,
      FLAGS_recycle_pages = True, FLAGS_per_page_logging = True, FLAGS_opportunistic_log_compaction = True,
      FLAGS_ppl_merge_threshold = 4, FLAGS_max_log_records_to_discard = 7, FLAGS_wal = True,
      FLAGS_wal_rfa = False, FLAGS_wal_tuple_rfa = False, FLAGS_wal_pwrite = False,
      FLAGS_wal_buffer_size = 10485760, FLAGS_todo = True, FLAGS_olap_mode = True, FLAGS_graveyard = True, AVX512F = False\<rparr>"

lemma default_flags_simps [simp]:
  "FLAGS_discard_lsns_in_parent default_flags" "FLAGS_skip_wal_recovery default_flags"
  "FLAGS_enable_discarding default_flags" "FLAGS_ru_gc_threads default_flags = 4"
  "FLAGS_bg_page_fixer_variant default_flags = 1" "\<not> FLAGS_compress_pages default_flags"
  "FLAGS_btree_prefix_compression default_flags" "FLAGS_btree_heads default_flags"
  "FLAGS_btree_hints default_flags = 1" "FLAGS_btree_split_alloc_right default_flags"
  "FLAGS_recycle_pages default_flags" "FLAGS_per_page_logging default_flags"
  "FLAGS_opportunistic_log_compaction default_flags" "FLAGS_ppl_merge_threshold default_flags = 4"
  "FLAGS_max_log_records_to_discard default_flags = 7" "FLAGS_wal default_flags"
  "\<not> FLAGS_wal_rfa default_flags" "\<not> FLAGS_wal_tuple_rfa default_flags"
  "\<not> FLAGS_wal_pwrite default_flags" "FLAGS_wal_buffer_size default_flags = 10485760" "FLAGS_todo default_flags"
  "FLAGS_olap_mode default_flags" "FLAGS_graveyard default_flags" "\<not> AVX512F default_flags"
  by (simp_all add: default_flags_def)

section \<open>Words as bit sequences\<close>

text \<open>
  The packed words of the page states, swips and LSNs are compared bit by bit.
  \<open>fits w x\<close> says that \<open>x\<close> needs at most \<open>w\<close> bits; for a width below that of the
  type this is \<open>x < 2 ^ w\<close> (lemma \<open>fits_iff_less\<close>).
\<close>

definition fits :: "nat \<Rightarrow> 'a::len word \<Rightarrow> bool" where
  "fits w x \<longleftrightarrow> take_bit w x = x"

lemma fits_bitD: "fits w x \<Longrightarrow> bit x n \<Longrightarrow> n < w"
  unfolding fits_def by (metis bit_take_bit_iff)

lemma fits_iff_bit: "fits w x \<longleftrightarrow> (\<forall>n. bit x n \<longrightarrow> n < w)"
proof
  assume "fits w x" then show "\<forall>n. bit x n \<longrightarrow> n < w" by (blast dest: fits_bitD)
next
  assume "\<forall>n. bit x n \<longrightarrow> n < w"
  then show "fits w x"
    unfolding fits_def by (intro bit_word_eqI) (auto simp: bit_take_bit_iff)
qed

lemma fits_iff_less:
  fixes x :: "'a::len word"
  assumes "w < LENGTH('a)"
  shows "fits w x \<longleftrightarrow> x < 2 ^ w"
  using assms unfolding fits_def
  by (metis less_mask_eq mask_eq_iff take_bit_eq_mask word_2p_lem word_size)

lemma fits_iff_unat_less:
  fixes x :: "'a::len word"
  shows "fits w x \<longleftrightarrow> unat x < 2 ^ w"
  unfolding fits_def
  by (metis take_bit_nat_eq_self_iff unsigned_take_bit_eq word_unat_eq_iff)

lemma and_not_mask_eq_0_iff_fits: "x AND NOT (mask w) = 0 \<longleftrightarrow> fits w x"
proof
  assume "x AND NOT (mask w) = 0"
  then have "\<not> bit (x AND NOT (mask w)) n" for n by simp
  then show "fits w x"
    by (auto simp: bit_simps fits_iff_bit) (metis bit_imp_le_length)
next
  assume "fits w x"
  then show "x AND NOT (mask w) = 0"
    by (auto simp: bit_eq_iff bit_simps dest: fits_bitD)
qed

lemma word_eq_iff_bit:
  fixes x y :: "'a::len word"
  shows "x = y \<longleftrightarrow> (\<forall>n<LENGTH('a). bit x n \<longleftrightarrow> bit y n)"
  by (auto intro: bit_word_eqI)

lemma exp_minus_1_eq_mask: "push_bit n (1::'a::len word) - 1 = mask n"
  by (simp add: mask_eq_exp_minus_1 push_bit_eq_mult)

lemma bit_exp_minus_1: "bit (push_bit n (1::'a::len word) - 1) k \<longleftrightarrow> k < LENGTH('a) \<and> k < n"
  unfolding exp_minus_1_eq_mask bit_mask_iff by auto

lemma unat_push_bit_1: "n < LENGTH('a) \<Longrightarrow> unat (push_bit n (1::'a::len word)) = 2 ^ n"
  unfolding unsigned_push_bit_eq take_bit_push_bit by (simp add: push_bit_eq_mult)

lemma unat_exp_minus_1: "n < LENGTH('a) \<Longrightarrow> unat (push_bit n (1::'a::len word) - 1) = 2 ^ n - 1"
proof -
  assume n: "n < LENGTH('a)"
  have "push_bit n (1::'a word) \<noteq> 0" using unat_push_bit_1 [OF n] by (metis power_not_zero unsigned_0 zero_neq_numeral)
  then show ?thesis using unat_push_bit_1 [OF n] by (simp add: unat_minus_one)
qed

text \<open>Keep \<open>bit\<close> of a numeral word as it is: the layout lemmas rewrite it.\<close>

declare bit_numeral_word_iff [simp del]

lemma and_push_bit_1_eq_0: "(x :: 'a::len word) AND push_bit n 1 = 0 \<longleftrightarrow> \<not> bit x n"
  by (simp add: push_bit_eq_mult and_exp_eq_0_iff_not_bit)

lemma bit_small_numerals [bit_simps]:
  "bit (2::u64) n \<longleftrightarrow> n = 1"
  "bit (3::u64) n \<longleftrightarrow> n < 2"
  "bit (7::u64) n \<longleftrightarrow> n < 3"
proof -
  have "(2::u64) = push_bit 1 1" "(3::u64) = mask 2" "(7::u64) = mask 3"
    by (simp_all add: mask_eq_exp_minus_1)
  then show "bit (2::u64) n \<longleftrightarrow> n = 1" "bit (3::u64) n \<longleftrightarrow> n < 2" "bit (7::u64) n \<longleftrightarrow> n < 3"
    by (auto simp only: bit_push_bit_iff bit_mask_iff bit_1_iff) (auto simp: bit_simps)
qed

end
