(* ===== verification/Units.thy ===== *)
theory Units
  imports Prelude
begin

text \<open>
  The constants and the log sequence numbers of \<^verbatim>\<open>shared-headers/Units.hpp\<close>.  An LSN
  is \<open>[unused:6][log_id:10][offset:48]\<close>; the three largest values of the type are markers.
\<close>

named_theorems lsn_defs "definitions of the LSN layout"

section \<open>Constants\<close>

definition INVALID_PID :: PID where "INVALID_PID = - 1"
definition UNMAPPED_RU_EPOCH :: ru_epoch_t where "UNMAPPED_RU_EPOCH = - 1"
type_synonym ruh_id_t = u8
definition DEFAULT_RUH :: ruh_id_t where "DEFAULT_RUH = 0"
definition MAX_RUHS :: nat where "MAX_RUHS = 3"
definition UNMAPPED_RUH :: ruh_id_t where "UNMAPPED_RUH = - 1"
definition INVALID_LSN :: LID where "INVALID_LSN = - 1"
definition INEXISTANT_LSN :: LID where "INEXISTANT_LSN = - 2"
definition NON_PERSISTED_LSN :: LID where "NON_PERSISTED_LSN = - 3"

section \<open>The LSN layout\<close>

definition LSN_LOG_ID_BITS :: nat where [lsn_defs]: "LSN_LOG_ID_BITS = 10"
definition LSN_OFFSET_BITS :: nat where [lsn_defs]: "LSN_OFFSET_BITS = 48"
definition LSN_MAX_LOG_ID :: u64 where
  [lsn_defs]: "LSN_MAX_LOG_ID = push_bit LSN_LOG_ID_BITS 1 - 1"
definition LSN_OFFSET_MASK :: u64 where
  [lsn_defs]: "LSN_OFFSET_MASK = push_bit LSN_OFFSET_BITS 1 - 1"
definition LSN_MASK :: u64 where
  [lsn_defs]: "LSN_MASK = push_bit (LSN_LOG_ID_BITS + LSN_OFFSET_BITS) 1 - 1"

definition makeLSN :: "u64 \<Rightarrow> u64 \<Rightarrow> LID" where
  "makeLSN log_id offset = (push_bit LSN_OFFSET_BITS log_id) OR offset"

definition lsnLogID :: "LID \<Rightarrow> u32" where
  "lsnLogID lsn = ucast (drop_bit LSN_OFFSET_BITS lsn)"

definition lsnOffset :: "LID \<Rightarrow> u64" where
  "lsnOffset lsn = lsn AND LSN_OFFSET_MASK"

definition isRegularLSN :: "LID \<Rightarrow> bool" where
  "isRegularLSN lsn \<longleftrightarrow> lsn AND NOT LSN_MASK = 0"

section \<open>Masks as bit predicates\<close>

lemma bit_LSN_masks [bit_simps]:
  "bit LSN_MAX_LOG_ID n \<longleftrightarrow> n < 10"
  "bit LSN_OFFSET_MASK n \<longleftrightarrow> n < 48"
  "bit LSN_MASK n \<longleftrightarrow> n < 58"
  unfolding lsn_defs bit_exp_minus_1 by auto

lemma bit_lsnOffset [bit_simps]: "bit (lsnOffset lsn) n \<longleftrightarrow> n < 48 \<and> bit lsn n"
  by (auto simp: lsnOffset_def bit_simps)

lemma isRegularLSN_iff_fits: "isRegularLSN lsn \<longleftrightarrow> fits 58 lsn"
  unfolding isRegularLSN_def lsn_defs exp_minus_1_eq_mask and_not_mask_eq_0_iff_fits by simp

lemma bit_lsnLogID [bit_simps]: "bit (lsnLogID lsn) n \<longleftrightarrow> n < 16 \<and> bit lsn (48 + n)"
  by (auto simp: lsnLogID_def LSN_OFFSET_BITS_def bit_simps dest: bit_imp_le_length)

lemma bit_makeLSN [bit_simps]:
  "bit (makeLSN log_id offset) n \<longleftrightarrow> 48 \<le> n \<and> n < 64 \<and> bit log_id (n - 48) \<or> bit offset n"
  by (auto simp: makeLSN_def LSN_OFFSET_BITS_def bit_simps)

section \<open>Round trips\<close>

lemma lsnOffset_makeLSN:
  "fits 48 offset \<Longrightarrow> lsnOffset (makeLSN log_id offset) = offset"
  by (rule bit_word_eqI) (auto simp: bit_simps dest: fits_bitD)

lemma lsnLogID_makeLSN:
  "fits 10 log_id \<Longrightarrow> fits 48 offset \<Longrightarrow> lsnLogID (makeLSN log_id offset) = ucast log_id"
  by (rule bit_word_eqI) (auto simp: bit_simps dest: fits_bitD)

lemma isRegularLSN_makeLSN:
  "fits 10 log_id \<Longrightarrow> fits 48 offset \<Longrightarrow> isRegularLSN (makeLSN log_id offset)"
  unfolding isRegularLSN_iff_fits by (auto simp: fits_iff_bit bit_simps)

lemma makeLSN_components:
  "isRegularLSN lsn \<Longrightarrow> makeLSN (ucast (lsnLogID lsn)) (lsnOffset lsn) = lsn"
  unfolding isRegularLSN_iff_fits
  by (rule bit_word_eqI) (auto simp: bit_simps dest: fits_bitD)

end
