(* ===== verification/Transition_System.thy ===== *)
theory Transition_System
  imports Prelude
begin

text \<open>
  Interleaving semantics shared by the concurrent components.  A component gives its initial
  states and a step relation whose steps are single atomic accesses; \<open>reach\<close> is the set of
  states some interleaving leads to.  The locale \<open>invariant_of\<close> is the contract an
  invariant has to meet, and holds the consequences the components use.
\<close>

inductive reach :: "('s \<Rightarrow> bool) \<Rightarrow> ('s \<Rightarrow> 's \<Rightarrow> bool) \<Rightarrow> 's \<Rightarrow> bool"
  for init :: "'s \<Rightarrow> bool" and step :: "'s \<Rightarrow> 's \<Rightarrow> bool" where
  reach_init: "init s \<Longrightarrow> reach init step s"
| reach_step: "reach init step s \<Longrightarrow> step s t \<Longrightarrow> reach init step t"

text \<open>Runs of a given length, for witnesses built step by step.\<close>

lemma reach_rtranclp: "step\<^sup>*\<^sup>* s t \<Longrightarrow> reach init step s \<Longrightarrow> reach init step t"
  by (induction rule: rtranclp_induct) (auto intro: reach_step)

locale invariant_of =
  fixes init :: "'s \<Rightarrow> bool" and step :: "'s \<Rightarrow> 's \<Rightarrow> bool" and inv :: "'s \<Rightarrow> bool"
  assumes inv_init: "init s \<Longrightarrow> inv s"
    and inv_step: "inv s \<Longrightarrow> step s t \<Longrightarrow> inv t"
begin

lemma reach_inv: "reach init step s \<Longrightarrow> inv s"
  by (induction rule: reach.induct) (auto intro: inv_init inv_step)

lemma inv_rtranclp: "step\<^sup>*\<^sup>* s t \<Longrightarrow> inv s \<Longrightarrow> inv t"
  by (induction rule: rtranclp_induct) (auto intro: inv_step)

end

text \<open>
  A second contract: a measure of history that no step of the component decreases (a version
  counter, a sequence number), so that it is monotone along every run.
\<close>

locale monotone_history = invariant_of +
  fixes hist :: "'s \<Rightarrow> 'h::order"
  assumes hist_step: "inv s \<Longrightarrow> step s t \<Longrightarrow> hist s \<le> hist t"
begin

lemma hist_rtranclp: "step\<^sup>*\<^sup>* s t \<Longrightarrow> inv s \<Longrightarrow> hist s \<le> hist t"
proof (induction rule: rtranclp_induct)
  case base
  show ?case by simp
next
  case (step y z)
  then have "inv y" by (blast intro: inv_rtranclp)
  with step show ?case by (blast intro: order_trans hist_step)
qed

end

end
