(* ===== verification/Page_State.thy ===== *)
theory Page_State
  imports Units Transition_System
begin

text \<open>
  The global page state of \<^verbatim>\<open>storage/buffer-manager/PageState.hpp\<close> and
  \<^verbatim>\<open>PageState.cpp\<close>: one 64-bit word per page that says whether the page is cached
  (HOT, with the frame's address), clean on the SSD (CLEAN, with the LSN of its last write
  back) or discarded (DISCARDED, with its pending log records).  The layout is

    \<open>[latch:1][state:2][nb_log_records:3][log_id:10][discard_count:3][lsn or array address:45]\<close>

  and a HOT word holds the frame address in its low 48 bits.

  The first part models the word and every operation on it.  The second part models the
  threads that use it concurrently: a step is one atomic access (load, compare-and-swap,
  store), and the step relation interleaves any number of threads.
\<close>

named_theorems ps_layout "the constants of the page state layout"

section \<open>Layout\<close>

datatype PAGE_STATE = NOT_SURE | DISCARDED | CLEAN | HOT

primrec page_state_code :: "PAGE_STATE \<Rightarrow> u64" where
  "page_state_code NOT_SURE = 0"
| "page_state_code DISCARDED = 1"
| "page_state_code CLEAN = 2"
| "page_state_code HOT = 3"

definition latch_bit :: u64 where [ps_layout]: "latch_bit = push_bit 63 1"
definition latch_mask :: u64 where [ps_layout]: "latch_mask = NOT (push_bit 63 1)"
definition state_shift :: nat where [ps_layout]: "state_shift = 61"
definition state_mask :: u64 where [ps_layout]: "state_mask = push_bit state_shift 3"
definition state_discarded_mask :: u64 where
  [ps_layout]: "state_discarded_mask = push_bit state_shift (page_state_code DISCARDED)"
definition state_clean_mask :: u64 where
  [ps_layout]: "state_clean_mask = push_bit state_shift (page_state_code CLEAN)"
definition state_hot_mask :: u64 where
  [ps_layout]: "state_hot_mask = push_bit state_shift (page_state_code HOT)"
definition max_log_records_bits :: nat where [ps_layout]: "max_log_records_bits = 3"
definition nb_log_records_shift :: nat where
  [ps_layout]: "nb_log_records_shift = state_shift - max_log_records_bits"
definition nb_log_records_mask :: u64 where
  [ps_layout]: "nb_log_records_mask = push_bit nb_log_records_shift 7"
definition max_log_id_bits :: nat where [ps_layout]: "max_log_id_bits = 10"
definition max_log_id :: u64 where [ps_layout]: "max_log_id = push_bit max_log_id_bits 1 - 1"
definition log_id_shift :: nat where
  [ps_layout]: "log_id_shift = nb_log_records_shift - max_log_id_bits"
definition log_id_mask :: u64 where [ps_layout]: "log_id_mask = push_bit log_id_shift max_log_id"
definition discard_count_bits :: nat where [ps_layout]: "discard_count_bits = 3"
definition max_discard_count :: u8 where
  [ps_layout]: "max_discard_count = push_bit discard_count_bits 1 - 1"
definition discard_count_shift :: nat where
  [ps_layout]: "discard_count_shift = log_id_shift - discard_count_bits"
definition discard_count_mask :: u64 where
  [ps_layout]: "discard_count_mask = push_bit discard_count_shift (ucast max_discard_count)"
definition lsn_mask :: u64 where [ps_layout]: "lsn_mask = push_bit discard_count_shift 1 - 1"
definition lsn_array_ptr_shift :: nat where [ps_layout]: "lsn_array_ptr_shift = 3"
definition lsn_array_ptr_mask :: u64 where [ps_layout]: "lsn_array_ptr_mask = lsn_mask"
definition bf_ptr_mask :: u64 where [ps_layout]: "bf_ptr_mask = push_bit log_id_shift 1 - 1"
definition full_lsn_mask :: u64 where [ps_layout]: "full_lsn_mask = log_id_mask OR lsn_mask"

section \<open>Encoding and decoding\<close>

definition fitsInPageState :: "LID \<Rightarrow> bool" where
  "fitsInPageState lsn \<longleftrightarrow> lsnOffset lsn AND NOT lsn_mask = 0"

definition encodeDiscardCount :: "u8 \<Rightarrow> u64" where
  "encodeDiscardCount dc = push_bit discard_count_shift (ucast dc)"

definition decodeDiscardCount :: "u64 \<Rightarrow> u8" where
  "decodeDiscardCount v = ucast (drop_bit discard_count_shift (v AND discard_count_mask))"

definition encodeLSNArray :: "u64 \<Rightarrow> u64 option" where
  "encodeLSNArray ptr =
     do { ensure (ptr AND (push_bit lsn_array_ptr_shift 1 - 1) = 0);
          ensure (drop_bit lsn_array_ptr_shift ptr AND NOT lsn_array_ptr_mask = 0);
          Some (drop_bit lsn_array_ptr_shift ptr) }"

definition decodeLSNArray :: "u64 \<Rightarrow> u64" where
  "decodeLSNArray v = push_bit lsn_array_ptr_shift (v AND lsn_array_ptr_mask)"

definition holdsLSNArray :: "flags \<Rightarrow> u64 \<Rightarrow> bool" where
  "holdsLSNArray fl pending_lsn_count \<longleftrightarrow>
     pending_lsn_count > 1 \<and> \<not> FLAGS_discard_lsns_in_parent fl"

section \<open>Queries\<close>

definition isLocked :: "u64 \<Rightarrow> bool" where
  "isLocked raw \<longleftrightarrow> raw AND latch_bit \<noteq> 0"

definition state_field :: "u64 \<Rightarrow> u64" where
  "state_field raw = drop_bit state_shift (raw AND state_mask)"

definition getSTATE :: "u64 \<Rightarrow> PAGE_STATE option" where
  "getSTATE raw =
     (let state = state_field raw
      in do { ensure (state < 4);
              Some (if state = 0 then NOT_SURE else if state = 1 then DISCARDED
                    else if state = 2 then CLEAN else HOT) })"

definition isClean :: "u64 \<Rightarrow> bool" where "isClean raw \<longleftrightarrow> getSTATE raw = Some CLEAN"
definition isDiscarded :: "u64 \<Rightarrow> bool" where "isDiscarded raw \<longleftrightarrow> getSTATE raw = Some DISCARDED"
definition isHot :: "u64 \<Rightarrow> bool" where "isHot raw \<longleftrightarrow> getSTATE raw = Some HOT"
definition isFree :: "u64 \<Rightarrow> bool" where "isFree raw \<longleftrightarrow> raw = 0"

definition getLogID :: "u64 \<Rightarrow> u32 option" where
  "getLogID raw =
     do { ensure (isDiscarded raw); Some (ucast (drop_bit log_id_shift (raw AND log_id_mask))) }"

definition getDiscardCount :: "u64 \<Rightarrow> u8 option" where
  "getDiscardCount raw =
     do { ensure (raw AND state_mask \<noteq> state_hot_mask); Some (decodeDiscardCount raw) }"

definition getBufferFrame :: "u64 \<Rightarrow> u64" where
  "getBufferFrame raw =
     (if raw AND state_mask \<noteq> state_hot_mask then 0 else raw AND bf_ptr_mask)"

definition asLSN :: "u64 \<Rightarrow> LID" where
  "asLSN raw = raw AND full_lsn_mask"

text \<open>What \<^verbatim>\<open>getLocked()\<close> reads out of the word it latched.\<close>

definition locked_view :: "flags \<Rightarrow> u64 \<Rightarrow> u64 \<times> u8" where
  "locked_view fl v1 =
     (let nb_log_records = (ucast (drop_bit nb_log_records_shift (v1 AND nb_log_records_mask)) :: u8)
      in (if holdsLSNArray fl (ucast nb_log_records) then decodeLSNArray v1 else v1 AND full_lsn_mask,
          nb_log_records))"

section \<open>Updates\<close>

text \<open>
  The value stored by \<^verbatim>\<open>tryDiscard()\<close> once it holds the latch.  \<open>ptr\<close> is the address of
  the LSN array and \<open>pending\<close> its contents.
\<close>

definition discard_word :: "flags \<Rightarrow> u64 \<Rightarrow> LID list \<Rightarrow> u64 \<Rightarrow> u64 \<Rightarrow> u8 \<Rightarrow> u64 option" where
  "discard_word fl ptr pending pending_lsn_count log_id discard_count =
     do { ensure (log_id < max_log_id);
          ensure (discard_count \<le> max_discard_count);
          let new_value = state_discarded_mask OR push_bit nb_log_records_shift pending_lsn_count
                          OR push_bit log_id_shift log_id OR encodeDiscardCount discard_count;
          if FLAGS_discard_lsns_in_parent fl \<or> pending_lsn_count = 1
          then do { last_lsn \<leftarrow> nth_opt pending (unat (pending_lsn_count - 1));
                    ensure (ucast (lsnLogID last_lsn) = log_id);
                    ensure (fitsInPageState last_lsn);
                    Some (new_value OR lsnOffset last_lsn) }
          else do { p \<leftarrow> encodeLSNArray ptr;
                    Some (new_value OR p) } }"

text \<open>\<^verbatim>\<open>tryDiscard()\<close> run without interference: the result and the new word.\<close>

definition tryDiscard :: "flags \<Rightarrow> u64 \<Rightarrow> LID list \<Rightarrow> u64 \<Rightarrow> u64 \<Rightarrow> u8 \<Rightarrow> u64 \<Rightarrow> (bool \<times> u64) option" where
  "tryDiscard fl ptr pending pending_lsn_count log_id discard_count raw =
     (if raw AND latch_bit \<noteq> 0 \<or> raw AND state_hot_mask \<noteq> state_hot_mask then Some (False, raw)
      else do { ensure (isHot (raw OR latch_bit));
                new_value \<leftarrow> discard_word fl ptr pending pending_lsn_count log_id discard_count;
                Some (True, new_value) })"

definition unlockClean :: "flags \<Rightarrow> LID \<Rightarrow> u64 \<Rightarrow> u8 \<Rightarrow> u64 option" where
  "unlockClean fl lsn0 log_id discard_count =
     do { ensure (lsn0 = NON_PERSISTED_LSN \<longrightarrow> FLAGS_skip_wal_recovery fl);
          let lsn = (if lsn0 = NON_PERSISTED_LSN then 0 else lsn0);
          ensure (isRegularLSN lsn);
          ensure (fitsInPageState lsn);
          ensure (log_id < max_log_id);
          ensure (discard_count \<le> max_discard_count);
          Some (lsn OR encodeDiscardCount discard_count OR state_clean_mask) }"

definition unlockBF :: "u64 \<Rightarrow> u64 option" where
  "unlockBF bf = do { ensure (bf AND NOT bf_ptr_mask = 0); Some (bf OR state_hot_mask) }"

definition unlock :: "u64 \<Rightarrow> u64 option" where
  "unlock raw = do { ensure (isLocked raw); Some (raw AND latch_mask) }"

definition free_word :: u64 where
  "free_word = 0"

section \<open>The layout as bit predicates\<close>

lemma ps_shifts [simp]:
  "state_shift = 61" "nb_log_records_shift = 58" "log_id_shift = 48" "discard_count_shift = 45"
  "lsn_array_ptr_shift = 3" "max_log_id_bits = 10" "discard_count_bits = 3"
  by (simp_all add: ps_layout)

lemma bit_max_log_id [bit_simps]: "bit max_log_id n \<longleftrightarrow> n < 10"
  unfolding max_log_id_def bit_exp_minus_1 by auto

lemma bit_max_discard_count [bit_simps]: "bit max_discard_count n \<longleftrightarrow> n < 3"
  unfolding max_discard_count_def bit_exp_minus_1 by auto

lemma bit_ps_masks [bit_simps]:
  "bit latch_bit n \<longleftrightarrow> n = 63"
  "bit latch_mask n \<longleftrightarrow> n < 63"
  "bit state_mask n \<longleftrightarrow> 61 \<le> n \<and> n < 63"
  "bit state_discarded_mask n \<longleftrightarrow> n = 61"
  "bit state_clean_mask n \<longleftrightarrow> n = 62"
  "bit state_hot_mask n \<longleftrightarrow> 61 \<le> n \<and> n < 63"
  "bit nb_log_records_mask n \<longleftrightarrow> 58 \<le> n \<and> n < 61"
  "bit log_id_mask n \<longleftrightarrow> 48 \<le> n \<and> n < 58"
  "bit discard_count_mask n \<longleftrightarrow> 45 \<le> n \<and> n < 48"
  unfolding latch_bit_def latch_mask_def state_mask_def state_discarded_mask_def
    state_clean_mask_def state_hot_mask_def nb_log_records_mask_def log_id_mask_def
    discard_count_mask_def page_state_code.simps ps_shifts bit_push_bit_iff bit_not_iff
    bit_small_numerals
  by (auto simp: bit_simps)

lemma bit_ps_low_masks [bit_simps]:
  "bit lsn_mask n \<longleftrightarrow> n < 45"
  "bit lsn_array_ptr_mask n \<longleftrightarrow> n < 45"
  "bit bf_ptr_mask n \<longleftrightarrow> n < 48"
  "bit full_lsn_mask n \<longleftrightarrow> n < 45 \<or> 48 \<le> n \<and> n < 58"
  unfolding full_lsn_mask_def lsn_array_ptr_mask_def lsn_mask_def bf_ptr_mask_def bit_or_iff bit_exp_minus_1
  by (auto simp: bit_simps)

lemma bit_encodeDiscardCount [bit_simps]:
  "bit (encodeDiscardCount dc) n \<longleftrightarrow> 45 \<le> n \<and> n < 53 \<and> bit dc (n - 45)"
  by (auto simp: encodeDiscardCount_def bit_simps dest: bit_imp_le_length)

lemma bit_decodeDiscardCount [bit_simps]:
  "bit (decodeDiscardCount v) n \<longleftrightarrow> n < 3 \<and> bit v (45 + n)"
  by (auto simp: decodeDiscardCount_def bit_simps)

lemma le_max_discard_count: "dc \<le> max_discard_count \<longleftrightarrow> fits 3 dc"
proof -
  have "max_discard_count = 7" by (simp add: max_discard_count_def)
  moreover have "dc \<le> 7 \<longleftrightarrow> unat dc < 8" by (simp add: word_le_nat_alt less_Suc_eq_le [symmetric])
  ultimately show ?thesis by (simp add: fits_iff_unat_less)
qed

lemma less_max_log_id: "log_id < max_log_id \<Longrightarrow> fits 10 log_id"
proof -
  assume "log_id < max_log_id"
  moreover have "max_log_id = 1023" by (simp add: max_log_id_def)
  ultimately have "log_id < 1023" by simp
  then have "unat log_id < 1023" by (simp add: word_less_nat_alt)
  then show ?thesis by (simp add: fits_iff_unat_less)
qed

lemma fitsInPageState_iff: "fitsInPageState lsn \<longleftrightarrow> fits 45 (lsnOffset lsn)"
  unfolding fitsInPageState_def lsn_mask_def exp_minus_1_eq_mask and_not_mask_eq_0_iff_fits by simp

lemma isLocked_iff: "isLocked raw \<longleftrightarrow> bit raw 63"
proof -
  have "raw AND latch_bit = 0 \<longleftrightarrow> \<not> bit raw 63"
    by (auto simp: word_eq_iff_bit bit_simps dest!: spec [of _ 63])
  then show ?thesis by (simp add: isLocked_def)
qed

lemma bit_state_field [bit_simps]: "bit (state_field raw) n \<longleftrightarrow> n < 2 \<and> bit raw (61 + n)"
  by (auto simp: state_field_def bit_simps)

lemma state_field_bits:
  "state_field raw = (if bit raw 61 then 1 else 0) + (if bit raw 62 then 2 else 0)"
proof -
  have "state_field raw = (if bit raw 61 then 1 else 0) OR (if bit raw 62 then 2 else 0)"
    by (rule bit_word_eqI) (auto simp: bit_simps less_Suc_eq numeral_2_eq_2 split: if_splits)
  then show ?thesis by (auto)
qed

lemma getSTATE_bits:
  "getSTATE raw = Some (if bit raw 62 then (if bit raw 61 then HOT else CLEAN)
                        else (if bit raw 61 then DISCARDED else NOT_SURE))"
  by (auto simp: getSTATE_def state_field_bits Let_def)

lemma masked_eq_hot_iff: "raw AND state_mask = state_hot_mask \<longleftrightarrow> bit raw 61 \<and> bit raw 62"
proof -
  have "state_hot_mask = state_mask" by (simp add: state_hot_mask_def state_mask_def)
  moreover have "raw AND state_mask = state_mask \<longleftrightarrow> bit raw 61 \<and> bit raw 62"
    by (auto simp: word_eq_iff_bit bit_simps le_less_Suc_eq numeral_eq_Suc less_Suc_eq)
  ultimately show ?thesis by simp
qed

lemma and_hot_mask_iff: "raw AND state_hot_mask = state_hot_mask \<longleftrightarrow> isHot raw"
proof -
  have "state_hot_mask = state_mask" by (simp add: state_hot_mask_def state_mask_def)
  then show ?thesis
    using masked_eq_hot_iff [of raw] by (auto simp: isHot_def getSTATE_bits)
qed

lemma isHot_iff: "isHot raw \<longleftrightarrow> raw AND state_mask = state_hot_mask"
  by (auto simp: isHot_def getSTATE_bits masked_eq_hot_iff)

lemma encodeLSNArray_SomeD:
  assumes "encodeLSNArray ptr = Some p"
  shows "p = drop_bit 3 ptr" "fits 45 p" "\<And>n. n < 3 \<Longrightarrow> \<not> bit ptr n"
proof -
  from assms have p: "p = drop_bit 3 ptr" and al: "ptr AND mask 3 = 0"
    and f: "p AND NOT (mask 45) = 0"
    unfolding encodeLSNArray_def lsn_array_ptr_mask_def lsn_mask_def ps_shifts exp_minus_1_eq_mask
    by auto
  show "p = drop_bit 3 ptr" by (fact p)
  show "fits 45 p" using f unfolding and_not_mask_eq_0_iff_fits .
  show "\<not> bit ptr n" if "n < 3" for n
  proof
    assume "bit ptr n"
    with that have "bit (ptr AND mask 3) n" by (simp only: bit_and_iff bit_mask_iff) simp
    with al show False by simp
  qed
qed

lemma decode_encodeLSNArray:
  assumes "encodeLSNArray ptr = Some p" "\<And>n. n < 45 \<Longrightarrow> bit v n \<longleftrightarrow> bit p n"
  shows "decodeLSNArray v = ptr"
proof (rule bit_word_eqI)
  note p = encodeLSNArray_SomeD [OF assms(1)]
  fix n assume "n < LENGTH(64)"
  show "bit (decodeLSNArray v) n \<longleftrightarrow> bit ptr n"
  proof (cases "n < 3")
    case True
    with p(3) show ?thesis by (simp add: decodeLSNArray_def bit_simps)
  next
    case False
    then obtain m where n: "n = 3 + m" by (metis le_Suc_ex not_less)
    from p(1) have "bit p m \<longleftrightarrow> bit ptr n" by (simp add: n bit_simps)
    with \<open>n < LENGTH(64)\<close> p(2) assms(2) [of m] show ?thesis
      by (auto simp: decodeLSNArray_def bit_simps n dest: fits_bitD)
  qed
qed

text \<open>The fields of a word, as bits: what \<open>getLocked()\<close> and the getters return.\<close>

lemma getLogID_eq:
  "isDiscarded raw \<Longrightarrow> fits 10 log_id \<Longrightarrow> (\<And>n. n < 10 \<Longrightarrow> bit raw (48 + n) \<longleftrightarrow> bit log_id n) \<Longrightarrow>
   getLogID raw = Some (ucast log_id)"
  by (auto simp: getLogID_def intro!: bit_word_eqI simp: bit_simps dest: fits_bitD)

lemma getDiscardCount_eq:
  "\<not> isHot raw \<Longrightarrow> fits 3 dc \<Longrightarrow> (\<And>n. n < 3 \<Longrightarrow> bit raw (45 + n) \<longleftrightarrow> bit dc n) \<Longrightarrow>
   getDiscardCount raw = Some dc"
  by (auto simp: getDiscardCount_def isHot_iff intro!: bit_word_eqI simp: bit_simps dest: fits_bitD)

lemma nb_log_records_eq:
  "fits 3 c \<Longrightarrow> (\<And>n. n < 3 \<Longrightarrow> bit raw (58 + n) \<longleftrightarrow> bit c n) \<Longrightarrow>
   ucast (drop_bit nb_log_records_shift (raw AND nb_log_records_mask)) = (ucast c :: u8)"
  by (auto intro!: bit_word_eqI simp: bit_simps dest: fits_bitD)

section \<open>Round trips\<close>

lemma bit_discard_word:
  assumes "discard_word fl ptr pending c log_id dc = Some w" "fits 3 c"
  shows "fits 10 log_id" "fits 3 dc"
    "\<And>n. n < 3 \<Longrightarrow> bit w (58 + n) \<longleftrightarrow> bit c n"
    "\<And>n. n < 10 \<Longrightarrow> bit w (48 + n) \<longleftrightarrow> bit log_id n"
    "\<And>n. n < 3 \<Longrightarrow> bit w (45 + n) \<longleftrightarrow> bit dc n"
    "getSTATE w = Some DISCARDED" "\<not> isLocked w"
proof -
  from assms(1) obtain p where w: "w = (state_discarded_mask OR push_bit nb_log_records_shift c
      OR push_bit log_id_shift log_id OR encodeDiscardCount dc) OR p" and p: "fits 45 p"
    and l: "fits 10 log_id" and d: "fits 3 dc"
    by (auto simp: discard_word_def Let_def le_max_discard_count fitsInPageState_iff less_max_log_id
        split: if_splits bind_splits dest: encodeLSNArray_SomeD(2))
  note bits = fits_bitD [OF p] fits_bitD [OF l] fits_bitD [OF d] fits_bitD [OF assms(2)]
  show "fits 10 log_id" "fits 3 dc" by (fact l, fact d)
  show "bit w (58 + n) \<longleftrightarrow> bit c n" if "n < 3" for n
    using that by (auto simp: w bit_simps dest: bits)
  show "bit w (48 + n) \<longleftrightarrow> bit log_id n" if "n < 10" for n
    using that by (auto simp: w bit_simps dest: bits)
  show "bit w (45 + n) \<longleftrightarrow> bit dc n" if "n < 3" for n
    using that by (auto simp: w bit_simps dest: bits)
  show "getSTATE w = Some DISCARDED" "\<not> isLocked w"
    by (auto simp: getSTATE_bits isLocked_iff w bit_simps dest: bits)
qed

lemma discard_word_lsn:
  assumes "discard_word fl ptr pending c log_id dc = Some w" "fits 3 c" "c \<noteq> 0"
    "\<not> holdsLSNArray fl c"
  shows "unat (c - 1) < length pending" "w AND full_lsn_mask = pending ! unat (c - 1)"
proof -
  have c1: "FLAGS_discard_lsns_in_parent fl \<or> c = 1"
  proof (rule ccontr)
    assume "\<not> ?thesis"
    then have "\<not> FLAGS_discard_lsns_in_parent fl" "c \<noteq> 1" by auto
    then have "1 < c" using assms(3) by unat_arith
    with \<open>\<not> FLAGS_discard_lsns_in_parent fl\<close> assms(4) show False
      by (simp add: holdsLSNArray_def)
  qed
  define l where "l = pending ! unat (c - 1)"
  from assms(1) c1 have len: "unat (c - 1) < length pending"
    and id: "ucast (lsnLogID l) = log_id" and lid: "fits 10 log_id" and dc: "fits 3 dc"
    and off: "fits 45 (lsnOffset l)"
    and w: "w = (state_discarded_mask OR push_bit nb_log_records_shift c
      OR push_bit log_id_shift log_id OR encodeDiscardCount dc) OR lsnOffset l"
    by (auto simp: discard_word_def Let_def le_max_discard_count fitsInPageState_iff l_def
        less_max_log_id split: if_splits)
  show "unat (c - 1) < length pending" by (fact len)
  note bits = fits_bitD [OF dc] fits_bitD [OF assms(2)]
  have hi: "bit log_id n \<longleftrightarrow> n < 16 \<and> bit l (48 + n)" for n
    by (auto simp: id [symmetric] bit_simps)
  have "w AND full_lsn_mask = l"
  proof (rule bit_word_eqI)
    fix n :: nat assume n: "n < LENGTH(64)"
    show "bit (w AND full_lsn_mask) n \<longleftrightarrow> bit l n"
    proof (cases "n < 48")
      case True
      with fits_bitD [OF off, of n] show ?thesis by (auto simp: w bit_simps dest: bits)
    next
      case False
      then obtain m where m: "n = 48 + m" by (metis le_Suc_ex not_less)
      with n hi [of m] fits_bitD [OF lid, of m] show ?thesis
        by (auto simp: w bit_simps dest: bits)
    qed
  qed
  then show "w AND full_lsn_mask = pending ! unat (c - 1)" by (simp add: l_def)
qed

lemma discard_word_array:
  assumes "discard_word fl ptr pending c log_id dc = Some w" "fits 3 c" "holdsLSNArray fl c"
  shows "decodeLSNArray w = ptr"
proof -
  from assms(3) have "\<not> FLAGS_discard_lsns_in_parent fl" "c \<noteq> 1"
    by (auto simp: holdsLSNArray_def)
  with assms(1) obtain p where p: "encodeLSNArray ptr = Some p"
    and w: "w = (state_discarded_mask OR push_bit nb_log_records_shift c
      OR push_bit log_id_shift log_id OR encodeDiscardCount dc) OR p"
    by (auto simp: discard_word_def Let_def split: bind_splits)
  show ?thesis
    by (rule decode_encodeLSNArray [OF p]) (auto simp: w bit_simps)
qed

lemma locked_view_discard_word:
  assumes "discard_word fl ptr pending c log_id dc = Some w" "fits 3 c" "c \<noteq> 0"
  shows "locked_view fl w =
     (if holdsLSNArray fl c then ptr else pending ! unat (c - 1), ucast c)"
proof -
  have nb: "ucast (drop_bit nb_log_records_shift (w AND nb_log_records_mask)) = (ucast c :: u8)"
    by (rule nb_log_records_eq [OF assms(2) bit_discard_word(3) [OF assms(1,2)]])
  have "ucast (ucast c :: u8) = c"
    using assms(2) by (auto intro!: bit_word_eqI simp: bit_simps dest: fits_bitD)
  with nb discard_word_lsn [OF assms] discard_word_array [OF assms(1,2)] show ?thesis
    by (simp add: locked_view_def Let_def)
qed

text \<open>
  C24: what is discarded is what is read back. If \<^verbatim>\<open>tryDiscard()\<close> succeeds with
  \<open>c\<close> pending log records (between 1 and 7, the width of the field), the page state it
  stores is unlatched and DISCARDED, the log id and the discard count are the ones given, and
  \<^verbatim>\<open>getLocked()\<close> returns the record count together with the address of the LSN array
  (several records, kept in the page state) or with the last pending LSN itself.
\<close>

theorem discard_then_lock:
  assumes "tryDiscard fl ptr pending c log_id dc raw = Some (True, w)" "fits 3 c" "c \<noteq> 0"
  shows "getSTATE w = Some DISCARDED \<and> \<not> isLocked w \<and> getLogID w = Some (ucast log_id) \<and>
    getDiscardCount w = Some dc \<and>
    locked_view fl w = (if holdsLSNArray fl c then ptr else pending ! unat (c - 1), ucast c)"
proof -
  from assms(1) have w: "discard_word fl ptr pending c log_id dc = Some w"
    by (auto simp: tryDiscard_def split: if_splits bind_splits)
  note b = bit_discard_word [OF w assms(2)]
  have "isDiscarded w" "\<not> isHot w" using b(6) by (auto simp: isDiscarded_def isHot_def)
  with b locked_view_discard_word [OF w assms(2,3)] getLogID_eq [of w log_id]
    getDiscardCount_eq [of w dc] show ?thesis by simp
qed

definition hot_word_example :: u64 where
  "hot_word_example = 4096 OR state_hot_mask"

definition pending_example :: "LID list" where
  "pending_example = [makeLSN 5 64, makeLSN 5 128]"

lemma tryDiscard_example:
  "tryDiscard default_flags 0 pending_example 2 5 1 hot_word_example =
     Some (True, the (discard_word default_flags 0 pending_example 2 5 1))"
  by code_simp

theorem discard_then_lock_witness:
  "let w = the (discard_word default_flags 0 pending_example 2 5 1)
   in tryDiscard default_flags 0 pending_example 2 5 1 hot_word_example = Some (True, w) \<and>
      getSTATE w = Some DISCARDED \<and> getLogID w = Some 5 \<and>
      locked_view default_flags w = (makeLSN 5 128, 2)"
  using discard_then_lock [OF tryDiscard_example]
  by (simp add: fits_iff_unat_less holdsLSNArray_def tryDiscard_example)
    (simp add: pending_example_def)

text \<open>
  a page unlocked as clean keeps its LSN and its discard count. Whenever
  \<^verbatim>\<open>unlockClean()\<close> stores a word, the word is CLEAN and unlatched, \<^verbatim>\<open>asLSN()\<close> gives
  back the LSN (0 for the marker of a page that was never logged), \<^verbatim>\<open>getDiscardCount()\<close> the
  count, and a later \<^verbatim>\<open>getLocked()\<close> sees no pending log record.
\<close>

theorem unlockClean_roundtrip:
  assumes "unlockClean fl lsn log_id dc = Some w"
  shows "getSTATE w = Some CLEAN \<and> \<not> isLocked w \<and> getDiscardCount w = Some dc \<and>
    asLSN w = (if lsn = NON_PERSISTED_LSN then 0 else lsn) \<and>
    locked_view fl w = (if lsn = NON_PERSISTED_LSN then 0 else lsn, 0)"
proof -
  define l where "l = (if lsn = NON_PERSISTED_LSN then 0 else lsn)"
  from assms have w: "w = l OR encodeDiscardCount dc OR state_clean_mask" and dc: "fits 3 dc"
    and l: "fits 58 l" and off: "fits 45 (lsnOffset l)"
    by (auto simp: unlockClean_def Let_def l_def isRegularLSN_iff_fits fitsInPageState_iff
        le_max_discard_count split: bind_splits)
  note bits = fits_bitD [OF dc] fits_bitD [OF l]
  have st: "getSTATE w = Some CLEAN" "\<not> isLocked w"
    by (auto simp: getSTATE_bits isLocked_iff w bit_simps dest: bits)
  have low: "bit l n \<Longrightarrow> n < 48 \<Longrightarrow> n < 45" for n
    using fits_bitD [OF off, of n] by (simp add: bit_simps)
  have "getDiscardCount w = Some dc"
    using st(1) dc by (intro getDiscardCount_eq) (auto simp: isHot_def w bit_simps dest: low bits)
  moreover have lsn: "w AND full_lsn_mask = l"
    by (rule bit_word_eqI) (auto simp: w bit_simps not_less dest: low bits)
  moreover have "ucast (drop_bit nb_log_records_shift (w AND nb_log_records_mask)) = (ucast (0::u64) :: u8)"
    by (rule nb_log_records_eq) (auto simp: w bit_simps fits_def dest: bits)
  ultimately show ?thesis
    using st by (simp add: asLSN_def locked_view_def holdsLSNArray_def Let_def l_def [symmetric])
qed

theorem unlockClean_roundtrip_witness:
  "unlockClean default_flags (makeLSN 7 4096) 7 3 =
     Some (makeLSN 7 4096 OR encodeDiscardCount 3 OR state_clean_mask) \<and>
   asLSN (makeLSN 7 4096 OR encodeDiscardCount 3 OR state_clean_mask) = makeLSN 7 4096"
proof -
  have "unlockClean default_flags (makeLSN 7 4096) 7 3 =
     Some (makeLSN 7 4096 OR encodeDiscardCount 3 OR state_clean_mask)"
    by code_simp
  moreover have "makeLSN 7 4096 \<noteq> NON_PERSISTED_LSN" by code_simp
  ultimately show ?thesis using unlockClean_roundtrip [of default_flags "makeLSN 7 4096" 7 3] by simp
qed

lemma unlockBF_roundtrip:
  assumes "unlockBF bf = Some w"
  shows "getSTATE w = Some HOT \<and> \<not> isLocked w \<and> getBufferFrame w = bf"
proof -
  from assms have w: "w = bf OR state_hot_mask" and f: "fits 48 bf"
    unfolding unlockBF_def bf_ptr_mask_def exp_minus_1_eq_mask and_not_mask_eq_0_iff_fits
    by auto
  have "getSTATE w = Some HOT" "\<not> isLocked w"
    by (auto simp: getSTATE_bits isLocked_iff w bit_simps dest: fits_bitD [OF f])
  moreover have "w AND bf_ptr_mask = bf"
    by (rule bit_word_eqI) (auto simp: w bit_simps dest: fits_bitD [OF f])
  ultimately show ?thesis
    by (auto simp: getBufferFrame_def isHot_iff [symmetric] isHot_def)
qed
section \<open>Threads\<close>

text \<open>
  Any number of threads run \<^verbatim>\<open>lock()\<close>, \<^verbatim>\<open>tryDiscard()\<close> and the stores that unlock,
  cut at their accesses to the word.  \<^verbatim>\<open>free()\<close> and \<^verbatim>\<open>unlockBF()\<close> store without looking at
  the word; the buffer manager calls them without the latch as well, when it gives a page its
  first frame and when it gives a page back.
\<close>

datatype ps_pc =
    Idle
  | LockLoaded u64      \<comment> \<open>\<open>lock()\<close> after its load\<close>
  | Held u64            \<comment> \<open>\<open>lock()\<close> returned this word\<close>
  | DiscardLoaded u64   \<comment> \<open>\<open>tryDiscard()\<close> after its load\<close>
  | DiscardHeld u64     \<comment> \<open>\<open>tryDiscard()\<close> after its compare-and-swap of this word\<close>

record ps_sys =
  raw :: u64
  pcs :: "nat \<Rightarrow> ps_pc"

definition ps_init :: "ps_sys \<Rightarrow> bool" where
  "ps_init s \<longleftrightarrow> raw s = 0 \<and> (\<forall>t. pcs s t = Idle)"

text \<open>The accesses of \<^verbatim>\<open>lock()\<close>.\<close>

inductive lock_step :: "ps_sys \<Rightarrow> ps_sys \<Rightarrow> bool" where
  lock_load: "pcs s t = Idle \<Longrightarrow> lock_step s (s\<lparr>pcs := (pcs s)(t := LockLoaded (raw s))\<rparr>)"
| lock_retry: "pcs s t = LockLoaded v \<Longrightarrow> isLocked v \<Longrightarrow> lock_step s (s\<lparr>pcs := (pcs s)(t := Idle)\<rparr>)"
| lock_cas: "pcs s t = LockLoaded v \<Longrightarrow> \<not> isLocked v \<Longrightarrow> raw s = v \<Longrightarrow>
    lock_step s (s\<lparr>raw := v OR latch_bit, pcs := (pcs s)(t := Held v)\<rparr>)"
| lock_cas_fail: "pcs s t = LockLoaded v \<Longrightarrow> \<not> isLocked v \<Longrightarrow> raw s \<noteq> v \<Longrightarrow>
    lock_step s (s\<lparr>pcs := (pcs s)(t := Idle)\<rparr>)"

text \<open>Those of \<^verbatim>\<open>tryDiscard()\<close>, and the stores that end \<^verbatim>\<open>lock()\<close>.\<close>

inductive word_step :: "flags \<Rightarrow> ps_sys \<Rightarrow> ps_sys \<Rightarrow> bool" for fl :: flags where
  discard_load: "pcs s t = Idle \<Longrightarrow> word_step fl s (s\<lparr>pcs := (pcs s)(t := DiscardLoaded (raw s))\<rparr>)"
| discard_refuse: "pcs s t = DiscardLoaded v \<Longrightarrow> isLocked v \<or> v AND state_hot_mask \<noteq> state_hot_mask \<Longrightarrow>
    word_step fl s (s\<lparr>pcs := (pcs s)(t := Idle)\<rparr>)"
| discard_cas: "pcs s t = DiscardLoaded v \<Longrightarrow> \<not> isLocked v \<Longrightarrow> v AND state_hot_mask = state_hot_mask \<Longrightarrow>
    raw s = v \<Longrightarrow> word_step fl s (s\<lparr>raw := v OR latch_bit, pcs := (pcs s)(t := DiscardHeld v)\<rparr>)"
| discard_cas_fail: "pcs s t = DiscardLoaded v \<Longrightarrow> \<not> isLocked v \<Longrightarrow> v AND state_hot_mask = state_hot_mask \<Longrightarrow>
    raw s \<noteq> v \<Longrightarrow> word_step fl s (s\<lparr>pcs := (pcs s)(t := Idle)\<rparr>)"
| discard_store: "pcs s t = DiscardHeld v \<Longrightarrow> isHot (raw s) \<Longrightarrow> fits 3 c \<Longrightarrow>
    discard_word fl ptr pending c log_id dc = Some w \<Longrightarrow>
    word_step fl s (s\<lparr>raw := w, pcs := (pcs s)(t := Idle)\<rparr>)"
| unlock_clean: "pcs s t = Held v \<Longrightarrow> unlockClean fl lsn log_id dc = Some w \<Longrightarrow>
    word_step fl s (s\<lparr>raw := w, pcs := (pcs s)(t := Idle)\<rparr>)"
| unlock_bf: "pcs s t = Held v \<Longrightarrow> unlockBF bf = Some w \<Longrightarrow>
    word_step fl s (s\<lparr>raw := w, pcs := (pcs s)(t := Idle)\<rparr>)"
| unlock_plain: "pcs s t = Held v \<Longrightarrow> unlock (raw s) = Some w \<Longrightarrow>
    word_step fl s (s\<lparr>raw := w, pcs := (pcs s)(t := Idle)\<rparr>)"

text \<open>The stores of \<^verbatim>\<open>allocatePage\<close>, \<^verbatim>\<open>resolveMetaSwip\<close> and \<^verbatim>\<open>reclaimPage\<close>.\<close>

inductive owner_store :: "ps_sys \<Rightarrow> ps_sys \<Rightarrow> bool" where
  allocate: "unlockBF bf = Some w \<Longrightarrow> owner_store s (s\<lparr>raw := w\<rparr>)"
| reclaim: "owner_store s (s\<lparr>raw := free_word\<rparr>)"

definition ps_step :: "flags \<Rightarrow> ps_sys \<Rightarrow> ps_sys \<Rightarrow> bool" where
  "ps_step fl s s' \<longleftrightarrow> lock_step s s' \<or> word_step fl s s' \<or> owner_store s s'"

text \<open>
  The owner of a page stores only while nobody has latched its word.  Nothing in the class enforces
  this; that it is needed is the lemma \<open>owner_store_breaks_latch\<close> below.
\<close>

definition careful_step :: "flags \<Rightarrow> ps_sys \<Rightarrow> ps_sys \<Rightarrow> bool" where
  "careful_step fl s s' \<longleftrightarrow> lock_step s s' \<or> word_step fl s s' \<or> owner_store s s' \<and> \<not> isLocked (raw s)"

fun holds :: "ps_pc \<Rightarrow> bool" where
  "holds (Held v) = True"
| "holds (DiscardHeld v) = True"
| "holds _ = False"

fun pc_ok :: "u64 \<Rightarrow> ps_pc \<Rightarrow> bool" where
  "pc_ok r (Held v) \<longleftrightarrow> \<not> isLocked v \<and> r = v OR latch_bit"
| "pc_ok r (DiscardHeld v) \<longleftrightarrow> \<not> isLocked v \<and> isHot v \<and> r = v OR latch_bit"
| "pc_ok r _ \<longleftrightarrow> True"

definition ps_inv :: "ps_sys \<Rightarrow> bool" where
  "ps_inv s \<longleftrightarrow> (isLocked (raw s) \<longleftrightarrow> (\<exists>t. holds (pcs s t))) \<and>
     (\<forall>t. pc_ok (raw s) (pcs s t)) \<and>
     (\<forall>t u. holds (pcs s t) \<longrightarrow> holds (pcs s u) \<longrightarrow> t = u)"

text \<open>Only a holder changes the word while it is latched: three shapes of steps.\<close>

lemma ps_inv_move:
  assumes "ps_inv s" "\<not> holds (pcs s t)" "\<not> holds p" "pc_ok (raw s) p"
  shows "ps_inv (s\<lparr>pcs := (pcs s)(t := p)\<rparr>)"
  using assms unfolding ps_inv_def by (auto split: if_splits) 

lemma ps_inv_acquire:
  assumes "ps_inv s" "\<not> isLocked (raw s)" "holds p" "pc_ok r p" "isLocked r"
  shows "ps_inv (s\<lparr>raw := r, pcs := (pcs s)(t := p)\<rparr>)"
proof -
  from assms(1,2) have no: "\<not> holds (pcs s u)" for u by (auto simp: ps_inv_def)
  then have "pc_ok r (pcs s u)" for u by (cases "pcs s u") (use no [of u] in auto)
  with assms no show ?thesis unfolding ps_inv_def by (auto split: if_splits)
qed

lemma ps_inv_release:
  assumes "ps_inv s" "holds (pcs s t)" "\<not> isLocked r"
  shows "ps_inv (s\<lparr>raw := r, pcs := (pcs s)(t := Idle)\<rparr>)"
proof -
  from assms(1,2) have no: "u \<noteq> t \<Longrightarrow> \<not> holds (pcs s u)" for u by (auto simp: ps_inv_def)
  then have "u \<noteq> t \<Longrightarrow> pc_ok r (pcs s u)" for u by (cases "pcs s u") (use no [of u] in auto)
  with assms no show ?thesis unfolding ps_inv_def by (auto split: if_splits)
qed

lemma ps_inv_store:
  assumes "ps_inv s" "\<not> isLocked (raw s)" "\<not> isLocked r"
  shows "ps_inv (s\<lparr>raw := r\<rparr>)"
proof -
  from assms(1,2) have no: "\<not> holds (pcs s u)" for u by (auto simp: ps_inv_def)
  then have "pc_ok r (pcs s u)" for u by (cases "pcs s u") (use no [of u] in auto)
  with assms no show ?thesis unfolding ps_inv_def by auto
qed

lemma isLocked_or_latch [simp]: "isLocked (v OR latch_bit)"
  by (simp add: isLocked_iff bit_simps)

lemma isHot_or_latch [simp]: "isHot (v OR latch_bit) \<longleftrightarrow> isHot v"
  by (simp add: isHot_def getSTATE_bits bit_simps)

lemma isLocked_0 [simp]: "\<not> isLocked 0"
  by (simp add: isLocked_iff)

lemma unlock_SomeD: "unlock r = Some w \<Longrightarrow> \<not> isLocked w"
  by (auto simp: unlock_def isLocked_iff bit_simps)

lemma ps_inv_lock: "lock_step s s' \<Longrightarrow> ps_inv s \<Longrightarrow> ps_inv s'"
proof (induction rule: lock_step.induct)
  case (lock_load s t)
  then show ?case by (intro ps_inv_move) auto
next
  case (lock_cas s t v)
  then show ?case by (intro ps_inv_acquire) auto
qed (auto intro: ps_inv_move)

lemma ps_inv_word: "word_step fl s s' \<Longrightarrow> ps_inv s \<Longrightarrow> ps_inv s'"
proof (induction rule: word_step.induct)
  case (discard_cas s t v)
  then show ?case by (intro ps_inv_acquire) (auto simp: and_hot_mask_iff)
next
  case (discard_load s t)
  then show ?case by (intro ps_inv_move) auto
next
  case (discard_store s t v c ptr pending log_id dc w)
  then show ?case by (intro ps_inv_release) (auto dest: bit_discard_word(7))
next
  case (unlock_clean s t v lsn log_id dc w)
  then show ?case by (intro ps_inv_release) (auto dest: unlockClean_roundtrip)
next
  case (unlock_bf s t v bf w)
  then show ?case by (intro ps_inv_release) (auto dest: unlockBF_roundtrip)
next
  case (unlock_plain s t v w)
  then show ?case by (intro ps_inv_release) (auto dest: unlock_SomeD)
qed (auto intro: ps_inv_move)

lemma ps_inv_step: "careful_step fl s s' \<Longrightarrow> ps_inv s \<Longrightarrow> ps_inv s'"
  unfolding careful_step_def
  by (auto intro: ps_inv_lock ps_inv_word ps_inv_store simp: free_word_def elim!: owner_store.cases dest: unlockBF_roundtrip)

lemma ps_inv_init: "ps_init s \<Longrightarrow> ps_inv s"
  by (simp add: ps_init_def ps_inv_def)

interpretation page_state_latch: invariant_of ps_init "careful_step fl" ps_inv for fl
  by unfold_locales (auto intro: ps_inv_init ps_inv_step)

lemma reach_pc_ok: "reach ps_init (careful_step fl) s \<Longrightarrow> pc_ok (raw s) (pcs s t)"
  using page_state_latch.reach_inv unfolding ps_inv_def by blast

lemma unlock_or_latch: "\<not> isLocked v \<Longrightarrow> unlock (v OR latch_bit) = Some v"
  by (auto simp: unlock_def isLocked_iff less_Suc_eq word_eq_iff_bit bit_simps numeral_eq_Suc)

lemma locked_view_or_latch: "locked_view fl (v OR latch_bit) = locked_view fl v"
proof -
  have eqs: "(v OR latch_bit) AND nb_log_records_mask = v AND nb_log_records_mask"
    "(v OR latch_bit) AND full_lsn_mask = v AND full_lsn_mask"
    "(v OR latch_bit) AND lsn_array_ptr_mask = v AND lsn_array_ptr_mask"
    by (auto intro!: bit_word_eqI simp: bit_simps)
  show ?thesis unfolding locked_view_def decodeLSNArray_def eqs ..
qed

text \<open>Thread 0 latches a fresh page state: the run used by the witness.\<close>

definition ps_start :: ps_sys where
  "ps_start = \<lparr>raw = 0, pcs = (\<lambda>_. Idle)\<rparr>"

definition ps_locked_by_0 :: ps_sys where
  "ps_locked_by_0 = \<lparr>raw = 0 OR latch_bit, pcs = (\<lambda>_. Idle)(0 := Held 0)\<rparr>"

lemma locks_0: "lock_step (ps_start\<lparr>pcs := (pcs ps_start)(0 := LockLoaded 0)\<rparr>) ps_locked_by_0" "lock_step ps_start (ps_start\<lparr>pcs := (pcs ps_start)(0 := LockLoaded 0)\<rparr>)"
  using lock_step.lock_cas [of "ps_start\<lparr>pcs := (pcs ps_start)(0 := LockLoaded 0)\<rparr>" 0 0] lock_step.lock_load [of ps_start 0]
  by (simp_all add: ps_start_def ps_locked_by_0_def)

lemma reach_ps_locked_by_0:
  assumes "\<And>s s'. lock_step s s' \<Longrightarrow> step s s'"
  shows "reach ps_init step ps_locked_by_0"
proof -
  have "reach ps_init step ps_start" by (rule reach_init) (simp add: ps_init_def ps_start_def)
  then show ?thesis using locks_0 assms by (meson reach_step)
qed

text \<open>Were the word given back while it is latched, a second thread could latch it.\<close>

lemma owner_store_breaks_latch:
  "\<exists>s. reach ps_init (ps_step fl) s \<and> holds (pcs s 0) \<and> holds (pcs s 1)"
proof -
  let ?a = "ps_locked_by_0\<lparr>raw := free_word\<rparr>"
  let ?b = "?a\<lparr>pcs := (pcs ?a)(1 := LockLoaded (raw ?a))\<rparr>"
  let ?c = "?b\<lparr>raw := free_word OR latch_bit, pcs := (pcs ?b)(1 := Held free_word)\<rparr>"
  have "reach ps_init (ps_step fl) ps_locked_by_0" by (rule reach_ps_locked_by_0) (simp add: ps_step_def)
  moreover have "ps_step fl ps_locked_by_0 ?a" by (simp add: ps_step_def owner_store.reclaim)
  moreover have "ps_step fl ?a ?b" by (simp only: ps_step_def, rule disjI1, rule lock_step.lock_load) (simp add: ps_locked_by_0_def)
  moreover have "ps_step fl ?b ?c"
    by (simp only: ps_step_def, rule disjI1, rule lock_step.lock_cas) (simp_all add: free_word_def)
  ultimately have "reach ps_init (ps_step fl) ?c" by (meson reach_step)
  then show ?thesis by (intro exI [of _ ?c]) (simp add: ps_locked_by_0_def)
qed

text \<open>
  C23: The latch of a page state protects its word.  In every interleaving of any number of threads
  running \<^verbatim>\<open>lock()\<close>, \<^verbatim>\<open>tryDiscard()\<close> and the stores that unlock, in which the stores
  that do not look at the word (allocation and reclamation of a page) happen while it is not
  latched, at most one thread is between acquiring the latch and releasing it.  While it is, the
  word is the one it read, with the latch bit: \<^verbatim>\<open>getLocked()\<close> decodes the LSN and the record
  count that were there, \<^verbatim>\<open>unlock()\<close> passes its check and restores the word, and the check
  \<^verbatim>\<open>ensure(isHot())\<close> inside \<^verbatim>\<open>tryDiscard()\<close> holds.
\<close>

theorem page_state_latch_protects:
  assumes "reach ps_init (careful_step fl) s" "holds (pcs s t)"
  shows "{u. holds (pcs s u)} = {t} \<and>
    (\<forall>v. pcs s t = Held v \<or> pcs s t = DiscardHeld v \<longrightarrow> raw s = v OR latch_bit \<and> \<not> isLocked v \<and>
       locked_view fl (raw s) = locked_view fl v \<and> unlock (raw s) = Some v) \<and>
    (\<forall>v. pcs s t = DiscardHeld v \<longrightarrow> isHot (raw s))"
proof -
  have "ps_inv s" by (rule page_state_latch.reach_inv [OF assms(1)])
  then have "{u. holds (pcs s u)} = {t}" "pc_ok (raw s) (pcs s t)" using assms(2) by (auto simp: ps_inv_def)
  then show ?thesis by (auto simp: locked_view_or_latch unlock_or_latch)
qed

theorem page_state_latch_protects_witness:
  "reach ps_init (careful_step default_flags) ps_locked_by_0 \<and> {u. holds (pcs ps_locked_by_0 u)} = {0} \<and>
   unlock (raw ps_locked_by_0) = Some 0"
proof -
  have h: "pcs ps_locked_by_0 0 = Held 0" by (simp add: ps_locked_by_0_def)
  have r: "reach ps_init (careful_step default_flags) ps_locked_by_0" by (rule reach_ps_locked_by_0) (simp add: careful_step_def)
  have "holds (pcs ps_locked_by_0 0)" by (simp add: h)
  from page_state_latch_protects [OF r this] show ?thesis using r h by blast
qed

end
