(* ===== verification/Swip.thy ===== *)
theory Swip
  imports Units
begin

text \<open>
  Swips (\<^verbatim>\<open>storage/buffer-manager/Swip.hpp\<close>): one 64-bit word in the parent that is
  either the address of the child's buffer frame (hot, or cooling with bit 62 set) or, with
  bit 63 set, the identifier of an evicted page.  The union with \<^verbatim>\<open>PageID\<close> reads the
  low 32 bits as \<^verbatim>\<open>page_id\<close> and the high 32 bits as \<^verbatim>\<open>meta\<close>
  (\<open>[status:3][pending LSN count:3][RU epoch:26]\<close>).

  \<^verbatim>\<open>assert\<close> is compiled out of release builds, so the assertions of \<^verbatim>\<open>warm()\<close>
  are hypotheses of the lemmas and not branches of the definitions.
\<close>

named_theorems swip_layout "the constants of the swip layout"

definition evicted_bit :: u64 where [swip_layout]: "evicted_bit = push_bit 63 1"
definition cool_bit :: u64 where [swip_layout]: "cool_bit = push_bit 62 1"
definition hot_mask :: u64 where [swip_layout]: "hot_mask = NOT (push_bit 62 3)"
definition dirty_bit :: u64 where [swip_layout]: "dirty_bit = push_bit 61 1"

definition pending_lsn_count_shift :: nat where [swip_layout]: "pending_lsn_count_shift = 26"
definition pending_lsn_count_mask :: u32 where
  [swip_layout]: "pending_lsn_count_mask = push_bit pending_lsn_count_shift 7"
definition ru_epoch_mask :: u32 where
  [swip_layout]: "ru_epoch_mask = push_bit pending_lsn_count_shift 1 - 1"

section \<open>The union of the word and \<^verbatim>\<open>PageID\<close>\<close>

definition page_id :: "u64 \<Rightarrow> u32" where "page_id swip = ucast swip"
definition meta :: "u64 \<Rightarrow> u32" where "meta swip = ucast (drop_bit 32 swip)"
definition from_PageID :: "u32 \<Rightarrow> u32 \<Rightarrow> u64" where
  "from_PageID p m = ucast p OR push_bit 32 (ucast m)"

section \<open>Queries\<close>

definition isHOT :: "u64 \<Rightarrow> bool" where "isHOT swip \<longleftrightarrow> swip AND (evicted_bit OR cool_bit) = 0"
definition isCOOL :: "u64 \<Rightarrow> bool" where "isCOOL swip \<longleftrightarrow> swip AND cool_bit \<noteq> 0"
definition isEVICTED :: "u64 \<Rightarrow> bool" where "isEVICTED swip \<longleftrightarrow> swip AND evicted_bit \<noteq> 0"
definition isDIRTY :: "u64 \<Rightarrow> bool" where "isDIRTY swip \<longleftrightarrow> swip AND dirty_bit \<noteq> 0"
definition asPageID :: "u64 \<Rightarrow> u64" where "asPageID swip = ucast (page_id swip)"
definition asBufferFrameMasked :: "u64 \<Rightarrow> u64" where "asBufferFrameMasked swip = swip AND hot_mask"
definition swip_ru_epoch :: "u64 \<Rightarrow> u32" where "swip_ru_epoch swip = meta swip AND ru_epoch_mask"
definition pendingLSNCount :: "u64 \<Rightarrow> u8" where
  "pendingLSNCount swip =
     (if \<not> isEVICTED swip then 0
      else ucast (drop_bit pending_lsn_count_shift (meta swip AND pending_lsn_count_mask)))"

section \<open>Updates\<close>

definition warm_bf :: "u64 \<Rightarrow> u64" where "warm_bf bf = bf"
definition warm :: "u64 \<Rightarrow> u64" where "warm swip = swip AND NOT cool_bit"
definition cool :: "u64 \<Rightarrow> u64" where "cool swip = swip OR cool_bit"

text \<open>
  In \<^verbatim>\<open>ensure_equal((pid & ~(0xFFFFFFFF)), 0)\<close> the literal has type \<^verbatim>\<open>unsigned int\<close>,
  so the complement is taken in 32 bits, before the conversion to 64.  In
  \<^verbatim>\<open>~(0x1FFFFFFF)\<close> the literal is a (signed) \<^verbatim>\<open>int\<close>, whose complement is
  negative and is sign extended.
\<close>

definition evict :: "PID \<Rightarrow> u64 option" where
  "evict pid =
     do { ensure (pid AND ucast (NOT (0xFFFFFFFF :: u32)) = 0);
          Some (from_PageID (ucast pid) 0x80000000) }"

definition evictAndMarkDirty :: "PID \<Rightarrow> u64 \<Rightarrow> u8 \<Rightarrow> u64 option" where
  "evictAndMarkDirty pid ru_epoch pending_lsn_count =
     do { ensure (pid AND ucast (NOT (0xFFFFFFFF :: u32)) = 0);
          ensure (ru_epoch AND NOT (ucast ru_epoch_mask) = 0);
          ensure (pending_lsn_count \<le> 7);
          ensure (ru_epoch AND scast (NOT (0x1FFFFFFF :: u32)) = 0);
          Some (from_PageID (ucast pid)
                 (ucast ru_epoch OR push_bit pending_lsn_count_shift (ucast pending_lsn_count)
                  OR 0xA0000000)) }"

section \<open>The layout as bit predicates\<close>

lemma bit_swip_meta_constants [bit_simps]:
  "bit (0x80000000 :: u32) n \<longleftrightarrow> n = 31"
  "bit (0xA0000000 :: u32) n \<longleftrightarrow> n = 31 \<or> n = 29"
  "bit (0xA0000000 :: u64) n \<longleftrightarrow> n = 31 \<or> n = 29"
proof -
  have 1: "(0x80000000 :: u32) = push_bit 31 1" by simp
  have 2: "(0xA0000000 :: u32) = push_bit 31 1 OR push_bit 29 1" by simp
  have 3: "(0xA0000000 :: u64) = push_bit 31 1 OR push_bit 29 1" by simp
  show "bit (0x80000000 :: u32) n \<longleftrightarrow> n = 31" "bit (0xA0000000 :: u32) n \<longleftrightarrow> n = 31 \<or> n = 29"
    "bit (0xA0000000 :: u64) n \<longleftrightarrow> n = 31 \<or> n = 29"
    unfolding 1 2 3 bit_or_iff bit_push_bit_iff bit_1_iff by auto
qed

lemma bit_swip_masks [bit_simps]:
  "bit evicted_bit n \<longleftrightarrow> n = 63" "bit cool_bit n \<longleftrightarrow> n = 62" "bit dirty_bit n \<longleftrightarrow> n = 61"
  "bit hot_mask n \<longleftrightarrow> n < 62"
  unfolding evicted_bit_def cool_bit_def dirty_bit_def hot_mask_def bit_not_iff bit_push_bit_iff
    bit_1_iff bit_small_numerals by auto

lemma bit_ru_epoch_mask [bit_simps]: "bit ru_epoch_mask n \<longleftrightarrow> n < 26"
  unfolding ru_epoch_mask_def pending_lsn_count_shift_def bit_exp_minus_1 by auto

lemma bit_pending_lsn_count_mask [bit_simps]: "bit pending_lsn_count_mask n \<longleftrightarrow> 26 \<le> n \<and> n < 29"
proof -
  have "(7::u32) = mask 3" by (simp add: mask_eq_exp_minus_1)
  then show ?thesis
    unfolding pending_lsn_count_mask_def pending_lsn_count_shift_def bit_push_bit_iff
    by (simp only: bit_mask_iff) auto
qed

lemma bit_from_PageID [bit_simps]:
  "bit (from_PageID p m) n \<longleftrightarrow> n < 32 \<and> bit p n \<or> 32 \<le> n \<and> n < 64 \<and> bit m (n - 32)"
  by (auto simp: from_PageID_def bit_simps dest: bit_imp_le_length)

lemma page_id_from_PageID [simp]: "page_id (from_PageID p m) = p"
  by (rule bit_word_eqI) (auto simp: page_id_def bit_simps)

lemma meta_from_PageID [simp]: "meta (from_PageID p m) = m"
  by (rule bit_word_eqI) (auto simp: meta_def bit_simps)

lemma swip_status_bits:
  "isEVICTED w \<longleftrightarrow> bit w 63" "isCOOL w \<longleftrightarrow> bit w 62" "isDIRTY w \<longleftrightarrow> bit w 61"
  "isHOT w \<longleftrightarrow> \<not> bit w 63 \<and> \<not> bit w 62"
proof -
  have "w AND evicted_bit = 0 \<longleftrightarrow> \<not> bit w 63" "w AND cool_bit = 0 \<longleftrightarrow> \<not> bit w 62"
    "w AND dirty_bit = 0 \<longleftrightarrow> \<not> bit w 61"
    unfolding evicted_bit_def cool_bit_def dirty_bit_def by (rule and_push_bit_1_eq_0)+
  moreover have "w AND (evicted_bit OR cool_bit) = (w AND evicted_bit) OR (w AND cool_bit)"
    by (rule bit.conj_disj_distrib)
  ultimately show "isEVICTED w \<longleftrightarrow> bit w 63" "isCOOL w \<longleftrightarrow> bit w 62" "isDIRTY w \<longleftrightarrow> bit w 61"
    "isHOT w \<longleftrightarrow> \<not> bit w 63 \<and> \<not> bit w 62"
    by (auto simp: isEVICTED_def isCOOL_def isDIRTY_def isHOT_def or_eq_0_iff)
qed

lemma pid_check_vacuous: "(pid :: u64) AND ucast (NOT (0xFFFFFFFF :: u32)) = 0"
  by simp

lemma bit_asPageID [bit_simps]: "bit (asPageID w) n \<longleftrightarrow> n < 32 \<and> bit w n"
  by (auto simp: asPageID_def page_id_def bit_simps)

lemma ru_epoch_check: "ru_epoch AND NOT (ucast ru_epoch_mask) = (0 :: u64) \<longleftrightarrow> fits 26 ru_epoch"
proof -
  have "ucast ru_epoch_mask = (mask 26 :: u64)"
    by (rule bit_word_eqI) (unfold bit_mask_iff, auto simp: bit_simps)
  then show ?thesis by (simp only: and_not_mask_eq_0_iff_fits)
qed

lemma le_7_iff_fits: "(c :: u8) \<le> 7 \<longleftrightarrow> fits 3 c"
  by (simp add: fits_iff_unat_less word_le_nat_alt less_Suc_eq_le [symmetric])

section \<open>Round trips\<close>

lemma evict_eq: "evict pid = Some (from_PageID (ucast pid) 0x80000000)"
  by (simp add: evict_def)

text \<open>
  a swip of a discarded page gives back what was stored in it. When
  \<^verbatim>\<open>evictAndMarkDirty()\<close> passes its checks for a page identifier of at most 32 bits, the
  swip is evicted and dirty, neither hot nor cooling, and \<^verbatim>\<open>asPageID()\<close>,
  \<^verbatim>\<open>ru_epoch()\<close> and \<^verbatim>\<open>pendingLSNCount()\<close> return the arguments.
\<close>

lemma evictAndMarkDirty_roundtrip:
  assumes "evictAndMarkDirty pid ru_epoch c = Some w" "fits 32 pid"
  shows "isEVICTED w \<and> isDIRTY w \<and> \<not> isCOOL w \<and> \<not> isHOT w \<and> asPageID w = pid \<and>
    ucast (swip_ru_epoch w) = ru_epoch \<and> pendingLSNCount w = c"
proof -
  define m where "m = (ucast ru_epoch OR push_bit 26 (ucast c) OR 0xA0000000 :: u32)"
  from assms(1) have e: "fits 26 ru_epoch" and c: "fits 3 c" and w: "w = from_PageID (ucast pid) m"
    by (auto simp: evictAndMarkDirty_def ru_epoch_check le_7_iff_fits pending_lsn_count_shift_def m_def)
  have m: "bit m n \<longleftrightarrow> n < 26 \<and> bit ru_epoch n \<or> 26 \<le> n \<and> bit c (n - 26) \<or> n = 29 \<or> n = 31" for n
    using fits_bitD [OF e, of n] fits_bitD [OF c, of "n - 26"]
    by (auto simp: m_def bit_simps)
  note bits = fits_bitD [OF assms(2)] fits_bitD [OF e] fits_bitD [OF c]
  have st: "isEVICTED w" "isDIRTY w" "\<not> isCOOL w" "\<not> isHOT w"
    by (auto simp: swip_status_bits w m bit_simps dest: bits)
  moreover have "asPageID w = pid"
    by (rule bit_word_eqI) (auto simp: w bit_simps dest: bits)
  moreover have "ucast (swip_ru_epoch w) = ru_epoch"
    unfolding swip_ru_epoch_def w meta_from_PageID
    by (rule bit_word_eqI) (auto simp: m bit_simps dest: bits)
  moreover have "ucast (drop_bit 26 (m AND pending_lsn_count_mask)) = c"
    by (rule bit_word_eqI) (auto simp: m bit_simps dest: bits)
  then have "pendingLSNCount w = c"
    using st(1) by (simp add: pendingLSNCount_def w pending_lsn_count_shift_def)
  ultimately show ?thesis by simp
qed

text \<open>
  the 32-bit check of \<^verbatim>\<open>evict()\<close> never fires. For every page identifier
  \<^verbatim>\<open>evict()\<close> stores a swip that is evicted and clean and whose page id is the argument
  reduced modulo \<open>2 ^ 32\<close>; so it is the argument exactly when that fits in 32 bits, and
  identifiers that differ only above bit 31 yield the same swip.
\<close>

lemma evict_page_id:
  "\<exists>w. evict pid = Some w \<and> isEVICTED w \<and> \<not> isDIRTY w \<and> pendingLSNCount w = 0 \<and>
     asPageID w = take_bit 32 pid \<and> (asPageID w = pid \<longleftrightarrow> fits 32 pid) \<and>
     evict (pid OR push_bit 32 k) = Some w"
proof -
  define w where "w = from_PageID (ucast pid) 0x80000000"
  have st: "isEVICTED w" "\<not> isDIRTY w" by (auto simp: swip_status_bits w_def bit_simps)
  have p: "asPageID w = take_bit 32 pid"
    by (rule bit_word_eqI) (auto simp: w_def bit_simps)
  have "pendingLSNCount w = 0"
    by (simp add: pendingLSNCount_def w_def pending_lsn_count_mask_def pending_lsn_count_shift_def)
  moreover have "ucast (pid OR push_bit 32 k) = (ucast pid :: u32)"
    by (rule bit_word_eqI) (auto simp: bit_simps)
  ultimately show ?thesis
    using st p unfolding evict_eq by (auto simp: w_def fits_def)
qed

lemma cool_warm:
  assumes "isHOT w"
  shows "isCOOL (cool w)" "\<not> isEVICTED (cool w)" "warm (cool w) = w" "asBufferFrameMasked (cool w) = w"
proof -
  have w: "\<not> bit w 63" "\<not> bit w 62" using assms by (auto simp: swip_status_bits)
  show "isCOOL (cool w)" "\<not> isEVICTED (cool w)" using w by (auto simp: swip_status_bits cool_def bit_simps)
  show "warm (cool w) = w" using w by (auto intro!: bit_word_eqI simp: warm_def cool_def bit_simps)
  show "asBufferFrameMasked (cool w) = w"
    using w by (auto simp: asBufferFrameMasked_def cool_def word_eq_iff_bit bit_simps less_Suc_eq numeral_eq_Suc)
qed

end
