(* ===== verification/Saturating_Counter.thy ===== *)
theory Saturating_Counter
  imports Prelude
begin

text \<open>
  The saturating counter of \<^verbatim>\<open>shared-headers/SaturatingCounter.hpp\<close>, a template over
  an integral type \<^verbatim>\<open>T\<close> whose operators take any integral type \<^verbatim>\<open>U\<close>.  A C++
  integral type is a width and a signedness; its values are the integers of its range, and
  \<^verbatim>\<open>static_cast\<close> reduces modulo \<open>2 ^ width\<close> into that range.
\<close>

record int_type =
  bits :: nat
  is_signed :: bool

definition min_value :: "int_type \<Rightarrow> int" where
  "min_value T = (if is_signed T then - (2 ^ (bits T - 1)) else 0)"

definition max_value :: "int_type \<Rightarrow> int" where
  "max_value T = (if is_signed T then 2 ^ (bits T - 1) - 1 else 2 ^ bits T - 1)"

definition in_range :: "int_type \<Rightarrow> int \<Rightarrow> bool" where
  "in_range T x \<longleftrightarrow> 0 < bits T \<and> min_value T \<le> x \<and> x \<le> max_value T"

definition cast_unsigned :: "int_type \<Rightarrow> int \<Rightarrow> int" where
  "cast_unsigned T x = x mod 2 ^ bits T"

definition cast_to :: "int_type \<Rightarrow> int \<Rightarrow> int" where
  "cast_to T x =
     (let u = cast_unsigned T x
      in if is_signed T \<and> 2 ^ (bits T - 1) \<le> u then u - 2 ^ bits T else u)"

section \<open>Saturating primitives\<close>

text \<open>
  \<open>m\<close> is an unsigned magnitude.  The comparison is made in the wider of the two unsigned
  types, where both operands keep their value.
\<close>

definition add_mag :: "int_type \<Rightarrow> int \<Rightarrow> int \<Rightarrow> int" where
  "add_mag T a m =
     (let room = cast_unsigned T (cast_unsigned T (max_value T) - cast_unsigned T a)
      in if m \<ge> room then max_value T
         else cast_to T (cast_unsigned T (cast_unsigned T a + cast_unsigned T m)))"

definition sub_mag :: "int_type \<Rightarrow> int \<Rightarrow> int \<Rightarrow> int" where
  "sub_mag T a m =
     (let room = cast_unsigned T (cast_unsigned T a - cast_unsigned T (min_value T))
      in if m \<ge> room then min_value T
         else cast_to T (cast_unsigned T (cast_unsigned T a - cast_unsigned T m)))"

definition magnitude_of_negative :: "int_type \<Rightarrow> int \<Rightarrow> int" where
  "magnitude_of_negative U d = cast_to U (0 - cast_unsigned U d)"

definition add_sat :: "int_type \<Rightarrow> int_type \<Rightarrow> int \<Rightarrow> int \<Rightarrow> int" where
  "add_sat T U a d =
     (if is_signed U \<and> d < 0 then sub_mag T a (cast_unsigned U (magnitude_of_negative U d))
      else add_mag T a (cast_unsigned U d))"

definition sub_sat :: "int_type \<Rightarrow> int_type \<Rightarrow> int \<Rightarrow> int \<Rightarrow> int" where
  "sub_sat T U a d =
     (if is_signed U \<and> d < 0 then add_mag T a (cast_unsigned U (magnitude_of_negative U d))
      else sub_mag T a (cast_unsigned U d))"

section \<open>The counter's operators\<close>

definition counter_of :: "int_type \<Rightarrow> int_type \<Rightarrow> int \<Rightarrow> int" where
  "counter_of T U x = add_sat T U 0 x"

definition at_max :: "int_type \<Rightarrow> int \<Rightarrow> bool" where "at_max T v \<longleftrightarrow> v = max_value T"
definition at_min :: "int_type \<Rightarrow> int \<Rightarrow> bool" where "at_min T v \<longleftrightarrow> v = min_value T"

definition pre_increment :: "int_type \<Rightarrow> int \<Rightarrow> int" where
  "pre_increment T v = (if v \<noteq> max_value T then cast_to T (v + 1) else v)"

definition pre_decrement :: "int_type \<Rightarrow> int \<Rightarrow> int" where
  "pre_decrement T v = (if v \<noteq> min_value T then cast_to T (v - 1) else v)"

text \<open>The postfix operators return the old value beside the new one.\<close>

definition post_increment :: "int_type \<Rightarrow> int \<Rightarrow> int \<times> int" where
  "post_increment T v = (v, pre_increment T v)"

definition post_decrement :: "int_type \<Rightarrow> int \<Rightarrow> int \<times> int" where
  "post_decrement T v = (v, pre_decrement T v)"

definition plus_assign :: "int_type \<Rightarrow> int_type \<Rightarrow> int \<Rightarrow> int \<Rightarrow> int" where
  "plus_assign T U v d = add_sat T U v d"

definition minus_assign :: "int_type \<Rightarrow> int_type \<Rightarrow> int \<Rightarrow> int \<Rightarrow> int" where
  "minus_assign T U v d = sub_sat T U v d"

section \<open>Specification\<close>

definition clamp :: "int_type \<Rightarrow> int \<Rightarrow> int" where
  "clamp T x = max (min_value T) (min (max_value T) x)"

lemma pow_bits_split: "0 < bits T \<Longrightarrow> (2::int) ^ bits T = 2 * 2 ^ (bits T - 1)"
  by (metis Suc_diff_1 power_Suc)

lemma in_range_bounds:
  assumes "in_range T x"
  shows "min_value T \<le> 0" "0 \<le> max_value T" "max_value T - min_value T = 2 ^ bits T - 1"
    "min_value T \<le> x" "x \<le> max_value T"
  using assms pow_bits_split [of T]
  by (auto simp: in_range_def min_value_def max_value_def)

lemma in_range_minmax: "0 < bits T \<Longrightarrow> in_range T (max_value T) \<and> in_range T (min_value T)"
proof -
  have "(1::int) \<le> 2 ^ (bits T - 1)" by simp
  then show "0 < bits T \<Longrightarrow> ?thesis"
    using pow_bits_split [of T] by (auto simp: in_range_def min_value_def max_value_def)
qed

lemma cast_to_in_range: "in_range T x \<Longrightarrow> cast_to T x = x"
proof -
  assume r: "in_range T x"
  have p: "(2::int) ^ bits T = 2 * 2 ^ (bits T - 1)" using r by (intro pow_bits_split) (simp add: in_range_def)
  show ?thesis
  proof (cases "0 \<le> x")
    case True
    with r p show ?thesis
      by (auto simp: cast_to_def cast_unsigned_def in_range_def min_value_def max_value_def Let_def
          split: if_splits)
  next
    case False
    then have s: "is_signed T" "- (2 ^ (bits T - 1)) \<le> x"
      using r by (auto simp: in_range_def min_value_def split: if_splits)
    have "x mod 2 ^ bits T = (x + 2 ^ bits T) mod 2 ^ bits T" by simp
    also have "\<dots> = x + 2 ^ bits T" using s(2) False p by (intro mod_pos_pos_trivial) auto
    finally show ?thesis using s p by (auto simp: cast_to_def cast_unsigned_def Let_def)
  qed
qed

lemma cast_unsigned_cong: "x mod 2 ^ bits T = y mod 2 ^ bits T \<Longrightarrow> cast_to T x = cast_to T y"
  by (simp add: cast_to_def cast_unsigned_def)

lemma cast_unsigned_small: "0 \<le> x \<Longrightarrow> x < 2 ^ bits T \<Longrightarrow> cast_unsigned T x = x"
  by (simp add: cast_unsigned_def)

lemma add_mag_eq:
  assumes "in_range T a" "0 \<le> m"
  shows "add_mag T a m = clamp T (a + m)"
proof -
  note b = in_range_bounds [OF assms(1)]
  have room: "cast_unsigned T (cast_unsigned T (max_value T) - cast_unsigned T a) = max_value T - a"
    unfolding cast_unsigned_def mod_diff_eq using b by (intro mod_pos_pos_trivial) linarith+
  show ?thesis
  proof (cases "m \<ge> max_value T - a")
    case True
    with b show ?thesis unfolding add_mag_def room by (auto simp: clamp_def)
  next
    case False
    then have r: "in_range T (a + m)" using assms b by (auto simp: in_range_def)
    have "cast_to T (cast_unsigned T (cast_unsigned T a + cast_unsigned T m)) = cast_to T (a + m)"
      by (rule cast_unsigned_cong) (simp add: cast_unsigned_def mod_add_eq)
    with r False show ?thesis
      unfolding add_mag_def room by (auto simp: cast_to_in_range clamp_def in_range_def)
  qed
qed

lemma sub_mag_eq:
  assumes "in_range T a" "0 \<le> m"
  shows "sub_mag T a m = clamp T (a - m)"
proof -
  note b = in_range_bounds [OF assms(1)]
  have room: "cast_unsigned T (cast_unsigned T a - cast_unsigned T (min_value T)) = a - min_value T"
    unfolding cast_unsigned_def mod_diff_eq using b by (intro mod_pos_pos_trivial) linarith+
  show ?thesis
  proof (cases "m \<ge> a - min_value T")
    case True
    with b show ?thesis unfolding sub_mag_def room by (auto simp: clamp_def)
  next
    case False
    then have r: "in_range T (a - m)" using assms b by (auto simp: in_range_def)
    have "cast_to T (cast_unsigned T (cast_unsigned T a - cast_unsigned T m)) = cast_to T (a - m)"
      by (rule cast_unsigned_cong) (simp add: cast_unsigned_def mod_diff_eq)
    with r False show ?thesis
      unfolding sub_mag_def room by (auto simp: cast_to_in_range clamp_def in_range_def)
  qed
qed

lemma magnitude_eq:
  assumes "in_range U d" "d < 0"
  shows "cast_unsigned U (magnitude_of_negative U d) = - d"
proof -
  note b = in_range_bounds [OF assms(1)]
  have "cast_unsigned U (cast_to U x) = cast_unsigned U x" for x
    by (auto simp: cast_to_def cast_unsigned_def Let_def)
  then have "cast_unsigned U (magnitude_of_negative U d) = cast_unsigned U (- d)"
    by (simp add: magnitude_of_negative_def cast_unsigned_def mod_minus_eq)
  also have "\<dots> = - d" using b assms(2) by (intro cast_unsigned_small) auto
  finally show ?thesis .
qed

lemma nonneg_magnitude: "in_range U d \<Longrightarrow> 0 \<le> d \<Longrightarrow> cast_unsigned U d = d"
  using in_range_bounds [of U d] by (intro cast_unsigned_small) auto

text \<open>
  the counter saturates and never wraps. For any integral counter type \<open>T\<close> and any
  integral operand type \<open>U\<close>, signed or unsigned and of any width, the assignment operators
  \<^verbatim>\<open>+=\<close> and \<^verbatim>\<open>-=\<close> compute the exact integer sum or difference clamped to the
  range of \<open>T\<close>, \<^verbatim>\<open>++\<close> and \<^verbatim>\<open>--\<close> are the clamped successor and predecessor, the
  converting constructor clamps its argument, and the result is a value of \<open>T\<close> again. This
  includes the smallest negative operand, whose magnitude has no value in \<open>U\<close>.
\<close>

lemma saturating_counter_exact:
  assumes "in_range T v" "in_range U d"
  shows "plus_assign T U v d = clamp T (v + d) \<and> minus_assign T U v d = clamp T (v - d) \<and>
    pre_increment T v = clamp T (v + 1) \<and> pre_decrement T v = clamp T (v - 1) \<and>
    counter_of T U d = clamp T d \<and> in_range T (clamp T x)"
proof -
  have z: "in_range T 0" using in_range_bounds [OF assms(1)] assms(1) by (simp add: in_range_def)
  have "add_sat T U a d = clamp T (a + d)" "sub_sat T U a d = clamp T (a - d)" if "in_range T a" for a
    using that assms(2)
    by (auto simp: add_sat_def sub_sat_def add_mag_eq sub_mag_eq magnitude_eq nonneg_magnitude
        in_range_def min_value_def split: if_splits)
  moreover have "pre_increment T v = clamp T (v + 1)"
    using in_range_bounds [OF assms(1)] assms(1)
    by (cases "v = max_value T") (auto simp: pre_increment_def clamp_def cast_to_in_range in_range_def)
  moreover have "pre_decrement T v = clamp T (v - 1)"
    using in_range_bounds [OF assms(1)] assms(1)
    by (cases "v = min_value T") (auto simp: pre_decrement_def clamp_def cast_to_in_range in_range_def)
  moreover have "in_range T (clamp T x)"
    using in_range_bounds [OF assms(1)] assms(1) by (auto simp: clamp_def in_range_def)
  ultimately show ?thesis
    using assms(1) z by (simp add: plus_assign_def minus_assign_def counter_of_def)
qed

text \<open>\<^verbatim>\<open>saturating_u8\<close> (the per page log statistic), decremented by \<^verbatim>\<open>INT8_MIN\<close>.\<close>

end
