(* ===== verification/Misc.thy ===== *)
theory Misc
  imports Prelude "HOL-Library.List_Lexorder"
begin

text \<open>
  The helpers of \<^verbatim>\<open>backend/leanstore/utils/Misc.hpp\<close> that the storage engine computes
  with: alignment to a power of two and the fold functions, which write an integer as a key
  whose byte order is the integer order.  Memory is a list of bytes; the machine is little
  endian, so storing an integer writes its bytes from the lowest one.
  \<^verbatim>\<open>__builtin_bswap\<close> reverses the bytes of its operand.
\<close>

type_synonym key = "u8 list"

section \<open>Alignment\<close>

definition upAlign :: "u64 \<Rightarrow> u64 \<Rightarrow> u64" where
  "upAlign x b = (x + (b - 1)) AND NOT (b - 1)"

definition downAlign :: "u64 \<Rightarrow> u64 \<Rightarrow> u64" where
  "downAlign x b = x - (x AND (b - 1))"

lemma unat_and_mask: "unat (x AND mask k :: u64) = unat x mod 2 ^ k"
  unfolding take_bit_eq_mask [symmetric] unsigned_take_bit_eq by (rule take_bit_eq_mod)

lemma downAlign_unat:
  "unat (downAlign x (push_bit k 1)) = unat x - unat x mod 2 ^ k"
proof -
  have "unat x mod 2 ^ k \<le> unat x" by simp
  then show ?thesis
    unfolding downAlign_def exp_minus_1_eq_mask
    by (simp add: unat_and_mask unat_sub word_le_nat_alt)
qed

lemma upAlign_downAlign: "upAlign x (push_bit k 1) = downAlign (x + mask k) (push_bit k 1)"
proof -
  have "(y :: u64) - (y AND mask k) = y AND NOT (mask k)" for y
  proof -
    have "(y AND mask k) + (y AND NOT (mask k)) = (y AND mask k) OR (y AND NOT (mask k))"
      by (rule disjunctive_add) (auto simp: bit_simps)
    also have "\<dots> = y" by (rule bit_word_eqI) (auto simp: bit_simps)
    finally show ?thesis by (simp add: algebra_simps)
  qed
  then show ?thesis unfolding upAlign_def downAlign_def exp_minus_1_eq_mask by simp
qed

lemma upAlign_unat:
  assumes "k < 64" "unat x + 2 ^ k \<le> 2 ^ 64"
  shows "unat (upAlign x (push_bit k 1)) =
      (unat x + (2 ^ k - 1)) - (unat x + (2 ^ k - 1)) mod 2 ^ k"
proof -
  have m: "unat (mask k :: u64) = 2 ^ k - 1"
  proof -
    have "unat (take_bit k (-1) :: u64) = take_bit k (mask 64)"
      unfolding unsigned_take_bit_eq unsigned_minus_1_eq_mask by simp
    also have "take_bit k (mask 64 :: nat) = mask k"
      using assms(1) unfolding take_bit_of_mask by (simp add: min_def)
    finally show ?thesis by (simp only: take_bit_minus_one_eq_mask) (simp add: mask_eq_exp_minus_1)
  qed
  have "unat (x + mask k) = unat x + (2 ^ k - 1)"
    using assms m by (simp add: unat_add_lem [THEN iffD1])
  then show ?thesis
    unfolding upAlign_downAlign downAlign_unat by simp
qed

section \<open>Bytes of an integer\<close>

definition le_bytes :: "nat \<Rightarrow> 'a::len word \<Rightarrow> u8 list" where
  "le_bytes n x = map (\<lambda>i. ucast (drop_bit (8 * i) x)) [0..<n]"

fun le_word :: "u8 list \<Rightarrow> 'a::len word" where
  "le_word [] = 0"
| "le_word (b # bs) = ucast b OR push_bit 8 (le_word bs)"

definition bswap :: "nat \<Rightarrow> 'a::len word \<Rightarrow> 'a word" where
  "bswap n x = le_word (rev (le_bytes n x))"

section \<open>Fold and unfold\<close>

definition fold_u64 :: "u64 \<Rightarrow> u8 list" where "fold_u64 x = le_bytes 8 (bswap 8 x)"
definition fold_u32 :: "u32 \<Rightarrow> u8 list" where "fold_u32 x = le_bytes 4 (bswap 4 x)"
definition fold_u16 :: "u16 \<Rightarrow> u8 list" where "fold_u16 x = le_bytes 2 (bswap 2 x)"
definition fold_u8 :: "u8 \<Rightarrow> u8 list" where "fold_u8 x = [x]"

definition unfold_u64 :: "u8 list \<Rightarrow> u64" where "unfold_u64 inp = bswap 8 (le_word (take 8 inp))"
definition unfold_u32 :: "u8 list \<Rightarrow> u32" where "unfold_u32 inp = bswap 4 (le_word (take 4 inp))"
definition unfold_u16 :: "u8 list \<Rightarrow> u16" where "unfold_u16 inp = bswap 2 (le_word (take 2 inp))"
definition unfold_u8 :: "u8 list \<Rightarrow> u8" where "unfold_u8 inp = hd inp"

text \<open>
  The signed versions flip the sign bit.  In \<^verbatim>\<open>x ^ (1ul << 31)\<close> the 32-bit operand is
  first sign extended to 64 bits, and the argument of \<^verbatim>\<open>__builtin_bswap32\<close> is cut to 32.
  A signed integer is the word that \<open>sint\<close> reads.
\<close>

definition fold_s32 :: "u32 \<Rightarrow> u8 list" where
  "fold_s32 x = le_bytes 4 (bswap 4 (ucast ((scast x :: u64) XOR push_bit 31 1) :: u32))"
definition unfold_s32 :: "u8 list \<Rightarrow> u32" where
  "unfold_s32 inp = ucast ((ucast (bswap 4 (le_word (take 4 inp) :: u32)) :: u64) XOR push_bit 31 1)"
definition fold_s64 :: "u64 \<Rightarrow> u8 list" where
  "fold_s64 x = le_bytes 8 (bswap 8 (x XOR push_bit 63 1))"
definition unfold_s64 :: "u8 list \<Rightarrow> u64" where
  "unfold_s64 inp = bswap 8 (le_word (take 8 inp)) XOR push_bit 63 1"

section \<open>Bytes and words\<close>

lemma length_le_bytes [simp]: "length (le_bytes n x) = n"
  by (simp add: le_bytes_def)

lemma le_bytes_Suc: "le_bytes (Suc n) x = le_bytes n x @ [ucast (drop_bit (8 * n) x)]"
  by (simp add: le_bytes_def)

lemma bit_le_word:
  "bit (le_word bs :: 'a::len word) i \<longleftrightarrow>
     i < LENGTH('a) \<and> i < 8 * length bs \<and> bit (bs ! (i div 8)) (i mod 8)"
proof (induction bs arbitrary: i)
  case Nil
  then show ?case by simp
next
  case (Cons b bs)
  show ?case
  proof (cases "i < 8")
    case True
    then show ?thesis by (auto simp: bit_simps)
  next
    case False
    then obtain j where j: "i = 8 + j" by (metis le_Suc_ex not_less)
    have "\<not> bit b i" using False bit_imp_le_length [of b i] by auto
    moreover have "i div 8 = Suc (j div 8)" using j by simp
    ultimately show ?thesis by (auto simp: bit_simps Cons.IH j)
  qed
qed

lemma bit_nth_le_bytes:
  "i < n \<Longrightarrow> bit (le_bytes n x ! i) j \<longleftrightarrow> j < 8 \<and> bit x (8 * i + j)"
  by (auto simp: le_bytes_def bit_simps)

lemma le_word_le_bytes: "8 * n = LENGTH('a) \<Longrightarrow> le_word (le_bytes n x) = (x :: 'a::len word)"
  by (rule bit_word_eqI) (simp add: bit_le_word bit_nth_le_bytes less_mult_imp_div_less mult.commute)

lemma le_bytes_le_word:
  assumes "length bs = n" "8 * n = LENGTH('a)"
  shows "le_bytes n (le_word bs :: 'a::len word) = bs"
proof (rule nth_equalityI)
  show "length (le_bytes n (le_word bs :: 'a word)) = length bs" using assms by simp
  fix i assume "i < length (le_bytes n (le_word bs :: 'a word))"
  then have i: "i < n" by simp
  show "le_bytes n (le_word bs :: 'a word) ! i = bs ! i"
  proof (rule bit_word_eqI)
    fix j :: nat assume "j < LENGTH(8)"
    then show "bit (le_bytes n (le_word bs :: 'a word) ! i) j \<longleftrightarrow> bit (bs ! i) j"
      using i assms by (simp add: bit_nth_le_bytes bit_le_word)
  qed
qed

lemma le_bytes_bswap: "8 * n = LENGTH('a) \<Longrightarrow> le_bytes n (bswap n (x :: 'a::len word)) = rev (le_bytes n x)"
  unfolding bswap_def by (rule le_bytes_le_word) simp_all

lemma bswap_bswap: "8 * n = LENGTH('a) \<Longrightarrow> bswap n (bswap n (x :: 'a::len word)) = x"
  unfolding bswap_def [of n "bswap n x"] le_bytes_bswap rev_rev_ident by (rule le_word_le_bytes)

section \<open>Byte order is integer order\<close>

fun be_val :: "u8 list \<Rightarrow> nat" where
  "be_val [] = 0"
| "be_val (b # bs) = unat b * 256 ^ length bs + be_val bs"

lemma be_val_less: "be_val bs < 256 ^ length bs"
proof (induction bs)
  case (Cons b bs)
  have "unat b < 2 ^ LENGTH(8)" by (rule unsigned_less)
  then have "unat b \<le> 255" by simp
  then have "unat b * 256 ^ length bs \<le> 255 * 256 ^ length bs" by (rule mult_le_mono1)
  with Cons have "unat b * 256 ^ length bs + be_val bs < 256 * 256 ^ length bs" by linarith
  then show ?case by simp
qed simp

lemma be_val_less_iff:
  "length xs = length ys \<Longrightarrow> be_val xs < be_val ys \<longleftrightarrow> xs < ys"
proof (induction xs ys rule: list_induct2)
  case (Cons x xs y ys)
  let ?p = "256 ^ length xs :: nat"
  have bx: "be_val xs < ?p" "be_val ys < ?p" using be_val_less [of xs] be_val_less [of ys] Cons by simp_all
  consider "unat x < unat y" | "unat x = unat y" | "unat y < unat x" by linarith
  then show ?case
  proof cases
    case 1
    then have "(unat x + 1) * ?p \<le> unat y * ?p" by (intro mult_le_mono1) simp
    with bx 1 Cons show ?thesis by (simp add: word_less_nat_alt)
  next
    case 2
    then have "x = y" by (simp add: word_unat_eq_iff)
    with Cons show ?thesis by simp
  next
    case 3
    then have "(unat y + 1) * ?p \<le> unat x * ?p" by (intro mult_le_mono1) simp
    moreover have "x \<noteq> y" "\<not> x < y" using 3 by (auto simp: word_less_nat_alt)
    ultimately show ?thesis using bx Cons by simp
  qed
qed simp

lemma be_val_rev_le_bytes: "be_val (rev (le_bytes n x)) = unat x mod 2 ^ (8 * n)"
proof (induction n)
  case 0
  then show ?case by (simp add: le_bytes_def)
next
  case (Suc n)
  have byte: "unat (ucast (drop_bit (8 * n) x) :: u8) = unat x div 2 ^ (8 * n) mod 256"
    by (simp add: unsigned_ucast_eq unsigned_drop_bit_eq take_bit_eq_mod flip: drop_bit_eq_div)
  have "unat x mod 2 ^ (8 * Suc n) = unat x mod (2 ^ (8 * n) * 256)"
    by (simp add: power_add mult.commute)
  also have "\<dots> = 2 ^ (8 * n) * (unat x div 2 ^ (8 * n) mod 256) + unat x mod 2 ^ (8 * n)"
    by (rule mod_mult2_eq)
  finally show ?case using Suc
    by (simp add: le_bytes_Suc byte power_mult)
qed

lemma fold_bytes_less_iff:
  fixes x y :: "'a::len word"
  assumes "8 * n = LENGTH('a)"
  shows "le_bytes n (bswap n x) < le_bytes n (bswap n y) \<longleftrightarrow> x < y"
proof -
  have "unat z mod 2 ^ (8 * n) = unat z" for z :: "'a word"
    unfolding assms by (simp add: mod_less unsigned_less)
  then show ?thesis
    using assms by (simp add: le_bytes_bswap be_val_rev_le_bytes word_less_nat_alt
        flip: be_val_less_iff)
qed

lemma unfold_bytes:
  fixes x :: "'a::len word"
  assumes "8 * n = LENGTH('a)"
  shows "bswap n (le_word (take n (le_bytes n (bswap n x) @ rest))) = x"
  using assms by (simp add: le_word_le_bytes bswap_bswap)

section \<open>Sign flip\<close>

lemma flip_top_bit_less_iff:
  fixes x y :: "'a::len word"
  shows "x XOR push_bit (LENGTH('a) - 1) 1 < y XOR push_bit (LENGTH('a) - 1) 1 \<longleftrightarrow> sint x < sint y"
proof -
  have flip: "uint (z XOR push_bit (LENGTH('a) - 1) 1) = sint z + 2 ^ (LENGTH('a) - 1)" for z :: "'a word"
  proof -
    let ?n = "LENGTH('a) - 1"
    have n: "Suc ?n = LENGTH('a)" by simp
    have "uint (push_bit ?n (1::'a word)) = push_bit ?n 1"
      unfolding unsigned_push_bit_eq take_bit_push_bit by simp
    then have "uint (z XOR push_bit ?n 1) = flip_bit ?n (uint z)"
      by (simp add: flip_bit_eq_xor unsigned_xor_eq)
    also have "\<dots> = (if bit z ?n then uint z - 2 ^ ?n else uint z + 2 ^ ?n)"
      by (simp add: flip_bit_eq_if set_bit_eq unset_bit_eq bit_uint_iff)
    also have "\<dots> = sint z + 2 ^ ?n"
    proof -
      have "sint z = signed_take_bit ?n (uint z)" by (simp add: sint_uint)
      also have "\<dots> = uint z - 2 ^ Suc ?n * of_bool (bit z ?n)"
        unfolding signed_take_bit_eq_take_bit_minus n 
        by (simp add: bit_uint_iff flip: unsigned_take_bit_eq)
      finally show ?thesis by (simp only: power_Suc) simp
    qed
    finally show ?thesis .
  qed
  show ?thesis unfolding word_less_def flip by simp
qed

lemma s32_flip: "ucast ((scast x :: u64) XOR push_bit 31 1) = (x XOR push_bit 31 1 :: u32)"
  unfolding word_eq_iff_bit bit_ucast_iff bit_xor_iff bit_push_bit_iff
  by (auto simp: bit_simps)

lemma s32_unflip: "ucast ((ucast x :: u64) XOR push_bit 31 1) = (x XOR push_bit 31 1 :: u32)"
  unfolding word_eq_iff_bit bit_ucast_iff bit_xor_iff bit_push_bit_iff
  by (auto simp: bit_simps)

section \<open>Properties\<close>

text \<open>
  Folding an unsigned integer into a key and unfolding it gives the integer back, whatever
  bytes follow it in the key, for each of the four widths.
\<close>
lemma unfold_fold_unsigned:
  "unfold_u64 (fold_u64 a @ rest) = a \<and> unfold_u32 (fold_u32 b @ rest) = b \<and>
   unfold_u16 (fold_u16 c @ rest) = c \<and> unfold_u8 (fold_u8 d @ rest) = d \<and>
   length (fold_u64 a) = 8 \<and> length (fold_u32 b) = 4 \<and> length (fold_u16 c) = 2"
  unfolding unfold_u64_def fold_u64_def unfold_u32_def fold_u32_def unfold_u16_def fold_u16_def
    unfold_u8_def fold_u8_def
  by (intro conjI unfold_bytes) simp_all

lemma unfold_fold_s64: "unfold_s64 (fold_s64 x @ rest) = x"
  unfolding unfold_s64_def fold_s64_def by (subst unfold_bytes) (simp_all add: xor.assoc)

lemma unfold_fold_s32: "unfold_s32 (fold_s32 x @ rest) = x"
  unfolding unfold_s32_def fold_s32_def s32_flip s32_unflip
  by (subst unfold_bytes) (simp_all add: xor.assoc)

text \<open>
  Folded keys compare bytewise exactly as the integers they were made from, unsigned
  integers as unsigned numbers and signed ones by their signed value: this is what lets the
  B-tree, which compares keys with memcmp, scan a table in key order.
\<close>
lemma fold_order:
  "(fold_u64 a < fold_u64 a' \<longleftrightarrow> a < a') \<and> (fold_u32 b < fold_u32 b' \<longleftrightarrow> b < b') \<and>
   (fold_u16 c < fold_u16 c' \<longleftrightarrow> c < c') \<and> (fold_u8 d < fold_u8 d' \<longleftrightarrow> d < d') \<and>
   (fold_s32 b < fold_s32 b' \<longleftrightarrow> sint b < sint b') \<and>
   (fold_s64 a < fold_s64 a' \<longleftrightarrow> sint a < sint a')"
proof -
  have s64: "a XOR push_bit 63 1 < a' XOR push_bit 63 1 \<longleftrightarrow> sint a < sint a'"
    using flip_top_bit_less_iff [of a a'] by simp
  have s32: "b XOR push_bit 31 1 < b' XOR push_bit 31 1 \<longleftrightarrow> sint b < sint b'"
    using flip_top_bit_less_iff [of b b'] by simp
  show ?thesis
    unfolding fold_u64_def fold_u32_def fold_u16_def fold_u8_def fold_s32_def fold_s64_def s32_flip
      s64 [symmetric] s32 [symmetric]
    by (intro conjI fold_bytes_less_iff) simp_all
qed

text \<open>
  upAlign rounds up to a multiple of the alignment (a power of two) and downAlign down to
  one, each moving the value by less than the alignment, when the rounded value is
  representable.
\<close>
theorem align_spec:
  assumes "k < 64" "unat x + 2 ^ k \<le> 2 ^ 64"
  shows "2 ^ k dvd unat (upAlign x (push_bit k 1)) \<and> unat x \<le> unat (upAlign x (push_bit k 1)) \<and>
         unat (upAlign x (push_bit k 1)) < unat x + 2 ^ k \<and>
         2 ^ k dvd unat (downAlign x (push_bit k 1)) \<and> unat (downAlign x (push_bit k 1)) \<le> unat x \<and>
         unat x < unat (downAlign x (push_bit k 1)) + 2 ^ k"
proof -
  note up = upAlign_unat [OF assms]
  have pos: "(0::nat) < 2 ^ k" by simp
  have mod: "n mod 2 ^ k < 2 ^ k" "n mod 2 ^ k \<le> n" "2 ^ k dvd n - n mod 2 ^ k" for n :: nat
    by (simp_all add: dvd_minus_mod)
  show ?thesis
    unfolding up downAlign_unat
    using mod [of "unat x + (2 ^ k - 1)"] mod [of "unat x"] pos
    by (intro conjI; (assumption | linarith))
qed

theorem align_spec_witness:
  "2 ^ 12 dvd unat (upAlign 5000 (push_bit 12 1)) \<and> upAlign 5000 (push_bit 12 1) = 8192 \<and>
   downAlign 5000 (push_bit 12 1) = 4096"
  using align_spec [of 12 5000] by (simp add: upAlign_def downAlign_def)

end
