(* ===== verification/Circular_Queue.thy ===== *)
theory Circular_Queue
  imports Prelude
begin

text \<open>
  The fixed-capacity queue of \<^verbatim>\<open>backend/leanstore/utils/CircularQueue.hpp\<close>.  Head and
  tail are 64-bit counters that are never reset: positions are taken modulo the capacity
  \<open>N\<close> (the template argument) and the number of elements is the wrapping difference of the
  counters.  A pointer to a slot is the index of the slot.  The locale \<open>bounded_queue\<close> is
  the contract the log buffer relies on; it is interpreted on the queue for every capacity
  that divides \<open>2 ^ 64\<close>, such as the 16384 pending holes of
  \<^verbatim>\<open>Logging.hpp\<close>, so that the counters may wrap around.
\<close>

record 'a CircularQueue =
  arr :: "'a list"
  head :: u64
  tail :: u64

definition full :: "nat \<Rightarrow> 'a CircularQueue \<Rightarrow> bool" where
  "full N q \<longleftrightarrow> N \<le> unat (tail q - head q)"

definition empty :: "'a CircularQueue \<Rightarrow> bool" where
  "empty q \<longleftrightarrow> head q = tail q"

definition cq_size :: "'a CircularQueue \<Rightarrow> u64" where
  "cq_size q = tail q - head q"

definition slot :: "nat \<Rightarrow> u64 \<Rightarrow> nat" where
  "slot N i = unat i mod N"

definition emplace_back :: "nat \<Rightarrow> 'a \<Rightarrow> 'a CircularQueue \<Rightarrow> nat option \<times> 'a CircularQueue" where
  "emplace_back N x q =
     (if full N q then (None, q)
      else let s = slot N (tail q)
           in (Some s, q\<lparr>arr := (arr q)[s := x], tail := tail q + 1\<rparr>))"

definition pop_front :: "nat \<Rightarrow> 'a CircularQueue \<Rightarrow> (nat \<times> 'a CircularQueue) option" where
  "pop_front N q =
     do { ensure (\<not> empty q);
          Some (slot N (head q), q\<lparr>head := head q + 1\<rparr>) }"

text \<open>
  The loop of \<^verbatim>\<open>erase_front_while\<close>; \<open>lei\<close> is
  \<^verbatim>\<open>last_erased_idx\<close>, which starts at the largest value and means that nothing was
  erased.
\<close>

function erase_loop ::
  "nat \<Rightarrow> ('a \<Rightarrow> bool) \<Rightarrow> u64 \<Rightarrow> 'a CircularQueue \<Rightarrow> u64 \<times> 'a CircularQueue" where
  "erase_loop N pred lei q =
     (if \<not> empty q \<and> pred (arr q ! slot N (head q))
      then erase_loop N pred (head q) (q\<lparr>head := head q + 1\<rparr>)
      else (lei, q))"
  by pat_completeness auto

lemma unat_diff_Suc:
  fixes h t :: "'a::len word"
  assumes "h \<noteq> t"
  shows "unat (t - h) = Suc (unat (t - (h + 1)))"
proof -
  have "t - h \<noteq> 0" using assms by simp
  then have "unat (t - h - 1) = unat (t - h) - 1" and "0 < unat (t - h)"
    by (simp_all add: unat_minus_one unat_gt_0)
  then show ?thesis by (simp add: diff_diff_eq)
qed

termination erase_loop
  by (relation "measure (\<lambda>(N, pred, lei, q). unat (tail q - head q))")
     (auto simp: empty_def unat_diff_Suc)

declare erase_loop.simps [simp del]

definition erase_front_while ::
  "nat \<Rightarrow> ('a \<Rightarrow> bool) \<Rightarrow> 'a CircularQueue \<Rightarrow> nat option \<times> 'a CircularQueue" where
  "erase_front_while N pred q =
     (let (lei, q') = erase_loop N pred (- 1) q
      in (if lei \<noteq> - 1 then (Some (slot N lei), q') else (None, q')))"

text \<open>An iterator is an index into the queue.\<close>

definition it_begin :: "'a CircularQueue \<Rightarrow> u64" where "it_begin q = head q"
definition it_end :: "'a CircularQueue \<Rightarrow> u64" where "it_end q = tail q"
definition it_deref :: "nat \<Rightarrow> 'a CircularQueue \<Rightarrow> u64 \<Rightarrow> 'a" where
  "it_deref N q idx = arr q ! slot N idx"
definition it_next :: "u64 \<Rightarrow> u64" where "it_next idx = idx + 1"

text \<open>The elements a loop from \<^verbatim>\<open>begin()\<close> to \<^verbatim>\<open>end()\<close> visits.\<close>

function visit :: "nat \<Rightarrow> 'a CircularQueue \<Rightarrow> u64 \<Rightarrow> 'a list" where
  "visit N q idx = (if idx \<noteq> it_end q then it_deref N q idx # visit N q (it_next idx) else [])"
  by pat_completeness auto

termination visit
  by (relation "measure (\<lambda>(N, q, idx). unat (tail q - idx))")
     (auto simp: it_end_def it_next_def unat_diff_Suc)

declare visit.simps [simp del]

section \<open>The contract of a bounded queue\<close>

datatype 'a qop = Push 'a | Pop

text \<open>
  A client's history: the operations run from a queue, collecting what was accepted and what
  was handed out.  A push on a full queue and a pop on an empty one change nothing.
\<close>

fun qrun ::
  "('a \<Rightarrow> 'q \<Rightarrow> 'q option) \<Rightarrow> ('q \<Rightarrow> ('a \<times> 'q) option) \<Rightarrow> 'a qop list \<Rightarrow>
   'q \<times> 'a list \<times> 'a list \<Rightarrow> 'q \<times> 'a list \<times> 'a list" where
  "qrun enq deq [] s = s"
| "qrun enq deq (Push x # ops) (q, ins, outs) =
     qrun enq deq ops (case enq x q of None \<Rightarrow> (q, ins, outs) | Some q' \<Rightarrow> (q', ins @ [x], outs))"
| "qrun enq deq (Pop # ops) (q, ins, outs) =
     qrun enq deq ops (case deq q of None \<Rightarrow> (q, ins, outs) | Some (x, q') \<Rightarrow> (q', ins, outs @ [x]))"

locale bounded_queue =
  fixes inv :: "'q \<Rightarrow> bool" and contents :: "'q \<Rightarrow> 'a list" and cap :: nat
    and enq :: "'a \<Rightarrow> 'q \<Rightarrow> 'q option" and deq :: "'q \<Rightarrow> ('a \<times> 'q) option"
  assumes enq_None: "inv q \<Longrightarrow> enq x q = None \<longleftrightarrow> length (contents q) = cap"
    and enq_Some: "inv q \<Longrightarrow> enq x q = Some q' \<Longrightarrow> inv q' \<and> contents q' = contents q @ [x]"
    and deq_None: "inv q \<Longrightarrow> deq q = None \<longleftrightarrow> contents q = []"
    and deq_Some: "inv q \<Longrightarrow> deq q = Some (x, q') \<Longrightarrow> inv q' \<and> contents q = x # contents q'"
    and bounded: "inv q \<Longrightarrow> length (contents q) \<le> cap"
begin

lemma qrun_fifo:
  assumes "qrun enq deq ops (q, outs @ contents q, outs) = (q', ins', outs')" "inv q"
  shows "inv q' \<and> ins' = outs' @ contents q' \<and> length (contents q') \<le> cap"
  using assms
proof (induction ops arbitrary: q outs)
  case Nil
  then show ?case using bounded by auto
next
  case (Cons op ops)
  show ?case
  proof (cases op)
    case (Push x)
    then show ?thesis
      using Cons.prems Cons.IH [of q outs] Cons.IH [of "the (enq x q)" outs] enq_Some [of q x]
      by (auto split: option.splits)
  next
    case Pop
    then show ?thesis
      using Cons.prems Cons.IH [of q outs] Cons.IH [of "snd (the (deq q))" "outs @ [fst (the (deq q))]"]
        deq_Some [of q]
      by (auto split: option.splits)
  qed
qed

end

section \<open>The queue implements the contract\<close>

definition cq_inv :: "nat \<Rightarrow> 'a CircularQueue \<Rightarrow> bool" where
  "cq_inv N q \<longleftrightarrow> 0 < N \<and> N < 2 ^ 64 \<and> N dvd 2 ^ 64 \<and> length (arr q) = N \<and> unat (tail q - head q) \<le> N"

definition cq_list :: "nat \<Rightarrow> 'a CircularQueue \<Rightarrow> 'a list" where
  "cq_list N q = map (\<lambda>i. arr q ! slot N (head q + of_nat i)) [0..<unat (tail q - head q)]"

definition enq :: "nat \<Rightarrow> 'a \<Rightarrow> 'a CircularQueue \<Rightarrow> 'a CircularQueue option" where
  "enq N x q = (case emplace_back N x q of (None, _) \<Rightarrow> None | (Some _, q') \<Rightarrow> Some q')"

definition deq :: "nat \<Rightarrow> 'a CircularQueue \<Rightarrow> ('a \<times> 'a CircularQueue) option" where
  "deq N q = map_option (\<lambda>(s, q'). (arr q' ! s, q')) (pop_front N q)"

lemma slot_less [simp]: "0 < N \<Longrightarrow> slot N i < N"
  by (simp add: slot_def)

lemma slot_add:
  assumes "N dvd 2 ^ 64"
  shows "slot N (h + of_nat i) = (slot N h + i) mod N"
proof -
  have "unat (h + of_nat i) = (unat h + i) mod 2 ^ 64"
    by (simp add: unat_word_ariths unat_of_nat take_bit_eq_mod mod_simps)
  then show ?thesis using assms by (simp add: slot_def mod_mod_cancel mod_simps)
qed

lemma slot_inj_less:
  assumes "N dvd 2 ^ 64" "i < j" "j < N"
  shows "slot N (h + of_nat i) \<noteq> slot N (h + of_nat j)"
proof
  assume "slot N (h + of_nat i) = slot N (h + of_nat j)"
  then have "(slot N h + j) mod N = (slot N h + i) mod N"
    using assms by (simp add: slot_add)
  then have "N dvd (slot N h + j) - (slot N h + i)"
    using assms by (subst (asm) mod_eq_dvd_iff_nat) simp_all
  then show False using assms by (auto dest: dvd_imp_le)
qed

lemma slot_inj:
  assumes "N dvd 2 ^ 64" "i < N" "j < N"
  shows "slot N (h + of_nat i) = slot N (h + of_nat j) \<longleftrightarrow> i = j"
  using assms slot_inj_less by (metis linorder_neqE_nat)

lemma tail_as_head: "tail q = head q + of_nat (unat (tail q - head q))"
  by simp

lemma length_cq_list [simp]: "length (cq_list N q) = unat (tail q - head q)"
  by (simp add: cq_list_def)

lemma cq_inv_emplace:
  fixes x :: 'a
  assumes "cq_inv N q" "\<not> full N q"
  defines "q' \<equiv> q\<lparr>arr := (arr q)[slot N (tail q) := x], tail := tail q + 1\<rparr>"
  shows "cq_inv N q'" "cq_list N q' = cq_list N q @ [x]"
proof -
  let ?n = "unat (tail q - head q)"
  have n: "?n < N" and N: "0 < N" "N dvd 2 ^ 64" "length (arr q) = N" "N < 2 ^ 64"
    using assms(1,2) by (auto simp: cq_inv_def full_def)
  have len: "unat (tail q + 1 - head q) = Suc ?n"
  proof -
    have "tail q - head q \<noteq> - 1" using n N by (auto simp: unsigned_minus_1_eq_mask mask_eq_exp_minus_1)
    from this have "1 + (tail q - head q) \<noteq> 0" by (metis add_minus_cancel add.right_neutral)
    from unatSuc [OF this] show ?thesis by (simp add: algebra_simps)
  qed
  show "cq_inv N q'" using n N len by (simp add: cq_inv_def q'_def)
  have "slot N (tail q) \<noteq> slot N (head q + of_nat i)" if "i < ?n" for i
    using slot_inj [of N ?n i "head q"] that n N by simp
  moreover have "slot N (head q + of_nat ?n) = slot N (tail q)" by simp
  ultimately show "cq_list N q' = cq_list N q @ [x]"
    using N by (auto simp: cq_list_def q'_def len)
qed

lemma cq_inv_pop:
  assumes "cq_inv N q" "\<not> empty q"
  defines "q' \<equiv> q\<lparr>head := head q + 1\<rparr>"
  shows "cq_inv N q'" "cq_list N q = arr q ! slot N (head q) # cq_list N q'"
proof -
  have n: "unat (tail q - head q) = Suc (unat (tail q - (head q + 1)))"
    using assms(2) by (intro unat_diff_Suc) (simp add: empty_def)
  then show "cq_inv N q'" using assms(1) by (simp add: cq_inv_def q'_def)
  show "cq_list N q = arr q ! slot N (head q) # cq_list N q'"
    by (simp add: cq_list_def q'_def n upt_conv_Cons map_Suc_upt [symmetric] ac_simps del: upt_Suc)
qed

lemma empty_iff_cq_list: "empty q \<longleftrightarrow> cq_list N q = []"
  using arg_cong [where f = unat, of "tail q - head q" 0]
  by (auto simp: empty_def cq_list_def unat_eq_0)

interpretation circular: bounded_queue "cq_inv N" "cq_list N" N "enq N" "deq N" for N
proof unfold_locales
  fix q q' :: "'a CircularQueue" and x
  assume inv: "cq_inv N q"
  show "enq N x q = None \<longleftrightarrow> length (cq_list N q) = N"
    using inv by (auto simp: enq_def emplace_back_def Let_def full_def cq_inv_def)
  show "enq N x q = Some q' \<Longrightarrow> cq_inv N q' \<and> cq_list N q' = cq_list N q @ [x]"
    using cq_inv_emplace [OF inv] by (auto simp: enq_def emplace_back_def Let_def split: if_splits)
  show "deq N q = None \<longleftrightarrow> cq_list N q = []"
    by (simp add: deq_def pop_front_def ensure_def empty_iff_cq_list [of q N])
  show "deq N q = Some (x, q') \<Longrightarrow> cq_inv N q' \<and> cq_list N q = x # cq_list N q'"
    using cq_inv_pop [OF inv] by (auto simp: deq_def pop_front_def ensure_def split: if_splits)
  show "length (cq_list N q) \<le> N" using inv by (simp add: cq_inv_def)
qed

lemma one_plus_of_nat_pred: "xs \<noteq> [] \<Longrightarrow> 1 + of_nat (length xs - Suc 0) = (of_nat (length xs) :: u64)"
  by (cases xs) auto

lemma erase_loop_spec:
  assumes "erase_loop N pred lei q = (lei', q')" "cq_inv N q"
  defines "k \<equiv> length (takeWhile pred (cq_list N q))"
  shows "cq_inv N q' \<and> cq_list N q' = dropWhile pred (cq_list N q) \<and> arr q' = arr q \<and>
         lei' = (if k = 0 then lei else head q + of_nat (k - 1))"
  using assms(1,2) unfolding k_def
proof (induction N pred lei q rule: erase_loop.induct)
  case (1 N pred lei q)
  show ?case
  proof (cases "empty q")
    case True
    then have "cq_list N q = []" by (simp add: empty_iff_cq_list [of q N])
    with True "1.prems" show ?thesis by (auto simp: erase_loop.simps [of N pred lei q])
  next
    case False
    note pop = cq_inv_pop [OF \<open>cq_inv N q\<close> False]
    show ?thesis
    proof (cases "pred (arr q ! slot N (head q))")
      case True
      have "erase_loop N pred (head q) (q\<lparr>head := head q + 1\<rparr>) = (lei', q')"
        using "1.prems"(1) False True by (simp add: erase_loop.simps [of N pred lei q])
      then show ?thesis
        using "1.IH" [OF _ _ pop(1)] False True by (auto simp: pop(2) one_plus_of_nat_pred)
    next
      case stop: False
      then show ?thesis
        using "1.prems" False pop by (auto simp: erase_loop.simps [of N pred lei q])
    qed
  qed
qed

lemma visit_eq_map: "visit N q idx = map (\<lambda>i. arr q ! slot N (idx + of_nat i)) [0..<unat (tail q - idx)]"
proof (induction N q idx rule: visit.induct)
  case (1 N q idx)
  show ?case
  proof (cases "idx = tail q")
    case True
    then show ?thesis by (simp add: visit.simps it_end_def)
  next
    case False
    then have "unat (tail q - idx) = Suc (unat (tail q - (idx + 1)))" by (rule unat_diff_Suc)
    with False 1 show ?thesis
      by (simp add: visit.simps [of N q idx] it_end_def it_next_def it_deref_def upt_conv_Cons
          map_Suc_upt [symmetric] ac_simps del: upt_Suc)
  qed
qed

section \<open>Properties\<close>

text \<open>
  C39: The circular queue is a first-in first-out queue of capacity \<open>N\<close>.  Whatever sequence of
  pushes and pops runs on it, also across a wrap-around of its counters, the elements accepted
  are the elements handed out followed by the ones still inside, in order, and never more than
  \<open>N\<close> are inside.  A push is refused exactly when \<open>N\<close> elements are inside.
\<close>
theorem circular_queue_fifo:
  assumes "cq_inv N q" "qrun (enq N) (deq N) ops (q, cq_list N q, []) = (q', ins, outs)"
  shows "ins = outs @ cq_list N q' \<and> length (cq_list N q') \<le> N \<and>
         (full N q' \<longleftrightarrow> length (cq_list N q') = N) \<and> visit N q' (it_begin q') = cq_list N q'"
  using circular.qrun_fifo [of N ops q "[]" q' ins outs] assms
  by (auto simp: full_def visit_eq_map it_begin_def cq_list_def)

theorem circular_queue_fifo_witness:
  "qrun (enq 2) (deq 2) [Push 5, Push 6, Pop]
     (\<lparr>arr = [0, 7], head = - 1, tail = 0\<rparr>, cq_list 2 \<lparr>arr = [0, 7::nat], head = - 1, tail = 0\<rparr>, []) =
     (\<lparr>arr = [5, 7], head = 0, tail = 1\<rparr>, [7, 5], [7]) \<and>
   [7, 5] = [7] @ cq_list 2 \<lparr>arr = [5, 7::nat], head = 0, tail = 1\<rparr>"
proof -
  let ?q = "\<lparr>arr = [0, 7::nat], head = - 1, tail = 0\<rparr>" and ?q' = "\<lparr>arr = [5, 7::nat], head = 0, tail = 1\<rparr>"
  have run: "qrun (enq 2) (deq 2) [Push 5, Push 6, Pop] (?q, cq_list 2 ?q, []) = (?q', [7, 5], [7])"
    by (simp add: enq_def deq_def emplace_back_def pop_front_def full_def empty_def slot_def cq_list_def
        Let_def upt_rec unsigned_minus_1_eq_mask mask_eq_exp_minus_1)
  have "cq_inv 2 ?q" by (simp add: cq_inv_def)
  from circular_queue_fifo [OF this run] run show ?thesis by simp
qed

text \<open>
  \<^verbatim>\<open>erase_front_while\<close> removes exactly the longest prefix whose elements
  satisfy the predicate and returns the slot of the last element removed, which still holds it;
  it returns no slot exactly when nothing was removed (as long as the counters are away from
  their last value, which the code uses as a sentinel).
\<close>
theorem erase_front_while_spec:
  assumes "cq_inv N q" "unat (head q) + length (cq_list N q) < 2 ^ 64"
  shows "case erase_front_while N pred q of (r, q') \<Rightarrow>
           cq_inv N q' \<and> cq_list N q' = dropWhile pred (cq_list N q) \<and>
           (case r of None \<Rightarrow> takeWhile pred (cq_list N q) = []
            | Some s \<Rightarrow> takeWhile pred (cq_list N q) \<noteq> [] \<and>
                       arr q' ! s = last (takeWhile pred (cq_list N q)))"
proof -
  obtain l q' where e: "erase_loop N pred (- 1) q = (l, q')" by fastforce
  let ?p = "takeWhile pred (cq_list N q)"
  note spec = erase_loop_spec [OF e assms(1)]
  have le: "length ?p \<le> length (cq_list N q)" by (rule length_takeWhile_le)
  show ?thesis
  proof (cases "?p = []")
    case True
    then show ?thesis using spec by (simp add: erase_front_while_def e)
  next
    case False
    then obtain k where k: "length ?p = Suc k" by (cases ?p) auto
    have l: "l = head q + of_nat k" using spec k by auto
    have "unat l = unat (head q) + k"
      unfolding l using assms(2) le k by (subst unat_add_lem [THEN iffD1]) (simp_all add: unat_of_nat take_bit_eq_mod)
    then have "l \<noteq> - 1" using assms(2) le k by (auto simp: unsigned_minus_1_eq_mask mask_eq_exp_minus_1)
    moreover have "last ?p = cq_list N q ! k"
      using False k takeWhile_nth [of k pred "cq_list N q"] by (simp add: last_conv_nth)
    moreover have "cq_list N q ! k = arr q ! slot N l" using le k unfolding cq_list_def l by simp
    ultimately show ?thesis using spec False by (simp add: erase_front_while_def e)
  qed
qed

theorem erase_front_while_spec_witness:
  "cq_list 4 (snd (erase_front_while 4 even \<lparr>arr = [2, 4, 5, 6], head = 0, tail = 4\<rparr>)) = [5, 6::nat] \<and>
   fst (erase_front_while 4 even \<lparr>arr = [2, 4, 5, 6::nat], head = 0, tail = 4\<rparr>) \<noteq> None"
proof -
  let ?q = "\<lparr>arr = [2, 4, 5, 6::nat], head = 0, tail = 4\<rparr>"
  have l: "cq_list 4 ?q = [2, 4, 5, 6]" by (simp add: cq_list_def slot_def upt_rec)
  have "cq_inv 4 ?q" by (simp add: cq_inv_def)
  from erase_front_while_spec [OF this, of even] l show ?thesis
    by (auto split: prod.splits option.splits)
qed

end
