(* ===== verification/Free_Lists.thy ===== *)
theory Free_Lists
  imports Transition_System
begin

text \<open>
  The two intrusive free lists of the buffer manager: the list of free buffer frames
  (\<^verbatim>\<open>buffer-manager/FreeList.cpp\<close>), linked through the frames' headers, and the slab
  allocator for the LSN arrays of discarded pages
  (\<^verbatim>\<open>buffer-manager/CustomSlabAllocator.hpp\<close>), linked through the first word of each
  free object.  Both keep the link inside the element, so the model has an explicit store
  \<open>address \<Rightarrow> pointer\<close>; a null pointer is \<open>None\<close>.  \<open>chain\<close> reads a list off the store.
  Every operation runs under the list's mutex and is one step.
\<close>

section \<open>Linked chains in a store\<close>

fun chain :: "('a \<Rightarrow> 'a option) \<Rightarrow> 'a option \<Rightarrow> 'a list \<Rightarrow> bool" where
  "chain nxt h [] \<longleftrightarrow> h = None"
| "chain nxt h (x # xs) \<longleftrightarrow> h = Some x \<and> chain nxt (nxt x) xs"

lemma chain_None [simp]: "chain nxt None xs \<longleftrightarrow> xs = []"
  by (cases xs) auto

lemma chain_Some: "chain nxt (Some x) xs \<longleftrightarrow> (\<exists>ys. xs = x # ys \<and> chain nxt (nxt x) ys)"
  by (cases xs) auto

lemma chain_cong: "(\<And>x. x \<in> set xs \<Longrightarrow> nxt' x = nxt x) \<Longrightarrow> chain nxt' h xs \<longleftrightarrow> chain nxt h xs"
  by (induction xs arbitrary: h) auto

lemma chain_upd [simp]: "a \<notin> set xs \<Longrightarrow> chain (nxt(a := p)) h xs \<longleftrightarrow> chain nxt h xs"
  by (rule chain_cong) auto

lemma chain_upd_if [simp]:
  "a \<notin> set xs \<Longrightarrow> chain (\<lambda>b. if b = a then p else nxt b) h xs \<longleftrightarrow> chain nxt h xs"
  by (rule chain_cong) auto

lemma chain_unique: "chain nxt h xs \<Longrightarrow> chain nxt h ys \<Longrightarrow> xs = ys"
proof (induction xs arbitrary: h ys)
  case Nil
  then show ?case by simp
next
  case (Cons x xs)
  then show ?case by (cases ys) auto
qed

text \<open>Linking the tail of a batch in front of a chain concatenates them.\<close>

lemma chain_link:
  assumes "chain nxt (Some b) (bs @ [t])" "chain nxt h xs" "distinct (bs @ t # xs)"
  shows "chain (nxt(t := h)) (Some b) (bs @ t # xs)"
  using assms
proof (induction bs arbitrary: b)
  case Nil
  then have "chain (nxt(t := h)) h xs" by (intro chain_upd [THEN iffD2]) auto
  moreover have "b = t" using Nil by simp
  ultimately show ?case by (simp only: append_Nil chain.simps fun_upd_same)
next
  case (Cons c bs)
  then show ?case by (cases bs) auto
qed

section \<open>Free buffer frames\<close>

type_synonym frame = nat

record FreeList =
  fl_head :: "frame option"
  fl_counter :: u64
  next_free_bf :: "frame \<Rightarrow> frame option"

text \<open>The bookkeeping of the calling worker that \<^verbatim>\<open>tryPop\<close> reads and writes.\<close>

record pop_worker =
  waiting_for_frame :: bool
  consecutive_failed_try_pop :: u64
  yielded_cpu_no_frame :: u64

datatype jump_reason = TRY_POP

definition batchPush :: "frame \<Rightarrow> frame \<Rightarrow> u64 \<Rightarrow> FreeList \<Rightarrow> FreeList" where
  "batchPush batch_head batch_tail batch_counter fl =
     fl\<lparr>next_free_bf := (next_free_bf fl)(batch_tail := fl_head fl),
        fl_head := Some batch_head,
        fl_counter := fl_counter fl + batch_counter\<rparr>"

definition fl_push :: "frame \<Rightarrow> FreeList \<Rightarrow> FreeList" where
  "fl_push bf fl =
     fl\<lparr>next_free_bf := (next_free_bf fl)(bf := fl_head fl),
        fl_head := Some bf,
        fl_counter := fl_counter fl + 1\<rparr>"

definition tryPop ::
  "bool \<Rightarrow> FreeList \<times> pop_worker \<Rightarrow> (jump_reason + frame) \<times> FreeList \<times> pop_worker" where
  "tryPop can_yield s =
     (let (fl, w) = s in
      case fl_head fl of
        None \<Rightarrow>
          (let w1 = (if can_yield then
                       let w0 = (if \<not> waiting_for_frame w then w\<lparr>waiting_for_frame := True\<rparr> else w);
                           c = consecutive_failed_try_pop w0 + 1
                       in (if 1 < c
                           then w0\<lparr>consecutive_failed_try_pop := 0,
                                   yielded_cpu_no_frame := yielded_cpu_no_frame w0 + 1\<rparr>
                           else w0\<lparr>consecutive_failed_try_pop := c\<rparr>)
                     else w)
           in (Inl TRY_POP, fl, w1))
      | Some free_bf \<Rightarrow>
          (let w1 = (if can_yield
                     then w\<lparr>waiting_for_frame := False, consecutive_failed_try_pop := 0\<rparr>
                     else w)
           in (Inr free_bf,
               fl\<lparr>fl_head := next_free_bf fl free_bf, fl_counter := fl_counter fl - 1\<rparr>, w1)))"

text \<open>\<open>fl_repr fl xs\<close>: the list holds the frames \<open>xs\<close>, head first, and counts them.\<close>

definition fl_repr :: "FreeList \<Rightarrow> frame list \<Rightarrow> bool" where
  "fl_repr fl xs \<longleftrightarrow>
     chain (next_free_bf fl) (fl_head fl) xs \<and> distinct xs \<and> fl_counter fl = of_nat (length xs)"

lemma fl_repr_unique: "fl_repr fl xs \<Longrightarrow> fl_repr fl ys \<Longrightarrow> xs = ys"
  by (auto simp: fl_repr_def dest: chain_unique)

lemma fl_push_repr: "fl_repr fl xs \<Longrightarrow> bf \<notin> set xs \<Longrightarrow> fl_repr (fl_push bf fl) (bf # xs)"
  by (simp add: fl_repr_def fl_push_def)

lemma batchPush_repr:
  assumes "fl_repr fl xs" "chain (next_free_bf fl) (Some b) (bs @ [t])" "distinct (bs @ t # xs)"
    "n = of_nat (Suc (length bs))"
  shows "fl_repr (batchPush b t n fl) (bs @ t # xs)"
  using assms chain_link [of "next_free_bf fl" b bs t "fl_head fl" xs]
  by (simp add: fl_repr_def batchPush_def)

lemma tryPop_repr:
  assumes "fl_repr fl xs"
  shows "case tryPop can_yield (fl, w) of (r, fl', w') \<Rightarrow>
           (case xs of [] \<Rightarrow> r = Inl TRY_POP \<and> fl' = fl
            | x # ys \<Rightarrow> r = Inr x \<and> fl_repr fl' ys)"
  using assms by (cases xs) (auto simp: tryPop_def fl_repr_def Let_def)

section \<open>The contract of a stack of free elements\<close>

text \<open>
  What a client of a free list relies on: elements handed out are elements that were put in and
  are not in the list any more.  \<open>repr s xs\<close> relates a state to the elements it holds; the
  client owns a set of elements, releases only elements it owns and owns what it is given.
\<close>

inductive own_step ::
  "('a \<Rightarrow> 's \<Rightarrow> 's) \<Rightarrow> ('s \<Rightarrow> ('a \<times> 's) option) \<Rightarrow> 's \<times> 'a set \<Rightarrow> 's \<times> 'a set \<Rightarrow> bool"
  for put :: "'a \<Rightarrow> 's \<Rightarrow> 's" and get :: "'s \<Rightarrow> ('a \<times> 's) option" where
  release: "x \<in> own \<Longrightarrow> own_step put get (s, own) (put x s, own - {x})"
| acquire: "get s = Some (x, s') \<Longrightarrow> own_step put get (s, own) (s', insert x own)"

text \<open>Every element of \<open>all\<close> is either in the list, once, or owned.\<close>

definition shared_out :: "('s \<Rightarrow> 'a list \<Rightarrow> bool) \<Rightarrow> 'a set \<Rightarrow> 's \<times> 'a set \<Rightarrow> bool" where
  "shared_out repr all st \<longleftrightarrow>
     (\<exists>xs. repr (fst st) xs \<and> set xs \<inter> snd st = {} \<and> set xs \<union> snd st = all)"

locale free_stack =
  fixes repr :: "'s \<Rightarrow> 'a list \<Rightarrow> bool" and put :: "'a \<Rightarrow> 's \<Rightarrow> 's"
    and get :: "'s \<Rightarrow> ('a \<times> 's) option"
  assumes repr_distinct: "repr s xs \<Longrightarrow> distinct xs"
    and put_repr: "repr s xs \<Longrightarrow> x \<notin> set xs \<Longrightarrow> repr (put x s) (x # xs)"
    and get_Nil: "repr s [] \<Longrightarrow> get s = None"
    and get_Cons: "repr s (x # xs) \<Longrightarrow> \<exists>s'. get s = Some (x, s') \<and> repr s' xs"
begin

lemma own_step_shared_out:
  "own_step put get st st' \<Longrightarrow> shared_out repr all st \<Longrightarrow> shared_out repr all st'"
proof (induction rule: own_step.cases)
  case (release x own s)
  then obtain xs where "repr s xs" "set xs \<inter> own = {}" "set xs \<union> own = all"
    by (auto simp: shared_out_def)
  with release put_repr [of s xs x] show ?case
    unfolding shared_out_def by (intro exI [of _ "x # xs"]) auto
next
  case (acquire s x s' own)
  then obtain xs where xs: "repr s xs" "set xs \<inter> own = {}" "set xs \<union> own = all"
    by (auto simp: shared_out_def)
  then obtain ys where "xs = x # ys" "repr s' ys"
    using acquire get_Nil get_Cons by (cases xs) fastforce+
  with acquire xs repr_distinct [of s xs] show ?case
    unfolding shared_out_def by (intro exI [of _ ys]) auto
qed

lemma own_steps_shared_out:
  "(own_step put get)\<^sup>*\<^sup>* st st' \<Longrightarrow> shared_out repr all st \<Longrightarrow> shared_out repr all st'"
  by (induction rule: rtranclp_induct) (auto intro: own_step_shared_out)

lemma acquire_fresh:
  assumes "(own_step put get)\<^sup>*\<^sup>* (s, own) (s', own')" "shared_out repr all (s, own)"
    "get s' = Some (x, s'')"
  shows "x \<in> all \<and> x \<notin> own'"
  using own_steps_shared_out [OF assms(1,2)] assms(3) get_Nil [of s'] get_Cons [of s']
  unfolding shared_out_def by (metis (no_types, lifting) Int_iff Un_iff empty_iff fst_conv
      list.exhaust list.set_intros(1) option.inject option.simps(3) prod.inject snd_conv)

lemma acquire_possible:
  assumes "(own_step put get)\<^sup>*\<^sup>* (s, own) (s', own')" "shared_out repr all (s, own)" "own' \<noteq> all"
  shows "\<exists>x s''. get s' = Some (x, s'')"
proof -
  obtain xs where "repr s' xs" "set xs \<union> own' = all"
    using own_steps_shared_out [OF assms(1,2)] by (auto simp: shared_out_def)
  with assms(3) get_Cons show ?thesis by (cases xs) fastforce+
qed

end

definition fl_get :: "FreeList \<Rightarrow> (frame \<times> FreeList) option" where
  "fl_get fl =
     (case tryPop False (fl, \<lparr>waiting_for_frame = False, consecutive_failed_try_pop = 0, yielded_cpu_no_frame = 0\<rparr>) of
        (Inl _, _) \<Rightarrow> None
      | (Inr x, fl', _) \<Rightarrow> Some (x, fl'))"

interpretation dram: free_stack fl_repr fl_push fl_get
proof unfold_locales
  fix s :: FreeList and x xs
  show "fl_repr s xs \<Longrightarrow> distinct xs" by (simp add: fl_repr_def)
  show "fl_repr s xs \<Longrightarrow> x \<notin> set xs \<Longrightarrow> fl_repr (fl_push x s) (x # xs)" by (rule fl_push_repr)
  show "fl_repr s [] \<Longrightarrow> fl_get s = None"
    by (simp add: fl_get_def tryPop_def fl_repr_def)
  show "fl_repr s (x # xs) \<Longrightarrow> \<exists>s'. fl_get s = Some (x, s') \<and> fl_repr s' xs"
    by (auto simp: fl_get_def tryPop_def fl_repr_def)
qed

lemma tryPop_fl_get:
  "tryPop can_yield (fl, w) = (r, fl', w') \<Longrightarrow>
     fl_get fl = (case r of Inl _ \<Rightarrow> None | Inr x \<Rightarrow> Some (x, fl'))"
  by (auto simp: fl_get_def tryPop_def Let_def split: option.splits)

section \<open>Slab allocator\<close>

text \<open>
  A slab list hands out arrays of \<open>n\<close> elements carved out of chunks.  Addresses count
  elements; \<open>mem\<close> gives the pointer a free object holds in its first word.
  \<^verbatim>\<open>malloc\<close> is outside the program: the address it returns is an argument of the
  operations that may call it, \<open>None\<close> when it fails.
\<close>

definition CHUNK_OBJS :: nat where "CHUNK_OBJS = 1024"

record slab =
  slab_n :: u32
  next_free :: "nat option"
  chunks :: "nat list"
  mem :: "nat \<Rightarrow> nat option"

definition chunk_addr :: "nat \<Rightarrow> u32 \<Rightarrow> nat \<Rightarrow> nat" where
  "chunk_addr base n i = base + unat (of_nat i * n)"

fun chunk_loop :: "nat \<Rightarrow> nat \<Rightarrow> slab \<Rightarrow> slab" where
  "chunk_loop base 0 s = s"
| "chunk_loop base (Suc i) s =
     (let s = chunk_loop base i s; addr = chunk_addr base (slab_n s) i
      in s\<lparr>mem := (mem s)(addr := next_free s), next_free := Some addr\<rparr>)"

definition allocate_new_chunk :: "nat option \<Rightarrow> slab \<Rightarrow> slab option" where
  "allocate_new_chunk malloc s =
     do { base \<leftarrow> malloc;
          Some (chunk_loop base CHUNK_OBJS (s\<lparr>chunks := chunks s @ [base]\<rparr>)) }"

definition slab_try_pop :: "slab \<Rightarrow> nat option \<times> slab" where
  "slab_try_pop s =
     (case next_free s of None \<Rightarrow> (None, s)
      | Some addr \<Rightarrow> (Some addr, s\<lparr>next_free := mem s addr\<rparr>))"

definition slab_free :: "nat \<Rightarrow> slab \<Rightarrow> slab" where
  "slab_free addr s = s\<lparr>mem := (mem s)(addr := next_free s), next_free := Some addr\<rparr>"

definition slab_allocate :: "nat option \<Rightarrow> slab \<Rightarrow> (nat \<times> slab) option" where
  "slab_allocate malloc s =
     (case slab_try_pop s of
        (Some addr, s') \<Rightarrow> Some (addr, s')
      | (None, _) \<Rightarrow>
          do { s1 \<leftarrow> allocate_new_chunk malloc s;
               case slab_try_pop s1 of
                 (Some addr, s2) \<Rightarrow> Some (addr, s2)
               | (None, _) \<Rightarrow> None })"

text \<open>The allocator dispatches on the number of elements, between 2 and \<open>slabs_count\<close>.\<close>

record allocator =
  slabs_count :: nat
  lists :: "slab list"

definition alloc_init :: "nat \<Rightarrow> (nat \<Rightarrow> nat option) \<Rightarrow> allocator option" where
  "alloc_init count malloc =
     do { ls \<leftarrow> those (map (\<lambda>i. allocate_new_chunk (malloc i)
                    \<lparr>slab_n = of_nat i, next_free = None, chunks = [], mem = \<lambda>_. None\<rparr>) [2..<count + 1]);
          Some \<lparr>slabs_count = count, lists = ls\<rparr> }"

definition allocate :: "nat \<Rightarrow> nat option \<Rightarrow> allocator \<Rightarrow> (nat \<times> allocator) option" where
  "allocate n malloc a =
     do { ensure (n \<le> slabs_count a); ensure (n \<ge> 2);
          l \<leftarrow> nth_opt (lists a) (n - 2);
          (addr, l') \<leftarrow> slab_allocate malloc l;
          Some (addr, a\<lparr>lists := (lists a)[n - 2 := l']\<rparr>) }"

definition alloc_free :: "nat \<Rightarrow> nat \<Rightarrow> allocator \<Rightarrow> allocator option" where
  "alloc_free addr n a =
     do { ensure (n \<le> slabs_count a); ensure (n \<ge> 2);
          l \<leftarrow> nth_opt (lists a) (n - 2);
          Some (a\<lparr>lists := (lists a)[n - 2 := slab_free addr l]\<rparr>) }"

section \<open>Objects of the slab allocator\<close>

definition objects :: "u32 \<Rightarrow> nat list \<Rightarrow> nat set" where
  "objects n cs = {c + i * unat n | c i. c \<in> set cs \<and> i < CHUNK_OBJS}"

definition apart :: "nat \<Rightarrow> nat \<Rightarrow> nat \<Rightarrow> bool" where
  "apart n a b \<longleftrightarrow> a + n \<le> b \<or> b + n \<le> a"

definition chunk_ok :: "u32 \<Rightarrow> nat list \<Rightarrow> nat \<Rightarrow> bool" where
  "chunk_ok n cs base \<longleftrightarrow> (\<forall>c\<in>set cs. apart (CHUNK_OBJS * unat n) c base)"

fun chunks_ok :: "u32 \<Rightarrow> nat list \<Rightarrow> bool" where
  "chunks_ok n [] \<longleftrightarrow> True"
| "chunks_ok n (c # cs) \<longleftrightarrow> chunk_ok n cs c \<and> chunks_ok n cs"

definition n_ok :: "u32 \<Rightarrow> bool" where
  "n_ok n \<longleftrightarrow> 0 < n \<and> CHUNK_OBJS * unat n < 2 ^ 32"

text \<open>
  The clients of one slab list: they allocate, write anywhere inside the arrays they hold and
  free them.  \<open>live\<close> are the arrays handed out and not freed.
\<close>

inductive slab_step :: "slab \<times> nat set \<Rightarrow> slab \<times> nat set \<Rightarrow> bool" where
  alloc: "slab_allocate malloc s = Some (a, s') \<Longrightarrow> (\<forall>base. malloc = Some base \<longrightarrow> chunk_ok (slab_n s) (chunks s) base)
     \<Longrightarrow> slab_step (s, live) (s', insert a live)"
| free: "a \<in> live \<Longrightarrow> slab_step (s, live) (slab_free a s, live - {a})"
| user_write: "a \<in> live \<Longrightarrow> k < unat (slab_n s) \<Longrightarrow>
     slab_step (s, live) (s\<lparr>mem := (mem s)(a + k := v)\<rparr>, live)"

definition slab_init :: "slab \<times> nat set \<Rightarrow> bool" where
  "slab_init st \<longleftrightarrow> n_ok (slab_n (fst st)) \<and> next_free (fst st) = None \<and> chunks (fst st) = [] \<and> snd st = {}"

definition slab_inv :: "slab \<times> nat set \<Rightarrow> bool" where
  "slab_inv st \<longleftrightarrow>
     (case st of (s, live) \<Rightarrow>
        n_ok (slab_n s) \<and> chunks_ok (slab_n s) (chunks s) \<and>
        (\<exists>xs. chain (mem s) (next_free s) xs \<and> distinct xs \<and> set xs \<inter> live = {} \<and>
              set xs \<union> live = objects (slab_n s) (chunks s)))"

lemma chunks_ok_append: "chunks_ok n (cs @ [c]) \<longleftrightarrow> chunks_ok n cs \<and> chunk_ok n cs c"
  by (induction cs) (auto simp: chunk_ok_def apart_def)

lemma chunks_ok_apart:
  "chunks_ok n cs \<Longrightarrow> c \<in> set cs \<Longrightarrow> d \<in> set cs \<Longrightarrow> c \<noteq> d \<Longrightarrow> apart (CHUNK_OBJS * unat n) c d"
  by (induction cs) (auto simp: chunk_ok_def apart_def)

lemma objects_apart:
  assumes "chunks_ok n cs" "a \<in> objects n cs" "b \<in> objects n cs" "a \<noteq> b"
  shows "apart (unat n) a b"
proof -
  obtain c i d j where a: "a = c + i * unat n" "c \<in> set cs" "i < CHUNK_OBJS"
    and b: "b = d + j * unat n" "d \<in> set cs" "j < CHUNK_OBJS"
    using assms by (auto simp: objects_def)
  have step: "Suc i * unat n \<le> CHUNK_OBJS * unat n" "Suc j * unat n \<le> CHUNK_OBJS * unat n"
    using a b by (simp_all only: mult_le_mono1 Suc_leI)
  show ?thesis
  proof (cases "c = d")
    case False
    then show ?thesis
      using chunks_ok_apart [OF assms(1) a(2) b(2)] step unfolding apart_def a b by auto
  next
    case True
    with assms(4) a b have "i \<noteq> j" by auto
    then have "Suc i \<le> j \<or> Suc j \<le> i" by auto
    then have "Suc i * unat n \<le> j * unat n \<or> Suc j * unat n \<le> i * unat n"
      by (blast intro: mult_le_mono1)
    then show ?thesis using True unfolding apart_def a b by auto
  qed
qed

lemma chunk_addr_eq:
  assumes "n_ok n" "i < CHUNK_OBJS"
  shows "chunk_addr base n i = base + i * unat n"
proof -
  have "i * unat n \<le> CHUNK_OBJS * unat n" using assms(2) by simp
  then have "i * unat n < 2 ^ 32" using assms(1) unfolding n_ok_def by (blast intro: le_less_trans)
  moreover have "unat (of_nat i * n) = i * unat n mod 2 ^ 32"
    by (simp add: unat_word_ariths unat_of_nat take_bit_eq_mod mod_simps)
  ultimately show ?thesis by (simp add: chunk_addr_def)
qed

lemma chunk_loop_frame [simp]:
  "slab_n (chunk_loop base k s) = slab_n s" "chunks (chunk_loop base k s) = chunks s"
  by (induction k) (auto simp: Let_def)

lemma chunk_loop_next_free: "0 < k \<Longrightarrow> next_free (chunk_loop base k s) \<noteq> None"
  by (cases k) (auto simp: Let_def)

lemma chunk_loop_chain:
  assumes "n_ok (slab_n s)" "k \<le> CHUNK_OBJS" "chain (mem s) (next_free s) xs"
    "\<And>i. i < k \<Longrightarrow> base + i * unat (slab_n s) \<notin> set xs"
  shows "chain (mem (chunk_loop base k s)) (next_free (chunk_loop base k s))
           (rev (map (\<lambda>i. base + i * unat (slab_n s)) [0..<k]) @ xs)"
  using assms
proof (induction k)
  case 0
  then show ?case by simp
next
  case (Suc k)
  let ?f = "\<lambda>i. base + i * unat (slab_n s)"
  have "0 < unat (slab_n s)" using Suc.prems(1) by (simp add: n_ok_def word_gt_0_no unat_gt_0 word_neq_0_conv)
  then have "?f k \<notin> set (rev (map ?f [0..<k]) @ xs)" using Suc.prems by auto
  with Suc show ?case by (simp add: Let_def chunk_addr_eq)
qed

lemma objects_append: "objects n (cs @ [c]) = objects n cs \<union> {c + i * unat n | i. i < CHUNK_OBJS}"
  by (auto simp: objects_def)

lemma objects_new_chunk:
  assumes "chunk_ok n cs base" "0 < unat n" "i < CHUNK_OBJS"
  shows "base + i * unat n \<notin> objects n cs"
proof
  assume "base + i * unat n \<in> objects n cs"
  then obtain c j where c: "c \<in> set cs" "j < CHUNK_OBJS" "base + i * unat n = c + j * unat n"
    by (auto simp: objects_def)
  have "Suc i * unat n \<le> CHUNK_OBJS * unat n" "Suc j * unat n \<le> CHUNK_OBJS * unat n"
    using c assms by (simp_all only: mult_le_mono1 Suc_leI)
  with c assms show False unfolding chunk_ok_def apart_def by fastforce
qed

text \<open>What \<^verbatim>\<open>allocate\<close> does to the list of free objects.\<close>

lemma slab_allocate_cases:
  assumes "slab_allocate malloc s = Some (a, s')"
  obtains (hit) "next_free s = Some a" "s' = s\<lparr>next_free := mem s a\<rparr>"
  | (grow) base s1 where "next_free s = None" "malloc = Some base"
      "s1 = chunk_loop base CHUNK_OBJS (s\<lparr>chunks := chunks s @ [base]\<rparr>)"
      "next_free s1 = Some a" "s' = s1\<lparr>next_free := mem s1 a\<rparr>"
  using assms
  by (auto simp: slab_allocate_def slab_try_pop_def allocate_new_chunk_def split: option.splits bind_splits prod.splits)

lemma slab_inv_alloc:
  assumes "slab_inv (s, live)" "slab_allocate malloc s = Some (a, s')"
    "\<forall>base. malloc = Some base \<longrightarrow> chunk_ok (slab_n s) (chunks s) base"
  shows "slab_inv (s', insert a live) \<and> a \<notin> live \<and> slab_n s' = slab_n s"
proof -
  obtain xs where inv: "n_ok (slab_n s)" "chunks_ok (slab_n s) (chunks s)"
    "chain (mem s) (next_free s) xs" "distinct xs" "set xs \<inter> live = {}"
    "set xs \<union> live = objects (slab_n s) (chunks s)"
    using assms(1) by (auto simp: slab_inv_def)
  have pos: "0 < unat (slab_n s)" using inv(1) by (simp add: n_ok_def unat_gt_0 word_neq_0_conv)
  from assms(2) show ?thesis
  proof (cases rule: slab_allocate_cases)
    case hit
    then obtain ys where "xs = a # ys" "chain (mem s) (mem s a) ys" using inv(3) by (auto simp: chain_Some)
    with hit inv show ?thesis unfolding slab_inv_def by (auto intro!: exI [of _ ys])
  next
    case (grow base s1)
    let ?f = "\<lambda>i. base + i * unat (slab_n s)"
    have xs: "xs = []" "live = objects (slab_n s) (chunks s)" using grow inv by auto
    have ok: "chunk_ok (slab_n s) (chunks s) base" using assms(3) grow by simp
    have "chain (mem s1) (Some a) (rev (map ?f [0..<CHUNK_OBJS]))"
      using chunk_loop_chain [of "s\<lparr>chunks := chunks s @ [base]\<rparr>" CHUNK_OBJS "[]" base] inv(1) grow by simp
    then obtain ys where ys: "rev (map ?f [0..<CHUNK_OBJS]) = a # ys" "chain (mem s1) (mem s1 a) ys"
      by (auto simp: chain_Some)
    have "distinct (rev (map ?f [0..<CHUNK_OBJS]))" using pos by (simp add: distinct_map inj_on_def)
    then have dist: "distinct ys" "a \<notin> set ys" using ys(1) by simp_all
    have set: "insert a (set ys) = {?f i | i. i < CHUNK_OBJS}"
      using arg_cong [OF ys(1), of set] by (simp add: image_def atLeast0LessThan) blast
    have fresh: "insert a (set ys) \<inter> live = {}"
      unfolding set xs(2) using objects_new_chunk [OF ok pos] by auto
    have cover: "set ys \<union> insert a live = objects (slab_n s) (chunks s @ [base])"
      unfolding objects_append xs(2) set [symmetric] by auto
    have disj: "set ys \<inter> insert a live = {}" using dist fresh by auto
    have "slab_inv (s', insert a live)"
      unfolding slab_inv_def using grow inv dist ok ys(2) cover disj
      by (simp add: chunks_ok_append) (blast intro: exI [of _ ys])
    then show ?thesis using fresh grow by auto
  qed
qed

lemma slab_inv_free:
  assumes "slab_inv (s, live)" "a \<in> live"
  shows "slab_inv (slab_free a s, live - {a})"
proof -
  obtain xs where inv: "n_ok (slab_n s)" "chunks_ok (slab_n s) (chunks s)"
    "chain (mem s) (next_free s) xs" "distinct xs" "set xs \<inter> live = {}"
    "set xs \<union> live = objects (slab_n s) (chunks s)"
    using assms(1) by (auto simp: slab_inv_def)
  then have "a \<notin> set xs" using assms(2) by auto
  with inv assms(2) show ?thesis
    unfolding slab_inv_def slab_free_def by (auto intro!: exI [of _ "a # xs"])
qed

lemma slab_inv_user_write:
  assumes "slab_inv (s, live)" "a \<in> live" "k < unat (slab_n s)"
  shows "slab_inv (s\<lparr>mem := (mem s)(a + k := v)\<rparr>, live)"
proof -
  obtain xs where inv: "n_ok (slab_n s)" "chunks_ok (slab_n s) (chunks s)"
    "chain (mem s) (next_free s) xs" "distinct xs" "set xs \<inter> live = {}"
    "set xs \<union> live = objects (slab_n s) (chunks s)"
    using assms(1) by (auto simp: slab_inv_def)
  have "a + k \<notin> set xs"
  proof
    assume "a + k \<in> set xs"
    then have "a + k \<noteq> a" "a + k \<in> objects (slab_n s) (chunks s)" "a \<in> objects (slab_n s) (chunks s)"
      using inv(5,6) assms(2) by auto
    with objects_apart [OF inv(2), of a "a + k"] assms(3) show False by (auto simp: apart_def)
  qed
  with inv show ?thesis unfolding slab_inv_def by (auto intro!: exI [of _ xs])
qed

interpretation slab_client: invariant_of slab_init slab_step slab_inv
proof unfold_locales
  fix st st' :: "slab \<times> nat set"
  show "slab_init st \<Longrightarrow> slab_inv st"
    by (cases st) (simp add: slab_init_def slab_inv_def objects_def)
  show "slab_inv st \<Longrightarrow> slab_step st st' \<Longrightarrow> slab_inv st'"
    by (erule slab_step.cases) (auto dest: slab_inv_alloc slab_inv_free slab_inv_user_write)
qed

section \<open>Properties\<close>

text \<open>
  C37: The free list of buffer frames never hands out a frame that is in use.  Start with the
  frames \<open>all\<close> shared out between the list and the threads; after any sequence of pushes of
  frames in use and successful pops, \<^verbatim>\<open>tryPop\<close> either returns one of these frames
  that nobody uses, and leaves the others shared out, or, exactly when every frame is in use,
  jumps with TRY_POP and leaves the list unchanged.
\<close>
theorem free_list_exclusive:
  assumes "shared_out fl_repr all (fl, {})" "(own_step fl_push fl_get)\<^sup>*\<^sup>* (fl, {}) (fl', own)"
  shows "case tryPop can_yield (fl', w) of
           (Inr bf, fl'', w') \<Rightarrow> bf \<in> all - own \<and> shared_out fl_repr all (fl'', insert bf own)
         | (Inl r, fl'', w') \<Rightarrow> own = all \<and> fl'' = fl'"
proof -
  obtain r fl'' w' where p: "tryPop can_yield (fl', w) = (r, fl'', w')" by (cases "tryPop can_yield (fl', w)")
  note get = tryPop_fl_get [OF p]
  have so: "shared_out fl_repr all (fl', own)" by (rule dram.own_steps_shared_out [OF assms(2,1)])
  show ?thesis
  proof (cases r)
    case (Inl j)
    then have "fl_get fl' = None" using get by simp
    moreover have "fl'' = fl'" using p Inl by (auto simp: tryPop_def Let_def split: option.splits)
    ultimately show ?thesis using dram.acquire_possible [OF assms(2,1)] p Inl by auto
  next
    case (Inr bf)
    then have g: "fl_get fl' = Some (bf, fl'')" using get by simp
    have "shared_out fl_repr all (fl'', insert bf own)"
      by (rule dram.own_step_shared_out [OF acquire [where get = fl_get, OF g] so])
    with dram.acquire_fresh [OF assms(2,1) g] p Inr show ?thesis by simp
  qed
qed

theorem free_list_exclusive_witness:
  "fst (tryPop True (\<lparr>fl_head = Some 0, fl_counter = 1, next_free_bf = \<lambda>_. None\<rparr>,
                     \<lparr>waiting_for_frame = True, consecutive_failed_try_pop = 1, yielded_cpu_no_frame = 0\<rparr>)) = Inr 0
   \<and> 0 \<in> {0::nat} - {}"
proof -
  let ?fl = "\<lparr>fl_head = Some 0, fl_counter = 1, next_free_bf = \<lambda>_. None\<rparr>"
  have "shared_out fl_repr {0} (?fl, {})"
    unfolding shared_out_def by (auto simp: fl_repr_def intro!: exI [of _ "[0]"])
  from free_list_exclusive [OF this rtranclp.rtrancl_refl, of True
      "\<lparr>waiting_for_frame = True, consecutive_failed_try_pop = 1, yielded_cpu_no_frame = 0\<rparr>"]
  show ?thesis by (simp add: tryPop_def)
qed

text \<open>
  Pushing a batch of linked frames at once is the same as pushing its frames one by one
  from its last to its first: the list then holds the batch in its order followed by the old
  frames and its counter counts all of them.
\<close>
theorem batchPush_pushes:
  assumes "fl_repr fl xs" "chain (next_free_bf fl) (Some b) (bs @ [t])" "distinct (bs @ t # xs)"
  shows "fl_repr (batchPush b t (of_nat (length bs + 1)) fl) (bs @ t # xs) \<and>
         fl_repr (foldr fl_push (bs @ [t]) fl) (bs @ t # xs)"
proof -
  have "fl_repr (foldr fl_push (bs @ [t]) fl) (bs @ t # xs)"
    using assms(1,3) by (induction bs) (auto intro: fl_push_repr)
  with batchPush_repr [OF assms] show ?thesis by simp
qed

theorem batchPush_pushes_witness:
  "fl_repr (batchPush 1 2 2 \<lparr>fl_head = Some 0, fl_counter = 1, next_free_bf = (\<lambda>_. None)(1 := Some 2)\<rparr>) [1, 2, 0]"
  using batchPush_pushes [of "\<lparr>fl_head = Some 0, fl_counter = 1, next_free_bf = (\<lambda>_. None)(1 := Some 2)\<rparr>" "[0]" 1 "[1]" 2]
  by (simp add: fl_repr_def)

text \<open>
  C38: The slab allocator never hands out overlapping arrays.  In every state its clients can
  reach by allocating, freeing and writing anywhere inside the arrays they hold, and as long as
  \<^verbatim>\<open>malloc\<close> returns chunks that do not overlap, a successful allocation returns an
  array that was not in use and that overlaps none of the arrays in use, and an allocation
  succeeds unless \<^verbatim>\<open>malloc\<close> fails.
\<close>
theorem slab_allocate_disjoint:
  assumes "reach slab_init slab_step (s, live)"
    "\<forall>base. malloc = Some base \<longrightarrow> chunk_ok (slab_n s) (chunks s) base"
  shows "case slab_allocate malloc s of
           Some (a, s') \<Rightarrow> a \<notin> live \<and> (\<forall>b\<in>live. apart (unat (slab_n s)) a b)
         | None \<Rightarrow> malloc = None"
proof -
  have inv: "slab_inv (s, live)" by (rule slab_client.reach_inv [OF assms(1)])
  show ?thesis
  proof (cases "slab_allocate malloc s")
    case (Some p)
    obtain a s' where p: "p = (a, s')" by (cases p)
    have new: "slab_inv (s', insert a live)" "a \<notin> live" "slab_n s' = slab_n s"
      using slab_inv_alloc [OF inv _ assms(2)] Some p by auto
    have "apart (unat (slab_n s)) a b" if "b \<in> live" for b
      using new(1) that new(2,3) objects_apart [of "slab_n s'" "chunks s'" a b]
      unfolding slab_inv_def by auto
    with new Some p show ?thesis by simp
  next
    case None
    show ?thesis
    proof (cases malloc)
      case (Some base)
      have n: "n_ok (slab_n s)" using inv by (simp add: slab_inv_def)
      have "next_free (chunk_loop base CHUNK_OBJS (s\<lparr>chunks := chunks s @ [base]\<rparr>)) \<noteq> None"
        by (rule chunk_loop_next_free) (simp add: CHUNK_OBJS_def)
      then show ?thesis using None Some
        by (auto simp: slab_allocate_def slab_try_pop_def allocate_new_chunk_def split: option.splits)
    qed (use \<open>slab_allocate malloc s = None\<close> in simp)
  qed
qed

theorem slab_allocate_disjoint_witness:
  "slab_allocate (Some 100) \<lparr>slab_n = 3, next_free = None, chunks = [], mem = \<lambda>_. None\<rparr> \<noteq> None"
proof -
  let ?s = "\<lparr>slab_n = 3, next_free = None, chunks = [], mem = \<lambda>_. None\<rparr>"
  have "reach slab_init slab_step (?s, {})"
    by (rule reach_init) (simp add: slab_init_def n_ok_def CHUNK_OBJS_def)
  from slab_allocate_disjoint [OF this, of "Some 100"] show ?thesis
    by (auto simp: chunk_ok_def split: option.splits)
qed

end
