(* ===== verification/Partition.thy ===== *)
theory Partition
  imports Units Free_Lists
begin

text \<open>
  A partition of the buffer manager (\<^verbatim>\<open>buffer-manager/Partition.hpp\<close> and
  \<^verbatim>\<open>Partition.cpp\<close>): the chained hash table of pages with an I/O in flight and the
  allocation of page identifiers.  A bucket of the table is the list of its entries from the
  first pointer on; a handler, a pointer to the pointer to an entry, is the bucket and the
  entry's place in it.  Partition \<open>i\<close> of \<open>d\<close> hands out the page identifiers
  \<open>i, i + d, i + 2 * d, ...\<close> and reuses freed ones first.
\<close>

section \<open>The table of pages in flight\<close>

datatype IO_STATE = READING | READY | TO_DELETE | UNDEFINED

record IOFrame =
  io_state :: IO_STATE
  io_bf :: "frame option"
  inserted_by_bg_page_fixer :: bool
  readers_counter :: int

definition new_IOFrame :: IOFrame where
  "new_IOFrame = \<lparr>io_state = UNDEFINED, io_bf = None, inserted_by_bg_page_fixer = False, readers_counter = 0\<rparr>"

record Entry =
  e_key :: u64
  e_value :: IOFrame

record HashTable =
  ht_mask :: u64
  ht_entries :: "Entry list list"

type_synonym handler = "nat \<times> nat"

definition ht_new :: "nat \<Rightarrow> HashTable" where
  "ht_new sizeInBits =
     (let size = push_bit sizeInBits 1
      in \<lparr>ht_mask = size - 1, ht_entries = replicate (unat size) []\<rparr>)"

definition hashKey :: "u64 \<Rightarrow> u64" where
  "hashKey k0 =
     (let m = 0xc6a4a7935bd1e995; r = 47;
          h0 = 0x8445d61a4e774912 XOR (8 * m);
          k1 = k0 * m;
          k2 = k1 XOR drop_bit r k1;
          k3 = k2 * m;
          h1 = h0 XOR k3;
          h2 = h1 * m;
          h3 = h2 XOR drop_bit r h2;
          h4 = h3 * m
      in h4 XOR drop_bit r h4)"

definition ht_pos :: "HashTable \<Rightarrow> u64 \<Rightarrow> nat" where
  "ht_pos t key = unat (hashKey key AND ht_mask t)"

definition ht_insert :: "u64 \<Rightarrow> HashTable \<Rightarrow> handler \<times> HashTable" where
  "ht_insert key t =
     (let e = \<lparr>e_key = key, e_value = new_IOFrame\<rparr>; pos = ht_pos t key
      in ((pos, 0), t\<lparr>ht_entries := (ht_entries t)[pos := e # ht_entries t ! pos]\<rparr>))"

fun lookup_loop :: "u64 \<Rightarrow> Entry list \<Rightarrow> nat \<Rightarrow> nat option" where
  "lookup_loop key [] i = None"
| "lookup_loop key (e # es) i = (if e_key e = key then Some i else lookup_loop key es (i + 1))"

definition ht_lookup :: "u64 \<Rightarrow> HashTable \<Rightarrow> handler option" where
  "ht_lookup key t =
     (let pos = ht_pos t key
      in map_option (\<lambda>i. (pos, i)) (lookup_loop key (ht_entries t ! pos) 0))"

definition ht_frame :: "handler \<Rightarrow> HashTable \<Rightarrow> IOFrame" where
  "ht_frame h t = e_value (ht_entries t ! fst h ! snd h)"

text \<open>A write through the reference \<^verbatim>\<open>handler.frame()\<close>.\<close>

definition ht_update :: "handler \<Rightarrow> (IOFrame \<Rightarrow> IOFrame) \<Rightarrow> HashTable \<Rightarrow> HashTable" where
  "ht_update h f t =
     (let b = ht_entries t ! fst h; e = b ! snd h
      in t\<lparr>ht_entries := (ht_entries t)[fst h := b[snd h := e\<lparr>e_value := f (e_value e)\<rparr>]]\<rparr>)"

definition ht_remove_handler :: "handler \<Rightarrow> HashTable \<Rightarrow> HashTable" where
  "ht_remove_handler h t =
     (let b = ht_entries t ! fst h
      in t\<lparr>ht_entries := (ht_entries t)[fst h := take (snd h) b @ drop (snd h + 1) b]\<rparr>)"

definition ht_remove :: "u64 \<Rightarrow> HashTable \<Rightarrow> HashTable option" where
  "ht_remove key t =
     (case ht_lookup key t of None \<Rightarrow> None | Some h \<Rightarrow> Some (ht_remove_handler h t))"

fun has_loop :: "u64 \<Rightarrow> Entry list \<Rightarrow> bool" where
  "has_loop key [] \<longleftrightarrow> False"
| "has_loop key (e # es) \<longleftrightarrow> (if e_key e = key then True else has_loop key es)"

definition ht_has :: "u64 \<Rightarrow> HashTable \<Rightarrow> bool" where
  "ht_has key t = has_loop key (ht_entries t ! ht_pos t key)"

section \<open>Page identifiers\<close>

record Partition =
  io_ht :: HashTable
  free_bfs_limit :: u64
  dram_free_list :: FreeList
  pid_distance :: u64
  freed_pids :: "(PID \<times> ru_epoch_t \<times> ruh_id_t) list"
  next_pid :: u64
  max_pid :: u64

definition Partition_new :: "nat \<Rightarrow> u64 \<Rightarrow> u64 \<Rightarrow> u64 \<Rightarrow> u64 \<Rightarrow> Partition" where
  "Partition_new ht_bits first_pid distance limit free_limit =
     \<lparr>io_ht = ht_new ht_bits, free_bfs_limit = free_limit,
      dram_free_list = \<lparr>fl_head = None, fl_counter = 0, next_free_bf = \<lambda>_. None\<rparr>, pid_distance = distance,
      freed_pids = [], next_pid = first_pid, max_pid = limit\<rparr>"

definition nextPID :: "Partition \<Rightarrow> (PID \<times> ru_epoch_t \<times> ruh_id_t) \<times> Partition" where
  "nextPID p =
     (if freed_pids p \<noteq> [] then (last (freed_pids p), p\<lparr>freed_pids := butlast (freed_pids p)\<rparr>)
      else if next_pid p \<ge> max_pid p then ((INVALID_PID, UNMAPPED_RU_EPOCH, UNMAPPED_RUH), p)
      else ((next_pid p, UNMAPPED_RU_EPOCH, UNMAPPED_RUH), p\<lparr>next_pid := next_pid p + pid_distance p\<rparr>))"

definition freePage :: "PID \<Rightarrow> ru_epoch_t \<Rightarrow> ruh_id_t \<Rightarrow> Partition \<Rightarrow> Partition" where
  "freePage pid ru_epoch ruh p = p\<lparr>freed_pids := freed_pids p @ [(pid, ru_epoch, ruh)]\<rparr>"

definition allocatedPages :: "Partition \<Rightarrow> u64" where
  "allocatedPages p = next_pid p div pid_distance p"

definition freedPages :: "Partition \<Rightarrow> nat" where
  "freedPages p = length (freed_pids p)"

section \<open>The contract of the table\<close>

text \<open>
  \<open>view t k\<close> lists the values stored under \<open>k\<close>, the most recent first.  The buffer manager
  inserts a page only after a lookup missed; then a table is a finite map, which is what the
  client lemmas are about.
\<close>

datatype ('k, 'v) tbl_op = Ins 'k | Upd 'k "'v \<Rightarrow> 'v" | Del 'k

fun tbl_step ::
  "('k \<Rightarrow> 't \<Rightarrow> bool) \<Rightarrow> ('k \<Rightarrow> 't \<Rightarrow> 't) \<Rightarrow> ('k \<Rightarrow> ('v \<Rightarrow> 'v) \<Rightarrow> 't \<Rightarrow> 't) \<Rightarrow> ('k \<Rightarrow> 't \<Rightarrow> 't) \<Rightarrow>
   ('k, 'v) tbl_op \<Rightarrow> 't \<Rightarrow> 't" where
  "tbl_step hit ins upd del (Ins k) t = (if hit k t then t else ins k t)"
| "tbl_step hit ins upd del (Upd k f) t = (if hit k t then upd k f t else t)"
| "tbl_step hit ins upd del (Del k) t = (if hit k t then del k t else t)"

fun map_step :: "'v \<Rightarrow> ('k, 'v) tbl_op \<Rightarrow> ('k \<rightharpoonup> 'v) \<Rightarrow> ('k \<rightharpoonup> 'v)" where
  "map_step v0 (Ins k) m = (if k \<in> dom m then m else m(k \<mapsto> v0))"
| "map_step v0 (Upd k f) m = (case m k of None \<Rightarrow> m | Some v \<Rightarrow> m(k \<mapsto> f v))"
| "map_step v0 (Del k) m = m(k := None)"

locale keyed_table =
  fixes inv :: "'t \<Rightarrow> bool" and view :: "'t \<Rightarrow> 'k \<Rightarrow> 'v list" and v0 :: 'v
    and hit :: "'k \<Rightarrow> 't \<Rightarrow> bool" and ins :: "'k \<Rightarrow> 't \<Rightarrow> 't"
    and upd :: "'k \<Rightarrow> ('v \<Rightarrow> 'v) \<Rightarrow> 't \<Rightarrow> 't" and del :: "'k \<Rightarrow> 't \<Rightarrow> 't"
  assumes hit_iff: "inv t \<Longrightarrow> hit k t \<longleftrightarrow> view t k \<noteq> []"
    and ins_law: "inv t \<Longrightarrow> inv (ins k t) \<and> view (ins k t) = (view t)(k := v0 # view t k)"
    and upd_law: "inv t \<Longrightarrow> view t k = v # vs \<Longrightarrow>
      inv (upd k f t) \<and> view (upd k f t) = (view t)(k := f v # vs)"
    and del_law: "inv t \<Longrightarrow> view t k = v # vs \<Longrightarrow> inv (del k t) \<and> view (del k t) = (view t)(k := vs)"
begin

lemma step_refines:
  assumes "inv t" "\<And>k. view t k = (case m k of None \<Rightarrow> [] | Some v \<Rightarrow> [v])"
  shows "inv (tbl_step hit ins upd del op t) \<and>
         view (tbl_step hit ins upd del op t) k =
           (case map_step v0 op m k of None \<Rightarrow> [] | Some v \<Rightarrow> [v])"
proof -
  have view: "view t = (\<lambda>k. case m k of None \<Rightarrow> [] | Some v \<Rightarrow> [v])" using assms(2) by auto
  have hit: "hit k t \<longleftrightarrow> m k \<noteq> None" for k
    using hit_iff [OF assms(1), of k] by (simp add: view split: option.splits)
  show ?thesis
  proof (cases op)
    case (Ins k')
    then show ?thesis using ins_law [OF assms(1), of k'] assms(1) hit [of k']
      by (auto simp: view dom_def split: option.splits)
  next
    case (Upd k' f)
    then show ?thesis using upd_law [OF assms(1), of k'] assms(1) hit [of k']
      by (auto simp: view split: option.splits)
  next
    case (Del k')
    then show ?thesis using del_law [OF assms(1), of k'] assms(1) hit [of k']
      by (auto simp: view split: option.splits)
  qed
qed

lemma run_refines:
  assumes "inv t" "\<And>k. view t k = (case m k of None \<Rightarrow> [] | Some v \<Rightarrow> [v])"
  shows "inv (fold (tbl_step hit ins upd del) ops t) \<and>
         view (fold (tbl_step hit ins upd del) ops t) k =
           (case fold (map_step v0) ops m k of None \<Rightarrow> [] | Some v \<Rightarrow> [v])"
  using assms
proof (induction ops arbitrary: t m)
  case (Cons op ops)
  from step_refines [OF Cons.prems, of op] show ?case
    using Cons.IH [of "tbl_step hit ins upd del op t" "map_step v0 op m"] by simp
qed simp

end

section \<open>The hash table implements the contract\<close>

definition ht_inv :: "HashTable \<Rightarrow> bool" where
  "ht_inv t \<longleftrightarrow> unat (ht_mask t) < length (ht_entries t)"

definition ht_view :: "HashTable \<Rightarrow> u64 \<Rightarrow> IOFrame list" where
  "ht_view t k = map e_value (filter (\<lambda>e. e_key e = k) (ht_entries t ! ht_pos t k))"

definition ht_upd_key :: "u64 \<Rightarrow> (IOFrame \<Rightarrow> IOFrame) \<Rightarrow> HashTable \<Rightarrow> HashTable" where
  "ht_upd_key k f t = (case ht_lookup k t of None \<Rightarrow> t | Some h \<Rightarrow> ht_update h f t)"

definition ht_del_key :: "u64 \<Rightarrow> HashTable \<Rightarrow> HashTable" where
  "ht_del_key k t = (case ht_remove k t of None \<Rightarrow> t | Some t' \<Rightarrow> t')"

lemma ht_pos_less: "ht_inv t \<Longrightarrow> ht_pos t k < length (ht_entries t)"
  unfolding ht_inv_def ht_pos_def
  by (metis le_less_trans word_and_le1 word_le_nat_alt)

lemma ht_pos_upd [simp]: "ht_pos (t\<lparr>ht_entries := es\<rparr>) k = ht_pos t k"
  by (simp add: ht_pos_def)

lemma lookup_loop_None: "lookup_loop k es i = None \<longleftrightarrow> filter (\<lambda>e. e_key e = k) es = []"
  by (induction es arbitrary: i) auto

lemma lookup_loop_Some:
  "lookup_loop k es i = Some j \<Longrightarrow>
     \<exists>pre e post. es = pre @ e # post \<and> e_key e = k \<and> j = i + length pre \<and> filter (\<lambda>e. e_key e = k) pre = []"
proof (induction es arbitrary: i)
  case (Cons e es)
  show ?case
  proof (cases "e_key e = k")
    case True
    with Cons.prems show ?thesis by (intro exI [of _ "[]"]) auto
  next
    case False
    then have "lookup_loop k es (i + 1) = Some j" using Cons.prems by simp
    from Cons.IH [OF this] obtain pre e' post where "es = pre @ e' # post" "e_key e' = k"
      "j = i + 1 + length pre" "filter (\<lambda>e. e_key e = k) pre = []" by auto
    with False show ?thesis by (intro exI [of _ "e # pre"] exI [of _ e'] exI [of _ post]) auto
  qed
qed simp

text \<open>A hit splits the bucket at the first entry of the key.\<close>

lemma ht_lookup_Some:
  assumes "ht_view t k = v # vs"
  obtains pre e post where "ht_lookup k t = Some (ht_pos t k, length pre)"
    "ht_entries t ! ht_pos t k = pre @ e # post" "e_key e = k" "e_value e = v"
    "map e_value (filter (\<lambda>e. e_key e = k) post) = vs" "filter (\<lambda>e. e_key e = k) pre = []"
proof -
  have "lookup_loop k (ht_entries t ! ht_pos t k) 0 \<noteq> None"
    unfolding lookup_loop_None using assms by (auto simp: ht_view_def)
  then obtain j where j: "lookup_loop k (ht_entries t ! ht_pos t k) 0 = Some j" by auto
  from lookup_loop_Some [OF this] obtain pre e post where
    "ht_entries t ! ht_pos t k = pre @ e # post" "e_key e = k" "j = length pre"
    "filter (\<lambda>e. e_key e = k) pre = []" by auto
  with j assms that show thesis by (auto simp: ht_lookup_def ht_view_def)
qed

lemma ht_view_update:
  assumes "ht_inv t" "filter (\<lambda>e. e_key e \<noteq> k) b = filter (\<lambda>e. e_key e \<noteq> k) (ht_entries t ! ht_pos t k)"
  shows "ht_view (t\<lparr>ht_entries := (ht_entries t)[ht_pos t k := b]\<rparr>) =
         (ht_view t)(k := map e_value (filter (\<lambda>e. e_key e = k) b))"
proof
  fix k'
  have "filter (\<lambda>e. e_key e = k') b = filter (\<lambda>e. e_key e = k') (ht_entries t ! ht_pos t k)" if "k' \<noteq> k"
    using arg_cong [OF assms(2), of "filter (\<lambda>e. e_key e = k')"] that
    by (simp add: conj_commute cong: conj_cong)
  then show "ht_view (t\<lparr>ht_entries := (ht_entries t)[ht_pos t k := b]\<rparr>) k' =
     ((ht_view t)(k := map e_value (filter (\<lambda>e. e_key e = k) b))) k'"
    using ht_pos_less [OF assms(1), of k] by (auto simp: ht_view_def nth_list_update)
qed

interpretation io_table: keyed_table ht_inv ht_view new_IOFrame "\<lambda>k t. ht_lookup k t \<noteq> None"
  "\<lambda>k t. snd (ht_insert k t)" ht_upd_key ht_del_key
proof unfold_locales
  fix t k v vs and f :: "IOFrame \<Rightarrow> IOFrame"
  assume inv: "ht_inv t"
  show "(ht_lookup k t \<noteq> None) \<longleftrightarrow> ht_view t k \<noteq> []"
    by (simp add: ht_lookup_def Let_def ht_view_def lookup_loop_None del: not_None_eq)
  show "ht_inv (snd (ht_insert k t)) \<and>
      ht_view (snd (ht_insert k t)) = (ht_view t)(k := new_IOFrame # ht_view t k)"
    using inv ht_view_update [OF inv, of k "\<lparr>e_key = k, e_value = new_IOFrame\<rparr> # ht_entries t ! ht_pos t k"]
    by (simp add: ht_insert_def Let_def ht_inv_def) (simp add: ht_view_def)
  assume "ht_view t k = v # vs"
  then obtain pre e post where s: "ht_lookup k t = Some (ht_pos t k, length pre)"
    "ht_entries t ! ht_pos t k = pre @ e # post" "e_key e = k" "e_value e = v"
    "map e_value (filter (\<lambda>e. e_key e = k) post) = vs" "filter (\<lambda>e. e_key e = k) pre = []"
    by (rule ht_lookup_Some)
  show "ht_inv (ht_upd_key k f t) \<and> ht_view (ht_upd_key k f t) = (ht_view t)(k := f v # vs)"
    using inv ht_view_update [OF inv, of k "pre @ e\<lparr>e_value := f (e_value e)\<rparr> # post"] s
    by (simp add: ht_upd_key_def ht_update_def Let_def ht_inv_def)
  show "ht_inv (ht_del_key k t) \<and> ht_view (ht_del_key k t) = (ht_view t)(k := vs)"
    using inv ht_view_update [OF inv, of k "pre @ post"] s
    by (simp add: ht_del_key_def ht_remove_def ht_remove_handler_def Let_def ht_inv_def)
qed

lemma ht_has_iff: "ht_has k t \<longleftrightarrow> ht_view t k \<noteq> []"
proof -
  have "has_loop k es \<longleftrightarrow> filter (\<lambda>e. e_key e = k) es \<noteq> []" for es by (induction es) auto
  then show ?thesis by (simp add: ht_has_def ht_view_def)
qed

section \<open>Page identifiers in use\<close>

text \<open>
  The clients of one partition: they take page identifiers and give back identifiers they hold.
\<close>

inductive pid_step :: "Partition \<times> PID set \<Rightarrow> Partition \<times> PID set \<Rightarrow> bool" where
  take_pid: "nextPID p = ((pid, e, r), p') \<Longrightarrow> pid \<noteq> INVALID_PID \<Longrightarrow> pid_step (p, used) (p', insert pid used)"
| free_pid: "pid \<in> used \<Longrightarrow> pid_step (p, used) (freePage pid e r p, used - {pid})"

definition pid_init :: "u64 \<Rightarrow> u64 \<Rightarrow> u64 \<Rightarrow> Partition \<times> PID set \<Rightarrow> bool" where
  "pid_init first d limit st \<longleftrightarrow>
     first < d \<and> unat limit + unat d < 2 ^ 64 \<and> snd st = {} \<and>
     (\<exists>bits fl. fst st = Partition_new bits first d limit fl)"

definition nth_pid :: "u64 \<Rightarrow> u64 \<Rightarrow> nat \<Rightarrow> nat" where
  "nth_pid first d i = unat first + i * unat d"

definition pid_inv :: "u64 \<Rightarrow> u64 \<Rightarrow> u64 \<Rightarrow> Partition \<times> PID set \<Rightarrow> bool" where
  "pid_inv first d limit st \<longleftrightarrow>
     (case st of (p, used) \<Rightarrow>
        first < d \<and> unat limit + unat d < 2 ^ 64 \<and> pid_distance p = d \<and> max_pid p = limit \<and>
        (\<exists>n. unat (next_pid p) = nth_pid first d n \<and> (\<forall>i<n. nth_pid first d i < unat limit) \<and>
             distinct (map fst (freed_pids p)) \<and> fst ` set (freed_pids p) \<inter> used = {} \<and>
             unat ` (fst ` set (freed_pids p) \<union> used) = nth_pid first d ` {..<n}))"

lemma nth_pid_inj: "0 < unat d \<Longrightarrow> nth_pid first d i = nth_pid first d j \<longleftrightarrow> i = j"
  by (simp add: nth_pid_def)

lemma pid_inv_next:
  assumes "pid_inv first d limit (p, used)" "nextPID p = ((pid, e, r), p')" "pid \<noteq> INVALID_PID"
  shows "pid_inv first d limit (p', insert pid used) \<and> pid \<notin> used"
proof -
  obtain n where inv: "first < d" "unat limit + unat d < 2 ^ 64" "pid_distance p = d" "max_pid p = limit"
    "unat (next_pid p) = nth_pid first d n" "\<forall>i<n. nth_pid first d i < unat limit"
    "distinct (map fst (freed_pids p))" "fst ` set (freed_pids p) \<inter> used = {}"
    "unat ` (fst ` set (freed_pids p) \<union> used) = nth_pid first d ` {..<n}"
    using assms(1) by (auto simp: pid_inv_def)
  have dpos: "0 < unat d" using inv(1) by (simp add: word_less_nat_alt)
  show ?thesis
  proof (cases "freed_pids p = []")
    case False
    then have "p' = p\<lparr>freed_pids := butlast (freed_pids p)\<rparr>" "last (freed_pids p) = (pid, e, r)"
      using assms(2) by (auto simp: nextPID_def)
    then obtain fs where fs: "freed_pids p = fs @ [(pid, e, r)]" "p' = p\<lparr>freed_pids := fs\<rparr>"
      using append_butlast_last_id [OF False] by metis
    then have "fst ` set fs \<inter> insert pid used = {}" "pid \<notin> used"
      using inv(7,8) by auto
    moreover have "fst ` set fs \<union> insert pid used = fst ` set (freed_pids p) \<union> used"
      using fs by auto
    ultimately show ?thesis using inv fs unfolding pid_inv_def by (auto intro!: exI [of _ n])
  next
    case True
    then have p': "pid = next_pid p" "p' = p\<lparr>next_pid := next_pid p + d\<rparr>" "next_pid p < limit"
      using assms(2,3) inv by (auto simp: nextPID_def split: if_splits)
    have less: "nth_pid first d n < unat limit" using p'(3) inv(5) by (simp add: word_less_nat_alt)
    have "unat (next_pid p + d) = nth_pid first d (Suc n)"
      using inv(2,5) less by (simp add: unat_word_ariths nth_pid_def)
    moreover have "pid \<notin> used"
    proof
      assume "pid \<in> used"
      then have "nth_pid first d n \<in> nth_pid first d ` {..<n}"
        using inv(9) True p'(1) inv(5) by (metis UnCI image_eqI)
      then show False using nth_pid_inj [OF dpos] by auto
    qed
    moreover have "unat ` insert pid used = nth_pid first d ` {..<Suc n}"
      using inv(9) True p'(1) inv(5) by (simp add: lessThan_Suc)
    ultimately show ?thesis
      using inv True p' less unfolding pid_inv_def
      by (auto simp: less_Suc_eq intro!: exI [of _ "Suc n"])
  qed
qed

lemma pid_inv_free:
  assumes "pid_inv first d limit (p, used)" "pid \<in> used"
  shows "pid_inv first d limit (freePage pid e r p, used - {pid})"
proof -
  obtain n where inv: "first < d" "unat limit + unat d < 2 ^ 64" "pid_distance p = d" "max_pid p = limit"
    "unat (next_pid p) = nth_pid first d n" "\<forall>i<n. nth_pid first d i < unat limit"
    "distinct (map fst (freed_pids p))" "fst ` set (freed_pids p) \<inter> used = {}"
    "unat ` (fst ` set (freed_pids p) \<union> used) = nth_pid first d ` {..<n}"
    using assms(1) by (auto simp: pid_inv_def)
  have "unat ` (fst ` set (freed_pids (freePage pid e r p)) \<union> (used - {pid})) = nth_pid first d ` {..<n}"
    unfolding inv(9) [symmetric] using assms(2) by (intro arg_cong [of _ _ "image unat"]) (auto simp: freePage_def)
  with inv assms(2) show ?thesis
    unfolding pid_inv_def by (auto simp: freePage_def intro!: exI [of _ n])
qed

interpretation pid_client: invariant_of "pid_init first d limit" pid_step "pid_inv first d limit"
  for first d limit
proof unfold_locales
  fix st st' :: "Partition \<times> PID set"
  show "pid_init first d limit st \<Longrightarrow> pid_inv first d limit st"
    by (cases st) (auto simp: pid_init_def pid_inv_def Partition_new_def nth_pid_def intro!: exI [of _ 0])
  show "pid_inv first d limit st \<Longrightarrow> pid_step st st' \<Longrightarrow> pid_inv first d limit st'"
    by (erule pid_step.cases) (auto dest: pid_inv_next pid_inv_free)
qed

section \<open>Properties\<close>

text \<open>
  C36: The hash table of pages in flight is a map from page identifiers to I/O frames.  Run any
  sequence of operations the way the buffer manager does, inserting a page only when its lookup
  misses and updating or removing it only when it hits: afterwards the lookup of a page hits
  exactly when the page is in the map the same operations build, the frame it finds is the
  map's, and \<^verbatim>\<open>has\<close> agrees, whatever collisions there are.
\<close>
theorem hash_table_refines_map:
  assumes "bits < 64"
  defines "t \<equiv> \<lambda>ops. fold (tbl_step (\<lambda>k t. ht_lookup k t \<noteq> None) (\<lambda>k t. snd (ht_insert k t)) ht_upd_key ht_del_key)
                   ops (ht_new bits)"
    and "m \<equiv> \<lambda>ops. fold (map_step new_IOFrame) ops Map.empty"
  shows "map_option (\<lambda>h. ht_frame h (t ops)) (ht_lookup key (t ops)) = m ops key \<and>
         ht_has key (t ops) = (key \<in> dom (m ops))"
proof -
  have len: "unat (push_bit bits (1::u64)) = 2 ^ bits"
    using assms(1) by (intro unat_push_bit_1) simp
  have "unat (push_bit bits 1 - 1 :: u64) = 2 ^ bits - 1"
    using assms(1) by (intro unat_exp_minus_1) simp
  then have inv: "ht_inv (ht_new bits)" by (simp only: ht_inv_def ht_new_def Let_def len HashTable.simps length_replicate) simp
  have "ht_view (ht_new bits) k = []" for k
    using ht_pos_less [OF inv, of k] by (simp add: ht_view_def ht_new_def Let_def)
  then have run: "ht_inv (t ops) \<and> ht_view (t ops) key = (case m ops key of None \<Rightarrow> [] | Some v \<Rightarrow> [v])"
    using io_table.run_refines [OF inv, of Map.empty ops key] unfolding t_def m_def by simp
  show ?thesis
  proof (cases "m ops key")
    case None
    then have "ht_lookup key (t ops) = None" using io_table.hit_iff [of "t ops" key] run
      by (simp del: not_None_eq)
    with None run show ?thesis by (auto simp: ht_has_iff)
  next
    case (Some v)
    then have "ht_view (t ops) key = [v]" using run by simp
    then obtain pre e post where "ht_lookup key (t ops) = Some (ht_pos (t ops) key, length pre)"
      "ht_entries (t ops) ! ht_pos (t ops) key = pre @ e # post" "e_value e = v"
      by (rule ht_lookup_Some)
    with Some run show ?thesis by (auto simp: ht_has_iff ht_frame_def)
  qed
qed

text \<open>
  C35: Page identifiers are never shared.  In every state reached by taking and freeing
  identifiers of a partition, \<^verbatim>\<open>nextPID\<close> either returns an identifier that is not in
  use, lies below \<open>max_pid\<close> and belongs to the partition (so that no other partition hands it
  out), or returns INVALID_PID, and then every identifier of the partition below
  \<open>max_pid\<close> is in use.
\<close>
theorem nextPID_fresh:
  assumes "reach (pid_init first d limit) pid_step (p, used)"
  shows "case nextPID p of ((pid, e, r), p') \<Rightarrow>
           (if pid = INVALID_PID
            then used = {q. q < limit \<and> unat q mod unat d = unat first}
            else pid \<notin> used \<and> pid < limit \<and> unat pid mod unat d = unat first)"
proof -
  have "pid_inv first d limit (p, used)" by (rule pid_client.reach_inv [OF assms])
  then obtain n where inv: "first < d" "unat limit + unat d < 2 ^ 64" "pid_distance p = d" "max_pid p = limit"
    "unat (next_pid p) = nth_pid first d n" "\<forall>i<n. nth_pid first d i < unat limit"
    "fst ` set (freed_pids p) \<inter> used = {}"
    "unat ` (fst ` set (freed_pids p) \<union> used) = nth_pid first d ` {..<n}" and pinv: "pid_inv first d limit (p, used)"
    by (auto simp: pid_inv_def)
  obtain pid e r p' where n: "nextPID p = ((pid, e, r), p')" by (metis prod_cases3 surj_pair)
  have mod: "nth_pid first d i mod unat d = unat first" for i
    using inv(1) by (simp add: nth_pid_def word_less_nat_alt)
  have small: "unat q < unat limit \<Longrightarrow> q \<noteq> INVALID_PID" for q
    using inv(1,2) by (auto simp: INVALID_PID_def word_less_nat_alt unsigned_minus_1_eq_mask mask_eq_exp_minus_1)
  have reuse: "unat pid \<in> nth_pid first d ` {..<n}" if "freed_pids p \<noteq> []"
  proof -
    have "(pid, e, r) \<in> set (freed_pids p)"
      using that n last_in_set [OF that] by (auto simp: nextPID_def)
    then show ?thesis unfolding inv(8) [symmetric] by force
  qed
  show ?thesis
  proof (cases "pid = INVALID_PID")
    case False
    have "unat pid \<in> nth_pid first d ` {..<n} \<or> pid = next_pid p \<and> pid < limit"
      using n False inv(3,4) reuse by (auto simp: nextPID_def split: if_splits)
    then have "unat pid < unat limit \<and> unat pid mod unat d = unat first"
      using inv(5,6,8) mod by (auto simp: word_less_nat_alt)
    then show ?thesis using n False pid_inv_next [OF pinv n False] by (simp add: word_less_nat_alt)
  next
    case True
    have "freed_pids p = []"
    proof (rule ccontr)
      assume f: "freed_pids p \<noteq> []"
      from reuse [OF f] inv(6) have "unat pid < unat limit" by auto
      with small True show False by blast
    qed
    then have freed: "freed_pids p = []" "limit \<le> next_pid p"
      using n True inv(3,4) small [of "next_pid p"]
      by (auto simp: nextPID_def word_le_nat_alt split: if_splits)
    have "q \<in> used \<longleftrightarrow> q < limit \<and> unat q mod unat d = unat first" for q
    proof
      assume "q \<in> used"
      then have "unat q \<in> nth_pid first d ` {..<n}" using inv(8) freed by auto
      then show "q < limit \<and> unat q mod unat d = unat first" using inv(6) mod by (auto simp: word_less_nat_alt)
    next
      assume q: "q < limit \<and> unat q mod unat d = unat first"
      then have eq: "unat q = nth_pid first d (unat q div unat d)"
        by (simp add: nth_pid_def) (metis add.commute div_mult_mod_eq)
      have "unat q < nth_pid first d n" using q freed inv(5) by (simp add: word_less_nat_alt word_le_nat_alt)
      then have "unat q div unat d < n" by (subst (asm) eq) (simp add: nth_pid_def)
      then have "unat q \<in> unat ` used" using eq inv(8) freed by auto
      then show "q \<in> used" by (auto simp: word_unat_eq_iff [symmetric])
    qed
    then show ?thesis using n True by auto
  qed
qed

theorem hash_table_refines_map_witness:
  "map_option (\<lambda>h. ht_frame h (snd (ht_insert 5 (ht_new 1)))) (ht_lookup 5 (snd (ht_insert 5 (ht_new 1)))) = Some new_IOFrame"
proof -
  have "ht_lookup 5 (ht_new 1) = None" by (simp add: ht_lookup_def ht_new_def ht_pos_def hashKey_def Let_def)
  then show ?thesis using hash_table_refines_map [of 1 "[Ins 5]" 5] by simp
qed

theorem nextPID_fresh_witness:
  "fst (fst (nextPID (snd (nextPID (Partition_new 1 3 8 20 1))))) = 11 \<and> (11::u64) \<notin> {3}"
proof -
  let ?p = "Partition_new 1 3 8 20 1"
  have "pid_init 3 8 20 (?p, {})" by (auto simp: pid_init_def)
  moreover have "pid_step (?p, {}) (snd (nextPID ?p), {3})"
    by (rule take_pid [of _ _ UNMAPPED_RU_EPOCH UNMAPPED_RUH]) (simp_all add: nextPID_def Partition_new_def INVALID_PID_def)
  ultimately have "reach (pid_init 3 8 20) pid_step (snd (nextPID ?p), {3})" by (blast intro: reach.intros)
  from nextPID_fresh [OF this] show ?thesis by (simp add: nextPID_def Partition_new_def INVALID_PID_def)
qed

end
