(* ===== verification/RU_Epochs.thy ===== *)
theory RU_Epochs
  imports Units Misc Transition_System
begin

text \<open>
  The accounting of reclaim unit (RU) epochs, \<^verbatim>\<open>buffer-manager/RUEpochDiscardSet.hpp\<close>
  and \<^verbatim>\<open>RUEpochDiscardSet.cpp\<close>: the counters of one epoch, the ring that holds the
  open epochs of a reclaim unit handle, and the layout of the state persisted behind the
  database pages.  Printing (\<^verbatim>\<open>dump\<close>), the floating point statistics of
  \<^verbatim>\<open>shouldGC\<close> and the system calls are left out.
\<close>

section \<open>One epoch\<close>

text \<open>
  The counters are signed 32-bit atomics; they stay far below their range and are integers.
  \<open>causes\<close> is \<^verbatim>\<open>undiscardable_cause_distribution\<close>.
\<close>

record RUEpochDiscardSet =
  ds_ruh :: ruh_id_t
  ds_id :: u32
  log_segment_start :: u64
  log_segment_size :: u64
  log_reclaimed :: bool
  lba_chain_entries :: "PID list"
  lba_chain_blocks :: "(PID \<times> ru_epoch_t) list"
  offset_batch :: u64
  ds_inserted :: int
  ds_deleted :: int
  is_currently_being_garbage_collected :: bool
  ds_total :: int
  ds_invalid :: int
  block_inserted :: int
  block_deleted :: int
  block_total :: int
  block_invalid :: int
  done_gc :: int
  total_fixed :: int
  total_clean_copied :: int
  cur_ru_epoch :: ru_epoch_t
  active :: bool
  causes :: "nat list"

definition CAUSES :: nat where "CAUSES = 10"

definition ds_new :: "flags \<Rightarrow> RUEpochDiscardSet" where
  "ds_new fl =
     \<lparr>ds_ruh = UNMAPPED_RUH, ds_id = - 1, log_segment_start = - 1, log_segment_size = - 1,
      log_reclaimed = False, lba_chain_entries = [], lba_chain_blocks = [], offset_batch = 0,
      ds_inserted = 0, ds_deleted = 0, is_currently_being_garbage_collected = False,
      ds_total = 0, ds_invalid = 0, block_inserted = 0, block_deleted = 0, block_total = 0,
      block_invalid = 0, done_gc = FLAGS_ru_gc_threads fl, total_fixed = 0,
      total_clean_copied = 0, cur_ru_epoch = - 1, active = False, causes = replicate CAUSES 0\<rparr>"

text \<open>
  \<^verbatim>\<open>open\<close> waits, with the set unlocked, while the slot is still in use:
  \<open>Wait\<close> is that it has to retry.
\<close>

datatype 'a open_result = Wait | Abort | Opened 'a

definition ds_open :: "flags \<Rightarrow> ru_epoch_t \<Rightarrow> RUEpochDiscardSet \<Rightarrow> RUEpochDiscardSet open_result" where
  "ds_open fl new_ru_epoch s =
     (if FLAGS_enable_discarding fl \<and> active s then Wait
      else if \<not> FLAGS_enable_discarding fl \<or> cur_ru_epoch s = - 1
      then Opened (s\<lparr>cur_ru_epoch := new_ru_epoch, active := True\<rparr>)
      else Abort)"

definition clearGCState :: "flags \<Rightarrow> RUEpochDiscardSet \<Rightarrow> RUEpochDiscardSet" where
  "clearGCState fl s =
     s\<lparr>offset_batch := 0, lba_chain_entries := [], lba_chain_blocks := [],
       is_currently_being_garbage_collected := False,
       log_segment_start := - 1, log_segment_size := - 1,
       done_gc := FLAGS_ru_gc_threads fl\<rparr>"

definition ds_clear :: "flags \<Rightarrow> RUEpochDiscardSet \<Rightarrow> RUEpochDiscardSet" where
  "ds_clear fl s =
     (let s1 = s\<lparr>ds_inserted := 0, ds_deleted := 0, ds_total := 0, ds_invalid := 0,
                 block_inserted := 0, block_deleted := 0, block_total := 0, block_invalid := 0,
                 total_fixed := 0, total_clean_copied := 0, log_reclaimed := False\<rparr>;
          s2 = clearGCState fl s1
      in s2\<lparr>cur_ru_epoch := - 1, active := False, causes := map (\<lambda>_. 0) (causes s2)\<rparr>)"

definition ds_reset :: "flags \<Rightarrow> RUEpochDiscardSet \<Rightarrow> RUEpochDiscardSet option" where
  "ds_reset fl s =
     do { ensure (FLAGS_enable_discarding fl \<or> is_currently_being_garbage_collected s);
          ensure (done_gc s = 0);
          Some (ds_clear fl s) }"

definition resetWithoutGC :: "flags \<Rightarrow> RUEpochDiscardSet \<Rightarrow> RUEpochDiscardSet option" where
  "resetWithoutGC fl s =
     do { ensure (FLAGS_enable_discarding fl);
          ensure (ds_ruh s \<noteq> DEFAULT_RUH);
          ensure (done_gc s = FLAGS_ru_gc_threads fl);
          Some (ds_clear fl s) }"

definition afterLogReclaim :: "flags \<Rightarrow> RUEpochDiscardSet \<Rightarrow> RUEpochDiscardSet option" where
  "afterLogReclaim fl s =
     do { ensure (log_reclaimed s);
          ensure (done_gc s = 0);
          Some (clearGCState fl s) }"

definition ReclaimUnitUsage :: "RUEpochDiscardSet \<Rightarrow> u32" where
  "ReclaimUnitUsage s = (let d = ds_inserted s - ds_deleted s; i = ds_invalid s in word_of_int (i + d))"

section \<open>The ring of epochs\<close>

type_synonym RUEpochsState = "RUEpochDiscardSet list"

definition ring_new :: "flags \<Rightarrow> nat \<Rightarrow> RUEpochsState" where
  "ring_new fl sz = replicate sz (ds_new fl)"

definition ring_at :: "RUEpochsState \<Rightarrow> nat \<Rightarrow> RUEpochDiscardSet" where
  "ring_at data index = data ! (index mod length data)"

definition ring_get :: "RUEpochsState \<Rightarrow> nat \<Rightarrow> RUEpochDiscardSet option" where
  "ring_get data index =
     do { ensure (cur_ru_epoch (data ! (index mod length data)) = int index);
          Some (ring_at data index) }"

definition ring_put :: "RUEpochsState \<Rightarrow> nat \<Rightarrow> RUEpochDiscardSet \<Rightarrow> RUEpochsState" where
  "ring_put data index s = data[index mod length data := s]"

section \<open>The persisted state\<close>

text \<open>
  \<^verbatim>\<open>PersistantRUState\<close> is 4096 byte aligned, so its size is 4096: eight bytes of
  \<^verbatim>\<open>max_open_ru_epochs\<close> and three arrays of three epochs, then padding.  The zero
  length array \<^verbatim>\<open>totals\<close> starts at byte 80, the chain heads behind the padded struct
  and both arrays of totals.
\<close>

definition sizeof_PersistantRUState :: u64 where "sizeof_PersistantRUState = 4096"
definition totals_offset :: u64 where "totals_offset = 8 + 3 * of_nat MAX_RUHS * 8"

definition chainHeadsOffset :: "u64 \<Rightarrow> u64" where
  "chainHeadsOffset max_open_ru_epochs =
     upAlign (sizeof_PersistantRUState + 2 * max_open_ru_epochs * of_nat MAX_RUHS * 4) 8"

definition sizeFor :: "u64 \<Rightarrow> bool \<Rightarrow> u64" where
  "sizeFor max_open_ru_epochs with_lba_chain_heads =
     (let size = chainHeadsOffset max_open_ru_epochs
      in if with_lba_chain_heads then size + max_open_ru_epochs * 8 else size)"

definition getSize :: "flags \<Rightarrow> u64 \<Rightarrow> u64" where
  "getSize fl max_open_ru_epochs = sizeFor max_open_ru_epochs (FLAGS_bg_page_fixer_variant fl = 2)"

text \<open>The accessors return references: the model gives the byte offset they refer to.\<close>

definition blockTotal :: "u64 \<Rightarrow> ruh_id_t \<Rightarrow> u64 \<Rightarrow> u64 option" where
  "blockTotal max_open_ru_epochs ruh i =
     do { ensure (i < max_open_ru_epochs);
          Some (totals_offset + 4 * (ucast ruh * max_open_ru_epochs + i)) }"

definition pageTotal :: "u64 \<Rightarrow> ruh_id_t \<Rightarrow> u64 \<Rightarrow> u64 option" where
  "pageTotal max_open_ru_epochs ruh i =
     do { ensure (i < max_open_ru_epochs);
          Some (totals_offset + 4 * ((of_nat MAX_RUHS + ucast ruh) * max_open_ru_epochs + i)) }"

definition chainHead :: "flags \<Rightarrow> u64 \<Rightarrow> u64 \<Rightarrow> u64 option" where
  "chainHead fl max_open_ru_epochs ru_epoch =
     do { ensure (FLAGS_bg_page_fixer_variant fl = 2);
          Some (chainHeadsOffset max_open_ru_epochs + 8 * (ru_epoch mod max_open_ru_epochs)) }"

definition chainHeadBlockOffset :: "u64 \<Rightarrow> u64 \<Rightarrow> u64" where
  "chainHeadBlockOffset max_open_ru_epochs ru_epoch =
     (let offset = chainHeadsOffset max_open_ru_epochs + (ru_epoch mod max_open_ru_epochs) * 8
      in offset - offset mod 4096)"

section \<open>Life of an epoch\<close>

lemma clearGCState_keeps [simp]:
  "ds_total (clearGCState fl s) = ds_total s" "ds_invalid (clearGCState fl s) = ds_invalid s"
  "ds_inserted (clearGCState fl s) = ds_inserted s" "ds_deleted (clearGCState fl s) = ds_deleted s"
  "block_total (clearGCState fl s) = block_total s" "block_invalid (clearGCState fl s) = block_invalid s"
  "cur_ru_epoch (clearGCState fl s) = cur_ru_epoch s" "active (clearGCState fl s) = active s"
  "causes (clearGCState fl s) = causes s" "ds_ruh (clearGCState fl s) = ds_ruh s"
  "ds_id (clearGCState fl s) = ds_id s" "log_reclaimed (clearGCState fl s) = log_reclaimed s"
  by (simp_all add: clearGCState_def)

lemma ds_clear_fresh:
  "length (causes s) = CAUSES \<Longrightarrow> ds_clear fl s = (ds_new fl)\<lparr>ds_ruh := ds_ruh s, ds_id := ds_id s\<rparr>"
  by (simp add: ds_clear_def clearGCState_def ds_new_def Let_def map_replicate_const)

lemma ds_clear_simps [simp]: "cur_ru_epoch (ds_clear fl s) = - 1" "\<not> active (ds_clear fl s)"
  by (simp_all add: ds_clear_def Let_def)

text \<open>
  The threads that share a ring: the epoch manager opens the next epoch, the other threads
  account and collect garbage in an open epoch (which never changes the epoch number or the
  active bit), and an epoch is closed by one of the two resets.  \<open>opened\<close> are the epochs
  opened and not closed yet.
\<close>

inductive ring_step ::
  "flags \<Rightarrow> RUEpochsState \<times> nat \<times> nat set \<Rightarrow> RUEpochsState \<times> nat \<times> nat set \<Rightarrow> bool"
  for fl :: flags where
  open_next: "ds_open fl (int e) (ring_at data e) = Opened s \<Longrightarrow>
     ring_step fl (data, e, opened) (ring_put data e s, e + 1, insert e opened)"
| account: "k \<in> opened \<Longrightarrow> ring_get data k = Some s0 \<Longrightarrow> cur_ru_epoch s = cur_ru_epoch s0 \<Longrightarrow>
     active s = active s0 \<Longrightarrow> ring_step fl (data, e, opened) (ring_put data k s, e, opened)"
| close: "k \<in> opened \<Longrightarrow> ring_get data k = Some s0 \<Longrightarrow>
     ds_reset fl s0 = Some s \<or> resetWithoutGC fl s0 = Some s \<Longrightarrow>
     ring_step fl (data, e, opened) (ring_put data k s, e, opened - {k})"

definition ring_init :: "flags \<Rightarrow> nat \<Rightarrow> RUEpochsState \<times> nat \<times> nat set \<Rightarrow> bool" where
  "ring_init fl sz st \<longleftrightarrow> FLAGS_enable_discarding fl \<and> 0 < sz \<and> fst st = ring_new fl sz \<and> snd (snd st) = {}"

definition ring_inv :: "flags \<Rightarrow> nat \<Rightarrow> RUEpochsState \<times> nat \<times> nat set \<Rightarrow> bool" where
  "ring_inv fl sz st \<longleftrightarrow>
     (case st of (data, e, opened) \<Rightarrow>
        FLAGS_enable_discarding fl \<and> 0 < sz \<and> length data = sz \<and> (\<forall>k\<in>opened. k < e) \<and>
        (\<forall>k\<in>opened. active (ring_at data k) \<and> cur_ru_epoch (ring_at data k) = int k) \<and>
        (\<forall>i < sz. active (data ! i) \<longleftrightarrow> i \<in> (\<lambda>k. k mod sz) ` opened) \<and>
        (\<forall>i < sz. \<not> active (data ! i) \<longrightarrow> cur_ru_epoch (data ! i) = - 1))"

lemma ring_at_put: "0 < length data \<Longrightarrow> ring_at (ring_put data k s) j =
    (if j mod length data = k mod length data then s else ring_at data j)"
  by (simp add: ring_at_def ring_put_def nth_list_update)

lemma length_ring_put [simp]: "length (ring_put data k s) = length data"
  by (simp add: ring_put_def)

lemma nth_ring_put: "i < length data \<Longrightarrow> ring_put data k s ! i =
    (if i = k mod length data then s else data ! i)"
  by (simp add: ring_put_def nth_list_update)

text \<open>Two open epochs never share a slot: the slot knows its epoch.\<close>

lemma ring_inv_inj:
  assumes "ring_inv fl sz (data, e, opened)" "j \<in> opened" "k \<in> opened" "j mod sz = k mod sz"
  shows "j = k"
proof -
  have len: "length data = sz" and cur: "\<forall>k\<in>opened. cur_ru_epoch (ring_at data k) = int k"
    using assms(1) unfolding ring_inv_def by blast+
  have "ring_at data j = ring_at data k" unfolding ring_at_def len assms(4) ..
  with cur assms(2,3) have "int j = int k" by metis
  then show ?thesis by simp
qed

lemma ring_inv_free:
  assumes "ring_inv fl sz (data, e, opened)" "\<not> active (ring_at data k)"
  shows "k mod sz \<notin> (\<lambda>k. k mod sz) ` opened" "cur_ru_epoch (ring_at data k) = - 1"
  using assms unfolding ring_inv_def ring_at_def by auto

lemma ring_step_inv:
  "ring_step fl st st' \<Longrightarrow> ring_inv fl sz st \<Longrightarrow> ring_inv fl sz st'"
proof (induction rule: ring_step.induct)
  case (open_next e data s opened)
  have free: "\<not> active (ring_at data e)" and s: "s = (ring_at data e)\<lparr>cur_ru_epoch := int e, active := True\<rparr>"
    using open_next by (auto simp: ds_open_def ring_inv_def split: if_splits)
  note nhit = ring_inv_free(1) [OF open_next.prems free]
  have len: "length data = sz" "0 < sz" using open_next.prems by (auto simp: ring_inv_def)
  then have "k mod sz \<noteq> e mod sz" if "k \<in> opened" for k using nhit that by (metis imageI)
  then show ?case
    using open_next.prems len unfolding ring_inv_def
    by (auto simp: s ring_at_put nth_ring_put split: if_splits)
next
  case (account k opened data s0 s e)
  then have s0: "s0 = ring_at data k" by (simp add: ring_get_def)
  have len: "length data = sz" "0 < sz" using account.prems by (auto simp: ring_inv_def)
  have "active s" "cur_ru_epoch s = int k" using account s0 by (auto simp: ring_inv_def)
  moreover have "j = k" if "j \<in> opened" "j mod sz = k mod sz" for j
    using ring_inv_inj [OF account.prems that(1) account.hyps(1) that(2)] .
  ultimately show ?case
    using account.prems account.hyps(1) len unfolding ring_inv_def
    by (auto simp: ring_at_put nth_ring_put)
next
  case (close k opened data s0 s e)
  have s: "\<not> active s" "cur_ru_epoch s = - 1" using close by (auto simp: ds_reset_def resetWithoutGC_def)
  have len: "length data = sz" "0 < sz" using close.prems by (auto simp: ring_inv_def)
  have inj: "j = k" if "j \<in> opened" "j mod sz = k mod sz" for j
    using ring_inv_inj [OF close.prems that(1) close.hyps(1) that(2)] .
  then have "(\<lambda>k. k mod sz) ` (opened - {k}) = (\<lambda>k. k mod sz) ` opened - {k mod sz}"
    using close.hyps(1) by auto
  with inj show ?case
    using close.prems close.hyps(1) len s unfolding ring_inv_def
    by (auto simp: ring_at_put nth_ring_put)
qed

interpretation ru_ring: invariant_of "ring_init fl sz" "ring_step fl" "ring_inv fl sz" for fl sz
proof unfold_locales
  fix st st' :: "RUEpochsState \<times> nat \<times> nat set"
  show "ring_init fl sz st \<Longrightarrow> ring_inv fl sz st"
    by (cases st) (auto simp: ring_init_def ring_inv_def ring_new_def ds_new_def)
qed (rule ring_step_inv)

section \<open>Offsets of the persisted state\<close>

lemma unat_chainHeadsOffset:
  assumes "unat m < 2 ^ 32"
  shows "unat (chainHeadsOffset m) = 4096 + 24 * unat m"
proof -
  have x: "unat (sizeof_PersistantRUState + 2 * m * of_nat MAX_RUHS * 4) = 4096 + 24 * unat m"
    using assms by (simp add: sizeof_PersistantRUState_def MAX_RUHS_def unat_word_ariths)
  have "unat (upAlign (sizeof_PersistantRUState + 2 * m * of_nat MAX_RUHS * 4) (push_bit 3 1)) =
      (4096 + 24 * unat m + 7) - (4096 + 24 * unat m + 7) mod 8"
    using upAlign_unat [of 3 "sizeof_PersistantRUState + 2 * m * of_nat MAX_RUHS * 4"] assms unfolding x by simp
  then show ?thesis unfolding chainHeadsOffset_def by simp presburger
qed

lemma unat_chainHead:
  assumes "unat m < 2 ^ 32" "0 < m"
  shows "unat (chainHeadsOffset m + 8 * (e mod m)) = 4096 + 24 * unat m + 8 * (unat e mod unat m)"
proof -
  have "unat e mod unat m < unat m" using assms(2) by (simp add: word_less_nat_alt)
  then show ?thesis using assms(1) unat_chainHeadsOffset [OF assms(1)]
    by (simp add: unat_word_ariths unat_mod)
qed

lemma block_of_offset:
  fixes c s k :: nat
  assumes "c = 8 * k" "c < s"
  shows "4096 dvd c - c mod 4096 \<and> c - c mod 4096 \<le> c \<and> c + 8 \<le> (c - c mod 4096) + 4096 \<and>
         (c - c mod 4096) + 4096 \<le> (s + 4095) - (s + 4095) mod 4096"
proof -
  have "c mod 4096 = 8 * (k mod 512)" using mult_mod_right [of 8 k 512] assms(1) by simp
  then have "c mod 4096 + 8 \<le> 4096" using mod_less_divisor [of 512 k] by linarith
  moreover have "4096 * (c div 4096) + c mod 4096 = c" by simp
  ultimately have "c + 8 \<le> 4096 * (c div 4096) + 4096" by linarith
  moreover have "(c + 4096) div 4096 \<le> (s + 4095) div 4096" using assms(2) by (intro div_le_mono) simp
  then have "4096 * (c div 4096 + 1) \<le> 4096 * ((s + 4095) div 4096)" by (intro mult_le_mono2) simp
  moreover have "c - c mod 4096 = 4096 * (c div 4096)" "(s + 4095) - (s + 4095) mod 4096 = 4096 * ((s + 4095) div 4096)"
    by (simp_all add: minus_mod_eq_mult_div)
  ultimately show ?thesis by simp
qed

section \<open>Properties\<close>

text \<open>
  C34: The ring of RU epochs is exact.  In every state the threads can reach, whatever order the
  epochs are closed in, \<^verbatim>\<open>operator[]\<close> succeeds exactly for the epochs that are open
  and yields the set of that very epoch; opening the next epoch never fails its check and waits
  exactly while an epoch that shares its slot is still open.
\<close>
theorem ru_ring_exact:
  assumes "reach (ring_init fl sz) (ring_step fl) (data, e, opened)"
  shows "ring_get data k = (if k \<in> opened then Some (ring_at data k) else None) \<and>
         ds_open fl (int e) (ring_at data e) \<noteq> Abort \<and>
         (ds_open fl (int e) (ring_at data e) = Wait \<longleftrightarrow> (\<exists>j\<in>opened. j mod sz = e mod sz))"
proof -
  have inv: "ring_inv fl sz (data, e, opened)" by (rule ru_ring.reach_inv [OF assms])
  then have fl: "FLAGS_enable_discarding fl" and len: "0 < sz" "length data = sz"
    and cur: "\<And>j. j \<in> opened \<Longrightarrow> cur_ru_epoch (ring_at data j) = int j"
    and slots: "\<forall>i < sz. active (data ! i) \<longleftrightarrow> i \<in> (\<lambda>k. k mod sz) ` opened"
    unfolding ring_inv_def by blast+
  have act: "active (ring_at data j) \<longleftrightarrow> j mod sz \<in> (\<lambda>k. k mod sz) ` opened" for j
    unfolding ring_at_def len(2) using slots mod_less_divisor [OF len(1), of j] by blast
  have "cur_ru_epoch (ring_at data k) = int k \<longleftrightarrow> k \<in> opened"
  proof
    assume k: "cur_ru_epoch (ring_at data k) = int k"
    then have "active (ring_at data k)" using ring_inv_free(2) [OF inv, of k] by fastforce
    then obtain j where j: "j \<in> opened" "j mod sz = k mod sz" using act [of k] by (metis imageE)
    then have "ring_at data j = ring_at data k" by (simp add: ring_at_def len)
    with cur [OF j(1)] k have "int j = int k" by metis
    with j(1) show "k \<in> opened" by simp
  qed (rule cur)
  moreover have "active (ring_at data e) \<longleftrightarrow> (\<exists>j\<in>opened. j mod sz = e mod sz)"
    unfolding act by (metis (no_types, lifting) imageE imageI)
  moreover have "active (ring_at data e) \<or> cur_ru_epoch (ring_at data e) = - 1"
    using ring_inv_free(2) [OF inv] by blast
  ultimately show ?thesis
    using fl unfolding ring_get_def ring_at_def [symmetric] ds_open_def ensure_def by auto
qed

theorem ru_ring_exact_witness:
  "ring_get (ring_put (ring_new default_flags 2) 0 ((ds_new default_flags)\<lparr>cur_ru_epoch := 0, active := True\<rparr>)) 2 = None"
proof -
  let ?data = "ring_put (ring_new default_flags 2) 0 ((ds_new default_flags)\<lparr>cur_ru_epoch := 0, active := True\<rparr>)"
  have "ring_step default_flags (ring_new default_flags 2, 0, {}) (?data, 0 + 1, insert 0 {})"
    by (rule open_next) (simp add: ds_open_def ring_at_def ring_new_def ds_new_def)
  moreover have "ring_init default_flags 2 (ring_new default_flags 2, 0, {})" by (simp add: ring_init_def)
  ultimately have "reach (ring_init default_flags 2) (ring_step default_flags) (?data, 0 + 1, insert 0 {})"
    by (blast intro: reach.intros)
  from ru_ring_exact [OF this, of 2] show ?thesis by simp
qed

text \<open>
  Both resets leave the set of an epoch as it was constructed, with only its place in the
  ring and its handle kept, so that the next epoch can be opened in it at once and starts with
  zero counters; reclaiming only the log of an epoch resets the garbage collection state and
  keeps every counter, the epoch and its usage.
\<close>
lemma epoch_reset_fresh:
  assumes "length (causes s) = CAUSES"
  shows "(case ds_reset fl s of Some s' \<Rightarrow>
            s' = (ds_new fl)\<lparr>ds_ruh := ds_ruh s, ds_id := ds_id s\<rparr> \<and>
            ds_open fl e s' = Opened (s'\<lparr>cur_ru_epoch := e, active := True\<rparr>)
          | None \<Rightarrow> done_gc s \<noteq> 0 \<or> \<not> FLAGS_enable_discarding fl) \<and>
         (case resetWithoutGC fl s of Some s' \<Rightarrow>
            s' = (ds_new fl)\<lparr>ds_ruh := ds_ruh s, ds_id := ds_id s\<rparr> \<and>
            ds_open fl e s' = Opened (s'\<lparr>cur_ru_epoch := e, active := True\<rparr>)
          | None \<Rightarrow> ds_ruh s = DEFAULT_RUH \<or> done_gc s \<noteq> FLAGS_ru_gc_threads fl \<or> \<not> FLAGS_enable_discarding fl) \<and>
         (case afterLogReclaim fl s of Some s' \<Rightarrow>
            ReclaimUnitUsage s' = ReclaimUnitUsage s \<and> cur_ru_epoch s' = cur_ru_epoch s \<and>
            active s' = active s \<and> ds_total s' = ds_total s \<and> done_gc s' = FLAGS_ru_gc_threads fl
          | None \<Rightarrow> done_gc s \<noteq> 0 \<or> \<not> log_reclaimed s)"
proof (intro conjI)
  show "case ds_reset fl s of Some s' \<Rightarrow>
            s' = (ds_new fl)\<lparr>ds_ruh := ds_ruh s, ds_id := ds_id s\<rparr> \<and>
            ds_open fl e s' = Opened (s'\<lparr>cur_ru_epoch := e, active := True\<rparr>)
          | None \<Rightarrow> done_gc s \<noteq> 0 \<or> \<not> FLAGS_enable_discarding fl"
    by (simp add: ds_reset_def ensure_def ds_clear_fresh [OF assms] ds_open_def ds_new_def)
  show "case resetWithoutGC fl s of Some s' \<Rightarrow>
            s' = (ds_new fl)\<lparr>ds_ruh := ds_ruh s, ds_id := ds_id s\<rparr> \<and>
            ds_open fl e s' = Opened (s'\<lparr>cur_ru_epoch := e, active := True\<rparr>)
          | None \<Rightarrow> ds_ruh s = DEFAULT_RUH \<or> done_gc s \<noteq> FLAGS_ru_gc_threads fl \<or> \<not> FLAGS_enable_discarding fl"
    by (simp add: resetWithoutGC_def ensure_def ds_clear_fresh [OF assms] ds_open_def ds_new_def)
  show "case afterLogReclaim fl s of Some s' \<Rightarrow>
            ReclaimUnitUsage s' = ReclaimUnitUsage s \<and> cur_ru_epoch s' = cur_ru_epoch s \<and>
            active s' = active s \<and> ds_total s' = ds_total s \<and> done_gc s' = FLAGS_ru_gc_threads fl
          | None \<Rightarrow> done_gc s \<noteq> 0 \<or> \<not> log_reclaimed s"
    by (simp add: afterLogReclaim_def ensure_def ReclaimUnitUsage_def Let_def) (simp add: clearGCState_def)
qed

text \<open>
  The regions of the persisted RU state do not overlap and fit in its size: the totals of
  blocks come first, then the totals of pages, then the chain heads; distinct slots have
  distinct places; and the 4 KiB block that is rewritten to persist one chain head is aligned,
  contains that head entirely and stays within the size that is written at once.
\<close>
lemma persistent_layout:
  assumes "unat m < 2 ^ 32" "unat r < MAX_RUHS" "unat r' < MAX_RUHS" "i < m" "j < m"
    "FLAGS_bg_page_fixer_variant fl = 2"
  shows "\<exists>b p c. blockTotal m r i = Some b \<and> pageTotal m r' j = Some p \<and> chainHead fl m e = Some c \<and>
           unat totals_offset \<le> unat b \<and> unat b + 4 \<le> unat p \<and> unat p + 4 \<le> unat (chainHeadsOffset m) \<and>
           unat (chainHeadsOffset m) \<le> unat c \<and> unat c + 8 \<le> unat (getSize fl m) \<and>
           (blockTotal m r' j = Some b \<longleftrightarrow> r = r' \<and> i = j) \<and>
           4096 dvd unat (chainHeadBlockOffset m e) \<and> unat (chainHeadBlockOffset m e) \<le> unat c \<and>
           unat c + 8 \<le> unat (chainHeadBlockOffset m e) + 4096 \<and>
           unat (chainHeadBlockOffset m e) + 4096 \<le> unat (upAlign (getSize fl m) 4096)"
proof -
  define M where "M = unat m"
  have lt: "unat i < M" "unat j < M" "0 < M" "M < 2 ^ 32"
    using assms by (simp_all add: M_def word_less_nat_alt)
  have rM: "unat r * M \<le> 2 * M" "unat r' * M \<le> 2 * M"
    using assms(2,3) by (intro mult_le_mono1; simp add: MAX_RUHS_def)+
  have add: "unat (totals_offset + 4 * (y + x)) = 80 + 4 * (unat y + unat x)"
    if "unat y + unat x < 2 ^ 40" for x y
    using that by (simp add: totals_offset_def MAX_RUHS_def unat_word_ariths)
  have off: "unat (totals_offset + 4 * (q * m + x)) = 80 + 4 * (unat q * M + unat x)"
    if "unat q * M \<le> 5 * M" "unat x < M" for q x
  proof -
    have "5 * M < 18446744073709551616" "5 * M + M < 1099511627776" using lt(4) by simp_all
    then have "unat q * unat m < 18446744073709551616" "unat q * M + unat x < 1099511627776"
      using that unfolding M_def by linarith+
    then have "unat (q * m) = unat q * M" by (simp add: unat_word_ariths M_def)
    with \<open>unat q * M + unat x < 1099511627776\<close> show ?thesis using add [of "q * m" x] by simp
  qed
  have r3: "unat (of_nat MAX_RUHS + ucast r' :: u64) = 3 + unat r'"
    using assms(3) by (simp add: MAX_RUHS_def unat_word_ariths unsigned_ucast_eq take_bit_nat_eq_self)
  have ur: "unat (ucast x :: u64) = unat x" for x :: u8
    by (simp add: unsigned_ucast_eq take_bit_nat_eq_self unsigned_less less_trans [OF unsigned_less])
  let ?b = "totals_offset + 4 * (ucast r * m + i)" and ?b' = "totals_offset + 4 * (ucast r' * m + j)"
    and ?p = "totals_offset + 4 * ((of_nat MAX_RUHS + ucast r') * m + j)"
    and ?c = "chainHeadsOffset m + 8 * (e mod m)"
  have b: "unat ?b = 80 + 4 * (unat r * M + unat i)" "unat ?b' = 80 + 4 * (unat r' * M + unat j)"
    using off [of "ucast r" i] off [of "ucast r'" j] rM lt unfolding ur by linarith+
  have p: "unat ?p = 80 + 4 * ((3 + unat r') * M + unat j)"
    using off [of "of_nat MAX_RUHS + ucast r'" j] rM lt unfolding r3 by (simp add: distrib_right)
  have ch: "unat (chainHeadsOffset m) = 4096 + 24 * M" and c: "unat ?c = 4096 + 24 * M + 8 * (unat e mod M)"
    using unat_chainHeadsOffset [OF assms(1)] unat_chainHead [OF assms(1), of e] lt
    by (simp_all add: M_def word_less_nat_alt)
  have em: "unat e mod M < M" using lt by simp
  have size: "unat (getSize fl m) = 4096 + 32 * M"
  proof -
    have "unat (m * 8) = M * 8" using lt(4) by (simp add: unat_word_ariths M_def)
    then show ?thesis using ch lt(4) assms(6)
      by (simp add: getSize_def sizeFor_def Let_def unat_word_ariths(1))
  qed
  have inj: "?b' = ?b \<longleftrightarrow> r = r' \<and> i = j"
  proof
    assume "?b' = ?b"
    then have eq: "unat r * M + unat i = unat r' * M + unat j" using b by simp
    then have "(unat r * M + unat i) div M = (unat r' * M + unat j) div M"
      "(unat r * M + unat i) mod M = (unat r' * M + unat j) mod M" by simp_all
    then show "r = r' \<and> i = j" using lt by (simp add: word_unat_eq_iff)
  qed simp
  have off8: "unat (chainHeadsOffset m + (e mod m) * 8) = unat ?c" by (simp add: mult.commute)
  have blk: "unat (chainHeadBlockOffset m e) = unat ?c - unat ?c mod 4096"
    unfolding chainHeadBlockOffset_def Let_def
    by (subst unat_sub) (simp_all add: word_le_nat_alt unat_mod mult.commute)
  have up: "unat (upAlign (getSize fl m) 4096) = (4096 + 32 * M + 4095) - (4096 + 32 * M + 4095) mod 4096"
    using upAlign_unat [of 12 "getSize fl m"] size lt(4) by simp
  have "unat ?c = 8 * (512 + 3 * M + unat e mod M)" "unat ?c < 4096 + 32 * M" using c em by simp_all
  note block = block_of_offset [OF this, folded blk up]
  have order: "unat ?b + 4 \<le> unat ?p" "unat ?p + 4 \<le> unat (chainHeadsOffset m)" "unat ?c + 8 \<le> unat (getSize fl m)"
  proof -
    define X Y E where "X = unat r * M" and "Y = unat r' * M" and "E = unat e mod M"
    note facts = b [folded X_def Y_def] p [unfolded add_mult_distrib, folded Y_def]
    show "unat ?b + 4 \<le> unat ?p" "unat ?p + 4 \<le> unat (chainHeadsOffset m)" "unat ?c + 8 \<le> unat (getSize fl m)"
      unfolding facts c [folded E_def] ch size
      using rM [folded X_def Y_def] lt(1,2) em [folded E_def] by simp_all
  qed
  have total: "unat totals_offset \<le> unat ?b" unfolding b by (simp add: totals_offset_def MAX_RUHS_def)
  have "blockTotal m r i = Some ?b" "pageTotal m r' j = Some ?p" "chainHead fl m e = Some ?c"
    "blockTotal m r' j = Some ?b'"
    using assms by (simp_all add: blockTotal_def pageTotal_def chainHead_def)
  with order total block inj c ch show ?thesis by simp
qed

end
