(* ===== verification/BTree_Key.thy ===== *)
theory BTree_Key
  imports Misc
begin

text \<open>
  The keys of the B-tree (\<^verbatim>\<open>storage/btree/core/BTreeNode.hpp\<close>): byte strings ordered
  lexicographically, \<^verbatim>\<open>cmpKeys\<close>, and the 4-byte \<^verbatim>\<open>head\<close> of a key that the
  slots keep so that most comparisons do not touch the key.  A C++ pair of pointer and length is
  a byte list here.
\<close>

section \<open>Comparison\<close>

text \<open>The byte loop of \<^verbatim>\<open>cmpKeys\<close>; \<open>None\<close> when it ends without finding a difference.\<close>

fun cmp_loop :: "nat \<Rightarrow> key \<Rightarrow> key \<Rightarrow> int option" where
  "cmp_loop (Suc n) (a # as) (b # bs) =
     (if a \<noteq> b then Some (if a < b then -1 else 1) else cmp_loop n as bs)"
| "cmp_loop _ _ _ = None"

text \<open>\<^verbatim>\<open>memcmp\<close>: zero, or an integer with the sign of the first difference.\<close>

fun memcmp :: "key \<Rightarrow> key \<Rightarrow> nat \<Rightarrow> int" where
  "memcmp (a # as) (b # bs) (Suc n) =
     (if a = b then memcmp as bs n else int (unat a) - int (unat b))"
| "memcmp _ _ _ = 0"

definition cmpKeys :: "key \<Rightarrow> key \<Rightarrow> int" where
  "cmpKeys a b =
     (let len = min (length a) (length b) in
      if len < 4
      then (case cmp_loop len a b of Some c \<Rightarrow> c | None \<Rightarrow> int (length a) - int (length b))
      else (let c = memcmp a b len in
            if c \<noteq> 0 then c else int (length a) - int (length b)))"

section \<open>Heads\<close>

type_synonym HeadType = u32

definition head :: "key \<Rightarrow> HeadType" where
  "head key =
     (if length key = 0 then 0
      else if length key = 1 then push_bit 24 (ucast (key ! 0))
      else if length key = 2 then push_bit 16 (ucast (bswap 2 (le_word (take 2 key) :: u16)))
      else if length key = 3
        then push_bit 16 (ucast (bswap 2 (le_word (take 2 key) :: u16))) OR push_bit 8 (ucast (key ! 2))
      else bswap 4 (le_word (take 4 key)))"

section \<open>\<^verbatim>\<open>cmpKeys\<close> is the lexicographic order\<close>

lemma Nil_less_iff: "[] < (xs :: key) \<longleftrightarrow> xs \<noteq> []"
  by (cases xs) simp_all

lemma cmp_loop_sgn:
  "n = min (length a) (length b) \<Longrightarrow>
   (case cmp_loop n a b of
      Some c \<Rightarrow> c \<noteq> 0 \<and> (c < 0 \<longleftrightarrow> a < b) \<and> a \<noteq> b
    | None \<Rightarrow> a < b \<longleftrightarrow> length a < length b) \<and>
   (cmp_loop n a b = None \<longrightarrow> (a = b \<longleftrightarrow> length a = length b))"
proof (induction n a b rule: cmp_loop.induct)
  case (1 n a as b bs)
  then show ?case by (auto split: option.splits)
qed (auto simp: min_def Nil_less_iff split: if_splits)

lemma memcmp_sgn:
  "n = min (length a) (length b) \<Longrightarrow>
   (memcmp a b n \<noteq> 0 \<longrightarrow> (memcmp a b n < 0 \<longleftrightarrow> a < b) \<and> a \<noteq> b) \<and>
   (memcmp a b n = 0 \<longrightarrow> (a < b \<longleftrightarrow> length a < length b) \<and> (a = b \<longleftrightarrow> length a = length b))"
proof (induction a b n rule: memcmp.induct)
  case (1 a as b bs n)
  have "int (unat a) - int (unat b) \<noteq> 0" "int (unat a) - int (unat b) < 0 \<longleftrightarrow> a < b" if "a \<noteq> b"
    using that by (simp_all add: word_uint_eq_iff word_less_def)
  with 1 show ?case by auto
qed (auto simp: min_def Nil_less_iff split: if_splits)

lemma cmpKeys_less_iff: "cmpKeys a b < 0 \<longleftrightarrow> a < b"
  and cmpKeys_eq_iff: "cmpKeys a b = 0 \<longleftrightarrow> a = b"
proof -
  have "(cmpKeys a b < 0 \<longleftrightarrow> a < b) \<and> (cmpKeys a b = 0 \<longleftrightarrow> a = b)"
    using cmp_loop_sgn [OF refl, of a b] memcmp_sgn [OF refl, of a b]
    by (auto simp: cmpKeys_def Let_def split: option.splits)
  then show "cmpKeys a b < 0 \<longleftrightarrow> a < b" "cmpKeys a b = 0 \<longleftrightarrow> a = b" by blast+
qed

lemma cmpKeys_greater_iff: "cmpKeys a b > 0 \<longleftrightarrow> b < a"
  using cmpKeys_less_iff [of a b] cmpKeys_eq_iff [of a b] by (metis linorder_neqE not_less_iff_gr_or_eq)

lemmas cmpKeys_iff = cmpKeys_less_iff cmpKeys_eq_iff cmpKeys_greater_iff

section \<open>Heads order the keys\<close>

definition pad4 :: "key \<Rightarrow> key" where
  "pad4 key = take 4 key @ replicate (4 - length key) 0"

lemma length_pad4 [simp]: "length (pad4 key) = 4"
  by (simp add: pad4_def)

lemma be_val_zeros [simp]: "be_val (replicate n 0) = 0"
  by (induction n) simp_all

lemma unat_push_bit_u32: "unat x * 2 ^ k < 2 ^ 32 \<Longrightarrow> unat (push_bit k (x :: u32)) = unat x * 2 ^ k"
  unfolding unsigned_push_bit_eq by (simp add: push_bit_eq_mult take_bit_nat_eq_self)

lemma unat_be: 
  assumes "8 * n = LENGTH('a)" "length bs = n"
  shows "unat (bswap n (le_word bs :: 'a::len word)) = be_val bs"
proof -
  have "be_val (rev (le_bytes n (bswap n (le_word bs :: 'a word)))) = be_val bs"
    using assms by (simp add: le_bytes_bswap le_bytes_le_word)
  moreover have "unat (bswap n (le_word bs :: 'a word)) mod 2 ^ (8 * n) = unat (bswap n (le_word bs :: 'a word))"
    unfolding assms(1) by (rule mod_less) (rule unsigned_less)
  ultimately show ?thesis unfolding be_val_rev_le_bytes by simp
qed

lemma unat_head: "unat (head key) = be_val (pad4 key)"
proof -
  have u8: "unat (b::u8) < 256" for b using unsigned_less [of b] by simp
  have u16: "unat (w::u16) < 65536" for w using unsigned_less [of w] by simp
  have uc8: "unat (ucast b :: u32) = unat b" for b :: u8 using u8 [of b] by (simp add: unsigned_ucast_eq take_bit_nat_eq_self)
  have uc16: "unat (ucast b :: u32) = unat b" for b :: u16 using u16 [of b] by (simp add: unsigned_ucast_eq take_bit_nat_eq_self)
  consider "key = []" | a where "key = [a]" | a b where "key = [a, b]" | a b c where "key = [a, b, c]"
    | a b c d r where "key = a # b # c # d # r"
    by (metis list.exhaust)
  then show ?thesis
  proof cases
    case 1 then show ?thesis by (simp add: head_def pad4_def)
  next
    case (2 a)
    then show ?thesis using u8 [of a] by (simp add: head_def pad4_def unat_push_bit_u32 uc8)
  next
    case (3 a b)
    have "unat (bswap 2 (le_word [a, b] :: u16)) = be_val [a, b]" by (rule unat_be) simp_all
    with 3 show ?thesis using u8 [of a] u8 [of b]
      by (simp add: head_def pad4_def unat_push_bit_u32 uc16 del: le_word.simps)
  next
    case (4 a b c)
    let ?w = "bswap 2 (le_word [a, b] :: u16)"
    have w: "unat ?w = be_val [a, b]" by (rule unat_be) simp_all
    have "push_bit 16 (ucast ?w :: u32) OR push_bit 8 (ucast c) = push_bit 16 (ucast ?w) + push_bit 8 (ucast c)"
      by (rule disjunctive_add [symmetric]) (auto simp: bit_simps dest: bit_imp_le_length)
    moreover have "unat (push_bit 16 (ucast ?w :: u32)) = be_val [a, b] * 65536"
      using w u16 [of ?w] by (subst unat_push_bit_u32) (simp_all add: uc16)
    moreover have "unat (push_bit 8 (ucast c) :: u32) = unat c * 256"
      using u8 [of c] by (subst unat_push_bit_u32) (simp_all add: uc8)
    ultimately have "unat (push_bit 16 (ucast ?w :: u32) OR push_bit 8 (ucast c)) = be_val [a, b] * 65536 + unat c * 256"
      using u8 [of a] u8 [of b] u8 [of c] by (simp add: unat_word_ariths)
    then show ?thesis using 4 by (simp add: head_def pad4_def del: le_word.simps)
  next
    case (5 a b c d r)
    have "unat (bswap 4 (le_word [a, b, c, d] :: u32)) = be_val [a, b, c, d]" by (rule unat_be) simp_all
    then show ?thesis using 5 by (simp add: head_def pad4_def del: le_word.simps)
  qed
qed

lemma head_less_iff: "head a < head b \<longleftrightarrow> pad4 a < pad4 b"
  by (simp add: word_less_nat_alt unat_head be_val_less_iff)

lemma head_eq_iff: "head a = head b \<longleftrightarrow> pad4 a = pad4 b"
  by (metis head_less_iff length_pad4 not_less_iff_gr_or_eq)

lemma take_pad_less: "take n a @ replicate (n - length a) 0 < take n b @ replicate (n - length b) (0::u8) \<Longrightarrow> a < b"
proof (induction n arbitrary: a b)
  case (Suc n)
  show ?case
  proof (cases a)
    case Nil
    with Suc.prems show ?thesis by (cases b) auto
  next
    case (Cons x a')
    show ?thesis
    proof (cases b)
      case Nil
      with Suc.prems Cons have "take n a' @ replicate (n - length a') 0 < replicate n 0"
        by auto
      moreover have "\<not> xs < replicate (length xs) (0::u8)" for xs by (induction xs) auto
      moreover have "length (take n a' @ replicate (n - length a') (0::u8)) = n" by simp
      ultimately show ?thesis by metis
    next
      case (Cons y b')
      with \<open>a = x # a'\<close> Suc show ?thesis by auto
    qed
  qed
qed simp

lemma head_lessD: "head a < head b \<Longrightarrow> a < b"
  unfolding head_less_iff pad4_def by (rule take_pad_less)

text \<open>
  With equal heads and a stored key of at most four bytes the lengths decide, whatever the
  length of the key searched for.
\<close>

lemma head_eq_short:
  assumes "head a = head b" "length b \<le> 4"
  shows "(length a < length b \<longrightarrow> a < b) \<and> (length b < length a \<longrightarrow> b < a) \<and> (length a = length b \<longrightarrow> a = b)"
proof -
  have eq: "pad4 a = pad4 b" using assms(1) by (simp add: head_eq_iff)
  have pre: "take (length x) (pad4 x) = x" if "length x \<le> 4" for x using that by (simp add: pad4_def)
  have b: "take (length b) (pad4 a) = b" using pre [OF assms(2)] eq by simp
  have ta: "take k (pad4 a) = take k a" if "k \<le> 4" "k \<le> length a" for k using that by (simp add: pad4_def min_def)
  have strict: "x < y" if "take (length x) y = x" "length x < length y" for x y :: key
  proof -
    have "y = x @ drop (length x) y" using that by (metis append_take_drop_id)
    moreover have "drop (length x) y \<noteq> []" using that by simp
    ultimately show ?thesis by (metis append_Nil2 list_less_def lexord_append_rightI neq_Nil_conv)
  qed
  have "a < b" if "length a < length b"
  proof -
    have "take (length a) b = take (length a) (pad4 b)" using that assms(2) by (simp add: pad4_def)
    also have "\<dots> = a" using pre [of a] that assms(2) eq by simp
    finally show ?thesis using strict that by blast
  qed
  moreover have "take (length b) a = b" if "length b \<le> length a"
    using b ta [OF assms(2) that] by simp
  ultimately show ?thesis using strict [of b a] by (metis less_imp_le_nat order_refl take_all)
qed

end
