(* ===== verification/BTree_Node.thy ===== *)
theory BTree_Node
  imports BTree_Key Swip
begin

text \<open>
  The node of the B-tree as it lies in a page (\<^verbatim>\<open>storage/btree/core/BTreeNode.hpp\<close>,
  \<^verbatim>\<open>BTreeNode.cpp\<close>): the header, the slot array that grows upwards, and the heap of
  keys, payloads and fences that grows downwards from the end of the page.  This theory has the
  layout, the accessors, the hints and the searches; \<^verbatim>\<open>BTree_Update\<close> has the operations
  that write, \<^verbatim>\<open>BTree_Split\<close> splitting and merging.

  The bytes of the page are a function from offsets, the slots a function from indices: both keep
  whatever stale contents lie outside the used part.  The two regions are one memory in C++; the
  invariant of \<^verbatim>\<open>BTree_Update\<close> shows that the slots in use end below
  \<^verbatim>\<open>data_offset\<close>, above which all writes to the heap go.  Fields of type
  \<^verbatim>\<open>u16\<close> are naturals below \<open>2 ^ 16\<close>; every store goes through
  \<open>to_u16\<close>, the conversion of the promoted operands.
\<close>

named_theorems node_access "definitions of the accessors"

section \<open>Layout\<close>

definition to_u16 :: "int \<Rightarrow> nat" where "to_u16 x = nat (x mod 65536)"
definition to_u15 :: "int \<Rightarrow> nat" where "to_u15 x = nat (x mod 32768)"

text \<open>
  A page has 4096 bytes and a header of 72; \<^verbatim>\<open>Slot\<close> is packed.  The header
  of the node has 149 bytes of data and the slots follow at once: \<^verbatim>\<open>BTreeNodeHeader\<close> is
  not a POD, so the compiler puts the first member of the derived class into its tail padding.
\<close>

definition EFFECTIVE_PAGE_SIZE :: nat where "EFFECTIVE_PAGE_SIZE = 4096 - 72"
definition sizeof_Slot :: nat where "sizeof_Slot = 10"
definition slot_base :: nat where "slot_base = 149"
definition sizeof_BTreeNodeHeader :: nat where "sizeof_BTreeNodeHeader = 152"
definition max_theorical_slots_capacity :: nat where
  "max_theorical_slots_capacity = (EFFECTIVE_PAGE_SIZE - sizeof_BTreeNodeHeader) div sizeof_Slot"
definition hint_count :: nat where "hint_count = 16"
definition max_pending_lsn :: nat where "max_pending_lsn = 7"
definition sizeof_SwipType :: nat where "sizeof_SwipType = 8"
definition sizeof_LID :: nat where "sizeof_LID = 8"

lemmas page_consts = EFFECTIVE_PAGE_SIZE_def sizeof_Slot_def slot_base_def sizeof_BTreeNodeHeader_def
  max_theorical_slots_capacity_def max_pending_lsn_def sizeof_SwipType_def sizeof_LID_def

record FenceKey =
  f_offset :: nat
  f_length :: nat

record Slot =
  s_offset :: nat
  s_key_len :: nat
  s_payload_len :: nat
  s_frozen :: bool
  s_head :: HeadType

record BTreeNode =
  n_upper :: u64
  n_upper_pending_lsn :: "nat \<Rightarrow> LID"
  n_lower_fence :: FenceKey
  n_upper_fence :: FenceKey
  n_count :: nat
  n_is_leaf :: bool
  n_space_used :: nat
  n_data_offset :: nat
  n_prefix_length :: nat
  n_hint :: "nat \<Rightarrow> u32"
  n_has_garbage :: bool
  n_slot :: "nat \<Rightarrow> Slot"
  n_mem :: "nat \<Rightarrow> u8"

record SeparatorInfo =
  sep_length :: nat
  sep_slot :: nat
  sep_trunc :: bool

text \<open>
  The constructor sets the fields with an initializer and leaves the rest as it was in the
  memory \<open>g\<close> the node is built in.
\<close>

definition BTreeNode_new :: "bool \<Rightarrow> BTreeNode \<Rightarrow> BTreeNode" where
  "BTreeNode_new is_leaf g =
     g\<lparr>n_upper := 0, n_lower_fence := \<lparr>f_offset = 0, f_length = 0\<rparr>,
       n_upper_fence := \<lparr>f_offset = 0, f_length = 0\<rparr>, n_count := 0, n_is_leaf := is_leaf,
       n_space_used := 0, n_data_offset := to_u16 (int EFFECTIVE_PAGE_SIZE),
       n_prefix_length := 0, n_has_garbage := False\<rparr>"

section \<open>Bytes\<close>

definition rd :: "(nat \<Rightarrow> u8) \<Rightarrow> nat \<Rightarrow> nat \<Rightarrow> u8 list" where
  "rd m off len = map m [off..<off + len]"

definition wr :: "(nat \<Rightarrow> u8) \<Rightarrow> nat \<Rightarrow> u8 list \<Rightarrow> nat \<Rightarrow> u8" where
  "wr m off bs = (\<lambda>i. if off \<le> i \<and> i < off + length bs then bs ! (i - off) else m i)"

lemma length_rd [simp]: "length (rd m off len) = len"
  by (simp add: rd_def)

lemma rd_0 [simp]: "rd m off 0 = []"
  by (simp add: rd_def)

lemma nth_rd: "i < len \<Longrightarrow> rd m off len ! i = m (off + i)"
  by (simp add: rd_def)

lemma rd_add: "rd m off (a + b) = rd m off a @ rd m (off + a) b"
proof -
  have "[off..<off + (a + b)] = [off..<off + a] @ [off + a..<off + a + b]"
    by (metis add.assoc le_add1 upt_add_eq_append)
  then show ?thesis by (simp add: rd_def)
qed

lemma take_rd: "k \<le> len \<Longrightarrow> take k (rd m off len) = rd m off k"
  by (rule nth_equalityI) (simp_all add: nth_rd)

lemma rd_wr_same: "rd (wr m off bs) off (length bs) = bs"
  by (rule nth_equalityI) (simp_all add: nth_rd wr_def)

lemma rd_wr_disjoint:
  "off' + len \<le> off \<or> off + length bs \<le> off' \<Longrightarrow> rd (wr m off bs) off' len = rd m off' len"
  by (rule nth_equalityI) (auto simp: nth_rd wr_def)

lemma wr_append: "wr (wr m off xs) (off + length xs) ys = wr m off (xs @ ys)"
  by (rule ext) (auto simp: wr_def nth_append)

section \<open>Accessors\<close>

definition isInner :: "BTreeNode \<Rightarrow> bool" where [node_access]: "isInner n \<longleftrightarrow> \<not> n_is_leaf n"

definition getLowerFenceKey :: "BTreeNode \<Rightarrow> key option" where
  "getLowerFenceKey n =
     (if f_offset (n_lower_fence n) \<noteq> 0
      then Some (rd (n_mem n) (f_offset (n_lower_fence n)) (f_length (n_lower_fence n))) else None)"

definition getUpperFenceKey :: "BTreeNode \<Rightarrow> key option" where
  "getUpperFenceKey n =
     (if f_offset (n_upper_fence n) \<noteq> 0
      then Some (rd (n_mem n) (f_offset (n_upper_fence n)) (f_length (n_upper_fence n))) else None)"

definition isUpperFenceInfinity :: "BTreeNode \<Rightarrow> bool" where
  "isUpperFenceInfinity n \<longleftrightarrow> f_offset (n_upper_fence n) = 0"
definition isLowerFenceInfinity :: "BTreeNode \<Rightarrow> bool" where
  "isLowerFenceInfinity n \<longleftrightarrow> f_offset (n_lower_fence n) = 0"

text \<open>The offset of \<^verbatim>\<open>slot + k\<close>.\<close>

definition slot_end :: "nat \<Rightarrow> nat" where "slot_end k = slot_base + sizeof_Slot * k"

definition freeSpace :: "BTreeNode \<Rightarrow> nat" where
  "freeSpace n = to_u16 (int (n_data_offset n) - int (slot_end (n_count n)))"

definition freeSpaceAfterCompaction :: "BTreeNode \<Rightarrow> nat" where
  "freeSpaceAfterCompaction n =
     to_u16 (int EFFECTIVE_PAGE_SIZE - int (slot_end (n_count n)) - int (n_space_used n))"

definition hasEnoughSpaceFor :: "BTreeNode \<Rightarrow> nat \<Rightarrow> bool" where
  "hasEnoughSpaceFor n space_needed \<longleftrightarrow>
     space_needed \<le> freeSpace n \<or> space_needed \<le> freeSpaceAfterCompaction n"

definition zeroFreeSpace :: "BTreeNode \<Rightarrow> BTreeNode" where
  "zeroFreeSpace n =
     (let free_space_offset = to_u16 (int (slot_end (n_count n))) in
      if n_data_offset n \<le> free_space_offset \<or> n_data_offset n > EFFECTIVE_PAGE_SIZE then n
      else n\<lparr>n_mem := wr (n_mem n) free_space_offset (replicate (freeSpace n) 0)\<rparr>)"

definition getKey :: "BTreeNode \<Rightarrow> nat \<Rightarrow> key" where
  "getKey n i = rd (n_mem n) (s_offset (n_slot n i)) (s_key_len (n_slot n i))"

definition getKeyLen :: "BTreeNode \<Rightarrow> nat \<Rightarrow> nat" where "getKeyLen n i = s_key_len (n_slot n i)"
definition getFullKeyLen :: "BTreeNode \<Rightarrow> nat \<Rightarrow> nat" where
  "getFullKeyLen n i = to_u16 (int (n_prefix_length n) + int (getKeyLen n i))"
definition getPayloadLength :: "BTreeNode \<Rightarrow> nat \<Rightarrow> nat" where
  "getPayloadLength n i = s_payload_len (n_slot n i)"

text \<open>The position of the payload in the page and its bytes.\<close>

definition payload_at :: "BTreeNode \<Rightarrow> nat \<Rightarrow> nat" where
  "payload_at n i = s_offset (n_slot n i) + s_key_len (n_slot n i)"
definition getPayload :: "BTreeNode \<Rightarrow> nat \<Rightarrow> u8 list" where
  "getPayload n i = rd (n_mem n) (payload_at n i) (s_payload_len (n_slot n i))"

definition getChild :: "BTreeNode \<Rightarrow> nat \<Rightarrow> u64" where
  "getChild n i = le_word (rd (n_mem n) (payload_at n i) sizeof_SwipType)"

definition getKVConsumedSpace :: "BTreeNode \<Rightarrow> nat \<Rightarrow> nat" where
  "getKVConsumedSpace n i = to_u16 (int sizeof_Slot + int (getKeyLen n i) + int (getPayloadLength n i))"

definition isFrozen :: "BTreeNode \<Rightarrow> nat \<Rightarrow> bool" where "isFrozen n i = s_frozen (n_slot n i)"
definition freeze :: "nat \<Rightarrow> BTreeNode \<Rightarrow> BTreeNode" where
  "freeze i n = n\<lparr>n_slot := (n_slot n)(i := (n_slot n i)\<lparr>s_frozen := True\<rparr>)\<rparr>"

text \<open>The loop of \<^verbatim>\<open>allFrozen\<close> from index \<open>i\<close> on, with \<open>k\<close> slots left.\<close>

fun all_frozen_from :: "BTreeNode \<Rightarrow> nat \<Rightarrow> nat \<Rightarrow> bool" where
  "all_frozen_from n i 0 = True"
| "all_frozen_from n i (Suc k) = (if \<not> isFrozen n i then False else all_frozen_from n (i + 1) k)"

definition allFrozen :: "BTreeNode \<Rightarrow> bool option" where
  "allFrozen n = do {
     ensure (n_count n \<le> max_theorical_slots_capacity);
     Some (if \<not> n_is_leaf n \<or> n_count n = 0 \<or> n_count n > max_theorical_slots_capacity then False
           else all_frozen_from n 0 (n_count n)) }"

definition swipPayloadLength :: "u64 \<Rightarrow> nat" where
  "swipPayloadLength swip =
     to_u16 (int sizeof_SwipType + int (unat (pendingLSNCount swip)) * int sizeof_LID)"

definition getPrefix :: "BTreeNode \<Rightarrow> key" where
  "getPrefix n = rd (n_mem n) (f_offset (n_lower_fence n)) (n_prefix_length n)"

definition copyFullKey :: "BTreeNode \<Rightarrow> nat \<Rightarrow> key" where
  "copyFullKey n i = getPrefix n @ getKey n i"

section \<open>Hints\<close>

text \<open>A counting loop that stops at the first index with the property, or at the bound.\<close>

function scan :: "(nat \<Rightarrow> bool) \<Rightarrow> nat \<Rightarrow> nat \<Rightarrow> nat" where
  "scan P pos bound = (if pos < bound then (if P pos then pos else scan P (pos + 1) bound) else pos)"
  by auto
termination by (relation "measure (\<lambda>(P, pos, bound). bound - pos)") auto

declare scan.simps [simp del]

definition hint_dist :: "BTreeNode \<Rightarrow> nat" where "hint_dist n = n_count n div (hint_count + 1)"

definition set_hints :: "nat \<Rightarrow> BTreeNode \<Rightarrow> BTreeNode" where
  "set_hints begin n =
     n\<lparr>n_hint := (\<lambda>i. if begin \<le> i \<and> i < hint_count then s_head (n_slot n (hint_dist n * (i + 1)))
                      else n_hint n i)\<rparr>"

definition makeHint :: "BTreeNode \<Rightarrow> BTreeNode" where "makeHint n = set_hints 0 n"

definition updateHint :: "nat \<Rightarrow> BTreeNode \<Rightarrow> BTreeNode" where
  "updateHint slotId n =
     (let dist = hint_dist n;
          begin = (if n_count n > hint_count * 2 + 1 \<and> (n_count n - 1) div (hint_count + 1) = dist \<and>
                      slotId div dist > 1
                   then slotId div dist - 1 else 0)
      in set_hints begin n)"

text \<open>
  \<^verbatim>\<open>searchHint\<close> narrows the interval to search.  Without AVX-512 the second variant
  executes \<^verbatim>\<open>throw\<close> with no exception to rethrow, which terminates the process.  The
  vector comparison sets a bit of the mask for each hint that is at least the head, and
  \<^verbatim>\<open>__builtin_ctz\<close> gives the lowest one.
\<close>

definition searchHint :: "flags \<Rightarrow> BTreeNode \<Rightarrow> HeadType \<Rightarrow> nat \<Rightarrow> nat \<Rightarrow> (nat \<times> nat) option" where
  "searchHint f n key_head lower_out upper_out =
     (if n_count n > hint_count * 2 then
        if FLAGS_btree_hints f = 2 then
          if AVX512F f then
            let dist = hint_dist n;
                compareMask = filter (\<lambda>i. n_hint n i \<ge> key_head) [0..<hint_count] in
            if compareMask = [] then Some (lower_out, upper_out)
            else
              let pos = hd compareMask;
                  pos2 = scan (\<lambda>i. n_hint n i \<noteq> key_head) pos hint_count in
              Some (pos * dist, if pos2 < hint_count then (pos2 + 1) * dist else upper_out)
          else None
        else if FLAGS_btree_hints f = 1 then
          let dist = hint_dist n;
              pos = scan (\<lambda>i. n_hint n i \<ge> key_head) 0 hint_count;
              pos2 = scan (\<lambda>i. n_hint n i \<noteq> key_head) pos hint_count in
          Some (pos * dist, if pos2 < hint_count then (pos2 + 1) * dist else upper_out)
        else Some (lower_out, upper_out)
      else Some (lower_out, upper_out))"

section \<open>Search\<close>

text \<open>The comparison in the loop of \<^verbatim>\<open>lowerBound\<close>, by its sign.\<close>

definition lb_cmp :: "flags \<Rightarrow> BTreeNode \<Rightarrow> key \<Rightarrow> HeadType \<Rightarrow> nat \<Rightarrow> int" where
  "lb_cmp f n key keyHead mid =
     (if FLAGS_btree_heads f then
        if keyHead < s_head (n_slot n mid) then -1
        else if keyHead > s_head (n_slot n mid) then 1
        else if s_key_len (n_slot n mid) \<le> 4 then
          (if length key < s_key_len (n_slot n mid) then -1
           else if length key > s_key_len (n_slot n mid) then 1 else 0)
        else cmpKeys key (getKey n mid)
      else cmpKeys key (getKey n mid))"

function lb_loop :: "flags \<Rightarrow> BTreeNode \<Rightarrow> key \<Rightarrow> HeadType \<Rightarrow> nat \<Rightarrow> nat \<Rightarrow> nat \<times> bool" where
  "lb_loop f n key keyHead lower upper =
     (if lower < upper then
        let mid = (upper - lower) div 2 + lower;
            cmp = lb_cmp f n key keyHead mid in
        if cmp < 0 then lb_loop f n key keyHead lower mid
        else if cmp > 0 then lb_loop f n key keyHead (mid + 1) upper
        else (mid, True)
      else (lower, False))"
  by auto
termination by (relation "measure (\<lambda>(f, n, key, h, lower, upper). upper - lower)") auto

declare lb_loop.simps [simp del]

text \<open>
  \<open>is_equal\<close> is \<open>None\<close> for a null pointer and otherwise what it points to.
\<close>

definition lowerBound ::
  "flags \<Rightarrow> bool \<Rightarrow> BTreeNode \<Rightarrow> key \<Rightarrow> bool option \<Rightarrow> (int \<times> bool option) option" where
  "lowerBound f equalityOnly n key is_equal =
     (let put = (\<lambda>b. if is_equal \<noteq> None \<and> n_is_leaf n then Some b else is_equal);
          pl = n_prefix_length n;
          early = (if equalityOnly then
                     (if length key < pl \<or> take pl key \<noteq> getPrefix n then Some (-1) else None)
                   else
                     let prefixCmp = cmpKeys (take (min (length key) pl) key) (getPrefix n) in
                     if prefixCmp < 0 then Some 0
                     else if prefixCmp > 0 then Some (int (n_count n)) else None)
      in case early of
           Some r \<Rightarrow> Some (r, put False)
         | None \<Rightarrow> do {
             let key = drop pl key;
             let keyHead = head key;
             (lower, upper) \<leftarrow> searchHint f n keyHead 0 (n_count n);
             (case lb_loop f n key keyHead lower upper of
                (mid, True) \<Rightarrow> Some (int mid, put True)
              | (lower, False) \<Rightarrow> Some (if equalityOnly then -1 else int lower, put False)) })"

definition compareKeyWithBoundaries :: "BTreeNode \<Rightarrow> key \<Rightarrow> int" where
  "compareKeyWithBoundaries n key =
     (case getLowerFenceKey n of
        Some lf \<Rightarrow>
          if \<not> cmpKeys key lf > 0 then 1
          else (case getUpperFenceKey n of Some uf \<Rightarrow> if \<not> cmpKeys key uf \<le> 0 then -1 else 0 | None \<Rightarrow> 0)
      | None \<Rightarrow>
          (case getUpperFenceKey n of Some uf \<Rightarrow> if \<not> cmpKeys key uf \<le> 0 then -1 else 0 | None \<Rightarrow> 0))"

text \<open>The reference \<^verbatim>\<open>lookupInner\<close> returns: to the swip in the header or to the one in a slot.\<close>

datatype child_ref = Upper_ref | Slot_ref nat

definition lookupInner :: "flags \<Rightarrow> BTreeNode \<Rightarrow> key \<Rightarrow> child_ref option" where
  "lookupInner f n key = do {
     (pos, _) \<leftarrow> lowerBound f False n key None;
     Some (if pos = int (n_count n) then Upper_ref else Slot_ref (nat pos)) }"

definition child_swip :: "BTreeNode \<Rightarrow> child_ref \<Rightarrow> u64" where
  "child_swip n r = (case r of Upper_ref \<Rightarrow> n_upper n | Slot_ref i \<Rightarrow> getChild n i)"

section \<open>What the searches rely on\<close>

definition hints_ok :: "BTreeNode \<Rightarrow> bool" where
  "hints_ok n \<longleftrightarrow>
     (n_count n > hint_count * 2 \<longrightarrow>
      (\<forall>i<hint_count. n_hint n i = s_head (n_slot n (hint_dist n * (i + 1)))))"

definition search_ok :: "BTreeNode \<Rightarrow> bool" where
  "search_ok n \<longleftrightarrow>
     (\<forall>j<n_count n. \<forall>i<j. getKey n i < getKey n j) \<and>
     (\<forall>i<n_count n. s_head (n_slot n i) = head (getKey n i)) \<and> hints_ok n"

definition full_keys :: "BTreeNode \<Rightarrow> key list" where
  "full_keys n = map (copyFullKey n) [0..<n_count n]"

text \<open>The number of keys of the node below a key.\<close>

definition rank :: "BTreeNode \<Rightarrow> key \<Rightarrow> nat" where
  "rank n key = length (filter (\<lambda>k. k < key) (full_keys n))"

section \<open>Lemmas\<close>

lemma to_u16_id [simp]: "0 \<le> x \<Longrightarrow> x < 65536 \<Longrightarrow> to_u16 x = nat x"
  by (simp add: to_u16_def)

lemma to_u15_id [simp]: "0 \<le> x \<Longrightarrow> x < 32768 \<Longrightarrow> to_u15 x = nat x"
  by (simp add: to_u15_def)

lemma to_u16_less: "to_u16 x < 65536"
  by (simp add: to_u16_def nat_less_iff)

lemma scan_spec:
  "pos \<le> bound \<Longrightarrow> pos \<le> scan P pos bound \<and> scan P pos bound \<le> bound \<and>
     (\<forall>i. pos \<le> i \<and> i < scan P pos bound \<longrightarrow> \<not> P i) \<and> (scan P pos bound < bound \<longrightarrow> P (scan P pos bound))"
proof (induction P pos bound rule: scan.induct)
  case (1 P pos bound)
  show ?case
  proof (cases "pos < bound \<and> \<not> P pos")
    case True
    with 1 have IH: "pos + 1 \<le> scan P (pos + 1) bound \<and> scan P (pos + 1) bound \<le> bound \<and>
       (\<forall>i. pos + 1 \<le> i \<and> i < scan P (pos + 1) bound \<longrightarrow> \<not> P i) \<and>
       (scan P (pos + 1) bound < bound \<longrightarrow> P (scan P (pos + 1) bound))" by simp
    have "scan P pos bound = scan P (pos + 1) bound" using True by (subst scan.simps) simp
    moreover have "\<not> P i" if "pos \<le> i" "i < scan P (pos + 1) bound" for i
      using that IH True by (cases "i = pos") auto
    ultimately show ?thesis using IH by auto
  next
    case False
    then have "scan P pos bound = pos" by (subst scan.simps) auto
    with False 1 show ?thesis by auto
  qed
qed

lemma length_getKey [simp]: "length (getKey n i) = s_key_len (n_slot n i)"
  by (simp add: getKey_def)

lemma length_getPrefix [simp]: "length (getPrefix n) = n_prefix_length n"
  by (simp add: getPrefix_def)

lemma length_full_keys [simp]: "length (full_keys n) = n_count n"
  by (simp add: full_keys_def)

lemma key_append_less: "(p @ a < p @ b) = (a < (b :: key))"
  by (induction p) simp_all

lemma lb_cmp_iff:
  assumes "search_ok n" "mid < n_count n"
  shows "lb_cmp f n key (head key) mid < 0 \<longleftrightarrow> key < getKey n mid"
    and "lb_cmp f n key (head key) mid = 0 \<longleftrightarrow> key = getKey n mid"
    and "lb_cmp f n key (head key) mid > 0 \<longleftrightarrow> getKey n mid < key"
proof -
  let ?k = "getKey n mid"
  have h: "s_head (n_slot n mid) = head ?k" using assms by (simp add: search_ok_def)
  have "(lb_cmp f n key (head key) mid < 0 \<longleftrightarrow> key < ?k) \<and>
    (lb_cmp f n key (head key) mid = 0 \<longleftrightarrow> key = ?k) \<and> (lb_cmp f n key (head key) mid > 0 \<longleftrightarrow> ?k < key)"
  proof (cases "FLAGS_btree_heads f")
    case True
    consider "head key < head ?k" | "head ?k < head key" | "head key = head ?k" by fastforce
    then show ?thesis
    proof cases
      case 1 with True h head_lessD [OF 1] show ?thesis by (auto simp: lb_cmp_def)
    next
      case 2 with True h head_lessD [OF 2] show ?thesis by (auto simp: lb_cmp_def)
    next
      case 3
      then show ?thesis using True h head_eq_short [OF 3]
        by (cases "s_key_len (n_slot n mid) \<le> 4") (auto simp: lb_cmp_def cmpKeys_iff dest: less_asym)
    qed
  qed (simp add: lb_cmp_def cmpKeys_iff)
  then show "lb_cmp f n key (head key) mid < 0 \<longleftrightarrow> key < ?k" "lb_cmp f n key (head key) mid = 0 \<longleftrightarrow> key = ?k"
    "lb_cmp f n key (head key) mid > 0 \<longleftrightarrow> ?k < key" by blast+
qed

text \<open>An interval outside which the keys are known to be below or above the key.\<close>

definition brackets :: "BTreeNode \<Rightarrow> key \<Rightarrow> nat \<Rightarrow> nat \<Rightarrow> bool" where
  "brackets n key lower upper \<longleftrightarrow>
     lower \<le> upper \<and> upper \<le> n_count n \<and> (\<forall>i<lower. getKey n i < key) \<and>
     (\<forall>i<n_count n. upper \<le> i \<longrightarrow> key < getKey n i)"

lemma lb_loop_spec:
  "search_ok n \<Longrightarrow> brackets n key lower upper \<Longrightarrow> lb_loop f n key (head key) lower upper = (p, found) \<Longrightarrow>
    p \<le> n_count n \<and> (\<forall>i<p. getKey n i < key) \<and> (\<forall>i<n_count n. p \<le> i \<longrightarrow> key \<le> getKey n i) \<and>
    (found \<longleftrightarrow> (\<exists>i<n_count n. getKey n i = key))"
proof (induction f n key "head key" lower upper rule: lb_loop.induct)
  case (1 f n key lower upper)
  have sorted: "getKey n i < getKey n j" if "i < j" "j < n_count n" for i j
    using 1(3) that by (simp add: search_ok_def)
  note br = 1(4) [unfolded brackets_def] and IH = 1(1,2) and run = 1(5)
  show ?case
  proof (cases "lower < upper")
    case False
    then have "p = lower" "\<not> found" "lower = upper" using br run by (auto simp: lb_loop.simps)
    moreover have "\<not> (\<exists>i<n_count n. getKey n i = key)"
      using br \<open>lower = upper\<close> by (metis less_irrefl not_less)
    ultimately show ?thesis using br by (auto intro: less_imp_le)
  next
    case True
    define mid where "mid = (upper - lower) div 2 + lower"
    have mid: "lower \<le> mid" "mid < upper" "mid < n_count n" using True br by (auto simp: mid_def)
    note cmp = lb_cmp_iff [OF 1(3) mid(3), of f key]
    consider "key < getKey n mid" | "getKey n mid < key" | "key = getKey n mid" by fastforce
    then show ?thesis
    proof cases
      case c: 1
      have "key < getKey n i" if "i < n_count n" "mid \<le> i" for i
        using c sorted [of mid i] that by (cases "mid = i") auto
      then have "brackets n key lower mid" using br mid unfolding brackets_def by auto
      moreover have "lb_loop f n key (head key) lower upper = lb_loop f n key (head key) lower mid"
        using True c cmp by (subst lb_loop.simps) (simp add: mid_def Let_def)
      ultimately show ?thesis using IH(1) [OF True mid_def refl _ 1(3)] cmp c run by simp
    next
      case c: 2
      have "getKey n i < key" if "i < mid + 1" for i
        using c sorted [of i mid] that mid by (cases "mid = i") auto
      then have "brackets n key (mid + 1) upper" using br mid unfolding brackets_def by auto
      moreover have "lb_loop f n key (head key) lower upper = lb_loop f n key (head key) (mid + 1) upper"
        using True c cmp by (subst lb_loop.simps) (simp add: mid_def Let_def)
      ultimately show ?thesis using IH(2) [OF True mid_def refl _ _ 1(3)] cmp c run by (simp add: not_less_iff_gr_or_eq)
    next
      case c: 3
      then have "lb_loop f n key (head key) lower upper = (mid, True)"
        using True cmp by (subst lb_loop.simps) (simp add: mid_def Let_def)
      then have "p = mid" "found" using run by auto
      moreover have "key \<le> getKey n i" if "i < n_count n" "mid \<le> i" for i
        using c sorted [of mid i] that by (cases "mid = i") auto
      ultimately show ?thesis using c mid sorted by auto
    qed
  qed
qed

lemma getKey_less_iff:
  assumes "search_ok n" "i < n_count n" "j < n_count n"
  shows "getKey n i < getKey n j \<longleftrightarrow> i < j"
  using assms unfolding search_ok_def by (metis less_asym linorder_neqE_nat order_less_irrefl)

text \<open>What an interval of hint positions says of the keys, for both variants of the search.\<close>

lemma hint_interval:
  assumes ok: "search_ok n" and many: "n_count n > hint_count * 2"
    and pos: "pos \<le> hint_count" "\<And>i. i < pos \<Longrightarrow> n_hint n i < head key"
      "pos < hint_count \<Longrightarrow> head key \<le> n_hint n pos"
    and pos2: "pos2 = scan (\<lambda>i. n_hint n i \<noteq> head key) pos hint_count"
  shows "brackets n key (pos * hint_dist n) (if pos2 < hint_count then (pos2 + 1) * hint_dist n else n_count n)"
proof -
  let ?d = "hint_dist n"
  have bound: "(i + 1) * ?d < n_count n" if "i < hint_count" for i
  proof -
    have "(i + 1) * ?d \<le> hint_count * ?d" using that by (intro mult_le_mono1) simp
    moreover have "(hint_count + 1) * ?d \<le> n_count n" unfolding hint_dist_def by (rule times_div_less_eq_dividend)
    moreover have "0 < ?d" using many by (simp add: hint_dist_def hint_count_def)
    ultimately show ?thesis by (simp add: add_mult_distrib)
  qed
  have hint: "n_hint n i = head (getKey n ((i + 1) * ?d))" if "i < hint_count" for i
    using ok many bound [OF that] that by (simp add: search_ok_def hints_ok_def mult.commute)
  have p2: "pos \<le> pos2" "pos2 \<le> hint_count" "\<And>i. pos \<le> i \<Longrightarrow> i < pos2 \<Longrightarrow> n_hint n i = head key"
    "pos2 < hint_count \<Longrightarrow> n_hint n pos2 \<noteq> head key"
    using scan_spec [OF pos(1), of "\<lambda>i. n_hint n i \<noteq> head key"] unfolding pos2 by auto
  have low: "getKey n i < key" if "i < pos * ?d" for i
  proof (cases pos)
    case 0 with that show ?thesis by simp
  next
    case (Suc q)
    then have q: "q < hint_count" "n_hint n q < head key" using pos by auto
    then have "getKey n (pos * ?d) < key" using hint [of q] Suc by (auto intro: head_lessD)
    moreover have "getKey n i < getKey n (pos * ?d)"
      using getKey_less_iff [OF ok] that bound [of q] q Suc by auto
    ultimately show ?thesis by simp
  qed
  have high: "key < getKey n i" if "pos2 < hint_count" "(pos2 + 1) * ?d \<le> i" "i < n_count n" for i
  proof -
    have "head key \<le> n_hint n pos2"
    proof (cases "pos2 = pos")
      case False
      then have h: "n_hint n (pos2 - 1) = head key" using p2(1) p2(3) [of "pos2 - 1"] by auto
      have "\<not> head (getKey n ((pos2 + 1) * ?d)) < head (getKey n ((pos2 - 1 + 1) * ?d))"
      proof
        assume "head (getKey n ((pos2 + 1) * ?d)) < head (getKey n ((pos2 - 1 + 1) * ?d))"
        then have "getKey n ((pos2 + 1) * ?d) < getKey n ((pos2 - 1 + 1) * ?d)" by (rule head_lessD)
        then show False using getKey_less_iff [OF ok] bound [of pos2] bound [of "pos2 - 1"] that False p2(1) by auto
      qed
      then show ?thesis using h hint [of pos2] hint [of "pos2 - 1"] that(1) by simp
    qed (use that pos in simp)
    with p2(4) that(1) have "head key < head (getKey n ((pos2 + 1) * ?d))" using hint [of pos2] by simp
    then have "key < getKey n ((pos2 + 1) * ?d)" by (rule head_lessD)
    moreover have "getKey n ((pos2 + 1) * ?d) \<le> getKey n i"
      using getKey_less_iff [OF ok that(3) bound [OF that(1)]] that(2) by (simp add: not_less [symmetric])
    ultimately show ?thesis by simp
  qed
  have "pos * ?d \<le> (if pos2 < hint_count then (pos2 + 1) * ?d else n_count n)"
  proof (cases "pos2 < hint_count")
    case False
    have "pos * ?d \<le> (hint_count - 1 + 1) * ?d" using pos(1) by (intro mult_le_mono1) (simp add: hint_count_def)
    also have "\<dots> < n_count n" by (rule bound) (simp add: hint_count_def)
    finally show ?thesis using False by simp
  qed (use p2(1) in \<open>simp add: mult_le_mono1 trans_le_add2\<close>)
  then show ?thesis unfolding brackets_def using low high bound by (auto intro: less_imp_le)
qed

text \<open>Which builds and flag values the search supports.\<close>

definition hints_supported :: "flags \<Rightarrow> bool" where
  "hints_supported f \<longleftrightarrow> (FLAGS_btree_hints f = 2 \<longrightarrow> AVX512F f)"

lemma searchHint_brackets:
  assumes "search_ok n" "hints_supported f"
  obtains lower upper where "searchHint f n (head key) 0 (n_count n) = Some (lower, upper)"
    and "brackets n key lower upper"
proof -
  have all: "brackets n key 0 (n_count n)" by (simp add: brackets_def)
  let ?P = "\<lambda>i. n_hint n i \<ge> head key" and ?dist = "hint_dist n"
  let ?pos2 = "\<lambda>pos. scan (\<lambda>i. n_hint n i \<noteq> head key) pos hint_count"
  let ?r = "\<lambda>pos. (pos * ?dist, if ?pos2 pos < hint_count then (?pos2 pos + 1) * ?dist else n_count n)"
  consider (off) "searchHint f n (head key) 0 (n_count n) = Some (0, n_count n)"
    | (serial) "n_count n > hint_count * 2" "searchHint f n (head key) 0 (n_count n) = Some (?r (scan ?P 0 hint_count))"
    | (vector) "n_count n > hint_count * 2" "filter ?P [0..<hint_count] \<noteq> []"
        "searchHint f n (head key) 0 (n_count n) = Some (?r (hd (filter ?P [0..<hint_count])))"
    using assms(2) unfolding searchHint_def hints_supported_def Let_def
    by (cases "hint_count * 2 < n_count n"; cases "FLAGS_btree_hints f = 2"; cases "FLAGS_btree_hints f = 1";
        cases "filter ?P [0..<hint_count] = []") simp_all
  then show ?thesis
  proof cases
    case off with all that show ?thesis by blast
  next
    case serial
    have "brackets n key (fst (?r (scan ?P 0 hint_count))) (snd (?r (scan ?P 0 hint_count)))"
      using scan_spec [of 0 hint_count ?P] unfolding fst_conv snd_conv
      by (intro hint_interval [OF assms(1) serial(1) _ _ _ refl]) (auto simp: not_le)
    with serial that show ?thesis by force
  next
    case vector
    let ?p = "hd (filter ?P [0..<hint_count])"
    have mem: "?p \<in> set (filter ?P [0..<hint_count])" using vector(2) by (rule hd_in_set)
    then have p: "?p < hint_count" "head key \<le> n_hint n ?p" by auto
    have least: "?p \<le> i" if "i \<in> set (filter ?P [0..<hint_count])" for i
      using that vector(2) sorted_wrt_filter [OF sorted_upt, of ?P 0 hint_count]
      by (cases "filter ?P [0..<hint_count]") auto
    have "n_hint n i < head key" if "i < ?p" for i
      using least [of i] that p(1) by (auto simp: not_le [symmetric])
    then have "brackets n key (fst (?r ?p)) (snd (?r ?p))" unfolding fst_conv snd_conv
      using p by (intro hint_interval [OF assms(1) vector(1) _ _ _ refl]) auto
    with vector that show ?thesis by force
  qed
qed

lemma rank_eqI:
  assumes "p \<le> n_count n" "\<And>i. i < p \<Longrightarrow> copyFullKey n i < key"
    and "\<And>i. p \<le> i \<Longrightarrow> i < n_count n \<Longrightarrow> key \<le> copyFullKey n i"
  shows "rank n key = p"
proof -
  have "full_keys n = map (copyFullKey n) [0..<p] @ map (copyFullKey n) [p..<n_count n]"
    unfolding full_keys_def map_append [symmetric] using upt_add_eq_append [of 0 p "n_count n - p"] assms(1) by simp
  moreover have "filter (\<lambda>k. k < key) (map (copyFullKey n) [0..<p]) = map (copyFullKey n) [0..<p]"
    using assms(2) by (subst filter_True) auto
  moreover have "filter (\<lambda>k. k < key) (map (copyFullKey n) [p..<n_count n]) = []"
    using assms(3) by (subst filter_False) (auto simp: not_less)
  ultimately show ?thesis by (simp add: rank_def)
qed

lemma in_full_keys: "key \<in> set (full_keys n) \<longleftrightarrow> (\<exists>i<n_count n. copyFullKey n i = key)"
  by (auto simp: full_keys_def)

lemma prefix_cmp:
  fixes key p k :: key
  assumes "length p = pl"
  shows "take (min (length key) pl) key < p \<Longrightarrow> key < p @ k"
    and "p < take (min (length key) pl) key \<Longrightarrow> p @ k < key"
    and "take (min (length key) pl) key = p \<Longrightarrow> key = p @ drop pl key"
proof -
  show "take (min (length key) pl) key < p \<Longrightarrow> key < p @ k"
    using assms
  proof (induction p arbitrary: key pl)
    case (Cons x p)
    then show ?case by (cases key; cases pl) auto
  qed simp
  show "p < take (min (length key) pl) key \<Longrightarrow> p @ k < key"
    using assms
  proof (induction p arbitrary: key pl)
    case (Cons x p)
    then show ?case by (cases key; cases pl) auto
  qed simp
  show "take (min (length key) pl) key = p \<Longrightarrow> key = p @ drop pl key"
  proof -
    assume e: "take (min (length key) pl) key = p"
    then have "pl \<le> length key" using assms by auto
    then have "take pl key = p" using e by (simp add: min_absorb2)
    then show ?thesis by (metis append_take_drop_id)
  qed
qed

text \<open>The common part of the two instances of \<^verbatim>\<open>lowerBound\<close>, for a key with the prefix.\<close>

lemma search_with_prefix:
  assumes "search_ok n" "hints_supported f"
  obtains lower upper p found where
    "searchHint f n (head key) 0 (n_count n) = Some (lower, upper)"
    "lb_loop f n key (head key) lower upper = (p, found)"
    "rank n (getPrefix n @ key) = p" "found \<longleftrightarrow> getPrefix n @ key \<in> set (full_keys n)"
proof -
  obtain lower upper where h: "searchHint f n (head key) 0 (n_count n) = Some (lower, upper)"
    and br: "brackets n key lower upper" using searchHint_brackets [OF assms] .
  obtain p found where loop: "lb_loop f n key (head key) lower upper = (p, found)" by fastforce
  note spec = lb_loop_spec [OF assms(1) br loop]
  have "rank n (getPrefix n @ key) = p" using spec
    by (intro rank_eqI) (auto simp: copyFullKey_def key_append_less not_less [symmetric])
  moreover have "found \<longleftrightarrow> getPrefix n @ key \<in> set (full_keys n)"
    using spec by (auto simp: in_full_keys copyFullKey_def)
  ultimately show ?thesis using h loop that by blast
qed

lemma lowerBound_rank:
  assumes "search_ok n" "hints_supported f"
  shows "lowerBound f eq n key is_equal =
    Some (if eq \<and> key \<notin> set (full_keys n) then -1 else int (rank n key),
          if is_equal \<noteq> None \<and> n_is_leaf n then Some (key \<in> set (full_keys n)) else is_equal)"
proof -
  let ?pl = "n_prefix_length n" and ?t = "take (min (length key) (n_prefix_length n)) key"
  note pc = prefix_cmp [OF length_getPrefix [of n], of key]
  consider (below) "?t < getPrefix n" | (above) "getPrefix n < ?t" | (same) "?t = getPrefix n" by fastforce
  then show ?thesis
  proof cases
    case below
    then have lt: "key < copyFullKey n i" for i unfolding copyFullKey_def by (rule pc(1))
    then have "rank n key = 0" by (intro rank_eqI) (simp_all add: less_imp_le)
    moreover have "key \<notin> set (full_keys n)" using lt by (metis in_full_keys order_less_irrefl)
    moreover have "length key < ?pl \<or> take ?pl key \<noteq> getPrefix n" using below by (auto simp: min_def split: if_splits)
    ultimately show ?thesis using below by (simp add: lowerBound_def Let_def cmpKeys_iff)
  next
    case above
    then have gt: "copyFullKey n i < key" for i unfolding copyFullKey_def by (rule pc(2))
    then have "rank n key = n_count n" by (intro rank_eqI) simp_all
    moreover have "key \<notin> set (full_keys n)" using gt by (metis in_full_keys order_less_irrefl)
    moreover have "length key < ?pl \<or> take ?pl key \<noteq> getPrefix n" using above by (auto simp: min_def split: if_splits)
    ultimately show ?thesis using above order_less_not_sym [OF above]
      by (simp add: lowerBound_def Let_def cmpKeys_iff)
  next
    case same
    then have key: "key = getPrefix n @ drop ?pl key" by (rule pc(3))
    obtain lower upper p found where s: "searchHint f n (head (drop ?pl key)) 0 (n_count n) = Some (lower, upper)"
      "lb_loop f n (drop ?pl key) (head (drop ?pl key)) lower upper = (p, found)"
      "rank n key = p" "found \<longleftrightarrow> key \<in> set (full_keys n)"
      using search_with_prefix [OF assms(1,2), of "drop ?pl key"] key by metis
    have "length key \<ge> ?pl" using same by (metis length_getPrefix length_take min.cobounded1 min.assoc min.idem)
    then have "take ?pl key = getPrefix n" using same by (simp add: min_absorb2)
    with s \<open>length key \<ge> ?pl\<close> show ?thesis
      by (cases found) (simp_all add: lowerBound_def Let_def cmpKeys_iff min_absorb2)
  qed
qed

end
