(* ===== verification/BTree_Update.thy ===== *)
theory BTree_Update
  imports BTree_Node
begin

text \<open>
  The operations of \<^verbatim>\<open>BTreeNode\<close> that write one node: fences, inserting, removing,
  changing the length of a payload, and compaction, with the layout invariant they keep.
  Memory that C++ leaves uninitialized (the temporary node of a compaction) is an argument
  \<open>g\<close> of the operation, so nothing below depends on what it holds.
\<close>

section \<open>Fences and the prefix\<close>

definition insertFence :: "FenceKey \<Rightarrow> key option \<Rightarrow> BTreeNode \<Rightarrow> FenceKey \<times> BTreeNode" where
  "insertFence fk key n =
     (case key of
        None \<Rightarrow> (fk, n)
      | Some k \<Rightarrow>
          let off = to_u16 (int (n_data_offset n) - int (length k)) in
          (\<lparr>f_offset = off, f_length = length k\<rparr>,
           n\<lparr>n_data_offset := off, n_space_used := to_u16 (int (n_space_used n) + int (length k)),
             n_mem := wr (n_mem n) off k\<rparr>))"

definition fence_bytes :: "key option \<Rightarrow> key" where
  "fence_bytes k = (case k of None \<Rightarrow> [] | Some bs \<Rightarrow> bs)"

definition common_length :: "key \<Rightarrow> key \<Rightarrow> nat" where
  "common_length a b = scan (\<lambda>i. a ! i \<noteq> b ! i) 0 (min (length a) (length b))"

definition setFences :: "flags \<Rightarrow> key option \<Rightarrow> key option \<Rightarrow> BTreeNode \<Rightarrow> BTreeNode" where
  "setFences f lowerKey upperKey n =
     (let (lf, n) = insertFence (n_lower_fence n) lowerKey n;
          n = n\<lparr>n_lower_fence := lf\<rparr>;
          (uf, n) = insertFence (n_upper_fence n) upperKey n;
          n = n\<lparr>n_upper_fence := uf\<rparr>
      in n\<lparr>n_prefix_length := (if FLAGS_btree_prefix_compression f
                             then common_length (fence_bytes lowerKey) (fence_bytes upperKey) else 0)\<rparr>)"

text \<open>
  \<^verbatim>\<open>setUpper\<close> copies a swip together with the pending LSNs that follow it in memory;
  \<open>lsns\<close> are the words there.
\<close>

definition setUpper :: "u64 \<Rightarrow> (nat \<Rightarrow> LID) \<Rightarrow> BTreeNode \<Rightarrow> BTreeNode" where
  "setUpper swip lsns n =
     n\<lparr>n_upper := swip,
       n_upper_pending_lsn := (\<lambda>i. if i < unat (pendingLSNCount swip) then lsns i else n_upper_pending_lsn n i)\<rparr>"

text \<open>The words that follow the swip of a slot.\<close>

definition child_lsns :: "BTreeNode \<Rightarrow> nat \<Rightarrow> nat \<Rightarrow> LID" where
  "child_lsns n i j = le_word (rd (n_mem n) (payload_at n i + sizeof_SwipType + sizeof_LID * j) sizeof_LID)"

section \<open>Storing and copying entries\<close>

definition spaceNeeded3 :: "nat \<Rightarrow> nat \<Rightarrow> nat \<Rightarrow> nat" where
  "spaceNeeded3 key_len payload_len prefix_len =
     to_u16 (int sizeof_Slot + (int key_len - int prefix_len) + int payload_len)"

definition spaceNeeded :: "BTreeNode \<Rightarrow> nat \<Rightarrow> nat \<Rightarrow> nat" where
  "spaceNeeded n key_length payload_len = spaceNeeded3 key_length payload_len (n_prefix_length n)"

definition canInsert :: "BTreeNode \<Rightarrow> nat \<Rightarrow> nat \<Rightarrow> bool" where
  "canInsert n key_len payload_len \<longleftrightarrow> hasEnoughSpaceFor n (spaceNeeded n key_len payload_len)"

text \<open>
  The part that \<^verbatim>\<open>storeKeyValue\<close> and \<^verbatim>\<open>insertDoNotCopyPayload\<close> share:
  the slot is filled in and the key without its prefix is copied to the heap.
\<close>

definition store_key :: "nat \<Rightarrow> key \<Rightarrow> nat \<Rightarrow> BTreeNode \<Rightarrow> BTreeNode" where
  "store_key slotId key payload_len n =
     (let key_len = to_u16 (int (length key) - int (n_prefix_length n));
          key = drop (n_prefix_length n) key;
          space = to_u16 (int key_len + int payload_len);
          off = to_u16 (int (n_data_offset n) - int space)
      in n\<lparr>n_slot := (n_slot n)(slotId := \<lparr>s_offset = off, s_key_len = key_len,
              s_payload_len = to_u15 (int payload_len), s_frozen = False, s_head = head key\<rparr>),
           n_data_offset := off, n_space_used := to_u16 (int (n_space_used n) + int space),
           n_mem := wr (n_mem n) off key\<rparr>)"

definition storeKeyValue :: "nat \<Rightarrow> key \<Rightarrow> u8 list \<Rightarrow> BTreeNode \<Rightarrow> BTreeNode" where
  "storeKeyValue slotId key payload n =
     (let n = store_key slotId key (length payload) n
      in n\<lparr>n_mem := wr (n_mem n) (payload_at n slotId) payload\<rparr>)"

definition copyKeyValue :: "BTreeNode \<Rightarrow> nat \<Rightarrow> nat \<Rightarrow> BTreeNode \<Rightarrow> BTreeNode" where
  "copyKeyValue src srcSlot dstSlot dst =
     (let dst = storeKeyValue dstSlot (copyFullKey src srcSlot) (getPayload src srcSlot) dst
      in dst\<lparr>n_slot := (n_slot dst)(dstSlot :=
               (n_slot dst dstSlot)\<lparr>s_frozen := s_frozen (n_slot src srcSlot)\<rparr>)\<rparr>)"

text \<open>
  The two loops of \<^verbatim>\<open>copyKeyValueRange\<close>, with \<open>k\<close> entries left to copy.  The fast
  path runs after all slots were copied.
\<close>

definition move_entry :: "BTreeNode \<Rightarrow> nat \<Rightarrow> nat \<Rightarrow> BTreeNode \<Rightarrow> BTreeNode" where
  "move_entry src srcSlot dstSlot dst =
     (let kv_size = getKeyLen src srcSlot + getPayloadLength src srcSlot;
          off = to_u16 (int (n_data_offset dst) - int kv_size)
      in dst\<lparr>n_data_offset := off, n_space_used := to_u16 (int (n_space_used dst) + int kv_size),
             n_slot := (n_slot dst)(dstSlot := (n_slot dst dstSlot)\<lparr>s_offset := off\<rparr>),
             n_mem := wr (n_mem dst) off (rd (n_mem src) (s_offset (n_slot src srcSlot)) kv_size)\<rparr>)"

fun fast_loop :: "BTreeNode \<Rightarrow> nat \<Rightarrow> nat \<Rightarrow> nat \<Rightarrow> BTreeNode \<Rightarrow> BTreeNode" where
  "fast_loop src srcSlot dstSlot 0 dst = dst"
| "fast_loop src srcSlot dstSlot (Suc k) dst =
     fast_loop src (srcSlot + 1) (dstSlot + 1) k (move_entry src srcSlot dstSlot dst)"

fun slow_loop :: "BTreeNode \<Rightarrow> nat \<Rightarrow> nat \<Rightarrow> nat \<Rightarrow> BTreeNode \<Rightarrow> BTreeNode" where
  "slow_loop src srcSlot dstSlot 0 dst = dst"
| "slow_loop src srcSlot dstSlot (Suc k) dst =
     slow_loop src (srcSlot + 1) (dstSlot + 1) k (copyKeyValue src srcSlot dstSlot dst)"

definition copyKeyValueRange :: "BTreeNode \<Rightarrow> BTreeNode \<Rightarrow> nat \<Rightarrow> nat \<Rightarrow> nat \<Rightarrow> BTreeNode" where
  "copyKeyValueRange src dst dstSlot srcSlot cnt =
     (let dst = (if n_prefix_length src = n_prefix_length dst then
                   fast_loop src srcSlot dstSlot cnt
                     (dst\<lparr>n_slot := (\<lambda>i. if dstSlot \<le> i \<and> i < dstSlot + cnt
                                        then n_slot src (srcSlot + (i - dstSlot)) else n_slot dst i)\<rparr>)
                 else slow_loop src srcSlot dstSlot cnt dst)
      in dst\<lparr>n_count := to_u16 (int (n_count dst) + int cnt)\<rparr>)"

section \<open>Compaction\<close>

definition compactify :: "flags \<Rightarrow> BTreeNode \<Rightarrow> BTreeNode \<Rightarrow> BTreeNode" where
  "compactify f g n =
     (let tmp = BTreeNode_new (n_is_leaf n) g;
          tmp = setFences f (getLowerFenceKey n) (getUpperFenceKey n) tmp;
          tmp = copyKeyValueRange n tmp 0 0 (n_count n);
          tmp = setUpper (n_upper n) (n_upper_pending_lsn n) tmp
      in makeHint tmp)"

definition requestSpaceFor :: "flags \<Rightarrow> BTreeNode \<Rightarrow> BTreeNode \<Rightarrow> nat \<Rightarrow> bool \<times> BTreeNode" where
  "requestSpaceFor f g n space_needed =
     (if space_needed \<le> freeSpace n then (True, n)
      else if space_needed \<le> freeSpaceAfterCompaction n then (True, compactify f g n)
      else (False, n))"

definition prepareInsert :: "flags \<Rightarrow> BTreeNode \<Rightarrow> BTreeNode \<Rightarrow> nat \<Rightarrow> nat \<Rightarrow> bool \<times> BTreeNode" where
  "prepareInsert f g n key_len payload_len = requestSpaceFor f g n (spaceNeeded n key_len payload_len)"

section \<open>Insertion and removal\<close>

definition shift_up :: "nat \<Rightarrow> BTreeNode \<Rightarrow> BTreeNode" where
  "shift_up slotId n =
     n\<lparr>n_slot := (\<lambda>i. if slotId < i \<and> i \<le> n_count n then n_slot n (i - 1) else n_slot n i)\<rparr>"

definition shift_down :: "nat \<Rightarrow> BTreeNode \<Rightarrow> BTreeNode" where
  "shift_down slotId n =
     n\<lparr>n_slot := (\<lambda>i. if slotId \<le> i \<and> i < n_count n - 1 then n_slot n (i + 1) else n_slot n i)\<rparr>"

definition count_up :: "BTreeNode \<Rightarrow> BTreeNode" where
  "count_up n = n\<lparr>n_count := to_u16 (int (n_count n) + 1)\<rparr>"

definition node_insert :: "flags \<Rightarrow> BTreeNode \<Rightarrow> BTreeNode \<Rightarrow> key \<Rightarrow> u8 list \<Rightarrow> (int \<times> BTreeNode) option" where
  "node_insert f g n key payload = do {
     (exact_pos, _) \<leftarrow> lowerBound f True n key None;
     ensure (exact_pos = -1);
     let n = snd (prepareInsert f g n (length key) (length payload));
     (slotId, _) \<leftarrow> lowerBound f False n key None;
     let s = nat slotId;
     let n = count_up (storeKeyValue s key payload (shift_up s n));
     Some (slotId, updateHint s n) }"

definition insertDoNotCopyPayload ::
  "flags \<Rightarrow> BTreeNode \<Rightarrow> BTreeNode \<Rightarrow> key \<Rightarrow> nat \<Rightarrow> int \<Rightarrow> (int \<times> BTreeNode) option" where
  "insertDoNotCopyPayload f g n key payload_length pos = do {
     ensure (canInsert n (length key) payload_length);
     let n = snd (prepareInsert f g n (length key) payload_length);
     slotId \<leftarrow> (if pos = -1 then map_option fst (lowerBound f False n key None) else Some pos);
     let s = nat slotId;
     let n = count_up (store_key s key payload_length (shift_up s n));
     Some (slotId, updateHint s n) }"

definition removeSlot :: "nat \<Rightarrow> BTreeNode \<Rightarrow> BTreeNode" where
  "removeSlot slotId n =
     (let n = n\<lparr>n_space_used := to_u16 (int (n_space_used n) - int (getKeyLen n slotId + getPayloadLength n slotId))\<rparr>;
          n = shift_down slotId n
      in makeHint (n\<lparr>n_count := to_u16 (int (n_count n) - 1)\<rparr>))"

definition node_remove :: "flags \<Rightarrow> BTreeNode \<Rightarrow> key \<Rightarrow> (bool \<times> BTreeNode) option" where
  "node_remove f n key = do {
     (slotId, _) \<leftarrow> lowerBound f True n key None;
     Some (if slotId = -1 then (False, n) else (True, removeSlot (nat slotId) n)) }"

definition node_reset :: "BTreeNode \<Rightarrow> BTreeNode" where
  "node_reset n =
     (let used = to_u16 (int (f_length (n_upper_fence n)) + int (f_length (n_lower_fence n)))
      in n\<lparr>n_space_used := used, n_data_offset := to_u16 (int EFFECTIVE_PAGE_SIZE - int used), n_count := 0\<rparr>)"

section \<open>Payload lengths\<close>

definition shortenPayload :: "nat \<Rightarrow> nat \<Rightarrow> BTreeNode \<Rightarrow> BTreeNode" where
  "shortenPayload i len n =
     (let freed_space = to_u16 (int (s_payload_len (n_slot n i)) - int len)
      in n\<lparr>n_space_used := to_u16 (int (n_space_used n) - int freed_space),
           n_slot := (n_slot n)(i := (n_slot n i)\<lparr>s_payload_len := to_u15 (int len)\<rparr>)\<rparr>)"

definition canExtendPayload :: "BTreeNode \<Rightarrow> nat \<Rightarrow> nat \<Rightarrow> bool" where
  "canExtendPayload n i new_length \<longleftrightarrow>
     freeSpaceAfterCompaction n \<ge> to_u16 (int new_length - int (getPayloadLength n i))"

definition extendPayload :: "flags \<Rightarrow> BTreeNode \<Rightarrow> nat \<Rightarrow> nat \<Rightarrow> BTreeNode \<Rightarrow> BTreeNode" where
  "extendPayload f g i new_payload_length n =
     (let extra_space_needed = to_u16 (int new_payload_length - int (getPayloadLength n i));
          n = snd (requestSpaceFor f g n extra_space_needed);
          key_length = getKeyLen n i;
          old_total_length = to_u16 (int key_length + int (getPayloadLength n i));
          new_total_length = to_u16 (int key_length + int new_payload_length);
          key = getKey n i;
          n = n\<lparr>n_space_used := to_u16 (int (n_space_used n) - int old_total_length),
                n_slot := (n_slot n)(i := (n_slot n i)\<lparr>s_payload_len := 0, s_key_len := 0\<rparr>)\<rparr>;
          n = (if freeSpace n < new_total_length then compactify f g n else n);
          off = to_u16 (int (n_data_offset n) - int new_total_length)
      in n\<lparr>n_space_used := to_u16 (int (n_space_used n) + int new_total_length), n_data_offset := off,
           n_slot := (n_slot n)(i := (n_slot n i)\<lparr>s_offset := off, s_key_len := key_length,
                                 s_payload_len := to_u15 (int new_payload_length)\<rparr>),
           n_mem := wr (n_mem n) off key\<rparr>)"

text \<open>
  \<^verbatim>\<open>evictAndStorePendingLSNs\<close> for the reference \<open>r\<close>; \<open>None\<close> when an
  \<^verbatim>\<open>ensure\<close> fails.
\<close>

definition evictAndStorePendingLSNs ::
  "flags \<Rightarrow> BTreeNode \<Rightarrow> child_ref \<Rightarrow> u64 \<Rightarrow> u64 \<Rightarrow> LID list \<Rightarrow> BTreeNode \<Rightarrow> (bool \<times> BTreeNode) option" where
  "evictAndStorePendingLSNs f g r pid ru_epoch pending_lsn n = do {
     ensure (isInner n);
     ensure (length pending_lsn > 0 \<and> length pending_lsn \<le> max_pending_lsn);
     let lsns_size = to_u16 (int (length pending_lsn) * int sizeof_LID);
     (case r of
        Upper_ref \<Rightarrow> do {
          swip \<leftarrow> evictAndMarkDirty pid ru_epoch (of_nat (length pending_lsn));
          Some (True, n\<lparr>n_upper_pending_lsn := (\<lambda>j. if j < length pending_lsn then pending_lsn ! j
                                                   else n_upper_pending_lsn n j),
                        n_upper := swip\<rparr>) }
      | Slot_ref pos \<Rightarrow> do {
          ensure (pos < n_count n);
          let payload_len = to_u16 (int sizeof_SwipType + int lsns_size);
          if getPayloadLength n pos < payload_len \<and> \<not> canExtendPayload n pos payload_len
          then Some (False, n)
          else do {
            let n = (if getPayloadLength n pos < payload_len then extendPayload f g pos payload_len n else n);
            let n = n\<lparr>n_mem := wr (n_mem n) (payload_at n pos + sizeof_SwipType) (concat (map (le_bytes 8) pending_lsn))\<rparr>;
            swip \<leftarrow> evictAndMarkDirty pid ru_epoch (of_nat (length pending_lsn));
            Some (True, n\<lparr>n_mem := wr (n_mem n) (payload_at n pos) (le_bytes 8 swip)\<rparr>) } }) }"

section \<open>The layout invariant\<close>

text \<open>
  The heap holds one chunk for each finite fence and for each slot.  \<open>chunks_ok I n\<close> says
  that the chunks \<open>I\<close> lie between \<^verbatim>\<open>data_offset\<close> and the end of the page,
  pairwise apart, and that \<^verbatim>\<open>space_used\<close> is the sum of their lengths.
\<close>

datatype chunk = Lower_fence | Upper_fence | Entry_of nat

definition off :: "BTreeNode \<Rightarrow> chunk \<Rightarrow> nat" where
  "off n c = (case c of Lower_fence \<Rightarrow> f_offset (n_lower_fence n) | Upper_fence \<Rightarrow> f_offset (n_upper_fence n)
                      | Entry_of i \<Rightarrow> s_offset (n_slot n i))"

definition len :: "BTreeNode \<Rightarrow> chunk \<Rightarrow> nat" where
  "len n c = (case c of Lower_fence \<Rightarrow> f_length (n_lower_fence n) | Upper_fence \<Rightarrow> f_length (n_upper_fence n)
                      | Entry_of i \<Rightarrow> s_key_len (n_slot n i) + s_payload_len (n_slot n i))"

definition chunks_ok :: "chunk set \<Rightarrow> BTreeNode \<Rightarrow> bool" where
  "chunks_ok I n \<longleftrightarrow>
     finite I \<and> n_space_used n = sum (len n) I \<and> n_data_offset n + n_space_used n \<le> EFFECTIVE_PAGE_SIZE \<and>
     (\<forall>c\<in>I. n_data_offset n \<le> off n c \<and> off n c + len n c \<le> EFFECTIVE_PAGE_SIZE) \<and>
     (\<forall>c\<in>I. \<forall>d\<in>I. c \<noteq> d \<longrightarrow> off n c + len n c \<le> off n d \<or> off n d + len n d \<le> off n c)"

definition fence_chunks :: "BTreeNode \<Rightarrow> chunk set" where
  "fence_chunks n =
     (if isLowerFenceInfinity n then {} else {Lower_fence}) \<union> (if isUpperFenceInfinity n then {} else {Upper_fence})"

definition chunks :: "BTreeNode \<Rightarrow> chunk set" where
  "chunks n = fence_chunks n \<union> Entry_of ` {..<n_count n}"

definition prefix_for :: "flags \<Rightarrow> key option \<Rightarrow> key option \<Rightarrow> nat" where
  "prefix_for f l u = (if FLAGS_btree_prefix_compression f then common_length (fence_bytes l) (fence_bytes u) else 0)"

definition layout_ok :: "flags \<Rightarrow> BTreeNode \<Rightarrow> bool" where
  "layout_ok f n \<longleftrightarrow>
     chunks_ok (chunks n) n \<and> slot_end (n_count n) \<le> n_data_offset n \<and>
     (isLowerFenceInfinity n \<longrightarrow> f_length (n_lower_fence n) = 0) \<and>
     (isUpperFenceInfinity n \<longrightarrow> f_length (n_upper_fence n) = 0) \<and>
     n_prefix_length n = prefix_for f (getLowerFenceKey n) (getUpperFenceKey n)"

text \<open>Keys lie above the lower fence and not above the upper one.\<close>

definition in_fences :: "key option \<Rightarrow> key option \<Rightarrow> key \<Rightarrow> bool" where
  "in_fences l u k \<longleftrightarrow> (case l of None \<Rightarrow> True | Some lf \<Rightarrow> lf < k) \<and> (case u of None \<Rightarrow> True | Some uf \<Rightarrow> k \<le> uf)"

definition node_ok :: "flags \<Rightarrow> BTreeNode \<Rightarrow> bool" where
  "node_ok f n \<longleftrightarrow>
     layout_ok f n \<and> search_ok n \<and>
     (\<forall>k\<in>set (full_keys n). in_fences (getLowerFenceKey n) (getUpperFenceKey n) k)"

text \<open>What a node stores: keys, payloads and the frozen marks, in slot order.\<close>

definition entry_at :: "BTreeNode \<Rightarrow> nat \<Rightarrow> key \<times> u8 list \<times> bool" where
  "entry_at n i = (copyFullKey n i, getPayload n i, isFrozen n i)"

definition entries :: "BTreeNode \<Rightarrow> (key \<times> u8 list \<times> bool) list" where
  "entries n = map (entry_at n) [0..<n_count n]"

section \<open>Chunks\<close>

lemma chunk_simps [simp]:
  "off n Lower_fence = f_offset (n_lower_fence n)" "off n Upper_fence = f_offset (n_upper_fence n)"
  "off n (Entry_of i) = s_offset (n_slot n i)"
  "len n Lower_fence = f_length (n_lower_fence n)" "len n Upper_fence = f_length (n_upper_fence n)"
  "len n (Entry_of i) = s_key_len (n_slot n i) + s_payload_len (n_slot n i)"
  by (simp_all add: off_def len_def)

lemma chunks_okD:
  assumes "chunks_ok I n"
  shows "finite I" "n_space_used n = sum (len n) I" "n_data_offset n + n_space_used n \<le> EFFECTIVE_PAGE_SIZE"
    and "c \<in> I \<Longrightarrow> n_data_offset n \<le> off n c" "c \<in> I \<Longrightarrow> off n c + len n c \<le> EFFECTIVE_PAGE_SIZE"
    and "c \<in> I \<Longrightarrow> d \<in> I \<Longrightarrow> c \<noteq> d \<Longrightarrow> off n c + len n c \<le> off n d \<or> off n d + len n d \<le> off n c"
  using assms unfolding chunks_ok_def by blast+

text \<open>A new chunk right below the used part of the heap.\<close>

lemma chunks_ok_push:
  assumes ok: "chunks_ok I n" and new: "c \<notin> I" "L \<le> n_data_offset n"
    and n': "n_data_offset n' = n_data_offset n - L" "n_space_used n' = n_space_used n + L"
      "off n' c = n_data_offset n - L" "len n' c = L"
    and same: "\<And>d. d \<in> I \<Longrightarrow> off n' d = off n d" "\<And>d. d \<in> I \<Longrightarrow> len n' d = len n d"
  shows "chunks_ok (insert c I) n'"
proof -
  note D = chunks_okD [OF ok]
  have "sum (len n') I = sum (len n) I" by (rule sum.cong) (simp_all add: same)
  then have sum: "n_space_used n' = sum (len n') (insert c I)" using new D(1,2) n' by simp
  have "off n' d + len n' d \<le> EFFECTIVE_PAGE_SIZE \<and> n_data_offset n' \<le> off n' d" if "d \<in> insert c I" for d
    using that D(4,5) [of d] D(3) new n' same by (cases "d = c") auto
  moreover have "off n' a + len n' a \<le> off n' b \<or> off n' b + len n' b \<le> off n' a"
    if ab: "a \<in> insert c I" "b \<in> insert c I" "a \<noteq> b" for a b
  proof -
    consider "a = c" "b \<in> I" | "b = c" "a \<in> I" | "a \<in> I" "b \<in> I" using ab by auto
    then show ?thesis
    proof cases
      case 1 then show ?thesis using D(4) [of b] n' new same by simp
    next
      case 2 then show ?thesis using D(4) [of a] n' new same by simp
    next
      case 3 then show ?thesis using D(6) [OF 3 ab(3)] same by simp
    qed
  qed
  moreover have "n_data_offset n' + n_space_used n' \<le> EFFECTIVE_PAGE_SIZE" using D(3) n' new by simp
  ultimately show ?thesis unfolding chunks_ok_def using D(1) sum by auto
qed

text \<open>Chunks are taken away or renamed.\<close>

lemma chunks_ok_remap:
  assumes ok: "chunks_ok I n" and r: "inj_on r J" "r ` J \<subseteq> I"
    and n': "n_data_offset n' = n_data_offset n" "n_space_used n' = sum (len n) (r ` J)"
      "\<And>c. c \<in> J \<Longrightarrow> off n' c = off n (r c)" "\<And>c. c \<in> J \<Longrightarrow> len n' c = len n (r c)"
  shows "chunks_ok J n'"
proof -
  note D = chunks_okD [OF ok]
  have fin: "finite J" using D(1) r by (meson finite_imageD finite_subset)
  have "sum (len n) (r ` J) = sum (len n') J" using r(1) n'(4) by (simp add: sum.reindex)
  moreover have "sum (len n) (r ` J) \<le> sum (len n) I" using D(1) r(2) by (intro sum_mono2) auto
  moreover have "off n' a + len n' a \<le> off n' b \<or> off n' b + len n' b \<le> off n' a"
    if "a \<in> J" "b \<in> J" "a \<noteq> b" for a b
    using D(6) [of "r a" "r b"] that r n' by (metis image_subset_iff inj_onD)
  ultimately show ?thesis using fin D(2,3) D(4,5) n' r(2) unfolding chunks_ok_def by (auto simp: image_subset_iff)
qed

lemma chunks_ok_cong:
  assumes "chunks_ok I n" "n_data_offset n' = n_data_offset n" "n_space_used n' = n_space_used n"
    and "\<And>c. c \<in> I \<Longrightarrow> off n' c = off n c" "\<And>c. c \<in> I \<Longrightarrow> len n' c = len n c"
  shows "chunks_ok I n'"
  using chunks_ok_remap [OF assms(1), of id I n'] assms chunks_okD(2) [OF assms(1)] by simp

section \<open>Pushing an entry\<close>

text \<open>
  The writes that add an entry all have this form when nothing wraps: a block of bytes goes
  right below the used part of the heap and a slot points to it.
\<close>

definition push_entry :: "nat \<Rightarrow> Slot \<Rightarrow> u8 list \<Rightarrow> BTreeNode \<Rightarrow> BTreeNode" where
  "push_entry s e bs n =
     n\<lparr>n_data_offset := n_data_offset n - length bs, n_space_used := n_space_used n + length bs,
       n_slot := (n_slot n)(s := e\<lparr>s_offset := n_data_offset n - length bs\<rparr>),
       n_mem := wr (n_mem n) (n_data_offset n - length bs) bs\<rparr>"

definition entry_slot :: "nat \<Rightarrow> key \<Rightarrow> nat \<Rightarrow> bool \<Rightarrow> Slot" where
  "entry_slot pl key payload_len frozen =
     \<lparr>s_offset = 0, s_key_len = length key - pl, s_payload_len = payload_len, s_frozen = frozen,
      s_head = head (drop pl key)\<rparr>"

definition room :: "BTreeNode \<Rightarrow> nat \<Rightarrow> bool" where
  "room n L \<longleftrightarrow> L \<le> n_data_offset n \<and> n_data_offset n + n_space_used n \<le> EFFECTIVE_PAGE_SIZE"

lemma EPS_less: "x \<le> EFFECTIVE_PAGE_SIZE \<Longrightarrow> x < 32768"
  by (simp add: EFFECTIVE_PAGE_SIZE_def)

lemma nat_diff_of_nat: "nat (int a - int b) = a - b"
  by simp

lemma room_bounds:
  assumes "room n L"
  shows "n_data_offset n < 32768" "n_space_used n + L < 32768" "L < 32768"
  using assms EPS_less [of "n_data_offset n + n_space_used n"] unfolding room_def by linarith+

lemma storeKeyValue_push:
  assumes "n_prefix_length n \<le> length key" "room n (length key - n_prefix_length n + length payload)"
  shows "storeKeyValue s key payload n =
    push_entry s (entry_slot (n_prefix_length n) key (length payload) False)
      (drop (n_prefix_length n) key @ payload) n"
proof -
  let ?kl = "length key - n_prefix_length n"
  note B = room_bounds [OF assms(2)]
  have kl: "to_u16 (int (length key) - int (n_prefix_length n)) = ?kl" using assms(1) B by simp
  have sp: "to_u16 (int ?kl + int (length payload)) = ?kl + length payload" using B by simp
  have of: "to_u16 (int (n_data_offset n) - int (?kl + length payload)) = n_data_offset n - (?kl + length payload)"
    using assms(2) B unfolding room_def by simp
  have su: "to_u16 (int (n_space_used n) + int (?kl + length payload)) = n_space_used n + (?kl + length payload)"
    using B by simp
  have pl: "to_u15 (int (length payload)) = length payload" using B by simp
  have "wr (wr m o' (drop (n_prefix_length n) key)) (o' + ?kl) payload = wr m o' (drop (n_prefix_length n) key @ payload)" for m o'
    using wr_append [of m o' "drop (n_prefix_length n) key" payload] by simp
  then show ?thesis
    unfolding storeKeyValue_def store_key_def Let_def kl sp of su pl push_entry_def entry_slot_def payload_at_def
    by simp
qed

lemma copyKeyValue_push:
  assumes "n_prefix_length dst \<le> length (copyFullKey src i)"
    and "room dst (length (copyFullKey src i) - n_prefix_length dst + length (getPayload src i))"
  shows "copyKeyValue src i j dst =
    push_entry j (entry_slot (n_prefix_length dst) (copyFullKey src i) (length (getPayload src i)) (isFrozen src i))
      (drop (n_prefix_length dst) (copyFullKey src i) @ getPayload src i) dst"
  unfolding copyKeyValue_def Let_def storeKeyValue_push [OF assms] push_entry_def entry_slot_def isFrozen_def
  by simp

lemma length_getPayload [simp]: "length (getPayload n i) = s_payload_len (n_slot n i)"
  by (simp add: getPayload_def)

lemma entry_bytes: "rd (n_mem n) (s_offset (n_slot n i)) (s_key_len (n_slot n i) + s_payload_len (n_slot n i)) =
  getKey n i @ getPayload n i"
  by (simp add: rd_add getKey_def getPayload_def payload_at_def)

lemma move_entry_push:
  assumes "room dst (s_key_len (n_slot src i) + s_payload_len (n_slot src i))"
    and "n_slot dst j = n_slot src i"
    and "s_head (n_slot src i) = head (getKey src i)" "n_prefix_length src = n_prefix_length dst"
  shows "move_entry src i j dst =
    push_entry j (entry_slot (n_prefix_length dst) (copyFullKey src i) (length (getPayload src i)) (isFrozen src i))
      (drop (n_prefix_length dst) (copyFullKey src i) @ getPayload src i) dst"
proof -
  let ?L = "s_key_len (n_slot src i) + s_payload_len (n_slot src i)"
  note B = room_bounds [OF assms(1)]
  have of: "to_u16 (int (n_data_offset dst) - int ?L) = n_data_offset dst - ?L"
    using assms(1) B unfolding room_def by simp
  have su: "to_u16 (int (n_space_used dst) + int ?L) = n_space_used dst + ?L" using B by simp
  have dr: "drop (n_prefix_length dst) (copyFullKey src i) = getKey src i"
    using assms(4) by (simp add: copyFullKey_def flip: length_getPrefix)
  have "(n_slot src i)\<lparr>s_offset := x\<rparr> =
    (entry_slot (n_prefix_length dst) (copyFullKey src i) (length (getPayload src i)) (isFrozen src i))\<lparr>s_offset := x\<rparr>" for x
    using assms(3,4) by (cases "n_slot src i") (simp add: entry_slot_def isFrozen_def dr copyFullKey_def)
  then show ?thesis
    unfolding move_entry_def Let_def getKeyLen_def getPayloadLength_def of su entry_bytes dr push_entry_def
    using assms(2) by simp
qed

text \<open>The effect of a push on what the node stores.\<close>

lemma push_entry_fields [simp]:
  "n_upper (push_entry s e bs n) = n_upper n" "n_upper_pending_lsn (push_entry s e bs n) = n_upper_pending_lsn n"
  "n_lower_fence (push_entry s e bs n) = n_lower_fence n" "n_upper_fence (push_entry s e bs n) = n_upper_fence n"
  "n_count (push_entry s e bs n) = n_count n" "n_is_leaf (push_entry s e bs n) = n_is_leaf n"
  "n_prefix_length (push_entry s e bs n) = n_prefix_length n" "n_hint (push_entry s e bs n) = n_hint n"
  "n_has_garbage (push_entry s e bs n) = n_has_garbage n"
  "n_data_offset (push_entry s e bs n) = n_data_offset n - length bs"
  "n_space_used (push_entry s e bs n) = n_space_used n + length bs"
  "n_slot (push_entry s e bs n) = (n_slot n)(s := e\<lparr>s_offset := n_data_offset n - length bs\<rparr>)"
  by (simp_all add: push_entry_def)

lemma rd_push_entry:
  "length bs \<le> n_data_offset n \<Longrightarrow> n_data_offset n \<le> o' \<Longrightarrow> rd (n_mem (push_entry s e bs n)) o' k = rd (n_mem n) o' k"
  unfolding push_entry_def by (simp add: rd_wr_disjoint)

lemma push_entry_chunks:
  assumes "chunks_ok I n" "Entry_of s \<notin> I" "room n (length bs)" "s_key_len e + s_payload_len e = length bs"
  shows "chunks_ok (insert (Entry_of s) I) (push_entry s e bs n)"
proof (rule chunks_ok_push [OF assms(1,2), where L = "length bs"])
  fix d assume "d \<in> I"
  then have "d \<noteq> Entry_of s" using assms(2) by blast
  then show "off (push_entry s e bs n) d = off n d" "len (push_entry s e bs n) d = len n d"
    by (cases d; simp)+
qed (use assms in \<open>simp_all add: room_def\<close>)

lemma push_entry_other:
  assumes "chunks_ok I n" "room n (length bs)" "Entry_of i \<in> I" "i \<noteq> s"
  shows "getKey (push_entry s e bs n) i = getKey n i" "getPayload (push_entry s e bs n) i = getPayload n i"
    "isFrozen (push_entry s e bs n) i = isFrozen n i"
proof -
  have "n_data_offset n \<le> s_offset (n_slot n i)" using chunks_okD(4) [OF assms(1,3)] by simp
  then show "getKey (push_entry s e bs n) i = getKey n i" "getPayload (push_entry s e bs n) i = getPayload n i"
    "isFrozen (push_entry s e bs n) i = isFrozen n i"
    using assms(2,4) by (simp_all add: getKey_def getPayload_def payload_at_def isFrozen_def rd_push_entry room_def)
qed

lemma push_entry_new:
  assumes "s_key_len e = length k" "s_payload_len e = length p"
  shows "getKey (push_entry s e (k @ p) n) s = k" "getPayload (push_entry s e (k @ p) n) s = p"
    "isFrozen (push_entry s e bs n) s = s_frozen e"
proof -
  let ?o = "n_data_offset n - (length k + length p)"
  have "rd (wr (n_mem n) ?o (k @ p)) ?o (length k + length p) = k @ p" using rd_wr_same [of "n_mem n" ?o "k @ p"] by simp
  then have "rd (wr (n_mem n) ?o (k @ p)) ?o (length k) = k \<and> rd (wr (n_mem n) ?o (k @ p)) (?o + length k) (length p) = p"
    unfolding rd_add by (metis append_eq_append_conv length_rd)
  then show "getKey (push_entry s e (k @ p) n) s = k" "getPayload (push_entry s e (k @ p) n) s = p"
    using assms by (simp_all add: push_entry_def getKey_def getPayload_def payload_at_def)
  show "isFrozen (push_entry s e bs n) s = s_frozen e" by (simp add: isFrozen_def)
qed

section \<open>Copying a range of entries\<close>

definition push_copy :: "BTreeNode \<Rightarrow> nat \<Rightarrow> nat \<Rightarrow> BTreeNode \<Rightarrow> BTreeNode" where
  "push_copy src i j dst =
     push_entry j (entry_slot (n_prefix_length dst) (copyFullKey src i) (length (getPayload src i)) (isFrozen src i))
       (drop (n_prefix_length dst) (copyFullKey src i) @ getPayload src i) dst"

fun push_range :: "BTreeNode \<Rightarrow> nat \<Rightarrow> nat \<Rightarrow> nat \<Rightarrow> BTreeNode \<Rightarrow> BTreeNode" where
  "push_range src i j 0 dst = dst"
| "push_range src i j (Suc k) dst = push_range src (i + 1) (j + 1) k (push_copy src i j dst)"

text \<open>The space an entry of \<open>src\<close> takes in a node with a prefix of length \<open>pl\<close>.\<close>

definition copy_len :: "nat \<Rightarrow> BTreeNode \<Rightarrow> nat \<Rightarrow> nat" where
  "copy_len pl src i = length (copyFullKey src i) - pl + s_payload_len (n_slot src i)"

definition copies_len :: "nat \<Rightarrow> BTreeNode \<Rightarrow> nat \<Rightarrow> nat \<Rightarrow> nat" where
  "copies_len pl src i k = (\<Sum>m<k. copy_len pl src (i + m))"

lemma copies_len_Suc: "copies_len pl src i (Suc k) = copy_len pl src i + copies_len pl src (i + 1) k"
  unfolding copies_len_def by (subst sum.lessThan_Suc_shift) simp

lemma copies_len_0 [simp]: "copies_len pl src i 0 = 0"
  by (simp add: copies_len_def)

lemma length_copyFullKey [simp]: "length (copyFullKey n i) = n_prefix_length n + s_key_len (n_slot n i)"
  by (simp add: copyFullKey_def)

lemma push_copy_room:
  assumes "room dst (copy_len (n_prefix_length dst) src i + L)"
  shows "room (push_copy src i j dst) L" and "room dst (copy_len (n_prefix_length dst) src i)"
  using assms unfolding room_def push_copy_def copy_len_def by auto

lemma push_copy_prefix_length [simp]: "n_prefix_length (push_copy src i j dst) = n_prefix_length dst"
  by (simp add: push_copy_def)

lemma slow_loop_push_range:
  assumes "room dst (copies_len (n_prefix_length dst) src i k)"
    and "\<And>m. m < k \<Longrightarrow> n_prefix_length dst \<le> length (copyFullKey src (i + m))"
  shows "slow_loop src i j k dst = push_range src i j k dst"
  using assms
proof (induction k arbitrary: i j dst)
  case (Suc k)
  have room: "room dst (copy_len (n_prefix_length dst) src i + copies_len (n_prefix_length dst) src (i + 1) k)"
    using Suc.prems(1) by (simp add: copies_len_Suc)
  have "copyKeyValue src i j dst = push_copy src i j dst"
    using push_copy_room(2) [OF room] Suc.prems(2) [of 0] unfolding push_copy_def
    by (intro copyKeyValue_push) (simp_all add: copy_len_def)
  moreover have "n_prefix_length (push_copy src i j dst) \<le> length (copyFullKey src (i + 1 + m))" if "m < k" for m
    using Suc.prems(2) [of "Suc m"] that by simp
  ultimately show ?case using Suc.IH [of "push_copy src i j dst" "i + 1" "j + 1"] push_copy_room(1) [OF room] by simp
qed simp

definition prefill :: "BTreeNode \<Rightarrow> nat \<Rightarrow> nat \<Rightarrow> nat \<Rightarrow> BTreeNode \<Rightarrow> BTreeNode" where
  "prefill src i j k dst =
     dst\<lparr>n_slot := (\<lambda>m. if j \<le> m \<and> m < j + k then n_slot src (i + (m - j)) else n_slot dst m)\<rparr>"

lemma prefill_push_copy:
  "push_copy src i j (prefill src i j (Suc k) dst) = prefill src (i + 1) (j + 1) k (push_copy src i j dst)"
proof -
  have "push_entry j e bs (prefill src i j (Suc k) dst) = prefill src (i + 1) (j + 1) k (push_entry j e bs dst)" for e bs
  proof (rule BTreeNode.equality)
    have "i + (x - j) = i + 1 + (x - (j + 1))" if "j \<le> x" "x \<noteq> j" for x using that by simp
    then show "n_slot (push_entry j e bs (prefill src i j (Suc k) dst)) =
        n_slot (prefill src (i + 1) (j + 1) k (push_entry j e bs dst))"
      by (auto simp: push_entry_def prefill_def fun_eq_iff simp del: add_diff_assoc)
  qed (simp_all add: push_entry_def prefill_def)
  then show ?thesis unfolding push_copy_def by (simp add: prefill_def)
qed

lemma fast_loop_push_range:
  assumes "room dst (copies_len (n_prefix_length dst) src i k)" "n_prefix_length src = n_prefix_length dst"
    and "\<And>m. m < k \<Longrightarrow> s_head (n_slot src (i + m)) = head (getKey src (i + m))"
  shows "fast_loop src i j k (prefill src i j k dst) = push_range src i j k dst"
  using assms
proof (induction k arbitrary: i j dst)
  case 0
  have "prefill src i j 0 dst = dst" by (rule BTreeNode.equality) (auto simp: prefill_def fun_eq_iff)
  then show ?case by simp
next
  case (Suc k)
  let ?d = "prefill src i j (Suc k) dst"
  have room: "room dst (copy_len (n_prefix_length dst) src i + copies_len (n_prefix_length dst) src (i + 1) k)"
    using Suc.prems(1) by (simp add: copies_len_Suc)
  have "move_entry src i j ?d = push_copy src i j ?d"
    using push_copy_room(2) [OF room] Suc.prems(2) Suc.prems(3) [of 0] unfolding push_copy_def
    by (intro move_entry_push) (simp_all add: copy_len_def room_def prefill_def)
  also have "\<dots> = prefill src (i + 1) (j + 1) k (push_copy src i j dst)" by (rule prefill_push_copy)
  finally show ?case
    using Suc.IH [of "push_copy src i j dst" "i + 1" "j + 1"] push_copy_room(1) [OF room] Suc.prems(2) Suc.prems(3) [of "Suc m" for m]
    by simp
qed

lemma copyKeyValueRange_push_range:
  assumes "room dst (copies_len (n_prefix_length dst) src i k)"
    and "\<And>m. m < k \<Longrightarrow> n_prefix_length dst \<le> length (copyFullKey src (i + m))"
    and "\<And>m. m < k \<Longrightarrow> s_head (n_slot src (i + m)) = head (getKey src (i + m))"
    and "n_count dst + k < 65536"
  shows "copyKeyValueRange src dst j i k = (push_range src i j k dst)\<lparr>n_count := n_count dst + k\<rparr>"
proof -
  have count: "n_count (push_range src i j k dst) = n_count dst"
    by (induction k arbitrary: i j dst) (simp_all add: push_copy_def)
  then have "to_u16 (int (n_count (push_range src i j k dst)) + int k) = n_count dst + k" using assms(4) by simp
  then show ?thesis
    using slow_loop_push_range [OF assms(1,2), of j] fast_loop_push_range [OF assms(1) _ assms(3), of j]
    unfolding copyKeyValueRange_def Let_def prefill_def by auto
qed

text \<open>Nodes that agree on everything but the slots, the heap and its size.\<close>

definition same_frame :: "BTreeNode \<Rightarrow> BTreeNode \<Rightarrow> bool" where
  "same_frame a b \<longleftrightarrow>
     n_upper b = n_upper a \<and> n_upper_pending_lsn b = n_upper_pending_lsn a \<and> n_is_leaf b = n_is_leaf a \<and>
     n_lower_fence b = n_lower_fence a \<and> n_upper_fence b = n_upper_fence a \<and>
     n_prefix_length b = n_prefix_length a \<and> n_has_garbage b = n_has_garbage a \<and>
     getLowerFenceKey b = getLowerFenceKey a \<and> getUpperFenceKey b = getUpperFenceKey a \<and> getPrefix b = getPrefix a"

lemma same_frame_refl [simp]: "same_frame a a"
  by (simp add: same_frame_def)

lemma same_frame_trans: "same_frame a b \<Longrightarrow> same_frame b c \<Longrightarrow> same_frame a c"
  by (simp add: same_frame_def)

definition base_ok :: "chunk set \<Rightarrow> BTreeNode \<Rightarrow> bool" where
  "base_ok I n \<longleftrightarrow> chunks_ok I n \<and> fence_chunks n \<subseteq> I \<and> (isLowerFenceInfinity n \<longrightarrow> n_prefix_length n = 0)"

lemma push_entry_frame:
  assumes "base_ok I n" "room n (length bs)"
  shows "same_frame n (push_entry s e bs n)"
proof -
  have low: "n_data_offset n \<le> f_offset (n_lower_fence n)" if "\<not> isLowerFenceInfinity n"
    using assms(1) that chunks_okD(4) [of I n Lower_fence] by (auto simp: base_ok_def fence_chunks_def)
  have upp: "n_data_offset n \<le> f_offset (n_upper_fence n)" if "\<not> isUpperFenceInfinity n"
    using assms(1) that chunks_okD(4) [of I n Upper_fence] by (auto simp: base_ok_def fence_chunks_def split: if_splits)
  have "getPrefix (push_entry s e bs n) = getPrefix n"
    using low assms by (cases "isLowerFenceInfinity n") (simp_all add: getPrefix_def base_ok_def rd_push_entry room_def)
  then show ?thesis using low upp assms(2) unfolding same_frame_def
    by (simp add: getLowerFenceKey_def getUpperFenceKey_def isLowerFenceInfinity_def isUpperFenceInfinity_def
        rd_push_entry room_def)
qed

lemma push_entry_base:
  assumes "base_ok I n" "Entry_of s \<notin> I" "room n (length bs)" "s_key_len e + s_payload_len e = length bs"
  shows "base_ok (insert (Entry_of s) I) (push_entry s e bs n)"
  using assms push_entry_chunks [of I n s bs e]
  by (auto simp: base_ok_def fence_chunks_def isLowerFenceInfinity_def isUpperFenceInfinity_def)

text \<open>
  What copying \<open>k\<close> entries to the slots from \<open>j\<close> on does to a node whose slots below
  \<open>j\<close> are in use.
\<close>

definition used_upto :: "nat \<Rightarrow> BTreeNode \<Rightarrow> chunk set" where
  "used_upto j n = fence_chunks n \<union> Entry_of ` {..<j}"

definition copied :: "BTreeNode \<Rightarrow> nat \<Rightarrow> nat \<Rightarrow> nat \<Rightarrow> BTreeNode \<Rightarrow> BTreeNode \<Rightarrow> bool" where
  "copied src i j k dst n \<longleftrightarrow>
     base_ok (used_upto (j + k) n) n \<and> same_frame dst n \<and> n_count n = n_count dst \<and> n_hint n = n_hint dst \<and>
     n_data_offset n = n_data_offset dst - copies_len (n_prefix_length dst) src i k \<and>
     n_space_used n = n_space_used dst + copies_len (n_prefix_length dst) src i k \<and>
     (\<forall>m<j. entry_at n m = entry_at dst m \<and> getKey n m = getKey dst m \<and> n_slot n m = n_slot dst m) \<and>
     (\<forall>m<k. entry_at n (j + m) = entry_at src (i + m) \<and> s_head (n_slot n (j + m)) = head (getKey n (j + m)))"

lemma used_upto_frame: "same_frame a b \<Longrightarrow> used_upto j b = used_upto j a"
  by (simp add: used_upto_def fence_chunks_def same_frame_def isLowerFenceInfinity_def isUpperFenceInfinity_def)

lemma used_upto_Suc: "used_upto (Suc j) n = insert (Entry_of j) (used_upto j n)"
  by (auto simp: used_upto_def lessThan_Suc)

lemma Entry_of_used_upto [simp]: "Entry_of i \<in> used_upto j n \<longleftrightarrow> i < j"
  by (auto simp: used_upto_def fence_chunks_def)

lemma push_copy_spec:
  assumes base: "base_ok (used_upto j dst) dst" and room: "room dst (copy_len (n_prefix_length dst) src i)"
    and pre: "n_prefix_length dst \<le> length (copyFullKey src i)"
      "take (n_prefix_length dst) (copyFullKey src i) = getPrefix dst"
  shows "copied src i j 1 dst (push_copy src i j dst)"
proof -
  let ?pl = "n_prefix_length dst" and ?k = "drop (n_prefix_length dst) (copyFullKey src i)"
  let ?e = "entry_slot ?pl (copyFullKey src i) (length (getPayload src i)) (isFrozen src i)"
  let ?n = "push_copy src i j dst"
  have L: "length (?k @ getPayload src i) = copy_len ?pl src i" by (simp add: copy_len_def)
  have e: "s_key_len ?e = length ?k" "s_payload_len ?e = length (getPayload src i)" by (simp_all add: entry_slot_def)
  have r: "room dst (length (?k @ getPayload src i))" using room L by simp
  have frame: "same_frame dst ?n" unfolding push_copy_def by (rule push_entry_frame [OF base r])
  have "base_ok (insert (Entry_of j) (used_upto j dst)) ?n" unfolding push_copy_def
    by (rule push_entry_base [OF base _ r]) (use e in simp_all)
  then have b: "base_ok (used_upto (Suc j) ?n) ?n" by (simp add: used_upto_frame [OF frame] used_upto_Suc)
  have old: "entry_at ?n m = entry_at dst m \<and> getKey ?n m = getKey dst m \<and> n_slot ?n m = n_slot dst m" if "m < j" for m
    using push_entry_other [OF _ r, of "used_upto j dst" m j ?e] base that frame
    by (simp add: push_copy_def base_ok_def entry_at_def copyFullKey_def same_frame_def)
  have new: "getKey ?n j = ?k" "getPayload ?n j = getPayload src i" "isFrozen ?n j = isFrozen src i"
    unfolding push_copy_def using push_entry_new [OF e] by (simp_all add: entry_slot_def)
  have "copyFullKey src i = getPrefix ?n @ ?k" using pre(2) frame unfolding same_frame_def by (metis append_take_drop_id)
  then have "entry_at ?n j = entry_at src i" by (simp add: entry_at_def copyFullKey_def [of ?n] new)
  moreover have "s_head (n_slot ?n j) = head (getKey ?n j)" unfolding new by (simp add: push_copy_def entry_slot_def)
  moreover have "copies_len ?pl src i 1 = copy_len ?pl src i" by (simp add: copies_len_def)
  ultimately show ?thesis using b frame old r L unfolding copied_def by (simp add: push_copy_def room_def)
qed

lemma push_range_spec:
  assumes "base_ok (used_upto j dst) dst" "room dst (copies_len (n_prefix_length dst) src i k)"
    and "\<And>m. m < k \<Longrightarrow> n_prefix_length dst \<le> length (copyFullKey src (i + m)) \<and>
      take (n_prefix_length dst) (copyFullKey src (i + m)) = getPrefix dst"
  shows "copied src i j k dst (push_range src i j k dst)"
  using assms
proof (induction k arbitrary: i j dst)
  case 0
  then show ?case by (simp add: copied_def)
next
  case (Suc k)
  let ?d = "push_copy src i j dst" and ?pl = "n_prefix_length dst"
  have room: "room dst (copy_len ?pl src i + copies_len ?pl src (i + 1) k)"
    using Suc.prems(2) by (simp add: copies_len_Suc)
  have one: "copied src i j 1 dst ?d"
    using push_copy_spec [OF Suc.prems(1) push_copy_room(2) [OF room]] Suc.prems(3) [of 0] by simp
  then have frame: "same_frame dst ?d" and base: "base_ok (used_upto (j + 1) ?d) ?d" by (simp_all add: copied_def)
  have IH: "copied src (i + 1) (j + 1) k ?d (push_range src (i + 1) (j + 1) k ?d)"
    using Suc.IH [OF base] push_copy_room(1) [OF room] frame Suc.prems(3) [of "Suc m" for m] by (simp add: same_frame_def)
  let ?n = "push_range src (i + 1) (j + 1) k ?d"
  have "copies_len ?pl src i 1 = copy_len ?pl src i" by (simp add: copies_len_def)
  moreover have "entry_at ?n (j + m) = entry_at src (i + m) \<and> s_head (n_slot ?n (j + m)) = head (getKey ?n (j + m))"
    if "m < Suc k" for m
  proof (cases m)
    case 0
    then show ?thesis using one IH unfolding copied_def by simp
  next
    case (Suc m')
    then show ?thesis using IH that unfolding copied_def by simp
  qed
  moreover have "entry_at ?n m = entry_at dst m \<and> getKey ?n m = getKey dst m \<and> n_slot ?n m = n_slot dst m" if "m < j" for m
    using one IH that unfolding copied_def by simp
  moreover have "same_frame dst ?n" using frame IH same_frame_trans unfolding copied_def by blast
  ultimately show ?case using one IH unfolding copied_def by (simp add: copies_len_Suc)
qed

section \<open>Fences\<close>

lemma common_length:
  "common_length a b \<le> length a" "common_length a b \<le> length b"
  "take (common_length a b) a = take (common_length a b) b"
proof -
  have s: "common_length a b \<le> min (length a) (length b)" "i < common_length a b \<Longrightarrow> a ! i = b ! i" for i
    using scan_spec [of 0 "min (length a) (length b)" "\<lambda>i. a ! i \<noteq> b ! i"] unfolding common_length_def by auto
  then show "common_length a b \<le> length a" "common_length a b \<le> length b" by simp_all
  show "take (common_length a b) a = take (common_length a b) b"
    using s by (intro nth_equalityI) auto
qed

lemma between_prefix:
  fixes l u k :: key
  assumes "l < k" "k \<le> u" "p \<le> length l" "p \<le> length u" "take p l = take p u"
  shows "p \<le> length k \<and> take p k = take p l"
  using assms
proof (induction p arbitrary: l u k)
  case (Suc p)
  obtain x l' where l: "l = x # l'" using Suc.prems(3) by (cases l) simp_all
  moreover obtain x' u' where "u = x' # u'" using Suc.prems(4) by (cases u) simp_all
  ultimately have l: "l = x # l'" "u = x # u'" using Suc.prems(5) by simp_all
  obtain y k' where k: "k = y # k'" using Suc.prems(1) by (cases k) auto
  have "y = x" "l' < k'" "k' \<le> u'" using Suc.prems(1,2) unfolding l k by auto
  then show ?case using Suc.IH [of l' k' u'] Suc.prems unfolding l k by simp
qed simp

lemma in_fences_prefix:
  assumes "in_fences l u k"
  shows "prefix_for f l u \<le> length k" "take (prefix_for f l u) k = take (prefix_for f l u) (fence_bytes l)"
proof -
  have "prefix_for f l u \<le> length k \<and> take (prefix_for f l u) k = take (prefix_for f l u) (fence_bytes l)"
  proof (cases "prefix_for f l u = 0")
    case False
    then have c: "prefix_for f l u = common_length (fence_bytes l) (fence_bytes u)" by (simp add: prefix_for_def split: if_splits)
    then obtain lk uk where lu: "l = Some lk" "u = Some uk"
      using False common_length [of "fence_bytes l" "fence_bytes u"] by (cases l; cases u) (auto simp: fence_bytes_def)
    then show ?thesis using between_prefix [of lk k uk "common_length lk uk"] assms common_length [of lk uk] c
      by (simp add: in_fences_def fence_bytes_def)
  qed simp
  then show "prefix_for f l u \<le> length k" "take (prefix_for f l u) k = take (prefix_for f l u) (fence_bytes l)" by blast+
qed

definition fences_len :: "key option \<Rightarrow> key option \<Rightarrow> nat" where
  "fences_len l u = length (fence_bytes l) + length (fence_bytes u)"

definition fresh :: "flags \<Rightarrow> key option \<Rightarrow> key option \<Rightarrow> bool \<Rightarrow> BTreeNode \<Rightarrow> bool" where
  "fresh f l u leaf n \<longleftrightarrow>
     base_ok (used_upto 0 n) n \<and> getLowerFenceKey n = l \<and> getUpperFenceKey n = u \<and>
     f_length (n_lower_fence n) = length (fence_bytes l) \<and> f_length (n_upper_fence n) = length (fence_bytes u) \<and>
     n_prefix_length n = prefix_for f l u \<and> getPrefix n = take (prefix_for f l u) (fence_bytes l) \<and>
     n_count n = 0 \<and> n_is_leaf n = leaf \<and> n_upper n = 0 \<and> \<not> n_has_garbage n \<and>
     n_data_offset n = EFFECTIVE_PAGE_SIZE - fences_len l u \<and> n_space_used n = fences_len l u"

lemma insertFence_Some:
  assumes "n_data_offset n + n_space_used n \<le> EFFECTIVE_PAGE_SIZE" "length k \<le> n_data_offset n"
  shows "insertFence fk (Some k) n =
    (\<lparr>f_offset = n_data_offset n - length k, f_length = length k\<rparr>,
     n\<lparr>n_data_offset := n_data_offset n - length k, n_space_used := n_space_used n + length k,
       n_mem := wr (n_mem n) (n_data_offset n - length k) k\<rparr>)"
proof -
  have "to_u16 (int (n_data_offset n) - int (length k)) = n_data_offset n - length k"
    "to_u16 (int (n_space_used n) + int (length k)) = n_space_used n + length k"
    using assms EPS_less [OF assms(1)] by simp_all
  then show ?thesis by (simp add: insertFence_def Let_def)
qed

lemma setFences_new:
  assumes len: "fences_len l u < EFFECTIVE_PAGE_SIZE"
  shows "fresh f l u leaf (setFences f l u (BTreeNode_new leaf g))"
proof -
  let ?E = EFFECTIVE_PAGE_SIZE and ?ll = "length (fence_bytes l)" and ?lu = "length (fence_bytes u)"
  let ?g = "BTreeNode_new leaf g"
  have E: "to_u16 (int ?E) = ?E" by (simp add: EFFECTIVE_PAGE_SIZE_def)
  have lt: "?ll + ?lu < ?E" using len by (simp add: fences_len_def)
  define n1 where "n1 = ?g\<lparr>n_data_offset := ?E - ?ll, n_space_used := ?ll,
    n_mem := (if l = None then n_mem g else wr (n_mem g) (?E - ?ll) (fence_bytes l)),
    n_lower_fence := (if l = None then \<lparr>f_offset = 0, f_length = 0\<rparr> else \<lparr>f_offset = ?E - ?ll, f_length = ?ll\<rparr>)\<rparr>"
  define n2 where "n2 = n1\<lparr>n_data_offset := ?E - ?ll - ?lu, n_space_used := ?ll + ?lu,
    n_mem := (if u = None then n_mem n1 else wr (n_mem n1) (?E - ?ll - ?lu) (fence_bytes u)),
    n_upper_fence := (if u = None then \<lparr>f_offset = 0, f_length = 0\<rparr> else \<lparr>f_offset = ?E - ?ll - ?lu, f_length = ?lu\<rparr>),
    n_prefix_length := prefix_for f l u\<rparr>"
  have i1: "(let (lf, n) = insertFence (n_lower_fence ?g) l ?g in n\<lparr>n_lower_fence := lf\<rparr>) = n1"
  proof (cases l)
    case None
    then show ?thesis by (intro BTreeNode.equality) (simp_all add: insertFence_def n1_def BTreeNode_new_def fence_bytes_def E)
  next
    case (Some k)
    then have "insertFence (n_lower_fence ?g) (Some k) ?g = (\<lparr>f_offset = ?E - length k, f_length = length k\<rparr>,
       ?g\<lparr>n_data_offset := ?E - length k, n_space_used := length k, n_mem := wr (n_mem g) (?E - length k) k\<rparr>)"
      using lt by (subst insertFence_Some) (simp_all add: BTreeNode_new_def E fence_bytes_def)
    then show ?thesis using Some by (simp add: n1_def fence_bytes_def)
  qed
  have i2: "(let (uf, n) = insertFence (n_upper_fence n1) u n1 in n\<lparr>n_upper_fence := uf, n_prefix_length := prefix_for f l u\<rparr>) = n2"
  proof (cases u)
    case None
    then show ?thesis by (intro BTreeNode.equality) (simp_all add: insertFence_def n2_def n1_def BTreeNode_new_def fence_bytes_def E)
  next
    case (Some k)
    then have "insertFence (n_upper_fence n1) (Some k) n1 = (\<lparr>f_offset = ?E - ?ll - length k, f_length = length k\<rparr>,
       n1\<lparr>n_data_offset := ?E - ?ll - length k, n_space_used := ?ll + length k, n_mem := wr (n_mem n1) (?E - ?ll - length k) k\<rparr>)"
      using lt by (subst insertFence_Some) (simp_all add: n1_def fence_bytes_def)
    then show ?thesis using Some by (simp add: n2_def fence_bytes_def)
  qed
  have "n_upper_fence (snd (insertFence (n_lower_fence ?g) l ?g)) = n_upper_fence n1"
    using arg_cong [OF i1, of n_upper_fence] by (simp add: split_def Let_def)
  then have set: "setFences f l u ?g = n2"
    using i1 i2 unfolding setFences_def prefix_for_def by (simp add: Let_def split_def)
  have low: "isLowerFenceInfinity n2 \<longleftrightarrow> l = None" and upp: "isUpperFenceInfinity n2 \<longleftrightarrow> u = None"
    using lt by (simp_all add: isLowerFenceInfinity_def isUpperFenceInfinity_def n2_def n1_def)
  have mem_l: "rd (n_mem n2) (?E - ?ll) ?ll = fence_bytes l" if "l \<noteq> None"
  proof -
    have "rd (n_mem n2) (?E - ?ll) ?ll = rd (n_mem n1) (?E - ?ll) ?ll"
      using lt by (simp add: n2_def rd_wr_disjoint)
    then show ?thesis using that by (simp add: n1_def rd_wr_same)
  qed
  have mem_u: "rd (n_mem n2) (?E - ?ll - ?lu) ?lu = fence_bytes u" if "u \<noteq> None"
    using that by (cases u) (simp_all add: n2_def rd_wr_same)
  have lk: "getLowerFenceKey n2 = l" using low mem_l
    by (cases l) (auto simp: getLowerFenceKey_def isLowerFenceInfinity_def n2_def n1_def fence_bytes_def)
  have uk: "getUpperFenceKey n2 = u" using upp mem_u
    by (cases u) (auto simp: getUpperFenceKey_def isUpperFenceInfinity_def n2_def fence_bytes_def)
  have pl: "prefix_for f l u \<le> ?ll" using common_length(1) by (simp add: prefix_for_def)
  have pre: "getPrefix n2 = take (prefix_for f l u) (fence_bytes l)"
  proof (cases "l = None")
    case True
    then have "n_prefix_length n2 = 0" using pl by (simp add: n2_def fence_bytes_def)
    then show ?thesis using True pl by (simp add: getPrefix_def fence_bytes_def)
  next
    case False
    then have "f_offset (n_lower_fence n2) = ?E - ?ll" "n_prefix_length n2 = prefix_for f l u"
      by (cases l; simp add: n2_def n1_def)+
    then have "getPrefix n2 = rd (n_mem n2) (?E - ?ll) (prefix_for f l u)" by (simp add: getPrefix_def)
    then show ?thesis using take_rd [OF pl, of "n_mem n2" "?E - ?ll"] mem_l [OF False] by simp
  qed
  have "chunks_ok (fence_chunks n2) n2"
    using lt low upp unfolding chunks_ok_def fence_chunks_def
    by (auto simp: n2_def n1_def fence_bytes_def)
  then have "base_ok (used_upto 0 n2) n2"
    using pl low by (auto simp: base_ok_def used_upto_def fence_bytes_def n2_def)
  moreover have "f_length (n_lower_fence n2) = ?ll" "f_length (n_upper_fence n2) = ?lu"
    by (simp_all add: n2_def n1_def fence_bytes_def)
  ultimately show ?thesis unfolding set fresh_def using lk uk pre
    by (simp add: n2_def n1_def BTreeNode_new_def fences_len_def)
qed

section \<open>Building a node\<close>

text \<open>Only the hints change.\<close>

lemma set_hints_same [simp]:
  "n_upper (set_hints b n) = n_upper n" "n_upper_pending_lsn (set_hints b n) = n_upper_pending_lsn n"
  "n_lower_fence (set_hints b n) = n_lower_fence n" "n_upper_fence (set_hints b n) = n_upper_fence n"
  "n_count (set_hints b n) = n_count n" "n_is_leaf (set_hints b n) = n_is_leaf n"
  "n_space_used (set_hints b n) = n_space_used n" "n_data_offset (set_hints b n) = n_data_offset n"
  "n_prefix_length (set_hints b n) = n_prefix_length n" "n_has_garbage (set_hints b n) = n_has_garbage n"
  "n_slot (set_hints b n) = n_slot n" "n_mem (set_hints b n) = n_mem n"
  by (simp_all add: set_hints_def)

text \<open>What does not depend on the hints, the upper swip and its LSNs and the garbage mark.\<close>

definition same_store :: "BTreeNode \<Rightarrow> BTreeNode \<Rightarrow> bool" where
  "same_store a b \<longleftrightarrow>
     n_lower_fence b = n_lower_fence a \<and> n_upper_fence b = n_upper_fence a \<and> n_count b = n_count a \<and>
     n_space_used b = n_space_used a \<and> n_data_offset b = n_data_offset a \<and>
     n_prefix_length b = n_prefix_length a \<and> n_slot b = n_slot a \<and> n_mem b = n_mem a"

lemma same_store_reads:
  assumes "same_store a b"
  shows "getKey b = getKey a" "getPayload b = getPayload a" "isFrozen b = isFrozen a" "entry_at b = entry_at a"
    "entries b = entries a" "full_keys b = full_keys a" "getPrefix b = getPrefix a"
    "getLowerFenceKey b = getLowerFenceKey a" "getUpperFenceKey b = getUpperFenceKey a"
    "layout_ok f b = layout_ok f a" "getChild b = getChild a" "payload_at b = payload_at a"
proof -
  note s = assms [unfolded same_store_def]
  show k: "getKey b = getKey a" using s by (intro ext) (simp add: getKey_def)
  show pa: "payload_at b = payload_at a" using s by (intro ext) (simp add: payload_at_def)
  show p: "getPayload b = getPayload a" using s pa by (intro ext) (simp add: getPayload_def)
  show f: "isFrozen b = isFrozen a" using s by (intro ext) (simp add: isFrozen_def)
  show pre: "getPrefix b = getPrefix a" using s by (simp add: getPrefix_def)
  show e: "entry_at b = entry_at a" using k p f pre by (intro ext) (simp add: entry_at_def copyFullKey_def)
  show "entries b = entries a" using e s by (simp add: entries_def)
  show "full_keys b = full_keys a" using k pre s by (simp add: full_keys_def copyFullKey_def)
  show lf: "getLowerFenceKey b = getLowerFenceKey a" using s by (simp add: getLowerFenceKey_def)
  show uf: "getUpperFenceKey b = getUpperFenceKey a" using s by (simp add: getUpperFenceKey_def)
  have ol: "off b = off a" "len b = len a" using s by (auto simp: off_def len_def split: chunk.splits)
  show "layout_ok f b = layout_ok f a"
    using s ol lf uf by (simp add: layout_ok_def chunks_ok_def chunks_def fence_chunks_def isLowerFenceInfinity_def isUpperFenceInfinity_def)
  show "getChild b = getChild a" using s pa by (intro ext) (simp add: getChild_def)
qed

lemma same_store_set_hints [simp]: "same_store n (set_hints b n)"
  by (simp add: same_store_def)

lemma same_store_setUpper [simp]: "same_store n (setUpper s l n)"
  by (simp add: same_store_def setUpper_def)

lemma full_keys_entries: "full_keys n = map fst (entries n)"
  by (simp add: full_keys_def entries_def entry_at_def comp_def)

definition heads_ok :: "BTreeNode \<Rightarrow> bool" where
  "heads_ok n \<longleftrightarrow> (\<forall>i<n_count n. s_head (n_slot n i) = head (getKey n i))"

lemma search_ok_iff: "search_ok n \<longleftrightarrow> sorted_wrt (<) (full_keys n) \<and> heads_ok n \<and> hints_ok n"
proof -
  have "sorted_wrt (<) (full_keys n) \<longleftrightarrow> (\<forall>i j. i < j \<longrightarrow> j < n_count n \<longrightarrow> getKey n i < getKey n j)"
    by (simp add: sorted_wrt_iff_nth_less full_keys_def copyFullKey_def key_append_less)
  then show ?thesis unfolding search_ok_def heads_ok_def by blast
qed

lemma hints_ok_makeHint: "hints_ok (makeHint n)"
  by (simp add: hints_ok_def makeHint_def set_hints_def hint_dist_def)

text \<open>The invariant with the hints left out.\<close>

definition shape_ok :: "flags \<Rightarrow> BTreeNode \<Rightarrow> bool" where
  "shape_ok f n \<longleftrightarrow> layout_ok f n \<and> sorted_wrt (<) (full_keys n) \<and> heads_ok n \<and>
     (\<forall>k\<in>set (full_keys n). in_fences (getLowerFenceKey n) (getUpperFenceKey n) k)"

lemma node_ok_iff: "node_ok f n \<longleftrightarrow> shape_ok f n \<and> hints_ok n"
  by (auto simp: node_ok_def shape_ok_def search_ok_iff)

lemma shape_ok_same_store:
  assumes "same_store a b"
  shows "shape_ok f b = shape_ok f a"
proof -
  have "n_slot b = n_slot a" "n_count b = n_count a" using assms by (simp_all add: same_store_def)
  then show ?thesis by (simp add: shape_ok_def same_store_reads [OF assms] heads_ok_def)
qed

lemma node_ok_makeHint: "shape_ok f n \<Longrightarrow> node_ok f (makeHint n)"
  unfolding node_ok_iff using hints_ok_makeHint shape_ok_same_store [of n "makeHint n" f]
  by (simp add: makeHint_def)

lemma base_ok_layout:
  assumes "base_ok (used_upto (n_count n) n) n" "slot_end (n_count n) \<le> n_data_offset n"
    and "getLowerFenceKey n = l" "getUpperFenceKey n = u"
    and "f_length (n_lower_fence n) = length (fence_bytes l)" "f_length (n_upper_fence n) = length (fence_bytes u)"
    and "n_prefix_length n = prefix_for f l u"
  shows "layout_ok f n"
  using assms unfolding layout_ok_def base_ok_def chunks_def used_upto_def
  by (auto simp: getLowerFenceKey_def getUpperFenceKey_def isLowerFenceInfinity_def isUpperFenceInfinity_def fence_bytes_def)

lemma layout_base_ok: "layout_ok f n \<Longrightarrow> base_ok (used_upto (n_count n) n) n"
proof -
  assume ok: "layout_ok f n"
  have "n_prefix_length n = 0" if "isLowerFenceInfinity n"
    using ok that common_length(1) [of "[]"] unfolding layout_ok_def
    by (simp add: prefix_for_def getLowerFenceKey_def isLowerFenceInfinity_def fence_bytes_def)
  then show ?thesis using ok by (simp add: base_ok_def layout_ok_def chunks_def used_upto_def)
qed

lemma layout_prefix:
  assumes "layout_ok f n"
  shows "getPrefix n = take (n_prefix_length n) (fence_bytes (getLowerFenceKey n))"
proof (cases "isLowerFenceInfinity n")
  case True
  then have "n_prefix_length n = 0" using layout_base_ok [OF assms] by (simp add: base_ok_def)
  then show ?thesis by (simp add: getPrefix_def)
next
  case False
  then have l: "fence_bytes (getLowerFenceKey n) = rd (n_mem n) (f_offset (n_lower_fence n)) (f_length (n_lower_fence n))"
    by (simp add: getLowerFenceKey_def isLowerFenceInfinity_def fence_bytes_def)
  have "n_prefix_length n \<le> length (fence_bytes (getLowerFenceKey n))"
    using assms common_length(1) unfolding layout_ok_def prefix_for_def by auto
  then show ?thesis unfolding l by (simp add: take_rd getPrefix_def)
qed

end
