(* ===== verification/BTree_Insert.thy ===== *)
theory BTree_Insert
  imports BTree_Update
begin

text \<open>
  Compaction, insertion and removal keep the invariant of the node and change the list of its
  entries as expected.
\<close>

section \<open>Nodes under construction\<close>

definition entry_len :: "nat \<Rightarrow> key \<times> u8 list \<times> bool \<Rightarrow> nat" where
  "entry_len pl e = length (fst e) - pl + length (fst (snd e))"

definition entries_len :: "nat \<Rightarrow> (key \<times> u8 list \<times> bool) list \<Rightarrow> nat" where
  "entries_len pl es = sum_list (map (entry_len pl) es)"

text \<open>
  \<open>built f l u leaf es n\<close>: the node has the fences \<open>l\<close> and \<open>u\<close> and the entries \<open>es\<close>,
  packed at the end of the page in the order they were added.
\<close>

definition built :: "flags \<Rightarrow> key option \<Rightarrow> key option \<Rightarrow> bool \<Rightarrow> (key \<times> u8 list \<times> bool) list \<Rightarrow> BTreeNode \<Rightarrow> bool" where
  "built f l u leaf es n \<longleftrightarrow>
     base_ok (used_upto (length es) n) n \<and> getLowerFenceKey n = l \<and> getUpperFenceKey n = u \<and>
     f_length (n_lower_fence n) = length (fence_bytes l) \<and> f_length (n_upper_fence n) = length (fence_bytes u) \<and>
     n_prefix_length n = prefix_for f l u \<and> getPrefix n = take (prefix_for f l u) (fence_bytes l) \<and>
     n_count n = length es \<and> n_is_leaf n = leaf \<and> entries n = es \<and> heads_ok n \<and>
     n_space_used n = fences_len l u + entries_len (prefix_for f l u) es \<and>
     n_data_offset n = EFFECTIVE_PAGE_SIZE - n_space_used n"

lemma entries_len_simps [simp]:
  "entries_len pl [] = 0" "entries_len pl (e # es) = entry_len pl e + entries_len pl es"
  "entries_len pl (es @ es') = entries_len pl es + entries_len pl es'"
  by (simp_all add: entries_len_def)

lemma fresh_built: "fresh f l u leaf n \<Longrightarrow> built f l u leaf [] n"
  by (auto simp: fresh_def built_def entries_def heads_ok_def)

lemma copies_len_entries: "copies_len pl src i k = entries_len pl (map (entry_at src) [i..<i + k])"
proof (induction k arbitrary: i)
  case (Suc k)
  have "[i..<i + Suc k] = i # [i + 1..<i + 1 + k]" by (simp add: upt_conv_Cons)
  then show ?case using Suc [of "i + 1"]
    by (simp only: copies_len_Suc) (simp add: copy_len_def entry_len_def entry_at_def)
qed simp

lemma built_room:
  assumes "built f l u leaf es n" "fences_len l u + entries_len (prefix_for f l u) es + L \<le> EFFECTIVE_PAGE_SIZE"
  shows "room n L"
  using assms by (simp add: built_def room_def)

lemma in_fences_built:
  assumes "built f l u leaf es n" "in_fences l u k"
  shows "n_prefix_length n \<le> length k \<and> take (n_prefix_length n) k = getPrefix n"
  using assms in_fences_prefix [OF assms(2), of f] by (simp add: built_def)

text \<open>Copying a range of another node's entries appends them.\<close>

lemma built_copy:
  assumes b: "built f l u leaf es dst"
    and fit: "fences_len l u + entries_len (prefix_for f l u) (es @ map (entry_at src) [i..<i + k]) \<le> EFFECTIVE_PAGE_SIZE"
    and src: "\<And>m. i \<le> m \<Longrightarrow> m < i + k \<Longrightarrow> in_fences l u (copyFullKey src m)"
      "\<And>m. i \<le> m \<Longrightarrow> m < i + k \<Longrightarrow> s_head (n_slot src m) = head (getKey src m)"
    and small: "length es + k < 65536"
  defines "n \<equiv> copyKeyValueRange src dst (length es) i k"
  shows "built f l u leaf (es @ map (entry_at src) [i..<i + k]) n"
    "n_upper n = n_upper dst" "n_upper_pending_lsn n = n_upper_pending_lsn dst" "n_has_garbage n = n_has_garbage dst"
proof -
  let ?pl = "n_prefix_length dst" and ?r = "push_range src i (length es) k dst"
  have pl: "?pl = prefix_for f l u" and cnt: "n_count dst = length es" using b by (simp_all add: built_def)
  have room: "room dst (copies_len ?pl src i k)"
    using built_room [OF b] fit by (simp add: copies_len_entries pl add.assoc)
  have pre: "?pl \<le> length (copyFullKey src (i + m)) \<and> take ?pl (copyFullKey src (i + m)) = getPrefix dst" if "m < k" for m
    using in_fences_built [OF b src(1) [of "i + m"]] that by simp
  have n: "n = ?r\<lparr>n_count := length es + k\<rparr>"
    unfolding n_def using copyKeyValueRange_push_range [OF room, of "length es"] pre src(2) small cnt by simp
  have c: "copied src i (length es) k dst ?r"
    using push_range_spec [OF _ room, of "length es"] b pre by (simp add: built_def)
  then have fr: "same_frame dst ?r" by (simp add: copied_def)
  have rd: "getKey n = getKey ?r" "entry_at n = entry_at ?r" "used_upto j n = used_upto j ?r"
    "base_ok I n = base_ok I ?r" "getPrefix n = getPrefix ?r" "getLowerFenceKey n = getLowerFenceKey ?r"
    "getUpperFenceKey n = getUpperFenceKey ?r" for j I
    unfolding n by (auto simp: fun_eq_iff getKey_def entry_at_def copyFullKey_def getPrefix_def getPayload_def payload_at_def
        isFrozen_def used_upto_def fence_chunks_def isLowerFenceInfinity_def isUpperFenceInfinity_def base_ok_def chunks_ok_def
        off_def len_def getLowerFenceKey_def getUpperFenceKey_def cong: chunk.case_cong)
  have "entries n = map (entry_at ?r) [0..<length es] @ map (entry_at ?r) [length es..<length es + k]"
    unfolding entries_def rd using upt_add_eq_append [of 0 "length es" k] n by simp
  also have "map (entry_at ?r) [0..<length es] = map (entry_at dst) [0..<length es]" using c by (simp add: copied_def)
  also have "\<dots> = es" using b cnt by (simp add: built_def entries_def)
  also have "map (entry_at ?r) [length es..<length es + k] = map (entry_at src) [i..<i + k]"
    using c by (intro nth_equalityI) (simp_all add: copied_def)
  finally have ent: "entries n = es @ map (entry_at src) [i..<i + k]" .
  have "s_head (n_slot n m) = head (getKey n m)" if "m < length es + k" for m
  proof (cases "m < length es")
    case True
    then show ?thesis using b c cnt n rd(1) by (simp add: copied_def built_def heads_ok_def)
  next
    case False
    then have m': "length es + (m - length es) = m" "m - length es < k" using that by linarith+
    have "s_head (n_slot ?r (length es + (m - length es))) = head (getKey ?r (length es + (m - length es)))"
      using c m'(2) unfolding copied_def by blast
    then show ?thesis using n rd(1) by (simp add: m'(1))
  qed
  then have heads: "heads_ok n" using n by (simp add: heads_ok_def)
  have "n_space_used ?r = fences_len l u + entries_len (prefix_for f l u) (es @ map (entry_at src) [i..<i + k])"
    using c b by (simp add: copied_def built_def copies_len_entries)
  moreover have "n_data_offset ?r = EFFECTIVE_PAGE_SIZE - n_space_used ?r"
    using c b by (simp add: copied_def built_def)
  ultimately show "built f l u leaf (es @ map (entry_at src) [i..<i + k]) n"
    using b c fr ent heads rd unfolding built_def by (simp add: copied_def same_frame_def n)
  show "n_upper n = n_upper dst" "n_upper_pending_lsn n = n_upper_pending_lsn dst" "n_has_garbage n = n_has_garbage dst"
    using fr by (simp_all add: same_frame_def n)
qed

lemma built_shape:
  assumes "built f l u leaf es n" "sorted_wrt (<) (map fst es)" "\<And>k. k \<in> fst ` set es \<Longrightarrow> in_fences l u k"
    and "slot_end (length es) + fences_len l u + entries_len (prefix_for f l u) es \<le> EFFECTIVE_PAGE_SIZE"
  shows "shape_ok f n"
proof -
  have "layout_ok f n" using assms(1,4) by (intro base_ok_layout) (simp_all add: built_def)
  then show ?thesis using assms(1-3) by (simp add: shape_ok_def full_keys_entries built_def)
qed

section \<open>Space\<close>

lemma length_entries [simp]: "length (entries n) = n_count n"
  by (simp add: entries_def)

lemma layout_space:
  assumes "layout_ok f n"
  shows "n_space_used n = fences_len (getLowerFenceKey n) (getUpperFenceKey n) + entries_len (n_prefix_length n) (entries n)"
    "slot_end (n_count n) + n_space_used n \<le> EFFECTIVE_PAGE_SIZE"
    "slot_end (n_count n) \<le> n_data_offset n" "n_data_offset n \<le> EFFECTIVE_PAGE_SIZE"
proof -
  note L = assms [unfolded layout_ok_def]
  have ch: "chunks_ok (chunks n) n" using L by blast
  have fin: "finite (fence_chunks n)" "finite (Entry_of ` {..<n_count n})" by (auto simp: fence_chunks_def)
  have dis: "fence_chunks n \<inter> Entry_of ` {..<n_count n} = {}" by (auto simp: fence_chunks_def)
  have "sum (len n) (Entry_of ` {..<n_count n}) = (\<Sum>i<n_count n. len n (Entry_of i))"
    by (subst sum.reindex) (auto simp: inj_on_def)
  also have "\<dots> = entries_len (n_prefix_length n) (entries n)"
    unfolding entries_len_def entries_def map_map
    by (simp add: comp_def entry_len_def entry_at_def interv_sum_list_conv_sum_set_nat atLeast0LessThan)
  finally have es: "sum (len n) (Entry_of ` {..<n_count n}) = entries_len (n_prefix_length n) (entries n)" .
  have fs: "sum (len n) (fence_chunks n) = fences_len (getLowerFenceKey n) (getUpperFenceKey n)"
    by (auto simp: fence_chunks_def fences_len_def getLowerFenceKey_def getUpperFenceKey_def isLowerFenceInfinity_def
        isUpperFenceInfinity_def fence_bytes_def)
  show "n_space_used n = fences_len (getLowerFenceKey n) (getUpperFenceKey n) + entries_len (n_prefix_length n) (entries n)"
    using chunks_okD(2) [OF ch] sum.union_disjoint [OF fin dis, of "len n"] es fs by (simp add: chunks_def)
  show "slot_end (n_count n) + n_space_used n \<le> EFFECTIVE_PAGE_SIZE" "slot_end (n_count n) \<le> n_data_offset n"
    "n_data_offset n \<le> EFFECTIVE_PAGE_SIZE"
    using chunks_okD(3) [OF ch] L by linarith+
qed

lemma freeSpace_layout:
  assumes "layout_ok f n"
  shows "freeSpace n = n_data_offset n - slot_end (n_count n)"
    "freeSpaceAfterCompaction n = EFFECTIVE_PAGE_SIZE - slot_end (n_count n) - n_space_used n"
    "freeSpace n \<le> freeSpaceAfterCompaction n"
proof -
  note S = layout_space [OF assms]
  have ch: "n_data_offset n + n_space_used n \<le> EFFECTIVE_PAGE_SIZE" using assms chunks_okD(3) unfolding layout_ok_def by blast
  show fs: "freeSpace n = n_data_offset n - slot_end (n_count n)"
    unfolding freeSpace_def using S(3) EPS_less [OF S(4)] by (subst to_u16_id) linarith+
  show fc: "freeSpaceAfterCompaction n = EFFECTIVE_PAGE_SIZE - slot_end (n_count n) - n_space_used n"
    unfolding freeSpaceAfterCompaction_def using S(2) EPS_less [OF order_refl] by (subst to_u16_id) linarith+
  show "freeSpace n \<le> freeSpaceAfterCompaction n" unfolding fs fc using ch by linarith
qed

lemma count_less: "slot_end c \<le> EFFECTIVE_PAGE_SIZE \<Longrightarrow> c < 400"
  by (simp add: slot_end_def page_consts)

section \<open>Compaction\<close>

text \<open>What an operation keeps beside the entries.\<close>

definition same_node :: "BTreeNode \<Rightarrow> BTreeNode \<Rightarrow> bool" where
  "same_node a b \<longleftrightarrow>
     getLowerFenceKey b = getLowerFenceKey a \<and> getUpperFenceKey b = getUpperFenceKey a \<and>
     n_prefix_length b = n_prefix_length a \<and> n_is_leaf b = n_is_leaf a \<and> n_upper b = n_upper a \<and>
     (\<forall>i<unat (pendingLSNCount (n_upper a)). n_upper_pending_lsn b i = n_upper_pending_lsn a i)"

lemma same_node_refl [simp]: "same_node a a"
  by (simp add: same_node_def)

lemma same_node_trans: "same_node a b \<Longrightarrow> same_node b c \<Longrightarrow> same_node a c"
  by (simp add: same_node_def)

lemma entry_at_in_fences:
  "shape_ok f n \<Longrightarrow> i < n_count n \<Longrightarrow> in_fences (getLowerFenceKey n) (getUpperFenceKey n) (copyFullKey n i)"
  by (simp add: shape_ok_def full_keys_def)

lemma compactify_spec:
  fixes g :: BTreeNode
  assumes "shape_ok f n"
  defines "n' \<equiv> compactify f g n"
  shows "node_ok f n'" "entries n' = entries n" "same_node n n'" "n_count n' = n_count n"
    "n_space_used n' = n_space_used n" "n_data_offset n' = EFFECTIVE_PAGE_SIZE - n_space_used n"
    "\<not> n_has_garbage n'"
proof -
  let ?l = "getLowerFenceKey n" and ?u = "getUpperFenceKey n" and ?leaf = "n_is_leaf n"
  have lay: "layout_ok f n" using assms(1) by (simp add: shape_ok_def)
  note S = layout_space [OF lay]
  have pl: "n_prefix_length n = prefix_for f ?l ?u" using lay by (simp add: layout_ok_def)
  have cnt: "n_count n < 400" using S(3,4) by (intro count_less) simp
  have "0 < slot_end (n_count n)" by (simp add: slot_end_def slot_base_def)
  then have "fences_len ?l ?u < EFFECTIVE_PAGE_SIZE" using S(1,2) by linarith
  define t1 where "t1 = setFences f ?l ?u (BTreeNode_new ?leaf g)"
  define t2 where "t2 = copyKeyValueRange n t1 0 0 (n_count n)"
  have fr: "fresh f ?l ?u ?leaf t1" unfolding t1_def by (rule setFences_new) fact
  note b1 = fresh_built [OF fr]
  have fit: "fences_len ?l ?u + entries_len (prefix_for f ?l ?u) ([] @ map (entry_at n) [0..<0 + n_count n]) \<le> EFFECTIVE_PAGE_SIZE"
    using S(1,2) pl by (simp flip: entries_def)
  have heads: "s_head (n_slot n m) = head (getKey n m)" if "m < 0 + n_count n" for m
    using assms(1) that by (simp add: shape_ok_def heads_ok_def)
  have "length ([]::(key \<times> u8 list \<times> bool) list) + n_count n < 65536" using cnt by simp
  note bc = built_copy [OF b1 fit entry_at_in_fences [OF assms(1)] heads this]
  have b2: "built f ?l ?u ?leaf (entries n) t2" and hg: "n_has_garbage t2 = n_has_garbage t1"
    using bc(1,4) by (simp_all add: t2_def entries_def)
  define t3 where "t3 = setUpper (n_upper n) (n_upper_pending_lsn n) t2"
  have n': "n' = makeHint t3" by (simp add: n'_def compactify_def Let_def t1_def t2_def t3_def)
  have ss: "same_store t2 n'" unfolding n' t3_def makeHint_def by (simp add: same_store_def setUpper_def)
  have "shape_ok f t2" using assms(1) S pl
    by (intro built_shape [OF b2]) (auto simp: shape_ok_def full_keys_entries)
  then have "shape_ok f t3" using shape_ok_same_store [of t2 t3 f] by (simp add: t3_def)
  then show "node_ok f n'" unfolding n' by (rule node_ok_makeHint)
  show "entries n' = entries n" using b2 by (simp add: same_store_reads(5) [OF ss] built_def)
  show "same_node n n'" using b2 pl unfolding same_node_def same_store_reads(8,9) [OF ss]
    by (simp add: built_def n' makeHint_def t3_def setUpper_def)
  show "n_count n' = n_count n" "n_space_used n' = n_space_used n" "n_data_offset n' = EFFECTIVE_PAGE_SIZE - n_space_used n"
    using b2 ss S(1) pl by (simp_all add: built_def same_store_def)
  show "\<not> n_has_garbage n'" using hg fr by (simp add: n' makeHint_def t3_def setUpper_def fresh_def)
qed

lemma requestSpaceFor_spec:
  assumes "node_ok f n" "hasEnoughSpaceFor n space" "requestSpaceFor f g n space = (ok, n')"
  shows "ok" "node_ok f n'" "entries n' = entries n" "same_node n n'" "n_count n' = n_count n"
    "space \<le> n_data_offset n' - slot_end (n_count n')"
proof -
  have sh: "shape_ok f n" and lay: "layout_ok f n" using assms(1) by (simp_all add: node_ok_iff shape_ok_def)
  note C = compactify_spec [OF sh, of g] and F = freeSpace_layout [OF lay]
  have "ok \<and> node_ok f n' \<and> entries n' = entries n \<and> same_node n n' \<and> n_count n' = n_count n \<and>
      space \<le> n_data_offset n' - slot_end (n_count n')"
  proof (cases "space \<le> freeSpace n")
    case True
    then show ?thesis using assms F by (simp add: requestSpaceFor_def)
  next
    case False
    then have le: "space \<le> freeSpaceAfterCompaction n" using assms(2) by (simp add: hasEnoughSpaceFor_def)
    then have "ok" "n' = compactify f g n" using False assms(3) by (simp_all add: requestSpaceFor_def)
    then show ?thesis using C le F(2) by simp
  qed
  then show "ok" "node_ok f n'" "entries n' = entries n" "same_node n n'" "n_count n' = n_count n"
    "space \<le> n_data_offset n' - slot_end (n_count n')" by blast+
qed

section \<open>Insertion\<close>

lemma updateHint_ok:
  assumes "hints_ok n" "n_count n' = n_count n + 1" "n_hint n' = n_hint n"
    and "\<And>i. i < s \<Longrightarrow> n_slot n' i = n_slot n i"
  shows "hints_ok (updateHint s n')"
proof (cases "n_count n' > hint_count * 2 + 1 \<and> (n_count n' - 1) div (hint_count + 1) = hint_dist n' \<and> s div hint_dist n' > 1")
  case False
  then have "updateHint s n' = makeHint n'" by (auto simp: updateHint_def makeHint_def Let_def)
  then show ?thesis by (simp add: hints_ok_makeHint)
next
  case True
  let ?d = "hint_dist n'" and ?b = "s div hint_dist n' - 1"
  have d: "hint_dist n = ?d" using True assms(2) by (simp add: hint_dist_def)
  have many: "n_count n > hint_count * 2" using True assms(2) by simp
  have old: "n_hint n' i = s_head (n_slot n' (?d * (i + 1)))" if "i < ?b" "i < hint_count" for i
  proof -
    have "?d * (i + 1) < ?d * (s div ?d)" using that True by (intro mult_strict_left_mono) (auto simp: hint_dist_def hint_count_def)
    also have "\<dots> \<le> s" by simp
    finally have "?d * (i + 1) < s" .
    then show ?thesis using assms(1,3,4) many that d by (simp add: hints_ok_def)
  qed
  have "updateHint s n' = set_hints ?b n'" using True by (simp add: updateHint_def Let_def)
  then show ?thesis using old by (auto simp: hints_ok_def set_hints_def hint_dist_def)
qed

text \<open>Shifting the slots up makes room for a slot.\<close>

lemma shift_up_base:
  assumes "base_ok (used_upto (n_count n) n) n" "s \<le> n_count n"
  shows "base_ok (used_upto (Suc (n_count n)) n - {Entry_of s}) (shift_up s n)"
proof -
  let ?J = "used_upto (Suc (n_count n)) n - {Entry_of s}"
  define r where "r c = (case c of Entry_of i \<Rightarrow> Entry_of (if i < s then i else i - 1) | _ \<Rightarrow> c)" for c
  have J: "c \<in> ?J \<Longrightarrow> (\<exists>i. c = Entry_of i \<and> i \<noteq> s \<and> i \<le> n_count n) \<or> c \<in> fence_chunks n" for c
    by (auto simp: used_upto_def)
  have fence: "c \<in> fence_chunks n \<Longrightarrow> r c = c" for c by (auto simp: fence_chunks_def r_def split: if_splits)
  have inj: "inj_on r ?J"
    by (auto simp: inj_on_def r_def split: chunk.splits if_splits)
  have img: "r ` ?J = used_upto (n_count n) n"
  proof (intro equalityI subsetI)
    fix c assume "c \<in> r ` ?J"
    then show "c \<in> used_upto (n_count n) n" using assms(2)
      by (auto simp: used_upto_def r_def fence_chunks_def split: chunk.splits if_splits)
  next
    fix c assume c: "c \<in> used_upto (n_count n) n"
    show "c \<in> r ` ?J"
    proof (cases c)
      case (Entry_of i)
      then have "i < n_count n" using c by simp
      then have "r (Entry_of (if i < s then i else Suc i)) = c" "Entry_of (if i < s then i else Suc i) \<in> ?J"
        using Entry_of by (auto simp: r_def)
      then show ?thesis by blast
    qed (use c in \<open>auto simp: r_def used_upto_def fence_chunks_def image_iff split: if_splits intro!: bexI [of _ c]\<close>)
  qed
  have "chunks_ok ?J (shift_up s n)"
  proof (rule chunks_ok_remap [where I = "used_upto (n_count n) n" and n = n and r = r])
    show "chunks_ok (used_upto (n_count n) n) n" using assms(1) by (simp add: base_ok_def)
    then show "n_space_used (shift_up s n) = sum (len n) (r ` ?J)"
      unfolding img using chunks_okD(2) by (simp add: shift_up_def)
    fix c assume c: "c \<in> ?J"
    show "off (shift_up s n) c = off n (r c)" "len (shift_up s n) c = len n (r c)"
      using c by (auto simp: r_def shift_up_def used_upto_def fence_chunks_def split: chunk.splits if_splits)
  qed (simp_all add: inj img shift_up_def)
  then show ?thesis using assms(1)
    by (auto simp: base_ok_def used_upto_def shift_up_def fence_chunks_def isLowerFenceInfinity_def isUpperFenceInfinity_def)
qed

lemma shift_up_reads:
  "getKey (shift_up s n) i = getKey n (if s < i \<and> i \<le> n_count n then i - 1 else i)"
  "entry_at (shift_up s n) i = entry_at n (if s < i \<and> i \<le> n_count n then i - 1 else i)"
  "same_frame n (shift_up s n)"
  by (simp_all add: shift_up_def getKey_def entry_at_def copyFullKey_def getPrefix_def getPayload_def payload_at_def
      isFrozen_def same_frame_def getLowerFenceKey_def getUpperFenceKey_def)

definition insert_entry :: "nat \<Rightarrow> 'a \<Rightarrow> 'a list \<Rightarrow> 'a list" where
  "insert_entry s x xs = take s xs @ x # drop s xs"

text \<open>
  The common core of the insertions: at position \<open>s\<close>, with room for the entry and its slot.
\<close>

definition placed :: "nat \<Rightarrow> key \<Rightarrow> u8 list \<Rightarrow> BTreeNode \<Rightarrow> BTreeNode" where
  "placed s key payload n =
     (push_entry s (entry_slot (n_prefix_length n) key (length payload) False)
        (drop (n_prefix_length n) key @ payload) (shift_up s n))\<lparr>n_count := n_count n + 1\<rparr>"

definition fits_at :: "flags \<Rightarrow> BTreeNode \<Rightarrow> nat \<Rightarrow> key \<Rightarrow> u8 list \<Rightarrow> bool" where
  "fits_at f n s key payload \<longleftrightarrow>
     shape_ok f n \<and> s \<le> n_count n \<and> in_fences (getLowerFenceKey n) (getUpperFenceKey n) key \<and>
     slot_end (n_count n + 1) + (length key - n_prefix_length n) + length payload \<le> n_data_offset n"

lemma fits_at_room:
  assumes "fits_at f n s key payload"
  shows "room (shift_up s n) (length (drop (n_prefix_length n) key @ payload))"
    "base_ok (used_upto (Suc (n_count n)) n - {Entry_of s}) (shift_up s n)"
proof -
  have lay: "layout_ok f n" using assms by (simp add: fits_at_def shape_ok_def)
  then have "n_data_offset n + n_space_used n \<le> EFFECTIVE_PAGE_SIZE" using chunks_okD(3) by (auto simp: layout_ok_def)
  then show "room (shift_up s n) (length (drop (n_prefix_length n) key @ payload))"
    using assms by (simp add: fits_at_def room_def shift_up_def)
  show "base_ok (used_upto (Suc (n_count n)) n - {Entry_of s}) (shift_up s n)"
    using shift_up_base [OF layout_base_ok [OF lay]] assms by (simp add: fits_at_def)
qed

lemma count_update_reads:
  "getKey (n\<lparr>n_count := c\<rparr>) = getKey n" "entry_at (n\<lparr>n_count := c\<rparr>) = entry_at n"
  "same_frame a (n\<lparr>n_count := c\<rparr>) = same_frame a n" "base_ok I (n\<lparr>n_count := c\<rparr>) = base_ok I n"
  by (auto simp: fun_eq_iff getKey_def entry_at_def copyFullKey_def getPrefix_def getPayload_def payload_at_def isFrozen_def
      same_frame_def getLowerFenceKey_def getUpperFenceKey_def base_ok_def chunks_ok_def off_def len_def fence_chunks_def
      isLowerFenceInfinity_def isUpperFenceInfinity_def cong: chunk.case_cong)

lemma placed_frame:
  assumes "fits_at f n s key payload"
  shows "same_frame n (placed s key payload n)" "base_ok (used_upto (Suc (n_count n)) n) (placed s key payload n)"
proof -
  note R = fits_at_room [OF assms]
  let ?e = "entry_slot (n_prefix_length n) key (length payload) False"
  show "same_frame n (placed s key payload n)"
    unfolding placed_def count_update_reads by (rule same_frame_trans [OF shift_up_reads(3) push_entry_frame [OF R(2,1)]])
  have "base_ok (insert (Entry_of s) (used_upto (Suc (n_count n)) n - {Entry_of s})) (placed s key payload n)"
    unfolding placed_def count_update_reads by (rule push_entry_base [OF R(2) _ R(1)]) (simp_all add: entry_slot_def)
  then show "base_ok (used_upto (Suc (n_count n)) n) (placed s key payload n)"
    using assms by (simp add: fits_at_def insert_absorb)
qed

text \<open>The source of the entry at a position after the insertion.\<close>

lemma placed_other:
  assumes fit: "fits_at f n s key payload" and i: "i \<noteq> s" "i \<le> n_count n"
  defines "q \<equiv> placed s key payload n" and "j \<equiv> if s < i then i - 1 else i"
  shows "entry_at q i = entry_at n j" "getKey q i = getKey n j" "s_head (n_slot q i) = s_head (n_slot n j)"
proof -
  note R = fits_at_room [OF fit]
  let ?e = "entry_slot (n_prefix_length n) key (length payload) False" and ?bs = "drop (n_prefix_length n) key @ payload"
  have ch: "chunks_ok (used_upto (Suc (n_count n)) n - {Entry_of s}) (shift_up s n)" using R(2) by (simp add: base_ok_def)
  have m: "Entry_of i \<in> used_upto (Suc (n_count n)) n - {Entry_of s}" using i by simp
  note o = push_entry_other [OF ch R(1) m i(1), of ?e]
  show k: "getKey q i = getKey n j"
    unfolding q_def placed_def count_update_reads o(1) shift_up_reads(1) using i by (simp add: j_def)
  have "getPayload q i = getPayload n j \<and> isFrozen q i = isFrozen n j"
  proof -
    have "getPayload q i = getPayload (push_entry s ?e ?bs (shift_up s n)) i" "isFrozen q i = isFrozen (push_entry s ?e ?bs (shift_up s n)) i"
      by (simp_all add: q_def placed_def getPayload_def payload_at_def isFrozen_def)
    then show ?thesis unfolding o(2,3) using i by (simp add: shift_up_def getPayload_def payload_at_def isFrozen_def j_def)
  qed
  then show "entry_at q i = entry_at n j"
    using k placed_frame(1) [OF fit] by (simp add: entry_at_def copyFullKey_def same_frame_def q_def)
  show "s_head (n_slot q i) = s_head (n_slot n j)"
    using i by (simp add: q_def placed_def shift_up_def j_def)
qed

lemma placed_new:
  assumes fit: "fits_at f n s key payload"
  defines "q \<equiv> placed s key payload n"
  shows "entry_at q s = (key, payload, False)" "s_head (n_slot q s) = head (getKey q s)"
proof -
  let ?pl = "n_prefix_length n"
  have e: "s_key_len (entry_slot ?pl key (length payload) False) = length (drop ?pl key)"
    "s_payload_len (entry_slot ?pl key (length payload) False) = length payload" by (simp_all add: entry_slot_def)
  note new = push_entry_new [OF e, where s = s and n = "shift_up s n"]
  have k: "getKey q s = drop ?pl key" unfolding q_def placed_def count_update_reads by (rule new(1))
  have p: "getPayload q s = payload" "\<not> isFrozen q s"
    using new(2,3) by (simp_all add: q_def placed_def getPayload_def payload_at_def isFrozen_def entry_slot_def)
  have lay: "layout_ok f n" and inf: "in_fences (getLowerFenceKey n) (getUpperFenceKey n) key"
    using fit by (simp_all add: fits_at_def shape_ok_def)
  have "getPrefix n = take ?pl key"
    using in_fences_prefix(2) [OF inf, of f] layout_prefix [OF lay] lay by (simp add: layout_ok_def)
  then show "entry_at q s = (key, payload, False)"
    using k p placed_frame(1) [OF fit] by (simp add: entry_at_def copyFullKey_def same_frame_def q_def)
  show "s_head (n_slot q s) = head (getKey q s)" unfolding k by (simp add: q_def placed_def entry_slot_def)
qed

lemma placed_entries:
  assumes fit: "fits_at f n s key payload"
  shows "entries (placed s key payload n) = insert_entry s (key, payload, False) (entries n)" (is "entries ?q = ?es")
proof (rule nth_equalityI)
  have s: "s \<le> n_count n" using fit by (simp add: fits_at_def)
  have c: "n_count ?q = n_count n + 1" by (simp add: placed_def)
  show "length (entries ?q) = length ?es" using s c by (simp add: insert_entry_def)
  fix i assume "i < length (entries ?q)"
  then have i: "i \<le> n_count n" using c by simp
  then have "entries ?q ! i = entry_at ?q i" using c by (simp add: entries_def del: upt_Suc)
  also have "\<dots> = ?es ! i"
    using i s placed_new(1) [OF fit] placed_other(1) [OF fit, of i]
    by (cases i s rule: linorder_cases) (auto simp: insert_entry_def entries_def nth_append nth_Cons')
  finally show "entries ?q ! i = ?es ! i" .
qed

lemma insert_entry_sorted:
  assumes "sorted_wrt (<) ks" "\<And>k. k \<in> set (take s ks) \<Longrightarrow> k < key" "\<And>k. k \<in> set (drop s ks) \<Longrightarrow> key < (k :: key)"
  shows "sorted_wrt (<) (insert_entry s key ks)"
proof -
  have "sorted_wrt (<) (take s ks @ drop s ks)" using assms(1) by simp
  then have "sorted_wrt (<) (take s ks)" "sorted_wrt (<) (drop s ks)" unfolding sorted_wrt_append by blast+
  then show ?thesis unfolding insert_entry_def sorted_wrt_append using assms(2,3) by (auto intro: less_trans)
qed

lemma map_insert_entry: "map h (insert_entry s x xs) = insert_entry s (h x) (map h xs)"
  by (simp add: insert_entry_def take_map drop_map)

lemma set_insert_entry: "set (insert_entry s x xs) = insert x (set xs)"
  unfolding insert_entry_def by (metis append_take_drop_id list.simps(15) set_append Un_insert_right)

lemma placed_shape:
  assumes fit: "fits_at f n s key payload"
    and less: "\<And>k. k \<in> set (take s (full_keys n)) \<Longrightarrow> k < key" "\<And>k. k \<in> set (drop s (full_keys n)) \<Longrightarrow> key < k"
  shows "shape_ok f (placed s key payload n)" (is "shape_ok f ?q")
proof -
  have sh: "shape_ok f n" and s: "s \<le> n_count n" and inf: "in_fences (getLowerFenceKey n) (getUpperFenceKey n) key"
    using fit by (simp_all add: fits_at_def)
  note fr = placed_frame(1) [OF fit]
  have c: "n_count ?q = Suc (n_count n)" by (simp add: placed_def)
  have keys: "full_keys ?q = insert_entry s key (full_keys n)"
    by (simp add: full_keys_entries placed_entries [OF fit] map_insert_entry)
  have "s_head (n_slot ?q i) = head (getKey ?q i)" if "i < n_count ?q" for i
  proof (cases "i = s")
    case False
    then have "(if s < i then i - 1 else i) < n_count n" using that s c by auto
    then show ?thesis using placed_other(2,3) [OF fit False] that c sh by (simp add: shape_ok_def heads_ok_def)
  qed (simp add: placed_new(2) [OF fit])
  then have heads: "heads_ok ?q" by (simp add: heads_ok_def)
  have "layout_ok f ?q"
  proof (rule base_ok_layout [where l = "getLowerFenceKey n" and u = "getUpperFenceKey n"])
    show "base_ok (used_upto (n_count ?q) ?q) ?q" unfolding c using placed_frame(2) [OF fit] used_upto_frame [OF fr] by simp
    show "slot_end (n_count ?q) \<le> n_data_offset ?q" using fit by (auto simp: fits_at_def placed_def shift_up_def)
  qed (use fr sh in \<open>auto simp: same_frame_def shape_ok_def layout_ok_def getLowerFenceKey_def getUpperFenceKey_def
      fence_bytes_def isLowerFenceInfinity_def isUpperFenceInfinity_def\<close>)
  moreover have "sorted_wrt (<) (full_keys ?q)"
    unfolding keys using sh less by (intro insert_entry_sorted) (simp_all add: shape_ok_def)
  moreover have "in_fences (getLowerFenceKey ?q) (getUpperFenceKey ?q) k" if "k \<in> set (full_keys ?q)" for k
    using that sh inf fr unfolding keys set_insert_entry by (auto simp: shape_ok_def same_frame_def)
  ultimately show ?thesis using heads by (simp add: shape_ok_def)
qed

lemma updateHint_placed:
  assumes ok: "node_ok f n" and fit: "fits_at f n s key payload"
    and less: "\<And>k. k \<in> set (take s (full_keys n)) \<Longrightarrow> k < key" "\<And>k. k \<in> set (drop s (full_keys n)) \<Longrightarrow> key < k"
  defines "n' \<equiv> updateHint s (placed s key payload n)"
  shows "node_ok f n'" "entries n' = insert_entry s (key, payload, False) (entries n)" "same_node n n'"
    "n_has_garbage n' = n_has_garbage n"
proof -
  let ?q = "placed s key payload n"
  have ss: "same_store ?q n'" by (simp add: n'_def updateHint_def Let_def)
  have "hints_ok n'" unfolding n'_def
    by (rule updateHint_ok [where n = n]) (use ok in \<open>simp_all add: node_ok_iff placed_def shift_up_def\<close>)
  then show "node_ok f n'" unfolding node_ok_iff using shape_ok_same_store [OF ss] placed_shape [OF fit less] by simp
  show "entries n' = insert_entry s (key, payload, False) (entries n)"
    unfolding same_store_reads(5) [OF ss] by (rule placed_entries [OF fit])
  show "same_node n n'" "n_has_garbage n' = n_has_garbage n"
    using placed_frame(1) [OF fit] unfolding same_node_def same_store_reads(8,9) [OF ss]
    by (simp_all add: same_frame_def n'_def updateHint_def Let_def)
qed

lemma filter_less_sorted:
  fixes ks :: "'a::linorder list"
  assumes "sorted_wrt (<) ks"
  shows "take (length (filter (\<lambda>k. k < key) ks)) ks = filter (\<lambda>k. k < key) ks"
    "drop (length (filter (\<lambda>k. k < key) ks)) ks = filter (\<lambda>k. key \<le> k) ks"
proof -
  have "take (length (filter (\<lambda>k. k < key) ks)) ks = filter (\<lambda>k. k < key) ks \<and>
    drop (length (filter (\<lambda>k. k < key) ks)) ks = filter (\<lambda>k. key \<le> k) ks"
    using assms
  proof (induction ks)
    case (Cons k ks)
    show ?case
    proof (cases "k < key")
      case False
      then have "\<not> x < key" if "x \<in> set ks" for x using Cons.prems that by auto
      then have "filter (\<lambda>k. k < key) ks = []" "filter (\<lambda>k. key \<le> k) ks = ks" by (auto simp: filter_empty_conv filter_id_conv not_less)
      with False show ?thesis by simp
    qed (use Cons in auto)
  qed simp
  then show "take (length (filter (\<lambda>k. k < key) ks)) ks = filter (\<lambda>k. k < key) ks"
    "drop (length (filter (\<lambda>k. k < key) ks)) ks = filter (\<lambda>k. key \<le> k) ks" by blast+
qed

lemma rank_le: "rank n key \<le> n_count n"
  unfolding rank_def by (metis length_filter_le length_full_keys)

lemma rank_split:
  assumes "sorted_wrt (<) (full_keys n)" "key \<notin> set (full_keys n)"
  shows "k \<in> set (take (rank n key) (full_keys n)) \<Longrightarrow> k < key" "k \<in> set (drop (rank n key) (full_keys n)) \<Longrightarrow> key < k"
  unfolding rank_def filter_less_sorted [OF assms(1)] using assms(2) by (auto simp: le_less)

lemma rank_entries: "entries n = entries m \<Longrightarrow> rank n key = rank m key"
  by (simp add: rank_def full_keys_entries)

lemma spaceNeeded_id:
  assumes "n_prefix_length n \<le> key_len" "sizeof_Slot + (key_len - n_prefix_length n) + payload_len < 65536"
  shows "spaceNeeded n key_len payload_len = sizeof_Slot + (key_len - n_prefix_length n) + payload_len"
  unfolding spaceNeeded_def spaceNeeded3_def using assms by (subst to_u16_id) linarith+

lemma slot_end_Suc: "slot_end (c + 1) = slot_end c + sizeof_Slot"
  by (simp add: slot_end_def)

text \<open>What the callers of the insertions establish.\<close>

definition insertable :: "flags \<Rightarrow> BTreeNode \<Rightarrow> key \<Rightarrow> nat \<Rightarrow> bool" where
  "insertable f n key payload_len \<longleftrightarrow>
     node_ok f n \<and> compareKeyWithBoundaries n key = 0 \<and> key \<notin> set (full_keys n) \<and>
     canInsert n (length key) payload_len \<and>
     sizeof_Slot + (length key - n_prefix_length n) + payload_len < 65536"

lemma compareKeyWithBoundaries_iff:
  "compareKeyWithBoundaries n key = 0 \<longleftrightarrow> in_fences (getLowerFenceKey n) (getUpperFenceKey n) key"
  "compareKeyWithBoundaries n key = 1 \<longleftrightarrow> (\<exists>lf. getLowerFenceKey n = Some lf \<and> key \<le> lf)"
proof -
  have ge: "\<not> 0 < cmpKeys a b \<longleftrightarrow> a \<le> b" "\<not> cmpKeys a b \<le> 0 \<longleftrightarrow> b < a" for a b
    using cmpKeys_greater_iff [of a b] by auto
  show "compareKeyWithBoundaries n key = 0 \<longleftrightarrow> in_fences (getLowerFenceKey n) (getUpperFenceKey n) key"
    unfolding compareKeyWithBoundaries_def in_fences_def ge by (auto split: option.splits)
  show "compareKeyWithBoundaries n key = 1 \<longleftrightarrow> (\<exists>lf. getLowerFenceKey n = Some lf \<and> key \<le> lf)"
    unfolding compareKeyWithBoundaries_def ge by (auto split: option.splits)
qed

lemma prepareInsert_fits:
  fixes g :: BTreeNode
  assumes ins: "insertable f n key (length payload)"
  defines "n1 \<equiv> snd (prepareInsert f g n (length key) (length payload))"
  shows "node_ok f n1" "entries n1 = entries n" "same_node n n1" "fits_at f n1 (rank n key) key payload"
proof -
  have ok: "node_ok f n" and inf: "in_fences (getLowerFenceKey n) (getUpperFenceKey n) key"
    and can: "hasEnoughSpaceFor n (spaceNeeded n (length key) (length payload))"
    using ins by (simp_all add: insertable_def compareKeyWithBoundaries_iff canInsert_def)
  have pl: "n_prefix_length n \<le> length key"
    using in_fences_prefix(1) [OF inf, of f] ok by (simp add: node_ok_def layout_ok_def)
  note sp = spaceNeeded_id [OF pl, of "length payload"]
  obtain b where run: "requestSpaceFor f g n (spaceNeeded n (length key) (length payload)) = (b, n1)"
    unfolding n1_def prepareInsert_def by (metis prod.collapse)
  note R = requestSpaceFor_spec [OF ok can run]
  show "node_ok f n1" "entries n1 = entries n" "same_node n n1" using R by blast+
  have n1: "n_prefix_length n1 = n_prefix_length n" "getLowerFenceKey n1 = getLowerFenceKey n" "getUpperFenceKey n1 = getUpperFenceKey n"
    using R(4) by (simp_all add: same_node_def)
  have "slot_end (n_count n1) \<le> n_data_offset n1" using R(2) by (simp add: node_ok_def layout_ok_def)
  then have "slot_end (n_count n1 + 1) + (length key - n_prefix_length n1) + length payload \<le> n_data_offset n1"
    using R(6) sp ins unfolding slot_end_Suc n1 by (simp add: insertable_def sizeof_Slot_def)
  then show "fits_at f n1 (rank n key) key payload"
    using R(2,5) inf n1 rank_le [of n key] by (simp add: fits_at_def node_ok_iff)
qed

lemma count_up_store:
  assumes "fits_at f n s key payload"
  shows "count_up (storeKeyValue s key payload (shift_up s n)) = placed s key payload n"
proof -
  have sh: "shape_ok f n" using assms by (simp add: fits_at_def)
  have c: "n_count n < 400" using sh layout_space(3,4) [of f n] by (intro count_less) (simp add: shape_ok_def)
  have pl: "n_prefix_length (shift_up s n) = n_prefix_length n" by (simp add: shift_up_def)
  have le: "n_prefix_length n \<le> length key" using assms in_fences_prefix(1) [of _ _ key f]
    by (simp add: fits_at_def shape_ok_def layout_ok_def)
  have "storeKeyValue s key payload (shift_up s n) =
    push_entry s (entry_slot (n_prefix_length n) key (length payload) False) (drop (n_prefix_length n) key @ payload) (shift_up s n)"
    using storeKeyValue_push [of "shift_up s n" key payload s] fits_at_room(1) [OF assms] le by (simp add: pl)
  then show ?thesis using c by (simp add: placed_def count_up_def) (simp add: shift_up_def)
qed

lemma node_insert_spec:
  assumes ins: "insertable f n key (length payload)" and f: "hints_supported f"
  obtains n' where "node_insert f g n key payload = Some (int (rank n key), n')" "node_ok f n'"
    "entries n' = insert_entry (rank n key) (key, payload, False) (entries n)" "same_node n n'"
proof -
  define n1 where "n1 = snd (prepareInsert f g n (length key) (length payload))"
  note P = prepareInsert_fits [OF ins, of g, folded n1_def]
  have ok: "search_ok n" "search_ok n1" and nin: "key \<notin> set (full_keys n)" using ins P(1) by (simp_all add: insertable_def node_ok_def)
  have r: "rank n1 key = rank n key" using P(2) by (rule rank_entries)
  have keys: "full_keys n1 = full_keys n" by (simp add: full_keys_entries P(2))
  have so: "sorted_wrt (<) (full_keys n1)" using ok(2) by (simp add: search_ok_iff)
  let ?n' = "updateHint (rank n key) (placed (rank n key) key payload n1)"
  have split: "k \<in> set (take (rank n key) (full_keys n1)) \<Longrightarrow> k < key" "k \<in> set (drop (rank n key) (full_keys n1)) \<Longrightarrow> key < k" for k
    using rank_split [OF so, of key k] nin unfolding r keys by blast+
  note U = updateHint_placed [OF P(1,4) split]
  have "node_insert f g n key payload = Some (int (rank n key), ?n')"
    using nin lowerBound_rank [OF ok(1) f] lowerBound_rank [OF ok(2) f]
    by (simp add: node_insert_def Let_def r count_up_store [OF P(4)] flip: n1_def)
  then show ?thesis using that U P(2,3) same_node_trans by metis
qed

lemma node_insert_duplicate:
  assumes "node_ok f n" "hints_supported f" "key \<in> set (full_keys n)"
  shows "node_insert f g n key payload = None"
  using assms lowerBound_rank [of n f] by (simp add: node_insert_def node_ok_def)

text \<open>
  \<^verbatim>\<open>insertDoNotCopyPayload\<close> reserves the payload: the entry has whatever bytes are there.
\<close>

lemma count_up_store_key:
  assumes fit: "\<And>payload. length payload = L \<Longrightarrow> fits_at f n s key payload"
  obtains payload where "length payload = L" "count_up (store_key s key L (shift_up s n)) = placed s key payload n"
proof -
  let ?u = "shift_up s n"
  define m where "m = store_key s key L ?u"
  define p where "p = rd (n_mem m) (payload_at m s) L"
  have len: "length p = L" by (simp add: p_def)
  have "storeKeyValue s key p ?u = m\<lparr>n_mem := wr (n_mem m) (payload_at m s) p\<rparr>"
    unfolding storeKeyValue_def Let_def len m_def [symmetric] ..
  also have "wr (n_mem m) (payload_at m s) p = n_mem m"
    by (rule ext) (auto simp: wr_def p_def nth_rd)
  finally have "storeKeyValue s key p ?u = m" by simp
  then show ?thesis using that [OF len] count_up_store [OF fit [OF len]] by (simp add: m_def)
qed

lemma insertDoNotCopyPayload_spec:
  assumes ins: "insertable f n key L" and f: "hints_supported f" and pos: "pos = -1 \<or> pos = int (rank n key)"
  obtains n' payload where "insertDoNotCopyPayload f g n key L pos = Some (int (rank n key), n')" "node_ok f n'"
    "length payload = L" "entries n' = insert_entry (rank n key) (key, payload, False) (entries n)" "same_node n n'"
proof -
  define n1 where "n1 = snd (prepareInsert f g n (length key) L)"
  have P: "node_ok f n1" "entries n1 = entries n" "same_node n n1"
    and fit: "length payload = L \<Longrightarrow> fits_at f n1 (rank n key) key payload" for payload
    using prepareInsert_fits [of f n key "replicate L 0" g] prepareInsert_fits(4) [of f n key payload g] ins
    by (simp_all add: n1_def)
  have nin: "key \<notin> set (full_keys n1)" and so: "sorted_wrt (<) (full_keys n1)" and r: "rank n1 key = rank n key"
    using ins P(1) rank_entries [OF P(2)] by (simp_all add: insertable_def full_keys_entries P(2) node_ok_def search_ok_iff)
  obtain payload where pay: "length payload = L"
    and st: "count_up (store_key (rank n key) key L (shift_up (rank n key) n1)) = placed (rank n key) key payload n1"
    using count_up_store_key [OF fit] .
  note U = updateHint_placed [OF P(1) fit [OF pay] rank_split [OF so nin, unfolded r]]
  have "map_option fst (lowerBound f False n1 key None) = Some (int (rank n key))"
    using lowerBound_rank [OF _ f, of n1 False key None] P(1) r by (simp add: node_ok_def)
  then have "(if pos = -1 then map_option fst (lowerBound f False n1 key None) else Some pos) = Some (int (rank n key))"
    using pos by auto
  moreover have "canInsert n (length key) L" using ins by (simp add: insertable_def)
  ultimately have "insertDoNotCopyPayload f g n key L pos =
      Some (int (rank n key), updateHint (rank n key) (placed (rank n key) key payload n1))"
    unfolding insertDoNotCopyPayload_def Let_def n1_def [symmetric] by (simp add: st)
  then show ?thesis
    by (rule that [OF _ U(1) pay]) (simp_all add: U(2) P(2) same_node_trans [OF P(3) U(3)])
qed

section \<open>Removal\<close>

definition remove_entry :: "nat \<Rightarrow> 'a list \<Rightarrow> 'a list" where
  "remove_entry s xs = take s xs @ drop (s + 1) xs"

text \<open>The node after \<^verbatim>\<open>removeSlot\<close> but for the hints.\<close>

definition unplaced :: "nat \<Rightarrow> BTreeNode \<Rightarrow> BTreeNode" where
  "unplaced s n =
     (shift_down s n)\<lparr>n_space_used := n_space_used n - len n (Entry_of s), n_count := n_count n - 1\<rparr>"

lemma unplaced_reads:
  "getKey (unplaced s n) i = getKey n (if s \<le> i \<and> i < n_count n - 1 then i + 1 else i)"
  "entry_at (unplaced s n) i = entry_at n (if s \<le> i \<and> i < n_count n - 1 then i + 1 else i)"
  "same_frame n (unplaced s n)"
  by (simp_all add: unplaced_def shift_down_def getKey_def entry_at_def copyFullKey_def getPrefix_def getPayload_def
      payload_at_def isFrozen_def same_frame_def getLowerFenceKey_def getUpperFenceKey_def)

lemma unplaced_base:
  assumes "base_ok (used_upto (n_count n) n) n" "s < n_count n"
  shows "base_ok (used_upto (n_count n - 1) n) (unplaced s n)"
proof -
  let ?J = "used_upto (n_count n - 1) n" and ?I = "used_upto (n_count n) n"
  define r where "r c = (case c of Entry_of i \<Rightarrow> Entry_of (if s \<le> i then i + 1 else i) | _ \<Rightarrow> c)" for c
  have ok: "chunks_ok ?I n" using assms(1) by (simp add: base_ok_def)
  have inj: "inj_on r ?J" by (auto simp: inj_on_def r_def split: chunk.splits if_splits)
  have img: "r ` ?J = ?I - {Entry_of s}"
  proof (intro equalityI subsetI)
    fix c assume "c \<in> r ` ?J"
    then show "c \<in> ?I - {Entry_of s}" using assms(2)
      by (auto simp: used_upto_def r_def fence_chunks_def split: chunk.splits if_splits)
  next
    fix c assume c: "c \<in> ?I - {Entry_of s}"
    show "c \<in> r ` ?J"
    proof (cases c)
      case (Entry_of i)
      then have "i < n_count n" "i \<noteq> s" using c by auto
      then have "r (Entry_of (if s < i then i - 1 else i)) = c" "Entry_of (if s < i then i - 1 else i) \<in> ?J"
        using Entry_of assms(2) by (auto simp: r_def)
      then show ?thesis by blast
    qed (use c in \<open>auto simp: r_def used_upto_def fence_chunks_def image_iff split: if_splits intro!: bexI [of _ c]\<close>)
  qed
  have "chunks_ok ?J (unplaced s n)"
  proof (rule chunks_ok_remap [OF ok inj])
    show "r ` ?J \<subseteq> ?I" unfolding img by blast
    show "n_space_used (unplaced s n) = sum (len n) (r ` ?J)"
      unfolding img using chunks_okD(1,2) [OF ok] assms(2) by (simp add: unplaced_def sum_diff1_nat)
    fix c assume c: "c \<in> ?J"
    show "off (unplaced s n) c = off n (r c)" "len (unplaced s n) c = len n (r c)"
      using c by (auto simp: r_def unplaced_def shift_down_def used_upto_def fence_chunks_def split: chunk.splits if_splits)
  qed (simp add: unplaced_def shift_down_def)
  then show ?thesis using assms(1)
    by (auto simp: base_ok_def used_upto_def unplaced_def shift_down_def fence_chunks_def isLowerFenceInfinity_def isUpperFenceInfinity_def)
qed

lemma unplaced_entries:
  assumes "s < n_count n"
  shows "entries (unplaced s n) = remove_entry s (entries n)"
proof (rule nth_equalityI)
  have c: "n_count (unplaced s n) = n_count n - 1" by (simp add: unplaced_def)
  show "length (entries (unplaced s n)) = length (remove_entry s (entries n))" using assms c by (simp add: remove_entry_def)
  fix i assume "i < length (entries (unplaced s n))"
  then have i: "i < n_count n - 1" using c by simp
  then have "entries (unplaced s n) ! i = entry_at n (if s \<le> i then i + 1 else i)"
    using c unplaced_reads(2) [of s n i] by (simp add: entries_def)
  then show "entries (unplaced s n) ! i = remove_entry s (entries n) ! i"
    using i assms by (auto simp: remove_entry_def nth_append entries_def min_def add.commute)
qed

lemma map_remove_entry: "map h (remove_entry s xs) = remove_entry s (map h xs)"
  by (simp add: remove_entry_def take_map drop_map)

lemma sorted_remove_entry: "sorted_wrt P xs \<Longrightarrow> sorted_wrt P (remove_entry s xs)"
  unfolding remove_entry_def sorted_wrt_append
  by (metis append_take_drop_id drop_drop in_set_dropD sorted_wrt_append add.commute)

lemma set_remove_entry: "set (remove_entry s xs) \<subseteq> set xs"
  by (auto simp: remove_entry_def dest: in_set_takeD in_set_dropD)

lemma removeSlot_spec:
  assumes ok: "node_ok f n" and s: "s < n_count n"
  shows "node_ok f (removeSlot s n)" "entries (removeSlot s n) = remove_entry s (entries n)"
    "same_node n (removeSlot s n)" "n_count (removeSlot s n) = n_count n - 1"
    "n_has_garbage (removeSlot s n) = n_has_garbage n"
proof -
  let ?m = "unplaced s n"
  have sh: "shape_ok f n" and lay: "layout_ok f n" using ok by (simp_all add: node_ok_iff shape_ok_def)
  note S = layout_space [OF lay] and base = layout_base_ok [OF lay]
  have le: "len n (Entry_of s) \<le> n_space_used n"
  proof -
    have "len n (Entry_of s) \<le> sum (len n) (used_upto (n_count n) n)"
      using base s by (intro member_le_sum) (auto simp: base_ok_def chunks_ok_def)
    then show ?thesis using base by (simp add: base_ok_def chunks_ok_def)
  qed
  have b: "n_space_used n < 65536" "n_count n < 65536" using S(2) EPS_less [of "n_space_used n"] count_less [of "n_count n"] by auto
  have "to_u16 (int (n_space_used n) - int (getKeyLen n s + getPayloadLength n s)) = n_space_used n - len n (Entry_of s)"
    using le b by (subst to_u16_id) (auto simp: getKeyLen_def getPayloadLength_def)
  moreover have "to_u16 (int (n_count n) - 1) = n_count n - 1" using s b by (subst to_u16_id) auto
  moreover have "(shift_down s (n\<lparr>n_space_used := n_space_used n - len n (Entry_of s)\<rparr>))\<lparr>n_count := n_count n - 1\<rparr> = ?m"
    by (rule BTreeNode.equality) (simp_all add: unplaced_def shift_down_def cong: if_cong)
  moreover have "n_count (shift_down s (n\<lparr>n_space_used := x\<rparr>)) = n_count n" for x by (simp add: shift_down_def)
  ultimately have r: "removeSlot s n = makeHint ?m" unfolding removeSlot_def Let_def by simp
  have c: "n_count ?m = n_count n - 1" by (simp add: unplaced_def)
  note fr = unplaced_reads(3) [of n s]
  have "layout_ok f ?m"
  proof (rule base_ok_layout [where l = "getLowerFenceKey n" and u = "getUpperFenceKey n"])
    show "base_ok (used_upto (n_count ?m) ?m) ?m" unfolding c using unplaced_base [OF base s] used_upto_frame [OF fr] by simp
    show "slot_end (n_count ?m) \<le> n_data_offset ?m" using S(3) by (simp add: unplaced_def shift_down_def slot_end_def sizeof_Slot_def)
  qed (use fr lay in \<open>auto simp: same_frame_def layout_ok_def getLowerFenceKey_def getUpperFenceKey_def
      fence_bytes_def isLowerFenceInfinity_def isUpperFenceInfinity_def\<close>)
  moreover have keys: "full_keys ?m = remove_entry s (full_keys n)"
    by (simp add: full_keys_entries unplaced_entries [OF s] map_remove_entry)
  moreover have "heads_ok ?m" using sh unfolding heads_ok_def unplaced_reads shape_ok_def
    by (auto simp: unplaced_def shift_down_def)
  ultimately have "shape_ok f ?m" using sh fr set_remove_entry [of s "full_keys n"]
    by (auto simp: shape_ok_def same_frame_def sorted_remove_entry)
  then show "node_ok f (removeSlot s n)" unfolding r by (rule node_ok_makeHint)
  have ss: "same_store ?m (removeSlot s n)" by (simp add: r makeHint_def)
  show "entries (removeSlot s n) = remove_entry s (entries n)"
    unfolding same_store_reads(5) [OF ss] by (rule unplaced_entries [OF s])
  show "same_node n (removeSlot s n)" "n_has_garbage (removeSlot s n) = n_has_garbage n"
    using fr unfolding same_node_def same_store_reads(8,9) [OF ss]
    by (simp_all add: r makeHint_def same_frame_def)
  show "n_count (removeSlot s n) = n_count n - 1" by (simp add: r makeHint_def c)
qed

lemma nth_rank:
  assumes "sorted_wrt (<) (full_keys n)" "key \<in> set (full_keys n)"
  shows "rank n key < n_count n" "full_keys n ! rank n key = key"
proof -
  have d: "drop (rank n key) (full_keys n) = filter (\<lambda>k. key \<le> k) (full_keys n)"
    unfolding rank_def by (rule filter_less_sorted(2) [OF assms(1)])
  then have "key \<in> set (drop (rank n key) (full_keys n))" using assms(2) by simp
  then obtain x xs where xs: "drop (rank n key) (full_keys n) = x # xs" by (cases "drop (rank n key) (full_keys n)") auto
  have "rank n key < n_count n" using xs by (metis drop_eq_Nil length_full_keys list.distinct(1) not_less)
  have "sorted_wrt (<) (x # xs)" using assms(1) xs by (metis append_take_drop_id sorted_wrt_append)
  moreover have "key \<le> x" using d xs by (metis filter_eq_ConsD list.set_intros(1) mem_Collect_eq set_filter)
  moreover have "key \<in> set (x # xs)" using \<open>key \<in> set (drop (rank n key) (full_keys n))\<close> xs by simp
  ultimately have "x = key" by auto
  then show "full_keys n ! rank n key = key" "rank n key < n_count n"
    using xs \<open>rank n key < n_count n\<close> by (metis hd_drop_conv_nth length_full_keys list.sel(1), simp)
qed

lemma node_remove_spec:
  assumes "node_ok f n" "hints_supported f"
  shows "key \<notin> set (full_keys n) \<Longrightarrow> node_remove f n key = Some (False, n)"
    and "key \<in> set (full_keys n) \<Longrightarrow> node_remove f n key = Some (True, removeSlot (rank n key) n)"
  using assms lowerBound_rank [of n f] by (simp_all add: node_remove_def node_ok_def)

section \<open>New nodes\<close>

text \<open>A node just constructed over arbitrary memory is well formed and empty.\<close>

lemma new_node_ok: "node_ok f (BTreeNode_new leaf g)" "entries (BTreeNode_new leaf g) = []"
proof -
  let ?n = "BTreeNode_new leaf g"
  have "common_length [] [] = 0" using common_length(1) [of "[]" "[]"] by simp
  then have "setFences f None None ?n = ?n"
    by (intro BTreeNode.equality) (simp_all add: setFences_def insertFence_def BTreeNode_new_def fence_bytes_def)
  then have "fresh f None None leaf ?n" using setFences_new [of None None f leaf g]
    by (simp add: fences_len_def fence_bytes_def EFFECTIVE_PAGE_SIZE_def)
  then have b: "built f None None leaf [] ?n" by (rule fresh_built)
  have "shape_ok f ?n" by (rule built_shape [OF b]) (simp_all add: fences_len_def fence_bytes_def page_consts slot_end_def)
  then show "node_ok f ?n" by (simp add: node_ok_iff hints_ok_def BTreeNode_new_def)
  show "entries ?n = []" using b by (simp add: built_def)
qed

definition zero_page :: BTreeNode where
  "zero_page =
     \<lparr>n_upper = 0, n_upper_pending_lsn = (\<lambda>_. 0), n_lower_fence = \<lparr>f_offset = 0, f_length = 0\<rparr>,
      n_upper_fence = \<lparr>f_offset = 0, f_length = 0\<rparr>, n_count = 0, n_is_leaf = False, n_space_used = 0,
      n_data_offset = 0, n_prefix_length = 0, n_hint = (\<lambda>_. 0), n_has_garbage = False,
      n_slot = (\<lambda>_. \<lparr>s_offset = 0, s_key_len = 0, s_payload_len = 0, s_frozen = False, s_head = 0\<rparr>),
      n_mem = (\<lambda>_. 0)\<rparr>"

lemma new_node_insertable:
  assumes "length key + L < 3000"
  shows "insertable f (BTreeNode_new leaf g) key L"
proof -
  have "full_keys (BTreeNode_new leaf g) = []" by (simp add: full_keys_entries new_node_ok(2))
  moreover have "compareKeyWithBoundaries (BTreeNode_new leaf g) key = 0"
    by (simp add: compareKeyWithBoundaries_def getLowerFenceKey_def getUpperFenceKey_def BTreeNode_new_def)
  moreover have "canInsert (BTreeNode_new leaf g) (length key) L"
    using assms by (simp add: canInsert_def hasEnoughSpaceFor_def freeSpace_def spaceNeeded_def spaceNeeded3_def
        BTreeNode_new_def slot_end_def page_consts nat_le_iff)
  ultimately show ?thesis using new_node_ok(1) assms by (simp add: insertable_def sizeof_Slot_def BTreeNode_new_def)
qed

section \<open>Properties\<close>

text \<open>
  C6: The search.  On a node with sorted keys, heads that match their keys and exact hints,
  \<^verbatim>\<open>lowerBound\<close> agrees with a scan of the full keys: the general instance returns the
  number of keys below the key searched for, the equality instance that number if the key is
  present and -1 otherwise, and the flag for equality says whether it is present (it is written in
  leaves only).  This holds with and without heads, with hints off, serial or vectorized, for keys
  shorter than the prefix and for keys that leave it on either side.
\<close>
theorem lowerBound_correct:
  assumes "search_ok n" "hints_supported f"
  shows "lowerBound f eq n key is_equal =
    Some (if eq \<and> key \<notin> set (full_keys n) then -1 else int (length (filter (\<lambda>k. k < key) (full_keys n))),
          if is_equal \<noteq> None \<and> n_is_leaf n then Some (key \<in> set (full_keys n)) else is_equal)"
  using lowerBound_rank [OF assms] by (simp add: rank_def)

theorem lowerBound_correct_witness:
  "\<exists>n. node_insert default_flags zero_page (BTreeNode_new True zero_page) [1, 2] [3] = Some (0, n) \<and>
     lowerBound default_flags True n [1, 2] (Some False) = Some (0, if n_is_leaf n then Some True else Some False) \<and>
     lowerBound default_flags False n [2] None = Some (1, None)"
proof -
  let ?n = "BTreeNode_new True zero_page"
  have ins: "insertable default_flags ?n [1, 2] (length [3::u8])" by (simp add: new_node_insertable)
  have h: "hints_supported default_flags" by (simp add: hints_supported_def)
  obtain n where n: "node_insert default_flags zero_page ?n [1, 2] [3] = Some (int (rank ?n [1, 2]), n)" "node_ok default_flags n"
    "entries n = insert_entry (rank ?n [1, 2]) ([1, 2], [3], False) (entries ?n)"
    using node_insert_spec [OF ins h, of zero_page] .
  then have "full_keys n = [[1, 2]]" "rank ?n [1, 2] = 0" by (simp_all add: new_node_ok(2) insert_entry_def rank_def full_keys_entries)
  moreover have "search_ok n" using n(2) by (simp add: node_ok_def)
  ultimately show ?thesis using n(1) lowerBound_correct [OF _ h, of n] by auto
qed

text \<open>
  C5: Insertion into a node.  For a key inside the fences that is not in the node yet and an
  entry that fits according to \<^verbatim>\<open>canInsert\<close> (and whose size does not wrap in 16 bits),
  \<^verbatim>\<open>insert\<close> returns the number of smaller keys, compacting the node first if it has to;
  afterwards the entries are the old ones with the new one at that position, the fences, the
  upper swip and its pending LSNs are unchanged, and the node is well formed again: slots and
  heap chunks disjoint, space accounted for, keys sorted and inside the fences, heads and hints
  exact.  A key that is in the node aborts.
\<close>
theorem insert_correct:
  assumes "hints_supported f" "node_ok f n"
  shows "(insertable f n key (length payload) \<longrightarrow>
      (\<exists>n'. node_insert f g n key payload = Some (int (rank n key), n') \<and> node_ok f n' \<and> same_node n n' \<and>
        entries n' = take (rank n key) (entries n) @ (key, payload, False) # drop (rank n key) (entries n))) \<and>
    (key \<in> set (full_keys n) \<longrightarrow> node_insert f g n key payload = None)"
  using node_insert_spec [of f n key payload g] node_insert_duplicate [OF assms(2,1)] assms
  unfolding insert_entry_def by metis

theorem insert_correct_witness:
  "\<exists>n'. node_insert default_flags zero_page (BTreeNode_new True zero_page) [1, 2] [3] = Some (0, n') \<and>
     node_ok default_flags n' \<and> entries n' = [([1, 2], [3], False)]"
  using insert_correct [of default_flags "BTreeNode_new True zero_page" "[1, 2]" "[3]" zero_page]
    new_node_ok(1) [of default_flags True zero_page] new_node_ok(2) [of True zero_page] new_node_insertable [of "[1, 2]" 1 default_flags True zero_page]
  by (auto simp: hints_supported_def rank_def full_keys_entries)

text \<open>
  C12: Compaction.  \<^verbatim>\<open>compactify\<close> keeps the entries, the frozen marks, the fences, the upper
  swip and its pending LSNs, whatever the temporary node's memory held; the heap is packed, so the
  free space afterwards is what \<^verbatim>\<open>freeSpaceAfterCompaction\<close> announced.  The garbage
  mark of the header is lost.
\<close>
theorem compactify_correct:
  assumes "node_ok f n"
  shows "node_ok f (compactify f g n) \<and> entries (compactify f g n) = entries n \<and> same_node n (compactify f g n) \<and>
    freeSpace (compactify f g n) = freeSpaceAfterCompaction n \<and> \<not> n_has_garbage (compactify f g n)"
proof -
  have sh: "shape_ok f n" and lay: "layout_ok f n" using assms by (simp_all add: node_ok_iff shape_ok_def)
  note C = compactify_spec [OF sh, of g]
  then have "layout_ok f (compactify f g n)" by (simp add: node_ok_def)
  then show ?thesis using C freeSpace_layout [of f "compactify f g n"] freeSpace_layout(2) [OF lay] by simp
qed

theorem compactify_correct_witness:
  "node_ok default_flags (compactify default_flags zero_page (BTreeNode_new True zero_page)) \<and>
   freeSpace (compactify default_flags zero_page (BTreeNode_new True zero_page)) = 3875"
  using compactify_correct [OF new_node_ok(1) [of default_flags True zero_page], of zero_page]
  by (simp add: freeSpaceAfterCompaction_def BTreeNode_new_def slot_end_def page_consts)

text \<open>
  C13: Removal.  \<^verbatim>\<open>remove\<close> of a key that is not in the node answers false and changes
  nothing.  Of a key that is there it answers true, and afterwards the entry at its rank, which
  is the entry of that key, is gone and all others are in order; the node stays well formed, so
  the space of the entry is accounted as free and the hints are exact.
\<close>
theorem remove_correct:
  assumes "hints_supported f" "node_ok f n"
  shows "(key \<notin> set (full_keys n) \<longrightarrow> node_remove f n key = Some (False, n)) \<and>
    (key \<in> set (full_keys n) \<longrightarrow>
      (\<exists>n' payload fr. node_remove f n key = Some (True, n') \<and> node_ok f n' \<and> same_node n n' \<and>
        entries n = take (rank n key) (entries n') @ (key, payload, fr) # drop (rank n key) (entries n')))"
proof (intro conjI impI)
  assume "key \<notin> set (full_keys n)"
  then show "node_remove f n key = Some (False, n)" by (rule node_remove_spec(1) [OF assms(2,1)])
next
  assume inn: "key \<in> set (full_keys n)"
  have so: "sorted_wrt (<) (full_keys n)" using assms(2) by (simp add: node_ok_iff shape_ok_def)
  note R = nth_rank [OF so inn] and S = removeSlot_spec [OF assms(2) nth_rank(1) [OF so inn]]
  obtain payload fr where e: "entries n ! rank n key = (key, payload, fr)"
    using R by (cases "entries n ! rank n key") (simp add: full_keys_entries)
  have "entries n = take (rank n key) (entries n) @ (key, payload, fr) # drop (rank n key + 1) (entries n)"
    using R(1) id_take_nth_drop [of "rank n key" "entries n"] e by simp
  also have "take (rank n key) (entries n) = take (rank n key) (entries (removeSlot (rank n key) n))"
    using R(1) by (simp add: S(2) remove_entry_def)
  also have "drop (rank n key + 1) (entries n) = drop (rank n key) (entries (removeSlot (rank n key) n))"
    using R(1) by (simp add: S(2) remove_entry_def)
  finally show "\<exists>n' payload fr. node_remove f n key = Some (True, n') \<and> node_ok f n' \<and> same_node n n' \<and>
        entries n = take (rank n key) (entries n') @ (key, payload, fr) # drop (rank n key) (entries n')"
    using node_remove_spec(2) [OF assms(2,1) inn] S by blast
qed

theorem remove_correct_witness:
  "\<exists>n n'. node_insert default_flags zero_page (BTreeNode_new True zero_page) [1, 2] [3] = Some (0, n) \<and>
     node_remove default_flags n [1, 2] = Some (True, n') \<and> node_ok default_flags n' \<and> entries n' = []"
proof -
  let ?n = "BTreeNode_new True zero_page"
  have ins: "insertable default_flags ?n [1, 2] (length [3::u8])" by (simp add: new_node_insertable)
  have h: "hints_supported default_flags" by (simp add: hints_supported_def)
  obtain n where n: "node_insert default_flags zero_page ?n [1, 2] [3] = Some (int (rank ?n [1, 2]), n)" "node_ok default_flags n"
    "entries n = insert_entry (rank ?n [1, 2]) ([1, 2], [3], False) (entries ?n)"
    using node_insert_spec [OF ins h, of zero_page] .
  then have "entries n = [([1, 2], [3], False)]" "rank ?n [1, 2] = 0" by (simp_all add: new_node_ok(2) insert_entry_def rank_def full_keys_entries)
  then show ?thesis using n(1) remove_correct [OF h n(2), of "[1, 2]"]
    by (auto simp: full_keys_entries rank_def Cons_eq_append_conv)
qed

end
