(* ===== verification/BTree_Split.thy ===== *)
theory BTree_Split
  imports BTree_Insert
begin

text \<open>
  Splitting and merging nodes (\<^verbatim>\<open>BTreeNode.cpp\<close>): the choice of a separator, the
  distribution of the entries over two nodes with the update of the parent, and the merge of a
  node into its right neighbour.  The page guards of the C++ code only carry the nodes here; their
  latches are the subject of \<^verbatim>\<open>Latch\<close>.
\<close>

section \<open>Separators\<close>

definition commonPrefix :: "BTreeNode \<Rightarrow> nat \<Rightarrow> nat \<Rightarrow> nat" where
  "commonPrefix n slotA slotB =
     (if n_count n = 0 then 0
      else to_u16 (int (scan (\<lambda>i. n_mem n (s_offset (n_slot n slotA) + i) \<noteq> n_mem n (s_offset (n_slot n slotB) + i)) 0
                     (min (s_key_len (n_slot n slotA)) (s_key_len (n_slot n slotB))))))"

definition best_slot :: "BTreeNode \<Rightarrow> nat" where
  "best_slot n =
     (if n_count n > 16 then
        let lower = n_count n div 2 - n_count n div 16;
            upper = n_count n div 2;
            bestPrefixLength = commonPrefix n lower 0
        in if bestPrefixLength \<noteq> commonPrefix n (upper - 1) 0
           then scan (\<lambda>s. commonPrefix n s 0 \<noteq> bestPrefixLength) (lower + 1) upper
           else lower
      else (n_count n - 1) div 2)"

definition findSep :: "BTreeNode \<Rightarrow> SeparatorInfo" where
  "findSep n =
     (if isInner n then
        let slotId = n_count n div 2 in
        \<lparr>sep_length = to_u16 (int (n_prefix_length n + s_key_len (n_slot n slotId))), sep_slot = slotId, sep_trunc = False\<rparr>
      else
        let bestSlot = best_slot n;
            common = commonPrefix n bestSlot (bestSlot + 1) in
        if bestSlot + 1 < n_count n \<and> s_key_len (n_slot n bestSlot) > common \<and>
           s_key_len (n_slot n (bestSlot + 1)) > common + 1
        then \<lparr>sep_length = to_u16 (int (n_prefix_length n + common + 1)), sep_slot = bestSlot, sep_trunc = True\<rparr>
        else \<lparr>sep_length = to_u16 (int (n_prefix_length n + s_key_len (n_slot n bestSlot))), sep_slot = bestSlot,
              sep_trunc = False\<rparr>)"

definition getSep :: "BTreeNode \<Rightarrow> SeparatorInfo \<Rightarrow> key" where
  "getSep n info =
     getPrefix n @
     rd (n_mem n) (s_offset (n_slot n (if sep_trunc info then sep_slot info + 1 else sep_slot info)))
       (sep_length info - n_prefix_length n)"

section \<open>Children\<close>

definition set_child :: "BTreeNode \<Rightarrow> child_ref \<Rightarrow> u64 \<Rightarrow> BTreeNode" where
  "set_child n r swip =
     (case r of Upper_ref \<Rightarrow> n\<lparr>n_upper := swip\<rparr>
              | Slot_ref i \<Rightarrow> n\<lparr>n_mem := wr (n_mem n) (payload_at n i) (le_bytes 8 swip)\<rparr>)"

definition swap_children :: "BTreeNode \<Rightarrow> child_ref \<Rightarrow> child_ref \<Rightarrow> BTreeNode" where
  "swap_children n a b =
     (let x = child_swip n a; y = child_swip n b in set_child (set_child n a y) b x)"

section \<open>Split\<close>

definition splitImpl ::
  "flags \<Rightarrow> BTreeNode \<Rightarrow> BTreeNode \<Rightarrow> BTreeNode \<Rightarrow> BTreeNode \<Rightarrow> BTreeNode \<Rightarrow> u64 \<Rightarrow> bool \<Rightarrow> nat \<Rightarrow> key \<Rightarrow>
     (BTreeNode \<times> BTreeNode \<times> BTreeNode) option" where
  "splitImpl f g this parent nodeLeft nodeRight new_swip new_is_right sepSlot sepKey = do {
     let nodeLeft = setFences f (getLowerFenceKey this) (Some sepKey) nodeLeft;
     let nodeRight = setFences f (Some sepKey) (getUpperFenceKey this) nodeRight;
     (sep_pos, parent) \<leftarrow> node_insert f g parent sepKey (le_bytes 8 new_swip);
     let s = nat sep_pos;
     let parent = (if new_is_right
                   then swap_children parent (Slot_ref s)
                          (if s + 1 < n_count parent then Slot_ref (s + 1) else Upper_ref)
                   else parent);
     let (nodeLeft, nodeRight) =
       (if n_is_leaf this then
          let l = copyKeyValueRange this nodeLeft 0 0 (sepSlot + 1);
              r = copyKeyValueRange this nodeRight 0 (n_count l) (n_count this - n_count l)
          in (l\<lparr>n_has_garbage := n_has_garbage this\<rparr>, r\<lparr>n_has_garbage := n_has_garbage this\<rparr>)
        else
          let l = copyKeyValueRange this nodeLeft 0 0 sepSlot;
              r = copyKeyValueRange this nodeRight 0 (n_count l + 1) (n_count this - n_count l - 1)
          in (setUpper (getChild this (n_count l)) (child_lsns this (n_count l)) l,
              setUpper (n_upper this) (n_upper_pending_lsn this) r));
     Some (parent, makeHint nodeLeft, makeHint nodeRight) }"

text \<open>The result: the parent, this node and the new node.\<close>

definition node_split ::
  "flags \<Rightarrow> BTreeNode \<Rightarrow> BTreeNode \<Rightarrow> BTreeNode \<Rightarrow> BTreeNode \<Rightarrow> BTreeNode \<Rightarrow> u64 \<Rightarrow> nat \<Rightarrow> key \<Rightarrow>
     (BTreeNode \<times> BTreeNode \<times> BTreeNode) option" where
  "node_split f g gt this parent new_node new_swip sepSlot sepKey =
     (let tmp = BTreeNode_new (n_is_leaf this) gt in
      if FLAGS_btree_split_alloc_right f
      then do { (parent, tmp, new_node) \<leftarrow> splitImpl f g this parent tmp new_node new_swip True sepSlot sepKey;
                Some (parent, tmp, new_node) }
      else do { (parent, new_node, tmp) \<leftarrow> splitImpl f g this parent new_node tmp new_swip False sepSlot sepKey;
                Some (parent, tmp, new_node) })"

section \<open>Merge\<close>

definition mergeSpaceUpperBound :: "flags \<Rightarrow> BTreeNode \<Rightarrow> BTreeNode \<Rightarrow> BTreeNode \<Rightarrow> int" where
  "mergeSpaceUpperBound f g this right =
     (let tmp = setFences f (getLowerFenceKey this) (getUpperFenceKey right) (BTreeNode_new True g);
          leftGrow = (int (n_prefix_length this) - int (n_prefix_length tmp)) * int (n_count this) mod 2 ^ 32;
          rightGrow = (int (n_prefix_length right) - int (n_prefix_length tmp)) * int (n_count right) mod 2 ^ 32
      in (int (n_space_used this) + int (n_space_used right) + int (slot_end (n_count this + n_count right)) +
          leftGrow + rightGrow) mod 2 ^ 32)"

definition spaceUsedBySlot :: "BTreeNode \<Rightarrow> nat \<Rightarrow> nat" where
  "spaceUsedBySlot n i = sizeof_Slot + getKeyLen n i + getPayloadLength n i"

text \<open>
  \<^verbatim>\<open>merge\<close>: \<open>None\<close> when the entries of both nodes do not fit, otherwise the parent and the
  right node.
\<close>

definition merge ::
  "flags \<Rightarrow> BTreeNode \<Rightarrow> nat \<Rightarrow> BTreeNode \<Rightarrow> BTreeNode \<Rightarrow> BTreeNode \<Rightarrow> (BTreeNode \<times> BTreeNode) option" where
  "merge f g slotId this parent right =
     (let tmp = setFences f (getLowerFenceKey this) (getUpperFenceKey right) (BTreeNode_new (n_is_leaf this) g);
          leftGrow = to_u16 ((int (n_prefix_length this) - int (n_prefix_length tmp)) * int (n_count this));
          rightGrow = to_u16 ((int (n_prefix_length right) - int (n_prefix_length tmp)) * int (n_count right));
          both = int (n_space_used this) + int (n_space_used right) + int (slot_end (n_count this + n_count right)) +
                 int leftGrow + int rightGrow
      in if n_is_leaf this then
           if to_u16 both > EFFECTIVE_PAGE_SIZE then None
           else
             let tmp = copyKeyValueRange this tmp 0 0 (n_count this);
                 tmp = copyKeyValueRange right tmp (n_count this) 0 (n_count right)
             in Some (removeSlot slotId parent, makeHint tmp)
         else
           let extraKeyLength = getFullKeyLen parent slotId in
           if to_u16 (both + int (spaceNeeded3 extraKeyLength (swipPayloadLength (n_upper this)) (n_prefix_length tmp)))
              > EFFECTIVE_PAGE_SIZE then None
           else
             let tmp = copyKeyValueRange this tmp 0 0 (n_count this);
                 extraKey = copyFullKey parent slotId;
                 payload = le_bytes 8 (n_upper this) @
                   concat (map (\<lambda>i. le_bytes 8 (n_upper_pending_lsn this i)) [0..<unat (pendingLSNCount (n_upper this))]);
                 tmp = storeKeyValue (n_count this) extraKey payload tmp;
                 tmp = tmp\<lparr>n_count := to_u16 (int (n_count tmp) + 1)\<rparr>;
                 tmp = copyKeyValueRange right tmp (n_count tmp) 0 (n_count right);
                 parent = removeSlot slotId parent;
                 tmp = setUpper (n_upper right) (n_upper_pending_lsn right) tmp
             in Some (parent, makeHint tmp))"

section \<open>The separator separates\<close>

lemma scan_cong: "(\<And>i. pos \<le> i \<Longrightarrow> i < bound \<Longrightarrow> P i = Q i) \<Longrightarrow> scan P pos bound = scan Q pos bound"
proof (induction P pos bound rule: scan.induct)
  case (1 P pos bound)
  show ?case
  proof (cases "pos < bound \<and> \<not> P pos")
    case True
    then have "scan P (pos + 1) bound = scan Q (pos + 1) bound" using 1 by auto
    then show ?thesis using True 1(2) [of pos] by (simp add: scan.simps [of P pos] scan.simps [of Q pos])
  next
    case False
    then show ?thesis using 1(2) [of pos] by (auto simp: scan.simps [of P pos] scan.simps [of Q pos])
  qed
qed

lemma commonPrefix_eq:
  assumes "n_count n \<noteq> 0" "s_key_len (n_slot n a) < 65536"
  shows "commonPrefix n a b = common_length (getKey n a) (getKey n b)"
proof -
  have "scan (\<lambda>i. n_mem n (s_offset (n_slot n a) + i) \<noteq> n_mem n (s_offset (n_slot n b) + i)) 0
      (min (s_key_len (n_slot n a)) (s_key_len (n_slot n b))) = common_length (getKey n a) (getKey n b)"
    unfolding common_length_def length_getKey by (rule scan_cong) (simp add: getKey_def nth_rd)
  moreover have "common_length (getKey n a) (getKey n b) \<le> s_key_len (n_slot n a)"
    using common_length(1) [of "getKey n a"] by simp
  ultimately show ?thesis using assms by (simp add: commonPrefix_def)
qed

lemma best_slot_less:
  assumes "2 \<le> n_count n"
  shows "best_slot n + 1 < n_count n"
proof (cases "n_count n > 16")
  case True
  let ?lower = "n_count n div 2 - n_count n div 16" and ?upper = "n_count n div 2"
  have "?lower + 1 \<le> ?upper" using True by linarith
  then have "scan (\<lambda>s. commonPrefix n s 0 \<noteq> commonPrefix n ?lower 0) (?lower + 1) ?upper \<le> ?upper"
    using scan_spec by blast
  moreover have "?upper + 1 < n_count n" using True by linarith
  ultimately show ?thesis using True \<open>?lower + 1 \<le> ?upper\<close> by (simp add: best_slot_def Let_def)
qed (use assms in \<open>auto simp: best_slot_def\<close>)

lemma truncated_between:
  fixes a b :: key
  assumes "a < b" "c = common_length a b" "c < length a" "c + 1 < length b"
  shows "a < take (c + 1) b" "take (c + 1) b < b"
proof -
  have eq: "take c a = take c b" using common_length(3) [of a b] assms(2) by simp
  define x y where "x = a ! c" and "y = b ! c"
  have a: "a = take c a @ x # drop (c + 1) a" and b: "b = take c a @ y # drop (c + 1) b"
    unfolding x_def y_def using assms(3,4) eq id_take_nth_drop [of c a] id_take_nth_drop [of c b] by simp_all
  have "x \<noteq> y"
    using scan_spec [of 0 "min (length a) (length b)" "\<lambda>i. a ! i \<noteq> b ! i"] assms(2-4)
    by (simp add: common_length_def x_def y_def)
  have "x # drop (c + 1) a < y # drop (c + 1) b" using assms(1) a b key_append_less by metis
  then have "x < y" using \<open>x \<noteq> y\<close> by simp
  have t: "take (c + 1) b = take c a @ [y]" using eq assms(4) by (simp add: take_Suc_conv_app_nth y_def)
  have "x # drop (c + 1) a < [y]" using \<open>x < y\<close> by simp
  then show "a < take (c + 1) b" unfolding t using a key_append_less by metis
  have "[y] < y # drop (c + 1) b" using assms(4) by (simp add: Nil_less_iff)
  then show "take (c + 1) b < b" unfolding t using b key_append_less by metis
qed

lemma key_len_small:
  assumes "layout_ok f n" "i < n_count n"
  shows "n_prefix_length n + s_key_len (n_slot n i) < 65536" "n_prefix_length n \<le> EFFECTIVE_PAGE_SIZE"
    "s_key_len (n_slot n i) \<le> EFFECTIVE_PAGE_SIZE"
proof -
  note S = layout_space [OF assms(1)]
  have "Entry_of i \<in> chunks n" using assms(2) by (simp add: chunks_def)
  then have "len n (Entry_of i) \<le> EFFECTIVE_PAGE_SIZE"
    using assms(1) chunks_okD(5) [of "chunks n" n "Entry_of i"] by (simp add: layout_ok_def)
  then show kl: "s_key_len (n_slot n i) \<le> EFFECTIVE_PAGE_SIZE" by simp
  have "n_prefix_length n \<le> fences_len (getLowerFenceKey n) (getUpperFenceKey n)"
    using assms(1) common_length(1) [of "fence_bytes (getLowerFenceKey n)" "fence_bytes (getUpperFenceKey n)"]
    by (auto simp: layout_ok_def prefix_for_def fences_len_def)
  then show pl: "n_prefix_length n \<le> EFFECTIVE_PAGE_SIZE" using S(1,2) by linarith
  show "n_prefix_length n + s_key_len (n_slot n i) < 65536" using kl pl by (simp add: EFFECTIVE_PAGE_SIZE_def)
qed

text \<open>What \<^verbatim>\<open>findSep\<close> and \<^verbatim>\<open>getSep\<close> choose.\<close>

lemma findSep_leaf:
  assumes ok: "node_ok f n" and leaf: "n_is_leaf n" and two: "2 \<le> n_count n"
  defines "s \<equiv> sep_slot (findSep n)" and "sep \<equiv> getSep n (findSep n)"
  shows "s + 1 < n_count n" "copyFullKey n s \<le> sep" "sep < copyFullKey n (s + 1)" "length sep = sep_length (findSep n)"
proof -
  have lay: "layout_ok f n" and so: "search_ok n" using ok by (simp_all add: node_ok_def)
  have s: "s = best_slot n" using leaf by (simp add: s_def findSep_def isInner_def Let_def)
  show s1: "s + 1 < n_count n" unfolding s by (rule best_slot_less [OF two])
  have less: "getKey n s < getKey n (s + 1)" using getKey_less_iff [OF so, of s "s + 1"] s1 by simp
  define c where "c = commonPrefix n s (s + 1)"
  have c: "c = common_length (getKey n s) (getKey n (s + 1))" unfolding c_def
    using key_len_small(1) [OF lay, of s] s1 by (intro commonPrefix_eq) auto
  note small = key_len_small(1) [OF lay, of s] key_len_small(1) [OF lay, of "s + 1"]
  have "copyFullKey n s \<le> sep \<and> sep < copyFullKey n (s + 1) \<and> length sep = sep_length (findSep n)"
  proof (cases "s_key_len (n_slot n s) > c \<and> s_key_len (n_slot n (s + 1)) > c + 1")
    case True
    then have f: "findSep n = \<lparr>sep_length = n_prefix_length n + c + 1, sep_slot = s, sep_trunc = True\<rparr>"
      using leaf s1 small unfolding s c_def by (simp add: findSep_def isInner_def Let_def)
    have "sep = getPrefix n @ rd (n_mem n) (s_offset (n_slot n (s + 1))) (c + 1)" unfolding sep_def getSep_def f by simp
    moreover have "rd (n_mem n) (s_offset (n_slot n (s + 1))) (c + 1) = take (c + 1) (getKey n (s + 1))"
      using True by (simp add: getKey_def take_rd)
    ultimately have sep: "sep = getPrefix n @ take (c + 1) (getKey n (s + 1))" by simp
    have "getKey n s < take (c + 1) (getKey n (s + 1))" "take (c + 1) (getKey n (s + 1)) < getKey n (s + 1)"
      using truncated_between [OF less c] True by simp_all
    moreover have "length sep = sep_length (findSep n)" using True unfolding sep f by simp
    ultimately show ?thesis unfolding sep copyFullKey_def key_append_less by (simp add: less_imp_le key_append_less not_less [symmetric])
  next
    case False
    then have f: "findSep n = \<lparr>sep_length = n_prefix_length n + s_key_len (n_slot n s), sep_slot = s, sep_trunc = False\<rparr>"
      using leaf s1 small unfolding s c_def by (auto simp: findSep_def isInner_def Let_def)
    then have "sep = copyFullKey n s" unfolding sep_def getSep_def f by (simp add: copyFullKey_def getKey_def)
    then show ?thesis using less f by (simp add: copyFullKey_def key_append_less)
  qed
  then show "copyFullKey n s \<le> sep" "sep < copyFullKey n (s + 1)" "length sep = sep_length (findSep n)" by blast+
qed

lemma findSep_inner:
  assumes ok: "node_ok f n" and inner: "isInner n" and two: "2 \<le> n_count n"
  shows "sep_slot (findSep n) = n_count n div 2" "getSep n (findSep n) = copyFullKey n (n_count n div 2)"
    "length (getSep n (findSep n)) = sep_length (findSep n)"
proof -
  have lay: "layout_ok f n" using ok by (simp add: node_ok_def)
  have f: "findSep n = \<lparr>sep_length = n_prefix_length n + s_key_len (n_slot n (n_count n div 2)), sep_slot = n_count n div 2, sep_trunc = False\<rparr>"
    using inner key_len_small(1) [OF lay, of "n_count n div 2"] two by (simp add: findSep_def Let_def)
  then show "sep_slot (findSep n) = n_count n div 2" by simp
  show e: "getSep n (findSep n) = copyFullKey n (n_count n div 2)" unfolding f by (simp add: getSep_def copyFullKey_def getKey_def)
  show "length (getSep n (findSep n)) = sep_length (findSep n)" by (subst e) (simp add: f)
qed

section \<open>Writing into a payload\<close>

definition splice :: "nat \<Rightarrow> 'a list \<Rightarrow> 'a list \<Rightarrow> 'a list" where
  "splice a bs xs = take a xs @ bs @ drop (a + length bs) xs"

definition write_payload :: "nat \<Rightarrow> nat \<Rightarrow> u8 list \<Rightarrow> BTreeNode \<Rightarrow> BTreeNode" where
  "write_payload i a bs n = n\<lparr>n_mem := wr (n_mem n) (payload_at n i + a) bs\<rparr>"

lemma rd_wr_inside:
  assumes "a + length bs \<le> k"
  shows "rd (wr m (o' + a) bs) o' k = splice a bs (rd m o' k)"
proof (rule nth_equalityI)
  show "length (rd (wr m (o' + a) bs) o' k) = length (splice a bs (rd m o' k))" using assms by (simp add: splice_def)
  fix x assume "x < length (rd (wr m (o' + a) bs) o' k)"
  then show "rd (wr m (o' + a) bs) o' k ! x = splice a bs (rd m o' k) ! x"
    using assms by (auto simp: nth_rd wr_def splice_def nth_append)
qed

lemma write_payload_reads:
  assumes lay: "layout_ok f n" and i: "i < n_count n" and fit: "a + length bs \<le> s_payload_len (n_slot n i)"
  defines "n' \<equiv> write_payload i a bs n"
  shows "\<And>j. j < n_count n \<Longrightarrow> getKey n' j = getKey n j"
    and "\<And>j. j < n_count n \<Longrightarrow> getPayload n' j = (if j = i then splice a bs (getPayload n i) else getPayload n j)"
    and "getLowerFenceKey n' = getLowerFenceKey n" "getUpperFenceKey n' = getUpperFenceKey n" "getPrefix n' = getPrefix n"
proof -
  have ch: "chunks_ok (chunks n) n" using lay by (simp add: layout_ok_def)
  have I: "Entry_of i \<in> chunks n" using i by (simp add: chunks_def)
  have apart: "rd (n_mem n') o' k = rd (n_mem n) o' k"
    if c: "c \<in> chunks n" "c \<noteq> Entry_of i" "off n c \<le> o'" "o' + k \<le> off n c + len n c" for c o' k
  proof -
    have "off n c + len n c \<le> off n (Entry_of i) \<or> off n (Entry_of i) + len n (Entry_of i) \<le> off n c"
      using chunks_okD(6) [OF ch c(1) I c(2)] .
    then have "o' + k \<le> payload_at n i + a \<or> payload_at n i + a + length bs \<le> o'"
      using c(3,4) fit by (auto simp: payload_at_def)
    then show ?thesis unfolding n'_def write_payload_def by (simp add: rd_wr_disjoint)
  qed
  show "getKey n' j = getKey n j" if j: "j < n_count n" for j
  proof (cases "j = i")
    case True
    then show ?thesis by (simp add: n'_def write_payload_def getKey_def payload_at_def rd_wr_disjoint)
  next
    case False
    then have "rd (n_mem n') (s_offset (n_slot n j)) (s_key_len (n_slot n j)) = rd (n_mem n) (s_offset (n_slot n j)) (s_key_len (n_slot n j))"
      using j by (intro apart [of "Entry_of j"]) (auto simp: chunks_def)
    then show ?thesis by (simp add: getKey_def n'_def write_payload_def)
  qed
  show "getPayload n' j = (if j = i then splice a bs (getPayload n i) else getPayload n j)" if j: "j < n_count n" for j
  proof (cases "j = i")
    case True
    then show ?thesis using fit rd_wr_inside by (simp add: n'_def write_payload_def getPayload_def payload_at_def)
  next
    case False
    then have "rd (n_mem n') (payload_at n j) (s_payload_len (n_slot n j)) = rd (n_mem n) (payload_at n j) (s_payload_len (n_slot n j))"
      using j by (intro apart [of "Entry_of j"]) (auto simp: chunks_def payload_at_def)
    then show ?thesis using False by (simp add: getPayload_def payload_at_def n'_def write_payload_def)
  qed
  have low: "Lower_fence \<in> chunks n" if "\<not> isLowerFenceInfinity n" using that by (simp add: chunks_def fence_chunks_def)
  have upp: "Upper_fence \<in> chunks n" if "\<not> isUpperFenceInfinity n" using that by (simp add: chunks_def fence_chunks_def)
  have same: "n_lower_fence n' = n_lower_fence n" "n_upper_fence n' = n_upper_fence n" "n_prefix_length n' = n_prefix_length n"
    by (simp_all add: n'_def write_payload_def)
  show "getLowerFenceKey n' = getLowerFenceKey n"
    using apart [OF low] by (auto simp: getLowerFenceKey_def isLowerFenceInfinity_def same)
  show "getUpperFenceKey n' = getUpperFenceKey n"
    using apart [OF upp] by (auto simp: getUpperFenceKey_def isUpperFenceInfinity_def same)
  show "getPrefix n' = getPrefix n"
  proof (cases "isLowerFenceInfinity n")
    case True
    then have "n_prefix_length n = 0" using layout_base_ok [OF lay] by (simp add: base_ok_def)
    then show ?thesis by (simp add: getPrefix_def same)
  next
    case False
    have "n_prefix_length n \<le> f_length (n_lower_fence n)"
      using lay False common_length(1) [of "fence_bytes (getLowerFenceKey n)" "fence_bytes (getUpperFenceKey n)"]
      by (auto simp: layout_ok_def prefix_for_def getLowerFenceKey_def isLowerFenceInfinity_def fence_bytes_def split: if_splits)
    then show ?thesis using apart [OF low [OF False]] by (simp add: getPrefix_def same)
  qed
qed

lemma write_payload_ok:
  assumes ok: "node_ok f n" and i: "i < n_count n" and fit: "a + length bs \<le> s_payload_len (n_slot n i)"
  defines "n' \<equiv> write_payload i a bs n"
  shows "node_ok f n'" "entries n' = (entries n)[i := (copyFullKey n i, splice a bs (getPayload n i), isFrozen n i)]"
    "same_node n n'" "n_has_garbage n' = n_has_garbage n"
proof -
  have sh: "shape_ok f n" and lay: "layout_ok f n" and hint: "hints_ok n" using ok by (simp_all add: node_ok_iff shape_ok_def)
  note R = write_payload_reads [OF lay i fit, folded n'_def]
  have same: "n_lower_fence n' = n_lower_fence n" "n_upper_fence n' = n_upper_fence n" "n_prefix_length n' = n_prefix_length n"
    "n_count n' = n_count n" "n_space_used n' = n_space_used n" "n_data_offset n' = n_data_offset n" "n_slot n' = n_slot n"
    "n_hint n' = n_hint n" by (simp_all add: n'_def write_payload_def)
  have e: "entry_at n' j = (if j = i then (copyFullKey n i, splice a bs (getPayload n i), isFrozen n i) else entry_at n j)"
    if "j < n_count n" for j using R that same by (simp add: entry_at_def copyFullKey_def isFrozen_def)
  show ent: "entries n' = (entries n)[i := (copyFullKey n i, splice a bs (getPayload n i), isFrozen n i)]"
    using i e by (intro nth_equalityI) (auto simp: entries_def same nth_list_update)
  have keys: "full_keys n' = full_keys n" unfolding full_keys_def same using R by (simp add: copyFullKey_def)
  have ol: "off n' = off n" "len n' = len n" by (auto simp: off_def len_def same split: chunk.splits)
  have "layout_ok f n'" using lay R(3,4)
    by (simp add: layout_ok_def chunks_ok_def ol same chunks_def fence_chunks_def isLowerFenceInfinity_def isUpperFenceInfinity_def)
  moreover have "heads_ok n'" using sh R(1) by (simp add: shape_ok_def heads_ok_def same)
  moreover have "hints_ok n'" using hint by (simp add: hints_ok_def same hint_dist_def)
  ultimately show "node_ok f n'" using sh R(3,4) keys by (simp add: node_ok_iff shape_ok_def)
  show "same_node n n'" "n_has_garbage n' = n_has_garbage n" using R(3,4) by (simp_all add: same_node_def same) (simp_all add: n'_def write_payload_def)
qed

section \<open>The children of an inner node\<close>

definition swip_of :: "key \<times> u8 list \<times> bool \<Rightarrow> u64" where
  "swip_of e = le_word (take 8 (fst (snd e)))"

text \<open>The swips of the children from left to right, with \<^verbatim>\<open>upper\<close> last.\<close>

definition children :: "BTreeNode \<Rightarrow> u64 list" where
  "children n = map swip_of (entries n) @ [n_upper n]"

definition inner_ok :: "BTreeNode \<Rightarrow> bool" where
  "inner_ok n \<longleftrightarrow> (\<forall>e\<in>set (entries n). sizeof_SwipType \<le> length (fst (snd e)))"

lemma inner_ok_payload: "inner_ok n \<Longrightarrow> i < n_count n \<Longrightarrow> 8 \<le> s_payload_len (n_slot n i)"
  by (auto simp: inner_ok_def entries_def entry_at_def sizeof_SwipType_def)

lemma getChild_children: "inner_ok n \<Longrightarrow> i < n_count n \<Longrightarrow> getChild n i = children n ! i"
  using inner_ok_payload [of n i]
  by (simp add: children_def nth_append entries_def swip_of_def entry_at_def getPayload_def take_rd getChild_def sizeof_SwipType_def)

lemma length_children [simp]: "length (children n) = n_count n + 1"
  by (simp add: children_def)

definition ref_index :: "BTreeNode \<Rightarrow> child_ref \<Rightarrow> nat" where
  "ref_index n r = (case r of Upper_ref \<Rightarrow> n_count n | Slot_ref i \<Rightarrow> i)"

definition ref_ok :: "BTreeNode \<Rightarrow> child_ref \<Rightarrow> bool" where
  "ref_ok n r = (case r of Upper_ref \<Rightarrow> True | Slot_ref i \<Rightarrow> i < n_count n)"

lemma child_swip_children: "inner_ok n \<Longrightarrow> ref_ok n r \<Longrightarrow> child_swip n r = children n ! ref_index n r"
  by (cases r) (auto simp: child_swip_def ref_index_def ref_ok_def getChild_children children_def nth_append)

lemma set_child_ok:
  fixes w :: u64
  assumes ok: "node_ok f n" "inner_ok n" and r: "ref_ok n r"
  defines "n' \<equiv> set_child n r w"
  shows "node_ok f n'" "inner_ok n'" "children n' = (children n)[ref_index n r := w]" "full_keys n' = full_keys n"
    "n_count n' = n_count n" "getLowerFenceKey n' = getLowerFenceKey n" "getUpperFenceKey n' = getUpperFenceKey n"
proof -
  have "node_ok f n' \<and> inner_ok n' \<and> children n' = (children n)[ref_index n r := w] \<and> full_keys n' = full_keys n \<and>
    n_count n' = n_count n \<and> getLowerFenceKey n' = getLowerFenceKey n \<and> getUpperFenceKey n' = getUpperFenceKey n"
  proof (cases r)
    case Upper_ref
    then have n': "n' = n\<lparr>n_upper := w\<rparr>" by (simp add: n'_def set_child_def)
    have ss: "same_store n n'" by (simp add: n' same_store_def)
    have "hints_ok n' = hints_ok n" by (simp add: n' hints_ok_def hint_dist_def)
    then show ?thesis using ok shape_ok_same_store [OF ss] same_store_reads [OF ss] Upper_ref
      by (simp add: node_ok_iff inner_ok_def children_def ref_index_def list_update_append n')
  next
    case (Slot_ref i)
    then have i: "i < n_count n" using r by (simp add: ref_ok_def)
    have n': "n' = write_payload i 0 (le_bytes 8 w) n" by (simp add: n'_def set_child_def Slot_ref write_payload_def)
    have fit: "0 + length (le_bytes 8 w) \<le> s_payload_len (n_slot n i)" using inner_ok_payload [OF ok(2) i] by simp
    note W = write_payload_ok [OF ok(1) i fit, folded n']
    have sp: "splice 0 (le_bytes 8 w) (getPayload n i) = le_bytes 8 w @ drop 8 (getPayload n i)" by (simp add: splice_def)
    have "swip_of (copyFullKey n i, splice 0 (le_bytes 8 w) (getPayload n i), isFrozen n i) = w"
      by (simp add: swip_of_def sp le_word_le_bytes)
    then have ch: "children n' = (children n)[i := w]"
      using i W(2,3) by (simp add: children_def map_update list_update_append same_node_def)
    have "fst (entries n ! i) = copyFullKey n i" using i by (simp add: entries_def entry_at_def)
    then have keys: "full_keys n' = full_keys n" using i by (simp add: full_keys_entries W(2) map_update list_update_same_conv)
    have "inner_ok n'" unfolding inner_ok_def W(2)
      using ok(2) fit by (auto simp: inner_ok_def sp sizeof_SwipType_def dest!: set_update_subset_insert [THEN subsetD])
    moreover have "n_count n' = n_count n" by (simp add: n' write_payload_def)
    ultimately show ?thesis using W(1,3) ch keys Slot_ref by (simp add: ref_index_def same_node_def)
  qed
  then show "node_ok f n'" "inner_ok n'" "children n' = (children n)[ref_index n r := w]" "full_keys n' = full_keys n"
    "n_count n' = n_count n" "getLowerFenceKey n' = getLowerFenceKey n" "getUpperFenceKey n' = getUpperFenceKey n" by blast+
qed

lemma swap_children_ok:
  assumes ok: "node_ok f n" "inner_ok n" and r: "ref_ok n a" "ref_ok n b"
  defines "n' \<equiv> swap_children n a b" and "i \<equiv> ref_index n a" and "j \<equiv> ref_index n b"
  shows "node_ok f n'" "inner_ok n'" "full_keys n' = full_keys n"
    "children n' = (children n)[i := children n ! j, j := children n ! i]"
    "getLowerFenceKey n' = getLowerFenceKey n" "getUpperFenceKey n' = getUpperFenceKey n"
proof -
  let ?y = "child_swip n b" and ?x = "child_swip n a"
  note A = set_child_ok [OF ok r(1), of ?y]
  have rb: "ref_ok (set_child n a ?y) b" "ref_index (set_child n a ?y) b = j"
    using r(2) A(5) by (auto simp: ref_ok_def ref_index_def j_def split: child_ref.splits)
  note B = set_child_ok [OF A(1,2) rb(1), of ?x]
  have n': "n' = set_child (set_child n a ?y) b ?x" by (simp add: n'_def swap_children_def Let_def)
  show "node_ok f n'" "inner_ok n'" "full_keys n' = full_keys n" "getLowerFenceKey n' = getLowerFenceKey n"
    "getUpperFenceKey n' = getUpperFenceKey n" unfolding n' using A B by simp_all
  show "children n' = (children n)[i := children n ! j, j := children n ! i]"
    unfolding n' B(3) A(3) rb(2) by (simp add: child_swip_children ok(2) r i_def j_def)
qed

text \<open>
  The parent after a split: the separator is inserted, and the child that was at its position
  is now two, the left and the right half.
\<close>

definition parent_split :: "flags \<Rightarrow> BTreeNode \<Rightarrow> key \<Rightarrow> u64 \<Rightarrow> u64 \<Rightarrow> BTreeNode \<Rightarrow> bool" where
  "parent_split f parent sep left right parent' \<longleftrightarrow>
     (let p = rank parent sep in
      node_ok f parent' \<and> inner_ok parent' \<and>
      full_keys parent' = take p (full_keys parent) @ sep # drop p (full_keys parent) \<and>
      children parent' = take p (children parent) @ [left, right] @ drop (p + 1) (children parent) \<and>
      getLowerFenceKey parent' = getLowerFenceKey parent \<and> getUpperFenceKey parent' = getUpperFenceKey parent)"

definition parent_update :: "flags \<Rightarrow> BTreeNode \<Rightarrow> BTreeNode \<Rightarrow> key \<Rightarrow> u64 \<Rightarrow> bool \<Rightarrow> BTreeNode option" where
  "parent_update f g parent sepKey new_swip new_is_right = do {
     (sep_pos, parent) \<leftarrow> node_insert f g parent sepKey (le_bytes 8 new_swip);
     let s = nat sep_pos;
     Some (if new_is_right
           then swap_children parent (Slot_ref s) (if s + 1 < n_count parent then Slot_ref (s + 1) else Upper_ref)
           else parent) }"

lemma parent_update_ok:
  assumes ins: "insertable f parent sep 8" and inner: "inner_ok parent" and f: "hints_supported f"
  obtains parent' where "parent_update f g parent sep new_swip new_is_right = Some parent'"
    "parent_split f parent sep
       (if new_is_right then children parent ! rank parent sep else new_swip)
       (if new_is_right then new_swip else children parent ! rank parent sep) parent'"
proof -
  let ?p = "rank parent sep" and ?cs = "children parent"
  obtain q where q: "node_insert f g parent sep (le_bytes 8 new_swip) = Some (int ?p, q)" "node_ok f q"
    "entries q = insert_entry ?p (sep, le_bytes 8 new_swip, False) (entries parent)" "same_node parent q"
    using node_insert_spec [OF _ f, of parent sep "le_bytes 8 new_swip" g] ins by auto
  have p: "?p \<le> n_count parent" by (rule rank_le)
  have cnt: "n_count q = n_count parent + 1" using arg_cong [OF q(3), of length] p by (simp add: insert_entry_def)
  have iq: "inner_ok q" using inner unfolding inner_ok_def q(3) set_insert_entry by (simp add: sizeof_SwipType_def)
  have sw: "swip_of (sep, le_bytes 8 new_swip, False) = new_swip" by (simp add: swip_of_def le_word_le_bytes)
  have up: "n_upper q = n_upper parent" using q(4) by (simp add: same_node_def)
  have chq: "children q = take ?p ?cs @ new_swip # drop ?p ?cs"
    using p by (simp add: children_def q(3) map_insert_entry sw up) (simp add: insert_entry_def take_map drop_map)
  have keys: "full_keys q = take ?p (full_keys parent) @ sep # drop ?p (full_keys parent)"
    by (simp add: full_keys_entries q(3) map_insert_entry) (simp add: insert_entry_def)
  have dr: "drop ?p ?cs = ?cs ! ?p # drop (?p + 1) ?cs" using p by (simp add: Cons_nth_drop_Suc)
  have fences: "getLowerFenceKey q = getLowerFenceKey parent" "getUpperFenceKey q = getUpperFenceKey parent"
    using q(4) by (simp_all add: same_node_def)
  let ?b = "if ?p + 1 < n_count q then Slot_ref (?p + 1) else Upper_ref"
  let ?r = "if new_is_right then swap_children q (Slot_ref ?p) ?b else q"
  have run: "parent_update f g parent sep new_swip new_is_right = Some ?r"
    by (simp add: parent_update_def q(1) Let_def)
  have "parent_split f parent sep (if new_is_right then ?cs ! ?p else new_swip) (if new_is_right then new_swip else ?cs ! ?p) ?r"
  proof (cases new_is_right)
    case True
    have ra: "ref_ok q (Slot_ref ?p)" "ref_index q (Slot_ref ?p) = ?p" using p cnt by (simp_all add: ref_ok_def ref_index_def)
    have rb: "ref_ok q ?b" "ref_index q ?b = ?p + 1" using p cnt by (auto simp: ref_ok_def ref_index_def)
    note S = swap_children_ok [OF q(2) iq ra(1) rb(1), unfolded ra(2) rb(2)]
    have "children (swap_children q (Slot_ref ?p) ?b) = take ?p ?cs @ [?cs ! ?p, new_swip] @ drop (?p + 1) ?cs"
      unfolding S(4) chq dr using p by (simp add: list_update_append nth_append)
    then show ?thesis using True S keys fences by (simp add: parent_split_def Let_def)
  next
    case False
    then show ?thesis using q(2) iq keys chq dr fences by (simp add: parent_split_def Let_def)
  qed
  then show ?thesis using that [OF run] by blast
qed

section \<open>Splitting\<close>

text \<open>The entries fit into a node with the given fences.\<close>

definition half_fits :: "flags \<Rightarrow> key option \<Rightarrow> key option \<Rightarrow> (key \<times> u8 list \<times> bool) list \<Rightarrow> bool" where
  "half_fits f l u es \<longleftrightarrow> slot_end (length es) + fences_len l u + entries_len (prefix_for f l u) es \<le> EFFECTIVE_PAGE_SIZE"

lemma entries_range: "i + k \<le> n_count n \<Longrightarrow> map (entry_at n) [i..<i + k] = take k (drop i (entries n))"
  by (intro nth_equalityI) (auto simp: entries_def)

lemma half_fits_len: "half_fits f l u es \<Longrightarrow> fences_len l u < EFFECTIVE_PAGE_SIZE \<and> length es < 400"
  using count_less [of "length es"] by (auto simp: half_fits_def slot_end_def slot_base_def)

lemma copy_range_ok:
  fixes leaf :: bool and g :: BTreeNode
  assumes ok: "node_ok f this" and range: "i + k \<le> n_count this"
    and keys: "\<And>m. i \<le> m \<Longrightarrow> m < i + k \<Longrightarrow> in_fences l u (copyFullKey this m)"
    and fit: "half_fits f l u (take k (drop i (entries this)))"
  defines "h \<equiv> copyKeyValueRange this (setFences f l u (BTreeNode_new leaf g)) 0 i k"
  shows "built f l u leaf (take k (drop i (entries this))) h" "shape_ok f h" "n_count h = k"
proof -
  let ?es = "take k (drop i (entries this))" and ?t = "setFences f l u (BTreeNode_new leaf g)"
  have len: "length ?es = k" using range by simp
  note F = half_fits_len [OF fit]
  have b0: "built f l u leaf [] ?t" using setFences_new F by (intro fresh_built) blast
  have heads: "s_head (n_slot this m) = head (getKey this m)" if "i \<le> m" "m < i + k" for m
    using ok that range by (simp add: node_ok_def search_ok_def)
  have "fences_len l u + entries_len (prefix_for f l u) ([] @ map (entry_at this) [i..<i + k]) \<le> EFFECTIVE_PAGE_SIZE"
    using fit unfolding entries_range [OF range] half_fits_def by simp
  from built_copy(1) [OF b0 this keys heads] F len
  show b: "built f l u leaf ?es h" unfolding h_def entries_range [OF range] by simp
  have so: "sorted_wrt (<) (map fst (entries this))" using ok by (simp add: node_ok_iff shape_ok_def full_keys_entries)
  have "in_fences l u x" if x: "x \<in> fst ` set ?es" for x
  proof -
    obtain e where e: "e \<in> set ?es" "x = fst e" using x by auto
    then obtain m where m: "m < length ?es" "?es ! m = e" unfolding in_set_conv_nth by blast
    then have "m < k" using len by simp
    then have "x = copyFullKey this (i + m)" using range e(2) m(2) by (auto simp add: entries_def entry_at_def)
    then show ?thesis using keys [of "i + m"] \<open>m < k\<close> by simp
  qed
  moreover have "sorted_wrt (<) (map fst ?es)"
    using so by (simp add: sorted_wrt_take sorted_wrt_drop flip: take_map drop_map)
  ultimately show "shape_ok f h" using fit by (intro built_shape [OF b]) (auto simp: half_fits_def)
  show "n_count h = k" using b len by (simp add: built_def)
qed

text \<open>The keys of the two halves lie inside the new fences.\<close>

lemma in_fences_left:
  assumes ok: "node_ok f n" and m: "m < n_count n" "copyFullKey n m \<le> sep"
  shows "in_fences (getLowerFenceKey n) (Some sep) (copyFullKey n m)"
  using entry_at_in_fences [of f n m] ok m by (auto simp: node_ok_iff in_fences_def)

lemma in_fences_right:
  assumes ok: "node_ok f n" and m: "m < n_count n" "sep < copyFullKey n m"
  shows "in_fences (Some sep) (getUpperFenceKey n) (copyFullKey n m)"
  using entry_at_in_fences [of f n m] ok m by (auto simp: node_ok_iff in_fences_def)

lemma full_key_mono:
  assumes "node_ok f n" "i \<le> j" "j < n_count n"
  shows "copyFullKey n i \<le> copyFullKey n j"
  using assms getKey_less_iff [of n j i] by (auto simp: node_ok_def copyFullKey_def key_append_less not_less [symmetric])

lemma node_ok_finish:
  assumes "shape_ok f h" "same_store h h'"
  shows "node_ok f (makeHint h')" "entries (makeHint h') = entries h"
    "getLowerFenceKey (makeHint h') = getLowerFenceKey h" "getUpperFenceKey (makeHint h') = getUpperFenceKey h"
proof -
  show "node_ok f (makeHint h')" using node_ok_makeHint [of f h'] shape_ok_same_store [OF assms(2)] assms(1) by simp
  have "same_store h' (makeHint h')" by (simp add: makeHint_def)
  then show "entries (makeHint h') = entries h"
    "getLowerFenceKey (makeHint h') = getLowerFenceKey h" "getUpperFenceKey (makeHint h') = getUpperFenceKey h"
    using same_store_reads(5,8,9) assms(2) by metis+
qed

text \<open>What a half looks like.\<close>

definition half :: "flags \<Rightarrow> key option \<Rightarrow> key option \<Rightarrow> bool \<Rightarrow> (key \<times> u8 list \<times> bool) list \<Rightarrow> BTreeNode \<Rightarrow> bool" where
  "half f l u leaf es n \<longleftrightarrow> node_ok f n \<and> getLowerFenceKey n = l \<and> getUpperFenceKey n = u \<and> n_is_leaf n = leaf \<and> entries n = es"

lemma copy_range_half:
  assumes b: "built f l u leaf es h" and s: "shape_ok f h" and st: "same_store h h'" "n_is_leaf h' = n_is_leaf h"
  shows "half f l u leaf es (makeHint h')"
  using node_ok_finish [OF s st(1)] b st(2) by (simp add: half_def built_def makeHint_def)

lemma splitImpl_leaf:
  assumes th: "node_ok f this" "n_is_leaf this" and s: "s + 1 < n_count this"
    and sep: "copyFullKey this s \<le> sep" "sep < copyFullKey this (s + 1)"
    and fit: "half_fits f (getLowerFenceKey this) (Some sep) (take (s + 1) (entries this))"
      "half_fits f (Some sep) (getUpperFenceKey this) (drop (s + 1) (entries this))"
    and upd: "parent_update f g parent sep new_swip new_is_right = Some parent'"
  obtains L R where
    "splitImpl f g this parent (BTreeNode_new True gl) (BTreeNode_new True gr) new_swip new_is_right s sep = Some (parent', L, R)"
    "half f (getLowerFenceKey this) (Some sep) True (take (s + 1) (entries this)) L"
    "half f (Some sep) (getUpperFenceKey this) True (drop (s + 1) (entries this)) R"
    "n_has_garbage L = n_has_garbage this" "n_has_garbage R = n_has_garbage this"
proof -
  let ?l = "getLowerFenceKey this" and ?u = "getUpperFenceKey this" and ?es = "entries this" and ?k = "n_count this - (s + 1)"
  define hl where "hl = copyKeyValueRange this (setFences f ?l (Some sep) (BTreeNode_new True gl)) 0 0 (s + 1)"
  define hr where "hr = copyKeyValueRange this (setFences f (Some sep) ?u (BTreeNode_new True gr)) 0 (s + 1) ?k"
  have inl: "in_fences ?l (Some sep) (copyFullKey this m)" if "m < 0 + (s + 1)" for m
    using in_fences_left [OF th(1), of m sep] full_key_mono [OF th(1), of m s] sep(1) s that by auto
  have inr: "in_fences (Some sep) ?u (copyFullKey this m)" if "s + 1 \<le> m" "m < s + 1 + ?k" for m
    using in_fences_right [OF th(1), of m sep] full_key_mono [OF th(1), of "s + 1" m] sep(2) s that by auto
  have "take ?k (drop (s + 1) ?es) = drop (s + 1) ?es" by (simp add: take_all)
  then have fr: "half_fits f (Some sep) ?u (take ?k (drop (s + 1) ?es))" using fit(2) by simp
  have fl: "half_fits f ?l (Some sep) (take (s + 1) (drop 0 ?es))" using fit(1) by simp
  have bl: "0 + (s + 1) \<le> n_count this" and br: "s + 1 + ?k \<le> n_count this" using s by simp_all
  have L: "built f ?l (Some sep) True (take (s + 1) ?es) hl" "shape_ok f hl" "n_count hl = s + 1"
    unfolding hl_def using copy_range_ok [OF th(1) bl _ fl, of True gl] inl by simp_all
  have "built f (Some sep) ?u True (take ?k (drop (s + 1) ?es)) hr" "shape_ok f hr"
    unfolding hr_def by (rule copy_range_ok(1,2) [OF th(1) br inr fr]; assumption)+
  then have R: "built f (Some sep) ?u True (drop (s + 1) ?es) hr" "shape_ok f hr" by simp_all
  let ?L = "hl\<lparr>n_has_garbage := n_has_garbage this\<rparr>" and ?R = "hr\<lparr>n_has_garbage := n_has_garbage this\<rparr>"
  have "same_store hl ?L" "same_store hr ?R" by (simp_all add: same_store_def)
  then have halves: "half f ?l (Some sep) True (take (s + 1) ?es) (makeHint ?L)" "half f (Some sep) ?u True (drop (s + 1) ?es) (makeHint ?R)"
    using copy_range_half L(1,2) R(1,2) by simp_all
  have "splitImpl f g this parent (BTreeNode_new True gl) (BTreeNode_new True gr) new_swip new_is_right s sep = Some (parent', makeHint ?L, makeHint ?R)"
    using upd th(2) L(3) unfolding splitImpl_def parent_update_def Let_def hl_def hr_def
    by (auto simp: Let_def split: bind_splits prod.splits)
  then show ?thesis using that halves by (simp add: makeHint_def)
qed

lemma setUpper_is_leaf [simp]: "n_is_leaf (setUpper s l n) = n_is_leaf n"
  by (simp add: setUpper_def)

lemma splitImpl_inner:
  assumes th: "node_ok f this" "isInner this" "inner_ok this" and s: "s < n_count this"
    and fit: "half_fits f (getLowerFenceKey this) (Some (copyFullKey this s)) (take s (entries this))"
      "half_fits f (Some (copyFullKey this s)) (getUpperFenceKey this) (drop (s + 1) (entries this))"
    and upd: "parent_update f g parent (copyFullKey this s) new_swip new_is_right = Some parent'"
  obtains L R where
    "splitImpl f g this parent (BTreeNode_new False gl) (BTreeNode_new False gr) new_swip new_is_right s (copyFullKey this s) = Some (parent', L, R)"
    "half f (getLowerFenceKey this) (Some (copyFullKey this s)) False (take s (entries this)) L"
    "half f (Some (copyFullKey this s)) (getUpperFenceKey this) False (drop (s + 1) (entries this)) R"
    "children L @ children R = children this"
proof -
  let ?l = "getLowerFenceKey this" and ?u = "getUpperFenceKey this" and ?es = "entries this" and ?k = "n_count this - (s + 1)"
  let ?sep = "copyFullKey this s"
  define hl where "hl = copyKeyValueRange this (setFences f ?l (Some ?sep) (BTreeNode_new False gl)) 0 0 s"
  define hr where "hr = copyKeyValueRange this (setFences f (Some ?sep) ?u (BTreeNode_new False gr)) 0 (s + 1) ?k"
  have so: "search_ok this" using th(1) by (simp add: node_ok_def)
  have inl: "in_fences ?l (Some ?sep) (copyFullKey this m)" if "m < 0 + s" for m
    using in_fences_left [OF th(1), of m ?sep] full_key_mono [OF th(1), of m s] s that by auto
  have inr: "in_fences (Some ?sep) ?u (copyFullKey this m)" if "s + 1 \<le> m" "m < s + 1 + ?k" for m
    using in_fences_right [OF th(1), of m ?sep] getKey_less_iff [OF so, of s m] s that
    by (auto simp: copyFullKey_def key_append_less)
  have dr: "take ?k (drop (s + 1) ?es) = drop (s + 1) ?es" by (simp add: take_all)
  then have fr: "half_fits f (Some ?sep) ?u (take ?k (drop (s + 1) ?es))" using fit(2) by simp
  have fl: "half_fits f ?l (Some ?sep) (take s (drop 0 ?es))" using fit(1) by simp
  have bl: "0 + s \<le> n_count this" and br: "s + 1 + ?k \<le> n_count this" using s by simp_all
  have L: "built f ?l (Some ?sep) False (take s ?es) hl" "shape_ok f hl" "n_count hl = s"
    unfolding hl_def using copy_range_ok [OF th(1) bl _ fl, of False gl] inl by simp_all
  have "built f (Some ?sep) ?u False (take ?k (drop (s + 1) ?es)) hr" "shape_ok f hr"
    unfolding hr_def by (rule copy_range_ok(1,2) [OF th(1) br inr fr]; assumption)+
  then have R: "built f (Some ?sep) ?u False (drop (s + 1) ?es) hr" "shape_ok f hr" by (simp_all only: dr)
  let ?L = "setUpper (getChild this s) (child_lsns this s) hl" and ?R = "setUpper (n_upper this) (n_upper_pending_lsn this) hr"
  have halves: "half f ?l (Some ?sep) False (take s ?es) (makeHint ?L)" "half f (Some ?sep) ?u False (drop (s + 1) ?es) (makeHint ?R)"
    using copy_range_half [OF L(1,2) same_store_setUpper] copy_range_half [OF R(1,2) same_store_setUpper] by simp_all
  have "swip_of (?es ! s) = getChild this s"
    using s inner_ok_payload [OF th(3) s] by (simp add: entries_def swip_of_def entry_at_def getPayload_def take_rd getChild_def sizeof_SwipType_def)
  then have "children (makeHint ?L) @ children (makeHint ?R) = children this"
    using halves s id_take_nth_drop [of s "map swip_of ?es"]
    by (simp add: children_def half_def makeHint_def setUpper_def take_map drop_map)
  moreover have "splitImpl f g this parent (BTreeNode_new False gl) (BTreeNode_new False gr) new_swip new_is_right s ?sep = Some (parent', makeHint ?L, makeHint ?R)"
    using upd th(2) L(3) unfolding splitImpl_def parent_update_def Let_def hl_def hr_def isInner_def
    by (auto simp: Let_def split: bind_splits prod.splits)
  ultimately show ?thesis using that halves by blast
qed

text \<open>When the halves fit: a sufficient condition on the separator.\<close>

lemma prefix_for_mono:
  assumes "in_fences l u k" "prefix_for f l u > 0"
  shows "prefix_for f l u \<le> prefix_for f l (Some k)" "prefix_for f l u \<le> prefix_for f (Some k) u"
proof -
  have c: "prefix_for f l u = common_length (fence_bytes l) (fence_bytes u)" and fl: "FLAGS_btree_prefix_compression f"
    using assms(2) by (simp_all add: prefix_for_def split: if_splits)
  note P = in_fences_prefix [OF assms(1), of f] and C = common_length [of "fence_bytes l" "fence_bytes u"]
  have long: "p \<le> common_length a b" if "p \<le> length a" "p \<le> length b" "take p a = take p b" for p and a b :: key
  proof (rule ccontr)
    assume "\<not> p \<le> common_length a b"
    then have lt: "common_length a b < p" by simp
    then have "a ! common_length a b \<noteq> b ! common_length a b"
      using scan_spec [of 0 "min (length a) (length b)" "\<lambda>i. a ! i \<noteq> b ! i"] that(1,2) by (simp add: common_length_def)
    moreover have "take p a ! common_length a b = take p b ! common_length a b" using that(3) by simp
    ultimately show False using lt by simp
  qed
  show "prefix_for f l u \<le> prefix_for f l (Some k)"
    using long [of "prefix_for f l u" "fence_bytes l" k] P C c by (simp add: prefix_for_def [of f l "Some k"] fl fence_bytes_def [of "Some k"])
  show "prefix_for f l u \<le> prefix_for f (Some k) u"
    using long [of "prefix_for f l u" k "fence_bytes u"] P C c by (simp add: prefix_for_def [of f "Some k" u] fl fence_bytes_def [of "Some k"])
qed

lemma entries_len_antimono: "p \<le> q \<Longrightarrow> entries_len q es \<le> entries_len p es"
  by (induction es) (auto simp: entry_len_def intro: add_mono diff_le_mono2)

lemma half_fits_sub:
  assumes fit: "half_fits f l u (A @ B)" and k: "in_fences l u k"
  shows "length k \<le> length (fence_bytes u) + sizeof_Slot * length B + entries_len (prefix_for f l u) B \<Longrightarrow> half_fits f l (Some k) A"
    and "length k \<le> length (fence_bytes l) + sizeof_Slot * length A + entries_len (prefix_for f l u) A \<Longrightarrow> half_fits f (Some k) u B"
proof -
  have "prefix_for f l u \<le> prefix_for f l (Some k) \<and> prefix_for f l u \<le> prefix_for f (Some k) u"
    using prefix_for_mono [OF k, of f] by (cases "prefix_for f l u") auto
  then have "entries_len (prefix_for f l (Some k)) A \<le> entries_len (prefix_for f l u) A"
    "entries_len (prefix_for f (Some k) u) B \<le> entries_len (prefix_for f l u) B" by (auto intro: entries_len_antimono)
  then show "length k \<le> length (fence_bytes u) + sizeof_Slot * length B + entries_len (prefix_for f l u) B \<Longrightarrow> half_fits f l (Some k) A"
    "length k \<le> length (fence_bytes l) + sizeof_Slot * length A + entries_len (prefix_for f l u) A \<Longrightarrow> half_fits f (Some k) u B"
    using fit by (simp_all add: half_fits_def slot_end_def fences_len_def fence_bytes_def [of "Some k"] add_mult_distrib2)
qed

lemma node_fits:
  assumes "node_ok f n"
  shows "half_fits f (getLowerFenceKey n) (getUpperFenceKey n) (entries n)"
    "prefix_for f (getLowerFenceKey n) (getUpperFenceKey n) = n_prefix_length n"
    "n_prefix_length n \<le> length (fence_bytes (getLowerFenceKey n))" "n_prefix_length n \<le> length (fence_bytes (getUpperFenceKey n))"
proof -
  have lay: "layout_ok f n" using assms by (simp add: node_ok_def)
  show pl: "prefix_for f (getLowerFenceKey n) (getUpperFenceKey n) = n_prefix_length n" using lay by (simp add: layout_ok_def)
  show "half_fits f (getLowerFenceKey n) (getUpperFenceKey n) (entries n)"
    using layout_space(1,2) [OF lay] by (simp add: half_fits_def pl)
  show "n_prefix_length n \<le> length (fence_bytes (getLowerFenceKey n))" "n_prefix_length n \<le> length (fence_bytes (getUpperFenceKey n))"
    using common_length(1,2) [of "fence_bytes (getLowerFenceKey n)" "fence_bytes (getUpperFenceKey n)"]
    by (auto simp: prefix_for_def simp flip: pl)
qed

lemma entry_len_at: "entry_len (n_prefix_length n) (entry_at n i) = s_key_len (n_slot n i) + s_payload_len (n_slot n i)"
  by (simp add: entry_len_def entry_at_def)

lemma drop_entries: "i < n_count n \<Longrightarrow> drop i (entries n) = entry_at n i # drop (i + 1) (entries n)"
  using Cons_nth_drop_Suc [of i "entries n"] by (simp add: entries_def)

lemma take_entries: "i < n_count n \<Longrightarrow> take (i + 1) (entries n) = take i (entries n) @ [entry_at n i]"
  using take_Suc_conv_app_nth [of i "entries n"] by (simp add: entries_def)

text \<open>
  The right half of a leaf always fits.  The left one does when the key after the cut is not much
  shorter than the separator, which becomes a fence of the left half.
\<close>

lemma leaf_right_half_fits:
  assumes ok: "node_ok f n" and s: "s + 1 < n_count n"
    and k: "in_fences (getLowerFenceKey n) (getUpperFenceKey n) k"
    and len: "length k \<le> length (copyFullKey n s) + sizeof_Slot"
  shows "half_fits f (Some k) (getUpperFenceKey n) (drop (s + 1) (entries n))"
proof -
  note N = node_fits [OF ok]
  have fit: "half_fits f (getLowerFenceKey n) (getUpperFenceKey n) (take (s + 1) (entries n) @ drop (s + 1) (entries n))" using N(1) by simp
  have A: "s_key_len (n_slot n s) \<le> entries_len (n_prefix_length n) (take (s + 1) (entries n))"
    "sizeof_Slot \<le> sizeof_Slot * length (take (s + 1) (entries n))"
    using take_entries [of s n] s by (simp_all add: entry_len_at sizeof_Slot_def)
  show ?thesis
    by (rule half_fits_sub(2) [OF fit k]) (use A len [unfolded length_copyFullKey] N(3) in \<open>unfold N(2), linarith\<close>)
qed

lemma leaf_left_half_fits:
  assumes ok: "node_ok f n" and s: "s + 1 < n_count n"
    and k: "in_fences (getLowerFenceKey n) (getUpperFenceKey n) k"
    and len: "length k \<le> length (copyFullKey n (s + 1)) + sizeof_Slot"
  shows "half_fits f (getLowerFenceKey n) (Some k) (take (s + 1) (entries n))"
proof -
  note N = node_fits [OF ok]
  have fit: "half_fits f (getLowerFenceKey n) (getUpperFenceKey n) (take (s + 1) (entries n) @ drop (s + 1) (entries n))" using N(1) by simp
  have B: "s_key_len (n_slot n (s + 1)) \<le> entries_len (n_prefix_length n) (drop (s + 1) (entries n))"
    "sizeof_Slot \<le> sizeof_Slot * length (drop (s + 1) (entries n))"
    using drop_entries [OF s] s by (simp_all add: entry_len_at sizeof_Slot_def)
  show ?thesis
    by (rule half_fits_sub(1) [OF fit k]) (use B len [unfolded length_copyFullKey] N(4) in \<open>unfold N(2), linarith\<close>)
qed

lemma inner_halves_fit:
  assumes ok: "node_ok f n" and s: "s < n_count n"
  shows "half_fits f (getLowerFenceKey n) (Some (copyFullKey n s)) (take s (entries n))"
    "half_fits f (Some (copyFullKey n s)) (getUpperFenceKey n) (drop (s + 1) (entries n))"
proof -
  note N = node_fits [OF ok]
  let ?l = "getLowerFenceKey n" and ?u = "getUpperFenceKey n"
  have k: "in_fences ?l ?u (copyFullKey n s)" using entry_at_in_fences [of f n s] ok s by (simp add: node_ok_iff)
  have f1: "half_fits f ?l ?u (take s (entries n) @ drop s (entries n))"
    and f2: "half_fits f ?l ?u (take (s + 1) (entries n) @ drop (s + 1) (entries n))" using N(1) by simp_all
  have "s_key_len (n_slot n s) \<le> entries_len (n_prefix_length n) (drop s (entries n))"
    using drop_entries [OF s] by (simp add: entry_len_at)
  then show "half_fits f ?l (Some (copyFullKey n s)) (take s (entries n))"
    using half_fits_sub(1) [OF f1 k] N(2-4) by simp
  have "s_key_len (n_slot n s) \<le> entries_len (n_prefix_length n) (take (s + 1) (entries n))"
    using take_entries [OF s] by (simp add: entry_len_at)
  then show "half_fits f (Some (copyFullKey n s)) ?u (drop (s + 1) (entries n))"
    using half_fits_sub(2) [OF f2 k] N(2-4) by simp
qed

section \<open>Merging\<close>

lemma entries_len_grow:
  assumes "q \<le> p" "\<And>e. e \<in> set es \<Longrightarrow> p \<le> length (fst e)"
  shows "entries_len q es = entries_len p es + (p - q) * length es"
  using assms(2)
proof (induction es)
  case (Cons e es)
  have "entry_len q e = entry_len p e + (p - q)" using Cons.prems [of e] assms(1) by (simp add: entry_len_def)
  then show ?case using Cons by simp
qed simp

lemma entries_key_length: "e \<in> set (entries n) \<Longrightarrow> n_prefix_length n \<le> length (fst e)"
  by (auto simp: entries_def entry_at_def)

text \<open>One entry more at the end of a node under construction.\<close>

lemma built_store:
  assumes b: "built f l u leaf es n" and k: "in_fences l u key"
    and fit: "fences_len l u + entries_len (prefix_for f l u) (es @ [(key, payload, False)]) \<le> EFFECTIVE_PAGE_SIZE"
    and small: "length es < 400"
  defines "m \<equiv> storeKeyValue (length es) key payload n"
  shows "built f l u leaf (es @ [(key, payload, False)]) (m\<lparr>n_count := to_u16 (int (n_count m) + 1)\<rparr>)"
proof -
  let ?pl = "prefix_for f l u" and ?e = "entry_slot (prefix_for f l u) key (length payload) False"
  let ?bs = "drop (prefix_for f l u) key @ payload" and ?c = "length es"
  have pl: "n_prefix_length n = ?pl" and cnt: "n_count n = ?c" using b by (simp_all add: built_def)
  note P = in_fences_built [OF b k, unfolded pl]
  have L: "length ?bs = entry_len ?pl (key, payload, False)" by (simp add: entry_len_def)
  have room: "room n (length ?bs)" unfolding L using built_room [OF b] fit by (simp add: add.assoc)
  have m: "m = push_entry ?c ?e ?bs n"
    unfolding m_def using storeKeyValue_push [of n key payload ?c] P room by (simp add: pl)
  let ?q = "m\<lparr>n_count := ?c + 1\<rparr>"
  have q: "m\<lparr>n_count := to_u16 (int (n_count m) + 1)\<rparr> = ?q" using cnt small by (simp add: m)
  have base: "base_ok (used_upto ?c n) n" using b by (simp add: built_def)
  have fr: "same_frame n ?q" unfolding count_update_reads m by (rule push_entry_frame [OF base room])
  have "base_ok (insert (Entry_of ?c) (used_upto ?c n)) ?q" unfolding count_update_reads m
    by (rule push_entry_base [OF base _ room]) (simp_all add: entry_slot_def)
  then have basq: "base_ok (used_upto (Suc ?c) ?q) ?q" by (simp only: used_upto_Suc used_upto_frame [OF fr])
  have e: "s_key_len ?e = length (drop ?pl key)" "s_payload_len ?e = length payload" by (simp_all add: entry_slot_def)
  note new = push_entry_new [OF e, where s = ?c and n = n]
  have kq: "getKey ?q ?c = drop ?pl key" unfolding count_update_reads m by (rule new(1))
  have "getPayload ?q ?c = payload" "\<not> isFrozen ?q ?c"
    using new(2,3) by (simp_all add: m getPayload_def payload_at_def isFrozen_def entry_slot_def)
  moreover have "getPrefix ?q = take ?pl key" using P fr by (simp add: same_frame_def)
  ultimately have eq: "entry_at ?q ?c = (key, payload, False)" unfolding entry_at_def copyFullKey_def kq by simp
  have ch: "chunks_ok (used_upto ?c n) n" using base by (simp add: base_ok_def)
  have old: "entry_at ?q i = entry_at n i \<and> getKey ?q i = getKey n i \<and> n_slot ?q i = n_slot n i" if "i < ?c" for i
  proof -
    note o = push_entry_other [OF ch room, of i ?c ?e]
    have "getKey ?q i = getKey n i" "getPayload ?q i = getPayload n i" "isFrozen ?q i = isFrozen n i"
      using o that by (simp_all add: m getKey_def getPayload_def payload_at_def isFrozen_def)
    then show ?thesis using fr that by (simp add: entry_at_def copyFullKey_def same_frame_def) (simp add: m)
  qed
  have "entries ?q = map (entry_at ?q) [0..<?c] @ [entry_at ?q ?c]" by (simp add: entries_def)
  also have "map (entry_at ?q) [0..<?c] = entries n" using old cnt by (simp add: entries_def)
  finally have ent: "entries ?q = es @ [(key, payload, False)]" using b eq by (simp add: built_def)
  have "s_head (n_slot ?q ?c) = head (getKey ?q ?c)" unfolding kq by (simp add: m entry_slot_def)
  then have heads: "heads_ok ?q" using b old cnt by (auto simp: heads_ok_def built_def less_Suc_eq)
  have "n_space_used ?q = n_space_used n + length ?bs" "n_data_offset ?q = n_data_offset n - length ?bs" by (simp_all add: m)
  then show ?thesis unfolding q using b basq fr ent heads L by (simp add: built_def same_frame_def add.assoc)
qed

text \<open>The fences of two neighbours meet in \<open>m\<close>.\<close>

definition neighbours :: "BTreeNode \<Rightarrow> BTreeNode \<Rightarrow> key \<Rightarrow> bool" where
  "neighbours a b m \<longleftrightarrow> getUpperFenceKey a = Some m \<and> getLowerFenceKey b = Some m \<and>
     in_fences (getLowerFenceKey a) (getUpperFenceKey b) m"

text \<open>The space a merge of leaves may need, without the conversions to 16 bits.\<close>

definition merge_space :: "flags \<Rightarrow> BTreeNode \<Rightarrow> BTreeNode \<Rightarrow> nat" where
  "merge_space f a b =
     (let p = prefix_for f (getLowerFenceKey a) (getUpperFenceKey b)
      in n_space_used a + n_space_used b + slot_end (n_count a + n_count b) +
         (n_prefix_length a - p) * n_count a + (n_prefix_length b - p) * n_count b)"

lemma neighbours_keys:
  assumes "node_ok f a" "node_ok f b" "neighbours a b m"
  defines "l \<equiv> getLowerFenceKey a" and "u \<equiv> getUpperFenceKey b"
  shows "\<And>k. k \<in> fst ` set (entries a @ entries b) \<Longrightarrow> in_fences l u k"
    "sorted_wrt (<) (map fst (entries a @ entries b))"
    "\<And>k. k \<in> fst ` set (entries a) \<Longrightarrow> k \<le> m" "\<And>k. k \<in> fst ` set (entries b) \<Longrightarrow> m < k"
    "prefix_for f l u \<le> n_prefix_length a" "prefix_for f l u \<le> n_prefix_length b"
proof -
  have fa: "in_fences l (Some m) k" if "k \<in> fst ` set (entries a)" for k
    using assms(1,3) that by (auto simp: node_ok_def full_keys_entries neighbours_def l_def)
  have fb: "in_fences (Some m) u k" if "k \<in> fst ` set (entries b)" for k
    using assms(2,3) that by (auto simp: node_ok_def full_keys_entries neighbours_def u_def)
  have m: "in_fences l u m" using assms(3) by (simp add: neighbours_def l_def u_def)
  show le: "\<And>k. k \<in> fst ` set (entries a) \<Longrightarrow> k \<le> m" and gt: "\<And>k. k \<in> fst ` set (entries b) \<Longrightarrow> m < k"
    using fa fb by (auto simp: in_fences_def)
  show "in_fences l u k" if k: "k \<in> fst ` set (entries a @ entries b)" for k
  proof -
    consider "k \<in> fst ` set (entries a)" | "k \<in> fst ` set (entries b)" using k by auto
    then show ?thesis
    proof cases
      case 1 then show ?thesis using fa [of k] m by (auto simp: in_fences_def split: option.splits)
    next
      case 2 then show ?thesis using fb [of k] m by (auto simp: in_fences_def split: option.splits)
    qed
  qed
  have so: "sorted_wrt (<) (map fst (entries a))" "sorted_wrt (<) (map fst (entries b))"
    using assms(1,2) by (simp_all add: node_ok_iff shape_ok_def full_keys_entries)
  have "x < y" if "x \<in> set (map fst (entries a))" "y \<in> set (map fst (entries b))" for x y
    using le [of x] gt [of y] that by (auto intro: le_less_trans)
  then show "sorted_wrt (<) (map fst (entries a @ entries b))" using so by (simp add: sorted_wrt_append)
  have pa: "n_prefix_length a = prefix_for f l (Some m)" and pb: "n_prefix_length b = prefix_for f (Some m) u"
    using node_fits(2) [OF assms(1)] node_fits(2) [OF assms(2)] assms(3) by (simp_all add: neighbours_def l_def u_def)
  show "prefix_for f l u \<le> n_prefix_length a" "prefix_for f l u \<le> n_prefix_length b"
    using prefix_for_mono [OF m, of f] by (cases "prefix_for f l u"; simp add: pa pb)+
qed

lemma merge_space_entries:
  assumes "node_ok f a" "node_ok f b" "neighbours a b m"
  shows "merge_space f a b =
    slot_end (n_count a + n_count b) + 2 * length m + fences_len (getLowerFenceKey a) (getUpperFenceKey b) +
      entries_len (prefix_for f (getLowerFenceKey a) (getUpperFenceKey b)) (entries a @ entries b)"
proof -
  let ?p = "prefix_for f (getLowerFenceKey a) (getUpperFenceKey b)"
  note K = neighbours_keys(5,6) [OF assms]
  have "layout_ok f a" "layout_ok f b" using assms by (simp_all add: node_ok_def)
  note S = layout_space(1) [OF this(1)] layout_space(1) [OF this(2)]
  have g: "entries_len ?p (entries a) = entries_len (n_prefix_length a) (entries a) + (n_prefix_length a - ?p) * n_count a"
    "entries_len ?p (entries b) = entries_len (n_prefix_length b) (entries b) + (n_prefix_length b - ?p) * n_count b"
    using entries_len_grow [OF K(1), of "entries a"] entries_len_grow [OF K(2), of "entries b"] entries_key_length by auto
  have "getUpperFenceKey a = Some m" "getLowerFenceKey b = Some m" using assms(3) by (simp_all add: neighbours_def)
  then show ?thesis unfolding merge_space_def Let_def S by (simp add: g fences_len_def fence_bytes_def [of "Some m"])
qed

lemma setFences_prefix: "n_prefix_length (setFences f l u n) = prefix_for f l u"
  by (simp add: setFences_def prefix_for_def Let_def split_def)

text \<open>Copying all entries of both nodes into the temporary one.\<close>

lemma copy_all:
  assumes b: "built f l u leaf es t" and n: "node_ok f n"
    and keys: "\<And>k. k \<in> fst ` set (entries n) \<Longrightarrow> in_fences l u k"
    and fit: "half_fits f l u (es @ entries n)"
  shows "built f l u leaf (es @ entries n) (copyKeyValueRange n t (length es) 0 (n_count n))"
proof -
  have "fences_len l u + entries_len (prefix_for f l u) (es @ map (entry_at n) [0..<0 + n_count n]) \<le> EFFECTIVE_PAGE_SIZE"
    using fit by (simp add: half_fits_def flip: entries_def)
  moreover have "in_fences l u (copyFullKey n m)" if "0 \<le> m" "m < 0 + n_count n" for m
  proof (rule keys)
    have "entries n ! m = entry_at n m" "m < length (entries n)" using that by (simp_all add: entries_def)
    then have "entry_at n m \<in> set (entries n)" by (metis nth_mem)
    then show "copyFullKey n m \<in> fst ` set (entries n)" by (force simp: entry_at_def)
  qed
  moreover have "s_head (n_slot n m) = head (getKey n m)" if "0 \<le> m" "m < 0 + n_count n" for m
    using n that by (simp add: node_ok_def search_ok_def)
  moreover have "length es + n_count n < 65536" using half_fits_len [OF fit] by simp
  ultimately have "built f l u leaf (es @ map (entry_at n) [0..<0 + n_count n]) (copyKeyValueRange n t (length es) 0 (n_count n))"
    by (intro built_copy(1) [OF b])
  then show ?thesis by (simp add: entries_def)
qed

lemma merge_grow:
  assumes "node_ok f a" "node_ok f b" "neighbours a b m" "merge_space f a b < 65536"
  defines "p \<equiv> prefix_for f (getLowerFenceKey a) (getUpperFenceKey b)"
  shows "to_u16 ((int (n_prefix_length a) - int p) * int (n_count a)) = (n_prefix_length a - p) * n_count a"
    "to_u16 ((int (n_prefix_length b) - int p) * int (n_count b)) = (n_prefix_length b - p) * n_count b"
proof -
  note K = neighbours_keys(5,6) [OF assms(1-3), folded p_def]
  have lt: "(n_prefix_length a - p) * n_count a < 65536" "(n_prefix_length b - p) * n_count b < 65536"
    using assms(4) by (simp_all add: merge_space_def Let_def p_def)
  have id: "to_u16 (int x) = x" if "x < 65536" for x using that by simp
  have eq: "(int (n_prefix_length a) - int p) * int (n_count a) = int ((n_prefix_length a - p) * n_count a)"
    "(int (n_prefix_length b) - int p) * int (n_count b) = int ((n_prefix_length b - p) * n_count b)"
    using K by (simp_all add: of_nat_diff)
  show "to_u16 ((int (n_prefix_length a) - int p) * int (n_count a)) = (n_prefix_length a - p) * n_count a"
    "to_u16 ((int (n_prefix_length b) - int p) * int (n_count b)) = (n_prefix_length b - p) * n_count b"
    unfolding eq by (rule id [OF lt(1)], rule id [OF lt(2)])
qed

lemma merge_leaf_spec:
  assumes ok: "node_ok f this" "node_ok f right" "neighbours this right m" and leaf: "n_is_leaf this"
    and small: "merge_space f this right < 65536"
  shows "merge_space f this right > EFFECTIVE_PAGE_SIZE \<Longrightarrow> merge f g slotId this parent right = None"
    and "merge_space f this right \<le> EFFECTIVE_PAGE_SIZE \<Longrightarrow>
      \<exists>right'. merge f g slotId this parent right = Some (removeSlot slotId parent, right') \<and>
        half f (getLowerFenceKey this) (getUpperFenceKey right) True (entries this @ entries right) right'"
proof -
  let ?l = "getLowerFenceKey this" and ?u = "getUpperFenceKey right"
  define p where "p = prefix_for f ?l ?u"
  define t0 where "t0 = setFences f ?l ?u (BTreeNode_new True g)"
  have pl: "n_prefix_length t0 = p" by (simp add: t0_def setFences_prefix p_def)
  note G = merge_grow [OF ok small, folded p_def]
  have "to_u16 (int (n_space_used this) + int (n_space_used right) + int (slot_end (n_count this + n_count right)) +
      int ((n_prefix_length this - p) * n_count this) + int ((n_prefix_length right - p) * n_count right)) = merge_space f this right"
    using small by (subst to_u16_id) (simp_all add: merge_space_def Let_def p_def nat_int_add flip: of_nat_add of_nat_mult)
  then have guard: "to_u16 (int (n_space_used this) + int (n_space_used right) + int (slot_end (n_count this + n_count right)) +
      int (to_u16 ((int (n_prefix_length this) - int p) * int (n_count this))) +
      int (to_u16 ((int (n_prefix_length right) - int p) * int (n_count right)))) = merge_space f this right"
    unfolding G .
  let ?t1 = "copyKeyValueRange this t0 0 0 (n_count this)"
  let ?t2 = "copyKeyValueRange right ?t1 (n_count this) 0 (n_count right)"
  have run: "merge f g slotId this parent right =
      (if merge_space f this right > EFFECTIVE_PAGE_SIZE then None else Some (removeSlot slotId parent, makeHint ?t2))"
    using leaf unfolding merge_def Let_def by (simp add: pl guard flip: t0_def)
  then show "merge_space f this right > EFFECTIVE_PAGE_SIZE \<Longrightarrow> merge f g slotId this parent right = None" by simp
  assume le: "merge_space f this right \<le> EFFECTIVE_PAGE_SIZE"
  note E = merge_space_entries [OF ok] and K = neighbours_keys [OF ok]
  have fit: "half_fits f ?l ?u (entries this @ entries right)" using le unfolding E by (simp add: half_fits_def)
  then have fit1: "half_fits f ?l ?u ([] @ entries this)" by (simp add: half_fits_def slot_end_def sizeof_Slot_def)
  have b0: "built f ?l ?u True [] t0" unfolding t0_def
    using setFences_new half_fits_len [OF fit] by (intro fresh_built) blast
  have "built f ?l ?u True ([] @ entries this) (copyKeyValueRange this t0 (length ([]::(key \<times> u8 list \<times> bool) list)) 0 (n_count this))"
    by (rule copy_all [OF b0 ok(1) _ fit1]) (use K(1) in auto)
  then have b1: "built f ?l ?u True (entries this) ?t1" by simp
  have "built f ?l ?u True (entries this @ entries right) (copyKeyValueRange right ?t1 (length (entries this)) 0 (n_count right))"
    by (rule copy_all [OF b1 ok(2) _ fit]) (use K(1) in auto)
  then have b2: "built f ?l ?u True (entries this @ entries right) ?t2" by simp
  have "shape_ok f ?t2" by (rule built_shape [OF b2 K(2) K(1)]) (use fit in \<open>auto simp: half_fits_def\<close>)
  from copy_range_half [OF b2 this, of ?t2] have "half f ?l ?u True (entries this @ entries right) (makeHint ?t2)"
    by (simp add: same_store_def)
  then show "\<exists>right'. merge f g slotId this parent right = Some (removeSlot slotId parent, right') \<and>
        half f ?l ?u True (entries this @ entries right) right'" using run le by simp
qed

text \<open>The entry a merge of inner nodes adds for the separator that comes down from the parent.\<close>

definition upper_payload :: "BTreeNode \<Rightarrow> u8 list" where
  "upper_payload n = le_bytes 8 (n_upper n) @
     concat (map (\<lambda>i. le_bytes 8 (n_upper_pending_lsn n i)) [0..<unat (pendingLSNCount (n_upper n))])"

lemma pendingLSNCount_less: "unat (pendingLSNCount swip) < 256"
  using unsigned_less [of "pendingLSNCount swip"] by simp

lemma length_upper_payload: "length (upper_payload n) = swipPayloadLength (n_upper n)"
proof -
  let ?k = "unat (pendingLSNCount (n_upper n))"
  have "length (concat (map (\<lambda>i. le_bytes 8 (n_upper_pending_lsn n i)) [0..<k])) = 8 * k" for k
    by (induction k) simp_all
  moreover have "swipPayloadLength (n_upper n) = 8 + 8 * ?k"
  proof -
    have eq: "int sizeof_SwipType + int ?k * int sizeof_LID = int (8 + 8 * ?k)" by (simp add: sizeof_SwipType_def sizeof_LID_def)
    have "to_u16 (int (8 + 8 * ?k)) = 8 + 8 * ?k"
      using pendingLSNCount_less [of "n_upper n"] by (subst to_u16_id) (simp_all del: of_nat_unat)
    then show ?thesis unfolding swipPayloadLength_def eq .
  qed
  ultimately show ?thesis by (simp add: upper_payload_def)
qed

definition merge_inner_space :: "flags \<Rightarrow> BTreeNode \<Rightarrow> BTreeNode \<Rightarrow> key \<Rightarrow> nat" where
  "merge_inner_space f a b m =
     merge_space f a b + sizeof_Slot + (length m - prefix_for f (getLowerFenceKey a) (getUpperFenceKey b)) +
     swipPayloadLength (n_upper a)"

lemma merge_inner_fit:
  assumes ok: "node_ok f a" "node_ok f b" "neighbours a b m" and fit: "merge_inner_space f a b m \<le> EFFECTIVE_PAGE_SIZE"
  defines "e \<equiv> (m, upper_payload a, False)"
  shows "half_fits f (getLowerFenceKey a) (getUpperFenceKey b) (entries a @ e # entries b)"
    "half_fits f (getLowerFenceKey a) (getUpperFenceKey b) ((entries a @ [e]))"
    "half_fits f (getLowerFenceKey a) (getUpperFenceKey b) ([] @ entries a)"
  using fit merge_space_entries [OF ok]
  by (simp_all add: merge_inner_space_def half_fits_def e_def entry_len_def length_upper_payload slot_end_def sizeof_Slot_def)

lemma merge_inner_spec:
  assumes ok: "node_ok f this" "node_ok f right" "neighbours this right m" and inner: "isInner this"
    and par: "copyFullKey parent slotId = m" and new: "m \<notin> set (full_keys this)"
    and small: "merge_inner_space f this right m < 65536"
  shows "merge_inner_space f this right m > EFFECTIVE_PAGE_SIZE \<Longrightarrow> merge f g slotId this parent right = None"
    and "merge_inner_space f this right m \<le> EFFECTIVE_PAGE_SIZE \<Longrightarrow>
      \<exists>right'. merge f g slotId this parent right = Some (removeSlot slotId parent, right') \<and>
        half f (getLowerFenceKey this) (getUpperFenceKey right) False
          (entries this @ (m, upper_payload this, False) # entries right) right' \<and>
        children right' = children this @ children right"
proof -
  let ?l = "getLowerFenceKey this" and ?u = "getUpperFenceKey right" and ?e = "(m, upper_payload this, False)"
  define p where "p = prefix_for f ?l ?u"
  define t0 where "t0 = setFences f ?l ?u (BTreeNode_new False g)"
  have pl: "n_prefix_length t0 = p" by (simp add: t0_def setFences_prefix p_def)
  have small': "merge_space f this right < 65536" using small by (simp add: merge_inner_space_def)
  note G = merge_grow [OF ok small', folded p_def] and K = neighbours_keys [OF ok]
  have m: "in_fences ?l ?u m" using ok(3) by (simp add: neighbours_def)
  have pm: "p \<le> length m" unfolding p_def by (rule in_fences_prefix(1) [OF m])
  have lenm: "length m < 65536"
  proof -
    have "length m \<le> n_space_used this" using layout_space(1) [of f this] ok(1,3)
      by (simp add: node_ok_def neighbours_def fences_len_def fence_bytes_def [of "Some m"])
    then show ?thesis using small by (simp add: merge_inner_space_def merge_space_def Let_def)
  qed
  have xl: "getFullKeyLen parent slotId = length m"
  proof -
    have "n_prefix_length parent + s_key_len (n_slot parent slotId) = length m" using arg_cong [OF par, of length] by simp
    then show ?thesis using lenm unfolding getFullKeyLen_def getKeyLen_def of_nat_add [symmetric] by simp
  qed
  have sn: "spaceNeeded3 (length m) (swipPayloadLength (n_upper this)) p =
      sizeof_Slot + (length m - p) + swipPayloadLength (n_upper this)"
    unfolding spaceNeeded3_def using small pm by (subst to_u16_id) (simp_all add: merge_inner_space_def p_def)
  have guard: "to_u16 (int (n_space_used this) + int (n_space_used right) + int (slot_end (n_count this + n_count right)) +
      int ((n_prefix_length this - p) * n_count this) + int ((n_prefix_length right - p) * n_count right) +
      int (sizeof_Slot + (length m - p) + swipPayloadLength (n_upper this))) = merge_inner_space f this right m"
    using small unfolding of_nat_add [symmetric]
    by (subst to_u16_id) (simp_all add: merge_inner_space_def merge_space_def Let_def p_def flip: of_nat_add)
  define t1 where "t1 = copyKeyValueRange this t0 0 0 (n_count this)"
  define t2 where "t2 = storeKeyValue (n_count this) m (upper_payload this) t1"
  define t3 where "t3 = t2\<lparr>n_count := to_u16 (int (n_count t2) + 1)\<rparr>"
  define t4 where "t4 = copyKeyValueRange right t3 (n_count t3) 0 (n_count right)"
  define t5 where "t5 = setUpper (n_upper right) (n_upper_pending_lsn right) t4"
  have run: "merge f g slotId this parent right =
      (if merge_inner_space f this right m > EFFECTIVE_PAGE_SIZE then None else Some (removeSlot slotId parent, makeHint t5))"
    using inner par unfolding merge_def Let_def isInner_def
    by (simp add: pl G guard xl sn del: of_nat_add of_nat_mult flip: t0_def upper_payload_def t1_def t2_def t3_def t4_def t5_def)
  then show "merge_inner_space f this right m > EFFECTIVE_PAGE_SIZE \<Longrightarrow> merge f g slotId this parent right = None" by simp
  assume le: "merge_inner_space f this right m \<le> EFFECTIVE_PAGE_SIZE"
  note F = merge_inner_fit [OF ok le]
  have b0: "built f ?l ?u False [] t0" unfolding t0_def
    using setFences_new half_fits_len [OF F(1)] by (intro fresh_built) blast
  have "built f ?l ?u False ([] @ entries this) (copyKeyValueRange this t0 (length ([]::(key \<times> u8 list \<times> bool) list)) 0 (n_count this))"
    by (rule copy_all [OF b0 ok(1) _ F(3)]) (use K(1) in auto)
  then have b1: "built f ?l ?u False (entries this) t1" by (simp add: t1_def)
  have b3: "built f ?l ?u False (entries this @ [?e]) t3" unfolding t3_def t2_def
    using built_store [OF b1 m, of "upper_payload this"] F(2) half_fits_len [OF F(3)] by (simp add: half_fits_def)
  have c3: "n_count t3 = length (entries this @ [?e])" using b3 unfolding built_def by blast
  have "built f ?l ?u False ((entries this @ [?e]) @ entries right) (copyKeyValueRange right t3 (length (entries this @ [?e])) 0 (n_count right))"
    by (rule copy_all [OF b3 ok(2)]) (use K(1) F(1) in auto)
  then have b4: "built f ?l ?u False (entries this @ ?e # entries right) t4" unfolding t4_def c3 by simp
  have lt: "k < m" if "k \<in> fst ` set (entries this)" for k
    using K(3) [OF that] new that by (auto simp: full_keys_entries le_less)
  have "sorted_wrt (<) (map fst (entries this @ ?e # entries right))"
    using K(2,4) lt by (auto simp: sorted_wrt_append)
  then have "shape_ok f t4"
    by (rule built_shape [OF b4]) (use K(1) m F(1) in \<open>auto simp: half_fits_def\<close>)
  from copy_range_half [OF b4 this same_store_setUpper]
  have h: "half f ?l ?u False (entries this @ ?e # entries right) (makeHint t5)" unfolding t5_def by simp
  have "swip_of ?e = n_upper this" by (simp add: swip_of_def upper_payload_def le_word_le_bytes)
  then have "children (makeHint t5) = children this @ children right"
    using h by (simp add: children_def half_def makeHint_def t5_def setUpper_def)
  then show "\<exists>right'. merge f g slotId this parent right = Some (removeSlot slotId parent, right') \<and>
        half f ?l ?u False (entries this @ ?e # entries right) right' \<and> children right' = children this @ children right"
    using run le h by simp
qed

section \<open>Concrete nodes\<close>

lemma insertable_open:
  assumes ok: "node_ok f n" and inf: "getLowerFenceKey n = None" "getUpperFenceKey n = None" and new: "key \<notin> set (full_keys n)"
    and fit: "slot_end (n_count n) + entries_len 0 (entries n) + sizeof_Slot + length key + L \<le> EFFECTIVE_PAGE_SIZE"
  shows "insertable f n key L"
proof -
  have lay: "layout_ok f n" using ok by (simp add: node_ok_def)
  have pl: "n_prefix_length n = 0" using layout_base_ok [OF lay] inf(1)
    by (simp add: base_ok_def isLowerFenceInfinity_def getLowerFenceKey_def split: if_splits)
  have sp: "spaceNeeded n (length key) L = sizeof_Slot + length key + L"
    using spaceNeeded_id [of n "length key" L] fit by (simp add: pl EFFECTIVE_PAGE_SIZE_def)
  have "n_space_used n = entries_len 0 (entries n)" using layout_space(1) [OF lay] by (simp add: inf fences_len_def fence_bytes_def pl)
  then have "sizeof_Slot + length key + L \<le> freeSpaceAfterCompaction n"
    unfolding freeSpace_layout(2) [OF lay] using fit by linarith
  then have "canInsert n (length key) L" by (simp add: canInsert_def hasEnoughSpaceFor_def sp)
  moreover have "compareKeyWithBoundaries n key = 0" by (simp add: compareKeyWithBoundaries_iff inf in_fences_def)
  ultimately show ?thesis using ok new fit by (simp add: insertable_def pl EFFECTIVE_PAGE_SIZE_def)
qed

definition two_entries :: "(key \<times> u8 list \<times> bool) list" where
  "two_entries = [([1], replicate 8 0, False), ([2], replicate 8 0, False)]"

lemma two_entries_node:
  obtains n where "node_ok default_flags n" "n_is_leaf n = leaf" "getLowerFenceKey n = None" "getUpperFenceKey n = None"
    "entries n = two_entries"
proof -
  let ?f = default_flags and ?n0 = "BTreeNode_new leaf zero_page"
  have h: "hints_supported ?f" by (simp add: hints_supported_def)
  have i0: "insertable ?f ?n0 [1] (length (replicate 8 (0::u8)))" by (simp add: new_node_insertable)
  obtain n1 where n1: "node_ok ?f n1" "entries n1 = insert_entry (rank ?n0 [1]) ([1], replicate 8 0, False) (entries ?n0)" "same_node ?n0 n1"
    using node_insert_spec [OF i0 h] by metis
  have e1: "entries n1 = [([1], replicate 8 0, False)]" using n1(2) by (simp add: new_node_ok(2) insert_entry_def)
  have l1: "getLowerFenceKey n1 = None" "getUpperFenceKey n1 = None" "n_is_leaf n1 = leaf"
    using n1(3) by (simp_all add: same_node_def getLowerFenceKey_def getUpperFenceKey_def BTreeNode_new_def)
  have c1: "n_count n1 = 1" using arg_cong [OF e1, of length] by simp
  have i1: "insertable ?f n1 [2] (length (replicate 8 (0::u8)))"
    by (rule insertable_open [OF n1(1) l1(1,2)])
      (simp_all add: full_keys_entries e1 c1 entry_len_def slot_end_def page_consts)
  obtain n2 where n2: "node_ok ?f n2" "entries n2 = insert_entry (rank n1 [2]) ([2], replicate 8 0, False) (entries n1)" "same_node n1 n2"
    using node_insert_spec [OF i1 h] by metis
  have "rank n1 [2] = 1" by (simp add: rank_def full_keys_entries e1)
  then have "entries n2 = two_entries" using n2(2) by (simp add: e1 insert_entry_def two_entries_def)
  then show ?thesis using that n2(1,3) l1 by (simp add: same_node_def)
qed

lemma two_entries_keys:
  assumes "entries n = two_entries"
  shows "n_count n = 2" "copyFullKey n 0 = [1]" "copyFullKey n 1 = [2]" "inner_ok n"
proof -
  show c: "n_count n = 2" using arg_cong [OF assms, of length] by (simp add: two_entries_def)
  have "entry_at n 0 = two_entries ! 0" "entry_at n 1 = two_entries ! 1" using assms c by (simp_all add: entries_def flip: assms)
  then show "copyFullKey n 0 = [1]" "copyFullKey n 1 = [2]" by (simp_all add: two_entries_def entry_at_def)
  show "inner_ok n" unfolding inner_ok_def assms by (simp add: two_entries_def sizeof_SwipType_def)
qed

lemma fenced_node_ok:
  fixes f :: flags and leaf :: bool and g :: BTreeNode
  assumes "slot_end 0 + fences_len l u \<le> EFFECTIVE_PAGE_SIZE"
  defines "n \<equiv> setFences f l u (BTreeNode_new leaf g)"
  shows "node_ok f n" "entries n = []" "getLowerFenceKey n = l" "getUpperFenceKey n = u" "n_is_leaf n = leaf" "n_count n = 0"
    "n_space_used n = fences_len l u"
proof -
  have "fences_len l u < EFFECTIVE_PAGE_SIZE" using assms(1) by (simp add: slot_end_def slot_base_def)
  then have fr: "fresh f l u leaf n" unfolding n_def by (rule setFences_new)
  then have b: "built f l u leaf [] n" by (rule fresh_built)
  have "shape_ok f n" by (rule built_shape [OF b]) (use assms(1) in simp_all)
  then show "node_ok f n" using fr by (simp add: node_ok_iff hints_ok_def fresh_def)
  show "entries n = []" "getLowerFenceKey n = l" "getUpperFenceKey n = u" "n_is_leaf n = leaf" "n_count n = 0"
    "n_space_used n = fences_len l u" using b by (simp_all add: built_def)
qed

text \<open>The separator of a leaf lies between its fences and is not longer than the key before the cut.\<close>

lemma leaf_sep_bounds:
  assumes "node_ok f n" "n_is_leaf n" "2 \<le> n_count n"
  defines "s \<equiv> sep_slot (findSep n)" and "sep \<equiv> getSep n (findSep n)"
  shows "in_fences (getLowerFenceKey n) (getUpperFenceKey n) sep" "length sep \<le> length (copyFullKey n s) + sizeof_Slot"
proof -
  note F = findSep_leaf [OF assms(1-3), folded s_def sep_def]
  have "in_fences (getLowerFenceKey n) (getUpperFenceKey n) (copyFullKey n s)"
    "in_fences (getLowerFenceKey n) (getUpperFenceKey n) (copyFullKey n (s + 1))"
    using entry_at_in_fences [of f n] assms(1) F(1) by (simp_all add: node_ok_iff)
  then show "in_fences (getLowerFenceKey n) (getUpperFenceKey n) sep" using F(2,3) by (auto simp: in_fences_def split: option.splits)
  have "sep_length (findSep n) \<le> n_prefix_length n + s_key_len (n_slot n s)"
    using assms(2) key_len_small(1) [of f n s] F(1) assms(1) unfolding s_def node_ok_def
    by (auto simp: findSep_def isInner_def Let_def split: if_splits)
  then show "length sep \<le> length (copyFullKey n s) + sizeof_Slot" using F(4) by simp
qed

text \<open>
  A leaf whose left half does not fit: a long key followed by a short one.  The separator is the
  long key itself, which the left half needs twice, as its entry and as its fence.
\<close>

definition long_short :: "(key \<times> u8 list \<times> bool) list" where
  "long_short = [(replicate 2000 1, [], False), ([2], [], False)]"

lemma long_short_node:
  obtains n where "node_ok default_flags n" "n_is_leaf n" "getLowerFenceKey n = None" "getUpperFenceKey n = None" "entries n = long_short"
proof -
  let ?f = default_flags and ?n0 = "BTreeNode_new True zero_page" and ?k = "replicate 2000 (1 :: u8)"
  have h: "hints_supported ?f" by (simp add: hints_supported_def)
  have i0: "insertable ?f ?n0 ?k (length ([] :: u8 list))" by (simp add: new_node_insertable)
  obtain n1 where n1: "node_ok ?f n1" "entries n1 = insert_entry (rank ?n0 ?k) (?k, [], False) (entries ?n0)" "same_node ?n0 n1"
    using node_insert_spec [OF i0 h] by metis
  have e1: "entries n1 = [(?k, [], False)]" using n1(2) by (simp add: new_node_ok(2) insert_entry_def)
  have l1: "getLowerFenceKey n1 = None" "getUpperFenceKey n1 = None" "n_is_leaf n1"
    using n1(3) by (simp_all add: same_node_def getLowerFenceKey_def getUpperFenceKey_def BTreeNode_new_def)
  have c1: "n_count n1 = 1" using arg_cong [OF e1, of length] by simp
  have lt: "?k < [2]" by (simp add: numeral_eq_Suc)
  have i1: "insertable ?f n1 [2] (length ([] :: u8 list))"
    by (rule insertable_open [OF n1(1) l1(1,2)])
      (use lt in \<open>simp_all add: full_keys_entries e1 c1 entry_len_def slot_end_def page_consts\<close>)
  obtain n2 where n2: "node_ok ?f n2" "entries n2 = insert_entry (rank n1 [2]) ([2], [], False) (entries n1)" "same_node n1 n2"
    using node_insert_spec [OF i1 h] by metis
  have "rank n1 [2] = 1" using lt by (simp add: rank_def full_keys_entries e1)
  then have "entries n2 = long_short" using n2(2) by (simp add: e1 insert_entry_def long_short_def)
  then show thesis using that n2(1,3) l1 by (simp add: same_node_def)
qed

lemma split_leaf_overflows:
  "\<exists>n. node_ok default_flags n \<and> n_is_leaf n \<and> n_count n = 2 \<and>
     (\<forall>h. \<not> half default_flags (getLowerFenceKey n) (Some (getSep n (findSep n))) True (take (sep_slot (findSep n) + 1) (entries n)) h)"
proof -
  obtain n where n: "node_ok default_flags n" "n_is_leaf n" "getLowerFenceKey n = None" "getUpperFenceKey n = None" "entries n = long_short"
    using long_short_node .
  have c: "n_count n = 2" using arg_cong [OF n(5), of length] by (simp add: long_short_def)
  have e: "entry_at n 0 = long_short ! 0" "entry_at n 1 = long_short ! 1" using n(5) c by (simp_all add: entries_def flip: n(5))
  have two: "2 \<le> n_count n" using c by simp
  note F = findSep_leaf [OF n(1,2) two]
  have s: "sep_slot (findSep n) = 0" using F(1) c by simp
  have p0: "n_prefix_length n = 0" using n(1,3) by (simp add: node_ok_iff shape_ok_def layout_ok_def prefix_for_def common_length_def fence_bytes_def scan.simps)
  have k: "s_key_len (n_slot n 0) = 2000" "s_key_len (n_slot n 1) = 1"
    using e arg_cong [OF length_copyFullKey [of n 0], of id] arg_cong [OF length_copyFullKey [of n 1], of id] p0
    by (auto simp: long_short_def entry_at_def)
  have nt: "sep_length (findSep n) = 2000" using n(2) c k p0 by (simp add: findSep_def isInner_def best_slot_def Let_def)
  then have len: "length (getSep n (findSep n)) = 2000" using F(4) by simp
  have "\<not> half_fits default_flags None (Some (getSep n (findSep n))) (take 1 (entries n))"
    using len by (simp add: half_fits_def n(5) long_short_def fences_len_def fence_bytes_def entry_len_def prefix_for_def common_length_def scan.simps
      slot_end_def page_consts)
  moreover have "half_fits f l u es" if "half f l u True es h" for f l u es h using that node_fits(1) [of f h] by (auto simp: half_def)
  ultimately show ?thesis using n s c by (intro exI [of _ n]) (auto simp: n(3))
qed

section \<open>Properties\<close>

text \<open>
  C11: The separator.  For a well formed leaf with at least two entries, \<^verbatim>\<open>findSep\<close> and
  \<^verbatim>\<open>getSep\<close> choose a slot that has a successor and a key, truncated or not, that is at
  least the key of the slot and below the key of the successor; for an inner node it is the key
  of the middle slot.  The announced length is the length of the key.
\<close>
theorem findSep_separates:
  assumes "node_ok f n" "2 \<le> n_count n"
  defines "s \<equiv> sep_slot (findSep n)" and "sep \<equiv> getSep n (findSep n)"
  shows "s < n_count n \<and> length sep = sep_length (findSep n) \<and> copyFullKey n s \<le> sep \<and>
    (n_is_leaf n \<longrightarrow> s + 1 < n_count n \<and> sep < copyFullKey n (s + 1)) \<and> (\<not> n_is_leaf n \<longrightarrow> sep = copyFullKey n s)"
  using findSep_leaf [OF assms(1) _ assms(2)] findSep_inner [OF assms(1) _ assms(2)] assms(2)
  unfolding s_def sep_def isInner_def by (cases "n_is_leaf n") simp_all

theorem findSep_separates_witness:
  "\<exists>n. entries n = two_entries \<and> [1] \<le> getSep n (findSep n) \<and> sep_slot (findSep n) < 2"
proof -
  obtain n where n: "node_ok default_flags n" "n_is_leaf n = True" "entries n = two_entries" using two_entries_node .
  note T = two_entries_keys [OF n(3)]
  have "sep_slot (findSep n) + 1 < 2" using findSep_separates [OF n(1)] n(2) T(1) by simp
  then have "sep_slot (findSep n) = 0" by simp
  then show ?thesis using findSep_separates [OF n(1)] T n(3) by (intro exI [of _ n]) auto
qed

text \<open>
  C7: Splitting a leaf at the separator it chooses, with a freshly allocated page for the new
  half, provided the parent has room for the separator and the left half fits in a page with the
  separator as its upper fence.  Then the two halves are well formed, hold the entries up to and
  after the cut in order, and meet at the separator: the left one ends with it as upper fence, the
  right one starts above it.  In the parent the separator is inserted and the one swip of the leaf
  has become the swips of the left and the right half, whichever of them is the new page.  The code
  does not check that the left half fits: it does when the key after the cut is at most a slot
  shorter than the separator (\<open>leaf_left_half_fits\<close>), and may not otherwise
  (\<open>split_leaf_overflows\<close>); the right half always fits.
\<close>
theorem split_leaf_correct:
  assumes "hints_supported f" "node_ok f this" "n_is_leaf this" "2 \<le> n_count this"
  defines "s \<equiv> sep_slot (findSep this)" and "sep \<equiv> getSep this (findSep this)"
  assumes "half_fits f (getLowerFenceKey this) (Some sep) (take (s + 1) (entries this))"
    and "insertable f parent sep 8" "inner_ok parent"
  defines "old \<equiv> children parent ! rank parent sep" and "right \<equiv> FLAGS_btree_split_alloc_right f"
  shows "\<exists>parent' this' new_node'.
    node_split f g gt this parent (BTreeNode_new True gn) new_swip s sep = Some (parent', this', new_node') \<and>
    half f (getLowerFenceKey this) (Some sep) True (take (s + 1) (entries this)) (if right then this' else new_node') \<and>
    half f (Some sep) (getUpperFenceKey this) True (drop (s + 1) (entries this)) (if right then new_node' else this') \<and>
    parent_split f parent sep (if right then old else new_swip) (if right then new_swip else old) parent'"
proof -
  note F = findSep_leaf [OF assms(2,3,4), folded s_def sep_def]
  have fit: "half_fits f (Some sep) (getUpperFenceKey this) (drop (s + 1) (entries this))"
    using leaf_right_half_fits [OF assms(2) F(1)] leaf_sep_bounds [OF assms(2,3,4)] unfolding s_def sep_def by blast
  obtain parent' where upd: "parent_update f g parent sep new_swip right = Some parent'"
    and par: "parent_split f parent sep (if right then old else new_swip) (if right then new_swip else old) parent'"
    unfolding old_def using parent_update_ok [OF assms(8,9,1)] .
  have run: "\<exists>L R. splitImpl f g this parent (BTreeNode_new True gl) (BTreeNode_new True gr) new_swip right s sep = Some (parent', L, R) \<and>
    half f (getLowerFenceKey this) (Some sep) True (take (s + 1) (entries this)) L \<and>
    half f (Some sep) (getUpperFenceKey this) True (drop (s + 1) (entries this)) R" for gl gr
    using splitImpl_leaf [OF assms(2,3) F(1-3) assms(7) fit upd] by metis
  show ?thesis
  proof (cases right)
    case True
    then show ?thesis using run [of gt gn] par assms(3) by (auto simp: node_split_def right_def)
  next
    case False
    then show ?thesis using run [of gn gt] par assms(3) by (auto simp: node_split_def right_def)
  qed
qed

theorem split_leaf_correct_witness:
  "\<exists>this parent' this' new_node'. entries this = two_entries \<and>
     node_split default_flags zero_page zero_page this (BTreeNode_new False zero_page) (BTreeNode_new True zero_page) 7
       (sep_slot (findSep this)) (getSep this (findSep this)) = Some (parent', this', new_node') \<and>
     entries this' @ entries new_node' = two_entries \<and> children parent' = [0, 7]"
proof -
  let ?f = default_flags and ?par = "BTreeNode_new False zero_page"
  obtain n where n: "node_ok ?f n" "n_is_leaf n = True" "entries n = two_entries" using two_entries_node .
  note T = two_entries_keys [OF n(3)]
  have two: "2 \<le> n_count n" using T(1) by simp
  have lf: "n_is_leaf n" using n(2) by simp
  note F = findSep_leaf [OF n(1) lf two]
  have s: "sep_slot (findSep n) = 0" using F(1) T(1) by simp
  have pl: "n_prefix_length n + s_key_len (n_slot n 0) = 1" "n_prefix_length n + s_key_len (n_slot n 1) = 1"
    using arg_cong [OF T(2), of length] arg_cong [OF T(3), of length] by simp_all
  have "length (getSep n (findSep n)) \<le> 1"
    unfolding F(4) using pl s lf by (auto simp: findSep_def isInner_def Let_def split: if_splits)
  then have ins: "insertable ?f ?par (getSep n (findSep n)) 8" by (intro new_node_insertable) simp
  have ch: "children ?par = [0]" by (simp add: children_def new_node_ok(2)) (simp add: BTreeNode_new_def)
  have rk: "rank ?par k = 0" for k by (simp add: rank_def full_keys_entries new_node_ok(2))
  have in0: "inner_ok ?par" by (simp add: inner_ok_def new_node_ok(2))
  have h: "hints_supported ?f" by (simp add: hints_supported_def)
  have "length (getSep n (findSep n)) \<le> length (copyFullKey n (0 + 1)) + sizeof_Slot"
    using \<open>length (getSep n (findSep n)) \<le> 1\<close> pl by simp
  then have len: "half_fits ?f (getLowerFenceKey n) (Some (getSep n (findSep n))) (take (sep_slot (findSep n) + 1) (entries n))"
    unfolding s using leaf_left_half_fits [OF n(1) _ leaf_sep_bounds(1) [OF n(1) lf two], of 0] T(1) by simp
  from split_leaf_correct [OF h n(1) lf two len ins in0, of zero_page zero_page zero_page 7]
  obtain parent' this' new_node' where r: "node_split ?f zero_page zero_page n ?par (BTreeNode_new True zero_page) 7
       (sep_slot (findSep n)) (getSep n (findSep n)) = Some (parent', this', new_node')"
    and hl: "entries this' = take 1 (entries n)" "entries new_node' = drop 1 (entries n)"
    and ps: "parent_split ?f ?par (getSep n (findSep n)) 0 7 parent'"
    by (auto simp: half_def s ch rk)
  have "children parent' = [0, 7]" using ps by (simp add: parent_split_def Let_def ch rk)
  then show ?thesis using r hl n(3) by (metis append_take_drop_id)
qed

text \<open>
  C8: Splitting an inner node in the middle.  Provided the parent has room for the separator, the
  two halves are well formed and the middle key has moved up: the left half holds the entries
  before it, the right half those after it, the children of the left followed by those of the
  right are the old children in order (the child of the middle key is the upper swip of the left
  half), and the parent routes to both halves.  No condition on key lengths is needed.
\<close>
theorem split_inner_correct:
  assumes "hints_supported f" "node_ok f this" "isInner this" "inner_ok this" "2 \<le> n_count this"
  defines "s \<equiv> sep_slot (findSep this)" and "sep \<equiv> getSep this (findSep this)"
  assumes "insertable f parent sep 8" "inner_ok parent"
  defines "old \<equiv> children parent ! rank parent sep" and "right \<equiv> FLAGS_btree_split_alloc_right f"
  shows "\<exists>parent' this' new_node'.
    node_split f g gt this parent (BTreeNode_new False gn) new_swip s sep = Some (parent', this', new_node') \<and>
    half f (getLowerFenceKey this) (Some sep) False (take s (entries this)) (if right then this' else new_node') \<and>
    half f (Some sep) (getUpperFenceKey this) False (drop (s + 1) (entries this)) (if right then new_node' else this') \<and>
    children (if right then this' else new_node') @ children (if right then new_node' else this') = children this \<and>
    parent_split f parent sep (if right then old else new_swip) (if right then new_swip else old) parent'"
proof -
  have sep: "sep = copyFullKey this s" and s: "s < n_count this"
    using findSep_inner [OF assms(2,3,5)] assms(5) by (simp_all add: s_def sep_def)
  obtain parent' where upd: "parent_update f g parent sep new_swip right = Some parent'"
    and par: "parent_split f parent sep (if right then old else new_swip) (if right then new_swip else old) parent'"
    unfolding old_def using parent_update_ok [OF assms(8,9,1)] .
  have run: "\<exists>L R. splitImpl f g this parent (BTreeNode_new False gl) (BTreeNode_new False gr) new_swip right s sep = Some (parent', L, R) \<and>
    half f (getLowerFenceKey this) (Some sep) False (take s (entries this)) L \<and>
    half f (Some sep) (getUpperFenceKey this) False (drop (s + 1) (entries this)) R \<and> children L @ children R = children this" for gl gr
    using splitImpl_inner [OF assms(2-4) s inner_halves_fit [OF assms(2) s] upd [unfolded sep]] unfolding sep by metis
  show ?thesis
  proof (cases right)
    case True
    then show ?thesis using run [of gt gn] par assms(3) by (auto simp: node_split_def right_def isInner_def)
  next
    case False
    then show ?thesis using run [of gn gt] par assms(3) by (auto simp: node_split_def right_def isInner_def)
  qed
qed

theorem split_inner_correct_witness:
  "\<exists>this parent' this' new_node'. entries this = two_entries \<and>
     node_split default_flags zero_page zero_page this (BTreeNode_new False zero_page) (BTreeNode_new False zero_page) 7
       (sep_slot (findSep this)) (getSep this (findSep this)) = Some (parent', this', new_node') \<and>
     full_keys parent' = [[2]] \<and> children this' @ children new_node' = children this"
proof -
  let ?f = default_flags and ?par = "BTreeNode_new False zero_page"
  obtain n where n: "node_ok ?f n" "n_is_leaf n = False" "entries n = two_entries" using two_entries_node .
  note T = two_entries_keys [OF n(3)]
  have two: "2 \<le> n_count n" and inn: "isInner n" using T(1) n(2) by (simp_all add: isInner_def)
  have sep: "getSep n (findSep n) = [2]" using findSep_inner(2) [OF n(1) inn two] T by simp
  have ins: "insertable ?f ?par (getSep n (findSep n)) 8" unfolding sep by (intro new_node_insertable) simp
  have rk: "rank ?par k = 0" "full_keys ?par = []" for k by (simp_all add: rank_def full_keys_entries new_node_ok(2))
  have in0: "inner_ok ?par" by (simp add: inner_ok_def new_node_ok(2))
  have h: "hints_supported ?f" by (simp add: hints_supported_def)
  from split_inner_correct [OF h n(1) inn T(4) two ins in0, of zero_page zero_page zero_page 7]
  obtain parent' this' new_node' where r: "node_split ?f zero_page zero_page n ?par (BTreeNode_new False zero_page) 7
       (sep_slot (findSep n)) (getSep n (findSep n)) = Some (parent', this', new_node')"
    "children this' @ children new_node' = children n"
    and ps: "full_keys parent' = [[2]]"
    by (auto simp: parent_split_def Let_def sep rk)
  then show ?thesis using n(3) by blast
qed

text \<open>
  C9: Merging a leaf into its right neighbour.  For two leaves whose fences meet, the test of
  \<^verbatim>\<open>merge\<close> is exact as long as its estimate stays below 64 KiB: if the estimate exceeds
  the page nothing happens; otherwise the separator leaves the parent and the right node, well
  formed and with the fences of both, holds the entries of the left one followed by its own.
\<close>
theorem merge_leaf_correct:
  assumes "node_ok f this" "node_ok f right" "neighbours this right m" "n_is_leaf this"
    and "merge_space f this right < 65536"
  shows "(EFFECTIVE_PAGE_SIZE < merge_space f this right \<longrightarrow> merge f g slotId this parent right = None) \<and>
    (merge_space f this right \<le> EFFECTIVE_PAGE_SIZE \<longrightarrow>
      (\<exists>right'. merge f g slotId this parent right = Some (removeSlot slotId parent, right') \<and>
        half f (getLowerFenceKey this) (getUpperFenceKey right) True (entries this @ entries right) right'))"
  using merge_leaf_spec [OF assms] by blast

theorem merge_leaf_correct_witness:
  "\<exists>parent' right'.
     merge default_flags zero_page 0 (setFences default_flags None (Some [5]) (BTreeNode_new True zero_page)) zero_page
       (setFences default_flags (Some [5]) None (BTreeNode_new True zero_page)) = Some (parent', right') \<and>
     node_ok default_flags right' \<and> getLowerFenceKey right' = None \<and> getUpperFenceKey right' = None"
proof -
  let ?f = default_flags
  have fit: "slot_end 0 + fences_len None (Some [5]) \<le> EFFECTIVE_PAGE_SIZE" "slot_end 0 + fences_len (Some [5]) None \<le> EFFECTIVE_PAGE_SIZE"
    by (simp_all add: slot_end_def page_consts fences_len_def fence_bytes_def)
  note A = fenced_node_ok [OF fit(1), of ?f True zero_page] and B = fenced_node_ok [OF fit(2), of ?f True zero_page]
  have nb: "neighbours (setFences ?f None (Some [5]) (BTreeNode_new True zero_page))
      (setFences ?f (Some [5]) None (BTreeNode_new True zero_page)) [5]"
    by (simp add: neighbours_def A B in_fences_def)
  have lf: "n_is_leaf (setFences ?f None (Some [5]) (BTreeNode_new True zero_page))" by (simp add: A)
  have sp: "merge_space ?f (setFences ?f None (Some [5]) (BTreeNode_new True zero_page))
      (setFences ?f (Some [5]) None (BTreeNode_new True zero_page)) = 151"
    by (simp add: merge_space_def Let_def A B fences_len_def fence_bytes_def slot_end_def slot_base_def)
  then have lt: "merge_space ?f (setFences ?f None (Some [5]) (BTreeNode_new True zero_page))
      (setFences ?f (Some [5]) None (BTreeNode_new True zero_page)) < 65536" by simp
  show ?thesis using merge_leaf_correct [OF A(1) B(1) nb lf lt, of zero_page 0 zero_page]
    by (auto simp: sp EFFECTIVE_PAGE_SIZE_def half_def A B)
qed

text \<open>
  C10: Merging an inner node into its right neighbour.  The separator of the parent comes down
  between the entries of the two nodes, carrying the upper swip of the left node with its pending
  LSNs, and the children of the merged node are those of the left followed by those of the right.
\<close>
theorem merge_inner_correct:
  assumes "node_ok f this" "node_ok f right" "neighbours this right m" "isInner this"
    and "copyFullKey parent slotId = m" "m \<notin> set (full_keys this)" "merge_inner_space f this right m < 65536"
  shows "(EFFECTIVE_PAGE_SIZE < merge_inner_space f this right m \<longrightarrow> merge f g slotId this parent right = None) \<and>
    (merge_inner_space f this right m \<le> EFFECTIVE_PAGE_SIZE \<longrightarrow>
      (\<exists>right'. merge f g slotId this parent right = Some (removeSlot slotId parent, right') \<and>
        half f (getLowerFenceKey this) (getUpperFenceKey right) False
          (entries this @ (m, upper_payload this, False) # entries right) right' \<and>
        children right' = children this @ children right))"
  using merge_inner_spec [OF assms] by blast

theorem merge_inner_correct_witness:
  "\<exists>parent parent' right'. entries parent = two_entries \<and>
     merge default_flags zero_page 0 (setFences default_flags None (Some [1]) (BTreeNode_new False zero_page)) parent
       (setFences default_flags (Some [1]) None (BTreeNode_new False zero_page)) = Some (parent', right') \<and>
     children right' = [0, 0]"
proof -
  let ?f = default_flags
  obtain par where par: "node_ok ?f par" "n_is_leaf par = False" "entries par = two_entries" using two_entries_node .
  note T = two_entries_keys [OF par(3)]
  have fit: "slot_end 0 + fences_len None (Some [1]) \<le> EFFECTIVE_PAGE_SIZE" "slot_end 0 + fences_len (Some [1]) None \<le> EFFECTIVE_PAGE_SIZE"
    by (simp_all add: slot_end_def page_consts fences_len_def fence_bytes_def)
  let ?a = "setFences ?f None (Some [1]) (BTreeNode_new False zero_page)" and ?b = "setFences ?f (Some [1]) None (BTreeNode_new False zero_page)"
  note A = fenced_node_ok [OF fit(1), of ?f False zero_page] and B = fenced_node_ok [OF fit(2), of ?f False zero_page]
  have fresh: "n_upper ?a = 0" "n_upper ?b = 0"
    using setFences_new [of None "Some [1]" ?f False zero_page] setFences_new [of "Some [1]" None ?f False zero_page]
    by (simp_all add: fences_len_def fence_bytes_def EFFECTIVE_PAGE_SIZE_def fresh_def)
  have ch: "children ?a = [0]" "children ?b = [0]" by (simp_all add: children_def A B fresh)
  have nb: "neighbours ?a ?b [1]" by (simp add: neighbours_def A B in_fences_def)
  have inn: "isInner ?a" "[1] \<notin> set (full_keys ?a)" by (simp_all add: isInner_def A full_keys_entries)
  have "pendingLSNCount 0 = 0" by (simp add: pendingLSNCount_def isEVICTED_def)
  then have sp: "merge_inner_space ?f ?a ?b [1] = 170"
    by (simp add: merge_inner_space_def merge_space_def Let_def A B fences_len_def fence_bytes_def slot_end_def page_consts
        prefix_for_def common_length_def scan.simps fresh swipPayloadLength_def)
  then have lt: "merge_inner_space ?f ?a ?b [1] < 65536" by simp
  show ?thesis using merge_inner_correct [OF A(1) B(1) nb inn(1) T(2) inn(2) lt, of zero_page] par(3)
    by (auto simp: sp EFFECTIVE_PAGE_SIZE_def ch)
qed

end
