(* ===== verification/BTree_Pending.thy ===== *)
theory BTree_Pending
  imports BTree_Split
begin

text \<open>
  Discarding a page stores the LSNs of its pending log records in the parent, behind the swip of
  the child: \<^verbatim>\<open>BTreeNode::evictAndStorePendingLSNs\<close> makes the payload of the slot longer,
  which moves the entry and may compact the page while the slot is empty.
\<close>

section \<open>Compaction with an empty slot\<close>

text \<open>The head of a slot is carried along by compaction; nothing is computed from it but the hints.\<close>

definition set_head :: "nat \<Rightarrow> u32 \<Rightarrow> BTreeNode \<Rightarrow> BTreeNode" where
  "set_head i h n = n\<lparr>n_slot := (n_slot n)(i := (n_slot n i)\<lparr>s_head := h\<rparr>)\<rparr>"

lemma set_head_fields [simp]:
  "n_upper (set_head i h n) = n_upper n" "n_upper_pending_lsn (set_head i h n) = n_upper_pending_lsn n"
  "n_lower_fence (set_head i h n) = n_lower_fence n" "n_upper_fence (set_head i h n) = n_upper_fence n"
  "n_count (set_head i h n) = n_count n" "n_is_leaf (set_head i h n) = n_is_leaf n"
  "n_space_used (set_head i h n) = n_space_used n" "n_data_offset (set_head i h n) = n_data_offset n"
  "n_prefix_length (set_head i h n) = n_prefix_length n" "n_has_garbage (set_head i h n) = n_has_garbage n"
  "n_mem (set_head i h n) = n_mem n" "n_hint (set_head i h n) = n_hint n"
  "s_offset (n_slot (set_head i h n) j) = s_offset (n_slot n j)" "s_key_len (n_slot (set_head i h n) j) = s_key_len (n_slot n j)"
  "s_payload_len (n_slot (set_head i h n) j) = s_payload_len (n_slot n j)" "s_frozen (n_slot (set_head i h n) j) = s_frozen (n_slot n j)"
  "s_head (n_slot (set_head i h n) j) = (if j = i then h else s_head (n_slot n j))"
  by (simp_all add: set_head_def)

lemma set_head_reads [simp]:
  "getKey (set_head i h n) = getKey n" "entry_at (set_head i h n) = entry_at n" "getPrefix (set_head i h n) = getPrefix n"
  "getLowerFenceKey (set_head i h n) = getLowerFenceKey n" "getUpperFenceKey (set_head i h n) = getUpperFenceKey n"
  "copyFullKey (set_head i h n) = copyFullKey n" "getPayload (set_head i h n) = getPayload n"
  "base_ok I (set_head i h n) = base_ok I n" "used_upto j (set_head i h n) = used_upto j n"
  by (auto simp: fun_eq_iff getKey_def entry_at_def copyFullKey_def getPrefix_def getPayload_def payload_at_def isFrozen_def
      getLowerFenceKey_def getUpperFenceKey_def base_ok_def chunks_ok_def off_def len_def fence_chunks_def used_upto_def
      isLowerFenceInfinity_def isUpperFenceInfinity_def cong: chunk.case_cong)

lemma move_entry_set_head:
  "move_entry (set_head i h src) a b dst = move_entry src a b dst"
  "move_entry src a b (set_head i h dst) = set_head i h (move_entry src a b dst)"
proof -
  show "move_entry (set_head i h src) a b dst = move_entry src a b dst"
    by (simp add: move_entry_def getKeyLen_def getPayloadLength_def)
  show "move_entry src a b (set_head i h dst) = set_head i h (move_entry src a b dst)"
    by (rule BTreeNode.equality) (auto simp: move_entry_def set_head_def Let_def fun_eq_iff)
qed

lemma fast_loop_set_head:
  "fast_loop (set_head i h src) a b k (set_head i h dst) = set_head i h (fast_loop src a b k dst)"
  by (induction k arbitrary: a b dst) (simp_all add: move_entry_set_head)

lemma copyKeyValueRange_set_head:
  assumes "n_prefix_length src = n_prefix_length dst" "i < c"
  shows "copyKeyValueRange (set_head i h src) dst 0 0 c = set_head i h (copyKeyValueRange src dst 0 0 c)"
proof -
  have "dst\<lparr>n_slot := (\<lambda>x. if 0 \<le> x \<and> x < 0 + c then n_slot (set_head i h src) (0 + (x - 0)) else n_slot dst x)\<rparr> =
    set_head i h (dst\<lparr>n_slot := (\<lambda>x. if 0 \<le> x \<and> x < 0 + c then n_slot src (0 + (x - 0)) else n_slot dst x)\<rparr>)"
    by (rule BTreeNode.equality) (use assms(2) in \<open>auto simp: set_head_def fun_eq_iff\<close>)
  then show ?thesis using assms(1)
    by (simp only: copyKeyValueRange_def set_head_fields fast_loop_set_head if_True Let_def)
      (rule BTreeNode.equality; simp add: set_head_def)
qed


section \<open>A node with a gap\<close>

text \<open>The slot \<open>i\<close> of \<open>n\<close> without its bytes, and what such a node keeps, compacted or not.\<close>

definition blank :: "nat \<Rightarrow> BTreeNode \<Rightarrow> BTreeNode" where
  "blank i n = n\<lparr>n_space_used := n_space_used n - len n (Entry_of i),
                 n_slot := (n_slot n)(i := (n_slot n i)\<lparr>s_payload_len := 0, s_key_len := 0\<rparr>)\<rparr>"

definition gap :: "BTreeNode \<Rightarrow> nat \<Rightarrow> BTreeNode \<Rightarrow> bool" where
  "gap n i b \<longleftrightarrow>
     base_ok (used_upto (n_count n) b - {Entry_of i}) b \<and> n_count b = n_count n \<and> same_node n b \<and> getPrefix b = getPrefix n \<and>
     f_length (n_lower_fence b) = f_length (n_lower_fence n) \<and> f_length (n_upper_fence b) = f_length (n_upper_fence n) \<and>
     (\<forall>j < n_count n. j \<noteq> i \<longrightarrow> entry_at b j = entry_at n j \<and> getKey b j = getKey n j) \<and>
     (\<forall>j < n_count n. s_head (n_slot b j) = s_head (n_slot n j)) \<and> s_frozen (n_slot b i) = s_frozen (n_slot n i) \<and> hints_ok b \<and>
     n_space_used b = n_space_used n - len n (Entry_of i) \<and> slot_end (n_count n) \<le> n_data_offset b"

lemma len_le_space:
  assumes "layout_ok f n" "i < n_count n"
  shows "len n (Entry_of i) \<le> n_space_used n"
proof -
  have ch: "chunks_ok (chunks n) n" using assms(1) by (simp add: layout_ok_def)
  have "len n (Entry_of i) \<le> sum (len n) (chunks n)"
    using assms(2) chunks_okD(1) [OF ch] by (intro member_le_sum) (auto simp: chunks_def)
  then show ?thesis using chunks_okD(2) [OF ch] by simp
qed

lemma blank_reads:
  "j \<noteq> i \<Longrightarrow> entry_at (blank i n) j = entry_at n j" "j \<noteq> i \<Longrightarrow> getKey (blank i n) j = getKey n j"
  "getKey (blank i n) i = []" "getPayload (blank i n) i = []" "isFrozen (blank i n) i = isFrozen n i"
  "getPrefix (blank i n) = getPrefix n" "getLowerFenceKey (blank i n) = getLowerFenceKey n" "getUpperFenceKey (blank i n) = getUpperFenceKey n"
  "s_head (n_slot (blank i n) j) = s_head (n_slot n j)" "used_upto m (blank i n) = used_upto m n" "same_node n (blank i n)"
  by (simp_all add: blank_def entry_at_def getKey_def copyFullKey_def getPrefix_def getPayload_def payload_at_def isFrozen_def
      getLowerFenceKey_def getUpperFenceKey_def used_upto_def fence_chunks_def isLowerFenceInfinity_def isUpperFenceInfinity_def same_node_def)

lemma blank_gap:
  assumes ok: "node_ok f n" and i: "i < n_count n"
  shows "gap n i (blank i n)"
proof -
  have lay: "layout_ok f n" and hint: "hints_ok n" using ok by (auto simp: node_ok_iff shape_ok_def)
  let ?J = "used_upto (n_count n) n - {Entry_of i}"
  have base: "base_ok (used_upto (n_count n) n) n" by (rule layout_base_ok [OF lay])
  then have ch: "chunks_ok (used_upto (n_count n) n) n" by (simp add: base_ok_def)
  have "chunks_ok ?J (blank i n)"
  proof (rule chunks_ok_remap [OF ch, where r = id])
    have "sum (len n) ?J = sum (len n) (used_upto (n_count n) n) - len n (Entry_of i)"
      using i chunks_okD(1) [OF ch] by (subst sum_diff1_nat) simp
    then show "n_space_used (blank i n) = sum (len n) (id ` ?J)" using chunks_okD(2) [OF ch] by (simp add: blank_def)
    fix c assume "c \<in> ?J"
    then show "off (blank i n) c = off n (id c)" "len (blank i n) c = len n (id c)" by (auto simp: blank_def off_def len_def split: chunk.splits)
  qed (auto simp: blank_def)
  then have "base_ok ?J (blank i n)"
    using base by (auto simp: base_ok_def fence_chunks_def blank_def isLowerFenceInfinity_def isUpperFenceInfinity_def)
  moreover have "hints_ok (blank i n)" using hint by (simp add: hints_ok_def hint_dist_def blank_reads blank_def)
  ultimately show ?thesis using lay i unfolding gap_def blank_reads(10)
    by (simp add: blank_reads layout_ok_def) (simp add: blank_def)
qed

text \<open>Filling the gap with the key and a payload that fits.\<close>

lemma gap_fill:
  assumes ok: "node_ok f n" and i: "i < n_count n" and g: "gap n i b"
    and fit: "slot_end (n_count n) + s_key_len (n_slot n i) + length p \<le> n_data_offset b"
  defines "n' \<equiv> push_entry i ((n_slot b i)\<lparr>s_key_len := s_key_len (n_slot n i), s_payload_len := length p\<rparr>) (getKey n i @ p) b"
  shows "node_ok f n'" "entries n' = (entries n)[i := (copyFullKey n i, p, isFrozen n i)]" "same_node n n'" "n_count n' = n_count n"
proof -
  have sh: "shape_ok f n" and lay: "layout_ok f n" using ok by (simp_all add: node_ok_iff shape_ok_def)
  let ?e = "(n_slot b i)\<lparr>s_key_len := s_key_len (n_slot n i), s_payload_len := length p\<rparr>" and ?bs = "getKey n i @ p"
  let ?I = "used_upto (n_count n) b - {Entry_of i}"
  have base: "base_ok ?I b" and cnt: "n_count b = n_count n" and sn: "same_node n b" and pre: "getPrefix b = getPrefix n"
    and fl: "f_length (n_lower_fence b) = f_length (n_lower_fence n)" "f_length (n_upper_fence b) = f_length (n_upper_fence n)"
    and old: "\<And>j. j < n_count n \<Longrightarrow> j \<noteq> i \<Longrightarrow> entry_at b j = entry_at n j \<and> getKey b j = getKey n j"
    and hd: "\<And>j. j < n_count n \<Longrightarrow> s_head (n_slot b j) = s_head (n_slot n j)"
    and fz: "s_frozen (n_slot b i) = s_frozen (n_slot n i)" and hint: "hints_ok b" using g by (auto simp: gap_def)
  have ch: "chunks_ok ?I b" using base by (simp add: base_ok_def)
  have r: "room b (length ?bs)" using fit chunks_okD(3) [OF ch] by (simp add: room_def)
  have frame: "same_frame b n'" unfolding n'_def by (rule push_entry_frame [OF base r])
  have "base_ok (insert (Entry_of i) ?I) n'" unfolding n'_def by (rule push_entry_base [OF base _ r]) simp_all
  moreover have c': "n_count n' = n_count n" using cnt by (simp add: n'_def)
  ultimately have b': "base_ok (used_upto (n_count n') n') n'" unfolding used_upto_frame [OF frame] using i by (simp add: insert_absorb)
  show "n_count n' = n_count n" by (rule c')
  have other: "getKey n' j = getKey n j \<and> entry_at n' j = entry_at n j" if "j < n_count n" "j \<noteq> i" for j
    using push_entry_other [OF ch r, of j i ?e] that old [OF that] frame
    by (auto simp: n'_def entry_at_def copyFullKey_def same_frame_def)
  have new: "getKey n' i = getKey n i" "getPayload n' i = p" "isFrozen n' i = isFrozen n i"
    using push_entry_new(1,2) [where e = ?e and k = "getKey n i" and p = p and s = i and n = b] fz by (simp_all add: n'_def isFrozen_def)
  have ei: "entry_at n' i = (copyFullKey n i, p, isFrozen n i)"
    using new frame pre by (simp add: entry_at_def copyFullKey_def same_frame_def)
  show ent: "entries n' = (entries n)[i := (copyFullKey n i, p, isFrozen n i)]"
    using i other ei c' by (intro nth_equalityI) (auto simp: entries_def nth_list_update)
  have keys: "full_keys n' = full_keys n"
    using i by (simp add: full_keys_entries ent map_update) (simp add: entries_def entry_at_def list_update_same_conv)
  have fk: "getLowerFenceKey n' = getLowerFenceKey n" "getUpperFenceKey n' = getUpperFenceKey n" "n_prefix_length n' = n_prefix_length n"
    using frame sn by (simp_all add: same_frame_def same_node_def)
  have fb: "length (fence_bytes (getLowerFenceKey n)) = f_length (n_lower_fence n)" "length (fence_bytes (getUpperFenceKey n)) = f_length (n_upper_fence n)"
    using lay by (auto simp: layout_ok_def getLowerFenceKey_def getUpperFenceKey_def fence_bytes_def isLowerFenceInfinity_def isUpperFenceInfinity_def)
  have "layout_ok f n'"
  proof (rule base_ok_layout [OF b' _ fk(1,2)])
    show "slot_end (n_count n') \<le> n_data_offset n'" using fit c' by (simp add: n'_def)
    show "f_length (n_lower_fence n') = length (fence_bytes (getLowerFenceKey n))" "f_length (n_upper_fence n') = length (fence_bytes (getUpperFenceKey n))"
      using frame fl fb by (simp_all add: same_frame_def)
    show "n_prefix_length n' = prefix_for f (getLowerFenceKey n) (getUpperFenceKey n)" using fk(3) lay by (simp add: layout_ok_def)
  qed
  moreover have h': "s_head (n_slot n' j) = s_head (n_slot n j)" if "j < n_count n" for j using hd [OF that] by (auto simp: n'_def)
  have kk: "getKey n' j = getKey n j" if "j < n_count n" for j using other [OF that] new(1) by (cases "j = i") simp_all
  then have "heads_ok n'" using sh h' c' by (simp add: shape_ok_def heads_ok_def)
  moreover have "s_head (n_slot n' j) = s_head (n_slot b j)" for j by (simp add: n'_def)
  then have "hints_ok n'" using hint by (simp add: hints_ok_def hint_dist_def) (simp add: n'_def)
  ultimately show "node_ok f n'" using sh keys fk by (simp add: node_ok_iff shape_ok_def)
  show "same_node n n'" using frame sn by (simp add: same_node_def same_frame_def)
qed


text \<open>Compaction keeps the gap and moves everything else to the end of the page.\<close>

lemma blank_copies:
  fixes h :: u32
  assumes lay: "layout_ok f n" and i: "i < n_count n"
  defines "b \<equiv> set_head i h (blank i n)"
  shows "fences_len (getLowerFenceKey n) (getUpperFenceKey n) + copies_len (n_prefix_length n) b 0 (n_count n) = n_space_used (blank i n)"
proof -
  let ?pl = "n_prefix_length n"
  have t: "copy_len ?pl b m = (if m = i then 0 else copy_len ?pl n m)" for m by (simp add: copy_len_def b_def) (simp add: blank_def)
  have "copies_len ?pl b 0 (n_count n) = (\<Sum>m \<in> {..<n_count n} - {i}. copy_len ?pl n m)"
    using i by (simp add: copies_len_def t sum.remove [of "{..<n_count n}" i])
  also have "\<dots> = copies_len ?pl n 0 (n_count n) - copy_len ?pl n i"
    using i by (simp add: copies_len_def sum_diff1_nat)
  finally have "copies_len ?pl b 0 (n_count n) = entries_len ?pl (entries n) - len n (Entry_of i)"
    by (simp add: copies_len_entries entries_def copy_len_def)
  moreover have "len n (Entry_of i) \<le> entries_len ?pl (entries n)"
  proof -
    have "len n (Entry_of i) = entry_len ?pl (entries n ! i)" using i by (simp add: entries_def entry_len_def entry_at_def)
    also have "\<dots> \<le> entries_len ?pl (entries n)" unfolding entries_len_def
      using i by (intro member_le_sum_list) simp_all
    finally show ?thesis .
  qed
  ultimately show ?thesis using layout_space(1) [OF lay] by (simp add: blank_def)
qed

lemma compact_gap:
  fixes g :: BTreeNode
  assumes ok: "node_ok f n" and i: "i < n_count n"
  defines "b \<equiv> compactify f g (blank i n)"
  shows "gap n i b" "n_data_offset b = EFFECTIVE_PAGE_SIZE - n_space_used (blank i n)"
proof -
  have sh: "shape_ok f n" and lay: "layout_ok f n" using ok by (simp_all add: node_ok_iff shape_ok_def)
  note S = layout_space [OF lay] and L = len_le_space [OF lay i]
  let ?l = "getLowerFenceKey n" and ?u = "getUpperFenceKey n" and ?h = "s_head (n_slot n i)" and ?c = "n_count n" and ?pl = "n_prefix_length n"
  define b0 where "b0 = set_head i (head []) (blank i n)"
  have bl: "blank i n = set_head i ?h b0" by (rule BTreeNode.equality) (auto simp: b0_def set_head_def blank_def fun_eq_iff)
  define t1 where "t1 = setFences f ?l ?u (BTreeNode_new (n_is_leaf n) g)"
  have "0 < slot_end ?c" by (simp add: slot_end_def slot_base_def)
  then have fr: "fresh f ?l ?u (n_is_leaf n) t1" unfolding t1_def using S(1,2) by (intro setFences_new) linarith
  have pl: "n_prefix_length t1 = ?pl" "getPrefix t1 = getPrefix n"
    using fr lay layout_prefix [OF lay] by (simp_all add: fresh_def layout_ok_def)
  have b0: "n_prefix_length b0 = ?pl" "n_count b0 = ?c" by (simp_all add: b0_def blank_def)
  have sp: "fences_len ?l ?u + copies_len ?pl b0 0 ?c = n_space_used (blank i n)" unfolding b0_def by (rule blank_copies [OF lay i])
  have room: "room t1 (copies_len (n_prefix_length t1) b0 0 ?c)"
    using fr sp S(2) unfolding pl(1) by (simp add: room_def fresh_def blank_def)
  have pre: "n_prefix_length t1 \<le> length (copyFullKey b0 (0 + m)) \<and> take (n_prefix_length t1) (copyFullKey b0 (0 + m)) = getPrefix t1" if "m < ?c" for m
    using b0(1) by (simp add: pl copyFullKey_def b0_def blank_reads)
  have heads: "s_head (n_slot b0 (0 + m)) = head (getKey b0 (0 + m))" if "m < ?c" for m
    using that sh by (auto simp: b0_def blank_reads shape_ok_def heads_ok_def)
  define t where "t = push_range b0 0 0 ?c t1"
  have small: "n_count t1 + ?c < 65536" using fr S(3,4) count_less [of ?c] by (simp add: fresh_def)
  have cp: "copied b0 0 0 ?c t1 t"
    unfolding t_def by (rule push_range_spec [OF _ room pre]) (use fr in \<open>simp add: fresh_def\<close>)
  have T0: "copyKeyValueRange b0 t1 0 0 ?c = t\<lparr>n_count := ?c\<rparr>"
    using copyKeyValueRange_push_range [OF room _ heads small] pre fr by (simp add: t_def fresh_def)
  define t2 where "t2 = set_head i ?h (t\<lparr>n_count := ?c\<rparr>)"
  have T: "copyKeyValueRange (blank i n) t1 0 0 ?c = t2"
    unfolding bl t2_def T0 [symmetric] by (rule copyKeyValueRange_set_head) (use b0 pl i in simp_all)
  have bb: "b = makeHint (setUpper (n_upper n) (n_upper_pending_lsn n) t2)"
    using T by (simp add: b_def compactify_def Let_def blank_reads t1_def) (simp add: blank_def)
  have ss: "same_store t2 b" unfolding bb makeHint_def by (simp add: same_store_def setUpper_def)
  have frame: "same_frame t1 t" and tb: "base_ok (used_upto ?c t) t" using cp by (simp_all add: copied_def)
  have b1: "base_ok (used_upto ?c b) b"
  proof -
    have "base_ok (used_upto ?c t2) t2" using tb by (simp add: t2_def count_update_reads used_upto_def fence_chunks_def isLowerFenceInfinity_def isUpperFenceInfinity_def)
    then show ?thesis using ss by (simp add: base_ok_def chunks_ok_def off_def len_def used_upto_def fence_chunks_def isLowerFenceInfinity_def isUpperFenceInfinity_def same_store_def cong: chunk.case_cong)
  qed
  show off: "n_data_offset b = EFFECTIVE_PAGE_SIZE - n_space_used (blank i n)"
    using ss cp fr sp pl by (simp add: same_store_def t2_def copied_def fresh_def)
  have ent: "entry_at b j = entry_at b0 j" "s_head (n_slot b j) = s_head (n_slot n j)" "getKey b j = getKey b0 j" if j: "j < ?c" for j
  proof -
    have e: "entry_at t j = entry_at b0 j \<and> s_head (n_slot t j) = head (getKey t j)" using cp j by (auto simp: copied_def)
    have rd: "entry_at b j = entry_at t j" "getKey b j = getKey t j" "n_slot b = n_slot t2"
      using same_store_reads(1,4) [OF ss] ss by (simp_all add: t2_def count_update_reads same_store_def)
    show "entry_at b j = entry_at b0 j" using rd e by simp
    have "copyFullKey t j = copyFullKey b0 j" using e by (simp add: entry_at_def)
    moreover have "getPrefix t = getPrefix b0" using frame pl by (simp add: same_frame_def b0_def blank_reads)
    ultimately have k: "getKey t j = getKey b0 j" by (simp add: copyFullKey_def)
    then show "getKey b j = getKey b0 j" using rd by simp
    show "s_head (n_slot b j) = s_head (n_slot n j)"
      using rd(3) e k j sh by (auto simp: t2_def b0_def blank_reads shape_ok_def heads_ok_def)
  qed
  have "entry_at b i = (getPrefix n, [], isFrozen n i)"
    using ent(1) [OF i] by (simp add: b0_def entry_at_def copyFullKey_def blank_reads)
  then have z: "len b (Entry_of i) = 0" "s_frozen (n_slot b i) = s_frozen (n_slot n i)"
    using ent(3) [OF i] by (auto simp: entry_at_def b0_def blank_reads isFrozen_def dest!: arg_cong [where f = length])
  have "chunks_ok (used_upto ?c b - {Entry_of i}) b"
  proof (rule chunks_ok_remap [where r = id and I = "used_upto ?c b" and n = b])
    show ch: "chunks_ok (used_upto ?c b) b" using b1 by (simp add: base_ok_def)
    show "n_space_used b = sum (len b) (id ` (used_upto ?c b - {Entry_of i}))"
      using chunks_okD(1,2) [OF ch] i z(1) by (simp add: sum.remove [of "used_upto ?c b" "Entry_of i"])
  qed auto
  then have b2: "base_ok (used_upto ?c b - {Entry_of i}) b" using b1 by (auto simp: base_ok_def fence_chunks_def split: if_splits)
  have ck: "getLowerFenceKey (t\<lparr>n_count := ?c\<rparr>) = getLowerFenceKey t" "getUpperFenceKey (t\<lparr>n_count := ?c\<rparr>) = getUpperFenceKey t"
    "getPrefix (t\<lparr>n_count := ?c\<rparr>) = getPrefix t" by (simp_all add: getLowerFenceKey_def getUpperFenceKey_def getPrefix_def)
  have "same_node n b" using ck frame fr lay unfolding same_node_def same_store_reads(8,9) [OF ss]
    by (simp add: bb makeHint_def setUpper_def) (simp add: t2_def same_frame_def fresh_def layout_ok_def)
  moreover have "hints_ok b" unfolding bb by (rule hints_ok_makeHint)
  moreover have "f_length (n_lower_fence b) = f_length (n_lower_fence n)" "f_length (n_upper_fence b) = f_length (n_upper_fence n)"
    using ss frame fr lay by (auto simp: same_store_def t2_def same_frame_def fresh_def layout_ok_def getLowerFenceKey_def getUpperFenceKey_def
      fence_bytes_def isLowerFenceInfinity_def isUpperFenceInfinity_def)
  moreover have "getPrefix b = getPrefix n" unfolding same_store_reads(7) [OF ss] using frame pl ck(3) by (simp add: t2_def same_frame_def)
  moreover have "n_count b = ?c" "n_space_used b = n_space_used n - len n (Entry_of i)"
    using ss cp fr sp pl by (simp_all add: same_store_def t2_def copied_def fresh_def blank_def)
  moreover have "slot_end ?c \<le> n_data_offset b" using off S(2) by (simp add: blank_def)
  ultimately show "gap n i b" using b2 ent z(2) by (simp add: gap_def b0_def blank_reads)
qed


section \<open>Longer payloads\<close>

text \<open>The payload of a slot grows to \<open>m\<close> bytes, whose contents are left open.\<close>

lemma wr_prefix: "wr mem x (k @ rd mem (x + length k) m) = wr mem x k"
proof (rule ext)
  fix j
  show "wr mem x (k @ rd mem (x + length k) m) j = wr mem x k j" by (auto simp: wr_def nth_append nth_rd)
qed

lemma extendPayload_push:
  fixes g :: BTreeNode
  assumes ok: "node_ok f n" and i: "i < n_count n" and m: "s_payload_len (n_slot n i) < m" "m < 32768"
    and can: "canExtendPayload n i m"
  obtains n1 b p where "node_ok f n1" "entries n1 = entries n" "same_node n n1" "n_count n1 = n_count n" "gap n1 i b" "length p = m"
    "slot_end (n_count n1) + s_key_len (n_slot n1 i) + m \<le> n_data_offset b"
    "extendPayload f g i m n = push_entry i ((n_slot b i)\<lparr>s_key_len := s_key_len (n_slot n1 i), s_payload_len := m\<rparr>) (getKey n1 i @ p) b"
proof -
  let ?x = "m - s_payload_len (n_slot n i)"
  have x: "to_u16 (int m - int (getPayloadLength n i)) = ?x" using m by (simp add: getPayloadLength_def)
  define n1 where "n1 = snd (requestSpaceFor f g n ?x)"
  obtain okk where rq: "requestSpaceFor f g n ?x = (okk, n1)" by (metis n1_def prod.collapse)
  have enough: "hasEnoughSpaceFor n ?x"
    using can freeSpace_layout(3) [of f n] ok unfolding canExtendPayload_def x hasEnoughSpaceFor_def by (auto simp: node_ok_iff shape_ok_def)
  note R = requestSpaceFor_spec [OF ok enough rq]
  have lay: "layout_ok f n1" using R(2) by (simp add: node_ok_iff shape_ok_def)
  note S = layout_space [OF lay] and i1 = i [folded R(5)]
  note L = len_le_space [OF lay i1]
  have ent: "entry_at n1 i = entry_at n i" using arg_cong [OF R(3), of "\<lambda>es. es ! i"] i R(5) by (simp add: entries_def)
  then have lens: "s_payload_len (n_slot n1 i) = s_payload_len (n_slot n i)"
    using length_getPayload [of n1 i] length_getPayload [of n i] by (simp add: entry_at_def)
  let ?kl = "s_key_len (n_slot n1 i)" and ?b0 = "blank i n1"
  have small: "n_space_used n1 < 32768" "n_data_offset n1 < 32768" using S EPS_less [of "n_space_used n1"] EPS_less [of "n_data_offset n1"] by auto
  have fs: "n_space_used n1 + ?x + slot_end (n_count n1) \<le> EFFECTIVE_PAGE_SIZE"
    using R(6) S(3) m(1) lay chunks_okD(3) [of "chunks n1" n1] by (auto simp: layout_ok_def)
  then have "n_space_used n1 + ?x < 32768" using EPS_less [of "n_space_used n1 + ?x"] by simp
  then have tot: "?kl + m < 32768" "n_space_used n1 - len n1 (Entry_of i) + (?kl + m) < 32768"
    using L lens m(1) by auto
  have bl: "n1\<lparr>n_space_used := to_u16 (int (n_space_used n1) - int (to_u16 (int ?kl + int (s_payload_len (n_slot n1 i))))),
      n_slot := (n_slot n1)(i := (n_slot n1 i)\<lparr>s_payload_len := 0, s_key_len := 0\<rparr>)\<rparr> = ?b0"
    using L small by (simp add: blank_def)
  define b where "b = (if freeSpace ?b0 < ?kl + m then compactify f g ?b0 else ?b0)"
  have fb: "freeSpace ?b0 = n_data_offset n1 - slot_end (n_count n1)"
    using S(3) small(2) by (simp add: freeSpace_def blank_def slot_end_def flip: of_nat_mult of_nat_add)
  have gap: "gap n1 i b" using blank_gap [OF R(2) i1] compact_gap(1) [OF R(2) i1] by (simp add: b_def)
  have fit: "slot_end (n_count n1) + ?kl + m \<le> n_data_offset b"
  proof (cases "freeSpace ?b0 < ?kl + m")
    case True
    then have "n_data_offset b = EFFECTIVE_PAGE_SIZE - (n_space_used n1 - len n1 (Entry_of i))"
      using compact_gap(2) [OF R(2) i1] by (simp add: b_def) (simp add: blank_def)
    then show ?thesis using fs L lens m(1) by auto
  next
    case False
    then show ?thesis using fb S(3) m(1) by (simp add: b_def) (simp add: blank_def)
  qed
  have bc: "n_space_used b = n_space_used n1 - len n1 (Entry_of i)" "n_data_offset b + n_space_used b \<le> EFFECTIVE_PAGE_SIZE"
    using gap chunks_okD(3) [of "used_upto (n_count n1) b - {Entry_of i}" b] by (simp_all add: gap_def base_ok_def)
  have off: "to_u16 (int (n_data_offset b) - int (?kl + m)) = n_data_offset b - (?kl + m)"
    "to_u16 (int (n_space_used b) + int (?kl + m)) = n_space_used b + (?kl + m)" "to_u15 (int m) = m"
    using fit tot bc EPS_less [OF bc(2)] m(2) by auto
  have tl: "to_u16 (int ?kl + int m) = ?kl + m" using tot(1) by simp
  let ?p = "rd (n_mem b) (n_data_offset b - (?kl + m) + ?kl) m"
  have "extendPayload f g i m n =
    b\<lparr>n_space_used := n_space_used b + (?kl + m), n_data_offset := n_data_offset b - (?kl + m),
      n_slot := (n_slot b)(i := (n_slot b i)\<lparr>s_offset := n_data_offset b - (?kl + m), s_key_len := ?kl, s_payload_len := m\<rparr>),
      n_mem := wr (n_mem b) (n_data_offset b - (?kl + m)) (getKey n1 i)\<rparr>"
    using tl off by (simp only: extendPayload_def Let_def x [unfolded getPayloadLength_def] n1_def [symmetric] getKeyLen_def
        getPayloadLength_def bl b_def [symmetric])
  also have "\<dots> = push_entry i ((n_slot b i)\<lparr>s_key_len := ?kl, s_payload_len := m\<rparr>) (getKey n1 i @ ?p) b"
    using wr_prefix [of "n_mem b" "n_data_offset b - (?kl + m)" "getKey n1 i" m] unfolding push_entry_def
    by (intro BTreeNode.equality) (auto simp: fun_eq_iff intro!: Slot.equality)
  finally show thesis using that [OF R(2,3,4,5) gap _ fit, of ?p] by simp
qed

lemma extendPayload_ok:
  fixes g :: BTreeNode
  assumes ok: "node_ok f n" and i: "i < n_count n" and m: "s_payload_len (n_slot n i) < m" "m < 32768" and can: "canExtendPayload n i m"
  defines "n' \<equiv> extendPayload f g i m n"
  shows "node_ok f n'" "\<exists>p. length p = m \<and> entries n' = (entries n)[i := (copyFullKey n i, p, isFrozen n i)]" "same_node n n'"
    "n_count n' = n_count n" "s_payload_len (n_slot n' i) = m"
proof -
  obtain n1 b p where n1: "node_ok f n1" "entries n1 = entries n" "same_node n n1" "n_count n1 = n_count n" "gap n1 i b" "length p = m"
    "slot_end (n_count n1) + s_key_len (n_slot n1 i) + m \<le> n_data_offset b"
    "n' = push_entry i ((n_slot b i)\<lparr>s_key_len := s_key_len (n_slot n1 i), s_payload_len := m\<rparr>) (getKey n1 i @ p) b"
    unfolding n'_def by (rule extendPayload_push [OF ok i m can])
  have fit: "slot_end (n_count n1) + s_key_len (n_slot n1 i) + length p \<le> n_data_offset b" using n1(6,7) by simp
  note F = gap_fill [OF n1(1) i [folded n1(4)] n1(5) fit, unfolded n1(6), folded n1(8)]
  have "entry_at n1 i = entry_at n i" using arg_cong [OF n1(2), of "\<lambda>es. es ! i"] i n1(4) by (simp add: entries_def)
  then show "\<exists>p. length p = m \<and> entries n' = (entries n)[i := (copyFullKey n i, p, isFrozen n i)]"
    using F(2) n1(2,6) by (auto simp: entry_at_def)
  show "node_ok f n'" "same_node n n'" "n_count n' = n_count n" "s_payload_len (n_slot n' i) = m"
    using F(1,4) same_node_trans [OF n1(3) F(3)] n1(4,8) by simp_all
qed

section \<open>Storing pending LSNs\<close>

text \<open>The words behind the swip of a child.\<close>

definition stored_lsn :: "BTreeNode \<Rightarrow> child_ref \<Rightarrow> nat \<Rightarrow> LID" where
  "stored_lsn n r j = (case r of Upper_ref \<Rightarrow> n_upper_pending_lsn n j | Slot_ref i \<Rightarrow> child_lsns n i j)"

text \<open>Whether the page has room for a payload of \<open>m\<close> bytes in the slot of \<open>r\<close>.\<close>

definition lsn_room :: "BTreeNode \<Rightarrow> child_ref \<Rightarrow> nat \<Rightarrow> bool" where
  "lsn_room n r m = (case r of Upper_ref \<Rightarrow> True
     | Slot_ref i \<Rightarrow> n_space_used n + slot_end (n_count n) + (m - s_payload_len (n_slot n i)) \<le> EFFECTIVE_PAGE_SIZE)"

lemma nth_lsns:
  fixes S :: "LID list"
  assumes "j < length S"
  shows "take 8 (drop (8 * j) (concat (map (le_bytes 8) S) @ rest)) = le_bytes 8 (S ! j)"
  using assms
proof (induction S arbitrary: j)
  case (Cons a S)
  then show ?case by (cases j) (simp_all add: drop_append)
qed simp

lemma length_lsns [simp]: "length (concat (map (le_bytes 8) (S :: LID list))) = 8 * length S"
  by (induction S) simp_all

lemma drop_rd: "drop k (rd m x l) = rd m (x + k) (l - k)"
  by (rule nth_equalityI) (simp_all add: nth_rd add.assoc)

lemma child_lsns_payload:
  assumes "8 + 8 * j + 8 \<le> s_payload_len (n_slot n i)"
  shows "child_lsns n i j = le_word (take 8 (drop (8 + 8 * j) (getPayload n i)))"
  using assms by (simp add: child_lsns_def getPayload_def page_consts take_rd drop_rd add.assoc)

text \<open>What storing does to the entry of a slot whose payload is long enough.\<close>

lemma store_in_slot:
  fixes w :: u64 and S :: "LID list"
  assumes ok: "node_ok f n" and i: "i < n_count n" and fit: "8 + 8 * length S \<le> s_payload_len (n_slot n i)"
  defines "n' \<equiv> write_payload i 0 (le_bytes 8 w) (write_payload i 8 (concat (map (le_bytes 8) S)) n)"
  shows "node_ok f n'" "same_node n n'" "n_count n' = n_count n"
    "\<exists>rest. entries n' = (entries n)[i := (copyFullKey n i, le_bytes 8 w @ concat (map (le_bytes 8) S) @ rest, isFrozen n i)]"
    "j < length S \<Longrightarrow> child_lsns n' i j = S ! j"
proof -
  let ?bs = "concat (map (le_bytes 8) S)"
  define n1 where "n1 = write_payload i 8 ?bs n"
  have n': "n' = write_payload i 0 (le_bytes 8 w) n1" by (simp add: n'_def n1_def)
  have c: "n_count n1 = n_count n" "n_slot n1 = n_slot n" "n_slot n' = n_slot n" by (simp_all add: n' n1_def write_payload_def)
  note A = write_payload_ok [OF ok i, of 8 ?bs, folded n1_def]
  have f1: "8 + length ?bs \<le> s_payload_len (n_slot n i)" using fit by simp
  note A = A [OF f1]
  have i1: "i < n_count n1" using i c by simp
  have f2: "0 + length (le_bytes 8 w) \<le> s_payload_len (n_slot n1 i)" using fit c by simp
  note B = write_payload_ok [OF A(1) i1 f2, folded n']
  show "node_ok f n'" "same_node n n'" using B(1) same_node_trans [OF A(3) B(3)] .
  show c': "n_count n' = n_count n" by (simp add: n' n1_def write_payload_def)
  let ?rest = "drop (8 + length ?bs) (getPayload n i)"
  have e1: "entry_at n1 i = (copyFullKey n i, splice 8 ?bs (getPayload n i), isFrozen n i)"
    using arg_cong [OF A(2), of "\<lambda>es. es ! i"] i c by (simp add: entries_def)
  have lp: "8 \<le> length (getPayload n i)" using fit by simp
  have p: "splice 0 (le_bytes 8 w) (getPayload n1 i) = le_bytes 8 w @ ?bs @ ?rest"
    using e1 lp by (simp add: entry_at_def splice_def)
  have ent: "entries n' = (entries n)[i := (copyFullKey n i, le_bytes 8 w @ ?bs @ ?rest, isFrozen n i)]"
    using B(2) A(2) e1 p by (simp add: entry_at_def)
  then show "\<exists>rest. entries n' = (entries n)[i := (copyFullKey n i, le_bytes 8 w @ ?bs @ rest, isFrozen n i)]" by blast
  have "getPayload n' i = le_bytes 8 w @ ?bs @ ?rest"
    using arg_cong [OF ent, of "\<lambda>es. es ! i"] i c' by (simp add: entries_def entry_at_def)
  then show "child_lsns n' i j = S ! j" if "j < length S"
    using that fit nth_lsns [OF that, of ?rest] child_lsns_payload [of j n' i] c(3)
    by (simp add: le_word_le_bytes)
qed


section \<open>The theorem\<close>

lemma isInner_same_node: "same_node n n' \<Longrightarrow> isInner n' = isInner n"
  by (simp add: same_node_def isInner_def)

lemma store_slot_children:
  assumes ok: "node_ok f n'" "same_node n n'" "n_count n' = n_count n" and inner: "inner_ok n" and i: "i < n_count n"
    and ent: "entries n' = (entries n)[i := (copyFullKey n i, le_bytes 8 w @ bs, fz)]"
  shows "inner_ok n'" "full_keys n' = full_keys n" "children n' = (children n)[i := w]"
    "\<And>j. j < n_count n \<Longrightarrow> j \<noteq> i \<Longrightarrow> entries n' ! j = entries n ! j"
proof -
  show "inner_ok n'" unfolding inner_ok_def ent
    using inner by (auto simp: inner_ok_def sizeof_SwipType_def dest!: set_update_subset_insert [THEN subsetD])
  have "fst (entries n ! i) = copyFullKey n i" using i by (simp add: entries_def entry_at_def)
  then show "full_keys n' = full_keys n" using i by (simp add: full_keys_entries ent map_update list_update_same_conv)
  have "swip_of (copyFullKey n i, le_bytes 8 w @ bs, fz) = w" by (simp add: swip_of_def le_word_le_bytes)
  then show "children n' = (children n)[i := w]"
    using i ok(2) by (simp add: children_def ent map_update list_update_append same_node_def)
  show "entries n' ! j = entries n ! j" if "j < n_count n" "j \<noteq> i" for j using that by (simp add: ent)
qed

text \<open>Both outcomes for a slot: without room nothing changes.\<close>

lemma store_slot:
  fixes g :: BTreeNode and S :: "LID list"
  assumes ok: "node_ok f n" and inn: "isInner n" "inner_ok n" and i: "i < n_count n" and S: "0 < length S" "length S \<le> 7"
    and w: "evictAndMarkDirty pid ru_epoch (of_nat (length S)) = Some w"
  defines "m \<equiv> 8 + 8 * length S"
  shows "\<not> lsn_room n (Slot_ref i) m \<Longrightarrow> evictAndStorePendingLSNs f g (Slot_ref i) pid ru_epoch S n = Some (False, n)"
    and "lsn_room n (Slot_ref i) m \<Longrightarrow> \<exists>n' bs. evictAndStorePendingLSNs f g (Slot_ref i) pid ru_epoch S n = Some (True, n') \<and>
      node_ok f n' \<and> same_node n n' \<and> n_count n' = n_count n \<and>
      entries n' = (entries n)[i := (copyFullKey n i, le_bytes 8 w @ bs, isFrozen n i)] \<and> (\<forall>j<length S. child_lsns n' i j = S ! j)"
proof -
  have lay: "layout_ok f n" using ok by (simp add: node_ok_iff shape_ok_def)
  note sp = layout_space [OF lay] and F = freeSpace_layout(2) [OF lay]
  have can: "canExtendPayload n i m \<longleftrightarrow> lsn_room n (Slot_ref i) m" if "s_payload_len (n_slot n i) < m"
  proof -
    have "to_u16 (int m - int (getPayloadLength n i)) = m - s_payload_len (n_slot n i)"
      using that S(2) by (simp add: getPayloadLength_def m_def)
    then show ?thesis using F sp that by (auto simp: canExtendPayload_def lsn_room_def)
  qed
  have fits: "lsn_room n (Slot_ref i) m" if "\<not> s_payload_len (n_slot n i) < m" using that sp by (simp add: lsn_room_def)
  have m: "to_u16 (8 + int (to_u16 (int (length S) * int sizeof_LID))) = m"
    using S(2) by (simp add: m_def page_consts)
  define n1 where "n1 = (if s_payload_len (n_slot n i) < m then extendPayload f g i m n else n)"
  let ?n' = "write_payload i 0 (le_bytes 8 w) (write_payload i 8 (concat (map (le_bytes 8) S)) n1)"
  have run: "evictAndStorePendingLSNs f g (Slot_ref i) pid ru_epoch S n =
      (if s_payload_len (n_slot n i) < m \<and> \<not> canExtendPayload n i m then Some (False, n) else Some (True, ?n'))"
    using inn(1) S i w by (simp add: evictAndStorePendingLSNs_def m getPayloadLength_def n1_def write_payload_def Let_def max_pending_lsn_def
        sizeof_SwipType_def payload_at_def)
  then show "evictAndStorePendingLSNs f g (Slot_ref i) pid ru_epoch S n = Some (False, n)" if "\<not> lsn_room n (Slot_ref i) m"
    using that can fits by auto
  assume room: "lsn_room n (Slot_ref i) m"
  have "node_ok f n1 \<and> same_node n n1 \<and> n_count n1 = n_count n \<and> m \<le> s_payload_len (n_slot n1 i) \<and>
    (\<exists>p. entries n1 = (entries n)[i := (copyFullKey n i, p, isFrozen n i)])"
  proof (cases "s_payload_len (n_slot n i) < m")
    case True
    then have c: "canExtendPayload n i m" "m < 32768" using can room S(2) by (simp_all add: m_def)
    show ?thesis using extendPayload_ok [OF ok i True c(2,1), of g] True by (auto simp: n1_def)
  next
    case False
    have "entries n ! i = (copyFullKey n i, getPayload n i, isFrozen n i)" using i by (simp add: entries_def entry_at_def)
    then have "entries n = (entries n)[i := (copyFullKey n i, getPayload n i, isFrozen n i)]" by (metis list_update_id)
    then show ?thesis using False ok by (auto simp: n1_def)
  qed
  then obtain p where n1: "node_ok f n1" "same_node n n1" "n_count n1 = n_count n" "m \<le> s_payload_len (n_slot n1 i)"
    "entries n1 = (entries n)[i := (copyFullKey n i, p, isFrozen n i)]" by blast
  have i1: "i < n_count n1" using i n1(3) by simp
  note R = store_in_slot [OF n1(1) i1, where S = S and w = w]
  note R = R(1-4) [OF n1(4) [unfolded m_def]] and L = R(5) [OF n1(4) [unfolded m_def]]
  have "entry_at n1 i = (copyFullKey n i, p, isFrozen n i)"
    using arg_cong [OF n1(5), of "\<lambda>es. es ! i"] i i1 by (simp add: entries_def)
  then have e: "copyFullKey n1 i = copyFullKey n i" "isFrozen n1 i = isFrozen n i" by (simp_all add: entry_at_def)
  obtain rest where "entries ?n' = (entries n)[i := (copyFullKey n i, le_bytes 8 w @ concat (map (le_bytes 8) S) @ rest, isFrozen n i)]"
    using R(4) n1(5) e by auto
  moreover have "evictAndStorePendingLSNs f g (Slot_ref i) pid ru_epoch S n = Some (True, ?n')" using run can room by auto
  ultimately show "\<exists>n' bs. evictAndStorePendingLSNs f g (Slot_ref i) pid ru_epoch S n = Some (True, n') \<and>
      node_ok f n' \<and> same_node n n' \<and> n_count n' = n_count n \<and>
      entries n' = (entries n)[i := (copyFullKey n i, le_bytes 8 w @ bs, isFrozen n i)] \<and> (\<forall>j<length S. child_lsns n' i j = S ! j)"
    using R(1,3) L same_node_trans [OF n1(2) R(2)] n1(3) by auto
qed


lemma store_upper:
  fixes g :: BTreeNode and S :: "LID list"
  assumes ok: "node_ok f n" and inn: "isInner n" "inner_ok n" and S: "0 < length S" "length S \<le> 7"
    and w: "evictAndMarkDirty pid ru_epoch (of_nat (length S)) = Some w"
  shows "\<exists>n'. evictAndStorePendingLSNs f g Upper_ref pid ru_epoch S n = Some (True, n') \<and> node_ok f n' \<and> inner_ok n' \<and> isInner n' \<and>
    entries n' = entries n \<and> full_keys n' = full_keys n \<and> children n' = (children n)[n_count n := w] \<and>
    getLowerFenceKey n' = getLowerFenceKey n \<and> getUpperFenceKey n' = getUpperFenceKey n \<and>
    (\<forall>j<length S. n_upper_pending_lsn n' j = S ! j)"
proof -
  let ?n = "n\<lparr>n_upper_pending_lsn := (\<lambda>j. if j < length S then S ! j else n_upper_pending_lsn n j), n_upper := w\<rparr>"
  have ss: "same_store n ?n" by (simp add: same_store_def)
  have "hints_ok ?n = hints_ok n" by (simp add: hints_ok_def hint_dist_def)
  then have "node_ok f ?n \<and> inner_ok ?n \<and> isInner ?n \<and> entries ?n = entries n \<and> full_keys ?n = full_keys n \<and>
      children ?n = (children n)[n_count n := w] \<and> getLowerFenceKey ?n = getLowerFenceKey n \<and> getUpperFenceKey ?n = getUpperFenceKey n"
    using ok inn shape_ok_same_store [OF ss] same_store_reads [OF ss]
    by (simp add: node_ok_iff inner_ok_def isInner_def children_def list_update_append)
  moreover have "evictAndStorePendingLSNs f g Upper_ref pid ru_epoch S n = Some (True, ?n)"
    using inn(1) S w by (simp add: evictAndStorePendingLSNs_def max_pending_lsn_def)
  ultimately show ?thesis by auto
qed

lemma evictAndMarkDirty_returns:
  assumes "fits 26 ru_epoch" "c \<le> 7"
  obtains w where "evictAndMarkDirty pid ru_epoch (of_nat c) = Some w"
proof -
  have "(0x1FFFFFFF :: u32) = mask 29" by (simp add: mask_eq_exp_minus_1)
  then have b: "bit (0x1FFFFFFF :: u32) k \<longleftrightarrow> k < 29" for k by (simp only: bit_mask_iff) auto
  have "ru_epoch AND scast (NOT m) = 0" if "\<And>k. bit m k \<longleftrightarrow> k < 29" for m :: u32
    by (rule bit_word_eqI) (use fits_bitD [OF assms(1)] that in \<open>force simp: bit_simps\<close>)
  from this [OF b] have "ru_epoch AND scast (NOT (0x1FFFFFFF :: u32)) = 0" .
  moreover have "(of_nat c :: u8) \<le> 7" using assms(2) by (simp add: word_le_nat_alt unat_of_nat)
  ultimately show thesis using that assms(1) by (simp add: evictAndMarkDirty_def ru_epoch_check)
qed

text \<open>
  C14: Discarding a page with pending log records.  For an inner node \<^verbatim>\<open>evictAndStorePendingLSNs\<close>
  passes its checks and answers whether the page, compacted if need be, has room for the LSNs
  behind the swip of the child.  Without room the node is untouched.  Otherwise the child's swip
  is evicted and dirty and names the page and its epoch, the words behind it, as many as the swip
  says, are exactly the LSNs given, and the node stays well formed with the same keys, fences,
  other children, their stored LSNs and entries, whatever memory the compaction finds.
\<close>
theorem store_pending_correct:
  fixes g :: BTreeNode
  assumes "node_ok f n" "isInner n" "inner_ok n" "ref_ok n r" "fits 32 pid" "fits 26 ru_epoch" "0 < length S" "length S \<le> max_pending_lsn"
  shows "\<exists>stored n'. evictAndStorePendingLSNs f g r pid ru_epoch S n = Some (stored, n') \<and>
    (stored \<longleftrightarrow> lsn_room n r (sizeof_SwipType + sizeof_LID * length S)) \<and> (\<not> stored \<longrightarrow> n' = n) \<and>
    (stored \<longrightarrow> node_ok f n' \<and> isInner n' \<and> inner_ok n' \<and> full_keys n' = full_keys n \<and>
      getLowerFenceKey n' = getLowerFenceKey n \<and> getUpperFenceKey n' = getUpperFenceKey n \<and>
      (\<exists>w. children n' = (children n)[ref_index n r := w] \<and> isEVICTED w \<and> isDIRTY w \<and> asPageID w = pid \<and>
        ucast (swip_ru_epoch w) = ru_epoch \<and> map (stored_lsn n' r) [0..<unat (pendingLSNCount w)] = S) \<and>
      (\<forall>j<n_count n. r \<noteq> Slot_ref j \<longrightarrow> entries n' ! j = entries n ! j) \<and>
      (r \<noteq> Upper_ref \<longrightarrow> (\<forall>j<unat (pendingLSNCount (n_upper n)). n_upper_pending_lsn n' j = n_upper_pending_lsn n j)))"
proof -
  have S: "length S \<le> 7" using assms(8) by (simp add: max_pending_lsn_def)
  obtain w where w: "evictAndMarkDirty pid ru_epoch (of_nat (length S)) = Some w" by (rule evictAndMarkDirty_returns [OF assms(6) S])
  have m: "sizeof_SwipType + sizeof_LID * length S = 8 + 8 * length S" by (simp add: page_consts)
  have "unat (pendingLSNCount w) = length S"
    using evictAndMarkDirty_roundtrip [OF w assms(5)] S by (simp add: unat_of_nat)
  then have lsns: "map h [0..<unat (pendingLSNCount w)] = S" if "\<And>j. j < length S \<Longrightarrow> h j = S ! j" for h
    using that by (intro nth_equalityI) simp_all
  note W = evictAndMarkDirty_roundtrip [OF w assms(5)]
  show ?thesis
  proof (cases r)
    case Upper_ref
    obtain n' where n': "evictAndStorePendingLSNs f g Upper_ref pid ru_epoch S n = Some (True, n')" "node_ok f n'" "inner_ok n'" "isInner n'"
      "entries n' = entries n" "full_keys n' = full_keys n" "children n' = (children n)[n_count n := w]"
      "getLowerFenceKey n' = getLowerFenceKey n" "getUpperFenceKey n' = getUpperFenceKey n" "\<forall>j<length S. n_upper_pending_lsn n' j = S ! j"
      using store_upper [OF assms(1-3,7) S w] by blast
    have "map (stored_lsn n' r) [0..<unat (pendingLSNCount w)] = S" by (rule lsns) (simp add: stored_lsn_def Upper_ref n'(10))
    then show ?thesis using n' W Upper_ref by (intro exI [of _ True] exI [of _ n']) (auto simp: lsn_room_def ref_index_def)
  next
    case (Slot_ref i)
    then have i: "i < n_count n" using assms(4) by (simp add: ref_ok_def)
    note R = store_slot [OF assms(1-3) i assms(7) S w, of g]
    show ?thesis
    proof (cases "lsn_room n (Slot_ref i) (8 + 8 * length S)")
      case False
      then show ?thesis using R(1) by (intro exI [of _ False] exI [of _ n]) (simp add: Slot_ref m)
    next
      case True
      obtain n' bs where n': "evictAndStorePendingLSNs f g (Slot_ref i) pid ru_epoch S n = Some (True, n')" "node_ok f n'" "same_node n n'"
        "n_count n' = n_count n" "entries n' = (entries n)[i := (copyFullKey n i, le_bytes 8 w @ bs, isFrozen n i)]"
        "\<forall>j<length S. child_lsns n' i j = S ! j" using R(2) [OF True] by blast
      note C = store_slot_children [OF n'(2,3,4) assms(3) i n'(5)]
      have "map (stored_lsn n' r) [0..<unat (pendingLSNCount w)] = S" by (rule lsns) (simp add: stored_lsn_def Slot_ref n'(6))
      then show ?thesis using n'(1-3) C W True isInner_same_node [OF n'(3)] assms(2) unfolding Slot_ref m
        by (intro exI [of _ True] exI [of _ n']) (auto simp: ref_index_def same_node_def)
    qed
  qed
qed

theorem store_pending_correct_witness:
  "\<exists>n n' w. entries n = two_entries \<and>
     evictAndStorePendingLSNs default_flags zero_page (Slot_ref 0) 3 4 [50, 60] n = Some (True, n') \<and>
     node_ok default_flags n' \<and> children n' = (children n)[0 := w] \<and> asPageID w = 3 \<and>
     map (stored_lsn n' (Slot_ref 0)) [0..<unat (pendingLSNCount w)] = [50, 60]"
proof -
  let ?f = default_flags
  obtain n where n: "node_ok ?f n" "n_is_leaf n = False" "getLowerFenceKey n = None" "getUpperFenceKey n = None" "entries n = two_entries"
    using two_entries_node .
  note T = two_entries_keys [OF n(5)]
  have lay: "layout_ok ?f n" using n(1) by (simp add: node_ok_iff shape_ok_def)
  have "n_space_used n = fences_len None None + entries_len (n_prefix_length n) two_entries" using layout_space(1) [OF lay] n(3-5) by simp
  then have "n_space_used n \<le> 18" by (simp add: fences_len_def fence_bytes_def entries_len_def entry_len_def two_entries_def)
  then have room: "lsn_room n (Slot_ref 0) (sizeof_SwipType + sizeof_LID * length [50, 60 :: LID])"
    using T(1) by (simp add: lsn_room_def slot_end_def page_consts)
  have small: "fits 32 (3 :: u64)" "fits 26 (4 :: u64)" by (simp_all add: fits_iff_unat_less)
  have hyp: "isInner n" "ref_ok n (Slot_ref 0)" "0 < length [50, 60 :: LID]" "length [50, 60 :: LID] \<le> max_pending_lsn"
    using n(2) T(1) by (simp_all add: isInner_def ref_ok_def max_pending_lsn_def)
  from store_pending_correct [OF n(1) hyp(1) T(4) hyp(2) small hyp(3,4), of zero_page] room
  obtain n' w where "evictAndStorePendingLSNs ?f zero_page (Slot_ref 0) 3 4 [50, 60] n = Some (True, n')" "node_ok ?f n'"
    "children n' = (children n)[ref_index n (Slot_ref 0) := w]" "asPageID w = 3"
    "map (stored_lsn n' (Slot_ref 0)) [0..<unat (pendingLSNCount w)] = [50, 60]" by metis
  with n(5) show ?thesis unfolding ref_index_def child_ref.case
    by (intro exI [of _ n] exI [of _ n'] exI [of _ w] conjI)
qed

end
