(* ===== verification/Compressed_Space.thy ===== *)
theory Compressed_Space
  imports Units Misc Transition_System "HOL-Library.Multiset"
begin

text \<open>
  The space of compressed pages, \<^verbatim>\<open>buffer-manager/CompressedSpace.hpp\<close> and the
  class \<^verbatim>\<open>CompressedSpace\<close> of \<^verbatim>\<open>CompressedSpace.cpp\<close>: the layout of a
  location (cpid), the life cycle of the 4 KiB blocks, their free lists and live bytes, and the
  space map that a clean shutdown persists and the next start reads back.

  A block is its index.  Every operation takes the lists' mutexes or works on a block only its
  caller owns, so an operation is one step of the model.  A failed \<^verbatim>\<open>ensure\<close> is the
  error \<open>EnsureFailed\<close>, \<^verbatim>\<open>BufferManager::outOfSpace\<close> is \<open>OutOfSpace\<close> and
  \<^verbatim>\<open>SetupFailed\<close> is \<open>SetupFailed\<close>; each of them ends the process.
\<close>

definition PAGE_SIZE :: nat where "PAGE_SIZE = 4096"

section \<open>Locations\<close>

named_theorems cpid_defs "definitions of the layout of a location"

definition ADDRESS_BITS :: nat where [cpid_defs]: "ADDRESS_BITS = 48"
definition ADDRESS_MASK :: u64 where [cpid_defs]: "ADDRESS_MASK = push_bit ADDRESS_BITS 1 - 1"
definition LENGTH_MASK :: u64 where [cpid_defs]: "LENGTH_MASK = 0x1FFF"

definition cpid_make :: "u64 \<Rightarrow> u32 \<Rightarrow> PID" where
  "cpid_make addr len = push_bit ADDRESS_BITS (ucast len) OR addr"

definition cpid_address :: "PID \<Rightarrow> u64" where
  "cpid_address pid = pid AND ADDRESS_MASK"

definition cpid_length :: "PID \<Rightarrow> u32" where
  "cpid_length pid = ucast (drop_bit ADDRESS_BITS pid AND LENGTH_MASK)"

definition onSSD :: "PID \<Rightarrow> bool" where
  "onSSD pid \<longleftrightarrow> cpid_length pid \<noteq> 0"

definition cpid_block :: "PID \<Rightarrow> nat" where
  "cpid_block pid = unat (cpid_address pid div of_nat PAGE_SIZE)"

definition offsetInBlock :: "PID \<Rightarrow> nat" where
  "offsetInBlock pid = unat (cpid_address pid mod of_nat PAGE_SIZE)"

section \<open>State\<close>

datatype BlockState = FREE | OPEN | SEALED

datatype cs_error = EnsureFailed | OutOfSpace | SetupFailed

record CompressedSpace =
  blocks_count :: nat
  logical_pages :: nat
  writers_count :: nat
  page_map :: "PID list"
  live_bytes :: "int list"
  block_states :: "BlockState list"
  block_ru_epochs :: "ru_epoch_t list"
  next_unused_block :: nat
  free_blocks :: int
  writer_free_lists :: "nat list list"
  shared_free_list :: "nat list"
  written_pages :: nat
  written_compressed_bytes :: nat
  written_blocks :: nat

definition cs_new :: "nat \<Rightarrow> nat \<Rightarrow> nat \<Rightarrow> CompressedSpace" where
  "cs_new n_blocks n_pages n_writers =
     \<lparr>blocks_count = n_blocks, logical_pages = n_pages, writers_count = n_writers,
      page_map = replicate n_pages 0, live_bytes = replicate n_blocks 0,
      block_states = replicate n_blocks FREE, block_ru_epochs = replicate n_blocks UNMAPPED_RU_EPOCH,
      next_unused_block = 0, free_blocks = 0, writer_free_lists = replicate n_writers [],
      shared_free_list = [], written_pages = 0, written_compressed_bytes = 0, written_blocks = 0\<rparr>"

section \<open>Operations\<close>

definition location :: "nat \<Rightarrow> CompressedSpace \<Rightarrow> cs_error + PID" where
  "location pid s = (if pid < logical_pages s then Inr (page_map s ! pid) else Inl EnsureFailed)"

definition exchangeLocation ::
  "nat \<Rightarrow> PID \<Rightarrow> CompressedSpace \<Rightarrow> cs_error + PID \<times> CompressedSpace" where
  "exchangeLocation pid loc s =
     (if pid < logical_pages s
      then Inr (page_map s ! pid, s\<lparr>page_map := (page_map s)[pid := loc]\<rparr>)
      else Inl EnsureFailed)"

definition exchangeBlockRUEpoch ::
  "nat \<Rightarrow> ru_epoch_t \<Rightarrow> CompressedSpace \<Rightarrow> ru_epoch_t \<times> CompressedSpace" where
  "exchangeBlockRUEpoch block ru_epoch s =
     (block_ru_epochs s ! block, s\<lparr>block_ru_epochs := (block_ru_epochs s)[block := ru_epoch]\<rparr>)"

definition isFreeBlock :: "nat \<Rightarrow> CompressedSpace \<Rightarrow> bool" where
  "isFreeBlock block s \<longleftrightarrow> block_states s ! block = FREE"

definition isRawBlock :: "nat \<Rightarrow> CompressedSpace \<Rightarrow> bool" where
  "isRawBlock block s \<longleftrightarrow> block_states s ! block = SEALED \<and> live_bytes s ! block = int PAGE_SIZE"

definition rawBlockLocation :: "nat \<Rightarrow> PID" where
  "rawBlockLocation block = cpid_make (of_nat (block * PAGE_SIZE)) (of_nat PAGE_SIZE)"

definition transition ::
  "nat \<Rightarrow> BlockState \<Rightarrow> BlockState \<Rightarrow> CompressedSpace \<Rightarrow> cs_error + CompressedSpace" where
  "transition block from to s =
     (if block_states s ! block = from
      then Inr (s\<lparr>block_states := (block_states s)[block := to]\<rparr>)
      else Inl EnsureFailed)"

definition open_block :: "nat \<Rightarrow> CompressedSpace \<Rightarrow> cs_error + nat \<times> CompressedSpace" where
  "open_block block s =
     (if live_bytes s ! block \<noteq> 0 then Inl EnsureFailed
      else case transition block FREE OPEN s of
             Inl e \<Rightarrow> Inl e
           | Inr s' \<Rightarrow> Inr (block, s'))"

text \<open>\<open>tid\<close> is the thread's \<^verbatim>\<open>tls_writer_thread_id\<close>, negative outside the writers.\<close>

definition is_writer :: "int \<Rightarrow> CompressedSpace \<Rightarrow> bool" where
  "is_writer tid s \<longleftrightarrow> 0 \<le> tid \<and> nat tid < writers_count s"

definition allocateBlock :: "int \<Rightarrow> CompressedSpace \<Rightarrow> cs_error + nat \<times> CompressedSpace" where
  "allocateBlock tid s =
     (if \<not> is_writer tid s then Inl EnsureFailed
      else
        let mine0 = writer_free_lists s ! nat tid;
            shared0 = shared_free_list s;
            n = min (length shared0) 64;
            (mine, shared) =
              (if mine0 = []
               then (mine0 @ drop (length shared0 - n) shared0, take (length shared0 - n) shared0)
               else (mine0, shared0))
        in (case mine of
              block # rest \<Rightarrow>
                open_block block
                  (s\<lparr>writer_free_lists := (writer_free_lists s)[nat tid := rest],
                     shared_free_list := shared, free_blocks := free_blocks s - 1\<rparr>)
            | [] \<Rightarrow>
                (let block = next_unused_block s;
                     s1 = s\<lparr>writer_free_lists := (writer_free_lists s)[nat tid := mine],
                            shared_free_list := shared, next_unused_block := block + 1\<rparr>
                 in if block \<ge> blocks_count s then Inl OutOfSpace else open_block block s1)))"

text \<open>
  The loop of \<^verbatim>\<open>reserveBlocks\<close> runs at most as often as blocks are missing.
\<close>

fun reserve_loop :: "nat \<Rightarrow> nat list \<Rightarrow> CompressedSpace \<Rightarrow> nat list \<times> CompressedSpace" where
  "reserve_loop 0 mine s = (mine, s)"
| "reserve_loop (Suc missing) mine s =
     (let block = next_unused_block s; s1 = s\<lparr>next_unused_block := block + 1\<rparr>
      in if block \<ge> blocks_count s then (mine, s1)
         else reserve_loop missing (block # mine) (s1\<lparr>free_blocks := free_blocks s1 + 1\<rparr>))"

definition reserveBlocks :: "int \<Rightarrow> nat \<Rightarrow> CompressedSpace \<Rightarrow> cs_error + CompressedSpace" where
  "reserveBlocks tid n s =
     (if \<not> is_writer tid s then Inl EnsureFailed
      else
        let mine = writer_free_lists s ! nat tid
        in if length mine \<ge> n then Inr s
           else
             let wanted = n - length mine;
                 shared = shared_free_list s;
                 taken = min (length shared) wanted;
                 mine1 = drop (length shared - taken) shared @ mine;
                 s1 = s\<lparr>shared_free_list := take (length shared - taken) shared\<rparr>;
                 (mine2, s2) = reserve_loop (n - length mine1) mine1 s1
             in Inr (s2\<lparr>writer_free_lists := (writer_free_lists s2)[nat tid := mine2]\<rparr>))"

definition sealBlock :: "nat \<Rightarrow> nat \<Rightarrow> CompressedSpace \<Rightarrow> cs_error + CompressedSpace" where
  "sealBlock block packed_bytes s =
     (if \<not> block < blocks_count s then Inl EnsureFailed
      else if \<not> (packed_bytes > 0 \<and> packed_bytes \<le> PAGE_SIZE) then Inl EnsureFailed
      else if live_bytes s ! block \<noteq> 0 then Inl EnsureFailed
      else case transition block OPEN SEALED s of
             Inl e \<Rightarrow> Inl e
           | Inr s1 \<Rightarrow> Inr (s1\<lparr>live_bytes := (live_bytes s1)[block := int packed_bytes]\<rparr>))"

definition allocateRawBlock :: "CompressedSpace \<Rightarrow> cs_error + nat \<times> CompressedSpace" where
  "allocateRawBlock s =
     (let shared = shared_free_list s;
          opened =
            (if shared \<noteq> []
             then open_block (last shared)
                    (s\<lparr>shared_free_list := butlast shared, free_blocks := free_blocks s - 1\<rparr>)
             else let block = next_unused_block s; s1 = s\<lparr>next_unused_block := block + 1\<rparr>
                  in if block \<ge> blocks_count s then Inl OutOfSpace else open_block block s1)
      in case opened of
           Inl e \<Rightarrow> Inl e
         | Inr (block, s2) \<Rightarrow>
             (case sealBlock block PAGE_SIZE s2 of Inl e \<Rightarrow> Inl e | Inr s3 \<Rightarrow> Inr (block, s3)))"

definition releaseBlock :: "int \<Rightarrow> nat \<Rightarrow> CompressedSpace \<Rightarrow> cs_error + CompressedSpace" where
  "releaseBlock tid block s =
     (case transition block SEALED FREE s of
        Inl e \<Rightarrow> Inl e
      | Inr s1 \<Rightarrow>
          (let s2 = (if tid \<ge> 0
                     then s1\<lparr>writer_free_lists := (writer_free_lists s1)
                               [nat tid := writer_free_lists s1 ! nat tid @ [block]]\<rparr>
                     else s1\<lparr>shared_free_list := shared_free_list s1 @ [block]\<rparr>)
           in Inr (s2\<lparr>free_blocks := free_blocks s2 + 1\<rparr>)))"

definition cs_free :: "int \<Rightarrow> PID \<Rightarrow> CompressedSpace \<Rightarrow> cs_error + CompressedSpace" where
  "cs_free tid pid s =
     (if \<not> onSSD pid then Inr s
      else
        let block = cpid_block pid; len = int (unat (cpid_length pid))
        in if \<not> block < blocks_count s then Inl EnsureFailed
           else if \<not> (int (offsetInBlock pid) + len \<le> int PAGE_SIZE) then Inl EnsureFailed
           else if block_states s ! block \<noteq> SEALED then Inl EnsureFailed
           else
             let left = live_bytes s ! block - len;
                 s1 = s\<lparr>live_bytes := (live_bytes s)[block := left]\<rparr>
             in if left < 0 then Inl EnsureFailed
                else if left = 0 then releaseBlock tid block s1
                else Inr s1)"

definition trimFreeList :: "int \<Rightarrow> nat \<Rightarrow> CompressedSpace \<Rightarrow> cs_error + CompressedSpace" where
  "trimFreeList tid max_blocks s =
     (if \<not> is_writer tid s then Inl EnsureFailed
      else
        let mine = writer_free_lists s ! nat tid
        in if length mine \<le> max_blocks then Inr s
           else Inr (s\<lparr>shared_free_list := shared_free_list s @ drop max_blocks mine,
                       writer_free_lists := (writer_free_lists s)[nat tid := take max_blocks mine]\<rparr>))"

definition usedBlocks :: "CompressedSpace \<Rightarrow> int" where
  "usedBlocks s = int (min (next_unused_block s) (blocks_count s)) - free_blocks s"

section \<open>The space map\<close>

text \<open>The file is the sequence of its 64-bit words.\<close>

definition SPACE_MAP_MAGIC :: u64 where "SPACE_MAP_MAGIC = 0xC0DEC0DE5A5A0004"

definition persist :: "nat \<Rightarrow> CompressedSpace \<Rightarrow> cs_error + u64 list" where
  "persist pids_end s =
     (if \<not> pids_end \<le> logical_pages s then Inl EnsureFailed
      else
        let next = min (next_unused_block s) (blocks_count s)
        in Inr ([SPACE_MAP_MAGIC, of_nat (blocks_count s), of_nat (logical_pages s), of_nat next, of_nat pids_end]
                @ take pids_end (page_map s) @ map word_of_int (take next (block_ru_epochs s))))"

fun recover_pages :: "nat \<Rightarrow> PID list \<Rightarrow> int list \<Rightarrow> cs_error + int list" where
  "recover_pages next [] live = Inr live"
| "recover_pages next (loc # locs) live =
     (if \<not> onSSD loc then recover_pages next locs live
      else
        let block = cpid_block loc
        in if \<not> block < next then Inl EnsureFailed
           else if \<not> offsetInBlock loc + unat (cpid_length loc) \<le> PAGE_SIZE then Inl EnsureFailed
           else
             let l = live ! block + int (unat (cpid_length loc))
             in if \<not> l \<le> int PAGE_SIZE then Inl EnsureFailed
                else recover_pages next locs (live[block := l]))"

fun recover_raw :: "nat \<Rightarrow> nat list \<Rightarrow> int list \<Rightarrow> cs_error + int list" where
  "recover_raw next [] live = Inr live"
| "recover_raw next (block # blocks) live =
     (if \<not> block < next then Inl EnsureFailed
      else if live ! block \<noteq> 0 then Inl EnsureFailed
      else recover_raw next blocks (live[block := int PAGE_SIZE]))"

definition recover :: "u64 list \<Rightarrow> nat list \<Rightarrow> CompressedSpace \<Rightarrow> cs_error + CompressedSpace" where
  "recover file raw_blocks s =
     (if length file < 5 then Inl EnsureFailed
      else if file ! 0 \<noteq> SPACE_MAP_MAGIC then Inl SetupFailed
      else if unat (file ! 1) \<noteq> blocks_count s \<or> unat (file ! 2) \<noteq> logical_pages s then Inl SetupFailed
      else
        let next = unat (file ! 3); pids_end = unat (file ! 4); body = drop 5 file
        in if \<not> (next \<le> blocks_count s \<and> pids_end \<le> logical_pages s) then Inl EnsureFailed
           else if length body < pids_end + next then Inl EnsureFailed
           else
             let map' = take pids_end body @ drop pids_end (page_map s);
                 epochs' = map sint (take next (drop pids_end body)) @ drop next (block_ru_epochs s)
             in case recover_pages next (take pids_end map') (live_bytes s) of
                  Inl e \<Rightarrow> Inl e
                | Inr live1 \<Rightarrow>
                    (case recover_raw next raw_blocks live1 of
                       Inl e \<Rightarrow> Inl e
                     | Inr live2 \<Rightarrow>
                         (let frees = filter (\<lambda>b. live2 ! b = 0) [0..<next];
                              shared = shared_free_list s @ frees
                          in Inr (s\<lparr>page_map := map', block_ru_epochs := epochs', live_bytes := live2,
                                    block_states := map (\<lambda>b. if live2 ! b = 0 then FREE else SEALED) [0..<next]
                                                    @ drop next (block_states s),
                                    shared_free_list := shared, free_blocks := int (length shared),
                                    next_unused_block := next\<rparr>))))"

section \<open>The layout of a location\<close>

lemma bit_ADDRESS_MASK [bit_simps]: "bit ADDRESS_MASK n \<longleftrightarrow> n < 48"
  unfolding cpid_defs bit_exp_minus_1 by auto

lemma bit_LENGTH_MASK [bit_simps]: "bit LENGTH_MASK n \<longleftrightarrow> n < 13"
proof -
  have "LENGTH_MASK = mask 13" by (simp add: cpid_defs mask_eq_exp_minus_1)
  show ?thesis unfolding \<open>LENGTH_MASK = mask 13\<close> bit_mask_iff by auto
qed

lemma cpid_address_make:
  assumes "fits 48 a" shows "cpid_address (cpid_make a len) = a"
  unfolding word_eq_iff_bit
  by (auto simp: cpid_address_def cpid_make_def ADDRESS_BITS_def bit_simps dest: fits_bitD [OF assms])

lemma cpid_length_make:
  assumes "fits 48 a" "fits 13 len" shows "cpid_length (cpid_make a len) = len"
  unfolding word_eq_iff_bit
  by (auto simp: cpid_length_def cpid_make_def ADDRESS_BITS_def bit_simps dest: fits_bitD [OF assms(1)] fits_bitD [OF assms(2)])

lemma cpid_length_le: "unat (cpid_length pid) < 2 ^ 13"
proof -
  have "fits 13 (cpid_length pid)" by (auto simp: fits_iff_bit cpid_length_def bit_simps)
  then show ?thesis by (simp only: fits_iff_unat_less)
qed

lemma cpid_parts:
  assumes "addr < 2 ^ 48" "len < 2 ^ 13"
  shows "cpid_block (cpid_make (of_nat addr) (of_nat len)) = addr div PAGE_SIZE"
    "offsetInBlock (cpid_make (of_nat addr) (of_nat len)) = addr mod PAGE_SIZE"
    "unat (cpid_length (cpid_make (of_nat addr) (of_nat len))) = len"
proof -
  have a: "unat (of_nat addr :: u64) = addr" and l: "unat (of_nat len :: u32) = len"
    using assms by (simp_all add: unat_of_nat take_bit_nat_eq_self)
  have fa: "fits 48 (of_nat addr :: u64)" and fl: "fits 13 (of_nat len :: u32)"
    unfolding fits_iff_unat_less a l using assms by simp_all
  show "cpid_block (cpid_make (of_nat addr) (of_nat len)) = addr div PAGE_SIZE"
    "offsetInBlock (cpid_make (of_nat addr) (of_nat len)) = addr mod PAGE_SIZE"
    unfolding cpid_block_def offsetInBlock_def cpid_address_make [OF fa]
    using a by (simp_all add: unat_div unat_mod PAGE_SIZE_def)
  show "unat (cpid_length (cpid_make (of_nat addr) (of_nat len))) = len"
    unfolding cpid_length_make [OF fa fl] by (rule l)
qed

section \<open>The invariant of the space\<close>

text \<open>Updates of different fields commute; they are kept in one order.\<close>

lemma cs_upd_sort [simp]:
  fixes s :: CompressedSpace
  shows
  "s\<lparr>shared_free_list := S, writer_free_lists := W\<rparr> = s\<lparr>writer_free_lists := W, shared_free_list := S\<rparr>"
  "s\<lparr>next_unused_block := n, writer_free_lists := W\<rparr> = s\<lparr>writer_free_lists := W, next_unused_block := n\<rparr>"
  "s\<lparr>next_unused_block := n, shared_free_list := S\<rparr> = s\<lparr>shared_free_list := S, next_unused_block := n\<rparr>"
  "s\<lparr>free_blocks := f, writer_free_lists := W\<rparr> = s\<lparr>writer_free_lists := W, free_blocks := f\<rparr>"
  "s\<lparr>free_blocks := f, shared_free_list := S\<rparr> = s\<lparr>shared_free_list := S, free_blocks := f\<rparr>"
  "s\<lparr>free_blocks := f, next_unused_block := n\<rparr> = s\<lparr>next_unused_block := n, free_blocks := f\<rparr>"
  "s\<lparr>block_states := B, writer_free_lists := W\<rparr> = s\<lparr>writer_free_lists := W, block_states := B\<rparr>"
  "s\<lparr>block_states := B, shared_free_list := S\<rparr> = s\<lparr>shared_free_list := S, block_states := B\<rparr>"
  "s\<lparr>block_states := B, next_unused_block := n\<rparr> = s\<lparr>next_unused_block := n, block_states := B\<rparr>"
  "s\<lparr>block_states := B, free_blocks := f\<rparr> = s\<lparr>free_blocks := f, block_states := B\<rparr>"
  "s\<lparr>live_bytes := L, writer_free_lists := W\<rparr> = s\<lparr>writer_free_lists := W, live_bytes := L\<rparr>"
  "s\<lparr>live_bytes := L, shared_free_list := S\<rparr> = s\<lparr>shared_free_list := S, live_bytes := L\<rparr>"
  "s\<lparr>live_bytes := L, next_unused_block := n\<rparr> = s\<lparr>next_unused_block := n, live_bytes := L\<rparr>"
  "s\<lparr>live_bytes := L, free_blocks := f\<rparr> = s\<lparr>free_blocks := f, live_bytes := L\<rparr>"
  "s\<lparr>live_bytes := L, block_states := B\<rparr> = s\<lparr>block_states := B, live_bytes := L\<rparr>"
  by simp_all

definition lists_of :: "CompressedSpace \<Rightarrow> nat multiset" where
  "lists_of s = mset (concat (writer_free_lists s)) + mset (shared_free_list s)"

definition free_set :: "CompressedSpace \<Rightarrow> nat set" where
  "free_set s = {b. b < min (next_unused_block s) (blocks_count s) \<and> block_states s ! b = FREE}"

definition shape :: "CompressedSpace \<Rightarrow> bool" where
  "shape s \<longleftrightarrow>
     length (page_map s) = logical_pages s \<and> length (live_bytes s) = blocks_count s \<and>
     length (block_states s) = blocks_count s \<and> length (block_ru_epochs s) = blocks_count s \<and>
     length (writer_free_lists s) = writers_count s"

definition block_ok :: "CompressedSpace \<Rightarrow> nat \<Rightarrow> bool" where
  "block_ok s b \<longleftrightarrow>
     (block_states s ! b = SEALED \<longrightarrow> 0 < live_bytes s ! b \<and> live_bytes s ! b \<le> int PAGE_SIZE) \<and>
     (block_states s ! b \<noteq> SEALED \<longrightarrow> live_bytes s ! b = 0) \<and>
     (next_unused_block s \<le> b \<longrightarrow> block_states s ! b = FREE)"

definition cs_inv :: "CompressedSpace \<Rightarrow> bool" where
  "cs_inv s \<longleftrightarrow>
     shape s \<and> (\<forall>b < blocks_count s. block_ok s b) \<and> lists_of s = mset_set (free_set s) \<and>
     free_blocks s = int (card (free_set s))"

lemma finite_free_set [simp]: "finite (free_set s)"
  by (rule finite_subset [of _ "{..<blocks_count s}"]) (auto simp: free_set_def)

lemma cs_new_inv: "cs_inv (cs_new n_blocks n_pages n_writers)"
  by (auto simp: cs_inv_def cs_new_def shape_def block_ok_def lists_of_def free_set_def)

lemma mset_concat_update:
  "i < length xss \<Longrightarrow> mset (concat (xss[i := ys])) + mset (xss ! i) = mset (concat xss) + mset ys"
  by (induction xss arbitrary: i) (auto split: nat.splits)

lemma in_lists_free: "cs_inv s \<Longrightarrow> b \<in># lists_of s \<longleftrightarrow> b \<in> free_set s"
  by (simp add: cs_inv_def)

lemma free_set_less: "b \<in> free_set s \<Longrightarrow> b < blocks_count s \<and> block_states s ! b = FREE"
  by (simp add: free_set_def)

text \<open>
  Taking a block out of the free ones: the fields around the lists change, the block becomes
  \<open>OPEN\<close>, and the invariant holds again.
\<close>

lemma open_block_ok:
  assumes "shape s" "\<forall>b < blocks_count s. block_ok s b" "b < blocks_count s" "block_states s ! b = FREE"
  shows "open_block b s = Inr (b, s\<lparr>block_states := (block_states s)[b := OPEN]\<rparr>)"
proof -
  have "block_ok s b" using assms(2,3) by blast
  with assms(4) show ?thesis by (simp add: block_ok_def open_block_def transition_def)
qed

lemma cs_inv_open:
  assumes "cs_inv s" "b \<in> free_set s" "lists_of s = add_mset b L"
    "s' = s\<lparr>writer_free_lists := W, shared_free_list := S, free_blocks := free_blocks s - 1,
            block_states := (block_states s)[b := OPEN]\<rparr>"
    "length W = writers_count s" "mset (concat W) + mset S = L"
  shows "cs_inv s'"
proof -
  have b: "b < blocks_count s" "block_states s ! b = FREE" "b < next_unused_block s"
    and sh: "shape s" and ok: "\<forall>b < blocks_count s. block_ok s b"
    and l: "lists_of s = mset_set (free_set s)" "free_blocks s = int (card (free_set s))"
    using assms(1,2) by (auto simp: cs_inv_def free_set_def)
  have fs: "free_set s' = free_set s - {b}"
    using b sh by (auto simp: assms(4) free_set_def shape_def nth_list_update)
  have "lists_of s' = mset_set (free_set s')"
    unfolding fs using assms(2,3,4,6) l(1) by (simp add: lists_of_def mset_set_Diff) (metis add_mset_remove_trivial)
  moreover have "free_blocks s' = int (card (free_set s'))"
  proof -
    have "0 < card (free_set s)" using assms(2) by (auto simp: card_gt_0_iff)
    then show ?thesis unfolding fs using assms(2,4) l(2) by (simp add: card_Diff_singleton)
  qed
  moreover have "block_ok s' c" if "c < blocks_count s" for c
    using ok [rule_format, OF that] ok [rule_format, OF b(1)] b sh that
    by (cases "c = b") (auto simp: assms(4) block_ok_def shape_def nth_list_update)
  ultimately show ?thesis using sh assms(5) by (simp add: cs_inv_def assms(4) shape_def)
qed

lemma cs_inv_bump:
  assumes "cs_inv s" "next_unused_block s < blocks_count s"
  shows "cs_inv (s\<lparr>next_unused_block := next_unused_block s + 1,
                   block_states := (block_states s)[next_unused_block s := OPEN]\<rparr>)"
proof -
  let ?s = "s\<lparr>next_unused_block := next_unused_block s + 1,
              block_states := (block_states s)[next_unused_block s := OPEN]\<rparr>"
  have sh: "shape s" and ok: "\<forall>b < blocks_count s. block_ok s b"
    and l: "lists_of s = mset_set (free_set s)" "free_blocks s = int (card (free_set s))"
    using assms(1) by (auto simp: cs_inv_def)
  have fs: "free_set ?s = free_set s"
    using assms(2) sh by (auto simp: free_set_def shape_def nth_list_update split: if_splits)
  have "block_ok ?s c" if "c < blocks_count s" for c
    using ok [rule_format, OF that] sh that assms(2)
    by (cases "c = next_unused_block s") (auto simp: block_ok_def shape_def nth_list_update)
  then show ?thesis using sh l fs by (simp add: cs_inv_def shape_def lists_of_def)
qed

lemma cs_inv_bump_out:
  assumes "cs_inv s" "blocks_count s \<le> next_unused_block s"
  shows "cs_inv (s\<lparr>next_unused_block := next_unused_block s + 1\<rparr>)"
proof -
  let ?s = "s\<lparr>next_unused_block := next_unused_block s + 1\<rparr>"
  have "free_set ?s = free_set s" using assms(2) by (auto simp: free_set_def)
  moreover have "block_ok ?s c = block_ok s c" if "c < blocks_count s" for c
    using that assms(2) by (auto simp: block_ok_def)
  ultimately show ?thesis using assms(1) by (simp add: cs_inv_def shape_def lists_of_def)
qed

text \<open>Moving blocks between the lists.\<close>

lemma cs_inv_relist:
  assumes "cs_inv s" "length W = writers_count s" "mset (concat W) + mset S = lists_of s"
  shows "cs_inv (s\<lparr>writer_free_lists := W, shared_free_list := S\<rparr>)"
proof -
  let ?s = "s\<lparr>writer_free_lists := W, shared_free_list := S\<rparr>"
  have "free_set ?s = free_set s" "lists_of ?s = lists_of s" "\<And>b. block_ok ?s b = block_ok s b"
    using assms(3) by (auto simp: free_set_def lists_of_def block_ok_def)
  with assms show ?thesis by (simp add: cs_inv_def shape_def)
qed

lemma mset_drop_take: "mset (drop k xs) + mset (take k xs) = mset xs"
  by (metis add.commute append_take_drop_id mset_append)

lemma writer_list_split:
  assumes "shape s" "is_writer tid s"
  shows "nat tid < length (writer_free_lists s)"
  using assms by (simp add: shape_def is_writer_def)

text \<open>
  What an allocation returns: a free block of the lists, or, when the writer's list and the
  shared one are empty, the first block never used.
\<close>

lemma allocateBlock_spec:
  assumes "cs_inv s" "is_writer tid s"
  shows "case allocateBlock tid s of
           Inr (b, s') \<Rightarrow> cs_inv s' \<and> block_states s' = (block_states s)[b := OPEN] \<and> b < blocks_count s \<and>
             isFreeBlock b s \<and> b \<notin># lists_of s' \<and> live_bytes s' = live_bytes s \<and>
             blocks_count s' = blocks_count s \<and> page_map s' = page_map s
         | Inl e \<Rightarrow> e = OutOfSpace \<and> blocks_count s \<le> next_unused_block s \<and>
             writer_free_lists s ! nat tid = [] \<and> shared_free_list s = []"
proof -
  let ?mine = "writer_free_lists s ! nat tid" and ?shared = "shared_free_list s"
  have sh: "shape s" and ok: "\<forall>b < blocks_count s. block_ok s b" using assms(1) by (auto simp: cs_inv_def)
  note tid = writer_list_split [OF sh assms(2)]
  define n where "n = min (length ?shared) 64"
  define mine where "mine = (if ?mine = [] then drop (length ?shared - n) ?shared else ?mine)"
  define shared where "shared = (if ?mine = [] then take (length ?shared - n) ?shared else ?shared)"
  have lists: "mset (concat ((writer_free_lists s)[nat tid := rest])) + mset shared + mset mine = lists_of s + mset rest" for rest
  proof -
    have "mset mine + mset shared = mset ?mine + mset ?shared"
      by (cases "?mine = []") (simp_all add: mine_def shared_def mset_drop_take)
    moreover note mset_concat_update [OF tid, of rest]
    ultimately show ?thesis unfolding lists_of_def by (simp add: ac_simps) (metis (no_types, lifting) add.assoc add.commute)
  qed
  have alloc: "allocateBlock tid s =
      (case mine of
         block # rest \<Rightarrow> open_block block (s\<lparr>writer_free_lists := (writer_free_lists s)[nat tid := rest],
                            shared_free_list := shared, free_blocks := free_blocks s - 1\<rparr>)
       | [] \<Rightarrow> (if next_unused_block s \<ge> blocks_count s then Inl OutOfSpace
                else open_block (next_unused_block s)
                       (s\<lparr>writer_free_lists := (writer_free_lists s)[nat tid := mine], shared_free_list := shared,
                          next_unused_block := next_unused_block s + 1\<rparr>)))"
    unfolding allocateBlock_def mine_def shared_def n_def
    by (cases "?mine = []") (simp_all only: assms(2) Let_def if_True if_False append_Nil prod.case simp_thms)
  show ?thesis
  proof (cases mine)
    case (Cons b rest)
    let ?W = "(writer_free_lists s)[nat tid := rest]"
    let ?s1 = "s\<lparr>writer_free_lists := ?W, shared_free_list := shared, free_blocks := free_blocks s - 1\<rparr>"
    have split: "lists_of s = add_mset b (mset (concat ?W) + mset shared)"
      using lists [of rest] Cons by simp
    then have "b \<in># lists_of s" by simp
    then have b: "b \<in> free_set s" using in_lists_free [OF assms(1)] by simp
    have free: "b < blocks_count s" "block_states s ! b = FREE" using free_set_less [OF b] by auto
    have sh1: "shape ?s1" "\<forall>c < blocks_count ?s1. block_ok ?s1 c" using sh ok by (auto simp: shape_def block_ok_def)
    have op: "open_block b ?s1 = Inr (b, ?s1\<lparr>block_states := (block_states s)[b := OPEN]\<rparr>)"
      using open_block_ok [OF sh1, of b] free by simp
    let ?s' = "?s1\<lparr>block_states := (block_states s)[b := OPEN]\<rparr>"
    have inv: "cs_inv ?s'"
      by (rule cs_inv_open [OF assms(1) b split, where W = ?W and S = shared]) (use sh in \<open>simp_all add: shape_def\<close>)
    then have "b \<notin># lists_of ?s'"
      using in_lists_free [OF inv, of b] free sh by (simp add: free_set_def shape_def)
    then show ?thesis unfolding alloc Cons using op inv free by (simp add: isFreeBlock_def)
  next
    case Nil
    then have "mine = []" "?mine = []" "?shared = []"
      by (auto simp: mine_def n_def min_def split: if_splits)
    then have sh0: "shared = []" by (simp add: shared_def)
    show ?thesis
    proof (cases "next_unused_block s < blocks_count s")
      case False
      then show ?thesis unfolding alloc Nil using \<open>?mine = []\<close> \<open>?shared = []\<close> by simp
    next
      case True
      let ?b = "next_unused_block s"
      have W: "(writer_free_lists s)[nat tid := []] = writer_free_lists s"
        using \<open>?mine = []\<close> tid by (metis list_update_id)
      have free: "block_states s ! ?b = FREE" using ok True by (auto simp: block_ok_def)
      let ?s1 = "s\<lparr>next_unused_block := ?b + 1\<rparr>"
      let ?s' = "?s1\<lparr>block_states := (block_states s)[?b := OPEN]\<rparr>"
      have eq: "s\<lparr>writer_free_lists := (writer_free_lists s)[nat tid := []], shared_free_list := [],
                 next_unused_block := ?b + 1\<rparr> = ?s1"
        unfolding W using \<open>?shared = []\<close> by simp
      have op: "open_block ?b ?s1 = Inr (?b, ?s')"
      proof -
        have "shape ?s1" "\<forall>c < blocks_count ?s1. block_ok ?s1 c" using sh ok by (auto simp: shape_def block_ok_def)
        from open_block_ok [OF this, of ?b] True free show ?thesis by simp
      qed
      have inv: "cs_inv ?s'" using cs_inv_bump [OF assms(1) True] by simp
      then have "?b \<notin># lists_of ?s'"
        using in_lists_free [OF inv, of ?b] True sh by (simp add: free_set_def shape_def)
      then show ?thesis unfolding alloc Nil sh0 using op inv free True eq by (simp add: isFreeBlock_def)
    qed
  qed
qed

lemma cs_inv_add_fresh:
  assumes "cs_inv s" "next_unused_block s < blocks_count s" "length W = writers_count s"
    "mset (concat W) + mset (shared_free_list s) = add_mset (next_unused_block s) (lists_of s)"
  shows "cs_inv (s\<lparr>next_unused_block := next_unused_block s + 1, free_blocks := free_blocks s + 1,
                   writer_free_lists := W\<rparr>)"
proof -
  let ?b = "next_unused_block s"
  let ?s = "s\<lparr>next_unused_block := ?b + 1, free_blocks := free_blocks s + 1, writer_free_lists := W\<rparr>"
  have sh: "shape s" and ok: "\<forall>b < blocks_count s. block_ok s b"
    and l: "lists_of s = mset_set (free_set s)" "free_blocks s = int (card (free_set s))"
    using assms(1) by (auto simp: cs_inv_def)
  have "block_states s ! ?b = FREE" using ok assms(2) by (auto simp: block_ok_def)
  then have fs: "free_set ?s = insert ?b (free_set s)" using assms(2) by (auto simp: free_set_def less_Suc_eq)
  have new: "?b \<notin> free_set s" by (simp add: free_set_def)
  have "lists_of ?s = add_mset ?b (lists_of s)" using assms(4) by (simp add: lists_of_def)
  then have "lists_of ?s = mset_set (free_set ?s)" unfolding fs using new l(1) by simp
  moreover have "free_blocks ?s = int (card (free_set ?s))" unfolding fs using new l(2) by simp
  moreover have "block_ok ?s c" if "c < blocks_count s" for c
    using ok [rule_format, OF that] by (auto simp: block_ok_def)
  ultimately show ?thesis using sh assms(3) by (simp add: cs_inv_def shape_def)
qed

lemma reserve_loop_frame:
  "reserve_loop k mine s = (mine', s') \<Longrightarrow>
     writer_free_lists s' = writer_free_lists s \<and> shared_free_list s' = shared_free_list s \<and>
     blocks_count s' = blocks_count s \<and> block_states s' = block_states s \<and> live_bytes s' = live_bytes s \<and>
     writers_count s' = writers_count s \<and> page_map s' = page_map s"
proof (induction k arbitrary: mine s)
  case (Suc k)
  then show ?case by (fastforce simp: Let_def split: if_splits)
qed simp

lemma reserve_loop_inv:
  assumes "reserve_loop k mine s = (mine', s')" "i < length (writer_free_lists s)"
    "cs_inv (s\<lparr>writer_free_lists := (writer_free_lists s)[i := mine]\<rparr>)"
  shows "cs_inv (s'\<lparr>writer_free_lists := (writer_free_lists s')[i := mine']\<rparr>)"
  using assms
proof (induction k arbitrary: mine s)
  case (Suc k)
  let ?b = "next_unused_block s" and ?W = "(writer_free_lists s)[i := mine]"
  let ?t = "s\<lparr>writer_free_lists := ?W\<rparr>"
  show ?case
  proof (cases "?b < blocks_count s")
    case False
    then show ?thesis using Suc.prems cs_inv_bump_out [OF Suc.prems(3)] by (auto simp: Let_def)
  next
    case True
    let ?s1 = "s\<lparr>next_unused_block := ?b + 1, free_blocks := free_blocks s + 1\<rparr>"
    have "mset (concat ((writer_free_lists s)[i := ?b # mine])) = add_mset ?b (mset (concat ?W))"
    proof -
      have "mset (concat ((writer_free_lists s)[i := ?b # mine])) + mset (writer_free_lists s ! i) =
          add_mset ?b (mset (concat ?W)) + mset (writer_free_lists s ! i)"
        using mset_concat_update [OF Suc.prems(2), of "?b # mine"] mset_concat_update [OF Suc.prems(2), of mine]
        by simp
      then show ?thesis by (simp only: add_right_cancel)
    qed
    then have "cs_inv (?s1\<lparr>writer_free_lists := (writer_free_lists s)[i := ?b # mine]\<rparr>)"
      using cs_inv_add_fresh [OF Suc.prems(3), of "(writer_free_lists s)[i := ?b # mine]"] True Suc.prems(3)
      by (simp add: lists_of_def cs_inv_def shape_def)
    moreover have "reserve_loop k (?b # mine) ?s1 = (mine', s')" using Suc.prems(1) True by (simp add: Let_def)
    ultimately show ?thesis using Suc.IH [of "?b # mine" ?s1] Suc.prems(2) by simp
  qed
qed simp

lemma reserveBlocks_inv:
  assumes "cs_inv s" "reserveBlocks tid n s = Inr s'"
  shows "cs_inv s' \<and> block_states s' = block_states s \<and> live_bytes s' = live_bytes s \<and>
         blocks_count s' = blocks_count s \<and> page_map s' = page_map s"
proof -
  let ?mine = "writer_free_lists s ! nat tid" and ?shared = "shared_free_list s"
  have w: "is_writer tid s" using assms(2) by (auto simp: reserveBlocks_def split: if_splits)
  have tid: "nat tid < length (writer_free_lists s)"
    using writer_list_split w assms(1) by (auto simp: cs_inv_def)
  show ?thesis
  proof (cases "n \<le> length ?mine")
    case True
    then show ?thesis using assms w by (simp add: reserveBlocks_def)
  next
    case False
    define k where "k = length ?shared - min (length ?shared) (n - length ?mine)"
    let ?mine1 = "drop k ?shared @ ?mine" and ?s1 = "s\<lparr>shared_free_list := take k ?shared\<rparr>"
    obtain mine2 s2 where r: "reserve_loop (n - length ?mine1) ?mine1 ?s1 = (mine2, s2)" by fastforce
    then have s': "s' = s2\<lparr>writer_free_lists := (writer_free_lists s2)[nat tid := mine2]\<rparr>"
      using assms(2) w False by (simp add: reserveBlocks_def Let_def k_def)
    have "mset (concat ((writer_free_lists s)[nat tid := ?mine1])) + mset (take k ?shared) = lists_of s"
    proof -
      have "mset (concat ((writer_free_lists s)[nat tid := ?mine1])) + mset ?mine =
          mset (concat (writer_free_lists s)) + mset (drop k ?shared) + mset ?mine"
        using mset_concat_update [OF tid, of ?mine1] by (simp add: ac_simps)
      then have "mset (concat ((writer_free_lists s)[nat tid := ?mine1])) =
          mset (concat (writer_free_lists s)) + mset (drop k ?shared)" by simp
      then show ?thesis using mset_drop_take [of k ?shared] by (simp add: lists_of_def ac_simps)
    qed
    from cs_inv_relist [OF assms(1) _ this] assms(1)
    have "cs_inv (?s1\<lparr>writer_free_lists := (writer_free_lists ?s1)[nat tid := ?mine1]\<rparr>)"
      by (simp add: cs_inv_def shape_def)
    from reserve_loop_inv [OF r _ this] tid reserve_loop_frame [OF r] show ?thesis
      unfolding s' by simp
  qed
qed

lemma trimFreeList_inv:
  assumes "cs_inv s" "trimFreeList tid n s = Inr s'"
  shows "cs_inv s' \<and> block_states s' = block_states s \<and> live_bytes s' = live_bytes s \<and>
         blocks_count s' = blocks_count s \<and> page_map s' = page_map s"
proof -
  let ?mine = "writer_free_lists s ! nat tid"
  have w: "is_writer tid s" using assms(2) by (auto simp: trimFreeList_def split: if_splits)
  have tid: "nat tid < length (writer_free_lists s)"
    using writer_list_split w assms(1) by (auto simp: cs_inv_def)
  have "mset (concat ((writer_free_lists s)[nat tid := take n ?mine])) + mset (shared_free_list s @ drop n ?mine) = lists_of s"
  proof -
    have "mset (concat ((writer_free_lists s)[nat tid := take n ?mine])) + mset (drop n ?mine) + mset (take n ?mine)
        = mset (concat (writer_free_lists s)) + mset (take n ?mine)"
      using mset_concat_update [OF tid, of "take n ?mine"]
      unfolding mset_drop_take [of n ?mine, symmetric] by (simp only: add.assoc)
    then show ?thesis by (simp add: lists_of_def ac_simps)
  qed
  from cs_inv_relist [OF assms(1) _ this] assms show ?thesis
    by (auto simp: trimFreeList_def Let_def cs_inv_def shape_def w split: if_splits)
qed

section \<open>Sealing and freeing\<close>

lemma sealBlock_spec:
  assumes "cs_inv s" "b < blocks_count s" "block_states s ! b = OPEN" "0 < n" "n \<le> PAGE_SIZE"
  defines "s' \<equiv> s\<lparr>block_states := (block_states s)[b := SEALED], live_bytes := (live_bytes s)[b := int n]\<rparr>"
  shows "sealBlock b n s = Inr s'" "cs_inv s'"
proof -
  have sh: "shape s" and ok: "\<forall>b < blocks_count s. block_ok s b" using assms(1) by (auto simp: cs_inv_def)
  then have "live_bytes s ! b = 0" using assms(2,3) by (auto simp: block_ok_def)
  then show "sealBlock b n s = Inr s'" using assms by (simp add: sealBlock_def transition_def)
  have "free_set s' = free_set s"
    using assms(2,3) sh by (auto simp: free_set_def s'_def shape_def nth_list_update split: if_splits)
  moreover have "block_ok s' c" if "c < blocks_count s" for c
    using ok [rule_format, OF that] ok [rule_format, OF assms(2)] assms(2-5) sh that
    by (cases "c = b") (auto simp: block_ok_def s'_def shape_def)
  ultimately show "cs_inv s'" using assms(1) by (simp add: cs_inv_def s'_def shape_def lists_of_def)
qed

lemma sealBlock_Inr:
  assumes "cs_inv s" "sealBlock b n s = Inr s'"
  shows "b < blocks_count s \<and> block_states s ! b = OPEN \<and> 0 < n \<and> n \<le> PAGE_SIZE"
  using assms(2) by (auto simp: sealBlock_def transition_def split: if_splits)

definition thread_ok :: "int \<Rightarrow> CompressedSpace \<Rightarrow> bool" where
  "thread_ok tid s \<longleftrightarrow> tid < 0 \<or> is_writer tid s"

lemma cs_inv_release:
  assumes "cs_inv s" "b < blocks_count s" "block_states s ! b = SEALED" "length W = writers_count s"
    "mset (concat W) + mset S = add_mset b (lists_of s)"
  shows "cs_inv (s\<lparr>writer_free_lists := W, shared_free_list := S, free_blocks := free_blocks s + 1,
                   block_states := (block_states s)[b := FREE], live_bytes := (live_bytes s)[b := 0]\<rparr>)"
    (is "cs_inv ?s")
proof -
  have sh: "shape s" and ok: "\<forall>b < blocks_count s. block_ok s b"
    and l: "lists_of s = mset_set (free_set s)" "free_blocks s = int (card (free_set s))"
    using assms(1) by (auto simp: cs_inv_def)
  have "b < next_unused_block s" using ok assms(2,3) by (force simp: block_ok_def)
  then have fs: "free_set ?s = insert b (free_set s)"
    using assms(2) sh by (auto simp: free_set_def shape_def nth_list_update)
  have new: "b \<notin> free_set s" using assms(3) by (simp add: free_set_def)
  have "lists_of ?s = add_mset b (lists_of s)" using assms(5) by (simp add: lists_of_def)
  then have "lists_of ?s = mset_set (free_set ?s)" unfolding fs using new l(1) by simp
  moreover have "free_blocks ?s = int (card (free_set ?s))" unfolding fs using new l(2) by simp
  moreover have "block_ok ?s c" if "c < blocks_count s" for c
    using ok [rule_format, OF that] assms(2) sh that
    by (cases "c = b") (auto simp: block_ok_def shape_def)
  ultimately show ?thesis using sh assms(4) by (simp add: cs_inv_def shape_def)
qed

lemma releaseBlock_spec:
  assumes "cs_inv s" "b < blocks_count s" "block_states s ! b = SEALED" "thread_ok tid s"
  shows "\<exists>s'. releaseBlock tid b (s\<lparr>live_bytes := (live_bytes s)[b := 0]\<rparr>) = Inr s' \<and> cs_inv s' \<and>
           block_states s' = (block_states s)[b := FREE] \<and> live_bytes s' = (live_bytes s)[b := 0] \<and>
           blocks_count s' = blocks_count s"
proof (cases "tid < 0")
  case True
  then show ?thesis
    using assms(3) cs_inv_release [OF assms(1-3), of "writer_free_lists s" "shared_free_list s @ [b]"] assms(1)
    by (simp add: releaseBlock_def transition_def Let_def lists_of_def cs_inv_def [of s] shape_def [of s])
next
  case False
  let ?W = "(writer_free_lists s)[nat tid := writer_free_lists s ! nat tid @ [b]]"
  have tid: "nat tid < length (writer_free_lists s)"
    using writer_list_split False assms(1,4) by (auto simp: cs_inv_def thread_ok_def)
  have "mset (concat ?W) + mset (shared_free_list s) = add_mset b (lists_of s)"
    using mset_concat_update [OF tid, of "writer_free_lists s ! nat tid @ [b]"]
    by (simp add: lists_of_def)
  then show ?thesis
    using False assms(3) cs_inv_release [OF assms(1-3), of ?W "shared_free_list s"] assms(1)
    by (simp add: releaseBlock_def transition_def Let_def cs_inv_def [of s] shape_def [of s])
qed

lemma cs_free_spec:
  assumes "cs_inv s" "thread_ok tid s" "onSSD l" "cpid_block l < blocks_count s"
    "block_states s ! cpid_block l = SEALED" "offsetInBlock l + unat (cpid_length l) \<le> PAGE_SIZE"
    "int (unat (cpid_length l)) \<le> live_bytes s ! cpid_block l"
  shows "\<exists>s'. cs_free tid l s = Inr s' \<and> cs_inv s' \<and> blocks_count s' = blocks_count s \<and>
           live_bytes s' = (live_bytes s)[cpid_block l := live_bytes s ! cpid_block l - int (unat (cpid_length l))] \<and>
           block_states s' = (if live_bytes s ! cpid_block l = int (unat (cpid_length l))
                              then (block_states s)[cpid_block l := FREE] else block_states s)"
proof -
  have ext: "int (offsetInBlock l) + int (unat (cpid_length l)) \<le> int PAGE_SIZE"
    using assms(6) unfolding of_nat_add [symmetric] of_nat_le_iff .
  show ?thesis
proof (cases "live_bytes s ! cpid_block l = int (unat (cpid_length l))")
  case True
  then show ?thesis
    using releaseBlock_spec [OF assms(1,4,5,2)] assms(3-5) ext by (auto simp: cs_free_def Let_def)
next
  case False
  let ?b = "cpid_block l"
  let ?s = "s\<lparr>live_bytes := (live_bytes s)[?b := live_bytes s ! ?b - int (unat (cpid_length l))]\<rparr>"
  have sh: "shape s" and ok: "\<forall>b < blocks_count s. block_ok s b" using assms(1) by (auto simp: cs_inv_def)
  have less: "live_bytes s ! ?b - uint (cpid_length l) \<le> live_bytes s ! ?b" by simp
  have "free_set ?s = free_set s" by (simp add: free_set_def)
  moreover have "block_ok ?s c" if "c < blocks_count s" for c
    using ok [rule_format, OF that] assms(4,5,7) sh that False
    by (cases "c = ?b") (auto simp: block_ok_def shape_def intro: order_trans [OF less])
  ultimately have "cs_inv ?s" using assms(1) by (simp add: cs_inv_def shape_def lists_of_def)
  with False assms(3-5,7) ext show ?thesis by (simp add: cs_free_def Let_def)
qed
qed

section \<open>Live pages\<close>

text \<open>
  The threads that share the space, with the locations of the copies that are live: a copy
  becomes live when the block it was packed into is sealed and dies when it is freed.
\<close>

definition extent_ok :: "PID \<Rightarrow> bool" where
  "extent_ok l \<longleftrightarrow> onSSD l \<and> offsetInBlock l + unat (cpid_length l) \<le> PAGE_SIZE"

definition bytes_of :: "PID set \<Rightarrow> nat \<Rightarrow> nat" where
  "bytes_of pages b = (\<Sum>l \<in> {l \<in> pages. cpid_block l = b}. unat (cpid_length l))"

inductive cs_step :: "CompressedSpace \<times> PID set \<Rightarrow> CompressedSpace \<times> PID set \<Rightarrow> bool" where
  cs_alloc: "allocateBlock tid s = Inr (b, s') \<Longrightarrow> cs_step (s, pages) (s', pages)"
| cs_reserve: "reserveBlocks tid n s = Inr s' \<Longrightarrow> cs_step (s, pages) (s', pages)"
| cs_trim: "trimFreeList tid n s = Inr s' \<Longrightarrow> cs_step (s, pages) (s', pages)"
| cs_seal: "sealBlock b n s = Inr s' \<Longrightarrow> finite L \<Longrightarrow> \<forall>l \<in> L. extent_ok l \<and> cpid_block l = b \<Longrightarrow>
     n = bytes_of L b \<Longrightarrow> cs_step (s, pages) (s', pages \<union> L)"
| cs_raw: "allocateRawBlock s = Inr (b, s') \<Longrightarrow> cs_step (s, pages) (s', insert (rawBlockLocation b) pages)"
| cs_free_page: "l \<in> pages \<Longrightarrow> thread_ok tid s \<Longrightarrow> cs_free tid l s = Inr s' \<Longrightarrow>
     cs_step (s, pages) (s', pages - {l})"
| cs_map: "exchangeLocation pid loc s = Inr (old, s') \<Longrightarrow> cs_step (s, pages) (s', pages)"
| cs_epoch: "exchangeBlockRUEpoch b e s = (old, s') \<Longrightarrow> cs_step (s, pages) (s', pages)"

definition cs_init :: "CompressedSpace \<times> PID set \<Rightarrow> bool" where
  "cs_init st \<longleftrightarrow> snd st = {} \<and>
     (\<exists>n_blocks n_pages n_writers. n_blocks * PAGE_SIZE \<le> 2 ^ 48 \<and> fst st = cs_new n_blocks n_pages n_writers)"

definition pages_inv :: "CompressedSpace \<times> PID set \<Rightarrow> bool" where
  "pages_inv st \<longleftrightarrow>
     (case st of (s, pages) \<Rightarrow>
        cs_inv s \<and> blocks_count s * PAGE_SIZE \<le> 2 ^ 48 \<and> finite pages \<and>
        (\<forall>l \<in> pages. extent_ok l \<and> cpid_block l < blocks_count s \<and> block_states s ! cpid_block l = SEALED) \<and>
        (\<forall>b < blocks_count s. block_states s ! b = SEALED \<longrightarrow> live_bytes s ! b = int (bytes_of pages b)))"

text \<open>
  A step that keeps the sealed blocks sealed, seals no other and keeps the live bytes keeps the
  accounting.
\<close>

lemma pages_inv_frame:
  assumes "pages_inv (s, pages)" "cs_inv s'" "blocks_count s' = blocks_count s" "live_bytes s' = live_bytes s"
    "\<And>b. b < blocks_count s \<Longrightarrow> block_states s' ! b = SEALED \<longleftrightarrow> block_states s ! b = SEALED"
  shows "pages_inv (s', pages)"
  using assms unfolding pages_inv_def by auto

lemma bytes_of_Un:
  "finite P \<Longrightarrow> finite L \<Longrightarrow> {l \<in> P. cpid_block l = b} \<inter> {l \<in> L. cpid_block l = b} = {} \<Longrightarrow>
     bytes_of (P \<union> L) b = bytes_of P b + bytes_of L b"
proof -
  assume "finite P" "finite L" "{l \<in> P. cpid_block l = b} \<inter> {l \<in> L. cpid_block l = b} = {}"
  moreover have "{l \<in> P \<union> L. cpid_block l = b} = {l \<in> P. cpid_block l = b} \<union> {l \<in> L. cpid_block l = b}" by auto
  ultimately show ?thesis unfolding bytes_of_def by (simp add: sum.union_disjoint)
qed

lemma bytes_of_remove:
  assumes "finite P" "l \<in> P"
  shows "bytes_of P (cpid_block l) = unat (cpid_length l) + bytes_of (P - {l}) (cpid_block l)"
    "b \<noteq> cpid_block l \<Longrightarrow> bytes_of (P - {l}) b = bytes_of P b"
proof -
  have "{k \<in> P - {l}. cpid_block k = cpid_block l} = {k \<in> P. cpid_block k = cpid_block l} - {l}" by auto
  with assms show "bytes_of P (cpid_block l) = unat (cpid_length l) + bytes_of (P - {l}) (cpid_block l)"
    unfolding bytes_of_def by (simp add: sum.remove [of _ l])
  show "b \<noteq> cpid_block l \<Longrightarrow> bytes_of (P - {l}) b = bytes_of P b"
    unfolding bytes_of_def by (intro sum.cong) auto
qed

lemma bytes_of_single: "bytes_of {l} (cpid_block l) = unat (cpid_length l)"
proof -
  have "{k \<in> {l}. cpid_block k = cpid_block l} = {l}" by auto
  then show ?thesis by (simp add: bytes_of_def)
qed

lemma bytes_of_eq_0:
  assumes "finite P" "\<forall>l \<in> P. extent_ok l"
  shows "bytes_of P b = 0 \<longleftrightarrow> (\<forall>l \<in> P. cpid_block l \<noteq> b)"
proof -
  have "unat (cpid_length l) \<noteq> 0" if "l \<in> P" for l
    using assms(2) that by (auto simp: extent_ok_def onSSD_def unat_eq_0)
  with assms(1) show ?thesis unfolding bytes_of_def
    by (auto simp: sum_eq_0_iff) (metis gr_implies_not0)
qed

lemma pages_inv_seal:
  assumes "pages_inv (s, pages)" "sealBlock b n s = Inr s'" "finite L"
    "\<forall>l \<in> L. extent_ok l \<and> cpid_block l = b" "n = bytes_of L b"
  shows "pages_inv (s', pages \<union> L)"
proof -
  have inv: "cs_inv s" "finite pages" and len: "length (block_states s) = blocks_count s" "length (live_bytes s) = blocks_count s"
    using assms(1) by (auto simp: pages_inv_def cs_inv_def shape_def)
  have b: "b < blocks_count s" "block_states s ! b = OPEN" "0 < n" "n \<le> PAGE_SIZE"
    using sealBlock_Inr [OF inv(1) assms(2)] by auto
  note seal = sealBlock_spec [OF inv(1) b]
  have s': "s' = s\<lparr>block_states := (block_states s)[b := SEALED], live_bytes := (live_bytes s)[b := int n]\<rparr>"
    using seal(1) assms(2) by simp
  have nopage: "\<forall>l \<in> pages. cpid_block l \<noteq> b" using assms(1) b by (auto simp: pages_inv_def)
  have "bytes_of (pages \<union> L) c = (if c = b then n else bytes_of pages c)" for c
  proof (cases "c = b")
    case True
    have "{l \<in> pages \<union> L. cpid_block l = b} = {l \<in> L. cpid_block l = b}" using nopage by auto
    then show ?thesis using True assms(5) by (simp add: bytes_of_def)
  next
    case False
    have "{l \<in> pages \<union> L. cpid_block l = c} = {l \<in> pages. cpid_block l = c}" using assms(4) False by auto
    then show ?thesis using False by (simp add: bytes_of_def)
  qed
  then show ?thesis
    using assms(1,3,4) seal(2) b len unfolding pages_inv_def s' by (auto simp: nth_list_update)
qed

lemma pages_inv_free:
  assumes "pages_inv (s, pages)" "l \<in> pages" "thread_ok tid s"
  shows "\<exists>s'. cs_free tid l s = Inr s' \<and> pages_inv (s', pages - {l}) \<and>
           (isFreeBlock (cpid_block l) s' \<longleftrightarrow> (\<forall>k \<in> pages - {l}. cpid_block k \<noteq> cpid_block l))"
proof -
  let ?b = "cpid_block l"
  have inv: "cs_inv s" "finite pages" "extent_ok l" "?b < blocks_count s" "block_states s ! ?b = SEALED"
    and all: "\<forall>l \<in> pages. extent_ok l" and len: "length (block_states s) = blocks_count s" "length (live_bytes s) = blocks_count s"
    using assms(1,2) by (auto simp: pages_inv_def cs_inv_def shape_def)
  have live: "live_bytes s ! ?b = int (unat (cpid_length l)) + int (bytes_of (pages - {l}) ?b)"
    using assms(1) inv(4,5) bytes_of_remove(1) [OF inv(2) assms(2)] by (simp add: pages_inv_def)
  obtain s' where s': "cs_free tid l s = Inr s'" "cs_inv s'" "blocks_count s' = blocks_count s"
    "live_bytes s' = (live_bytes s)[?b := live_bytes s ! ?b - int (unat (cpid_length l))]"
    "block_states s' = (if live_bytes s ! ?b = int (unat (cpid_length l)) then (block_states s)[?b := FREE] else block_states s)"
    using cs_free_spec [OF inv(1) assms(3) _ inv(4,5)] inv(3) live by (auto simp: extent_ok_def)
  have none: "live_bytes s ! ?b = int (unat (cpid_length l)) \<longleftrightarrow> (\<forall>k \<in> pages - {l}. cpid_block k \<noteq> ?b)"
    using bytes_of_eq_0 [of "pages - {l}" ?b] inv(2) all live by simp
  have "pages_inv (s', pages - {l})"
    unfolding pages_inv_def using assms(1) s' inv len live none bytes_of_remove(2) [OF inv(2) assms(2)]
    by (auto simp: pages_inv_def nth_list_update)
  moreover have "isFreeBlock ?b s' \<longleftrightarrow> (\<forall>k \<in> pages - {l}. cpid_block k \<noteq> ?b)"
    unfolding isFreeBlock_def s'(5) using none inv(4,5) len by simp
  ultimately show ?thesis using s'(1) by blast
qed

lemma allocateRawBlock_Inr:
  assumes "pages_inv (s, pages)" "allocateRawBlock s = Inr (b, s')"
  shows "pages_inv (s', insert (rawBlockLocation b) pages) \<and> (\<forall>l \<in> pages. cpid_block l \<noteq> b) \<and>
    cpid_block (rawBlockLocation b) = b \<and> b * PAGE_SIZE < 2 ^ 48"
proof -
  have inv: "cs_inv s" and sh: "shape s" and ok: "\<forall>b < blocks_count s. block_ok s b"
    using assms(1) by (auto simp: pages_inv_def cs_inv_def)
  obtain s2 where s2: "cs_inv s2" "block_states s2 = (block_states s)[b := OPEN]" "live_bytes s2 = live_bytes s"
    "blocks_count s2 = blocks_count s" "isFreeBlock b s" "b < blocks_count s" "sealBlock b PAGE_SIZE s2 = Inr s'"
  proof (cases "shared_free_list s = []")
    case False
    let ?b = "last (shared_free_list s)"
    let ?s1 = "s\<lparr>shared_free_list := butlast (shared_free_list s), free_blocks := free_blocks s - 1\<rparr>"
    have split: "lists_of s = add_mset ?b (mset (concat (writer_free_lists s)) + mset (butlast (shared_free_list s)))"
      using append_butlast_last_id [OF False] by (simp add: lists_of_def) (metis add_mset_add_single mset_append mset_single_iff_right union_mset_add_mset_right mset.simps(1) mset.simps(2))
    then have "?b \<in># lists_of s" by simp
    then have b: "?b \<in> free_set s" using in_lists_free [OF inv] by simp
    note free = free_set_less [OF b]
    have "shape ?s1" "\<forall>c < blocks_count ?s1. block_ok ?s1 c" using sh ok by (auto simp: shape_def block_ok_def)
    from open_block_ok [OF this, of ?b] free
    have op: "open_block ?b ?s1 = Inr (?b, ?s1\<lparr>block_states := (block_states s)[?b := OPEN]\<rparr>)" by simp
    have "cs_inv (?s1\<lparr>block_states := (block_states s)[?b := OPEN]\<rparr>)"
      by (rule cs_inv_open [OF inv b split, where W = "writer_free_lists s" and S = "butlast (shared_free_list s)"])
         (use sh in \<open>simp_all add: shape_def\<close>)
    with assms(2) False op free that [of "?s1\<lparr>block_states := (block_states s)[?b := OPEN]\<rparr>"] show thesis
      by (auto simp: allocateRawBlock_def Let_def isFreeBlock_def split: sum.splits)
  next
    case True
    let ?b = "next_unused_block s" and ?s1 = "s\<lparr>next_unused_block := next_unused_block s + 1\<rparr>"
    have lt: "?b < blocks_count s"
      using assms(2) True by (auto simp: allocateRawBlock_def Let_def split: if_splits)
    then have free: "block_states s ! ?b = FREE" using ok by (auto simp: block_ok_def)
    have "shape ?s1" "\<forall>c < blocks_count ?s1. block_ok ?s1 c" using sh ok by (auto simp: shape_def block_ok_def)
    from open_block_ok [OF this, of ?b] lt free
    have op: "open_block ?b ?s1 = Inr (?b, ?s1\<lparr>block_states := (block_states s)[?b := OPEN]\<rparr>)" by simp
    from cs_inv_bump [OF inv lt] assms(2) True op lt free that [of "?s1\<lparr>block_states := (block_states s)[?b := OPEN]\<rparr>"]
    show thesis by (auto simp: allocateRawBlock_def Let_def isFreeBlock_def split: sum.splits)
  qed
  have free: "block_states s ! b = FREE" using s2(5) by (simp add: isFreeBlock_def)
  have s2_inv: "pages_inv (s2, pages)"
    using s2(6) free sh by (intro pages_inv_frame [OF assms(1) s2(1)]) (auto simp: s2 nth_list_update shape_def)
  have bound: "b * PAGE_SIZE < 2 ^ 48"
  proof -
    have "b * PAGE_SIZE < blocks_count s * PAGE_SIZE" using s2(6) by (simp add: PAGE_SIZE_def)
    also have "\<dots> \<le> 2 ^ 48" using assms(1) by (simp add: pages_inv_def)
    finally show ?thesis .
  qed
  note raw = cpid_parts [OF bound, of PAGE_SIZE]
  have block: "cpid_block (rawBlockLocation b) = b" "unat (cpid_length (rawBlockLocation b)) = PAGE_SIZE"
    "offsetInBlock (rawBlockLocation b) = 0"
    unfolding rawBlockLocation_def using raw by (simp_all add: PAGE_SIZE_def)
  then have "extent_ok (rawBlockLocation b)" "bytes_of {rawBlockLocation b} b = PAGE_SIZE"
    using bytes_of_single [of "rawBlockLocation b"] by (auto simp: extent_ok_def onSSD_def PAGE_SIZE_def)
  with s2_inv have "pages_inv (s', pages \<union> {rawBlockLocation b})"
    using pages_inv_seal [OF _ s2(7), of pages "{rawBlockLocation b}"] block(1) by simp
  moreover have "\<forall>l \<in> pages. cpid_block l \<noteq> b" using assms(1) free by (auto simp: pages_inv_def)
  ultimately show ?thesis using block(1) bound by simp
qed

lemma pages_inv_alloc:
  assumes "pages_inv (s, pages)" "allocateBlock tid s = Inr (b, s')"
  shows "pages_inv (s', pages)"
proof -
  have inv: "cs_inv s" and len: "length (block_states s) = blocks_count s"
    using assms(1) by (auto simp: pages_inv_def cs_inv_def shape_def)
  have "is_writer tid s" using assms(2) by (auto simp: allocateBlock_def split: if_splits)
  from allocateBlock_spec [OF inv this] assms(2) len show ?thesis
    by (intro pages_inv_frame [OF assms(1)]) (auto simp: isFreeBlock_def nth_list_update)
qed

lemma pages_inv_fields:
  assumes "pages_inv (s, pages)" "shape (s\<lparr>page_map := m, block_ru_epochs := es\<rparr>)"
  shows "pages_inv (s\<lparr>page_map := m, block_ru_epochs := es\<rparr>, pages)"
proof -
  let ?s = "s\<lparr>page_map := m, block_ru_epochs := es\<rparr>"
  have "free_set ?s = free_set s" "lists_of ?s = lists_of s" "\<And>b. block_ok ?s b = block_ok s b"
    by (auto simp: free_set_def lists_of_def block_ok_def)
  with assms show ?thesis by (auto simp: pages_inv_def cs_inv_def)
qed

lemma cs_step_inv: "cs_step st st' \<Longrightarrow> pages_inv st \<Longrightarrow> pages_inv st'"
proof (induction rule: cs_step.induct)
  case (cs_alloc tid s b s' pages)
  then show ?case by (blast intro: pages_inv_alloc)
next
  case (cs_reserve tid n s s' pages)
  then have "cs_inv s" by (simp add: pages_inv_def)
  from reserveBlocks_inv [OF this cs_reserve.hyps] show ?case
    by (intro pages_inv_frame [OF cs_reserve.prems]) auto
next
  case (cs_trim tid n s s' pages)
  then have "cs_inv s" by (simp add: pages_inv_def)
  from trimFreeList_inv [OF this cs_trim.hyps] show ?case
    by (intro pages_inv_frame [OF cs_trim.prems]) auto
next
  case (cs_seal b n s s' L pages)
  then show ?case by (blast intro: pages_inv_seal)
next
  case (cs_raw s b s' pages)
  then show ?case by (blast dest: allocateRawBlock_Inr)
next
  case (cs_free_page l pages tid s s')
  then show ?case using pages_inv_free [of s pages l tid] by auto
next
  case (cs_map pid loc s old s' pages)
  then show ?case using pages_inv_fields [where s = s and pages = pages and m = "(page_map s)[pid := loc]" and es = "block_ru_epochs s"]
    by (auto simp: exchangeLocation_def pages_inv_def cs_inv_def shape_def split: if_splits)
next
  case (cs_epoch b e s old s' pages)
  then show ?case using pages_inv_fields [where s = s and pages = pages and m = "page_map s" and es = "(block_ru_epochs s)[b := e]"]
    by (auto simp: exchangeBlockRUEpoch_def pages_inv_def cs_inv_def shape_def)
qed

interpretation space: invariant_of cs_init cs_step pages_inv
proof unfold_locales
  fix st :: "CompressedSpace \<times> PID set"
  show "cs_init st \<Longrightarrow> pages_inv st"
    using cs_new_inv by (cases st) (auto simp: cs_init_def pages_inv_def cs_new_def)
qed (rule cs_step_inv)

section \<open>Persisting and recovering\<close>

definition page_bytes :: "PID list \<Rightarrow> nat \<Rightarrow> nat" where
  "page_bytes locs b = sum_list (map (\<lambda>l. if onSSD l \<and> cpid_block l = b then unat (cpid_length l) else 0) locs)"

lemma page_bytes_simps [simp]:
  "page_bytes [] b = 0"
  "page_bytes (l # locs) b = (if onSSD l \<and> cpid_block l = b then unat (cpid_length l) else 0) + page_bytes locs b"
  by (simp_all add: page_bytes_def)

lemma recover_pages_spec:
  assumes "\<forall>l \<in> set locs. onSSD l \<longrightarrow> extent_ok l \<and> cpid_block l < next" "next \<le> length live"
    "\<forall>b < next. live ! b + int (page_bytes locs b) \<le> int PAGE_SIZE"
  shows "\<exists>live'. recover_pages next locs live = Inr live' \<and> length live' = length live \<and>
           (\<forall>b < length live. live' ! b = live ! b + (if b < next then int (page_bytes locs b) else 0))"
  using assms
proof (induction locs arbitrary: live)
  case Nil
  then show ?case by simp
next
  case (Cons l locs)
  let ?b = "cpid_block l"
  show ?case
  proof (cases "onSSD l")
    case False
    then have eq: "recover_pages next (l # locs) live = recover_pages next locs live"
      "page_bytes (l # locs) b = page_bytes locs b" for b by simp_all
    show ?thesis unfolding eq by (rule Cons.IH) (use Cons.prems False in auto)
  next
    case True
    have ok: "extent_ok l" "?b < next" using Cons.prems(1) True by auto
    let ?live = "live[?b := live ! ?b + int (unat (cpid_length l))]"
    have sum: "live ! b + int (page_bytes (l # locs) b) = ?live ! b + int (page_bytes locs b)" if "b < length live" for b
      using that ok Cons.prems(2) True by (auto simp: nth_list_update)
    have le: "live ! ?b + int (unat (cpid_length l)) \<le> int PAGE_SIZE"
      using Cons.prems(2,3) ok sum [of ?b] by (simp add: add_increasing2) (smt (verit) of_nat_0_le_iff)
    have "\<exists>live'. recover_pages next locs ?live = Inr live' \<and> length live' = length ?live \<and>
           (\<forall>b < length ?live. live' ! b = ?live ! b + (if b < next then int (page_bytes locs b) else 0))"
    proof (rule Cons.IH)
      show "\<forall>b < next. ?live ! b + int (page_bytes locs b) \<le> int PAGE_SIZE"
        using Cons.prems(2,3) sum by (metis less_le_trans)
    qed (use Cons.prems in auto)
    then obtain live' where live': "recover_pages next locs ?live = Inr live'" "length live' = length live"
      "\<forall>b < length live. live' ! b = ?live ! b + (if b < next then int (page_bytes locs b) else 0)" by auto
    have "live' ! b = live ! b + (if b < next then int (page_bytes (l # locs) b) else 0)" if "b < length live" for b
      using live'(3) sum that ok by (auto simp: nth_list_update)
    with live' True ok le show ?thesis by (simp add: extent_ok_def)
  qed
qed

lemma recover_raw_spec:
  assumes "distinct raw" "\<forall>b \<in> set raw. b < next \<and> live ! b = 0" "next \<le> length live"
  shows "\<exists>live'. recover_raw next raw live = Inr live' \<and> length live' = length live \<and>
           (\<forall>b < length live. live' ! b = (if b \<in> set raw then int PAGE_SIZE else live ! b))"
  using assms
proof (induction raw arbitrary: live)
  case (Cons r raw)
  have "\<exists>live'. recover_raw next raw (live[r := int PAGE_SIZE]) = Inr live' \<and>
      length live' = length (live[r := int PAGE_SIZE]) \<and>
      (\<forall>b < length (live[r := int PAGE_SIZE]). live' ! b = (if b \<in> set raw then int PAGE_SIZE else live[r := int PAGE_SIZE] ! b))"
    using Cons.prems by (intro Cons.IH) (auto, metis nth_list_update_neq)
  with Cons.prems show ?case by (auto simp: nth_list_update)
qed simp

lemma recover_eq:
  assumes "5 \<le> length f" "f ! 0 = SPACE_MAP_MAGIC" "unat (f ! 1) = blocks_count s" "unat (f ! 2) = logical_pages s"
    "unat (f ! 3) = next" "unat (f ! 4) = pids_end" "drop 5 f = body" "next \<le> blocks_count s"
    "pids_end \<le> logical_pages s" "length body = pids_end + next"
    "take pids_end body @ drop pids_end (page_map s) = m"
    "map sint (take next (drop pids_end body)) @ drop next (block_ru_epochs s) = es"
    "recover_pages next (take pids_end m) (live_bytes s) = Inr live1" "recover_raw next raw live1 = Inr live2"
    "map (\<lambda>b. if live2 ! b = 0 then FREE else SEALED) [0..<next] @ drop next (block_states s) = states"
    "frees = filter (\<lambda>b. live2 ! b = 0) [0..<next]" "shared_free_list s = []"
  shows "recover f raw s = Inr (s\<lparr>page_map := m, block_ru_epochs := es, live_bytes := live2,
           block_states := states, shared_free_list := frees, free_blocks := int (length frees),
           next_unused_block := next\<rparr>)"
  using assms(1-10,17) unfolding recover_def Let_def assms(5,6,7) assms(11,12) assms(13)
  by (simp add: assms(14-16))

lemma cs_init_new: "n * PAGE_SIZE \<le> 2 ^ 48 \<Longrightarrow> cs_init (cs_new n p w, {})"
  by (auto simp: cs_init_def)

section \<open>Properties\<close>

text \<open>
  C16: Allocating a block never fails one of its checks and never returns a block in use.  In
  every state the threads can reach, a writer gets a free block that holds no live page, which
  is then open and in no free list; the only other outcome is that the space is exhausted, and
  then the writer's own list and the shared list are empty and every block was used before.
\<close>
theorem allocateBlock_fresh:
  assumes "reach cs_init cs_step (s, pages)" "is_writer tid s"
  shows "case allocateBlock tid s of
           Inr (b, s') \<Rightarrow> b < blocks_count s \<and> isFreeBlock b s \<and> block_states s' = (block_states s)[b := OPEN] \<and>
             (\<forall>l \<in> pages. cpid_block l \<noteq> b) \<and> b \<notin># lists_of s'
         | Inl e \<Rightarrow> e = OutOfSpace \<and> blocks_count s \<le> next_unused_block s \<and>
             writer_free_lists s ! nat tid = [] \<and> shared_free_list s = []"
proof -
  have inv: "pages_inv (s, pages)" by (rule space.reach_inv [OF assms(1)])
  then have "cs_inv s" by (simp add: pages_inv_def)
  note spec = allocateBlock_spec [OF this assms(2)]
  have "cpid_block l \<noteq> b" if "l \<in> pages" "isFreeBlock b s" for l b
    using inv that by (auto simp: pages_inv_def isFreeBlock_def)
  with spec show ?thesis by (auto split: sum.splits)
qed

theorem allocateBlock_fresh_witness:
  "\<exists>s'. allocateBlock 0 (cs_new 2 4 1) = Inr (0, s') \<and> 0 \<notin># lists_of s'"
proof -
  have "reach cs_init cs_step (cs_new 2 4 1, {})"
    by (intro reach_init cs_init_new) (simp add: PAGE_SIZE_def)
  moreover have "is_writer 0 (cs_new 2 4 1)" by (simp add: is_writer_def cs_new_def)
  moreover have "\<exists>s'. allocateBlock 0 (cs_new 2 4 1) = Inr (0, s')"
    by (simp add: allocateBlock_def is_writer_def cs_new_def open_block_def transition_def)
  ultimately show ?thesis using allocateBlock_fresh [of "cs_new 2 4 1" "{}" 0] by auto
qed

text \<open>
  C17: Freeing a live page never fails: in every reachable state the live bytes of a sealed block
  are exactly the lengths of the live pages packed into it, so that none of the double free
  checks fires, and the block is handed back precisely when its last live page is freed.
\<close>
theorem free_live_page:
  assumes "reach cs_init cs_step (s, pages)" "l \<in> pages" "thread_ok tid s"
  shows "\<exists>s'. cs_free tid l s = Inr s' \<and>
           (isFreeBlock (cpid_block l) s' \<longleftrightarrow> (\<forall>k \<in> pages - {l}. cpid_block k \<noteq> cpid_block l)) \<and>
           live_bytes s ! cpid_block l = int (\<Sum>k \<in> {k \<in> pages. cpid_block k = cpid_block l}. unat (cpid_length k))"
proof -
  have inv: "pages_inv (s, pages)" by (rule space.reach_inv [OF assms(1)])
  then have "live_bytes s ! cpid_block l = int (bytes_of pages (cpid_block l))"
    using assms(2) by (auto simp: pages_inv_def)
  with pages_inv_free [OF inv assms(2,3)] show ?thesis by (auto simp: bytes_of_def)
qed

lemma raw_block_example:
  "allocateRawBlock (cs_new 2 4 1) =
     Inr (0, (cs_new 2 4 1)\<lparr>next_unused_block := 1, block_states := [SEALED, FREE], live_bytes := [4096, 0]\<rparr>)"
  by code_simp

lemma raw_block_example_reach:
  "reach cs_init cs_step
     ((cs_new 2 4 1)\<lparr>next_unused_block := 1, block_states := [SEALED, FREE], live_bytes := [4096, 0]\<rparr>,
      {rawBlockLocation 0})"
proof -
  have "reach cs_init cs_step (cs_new 2 4 1, {})" by (intro reach_init cs_init_new) (simp add: PAGE_SIZE_def)
  from reach_step [OF this cs_raw [OF raw_block_example]] show ?thesis .
qed

theorem free_live_page_witness:
  "\<exists>s s'. allocateRawBlock (cs_new 2 4 1) = Inr (0, s) \<and> live_bytes s ! 0 = 4096 \<and>
     cs_free (- 1) (rawBlockLocation 0) s = Inr s' \<and> isFreeBlock 0 s'"
proof -
  have block: "cpid_block (rawBlockLocation 0) = 0"
    using cpid_parts(1) [of 0 PAGE_SIZE] by (simp add: rawBlockLocation_def PAGE_SIZE_def)
  from free_live_page [OF raw_block_example_reach, of "rawBlockLocation 0" "- 1"] raw_block_example block show ?thesis
    by (auto simp: thread_ok_def)
qed

text \<open>
  C18: A clean shutdown is recovered exactly.  When no block is being packed, the live bytes are
  the lengths of the mapped pages and of the raw blocks in use, and the identifiers from
  \<open>pids_end\<close> on were never written, then recovering the persisted map into a fresh space of
  the same size succeeds and gives back the page map, the live bytes, the block states and the
  RU epochs of the blocks, and a space that satisfies the invariant of allocation again.
\<close>
theorem persist_recover:
  assumes "cs_inv s" "\<forall>b < blocks_count s. block_states s ! b \<noteq> OPEN"
    "blocks_count s < 2 ^ 64" "logical_pages s < 2 ^ 64" "pids_end \<le> logical_pages s"
    "\<forall>pid < logical_pages s. pids_end \<le> pid \<longrightarrow> page_map s ! pid = 0"
    "\<forall>l \<in> set (page_map s). onSSD l \<longrightarrow> extent_ok l \<and> cpid_block l < min (next_unused_block s) (blocks_count s)"
    "distinct raw" "\<forall>b \<in> set raw. b < min (next_unused_block s) (blocks_count s) \<and> page_bytes (take pids_end (page_map s)) b = 0"
    "\<forall>b < blocks_count s. live_bytes s ! b =
        int (page_bytes (take pids_end (page_map s)) b) + (if b \<in> set raw then int PAGE_SIZE else 0)"
    "\<forall>e \<in> set (block_ru_epochs s). - (2 ^ 63) \<le> e \<and> e < 2 ^ 63"
    "\<forall>b < blocks_count s. next_unused_block s \<le> b \<longrightarrow> block_ru_epochs s ! b = UNMAPPED_RU_EPOCH"
  shows "\<exists>file s'. persist pids_end s = Inr file \<and>
           recover file raw (cs_new (blocks_count s) (logical_pages s) (writers_count s)) = Inr s' \<and>
           page_map s' = page_map s \<and> live_bytes s' = live_bytes s \<and> block_states s' = block_states s \<and>
           block_ru_epochs s' = block_ru_epochs s \<and> cs_inv s'"
proof -
  let ?n = "blocks_count s" and ?p = "logical_pages s" and ?e = pids_end
  let ?next = "min (next_unused_block s) ?n"
  let ?s0 = "cs_new ?n ?p (writers_count s)"
  let ?file = "[SPACE_MAP_MAGIC, of_nat ?n, of_nat ?p, of_nat ?next, of_nat ?e]
                @ take ?e (page_map s) @ map word_of_int (take ?next (block_ru_epochs s))"
  have sh: "length (page_map s) = ?p" "length (live_bytes s) = ?n" "length (block_states s) = ?n"
    "length (block_ru_epochs s) = ?n" and ok: "\<forall>b < ?n. block_ok s b"
    using assms(1) by (auto simp: cs_inv_def shape_def)
  have pf: "persist ?e s = Inr ?file" using assms(5) by (simp add: persist_def Let_def)
  have un: "unat (of_nat k :: u64) = k" if "k < 2 ^ 64" for k
    using that by (simp add: unat_of_nat take_bit_nat_eq_self)
  have hdr: "unat (?file ! 1) = ?n" "unat (?file ! 2) = ?p" "unat (?file ! 3) = ?next" "unat (?file ! 4) = ?e"
    "?file ! 0 = SPACE_MAP_MAGIC" "drop 5 ?file = take ?e (page_map s) @ map word_of_int (take ?next (block_ru_epochs s))"
    using un [of ?n] un [of ?p] un [of ?next] un [of ?e] assms(3-5) by simp_all
  let ?body = "take ?e (page_map s) @ map word_of_int (take ?next (block_ru_epochs s))"
  let ?map = "take ?e ?body @ drop ?e (page_map ?s0)"
  let ?epochs = "map sint (take ?next (drop ?e ?body)) @ drop ?next (block_ru_epochs ?s0)"
  have len: "length ?body = ?e + ?next" using sh assms(5) by simp
  have mp: "?map = page_map s"
  proof (rule nth_equalityI)
    show "length ?map = length (page_map s)" using sh assms(5) by (simp add: cs_new_def)
    fix i assume "i < length ?map"
    then have "i < ?p" using sh assms(5) by (simp add: cs_new_def)
    then show "?map ! i = page_map s ! i"
      using sh assms(5,6) by (cases "i < ?e") (auto simp: nth_append cs_new_def)
  qed
  have ep: "?epochs = block_ru_epochs s"
  proof (rule nth_equalityI)
    show "length ?epochs = length (block_ru_epochs s)" using sh assms(5) by (simp add: cs_new_def)
    fix i assume "i < length ?epochs"
    then have i: "i < ?n" using sh assms(5) by (simp add: cs_new_def)
    show "?epochs ! i = block_ru_epochs s ! i"
    proof (cases "i < ?next")
      case True
      have "- (2 ^ 63) \<le> block_ru_epochs s ! i \<and> block_ru_epochs s ! i < 2 ^ 63"
        using assms(11) sh i by (metis nth_mem)
      then have "sint (word_of_int (block_ru_epochs s ! i) :: u64) = block_ru_epochs s ! i"
        by (simp add: signed_of_int signed_take_bit_int_eq_self)
      then show ?thesis using True sh assms(5) i by (simp add: nth_append)
    next
      case False
      then show ?thesis using i sh assms(5,12) by (auto simp: nth_append cs_new_def)
    qed
  qed
  have live_le: "0 \<le> live_bytes s ! b \<and> live_bytes s ! b \<le> int PAGE_SIZE"
    "block_states s ! b = (if live_bytes s ! b = 0 then FREE else SEALED)"
    "next_unused_block s \<le> b \<Longrightarrow> live_bytes s ! b = 0" if "b < ?n" for b
    using ok that assms(2) by (auto simp: block_ok_def) (metis BlockState.exhaust less_irrefl)+
  obtain live1 where l1: "recover_pages ?next (take ?e (page_map s)) (replicate ?n 0) = Inr live1" "length live1 = ?n"
    "\<forall>b < ?n. live1 ! b = (if b < ?next then int (page_bytes (take ?e (page_map s)) b) else 0)"
  proof -
    have "int (page_bytes (take ?e (page_map s)) b) \<le> int PAGE_SIZE" if "b < ?next" for b
      using live_le(1) [of b] assms(10) that by (auto split: if_splits)
    with recover_pages_spec [of "take ?e (page_map s)" ?next "replicate ?n 0"] assms(7) that show thesis
      by (auto dest: in_set_takeD)
  qed
  obtain live2 where l2: "recover_raw ?next raw live1 = Inr live2" "length live2 = ?n"
    "\<forall>b < ?n. live2 ! b = (if b \<in> set raw then int PAGE_SIZE else live1 ! b)"
    using recover_raw_spec [OF assms(8), of ?next live1] assms(9) l1(2,3) by auto
  have live: "live2 = live_bytes s"
  proof (rule nth_equalityI)
    fix b assume "b < length live2"
    then have b: "b < ?n" using l2 by simp
    show "live2 ! b = live_bytes s ! b"
      using b l1(3) l2(3) assms(9,10) live_le(3) [OF b] by (cases "b < ?next") auto
  qed (use l2 sh in simp)
  have states: "map (\<lambda>b. if live_bytes s ! b = 0 then FREE else SEALED) [0..<?next] @ drop ?next (block_states ?s0) = block_states s"
    by (rule nth_equalityI) (use sh live_le in \<open>auto simp: nth_append cs_new_def\<close>)
  let ?frees = "filter (\<lambda>b. live_bytes s ! b = 0) [0..<?next]"
  let ?s' = "?s0\<lparr>page_map := page_map s, block_ru_epochs := block_ru_epochs s, live_bytes := live_bytes s,
               block_states := block_states s, shared_free_list := ?frees, free_blocks := int (length ?frees),
               next_unused_block := ?next\<rparr>"
  have rec: "recover ?file raw ?s0 = Inr ?s'"
    by (rule recover_eq [OF _ hdr(5) _ _ hdr(3,4,6) _ _ len mp ep _ l2(1) [unfolded live]])
       (use hdr(1,2) assms(5) l1(1) live states in \<open>simp_all add: cs_new_def\<close>)
  have fs: "free_set ?s' = set ?frees" using live_le by (auto simp: free_set_def cs_new_def split: if_splits)
  have "lists_of ?s' = mset_set (free_set ?s')" unfolding fs by (simp add: lists_of_def cs_new_def mset_set_set)
  moreover have "card (free_set ?s') = length ?frees" unfolding fs by (rule distinct_card) simp
  moreover have "block_ok ?s' b" if "b < ?n" for b
    using ok [rule_format, OF that, unfolded block_ok_def] that
    by (simp add: block_ok_def cs_new_def min_le_iff_disj)
  ultimately have inv: "cs_inv ?s'" using sh by (simp add: cs_inv_def shape_def cs_new_def)
  define f s' where "f = ?file" and "s' = ?s'"
  have "page_map s' = page_map s" "live_bytes s' = live_bytes s" "block_states s' = block_states s"
    "block_ru_epochs s' = block_ru_epochs s" by (simp_all add: s'_def)
  with pf [folded f_def] rec [folded f_def s'_def] inv [folded s'_def] show ?thesis by blast
qed

theorem persist_recover_witness:
  "\<exists>file s'. persist 0 ((cs_new 2 4 1)\<lparr>next_unused_block := 1, block_states := [SEALED, FREE], live_bytes := [4096, 0]\<rparr>)
       = Inr file \<and> recover file [0] (cs_new 2 4 1) = Inr s' \<and> live_bytes s' = [4096, 0]"
proof -
  let ?s = "(cs_new 2 4 1)\<lparr>next_unused_block := 1, block_states := [SEALED, FREE], live_bytes := [4096, 0]\<rparr>"
  have "cs_inv ?s" using space.reach_inv [OF raw_block_example_reach] by (simp add: pages_inv_def)
  moreover have "blocks_count ?s = 2" "logical_pages ?s = 4" "writers_count ?s = 1" by (simp_all add: cs_new_def)
  ultimately show ?thesis
    using persist_recover [of ?s 0 "[0]"]
    by (simp add: cs_new_def onSSD_def cpid_length_def PAGE_SIZE_def less_2_cases_iff UNMAPPED_RU_EPOCH_def nth_Cons') blast
qed

text \<open>
  The order of a writer's free list: \<^verbatim>\<open>reserveBlocks\<close> puts the blocks it takes
  in front of the writer's own ones and \<^verbatim>\<open>allocateBlock\<close> takes from the front,
  so the writer's own freed block (5 here) is not the one reused first.
\<close>

lemma reserveBlocks_order:
  "(case reserveBlocks 0 2 ((cs_new 8 8 1)\<lparr>next_unused_block := 8, free_blocks := 2,
           writer_free_lists := [[5]], shared_free_list := [7]\<rparr>) of
      Inr s \<Rightarrow> map_sum id fst (allocateBlock 0 s) = Inr 7
    | Inl _ \<Rightarrow> False)"
  by code_simp

end
