(* ===== verification/Block_Packer.thy ===== *)
theory Block_Packer
  imports Compressed_Space
begin

text \<open>
  Compressing pages and packing them into blocks: the namespace
  \<^verbatim>\<open>compression\<close> and the class \<^verbatim>\<open>BlockPacker\<close> of
  \<^verbatim>\<open>buffer-manager/CompressedSpace.cpp\<close>.  Pages and blocks are byte lists of
  length \<open>PAGE_SIZE\<close>.  The zstd library is a pair of parameters, \<open>ZC\<close> for
  \<^verbatim>\<open>ZSTD_compress2\<close> with the capacity of its destination and \<open>ZD\<close> for
  \<^verbatim>\<open>ZSTD_decompressDCtx\<close>; \<open>zstd_ok\<close> is what its documentation promises.
  The epoch that recording a block in the LBA chain returns is an argument as well,
  \<open>None\<close> when the packer has no chain.
\<close>

section \<open>Bytes\<close>

type_synonym bytes = "u8 list"

definition get64 :: "nat \<Rightarrow> bytes \<Rightarrow> u64" where
  "get64 off bs = le_word (take 8 (drop off bs))"

definition write_at :: "nat \<Rightarrow> bytes \<Rightarrow> bytes \<Rightarrow> bytes" where
  "write_at off img bs = take off bs @ img @ drop (off + length img) bs"

definition put64 :: "nat \<Rightarrow> u64 \<Rightarrow> bytes \<Rightarrow> bytes" where
  "put64 off x bs = write_at off (le_bytes 8 x) bs"

text \<open>The header of a page: \<^verbatim>\<open>BufferFrame::PageHeader\<close>.\<close>

definition magic_offset :: nat where "magic_offset = 24"
definition ru_epoch_offset :: nat where "ru_epoch_offset = 40"

section \<open>Compression\<close>

datatype zstd_error = dstSize_tooSmall | other_error

text \<open>
  The documented contract: a successful compression gives a non-empty frame within the capacity,
  and decompressing it gives the source back.  Which errors occur is left open.
\<close>

definition zstd_ok :: "(nat \<Rightarrow> bytes \<Rightarrow> zstd_error + bytes) \<Rightarrow> (bytes \<Rightarrow> bytes option) \<Rightarrow> bool" where
  "zstd_ok ZC ZD \<longleftrightarrow>
     (\<forall>cap x frame. ZC cap x = Inr frame \<longrightarrow> frame \<noteq> [] \<and> length frame \<le> cap \<and> ZD frame = Some x)"

definition header_size :: nat where "header_size = 16"
definition PID_MASK :: u64 where "PID_MASK = push_bit 48 1 - 1"

definition compressed_header :: "u64 \<Rightarrow> u64 \<Rightarrow> bytes" where
  "compressed_header ru_epoch pid_and_length = le_bytes 8 ru_epoch @ le_bytes 8 pid_and_length"

definition header_pid :: "bytes \<Rightarrow> PID" where
  "header_pid src = get64 8 src AND PID_MASK"

definition header_length :: "bytes \<Rightarrow> u32" where
  "header_length src = ucast (drop_bit 48 (get64 8 src))"

definition ruEpoch :: "bytes \<Rightarrow> u64" where
  "ruEpoch src = get64 0 src"

definition setRUEpoch :: "u64 \<Rightarrow> bytes \<Rightarrow> bytes" where
  "setRUEpoch ru_epoch src = put64 0 ru_epoch src"

definition compressPage :: "(nat \<Rightarrow> bytes \<Rightarrow> zstd_error + bytes) \<Rightarrow> bytes \<Rightarrow> cs_error + bytes" where
  "compressPage ZC page =
     (case ZC (PAGE_SIZE - 1 - header_size) page of
        Inl e \<Rightarrow> (if e = dstSize_tooSmall then Inr page else Inl EnsureFailed)
      | Inr frame \<Rightarrow>
          (let len = header_size + length frame; magic = get64 magic_offset page
           in if magic AND NOT PID_MASK \<noteq> 0 then Inl EnsureFailed
              else Inr (compressed_header (get64 ru_epoch_offset page) (push_bit 48 (of_nat len) OR magic) @ frame)))"

definition decompressPage :: "(bytes \<Rightarrow> bytes option) \<Rightarrow> bytes \<Rightarrow> cs_error + bytes" where
  "decompressPage ZD src =
     (if \<not> (0 < length src \<and> length src \<le> PAGE_SIZE) then Inl EnsureFailed
      else if length src = PAGE_SIZE then Inr src
      else if \<not> header_size < length src then Inl EnsureFailed
      else case ZD (drop header_size src) of
             None \<Rightarrow> Inl EnsureFailed
           | Some page \<Rightarrow> (if length page \<noteq> PAGE_SIZE then Inl EnsureFailed
                           else Inr (put64 ru_epoch_offset (ruEpoch src) page)))"

section \<open>The packer\<close>

record BlockPacker =
  p_blocks :: "bytes list"
  max_blocks :: nat
  p_count :: nat
  p_sealed :: bool
  block_ids :: "nat list"
  used :: "nat list"
  pages :: "nat list"
  in_place :: "bool list"
  p_ru_epochs :: "u64 list"

definition BlockPacker_new :: "bytes list \<Rightarrow> cs_error + BlockPacker" where
  "BlockPacker_new blocks =
     (if blocks = [] then Inl EnsureFailed
      else let n = length blocks
           in Inr \<lparr>p_blocks = blocks, max_blocks = n, p_count = 0, p_sealed = False,
                   block_ids = replicate n 0, used = replicate n 0, pages = replicate n 0,
                   in_place = replicate n False, p_ru_epochs = replicate n 0\<rparr>)"

definition packer_full :: "BlockPacker \<Rightarrow> bool" where
  "packer_full p \<longleftrightarrow> p_count p \<ge> max_blocks p"

definition recordBlock :: "u64 option \<Rightarrow> nat \<Rightarrow> BlockPacker \<Rightarrow> BlockPacker" where
  "recordBlock chain slot p =
     (case chain of None \<Rightarrow> p | Some e \<Rightarrow> p\<lparr>p_ru_epochs := (p_ru_epochs p)[slot := e]\<rparr>)"

text \<open>The loop of \<^verbatim>\<open>place\<close> that picks the fullest block the page fits in.\<close>

definition fits_in :: "nat \<Rightarrow> nat \<Rightarrow> BlockPacker \<Rightarrow> nat \<Rightarrow> bool" where
  "fits_in max_pages len p b_i \<longleftrightarrow> used p ! b_i + len \<le> PAGE_SIZE \<and> pages p ! b_i < max_pages"

fun pick_loop :: "nat \<Rightarrow> nat \<Rightarrow> BlockPacker \<Rightarrow> nat \<Rightarrow> nat" where
  "pick_loop max_pages len p 0 = p_count p"
| "pick_loop max_pages len p (Suc b_i) =
     (let slot = pick_loop max_pages len p b_i
      in if fits_in max_pages len p b_i \<and> (slot = p_count p \<or> used p ! b_i > used p ! slot) then b_i else slot)"

definition pick_slot :: "nat \<Rightarrow> nat \<Rightarrow> BlockPacker \<Rightarrow> nat" where
  "pick_slot max_pages len p = pick_loop max_pages len p (p_count p)"

definition blockOffset :: "BlockPacker \<Rightarrow> nat \<Rightarrow> nat" where
  "blockOffset p slot = block_ids p ! slot * PAGE_SIZE"

text \<open>
  \<^verbatim>\<open>place\<close> with the scratch buffer's \<open>length\<close> bytes as \<open>img\<close>; the result is
  the location, the epoch the page is written to, the packer and the space.
\<close>

definition place ::
  "nat \<Rightarrow> int \<Rightarrow> u64 option \<Rightarrow> bytes \<Rightarrow> u64 \<Rightarrow> BlockPacker \<times> CompressedSpace \<Rightarrow>
   cs_error + PID \<times> u64 \<times> BlockPacker \<times> CompressedSpace" where
  "place max_pages tid chain img ru_epoch st =
     (let (p, s) = st; len = length img; slot = pick_slot max_pages len p;
          opened =
            (if slot = p_count p then
               (if packer_full p then Inl EnsureFailed
                else case allocateBlock tid s of
                       Inl e \<Rightarrow> Inl e
                     | Inr (block, s') \<Rightarrow>
                         Inr ((recordBlock chain slot
                                (p\<lparr>block_ids := (block_ids p)[slot := block], used := (used p)[slot := 0],
                                   pages := (pages p)[slot := 0], in_place := (in_place p)[slot := False]\<rparr>))
                              \<lparr>p_count := p_count p + 1\<rparr>, s'))
             else Inr (p, s))
      in case opened of
           Inl e \<Rightarrow> Inl e
         | Inr (p1, s1) \<Rightarrow>
             (let (epoch, img1) =
                    (case chain of
                       None \<Rightarrow> (ru_epoch, img)
                     | Some _ \<Rightarrow>
                         (let e = p_ru_epochs p1 ! slot
                          in (e, if len = PAGE_SIZE then put64 ru_epoch_offset e img else setRUEpoch e img)));
                  off = used p1 ! slot;
                  loc = cpid_make (of_nat (blockOffset p1 slot + off)) (of_nat len);
                  p2 = p1\<lparr>p_blocks := (p_blocks p1)[slot := write_at off img1 (p_blocks p1 ! slot)],
                          used := (used p1)[slot := off + len],
                          pages := (pages p1)[slot := pages p1 ! slot + 1]\<rparr>;
                  s2 = s1\<lparr>written_pages := written_pages s1 + 1,
                          written_compressed_bytes := written_compressed_bytes s1 + len\<rparr>
              in Inr (loc, epoch, p2, s2)))"

definition packer_add ::
  "(nat \<Rightarrow> bytes \<Rightarrow> zstd_error + bytes) \<Rightarrow> nat \<Rightarrow> int \<Rightarrow> u64 option \<Rightarrow> bytes \<Rightarrow> bool \<Rightarrow> PID \<Rightarrow>
   BlockPacker \<times> CompressedSpace \<Rightarrow> cs_error + PID \<times> u64 \<times> BlockPacker \<times> CompressedSpace" where
  "packer_add ZC max_pages tid chain page compress current_location st =
     (let (p, s) = st; ru_epoch = get64 ru_epoch_offset page
      in if p_sealed p then Inl EnsureFailed
         else if \<not> compress \<and> unat (cpid_length current_location) = PAGE_SIZE then
           (if packer_full p then Inl EnsureFailed
            else
              let slot = p_count p;
                  p1 = recordBlock chain slot
                         (p\<lparr>p_count := slot + 1, block_ids := (block_ids p)[slot := cpid_block current_location],
                            used := (used p)[slot := PAGE_SIZE], pages := (pages p)[slot := 1],
                            in_place := (in_place p)[slot := True]\<rparr>);
                  (epoch, page1) =
                    (case chain of None \<Rightarrow> (ru_epoch, page)
                     | Some _ \<Rightarrow> (let e = p_ru_epochs p1 ! slot in (e, put64 ru_epoch_offset e page)));
                  p2 = p1\<lparr>p_blocks := (p_blocks p1)[slot := page1]\<rparr>;
                  s1 = s\<lparr>written_pages := written_pages s + 1,
                         written_compressed_bytes := written_compressed_bytes s + PAGE_SIZE\<rparr>
              in Inr (current_location, epoch, p2, s1))
         else if compress then
           (case compressPage ZC page of
              Inl e \<Rightarrow> Inl e
            | Inr img \<Rightarrow> place max_pages tid chain img ru_epoch (p, s))
         else place max_pages tid chain page ru_epoch (p, s))"

definition addVerbatim ::
  "nat \<Rightarrow> int \<Rightarrow> u64 option \<Rightarrow> bytes \<Rightarrow> BlockPacker \<times> CompressedSpace \<Rightarrow>
   cs_error + PID \<times> u64 \<times> BlockPacker \<times> CompressedSpace" where
  "addVerbatim max_pages tid chain src st =
     (let (p, s) = st
      in if p_sealed p then Inl EnsureFailed
         else if \<not> (0 < length src \<and> length src \<le> PAGE_SIZE) then Inl EnsureFailed
         else
           let ru_epoch = (if length src = PAGE_SIZE then get64 ru_epoch_offset src else ruEpoch src)
           in place max_pages tid chain src ru_epoch (p, s))"

fun seal_loop :: "nat \<Rightarrow> BlockPacker \<times> CompressedSpace \<Rightarrow> cs_error + BlockPacker \<times> CompressedSpace" where
  "seal_loop 0 st = Inr st"
| "seal_loop (Suc n) st =
     (case seal_loop n st of
        Inl e \<Rightarrow> Inl e
      | Inr (p, s) \<Rightarrow>
          (let p1 = p\<lparr>p_blocks := (p_blocks p)
                        [n := write_at (used p ! n) (replicate (PAGE_SIZE - used p ! n) 0) (p_blocks p ! n)]\<rparr>
           in if in_place p ! n then Inr (p1, s)
              else case sealBlock (block_ids p ! n) (used p ! n) s of
                     Inl e \<Rightarrow> Inl e
                   | Inr s1 \<Rightarrow> Inr (p1, s1)))"

definition packer_seal :: "BlockPacker \<times> CompressedSpace \<Rightarrow> cs_error + BlockPacker \<times> CompressedSpace" where
  "packer_seal st =
     (if p_sealed (fst st) then Inr st
      else case seal_loop (p_count (fst st)) st of
             Inl e \<Rightarrow> Inl e
           | Inr (p, s) \<Rightarrow> Inr (p\<lparr>p_sealed := True\<rparr>, s))"

definition packer_reset :: "BlockPacker \<times> CompressedSpace \<Rightarrow> cs_error + BlockPacker \<times> CompressedSpace" where
  "packer_reset st =
     (let (p, s) = st
      in if \<not> (p_sealed p \<or> p_count p = 0) then Inl EnsureFailed
         else Inr (p\<lparr>p_count := 0, p_sealed := False\<rparr>,
                   s\<lparr>written_blocks := written_blocks s + p_count p\<rparr>))"

section \<open>Reads and writes of byte ranges\<close>

definition read_at :: "nat \<Rightarrow> nat \<Rightarrow> bytes \<Rightarrow> bytes" where
  "read_at off n bs = take n (drop off bs)"

lemma length_write_at [simp]: "off + length img \<le> length bs \<Longrightarrow> length (write_at off img bs) = length bs"
  by (simp add: write_at_def)

lemma read_write_same: "off + length img \<le> length bs \<Longrightarrow> read_at off (length img) (write_at off img bs) = img"
  by (simp add: write_at_def read_at_def)

lemma read_write_before:
  assumes "o' + n \<le> off" "off \<le> length bs"
  shows "read_at o' n (write_at off img bs) = read_at o' n bs"
proof -
  have "take (n + o') (write_at off img bs) = take (n + o') bs" using assms by (simp add: write_at_def min_def)
  then show ?thesis by (simp only: read_at_def take_drop)
qed

lemma read_write_after:
  assumes "off + length img \<le> o'" "o' \<le> length bs"
  shows "read_at o' n (write_at off img bs) = read_at o' n bs"
proof -
  have "drop o' (write_at off img bs) = drop o' bs" using assms by (simp add: write_at_def)
  then show ?thesis by (simp add: read_at_def)
qed

lemma get64_put64: "off + 8 \<le> length bs \<Longrightarrow> get64 off (put64 off x bs) = x"
  using read_write_same [of off "le_bytes 8 x" bs]
  by (simp add: get64_def put64_def read_at_def le_word_le_bytes)

lemma put64_get64: "off + 8 \<le> length bs \<Longrightarrow> put64 off (get64 off bs) bs = bs"
proof -
  assume "off + 8 \<le> length bs"
  then have "le_bytes 8 (get64 off bs) = take 8 (drop off bs)" unfolding get64_def by (intro le_bytes_le_word) simp_all
  then show ?thesis using \<open>off + 8 \<le> length bs\<close>
    by (simp add: put64_def write_at_def) (metis append_take_drop_id drop_drop add.commute)
qed

lemma put64_put64: "off + 8 \<le> length bs \<Longrightarrow> put64 off y (put64 off x bs) = put64 off y bs"
  by (simp add: put64_def write_at_def)

lemma length_put64 [simp]: "off + 8 \<le> length bs \<Longrightarrow> length (put64 off x bs) = length bs"
  by (simp add: put64_def)

section \<open>Compression round trip\<close>

lemma length_compressed_header [simp]: "length (compressed_header e w) = header_size"
  by (simp add: compressed_header_def header_size_def)

lemma drop_compressed_header [simp]: "drop header_size (compressed_header e w @ frame) = frame"
  by (metis append_eq_conv_conj length_compressed_header)

lemma get64_header [simp]:
  "get64 0 (compressed_header e w @ frame) = e" "get64 8 (compressed_header e w @ frame) = w"
  by (simp_all add: get64_def compressed_header_def le_word_le_bytes)

lemma setRUEpoch_header [simp]: "setRUEpoch e' (compressed_header e w @ frame) = compressed_header e' w @ frame"
  by (simp add: setRUEpoch_def put64_def write_at_def compressed_header_def)

lemma header_fields:
  assumes "magic AND NOT PID_MASK = 0" "len < 2 ^ 16"
  shows "(push_bit 48 (of_nat len) OR magic) AND PID_MASK = magic"
    "unat (ucast (drop_bit 48 (push_bit 48 (of_nat len :: u64) OR magic)) :: u32) = len"
proof -
  have m: "bit PID_MASK n \<longleftrightarrow> n < 48" for n unfolding PID_MASK_def bit_exp_minus_1 by auto
  have "fits 48 magic"
    using assms(1) unfolding PID_MASK_def exp_minus_1_eq_mask and_not_mask_eq_0_iff_fits .
  note small = fits_bitD [OF this]
  have "take_bit 16 len = len" using assms(2) by (simp add: take_bit_nat_eq_self)
  then have lsmall: "bit len n \<Longrightarrow> n < 16" for n by (metis bit_take_bit_iff)
  show "(push_bit 48 (of_nat len) OR magic) AND PID_MASK = magic"
    unfolding word_eq_iff_bit by (auto simp: bit_simps m dest: small)
  have "(ucast (drop_bit 48 (push_bit 48 (of_nat len :: u64) OR magic)) :: u32) = of_nat len"
    unfolding word_eq_iff_bit
    by (auto simp: bit_simps dest: small lsmall)
  then show "unat (ucast (drop_bit 48 (push_bit 48 (of_nat len :: u64) OR magic)) :: u32) = len"
    using assms(2) by (simp add: unat_of_nat take_bit_nat_eq_self)
qed

lemma compressPage_cases:
  assumes "zstd_ok ZC ZD" "length page = PAGE_SIZE" "compressPage ZC page = Inr img"
  obtains (raw) "img = page"
  | (packed) frame w where "img = compressed_header (get64 ru_epoch_offset page) w @ frame"
      "w = push_bit 48 (of_nat (header_size + length frame)) OR get64 magic_offset page" "get64 magic_offset page AND NOT PID_MASK = 0"
      "frame \<noteq> []" "length img < PAGE_SIZE" "ZD frame = Some page"
proof (cases "ZC (PAGE_SIZE - 1 - header_size) page")
  case (Inl e)
  then show thesis using assms(3) raw by (auto simp: compressPage_def split: if_splits)
next
  case (Inr frame)
  have ok: "frame \<noteq> []" "length frame \<le> PAGE_SIZE - 1 - header_size" "ZD frame = Some page"
    using assms(1) [unfolded zstd_ok_def, rule_format, OF Inr] by simp_all
  have "length img = header_size + length frame"
    using assms(3) Inr by (auto simp: compressPage_def Let_def split: if_splits)
  with ok assms(3) Inr show thesis
    by (intro packed) (auto simp: compressPage_def Let_def header_size_def PAGE_SIZE_def split: if_splits)
qed

lemma decompress_header:
  assumes "ZD frame = Some page" "length page = PAGE_SIZE" "frame \<noteq> []" "header_size + length frame < PAGE_SIZE"
  shows "decompressPage ZD (compressed_header e w @ frame) = Inr (put64 ru_epoch_offset e page)"
  using assms by (simp add: decompressPage_def ruEpoch_def)

lemma compress_roundtrip_aux:
  assumes "zstd_ok ZC ZD" "length page = PAGE_SIZE" "compressPage ZC page = Inr img"
  shows "0 < length img" "length img \<le> PAGE_SIZE" "decompressPage ZD img = Inr page"
    "length img < PAGE_SIZE \<Longrightarrow> decompressPage ZD (setRUEpoch e img) = Inr (put64 ru_epoch_offset e page)"
    "length img < PAGE_SIZE \<Longrightarrow> 8 \<le> length img"
proof -
  have self: "put64 ru_epoch_offset (get64 ru_epoch_offset page) page = page"
    using assms(2) by (intro put64_get64) (simp add: ru_epoch_offset_def PAGE_SIZE_def)
  from assms have "0 < length img \<and> length img \<le> PAGE_SIZE \<and> decompressPage ZD img = Inr page \<and>
    (length img < PAGE_SIZE \<longrightarrow> decompressPage ZD (setRUEpoch e img) = Inr (put64 ru_epoch_offset e page) \<and> 8 \<le> length img)"
  proof (cases rule: compressPage_cases)
    case raw
    then show ?thesis using assms(2) by (simp add: decompressPage_def PAGE_SIZE_def)
  next
    case (packed frame w)
    then show ?thesis
      using decompress_header [of ZD frame page] assms(2) self by (simp add: header_size_def)
  qed
  then show "0 < length img" "length img \<le> PAGE_SIZE" "decompressPage ZD img = Inr page"
    "length img < PAGE_SIZE \<Longrightarrow> decompressPage ZD (setRUEpoch e img) = Inr (put64 ru_epoch_offset e page)"
    "length img < PAGE_SIZE \<Longrightarrow> 8 \<le> length img" by auto
qed

section \<open>What the packer has stored\<close>

text \<open>
  \<open>stored\<close> lists the images placed so far: slot, offset in the block and bytes.
\<close>

type_synonym placed = "nat \<times> nat \<times> bytes"

definition packer_shape :: "BlockPacker \<Rightarrow> bool" where
  "packer_shape p \<longleftrightarrow>
     length (p_blocks p) = max_blocks p \<and> length (block_ids p) = max_blocks p \<and> length (used p) = max_blocks p \<and>
     length (pages p) = max_blocks p \<and> length (in_place p) = max_blocks p \<and> length (p_ru_epochs p) = max_blocks p \<and>
     p_count p \<le> max_blocks p \<and> (\<forall>blk \<in> set (p_blocks p). length blk = PAGE_SIZE)"

definition placed_ok :: "BlockPacker \<Rightarrow> placed \<Rightarrow> bool" where
  "placed_ok p e \<longleftrightarrow>
     (case e of (slot, off, img) \<Rightarrow>
        slot < p_count p \<and> off + length img \<le> used p ! slot \<and> read_at off (length img) (p_blocks p ! slot) = img)"

definition packer_inv :: "BlockPacker \<Rightarrow> placed list \<Rightarrow> bool" where
  "packer_inv p stored \<longleftrightarrow>
     packer_shape p \<and> (\<forall>slot < p_count p. used p ! slot \<le> PAGE_SIZE) \<and>
     (\<forall>e \<in> set stored. placed_ok p e) \<and>
     sorted_wrt (\<lambda>(s1, o1, i1) (s2, o2, i2). s1 = s2 \<longrightarrow> o1 + length i1 \<le> o2) stored"

lemma pick_loop_spec:
  assumes "n \<le> p_count p"
  shows "pick_loop mp len p n = p_count p \<and> (\<forall>i < n. \<not> fits_in mp len p i) \<or>
         pick_loop mp len p n < n \<and> fits_in mp len p (pick_loop mp len p n) \<and>
           (\<forall>i < n. fits_in mp len p i \<longrightarrow> used p ! i \<le> used p ! pick_loop mp len p n)"
  using assms
proof (induction n)
  case (Suc n)
  then show ?case by (auto simp: Let_def less_Suc_eq)
qed simp

text \<open>
  Writing an image at the end of the used part of a slot keeps everything stored before.
\<close>

lemma packer_inv_write:
  fixes k :: nat
  assumes "packer_inv p stored" "slot < p_count p" "used p ! slot + length img \<le> PAGE_SIZE"
  defines "p' \<equiv> p\<lparr>p_blocks := (p_blocks p)[slot := write_at (used p ! slot) img (p_blocks p ! slot)],
                  used := (used p)[slot := used p ! slot + length img], pages := (pages p)[slot := k]\<rparr>"
  shows "packer_inv p' (stored @ [(slot, used p ! slot, img)])"
proof -
  have sh: "packer_shape p" and slot: "slot < max_blocks p" "length (p_blocks p) = max_blocks p" "length (used p) = max_blocks p"
    using assms(1,2) by (auto simp: packer_inv_def packer_shape_def)
  have blk: "length (p_blocks p ! slot) = PAGE_SIZE" using sh slot by (auto simp: packer_shape_def)
  have "packer_shape p'"
    using sh slot blk assms(3) by (auto simp: packer_shape_def p'_def dest!: set_update_subset_insert [THEN subsetD])
  moreover have "placed_ok p' e" if "e \<in> set stored" for e
  proof -
    obtain s off i where e: "e = (s, off, i)" by (cases e)
    have ok: "s < p_count p" "off + length i \<le> used p ! s" "read_at off (length i) (p_blocks p ! s) = i"
      using assms(1) that e by (auto simp: packer_inv_def placed_ok_def)
    show ?thesis
    proof (cases "s = slot")
      case True
      with ok slot assms(3) blk show ?thesis
        by (simp add: e placed_ok_def p'_def read_write_before)
    next
      case False
      with ok slot show ?thesis by (simp add: e placed_ok_def p'_def)
    qed
  qed
  moreover have "placed_ok p' (slot, used p ! slot, img)"
    using assms(2,3) slot blk by (simp add: placed_ok_def p'_def read_write_same)
  moreover have "\<forall>e \<in> set stored. case e of (s1, o1, i1) \<Rightarrow> s1 = slot \<longrightarrow> o1 + length i1 \<le> used p ! slot"
    using assms(1) by (auto simp: packer_inv_def placed_ok_def)
  moreover have "\<forall>i < p_count p. used p' ! i \<le> PAGE_SIZE"
    using assms(1,3) slot by (auto simp: packer_inv_def p'_def nth_list_update)
  ultimately show ?thesis
    using assms(1) unfolding packer_inv_def
    by (auto simp: sorted_wrt_append p'_def split: prod.splits)
qed

text \<open>Taking a new slot.\<close>

lemma packer_inv_new_slot:
  assumes "packer_inv p stored" "\<not> packer_full p"
    "p_count p' = p_count p + 1" "max_blocks p' = max_blocks p" "p_blocks p' = p_blocks p"
    "block_ids p' = (block_ids p)[p_count p := b]" "used p' = (used p)[p_count p := 0]"
    "length (pages p') = length (pages p)" "length (in_place p') = length (in_place p)"
    "length (p_ru_epochs p') = length (p_ru_epochs p)"
  shows "packer_inv p' stored \<and> used p' ! p_count p = 0 \<and> block_ids p' ! p_count p = b"
proof -
  have lt: "p_count p < max_blocks p" using assms(2) by (simp add: packer_full_def)
  have sh: "packer_shape p" using assms(1) by (simp add: packer_inv_def)
  have "packer_shape p'" using sh lt assms(3-) by (simp add: packer_shape_def)
  moreover have "placed_ok p' e" if "e \<in> set stored" for e
    using assms(1) that sh assms(3-7) by (auto simp: packer_inv_def placed_ok_def split: prod.splits)
  moreover have "\<forall>i < p_count p'. used p' ! i \<le> PAGE_SIZE"
    using assms(1,3,7) sh lt by (auto simp: packer_inv_def packer_shape_def nth_list_update less_Suc_eq)
  ultimately show ?thesis using assms(1,6,7) sh lt by (simp add: packer_inv_def packer_shape_def)
qed

definition ids_ok :: "BlockPacker \<Rightarrow> CompressedSpace \<Rightarrow> bool" where
  "ids_ok p s \<longleftrightarrow> (\<forall>slot < p_count p. block_ids p ! slot < blocks_count s)"

lemma cs_inv_stats [simp]:
  "cs_inv (s\<lparr>written_pages := a, written_compressed_bytes := b\<rparr>) \<longleftrightarrow> cs_inv s"
  "cs_inv (s\<lparr>written_blocks := c\<rparr>) \<longleftrightarrow> cs_inv s"
  by (simp_all add: cs_inv_def shape_def block_ok_def lists_of_def free_set_def)

lemma recordBlock_simps [simp]:
  "p_count (recordBlock chain slot p) = p_count p" "max_blocks (recordBlock chain slot p) = max_blocks p"
  "p_blocks (recordBlock chain slot p) = p_blocks p" "block_ids (recordBlock chain slot p) = block_ids p"
  "used (recordBlock chain slot p) = used p" "pages (recordBlock chain slot p) = pages p"
  "in_place (recordBlock chain slot p) = in_place p" "p_sealed (recordBlock chain slot p) = p_sealed p"
  "length (p_ru_epochs (recordBlock chain slot p)) = length (p_ru_epochs p)"
  by (simp_all add: recordBlock_def split: option.splits)

text \<open>The image that is written: with a chain, its epoch is the one of the block.\<close>

definition stamped :: "u64 option \<Rightarrow> u64 \<Rightarrow> bytes \<Rightarrow> bytes" where
  "stamped chain e img =
     (case chain of None \<Rightarrow> img
      | Some _ \<Rightarrow> if length img = PAGE_SIZE then put64 ru_epoch_offset e img else setRUEpoch e img)"

lemma length_stamped:
  "length img = PAGE_SIZE \<or> 8 \<le> length img \<Longrightarrow> length (stamped chain e img) = length img"
  by (auto simp: stamped_def setRUEpoch_def ru_epoch_offset_def PAGE_SIZE_def split: option.splits)

text \<open>The part of \<^verbatim>\<open>place\<close> after a slot is chosen.\<close>

lemma place_tail:
  assumes "packer_inv p stored" "ids_ok p s" "blocks_count s * PAGE_SIZE \<le> 2 ^ 48" "slot < p_count p"
    "0 < length img" "used p ! slot + length img \<le> PAGE_SIZE"
    "loc = cpid_make (of_nat (blockOffset p slot + used p ! slot)) (of_nat (length img))"
  shows "cpid_block loc = block_ids p ! slot" "offsetInBlock loc = used p ! slot" "unat (cpid_length loc) = length img"
proof -
  let ?b = "block_ids p ! slot" and ?o = "used p ! slot"
  have o: "?o < PAGE_SIZE" using assms(5,6) by linarith
  have "?b + 1 \<le> blocks_count s" using assms(2,4) by (auto simp: ids_ok_def)
  then have "(?b + 1) * PAGE_SIZE \<le> blocks_count s * PAGE_SIZE" by (rule mult_le_mono1)
  then have addr: "?b * PAGE_SIZE + ?o < 2 ^ 48" using o assms(3) by simp
  have len: "length img < 2 ^ 13" using assms(6) by (simp add: PAGE_SIZE_def)
  have dm: "(?b * PAGE_SIZE + ?o) div PAGE_SIZE = ?b" "(?b * PAGE_SIZE + ?o) mod PAGE_SIZE = ?o"
    using o by (simp_all add: PAGE_SIZE_def)
  show "cpid_block loc = block_ids p ! slot" "offsetInBlock loc = used p ! slot" "unat (cpid_length loc) = length img"
    unfolding assms(7) blockOffset_def cpid_parts [OF addr len] dm by simp_all
qed

lemma place_stores:
  assumes "packer_inv p stored" "ids_ok p s" "cs_inv s" "blocks_count s * PAGE_SIZE \<le> 2 ^ 48"
    "0 < length img" "length img \<le> PAGE_SIZE" "length img = PAGE_SIZE \<or> 8 \<le> length img"
    "place mp tid chain img e (p, s) = Inr (loc, epoch, p', s')"
  shows "\<exists>slot. packer_inv p' (stored @ [(slot, offsetInBlock loc, stamped chain epoch img)]) \<and>
           block_ids p' ! slot = cpid_block loc \<and> unat (cpid_length loc) = length img \<and>
           (\<forall>i < p_count p. block_ids p' ! i = block_ids p ! i) \<and> p_count p \<le> p_count p' \<and>
           ids_ok p' s' \<and> cs_inv s' \<and> blocks_count s' = blocks_count s \<and>
           (chain = None \<longrightarrow> epoch = e) \<and> p_sealed p' = p_sealed p"
proof -
  let ?slot = "pick_slot mp (length img) p"
  obtain p1 s1 where open1: "packer_inv p1 stored" "ids_ok p1 s1" "cs_inv s1" "blocks_count s1 = blocks_count s"
    "?slot < p_count p1" "used p1 ! ?slot + length img \<le> PAGE_SIZE" "\<forall>i < p_count p. block_ids p1 ! i = block_ids p ! i"
    "p_count p \<le> p_count p1" "p_sealed p1 = p_sealed p"
    and eq: "place mp tid chain img e (p, s) =
      (let (epoch, img1) = (case chain of None \<Rightarrow> (e, img)
              | Some _ \<Rightarrow> (p_ru_epochs p1 ! ?slot, stamped chain (p_ru_epochs p1 ! ?slot) img));
           off = used p1 ! ?slot
       in Inr (cpid_make (of_nat (blockOffset p1 ?slot + off)) (of_nat (length img)), epoch,
               p1\<lparr>p_blocks := (p_blocks p1)[?slot := write_at off img1 (p_blocks p1 ! ?slot)],
                  used := (used p1)[?slot := off + length img], pages := (pages p1)[?slot := pages p1 ! ?slot + 1]\<rparr>,
               s1\<lparr>written_pages := written_pages s1 + 1, written_compressed_bytes := written_compressed_bytes s1 + length img\<rparr>))"
  proof (cases "?slot = p_count p")
    case False
    then have "?slot < p_count p" "fits_in mp (length img) p ?slot"
      using pick_loop_spec [of "p_count p" p mp "length img"] by (auto simp: pick_slot_def)
    then show thesis
      using that [of p s] assms(1-4) False
      by (auto simp: fits_in_def place_def Let_def stamped_def split: option.splits)
  next
    case True
    have nf: "\<not> packer_full p" using assms(8) True by (auto simp: place_def Let_def split: if_splits)
    obtain b s1 where al: "allocateBlock tid s = Inr (b, s1)"
      using assms(8) True nf by (auto simp: place_def Let_def split: sum.splits)
    then have w: "is_writer tid s" by (auto simp: allocateBlock_def split: if_splits)
    from allocateBlock_spec [OF assms(3) w] al
    have b: "cs_inv s1" "b < blocks_count s" "blocks_count s1 = blocks_count s" by auto
    let ?p1 = "(recordBlock chain ?slot
                  (p\<lparr>block_ids := (block_ids p)[?slot := b], used := (used p)[?slot := 0],
                     pages := (pages p)[?slot := 0], in_place := (in_place p)[?slot := False]\<rparr>))\<lparr>p_count := p_count p + 1\<rparr>"
    have new: "packer_inv ?p1 stored \<and> used ?p1 ! p_count p = 0 \<and> block_ids ?p1 ! p_count p = b"
      by (rule packer_inv_new_slot [OF assms(1) nf]) (simp_all add: True)
    have "ids_ok ?p1 s1" using new b assms(2) by (auto simp: ids_ok_def True less_Suc_eq nth_list_update)
    then show thesis
      using that [of ?p1 s1] new b assms(6) nf True al
      by (auto simp: place_def Let_def stamped_def split: option.splits)
  qed
  define ep where "ep = (case chain of None \<Rightarrow> e | Some _ \<Rightarrow> p_ru_epochs p1 ! ?slot)"
  have img1: "length (stamped chain ep img) = length img" using assms(7) by (rule length_stamped)
  let ?loc = "cpid_make (of_nat (blockOffset p1 ?slot + used p1 ! ?slot)) (of_nat (length img))"
  let ?p2 = "p1\<lparr>p_blocks := (p_blocks p1)[?slot := write_at (used p1 ! ?slot) (stamped chain ep img) (p_blocks p1 ! ?slot)],
                 used := (used p1)[?slot := used p1 ! ?slot + length img], pages := (pages p1)[?slot := pages p1 ! ?slot + 1]\<rparr>"
  have res: "loc = ?loc" "epoch = ep" "p' = ?p2"
    "s' = s1\<lparr>written_pages := written_pages s1 + 1, written_compressed_bytes := written_compressed_bytes s1 + length img\<rparr>"
    using assms(8) unfolding eq ep_def by (auto simp: stamped_def Let_def split: option.splits)
  have bc: "blocks_count s1 * PAGE_SIZE \<le> 2 ^ 48" using assms(4) open1(4) by simp
  note parts = place_tail [OF open1(1,2) bc open1(5) assms(5) open1(6) res(1)]
  have "packer_inv ?p2 (stored @ [(?slot, used p1 ! ?slot, stamped chain ep img)])"
    using packer_inv_write [OF open1(1,5), of "stamped chain ep img"] open1(6) img1 by simp
  then show ?thesis
    using parts open1 res img1 by (intro exI [of _ ?slot]) (auto simp: ids_ok_def ep_def)
qed

section \<open>Batches\<close>

text \<open>
  A batch of a packer: pages are added, compressed or not, or copied as they are stored, other
  threads use the space meanwhile, and the batch is sealed.  The log keeps for every page added
  its location and the page it has to read back as, which is the page with the epoch the packer
  reports.  \<open>mp\<close> is \<^verbatim>\<open>FLAGS_compression_max_pages_per_block\<close>.
\<close>

inductive batch_step ::
  "(nat \<Rightarrow> bytes \<Rightarrow> zstd_error + bytes) \<Rightarrow> (bytes \<Rightarrow> bytes option) \<Rightarrow> nat \<Rightarrow>
   (BlockPacker \<times> CompressedSpace) \<times> (PID \<times> bytes) list \<Rightarrow>
   (BlockPacker \<times> CompressedSpace) \<times> (PID \<times> bytes) list \<Rightarrow> bool"
  for ZC :: "nat \<Rightarrow> bytes \<Rightarrow> zstd_error + bytes" and ZD :: "bytes \<Rightarrow> bytes option" and mp :: nat where
  batch_add: "packer_add ZC mp tid chain page compress cur st = Inr (loc, e, st') \<Longrightarrow> length page = PAGE_SIZE \<Longrightarrow>
     extent_ok cur \<and> cpid_block cur < blocks_count (snd st) \<or> cpid_length cur = 0 \<Longrightarrow>
     batch_step ZC ZD mp (st, log) (st', log @ [(loc, put64 ru_epoch_offset e page)])"
| batch_verbatim: "addVerbatim mp tid chain src st = Inr (loc, e, st') \<Longrightarrow> compressPage ZC page = Inr src0 \<Longrightarrow>
     length page = PAGE_SIZE \<Longrightarrow> src = src0 \<or> length src0 < PAGE_SIZE \<and> src = setRUEpoch e0 src0 \<Longrightarrow>
     batch_step ZC ZD mp (st, log) (st', log @ [(loc, put64 ru_epoch_offset e page)])"
| batch_other: "cs_inv s' \<Longrightarrow> blocks_count s' = blocks_count s \<Longrightarrow>
     batch_step ZC ZD mp ((p, s), log) ((p, s'), log)"
| batch_seal: "packer_seal st = Inr st' \<Longrightarrow> batch_step ZC ZD mp (st, log) (st', log)"

definition batch_init :: "(BlockPacker \<times> CompressedSpace) \<times> (PID \<times> bytes) list \<Rightarrow> bool" where
  "batch_init st \<longleftrightarrow>
     (case st of ((p, s), log) \<Rightarrow>
        packer_shape p \<and> p_count p = 0 \<and> cs_inv s \<and> blocks_count s * PAGE_SIZE \<le> 2 ^ 48 \<and> log = [])"

text \<open>What the device returns for a location: the bytes of the block buffer that was written.\<close>

definition logged_ok :: "(bytes \<Rightarrow> bytes option) \<Rightarrow> BlockPacker \<Rightarrow> placed \<Rightarrow> PID \<times> bytes \<Rightarrow> bool" where
  "logged_ok ZD p e entry \<longleftrightarrow>
     (case (e, entry) of ((slot, off, img), (loc, page)) \<Rightarrow>
        block_ids p ! slot = cpid_block loc \<and> off = offsetInBlock loc \<and>
        length img = unat (cpid_length loc) \<and> decompressPage ZD img = Inr page)"

definition batch_inv :: "(bytes \<Rightarrow> bytes option) \<Rightarrow> (BlockPacker \<times> CompressedSpace) \<times> (PID \<times> bytes) list \<Rightarrow> bool" where
  "batch_inv ZD st \<longleftrightarrow>
     (case st of ((p, s), log) \<Rightarrow>
        ids_ok p s \<and> cs_inv s \<and> blocks_count s * PAGE_SIZE \<le> 2 ^ 48 \<and>
        (\<exists>stored. packer_inv p stored \<and> list_all2 (logged_ok ZD p) stored log))"

lemma logged_ok_mono:
  assumes "list_all2 (logged_ok ZD p) stored log" "packer_inv p stored"
    "\<forall>i < p_count p. block_ids p' ! i = block_ids p ! i"
  shows "list_all2 (logged_ok ZD p') stored log"
proof (rule list.rel_mono_strong)
  show "list_all2 (logged_ok ZD p) stored log" by fact
  fix e entry assume "e \<in> set stored" "entry \<in> set log" "logged_ok ZD p e entry"
  with assms(2,3) show "logged_ok ZD p' e entry"
    by (auto simp: logged_ok_def packer_inv_def placed_ok_def split: prod.splits)
qed

lemma batch_inv_place:
  assumes "batch_inv ZD ((p, s), log)" "place mp tid chain img e0 (p, s) = Inr (loc, e, p', s')"
    "0 < length img" "length img \<le> PAGE_SIZE" "length img = PAGE_SIZE \<or> 8 \<le> length img"
    "(chain = None \<longrightarrow> e = e0) \<Longrightarrow> decompressPage ZD (stamped chain e img) = Inr page"
  shows "batch_inv ZD ((p', s'), log @ [(loc, page)])"
proof -
  obtain stored where inv: "ids_ok p s" "cs_inv s" "blocks_count s * PAGE_SIZE \<le> 2 ^ 48" "packer_inv p stored"
    "list_all2 (logged_ok ZD p) stored log"
    using assms(1) by (auto simp: batch_inv_def)
  from place_stores [OF inv(4,1,2,3) assms(3-5) assms(2)]
  obtain slot where r: "packer_inv p' (stored @ [(slot, offsetInBlock loc, stamped chain e img)])"
    "block_ids p' ! slot = cpid_block loc" "unat (cpid_length loc) = length img"
    "\<forall>i < p_count p. block_ids p' ! i = block_ids p ! i" "ids_ok p' s'" "cs_inv s'" "blocks_count s' = blocks_count s"
    "chain = None \<longrightarrow> e = e0"
    by auto
  have "list_all2 (logged_ok ZD p') (stored @ [(slot, offsetInBlock loc, stamped chain e img)]) (log @ [(loc, page)])"
    using logged_ok_mono [OF inv(5,4) r(4)] r(2,3) assms(5) assms(6) [OF r(8)] length_stamped [of img chain e]
    by (auto intro!: list_all2_appendI simp: logged_ok_def)
  with r inv(3) show ?thesis by (auto simp: batch_inv_def)
qed

text \<open>
  An image of a page: the page itself, or what \<^verbatim>\<open>compressPage\<close> made of it,
  with the epoch in its header possibly replaced.  Stamping an image with an epoch gives an image of the page with
  that epoch.
\<close>

definition image_of :: "(nat \<Rightarrow> bytes \<Rightarrow> zstd_error + bytes) \<Rightarrow> bytes \<Rightarrow> bytes \<Rightarrow> bool" where
  "image_of ZC page src \<longleftrightarrow> src = page \<or>
     (\<exists>src0 e0. compressPage ZC page = Inr src0 \<and> (src = src0 \<or> length src0 < PAGE_SIZE \<and> src = setRUEpoch e0 src0))"

definition image_epoch :: "bytes \<Rightarrow> u64" where
  "image_epoch src = (if length src = PAGE_SIZE then get64 ru_epoch_offset src else ruEpoch src)"

lemma ru_epoch_in_page: "length page = PAGE_SIZE \<Longrightarrow> ru_epoch_offset + 8 \<le> length page"
  by (simp add: ru_epoch_offset_def PAGE_SIZE_def)

lemma image_cases:
  assumes "zstd_ok ZC ZD" "length page = PAGE_SIZE" "image_of ZC page src"
  obtains (raw) "src = page"
  | (packed) frame w e where "src = compressed_header e w @ frame" "frame \<noteq> []"
      "header_size + length frame < PAGE_SIZE" "ZD frame = Some page"
proof (cases "src = page")
  case False
  then obtain src0 e0 where c: "compressPage ZC page = Inr src0" "src = src0 \<or> length src0 < PAGE_SIZE \<and> src = setRUEpoch e0 src0"
    using assms(3) by (auto simp: image_of_def)
  from assms(1,2) c(1) show thesis
  proof (cases rule: compressPage_cases)
    case raw
    then show thesis using c(2) assms(2) that(1) by simp
  next
    case (packed frame w)
    then show thesis using c(2) that(2) by auto
  qed
qed (rule raw)

lemma compress_epoch:
  assumes "zstd_ok ZC ZD" "length page = PAGE_SIZE" "compressPage ZC page = Inr img"
  shows "image_epoch img = get64 ru_epoch_offset page"
  using assms by (cases rule: compressPage_cases) (use assms(2) in \<open>auto simp: image_epoch_def ruEpoch_def header_size_def PAGE_SIZE_def\<close>)

lemma image_size:
  assumes "zstd_ok ZC ZD" "length page = PAGE_SIZE" "image_of ZC page src"
  shows "0 < length src \<and> length src \<le> PAGE_SIZE \<and> (length src = PAGE_SIZE \<or> 8 \<le> length src)"
  using assms by (cases rule: image_cases) (use assms(2) in \<open>auto simp: header_size_def PAGE_SIZE_def\<close>)

lemma image_stamped:
  assumes "zstd_ok ZC ZD" "length page = PAGE_SIZE" "image_of ZC page src" "chain = None \<longrightarrow> e = image_epoch src"
  shows "decompressPage ZD (stamped chain e src) = Inr (put64 ru_epoch_offset e page)"
  using assms(1-3)
proof (cases rule: image_cases)
  case raw
  have "decompressPage ZD page' = Inr page'" if "length page' = PAGE_SIZE" for page'
    using that by (simp add: decompressPage_def PAGE_SIZE_def)
  with raw assms(2,4) ru_epoch_in_page [OF assms(2)] show ?thesis
    by (cases chain) (simp_all add: stamped_def image_epoch_def put64_get64)
next
  case (packed frame w e0)
  with assms(2,4) show ?thesis
    by (cases chain) (simp_all add: stamped_def image_epoch_def ruEpoch_def decompress_header)
qed

lemma seal_loop_frame:
  assumes "seal_loop n (p, s) = Inr (p', s')" "packer_inv p stored" "n \<le> p_count p" "cs_inv s"
  shows "packer_inv p' stored \<and> block_ids p' = block_ids p \<and> p_count p' = p_count p \<and> used p' = used p \<and>
         cs_inv s' \<and> blocks_count s' = blocks_count s"
  using assms
proof (induction n arbitrary: p' s')
  case (Suc n)
  obtain p1 s1 where 1: "seal_loop n (p, s) = Inr (p1, s1)"
    using Suc.prems(1) by (auto split: sum.splits)
  have IH: "packer_inv p1 stored" "block_ids p1 = block_ids p" "p_count p1 = p_count p" "used p1 = used p" "cs_inv s1"
    "blocks_count s1 = blocks_count s"
    using Suc.IH [OF 1] Suc.prems by auto
  let ?z = "replicate (PAGE_SIZE - used p1 ! n) (0::u8)"
  let ?p2 = "p1\<lparr>p_blocks := (p_blocks p1)[n := write_at (used p1 ! n) ?z (p_blocks p1 ! n)]\<rparr>"
  have n: "n < p_count p1" "n < max_blocks p1" "used p1 ! n \<le> PAGE_SIZE" "length (p_blocks p1) = max_blocks p1"
    "length (p_blocks p1 ! n) = PAGE_SIZE"
    using Suc.prems(3) IH(1,3) by (auto simp: packer_inv_def packer_shape_def)
  have "packer_shape ?p2"
    using IH(1) n by (auto simp: packer_inv_def packer_shape_def dest!: set_update_subset_insert [THEN subsetD])
  moreover have "placed_ok ?p2 e" if "e \<in> set stored" for e
  proof -
    obtain sl off i where e: "e = (sl, off, i)" by (cases e)
    have ok: "placed_ok p1 e" using IH(1) that by (auto simp: packer_inv_def)
    then show ?thesis using n
      by (cases "sl = n") (auto simp: e placed_ok_def read_write_before)
  qed
  ultimately have p2: "packer_inv ?p2 stored" using IH(1) by (simp add: packer_inv_def)
  have "p' = ?p2 \<and> cs_inv s' \<and> blocks_count s' = blocks_count s1"
  proof (cases "in_place p1 ! n")
    case True
    then show ?thesis using Suc.prems(1) 1 IH(5) by (simp add: Let_def)
  next
    case False
    then obtain s2 where s2: "sealBlock (block_ids p1 ! n) (used p1 ! n) s1 = Inr s2" "p' = ?p2" "s' = s2"
      using Suc.prems(1) 1 by (auto simp: Let_def split: sum.splits)
    note b = sealBlock_Inr [OF IH(5) s2(1)]
    then have "cs_inv s2" "blocks_count s2 = blocks_count s1"
      using sealBlock_spec [OF IH(5), of "block_ids p1 ! n" "used p1 ! n"] s2(1) by auto
    then show ?thesis using s2 by simp
  qed
  with p2 IH show ?case by simp
qed simp

lemma batch_inv_in_place:
  assumes "batch_inv ZD ((p, s), log)" "length page = PAGE_SIZE" "\<not> packer_full p"
    "extent_ok cur" "cpid_block cur < blocks_count s" "unat (cpid_length cur) = PAGE_SIZE"
    "max_blocks p' = max_blocks p" "p_count p' = p_count p + 1" "block_ids p' = (block_ids p)[p_count p := cpid_block cur]"
    "used p' = (used p)[p_count p := PAGE_SIZE]" "p_blocks p' = (p_blocks p)[p_count p := page]"
    "length (pages p') = length (pages p)" "length (in_place p') = length (in_place p)"
    "length (p_ru_epochs p') = length (p_ru_epochs p)" "cs_inv s'" "blocks_count s' = blocks_count s"
  shows "batch_inv ZD ((p', s'), log @ [(cur, page)])"
proof -
  obtain stored where inv: "ids_ok p s" "cs_inv s" "blocks_count s * PAGE_SIZE \<le> 2 ^ 48" "packer_inv p stored"
    "list_all2 (logged_ok ZD p) stored log"
    using assms(1) by (auto simp: batch_inv_def)
  have off: "offsetInBlock cur = 0" using assms(4,6) by (simp add: extent_ok_def)
  have lt: "p_count p < max_blocks p" using assms(3) by (simp add: packer_full_def)
  let ?e = "(p_count p, 0, page)"
  have sh: "packer_shape p'" using inv(4) lt assms
    by (auto simp: packer_inv_def packer_shape_def dest!: set_update_subset_insert [THEN subsetD])
  have old: "placed_ok p' e" "fst e < p_count p" if "e \<in> set stored" for e
  proof -
    have "placed_ok p e" using inv(4) that by (auto simp: packer_inv_def)
    then show "placed_ok p' e" "fst e < p_count p" using assms(8-11) by (auto simp: placed_ok_def split: prod.splits)
  qed
  have "placed_ok p' ?e"
    using inv(4) lt assms(2,8,10,11) by (simp add: packer_inv_def packer_shape_def placed_ok_def read_at_def)
  moreover have "\<forall>i < p_count p'. used p' ! i \<le> PAGE_SIZE"
    using inv(4) lt assms(8,10) by (auto simp: packer_inv_def packer_shape_def nth_list_update less_Suc_eq)
  ultimately have "packer_inv p' (stored @ [?e])"
    using sh old inv(4) by (fastforce simp: packer_inv_def sorted_wrt_append)
  moreover have "list_all2 (logged_ok ZD p') (stored @ [?e]) (log @ [(cur, page)])"
    using logged_ok_mono [OF inv(5,4), of p'] assms(2,6,9) off inv(4) lt
    by (auto intro!: list_all2_appendI simp: logged_ok_def decompressPage_def PAGE_SIZE_def packer_inv_def packer_shape_def)
  moreover have "ids_ok p' s'"
    using inv(1,4) lt assms(5,8,9,16) by (auto simp: ids_ok_def packer_inv_def packer_shape_def nth_list_update less_Suc_eq)
  ultimately show ?thesis using assms(15,16) inv(3) by (auto simp: batch_inv_def)
qed

lemma batch_inv_add:
  assumes "zstd_ok ZC ZD" "batch_inv ZD ((p, s), log)" "packer_add ZC mp tid chain page compress cur (p, s) = Inr (loc, e, st')"
    "length page = PAGE_SIZE" "extent_ok cur \<and> cpid_block cur < blocks_count s \<or> cpid_length cur = 0"
  shows "batch_inv ZD (st', log @ [(loc, put64 ru_epoch_offset e page)])"
proof -
  obtain p' s' where st': "st' = (p', s')" by (cases st')
  have ns: "\<not> p_sealed p" using assms(3) by (auto simp: packer_add_def)
  have self: "put64 ru_epoch_offset (get64 ru_epoch_offset page) page = page"
    by (rule put64_get64 [OF ru_epoch_in_page [OF assms(4)]])
  have inv: "cs_inv s" using assms(2) by (auto simp: batch_inv_def)
  show ?thesis
  proof (cases "\<not> compress \<and> unat (cpid_length cur) = PAGE_SIZE")
    case True
    then have cur: "extent_ok cur" "cpid_block cur < blocks_count s" using assms(5) by (auto simp: PAGE_SIZE_def)
    have nf: "\<not> packer_full p" using assms(3) ns True by (auto simp: packer_add_def Let_def split: if_splits)
    let ?p1 = "recordBlock chain (p_count p)
                 (p\<lparr>p_count := p_count p + 1, block_ids := (block_ids p)[p_count p := cpid_block cur],
                    used := (used p)[p_count p := PAGE_SIZE], pages := (pages p)[p_count p := 1],
                    in_place := (in_place p)[p_count p := True]\<rparr>)"
    have r: "loc = cur" "p' = ?p1\<lparr>p_blocks := (p_blocks p)[p_count p := put64 ru_epoch_offset e page]\<rparr>"
      "s' = s\<lparr>written_pages := written_pages s + 1, written_compressed_bytes := written_compressed_bytes s + PAGE_SIZE\<rparr>"
      using assms(3) ns True nf unfolding st' by (auto simp: packer_add_def Let_def self split: option.splits)
    show ?thesis
      unfolding st' r(1)
      by (rule batch_inv_in_place [OF assms(2) _ nf cur])
         (use True assms(4) inv ru_epoch_in_page [OF assms(4)] in \<open>simp_all add: r(2,3)\<close>)
  next
    case False
    obtain img where img: "place mp tid chain img (get64 ru_epoch_offset page) (p, s) = Inr (loc, e, p', s')"
      "image_of ZC page img" "image_epoch img = get64 ru_epoch_offset page"
    proof (cases compress)
      case True
      then obtain img where "compressPage ZC page = Inr img" "place mp tid chain img (get64 ru_epoch_offset page) (p, s) = Inr (loc, e, p', s')"
        using assms(3) ns unfolding st' by (auto simp: packer_add_def Let_def split: sum.splits)
      then show thesis using that compress_epoch [OF assms(1,4)] by (auto simp: image_of_def)
    next
      case nc: False
      then have "place mp tid chain page (get64 ru_epoch_offset page) (p, s) = Inr (loc, e, p', s')"
        using assms(3) ns False unfolding st' by (auto simp: packer_add_def Let_def)
      then show thesis using that assms(4) by (auto simp: image_of_def image_epoch_def)
    qed
    have "decompressPage ZD (stamped chain e img) = Inr (put64 ru_epoch_offset e page)"
      if "chain = None \<longrightarrow> e = get64 ru_epoch_offset page"
      using image_stamped [OF assms(1,4) img(2)] that img(3) by simp
    with image_size [OF assms(1,4) img(2)] show ?thesis
      unfolding st' by (intro batch_inv_place [OF assms(2) img(1)]) auto
  qed
qed

lemma batch_inv_verbatim:
  assumes "zstd_ok ZC ZD" "batch_inv ZD ((p, s), log)" "addVerbatim mp tid chain src (p, s) = Inr (loc, e, st')"
    "length page = PAGE_SIZE" "image_of ZC page src"
  shows "batch_inv ZD (st', log @ [(loc, put64 ru_epoch_offset e page)])"
proof -
  obtain p' s' where st': "st' = (p', s')" by (cases st')
  have pl: "place mp tid chain src (image_epoch src) (p, s) = Inr (loc, e, p', s')"
    using assms(3) unfolding st' by (auto simp: addVerbatim_def Let_def image_epoch_def split: if_splits)
  show ?thesis
    using image_size [OF assms(1,4,5)] image_stamped [OF assms(1,4,5)]
    unfolding st' by (intro batch_inv_place [OF assms(2) pl]) auto
qed

lemma batch_inv_seal:
  assumes "batch_inv ZD ((p, s), log)" "packer_seal (p, s) = Inr st'"
  shows "batch_inv ZD (st', log)"
proof (cases "p_sealed p")
  case True
  then show ?thesis using assms by (simp add: packer_seal_def)
next
  case False
  obtain p1 s1 where 1: "seal_loop (p_count p) (p, s) = Inr (p1, s1)" "st' = (p1\<lparr>p_sealed := True\<rparr>, s1)"
    using assms(2) False by (auto simp: packer_seal_def split: sum.splits)
  obtain stored where inv: "ids_ok p s" "cs_inv s" "blocks_count s * PAGE_SIZE \<le> 2 ^ 48" "packer_inv p stored"
    "list_all2 (logged_ok ZD p) stored log"
    using assms(1) by (auto simp: batch_inv_def)
  from seal_loop_frame [OF 1(1) inv(4) _ inv(2)]
  have r: "packer_inv p1 stored" "block_ids p1 = block_ids p" "p_count p1 = p_count p" "cs_inv s1" "blocks_count s1 = blocks_count s"
    by auto
  have "packer_inv (p1\<lparr>p_sealed := True\<rparr>) stored"
    using r(1) by (simp add: packer_inv_def packer_shape_def placed_ok_def)
  moreover have "list_all2 (logged_ok ZD (p1\<lparr>p_sealed := True\<rparr>)) stored log"
    by (rule logged_ok_mono [OF inv(5,4)]) (simp add: r)
  ultimately show ?thesis using r inv(1,3) unfolding 1(2) by (auto simp: batch_inv_def ids_ok_def)
qed

lemma batch_step_inv:
  "batch_step ZC ZD mp st st' \<Longrightarrow> zstd_ok ZC ZD \<Longrightarrow> batch_inv ZD st \<Longrightarrow> batch_inv ZD st'"
proof (induction rule: batch_step.induct)
  case (batch_add tid chain page compress cur st loc e st' log)
  then show ?case by (cases st) (auto intro: batch_inv_add)
next
  case (batch_verbatim tid chain src st loc e st' page src0 e0 log)
  then have "image_of ZC page src" by (auto simp: image_of_def)
  with batch_verbatim show ?case by (cases st) (auto intro: batch_inv_verbatim)
next
  case (batch_other s' s p log)
  then show ?case by (auto simp: batch_inv_def ids_ok_def)
next
  case (batch_seal st st' log)
  then show ?case by (cases st) (auto intro: batch_inv_seal)
qed

lemma batch_init_inv: "batch_init st \<Longrightarrow> batch_inv ZD st"
  by (cases st) (auto simp: batch_init_def batch_inv_def ids_ok_def packer_inv_def intro!: exI [of _ "[]"])

interpretation batch: invariant_of batch_init "batch_step ZC ZD mp" "\<lambda>st. zstd_ok ZC ZD \<longrightarrow> batch_inv ZD st"
  for ZC ZD mp
  by unfold_locales (auto intro: batch_init_inv batch_step_inv)

section \<open>Properties\<close>

text \<open>
  Decompression inverts compression.  Given a zstd that decompresses what it compressed, the
  image of a page is never empty and never larger than a page, decompresses to the page, and
  when it is compressed its header carries the page's identifier and the image's length, and
  replacing the epoch in the header changes exactly the epoch of the page read back.
\<close>
lemma compress_roundtrip:
  assumes "zstd_ok ZC ZD" "length page = PAGE_SIZE" "compressPage ZC page = Inr img"
  shows "0 < length img \<and> length img \<le> PAGE_SIZE \<and> decompressPage ZD img = Inr page \<and>
         (length img < PAGE_SIZE \<longrightarrow>
            header_pid img = get64 magic_offset page \<and> unat (header_length img) = length img \<and>
            decompressPage ZD (setRUEpoch e img) = Inr (put64 ru_epoch_offset e page))"
proof -
  have "header_pid img = get64 magic_offset page \<and> unat (header_length img) = length img" if "length img < PAGE_SIZE"
    using assms
  proof (cases rule: compressPage_cases)
    case raw
    then show ?thesis using that assms(2) by simp
  next
    case (packed frame w)
    then have "header_size + length frame < 2 ^ 16" by (simp add: PAGE_SIZE_def)
    from header_fields [OF packed(3) this] packed(1,2) show ?thesis
      by (simp add: header_pid_def header_length_def)
  qed
  with compress_roundtrip_aux [OF assms] show ?thesis by blast
qed

text \<open>
  C15: What is packed is what is read.  For every page added to a batch, compressed, stored as it
  is, rewritten in place or copied verbatim, and whatever is added later, sealed or done by
  other threads in between, the block buffer that is written at the location returned by the
  packer holds, within its 4 KiB, an image that decompresses to the page with exactly the RU
  epoch the packer reported.
\<close>
theorem packer_readback:
  assumes "zstd_ok ZC ZD" "reach batch_init (batch_step ZC ZD mp) ((p, s), log)" "(loc, page) \<in> set log"
  shows "\<exists>slot < p_count p. block_ids p ! slot = cpid_block loc \<and>
           offsetInBlock loc + unat (cpid_length loc) \<le> PAGE_SIZE \<and>
           decompressPage ZD (read_at (offsetInBlock loc) (unat (cpid_length loc)) (p_blocks p ! slot)) = Inr page"
proof -
  from batch.reach_inv [OF assms(2)] assms(1)
  obtain stored where inv: "packer_inv p stored" "list_all2 (logged_ok ZD p) stored log"
    by (auto simp: batch_inv_def)
  from assms(3) obtain i where i: "i < length log" "log ! i = (loc, page)" by (auto simp: in_set_conv_nth)
  obtain slot off img where e: "stored ! i = (slot, off, img)" by (cases "stored ! i")
  have mem: "(slot, off, img) \<in> set stored" using inv(2) i(1) e by (metis list_all2_lengthD nth_mem)
  have l: "block_ids p ! slot = cpid_block loc" "off = offsetInBlock loc" "length img = unat (cpid_length loc)"
    "decompressPage ZD img = Inr page"
    using list_all2_nthD2 [OF inv(2) i(1)] by (simp_all add: e i(2) logged_ok_def)
  have p: "slot < p_count p" "off + length img \<le> used p ! slot" "read_at off (length img) (p_blocks p ! slot) = img"
    "used p ! slot \<le> PAGE_SIZE"
    using inv(1) mem by (auto simp: packer_inv_def placed_ok_def)
  with l show ?thesis by (intro exI [of _ slot]) auto
qed

text \<open>A codec that knows one page, for the witnesses.\<close>

definition zero_page :: bytes where "zero_page = replicate PAGE_SIZE 0"
definition ZC1 :: "nat \<Rightarrow> bytes \<Rightarrow> zstd_error + bytes" where
  "ZC1 cap x = (if x = zero_page \<and> 0 < cap then Inr [0] else Inl dstSize_tooSmall)"
definition ZD1 :: "bytes \<Rightarrow> bytes option" where "ZD1 frame = (if frame = [0] then Some zero_page else None)"

lemma zstd_ok_1: "zstd_ok ZC1 ZD1"
  by (simp add: zstd_ok_def ZC1_def ZD1_def)

lemma compress_zero_page: "compressPage ZC1 zero_page = Inr (compressed_header 0 (push_bit 48 17) @ [0])"
proof -
  have "get64 off zero_page = 0" if "off + 8 \<le> PAGE_SIZE" for off
    using that by (simp add: get64_def zero_page_def numeral_eq_Suc)
  then show ?thesis
    by (simp add: compressPage_def ZC1_def header_size_def PAGE_SIZE_def magic_offset_def ru_epoch_offset_def)
qed

theorem packer_readback_witness:
  "\<exists>p s loc e. packer_add ZC1 2 0 None zero_page True 0
        (\<lparr>p_blocks = [zero_page], max_blocks = 1, p_count = 0, p_sealed = False, block_ids = [0], used = [0],
          pages = [0], in_place = [False], p_ru_epochs = [0]\<rparr>, cs_new 2 4 1) = Inr (loc, e, p, s) \<and>
     (\<exists>slot < p_count p. block_ids p ! slot = cpid_block loc \<and>
        decompressPage ZD1 (read_at (offsetInBlock loc) (unat (cpid_length loc)) (p_blocks p ! slot)) =
          Inr (put64 ru_epoch_offset e zero_page))"
proof -
  let ?p = "\<lparr>p_blocks = [zero_page], max_blocks = 1, p_count = 0, p_sealed = False, block_ids = [0], used = [0],
          pages = [0], in_place = [False], p_ru_epochs = [0]\<rparr>"
  have len: "length zero_page = PAGE_SIZE" by (simp add: zero_page_def)
  have al: "\<exists>s. allocateBlock 0 (cs_new 2 4 1) = Inr (0, s)"
    by (simp add: allocateBlock_def is_writer_def cs_new_def open_block_def transition_def)
  obtain loc e p s where add: "packer_add ZC1 2 0 None zero_page True 0 (?p, cs_new 2 4 1) = Inr (loc, e, p, s)"
    using al by (auto simp: packer_add_def compress_zero_page place_def pick_slot_def packer_full_def Let_def)
  have "batch_init ((?p, cs_new 2 4 1), [])"
  proof -
    have "blocks_count (cs_new 2 4 1) * PAGE_SIZE \<le> 2 ^ 48" by (simp add: cs_new_def PAGE_SIZE_def)
    then show ?thesis using cs_new_inv len by (simp add: batch_init_def packer_shape_def)
  qed
  moreover have "batch_step ZC1 ZD1 2 ((?p, cs_new 2 4 1), []) ((p, s), [] @ [(loc, put64 ru_epoch_offset e zero_page)])"
    by (rule batch_add [OF add len]) (simp add: cpid_length_def)
  ultimately have "reach batch_init (batch_step ZC1 ZD1 2) ((p, s), [(loc, put64 ru_epoch_offset e zero_page)])"
    by (auto intro: reach.intros)
  from packer_readback [OF zstd_ok_1 this] add show ?thesis by auto
qed

end
