(* ===== verification/Latch.thy ===== *)
theory Latch
  imports Transition_System
begin

text \<open>
  The hybrid latch of \<^verbatim>\<open>backend/leanstore/sync-primitives/Latch.hpp\<close> and the
  guards over it, with the guards of
  \<^verbatim>\<open>storage/buffer-manager/BMPlainGuard.hpp\<close>.

  An operation of \<^verbatim>\<open>Guard\<close> is a program over the latch (type \<open>prog\<close>): a
  tree whose nodes are the atomic accesses to the version word and to the
  \<^verbatim>\<open>std::shared_mutex\<close>, in the order of the code.  Any interleaving of such
  programs by any number of threads is a run of \<open>latch_step\<close>.  The latch a guard points to
  is the latch its programs run on.  \<open>Jump\<close> is \<^verbatim>\<open>jumpmu::jump\<close>, \<open>Abort\<close> a
  failed \<^verbatim>\<open>assert\<close> or \<^verbatim>\<open>UNREACHABLE()\<close>.

  The predicate \<open>conforms\<close> types a program by what its thread holds of the latch; every
  operation is shown to conform, and the invariant of the interleaving semantics follows from
  the typing alone.
\<close>

section \<open>The latch and its guards\<close>

text \<open>A \<^verbatim>\<open>std::shared_mutex\<close>: the thread that holds it exclusively, the threads
  that share it.\<close>

record HybridLatch =
  lt_version :: u64
  lt_owner :: "nat option"
  lt_readers :: "nat set"

definition LATCH_EXCLUSIVE_BIT :: u64 where "LATCH_EXCLUSIVE_BIT = 1"

definition is_exclusive :: "u64 \<Rightarrow> bool" where
  "is_exclusive v \<longleftrightarrow> v AND LATCH_EXCLUSIVE_BIT = LATCH_EXCLUSIVE_BIT"

definition isExclusivelyLatched :: "HybridLatch \<Rightarrow> bool" where
  "isExclusivelyLatched l \<longleftrightarrow> is_exclusive (lt_version l)"

datatype GUARD_STATE = UNINITIALIZED | OPTIMISTIC | SHARED | EXCLUSIVE | MOVED

datatype LATCH_FALLBACK_MODE = FB_SHARED | FB_EXCLUSIVE | FB_JUMP | FB_SPIN | FB_SHOULD_NOT_HAPPEN

datatype JumpMURetryCause = UNKOWN | GUARD_RECHECK | TO_OPTIMISTIC | TO_SHARED | TO_EXCLUSIVE

record Guard =
  g_state :: GUARD_STATE
  g_version :: u64
  g_faced_contention :: bool

text \<open>The constructors.  The version of an uninitialised guard is not read before it is set.\<close>

definition new_guard :: Guard where
  "new_guard = \<lparr>g_state = UNINITIALIZED, g_version = 0, g_faced_contention = False\<rparr>"

definition guard_from_snapshot :: "u64 \<Rightarrow> Guard" where
  "guard_from_snapshot last_seen_version =
     \<lparr>g_state = OPTIMISTIC, g_version = last_seen_version, g_faced_contention = False\<rparr>"

definition guard_move :: "Guard \<Rightarrow> Guard \<times> Guard" where
  "guard_move other = (other, other\<lparr>g_state := MOVED\<rparr>)"

section \<open>Programs over the latch\<close>

datatype prog =
    Ret Guard
  | Jump JumpMURetryCause
  | Abort
  | Load "u64 \<Rightarrow> prog"
  | SpinLoad "u64 \<Rightarrow> bool" "u64 \<Rightarrow> prog"
  | Store u64 prog
  | CAS u64 u64 "bool \<Rightarrow> prog"
  | Lock prog
  | Try_lock "bool \<Rightarrow> prog"
  | Unlock prog
  | Lock_shared prog
  | Try_lock_shared "bool \<Rightarrow> prog"
  | Unlock_shared prog

definition asserting :: "bool \<Rightarrow> prog \<Rightarrow> prog" where
  "asserting b p = (if b then p else Abort)"

definition guard_with_state :: "GUARD_STATE \<Rightarrow> prog" where
  "guard_with_state st = Load (\<lambda>v. Ret \<lparr>g_state = st, g_version = v, g_faced_contention = False\<rparr>)"

definition recheck :: "Guard \<Rightarrow> prog" where
  "recheck g =
     (if g_state g = OPTIMISTIC
      then Load (\<lambda>v. if g_version g \<noteq> v then Jump GUARD_RECHECK else Ret g)
      else Load (\<lambda>v. asserting (g_version g = v) (Ret g)))"

definition unlock_then :: "Guard \<Rightarrow> (Guard \<Rightarrow> prog) \<Rightarrow> prog" where
  "unlock_then g k =
     (if g_state g = EXCLUSIVE
      then (let g = g\<lparr>g_version := g_version g + LATCH_EXCLUSIVE_BIT\<rparr>
            in Store (g_version g) (Unlock (k (g\<lparr>g_state := OPTIMISTIC\<rparr>))))
      else if g_state g = SHARED
      then Unlock_shared (k (g\<lparr>g_state := OPTIMISTIC\<rparr>))
      else k g)"

definition unlock :: "Guard \<Rightarrow> prog" where
  "unlock g = unlock_then g Ret"

text \<open>Move assignment releases what this guard holds, then takes over the other guard.\<close>

definition guard_move_assign :: "Guard \<Rightarrow> Guard \<Rightarrow> prog \<times> Guard" where
  "guard_move_assign self other =
     (unlock_then self (\<lambda>g. Ret (g\<lparr>g_state := g_state other, g_version := g_version other,
                                    g_faced_contention := g_faced_contention other\<rparr>)),
      other\<lparr>g_state := MOVED\<rparr>)"

definition toOptimisticSpin :: "Guard \<Rightarrow> prog" where
  "toOptimisticSpin g =
     asserting (g_state g = UNINITIALIZED)
      (Load (\<lambda>v.
        if is_exclusive v
        then SpinLoad (\<lambda>v. \<not> is_exclusive v)
               (\<lambda>v. Ret (g\<lparr>g_version := v, g_faced_contention := True, g_state := OPTIMISTIC\<rparr>))
        else Ret (g\<lparr>g_version := v, g_state := OPTIMISTIC\<rparr>)))"

definition toOptimisticOrJump :: "Guard \<Rightarrow> prog" where
  "toOptimisticOrJump g =
     asserting (g_state g = UNINITIALIZED)
      (Load (\<lambda>v.
        if is_exclusive v then Jump TO_OPTIMISTIC
        else Ret (g\<lparr>g_version := v, g_state := OPTIMISTIC\<rparr>)))"

definition toOptimisticOrShared :: "Guard \<Rightarrow> prog" where
  "toOptimisticOrShared g =
     asserting (g_state g = UNINITIALIZED)
      (Load (\<lambda>v.
        if is_exclusive v
        then Lock_shared (Load (\<lambda>v.
               Ret (g\<lparr>g_version := v, g_state := SHARED, g_faced_contention := True\<rparr>)))
        else Ret (g\<lparr>g_version := v, g_state := OPTIMISTIC\<rparr>)))"

definition toOptimisticOrExclusive :: "Guard \<Rightarrow> prog" where
  "toOptimisticOrExclusive g =
     asserting (g_state g = UNINITIALIZED)
      (Load (\<lambda>v.
        if is_exclusive v
        then Lock (Load (\<lambda>v.
               let version = v + LATCH_EXCLUSIVE_BIT
               in Store version
                    (Ret (g\<lparr>g_version := version, g_state := EXCLUSIVE, g_faced_contention := True\<rparr>))))
        else Ret (g\<lparr>g_version := v, g_state := OPTIMISTIC\<rparr>)))"

definition toExclusive :: "Guard \<Rightarrow> prog" where
  "toExclusive g =
     asserting (g_state g \<noteq> SHARED)
      (if g_state g = EXCLUSIVE then Ret g
       else if g_state g = OPTIMISTIC
       then (let new_version = g_version g + LATCH_EXCLUSIVE_BIT
             in Lock (CAS (g_version g) new_version (\<lambda>ok.
                  if \<not> ok then Unlock (Jump TO_EXCLUSIVE)
                  else Ret (g\<lparr>g_version := new_version, g_state := EXCLUSIVE\<rparr>))))
       else Lock (Load (\<lambda>v.
              let version = v + LATCH_EXCLUSIVE_BIT
              in Store version (Ret (g\<lparr>g_version := version, g_state := EXCLUSIVE\<rparr>)))))"

definition toShared :: "Guard \<Rightarrow> prog" where
  "toShared g =
     asserting (g_state g = OPTIMISTIC \<or> g_state g = SHARED)
      (if g_state g = SHARED then Ret g
       else if g_state g = OPTIMISTIC
       then Lock_shared (Load (\<lambda>v.
              if v \<noteq> g_version g then Unlock_shared (Jump TO_SHARED)
              else Ret (g\<lparr>g_state := SHARED\<rparr>)))
       else Abort)"

definition tryToExclusive :: "Guard \<Rightarrow> prog" where
  "tryToExclusive g =
     asserting (g_state g = OPTIMISTIC)
      (let new_version = g_version g + LATCH_EXCLUSIVE_BIT
       in Try_lock (\<lambda>locked.
            if \<not> locked then Jump UNKOWN
            else CAS (g_version g) new_version (\<lambda>ok.
                   if \<not> ok then Unlock (Jump UNKOWN)
                   else Ret (g\<lparr>g_version := new_version, g_state := EXCLUSIVE\<rparr>))))"

definition tryToShared :: "Guard \<Rightarrow> prog" where
  "tryToShared g =
     asserting (g_state g = OPTIMISTIC)
      (Try_lock_shared (\<lambda>locked.
         if \<not> locked then Jump UNKOWN
         else Load (\<lambda>v.
                if v \<noteq> g_version g then Unlock_shared (Jump UNKOWN)
                else Ret (g\<lparr>g_state := SHARED\<rparr>))))"

text \<open>\<^verbatim>\<open>HybridPageGuard::latchAccordingToFallbackMode\<close>.\<close>

definition latchAccordingToFallbackMode :: "Guard \<Rightarrow> LATCH_FALLBACK_MODE \<Rightarrow> prog" where
  "latchAccordingToFallbackMode g if_contended =
     (case if_contended of
        FB_SPIN \<Rightarrow> toOptimisticSpin g
      | FB_EXCLUSIVE \<Rightarrow> toOptimisticOrExclusive g
      | FB_SHARED \<Rightarrow> toOptimisticOrShared g
      | FB_JUMP \<Rightarrow> toOptimisticOrJump g
      | FB_SHOULD_NOT_HAPPEN \<Rightarrow> Abort)"

section \<open>The guards of the buffer manager\<close>

definition BMOptimisticGuard :: prog where
  "BMOptimisticGuard = toOptimisticOrJump new_guard"

definition BMOptimisticGuard_recheck :: "Guard \<Rightarrow> prog" where
  "BMOptimisticGuard_recheck g = recheck g"

definition BMExclusiveGuard :: "Guard \<Rightarrow> prog" where
  "BMExclusiveGuard o_lock = tryToExclusive o_lock"

definition BMExclusiveGuard_destructor :: "Guard \<Rightarrow> prog" where
  "BMExclusiveGuard_destructor o_lock = unlock o_lock"

definition BMBlockingExclusiveGuard :: "Guard \<Rightarrow> prog" where
  "BMBlockingExclusiveGuard o_lock = toExclusive o_lock"

definition BMBlockingExclusiveGuard_destructor :: "Guard \<Rightarrow> prog" where
  "BMBlockingExclusiveGuard_destructor o_lock = unlock o_lock"

text \<open>The constructor returns \<^verbatim>\<open>was_exclusive\<close>, which the destructor reads.\<close>

definition BMExclusiveUpgradeIfNeeded :: "Guard \<Rightarrow> bool \<times> prog" where
  "BMExclusiveUpgradeIfNeeded g = (g_state g = EXCLUSIVE, tryToExclusive g)"

definition BMExclusiveUpgradeIfNeeded_destructor :: "bool \<Rightarrow> Guard \<Rightarrow> prog" where
  "BMExclusiveUpgradeIfNeeded_destructor was_exclusive g = (if \<not> was_exclusive then unlock g else Ret g)"

definition BMSharedGuard :: "Guard \<Rightarrow> prog" where
  "BMSharedGuard o_lock = tryToShared o_lock"

definition BMSharedGuard_destructor :: "Guard \<Rightarrow> prog" where
  "BMSharedGuard_destructor o_lock = unlock o_lock"

section \<open>Interleaving semantics\<close>

text \<open>
  One atomic access by thread \<open>i\<close>: what is left of its program and the new latch,
  \<open>None\<close> while it has to wait for the mutex or has nothing to do.
\<close>

fun prog_step :: "nat \<Rightarrow> prog \<Rightarrow> HybridLatch \<Rightarrow> (prog \<times> HybridLatch) option" where
  "prog_step i (Load k) l = Some (k (lt_version l), l)"
| "prog_step i (SpinLoad P k) l =
     Some (if P (lt_version l) then k (lt_version l) else SpinLoad P k, l)"
| "prog_step i (Store v k) l = Some (k, l\<lparr>lt_version := v\<rparr>)"
| "prog_step i (CAS e n k) l =
     Some (if lt_version l = e then (k True, l\<lparr>lt_version := n\<rparr>) else (k False, l))"
| "prog_step i (Lock k) l =
     (if lt_owner l = None \<and> lt_readers l = {} then Some (k, l\<lparr>lt_owner := Some i\<rparr>) else None)"
| "prog_step i (Try_lock k) l =
     Some (if lt_owner l = None \<and> lt_readers l = {} then (k True, l\<lparr>lt_owner := Some i\<rparr>)
           else (k False, l))"
| "prog_step i (Unlock k) l = Some (k, l\<lparr>lt_owner := None\<rparr>)"
| "prog_step i (Lock_shared k) l =
     (if lt_owner l = None then Some (k, l\<lparr>lt_readers := insert i (lt_readers l)\<rparr>) else None)"
| "prog_step i (Try_lock_shared k) l =
     Some (if lt_owner l = None then (k True, l\<lparr>lt_readers := insert i (lt_readers l)\<rparr>)
           else (k False, l))"
| "prog_step i (Unlock_shared k) l = Some (k, l\<lparr>lt_readers := lt_readers l - {i}\<rparr>)"
| "prog_step i _ l = None"

text \<open>The operations a thread may call on its guard, whatever state the guard is in.\<close>

datatype guard_op = Op_latch LATCH_FALLBACK_MODE | Op_recheck | Op_unlock | Op_toExclusive
  | Op_toShared | Op_tryToExclusive | Op_tryToShared

fun guard_call :: "guard_op \<Rightarrow> Guard \<Rightarrow> prog" where
  "guard_call (Op_latch m) g = latchAccordingToFallbackMode g m"
| "guard_call Op_recheck g = recheck g"
| "guard_call Op_unlock g = unlock g"
| "guard_call Op_toExclusive g = toExclusive g"
| "guard_call Op_toShared g = toShared g"
| "guard_call Op_tryToExclusive g = tryToExclusive g"
| "guard_call Op_tryToShared g = tryToShared g"

text \<open>
  The system: the latch, the programs of the threads, and three ghosts.  \<open>sys_clock\<close> counts
  the changes of the version word, \<open>sys_data\<close> the modifications of what the latch protects,
  \<open>sys_seen i\<close> is the value of both at the last access of thread \<open>i\<close> to the version.
\<close>

record latch_sys =
  sys_latch :: HybridLatch
  sys_prog :: "nat \<Rightarrow> prog"
  sys_clock :: nat
  sys_data :: nat
  sys_seen :: "nat \<Rightarrow> nat \<times> nat"

definition latch_init :: "latch_sys \<Rightarrow> bool" where
  "latch_init s \<longleftrightarrow>
     s = \<lparr>sys_latch = \<lparr>lt_version = 0, lt_owner = None, lt_readers = {}\<rparr>,
          sys_prog = (\<lambda>_. Ret new_guard), sys_clock = 0, sys_data = 0, sys_seen = (\<lambda>_. (0, 0))\<rparr>"

definition accesses_version :: "prog \<Rightarrow> bool" where
  "accesses_version p =
     (case p of Load _ \<Rightarrow> True | SpinLoad _ _ \<Rightarrow> True | Store _ _ \<Rightarrow> True | CAS _ _ _ \<Rightarrow> True | _ \<Rightarrow> False)"

definition after_access :: "nat \<Rightarrow> prog \<Rightarrow> HybridLatch \<Rightarrow> latch_sys \<Rightarrow> latch_sys" where
  "after_access i p l s =
     (let c = (if lt_version l = lt_version (sys_latch s) then sys_clock s else sys_clock s + 1)
      in s\<lparr>sys_latch := l, sys_prog := (sys_prog s)(i := p), sys_clock := c,
           sys_seen := (if accesses_version (sys_prog s i)
                        then (sys_seen s)(i := (c, sys_data s)) else sys_seen s)\<rparr>)"

inductive latch_step :: "latch_sys \<Rightarrow> latch_sys \<Rightarrow> bool" where
  access: "prog_step i (sys_prog s i) (sys_latch s) = Some (p, l) \<Longrightarrow> latch_step s (after_access i p l s)"
| call: "sys_prog s i = Ret g \<Longrightarrow>
    latch_step s (s\<lparr>sys_prog := (sys_prog s)(i := guard_call op g)\<rparr>)"
| modify: "sys_prog s i = Ret g \<Longrightarrow> g_state g = EXCLUSIVE \<Longrightarrow>
    latch_step s (s\<lparr>sys_data := Suc (sys_data s)\<rparr>)"
| restart: "sys_prog s i = Jump c \<Longrightarrow> latch_step s (s\<lparr>sys_prog := (sys_prog s)(i := Ret new_guard)\<rparr>)"
| discard: "sys_prog s i = Ret g \<Longrightarrow> g_state g = OPTIMISTIC \<Longrightarrow>
    latch_step s (s\<lparr>sys_prog := (sys_prog s)(i := Ret new_guard)\<rparr>)"

section \<open>Typing programs by what their thread holds\<close>

text \<open>
  What a thread holds of the latch, with the version it relies on: nothing, the mutex in
  shared mode, the mutex exclusively with the exclusive bit clear or set.
\<close>

datatype hold = HNone | HShared u64 | HMutex u64 | HWrite u64

definition holds :: "nat \<Rightarrow> HybridLatch \<Rightarrow> hold" where
  "holds i l =
     (if lt_owner l = Some i
      then (if is_exclusive (lt_version l) then HWrite (lt_version l) else HMutex (lt_version l))
      else if i \<in> lt_readers l then HShared (lt_version l) else HNone)"

text \<open>A guard at rest: its state is what its thread holds, its version the last one seen.\<close>

definition rest_ok :: "hold \<Rightarrow> u64 \<Rightarrow> Guard \<Rightarrow> bool" where
  "rest_ok h seen g =
     (case g_state g of
        EXCLUSIVE \<Rightarrow> h = HWrite (g_version g) \<and> seen = g_version g \<and> is_exclusive (g_version g)
      | SHARED \<Rightarrow> h = HShared (g_version g) \<and> seen = g_version g \<and> \<not> is_exclusive (g_version g)
      | OPTIMISTIC \<Rightarrow> h = HNone \<and> seen = g_version g \<and> \<not> is_exclusive (g_version g)
      | _ \<Rightarrow> h = HNone)"

fun may_load :: "hold \<Rightarrow> u64 \<Rightarrow> bool" where
  "may_load HNone v = True"
| "may_load (HShared w) v = (v = w)"
| "may_load (HMutex w) v = (v = w)"
| "may_load (HWrite w) v = (v = w)"

text \<open>A compare-and-swap ends an upgrade: the guard is EXCLUSIVE or the mutex is released and the thread jumps.\<close>

definition is_upgrade :: "(bool \<Rightarrow> prog) \<Rightarrow> bool" where
  "is_upgrade k \<longleftrightarrow> (\<exists>g. k True = Ret g \<and> g_state g = EXCLUSIVE) \<and> (\<exists>c. k False = Unlock (Jump c))"

primrec conforms :: "prog \<Rightarrow> hold \<Rightarrow> u64 \<Rightarrow> bool" where
  "conforms (Ret g) h seen = rest_ok h seen g"
| "conforms (Jump c) h seen = (h = HNone)"
| "conforms Abort h seen = True"
| "conforms (Load k) h seen = (\<forall>v. may_load h v \<longrightarrow> conforms (k v) h v)"
| "conforms (SpinLoad P k) h seen = (h = HNone \<and> (\<forall>v. P v \<longrightarrow> conforms (k v) h v))"
| "conforms (Store v k) h seen =
     (case h of HMutex w \<Rightarrow> v = w + 1 \<and> conforms k (HWrite v) v
              | HWrite w \<Rightarrow> v = w + 1 \<and> conforms k (HMutex v) v
              | _ \<Rightarrow> False)"
| "conforms (CAS e n k) h seen =
     (case h of HMutex w \<Rightarrow> e = seen \<and> is_upgrade k \<and>
                           (if w = e then n = w + 1 \<and> conforms (k True) (HWrite n) n
                            else conforms (k False) (HMutex w) w)
              | _ \<Rightarrow> False)"
| "conforms (Lock k) h seen = (h = HNone \<and> (\<forall>w. \<not> is_exclusive w \<longrightarrow> conforms k (HMutex w) seen))"
| "conforms (Try_lock k) h seen =
     (h = HNone \<and> (\<forall>w. \<not> is_exclusive w \<longrightarrow> conforms (k True) (HMutex w) seen) \<and> conforms (k False) h seen)"
| "conforms (Unlock k) h seen = ((\<exists>w. h = HMutex w) \<and> conforms k HNone seen)"
| "conforms (Lock_shared k) h seen = (h = HNone \<and> (\<forall>w. \<not> is_exclusive w \<longrightarrow> conforms k (HShared w) seen))"
| "conforms (Try_lock_shared k) h seen =
     (h = HNone \<and> (\<forall>w. \<not> is_exclusive w \<longrightarrow> conforms (k True) (HShared w) seen) \<and> conforms (k False) h seen)"
| "conforms (Unlock_shared k) h seen = ((\<exists>w. h = HShared w) \<and> conforms k HNone seen)"

lemma is_exclusive_iff: "is_exclusive v \<longleftrightarrow> odd v"
  by (simp add: is_exclusive_def LATCH_EXCLUSIVE_BIT_def and_one_eq odd_iff_mod_2_eq_one)

lemma is_exclusive_succ [simp]: "is_exclusive (v + 1) \<longleftrightarrow> \<not> is_exclusive v"
  by (simp add: is_exclusive_iff)

lemmas guard_op_defs = recheck_def unlock_def unlock_then_def toOptimisticSpin_def toOptimisticOrJump_def
  toOptimisticOrShared_def toOptimisticOrExclusive_def toExclusive_def toShared_def
  tryToExclusive_def tryToShared_def latchAccordingToFallbackMode_def asserting_def

lemma rest_ok_exclusive: "rest_ok h seen g \<Longrightarrow> g_state g = EXCLUSIVE \<longleftrightarrow> (\<exists>w. h = HWrite w)"
  by (auto simp: rest_ok_def split: GUARD_STATE.splits)

text \<open>Every operation of the guard conforms, in every state of the guard.\<close>

lemma guard_call_conforms:
  assumes "rest_ok h seen g"
  shows "conforms (guard_call op g) h seen"
proof (cases op)
  case (Op_latch m)
  then show ?thesis using assms
    by (cases m; cases "g_state g") (auto simp: guard_op_defs rest_ok_def LATCH_EXCLUSIVE_BIT_def Let_def)
qed (use assms in \<open>cases "g_state g"; auto simp: guard_op_defs rest_ok_def LATCH_EXCLUSIVE_BIT_def is_upgrade_def Let_def\<close>)+

section \<open>The invariant\<close>

definition latch_ok :: "HybridLatch \<Rightarrow> bool" where
  "latch_ok l \<longleftrightarrow> (lt_owner l \<noteq> None \<longrightarrow> lt_readers l = {}) \<and> (lt_owner l = None \<longrightarrow> \<not> is_exclusive (lt_version l))"

definition seen_ok :: "nat \<Rightarrow> nat \<Rightarrow> nat \<times> nat \<Rightarrow> bool" where
  "seen_ok c d = (\<lambda>(c', d'). c' \<le> c \<and> d' \<le> d \<and> (c' = c \<and> even c \<longrightarrow> d' = d))"

definition sys_inv :: "latch_sys \<Rightarrow> bool" where
  "sys_inv s \<longleftrightarrow>
     latch_ok (sys_latch s) \<and> lt_version (sys_latch s) = of_nat (sys_clock s) \<and>
     (\<forall>i. seen_ok (sys_clock s) (sys_data s) (sys_seen s i)) \<and>
     (\<forall>i. conforms (sys_prog s i) (holds i (sys_latch s)) (of_nat (fst (sys_seen s i))))"

lemma even_of_nat_u64 [simp]: "even (of_nat n :: u64) \<longleftrightarrow> even n"
  by simp

lemma seen_ok_refl [simp]: "seen_ok c d (c, d)"
  by (simp add: seen_ok_def)

lemma seen_ok_tick: "seen_ok c d p \<Longrightarrow> seen_ok (Suc c) d p"
  by (auto simp: seen_ok_def)

lemma holds_cases:
  "holds i l = HNone \<longleftrightarrow> lt_owner l \<noteq> Some i \<and> i \<notin> lt_readers l"
  "holds i l = HShared w \<longleftrightarrow> lt_owner l \<noteq> Some i \<and> i \<in> lt_readers l \<and> w = lt_version l"
  "holds i l = HMutex w \<longleftrightarrow> lt_owner l = Some i \<and> \<not> is_exclusive w \<and> w = lt_version l"
  "holds i l = HWrite w \<longleftrightarrow> lt_owner l = Some i \<and> is_exclusive w \<and> w = lt_version l"
  by (auto simp: holds_def)

text \<open>
  An access of a conforming program: the latch stays well formed, the rest of the program
  conforms to what the thread holds now, what the other threads hold is unchanged, and the
  version either stays or is incremented.
\<close>

definition seen_after :: "prog \<Rightarrow> u64 \<Rightarrow> HybridLatch \<Rightarrow> u64" where
  "seen_after p seen l = (if accesses_version p then lt_version l else seen)"

lemma prog_step_conforms:
  assumes "prog_step i p l = Some (p', l')" "conforms p (holds i l) seen" "latch_ok l"
  shows "latch_ok l'" "conforms p' (holds i l') (seen_after p seen l')"
    "j \<noteq> i \<Longrightarrow> holds j l' = holds j l"
    "lt_version l' = lt_version l \<or> lt_version l' = lt_version l + 1 \<and> accesses_version p"
  using assms
  by (cases p; auto simp: latch_ok_def holds_def seen_after_def accesses_version_def
        split: if_splits hold.splits)+


lemma sys_inv_access:
  assumes inv: "sys_inv s" and step: "prog_step i (sys_prog s i) (sys_latch s) = Some (p, l)"
  shows "sys_inv (after_access i p l s)"
proof -
  let ?l = "sys_latch s"
  have ok: "latch_ok ?l" and ver: "lt_version ?l = of_nat (sys_clock s)"
    and seen: "\<And>j. seen_ok (sys_clock s) (sys_data s) (sys_seen s j)"
    and conf: "\<And>j. conforms (sys_prog s j) (holds j ?l) (of_nat (fst (sys_seen s j)))"
    using inv by (auto simp: sys_inv_def)
  note st = prog_step_conforms [OF step conf ok]
  define c where "c = (if lt_version l = lt_version ?l then sys_clock s else sys_clock s + 1)"
  have verc: "lt_version l = of_nat c" using st(4) ver by (auto simp: c_def)
  have "seen_ok c (sys_data s) (sys_seen s j)" for j
    using seen [of j] by (auto simp: c_def intro: seen_ok_tick)
  then show ?thesis
    using st(1,2,3) conf verc unfolding sys_inv_def after_access_def c_def [symmetric] Let_def
    by (auto simp: seen_after_def)
qed

lemma sys_inv_step: "sys_inv s \<Longrightarrow> latch_step s t \<Longrightarrow> sys_inv t"
proof (erule latch_step.cases, goal_cases)
  case (1 i s' p l)
  then show ?case by (simp add: sys_inv_access)
next
  case (2 s' i g op)
  then have "rest_ok (holds i (sys_latch s)) (of_nat (fst (sys_seen s i))) g"
    by (metis conforms.simps(1) sys_inv_def)
  then show ?case using 2 by (auto simp: sys_inv_def intro: guard_call_conforms)
next
  case (3 s' i g)
  then have "rest_ok (holds i (sys_latch s)) (of_nat (fst (sys_seen s i))) g"
    by (metis conforms.simps(1) sys_inv_def)
  then have "odd (sys_clock s)"
    using 3 by (auto simp: rest_ok_def holds_cases sys_inv_def is_exclusive_iff)
  then show ?case using 3 by (auto simp: sys_inv_def seen_ok_def split: prod.splits) (metis le_SucI)+
next
  case (4 s' i c)
  then have "holds i (sys_latch s) = HNone" by (metis conforms.simps(2) sys_inv_def)
  then show ?case using 4 by (auto simp: sys_inv_def rest_ok_def new_guard_def)
next
  case (5 s' i g)
  then have "rest_ok (holds i (sys_latch s)) (of_nat (fst (sys_seen s i))) g"
    by (metis conforms.simps(1) sys_inv_def)
  then show ?case using 5 by (auto simp: sys_inv_def rest_ok_def new_guard_def)
qed

lemma clock_step: "latch_step s t \<Longrightarrow> sys_clock s \<le> sys_clock t"
  by (erule latch_step.cases) (auto simp: after_access_def Let_def)

interpretation latch_sys: monotone_history latch_init latch_step sys_inv sys_clock
proof unfold_locales
  show "sys_inv s" if "latch_init s" for s
    using that by (auto simp: latch_init_def sys_inv_def latch_ok_def is_exclusive_iff seen_ok_def
        rest_ok_def new_guard_def holds_def)
qed (auto intro: sys_inv_step clock_step)

text \<open>The state of thread \<open>i\<close>'s guard while the thread is not inside an operation.\<close>

definition guard_of :: "latch_sys \<Rightarrow> nat \<Rightarrow> Guard option" where
  "guard_of s i = (case sys_prog s i of Ret g \<Rightarrow> Some g | _ \<Rightarrow> None)"

definition in_state :: "latch_sys \<Rightarrow> nat \<Rightarrow> GUARD_STATE \<Rightarrow> bool" where
  "in_state s i st = (case guard_of s i of Some g \<Rightarrow> g_state g = st | None \<Rightarrow> False)"

lemma in_state_rest:
  assumes "sys_inv s" "in_state s i st"
  obtains g where "sys_prog s i = Ret g" "g_state g = st"
    "rest_ok (holds i (sys_latch s)) (of_nat (fst (sys_seen s i))) g"
proof -
  from assms(2) obtain g where "sys_prog s i = Ret g" "g_state g = st"
    by (auto simp: in_state_def guard_of_def split: prog.splits)
  moreover from this have "conforms (Ret g) (holds i (sys_latch s)) (of_nat (fst (sys_seen s i)))"
    using assms(1) by (metis sys_inv_def)
  ultimately show thesis using that by simp
qed

text \<open>
  Schedules, to reach concrete states: \<open>run_schedule\<close> performs the given accesses, calls and
  modifications in order.
\<close>

datatype sched = Access nat | Call nat guard_op | Modify nat

fun sched_step :: "sched \<Rightarrow> latch_sys \<Rightarrow> latch_sys option" where
  "sched_step (Access i) s =
     map_option (\<lambda>(p, l). after_access i p l s) (prog_step i (sys_prog s i) (sys_latch s))"
| "sched_step (Call i op) s =
     (case guard_of s i of
        Some g \<Rightarrow> Some (s\<lparr>sys_prog := (sys_prog s)(i := guard_call op g)\<rparr>)
      | None \<Rightarrow> None)"
| "sched_step (Modify i) s = (if in_state s i EXCLUSIVE then Some (s\<lparr>sys_data := Suc (sys_data s)\<rparr>) else None)"

fun run_schedule :: "sched list \<Rightarrow> latch_sys \<Rightarrow> latch_sys option" where
  "run_schedule [] s = Some s"
| "run_schedule (x # xs) s = Option.bind (sched_step x s) (run_schedule xs)"

definition latch_init_sys :: latch_sys where
  "latch_init_sys =
     \<lparr>sys_latch = \<lparr>lt_version = 0, lt_owner = None, lt_readers = {}\<rparr>,
      sys_prog = (\<lambda>_. Ret new_guard), sys_clock = 0, sys_data = 0, sys_seen = (\<lambda>_. (0, 0))\<rparr>"

lemma sched_step_sound: "sched_step x s = Some t \<Longrightarrow> latch_step s t"
  by (cases x) (auto simp: guard_of_def in_state_def intro: latch_step.intros
      split: prog.splits if_splits option.splits)

lemma run_schedule_sound: "run_schedule xs s = Some t \<Longrightarrow> latch_step\<^sup>*\<^sup>* s t"
proof (induction xs arbitrary: s)
  case (Cons x xs)
  then obtain u where "sched_step x s = Some u" "run_schedule xs u = Some t"
    by (auto split: bind_splits)
  then show ?case using Cons.IH by (metis converse_rtranclp_into_rtranclp sched_step_sound)
qed simp

lemma run_schedule_reach:
  "run_schedule xs latch_init_sys = Some s \<Longrightarrow> reach latch_init latch_step s"
  by (rule reach_rtranclp [OF run_schedule_sound])
     (auto simp: latch_init_sys_def latch_init_def intro: reach_init)

text \<open>
  Thread 0 latches optimistically, upgrades and modifies the page while thread 1, which had read
  version 0, waits for the mutex; thread 2 then reads version 2 after the unlock.
\<close>

definition sched1 :: "sched list" where
  "sched1 = [Call 0 (Op_latch FB_JUMP), Access 0, Call 1 (Op_latch FB_SPIN), Access 1,
     Call 0 Op_toExclusive, Access 0, Access 0, Modify 0, Call 1 Op_toExclusive]"

definition sched2 :: "sched list" where
  "sched2 = [Call 0 Op_unlock, Access 0, Access 0, Call 2 (Op_latch FB_EXCLUSIVE), Access 2]"

lemmas sched_simps = sched1_def sched2_def latch_init_sys_def guard_op_defs guard_of_def in_state_def
  after_access_def accesses_version_def new_guard_def LATCH_EXCLUSIVE_BIT_def is_exclusive_iff
  isExclusivelyLatched_def

lemma sched1_runs:
  "\<exists>s. run_schedule sched1 latch_init_sys = Some s \<and> in_state s 0 EXCLUSIVE \<and> sys_data s = 1 \<and>
       sys_prog s 1 = guard_call Op_toExclusive (guard_from_snapshot 0) \<and> sys_clock s = 1"
  by (simp add: sched_simps guard_from_snapshot_def)

lemma sched2_runs:
  "\<exists>s t g. run_schedule sched1 latch_init_sys = Some s \<and> run_schedule sched2 s = Some t \<and>
       guard_of t 2 = Some g \<and> g_state g = OPTIMISTIC \<and> g_version g = lt_version (sys_latch t) \<and>
       sys_clock t = 2 \<and> sys_data t = 1"
  by (simp add: sched_simps)

text \<open>
  C26: Mutual exclusion of the hybrid latch.  In every state an interleaving of guard operations
  leads to, whatever states the guards are in when they are called, an EXCLUSIVE guard excludes
  every other EXCLUSIVE and every SHARED guard; the version word is odd while it lasts and even
  while a guard is SHARED; whenever it is odd some thread owns the mutex, and that thread is inside
  an operation or its guard is EXCLUSIVE.  The version of a SHARED or EXCLUSIVE guard is the
  latch's, as \<^verbatim>\<open>recheck()\<close> asserts.
\<close>

theorem latch_mutual_exclusion:
  assumes "reach latch_init latch_step s"
  shows "(in_state s i EXCLUSIVE \<longrightarrow> isExclusivelyLatched (sys_latch s) \<and>
       (\<forall>j. j \<noteq> i \<longrightarrow> \<not> in_state s j EXCLUSIVE \<and> \<not> in_state s j SHARED)) \<and>
    (in_state s i SHARED \<longrightarrow> \<not> isExclusivelyLatched (sys_latch s)) \<and>
    (isExclusivelyLatched (sys_latch s) \<longrightarrow>
       (\<exists>j. lt_owner (sys_latch s) = Some j \<and> (guard_of s j = None \<or> in_state s j EXCLUSIVE))) \<and>
    (\<forall>g. guard_of s i = Some g \<and> g_state g \<in> {SHARED, EXCLUSIVE} \<longrightarrow> g_version g = lt_version (sys_latch s))"
proof -
  have inv: "sys_inv s" using assms by (rule latch_sys.reach_inv)
  then have ok: "latch_ok (sys_latch s)" by (simp add: sys_inv_def)
  have rest: "rest_ok (holds j (sys_latch s)) (of_nat (fst (sys_seen s j))) g" if "guard_of s j = Some g" for j g
    using inv that by (auto simp: sys_inv_def guard_of_def split: prog.splits) (metis conforms.simps(1))
  have ex: "lt_owner (sys_latch s) = Some j \<and> isExclusivelyLatched (sys_latch s)" if "in_state s j EXCLUSIVE" for j
    using inv that by (rule in_state_rest) (auto simp: rest_ok_def holds_cases isExclusivelyLatched_def)
  have sh: "j \<in> lt_readers (sys_latch s) \<and> \<not> isExclusivelyLatched (sys_latch s)" if "in_state s j SHARED" for j
    using inv that by (rule in_state_rest) (auto simp: rest_ok_def holds_cases isExclusivelyLatched_def)
  have "\<exists>j. lt_owner (sys_latch s) = Some j \<and> (guard_of s j = None \<or> in_state s j EXCLUSIVE)" if o: "isExclusivelyLatched (sys_latch s)"
  proof -
    obtain j where j: "lt_owner (sys_latch s) = Some j" using ok o by (auto simp: latch_ok_def isExclusivelyLatched_def)
    then have "holds j (sys_latch s) = HWrite (lt_version (sys_latch s))" using o by (simp add: holds_def isExclusivelyLatched_def)
    then have "guard_of s j = None \<or> in_state s j EXCLUSIVE"
      using rest [of j] rest_ok_exclusive by (cases "guard_of s j") (auto simp: in_state_def)
    then show ?thesis using j by blast
  qed
  moreover have "g_version g = lt_version (sys_latch s)" if "guard_of s i = Some g" "g_state g \<in> {SHARED, EXCLUSIVE}" for g
    using rest [OF that(1)] that(2) by (auto simp: rest_ok_def holds_cases)
  ultimately show ?thesis using ex sh ok by (metis empty_iff latch_ok_def option.distinct(1) option.inject)
qed

theorem latch_mutual_exclusion_witness:
  "\<exists>s. reach latch_init latch_step s \<and> in_state s 0 EXCLUSIVE \<and> isExclusivelyLatched (sys_latch s) \<and>
       \<not> in_state s 1 EXCLUSIVE"
proof -
  obtain s where s: "run_schedule sched1 latch_init_sys = Some s" "in_state s 0 EXCLUSIVE"
    using sched1_runs by blast
  then show ?thesis
    using latch_mutual_exclusion [OF run_schedule_reach [OF s(1)], of 0] run_schedule_reach [OF s(1)]
    by (metis zero_neq_one)
qed

text \<open>
  C25: Optimistic reads are validated by the version.  When an OPTIMISTIC guard's version is the
  latch's, so that \<^verbatim>\<open>recheck()\<close> does not jump, what the latch protects has not been
  modified since the guard read its version and nobody holds the latch exclusively, provided the
  64-bit version word has not gone all the way round.
\<close>

theorem optimistic_read_valid:
  assumes "reach latch_init latch_step s" "guard_of s i = Some g" "g_state g = OPTIMISTIC"
    and "g_version g = lt_version (sys_latch s)" "sys_clock s < 2 ^ 64"
  shows "sys_data s = snd (sys_seen s i) \<and> (\<forall>j. \<not> in_state s j EXCLUSIVE)"
proof -
  have inv: "sys_inv s" using assms(1) by (rule latch_sys.reach_inv)
  have "in_state s i OPTIMISTIC" using assms by (simp add: in_state_def)
  then have g: "rest_ok (holds i (sys_latch s)) (of_nat (fst (sys_seen s i))) g"
    using inv assms by (auto simp: guard_of_def split: prog.splits elim!: in_state_rest)
  have seen: "seen_ok (sys_clock s) (sys_data s) (sys_seen s i)" using inv by (simp add: sys_inv_def)
  then have le: "fst (sys_seen s i) \<le> sys_clock s" by (auto simp: seen_ok_def split: prod.splits)
  have "(of_nat (fst (sys_seen s i)) :: u64) = of_nat (sys_clock s)"
    using g assms inv by (simp add: rest_ok_def sys_inv_def)
  then have "unat (of_nat (fst (sys_seen s i)) :: u64) = unat (of_nat (sys_clock s) :: u64)" by simp
  then have "fst (sys_seen s i) = sys_clock s"
    using assms(5) le by (simp add: unat_of_nat take_bit_nat_eq_self)
  moreover have ev: "\<not> is_exclusive (lt_version (sys_latch s))" using g assms by (simp add: rest_ok_def)
  then have "even (sys_clock s)" using inv by (simp add: is_exclusive_iff sys_inv_def)
  ultimately have "sys_data s = snd (sys_seen s i)" using seen by (auto simp: seen_ok_def split: prod.splits)
  moreover have "\<not> in_state s j EXCLUSIVE" for j
    using ev inv by (auto simp: rest_ok_def holds_cases elim!: in_state_rest)
  ultimately show ?thesis by blast
qed

theorem optimistic_read_valid_witness:
  "\<exists>s. reach latch_init latch_step s \<and> in_state s 2 OPTIMISTIC \<and> sys_data s = 1 \<and>
       snd (sys_seen s 2) = 1"
proof -
  obtain s t g where st: "run_schedule sched1 latch_init_sys = Some s" "run_schedule sched2 s = Some t"
    and g: "guard_of t 2 = Some g" "g_state g = OPTIMISTIC" "g_version g = lt_version (sys_latch t)"
    and t: "sys_clock t = 2" "sys_data t = 1"
    using sched2_runs by blast
  have r: "reach latch_init latch_step t"
    using reach_rtranclp [OF run_schedule_sound [OF st(2)] run_schedule_reach [OF st(1)]] .
  have "sys_data t = snd (sys_seen t 2)" using optimistic_read_valid [OF r g] t by simp
  then show ?thesis using r t g by (auto simp: in_state_def)
qed

text \<open>
  The version word never goes back.  Along every run of guard operations the version of the
  latch does not decrease, as the comment on \<^verbatim>\<open>BufferFrame::Header::latch\<close> demands,
  until it has been incremented 2 ^ 64 times.
\<close>

lemma latch_version_monotone:
  assumes "reach latch_init latch_step s" "latch_step\<^sup>*\<^sup>* s t" "sys_clock t < 2 ^ 64"
  shows "unat (lt_version (sys_latch s)) \<le> unat (lt_version (sys_latch t))"
proof -
  have s: "sys_inv s" using assms(1) by (rule latch_sys.reach_inv)
  have t: "sys_inv t" using assms(2) s by (rule latch_sys.inv_rtranclp)
  have "sys_clock s \<le> sys_clock t" using assms(2) s by (rule latch_sys.hist_rtranclp)
  then show ?thesis using s t assms(3) by (simp add: sys_inv_def unat_of_nat take_bit_nat_eq_self)
qed

section \<open>Upgrades under contention\<close>





text \<open>
  \<^verbatim>\<open>BMExclusiveUpgradeIfNeeded\<close> notes whether its guard is EXCLUSIVE already, but upgrades it all
  the same, which the entry assertion of \<^verbatim>\<open>tryToExclusive\<close> refuses.
\<close>

lemma upgrade_if_needed_exclusive:
  "g_state g = EXCLUSIVE \<Longrightarrow> BMExclusiveUpgradeIfNeeded g = (True, Abort)"
  by (simp add: BMExclusiveUpgradeIfNeeded_def tryToExclusive_def asserting_def)

section \<open>Operations without contention\<close>

text \<open>A thread running alone: at most \<open>n\<close> accesses of its program.\<close>

fun run_alone :: "nat \<Rightarrow> nat \<Rightarrow> prog \<Rightarrow> HybridLatch \<Rightarrow> prog \<times> HybridLatch" where
  "run_alone 0 i p l = (p, l)"
| "run_alone (Suc n) i p l =
     (case prog_step i p l of None \<Rightarrow> (p, l) | Some (p', l') \<Rightarrow> run_alone n i p' l')"

lemmas run_alone_simps = eval_nat_numeral guard_op_defs LATCH_EXCLUSIVE_BIT_def

text \<open>Releasing an exclusive guard: two increments after the upgrade, the mutex is free again.\<close>

lemma unlock_exclusive:
  assumes "g_state g = EXCLUSIVE" "lt_owner l = Some i"
  shows "run_alone 2 i (unlock g) l =
    (Ret (g\<lparr>g_version := g_version g + 1, g_state := OPTIMISTIC\<rparr>),
     l\<lparr>lt_version := g_version g + 1, lt_owner := None\<rparr>)"
  using assms by (cases l) (auto simp: run_alone_simps Let_def)

end
