(* ===== verification/LBA_Chain.thy ===== *)
theory LBA_Chain
  imports Partition RU_Epochs Compressed_Space Page_State
begin

text \<open>
  The LBA chains of \<^verbatim>\<open>buffer-manager/LBAChain.hpp\<close> and
  \<^verbatim>\<open>LBAChain.cpp\<close>, the part that runs on the RU epoch manager alone: the block
  format, the packed control words, the allocation and the writing of a sealed block, the
  chain heads, and reading a chain back.  The concurrent ring the writers record into is the
  theory \<open>LBA_Ring\<close>.

  \<open>cb_ssd\<close> is the device: what the page at \<^verbatim>\<open>pid * PAGE_SIZE\<close> reads as when it
  is reinterpreted as an \<^verbatim>\<open>LBAChainBlock\<close>.  Reads and writes of a page succeed
  (the code aborts when they do not).
\<close>

section \<open>Blocks and control words\<close>

definition HEADER_SIZE :: nat where "HEADER_SIZE = 48"
definition CAPACITY :: nat where "CAPACITY = (PAGE_SIZE - HEADER_SIZE) div 8"
definition MAGIC :: u64 where "MAGIC = 0x6E69616843414C42"

record LBAChainBlock =
  b_magic :: u64
  b_pid :: PID
  b_prev :: PID
  b_ru_epoch :: ru_epoch_t
  b_written_ru_epoch :: ru_epoch_t
  b_count :: nat
  b_pad :: u32
  b_entries :: "PID list"

definition CLOSED :: u64 where "CLOSED = push_bit 30 1"
definition COUNT_MASK :: u64 where "COUNT_MASK = push_bit 32 1 - 1"

definition makeWord :: "nat \<Rightarrow> u64" where
  "makeWord seq = push_bit 32 (of_nat seq)"

definition wordSeq :: "u64 \<Rightarrow> u32" where
  "wordSeq word = ucast (drop_bit 32 word)"

definition wordCount :: "u64 \<Rightarrow> nat" where
  "wordCount word = unat (word AND COUNT_MASK)"

section \<open>The parts of the buffer manager a chain uses\<close>

record chain_bm =
  cb_partitions :: "Partition list"
  cb_space :: CompressedSpace
  cb_track_discard_state :: bool
  cb_discard_state :: "PID \<Rightarrow> u64"
  cb_ru_discard_set :: "ruh_id_t \<Rightarrow> RUEpochsState"
  cb_ru_epoch :: ru_epoch_t
  cb_reclaimed_ru_epoch :: "ruh_id_t \<Rightarrow> ru_epoch_t"
  cb_max_open_ru_epochs :: u64
  cb_heads :: "PID list"
  cb_ssd_heads :: "PID list"
  cb_ssd :: "PID \<Rightarrow> LBAChainBlock"

definition getPartitionID :: "PID \<Rightarrow> chain_bm \<Rightarrow> nat" where
  "getPartitionID pid bm = unat (pid AND of_nat (length (cb_partitions bm) - 1))"

definition recyclePID :: "flags \<Rightarrow> PID \<Rightarrow> ru_epoch_t \<Rightarrow> ruh_id_t \<Rightarrow> chain_bm \<Rightarrow> chain_bm" where
  "recyclePID fl pid ru_epoch ruh bm =
     (if FLAGS_recycle_pages fl
      then (let i = getPartitionID pid bm
            in bm\<lparr>cb_partitions := (cb_partitions bm)[i := freePage pid ru_epoch ruh (cb_partitions bm ! i)]\<rparr>)
      else bm)"

definition countBlockWrite :: "nat \<Rightarrow> ru_epoch_t \<Rightarrow> chain_bm \<Rightarrow> chain_bm" where
  "countBlockWrite block ru_epoch bm =
     (let (prev, sp) = exchangeBlockRUEpoch block ru_epoch (cb_space bm);
          bm = bm\<lparr>cb_space := sp\<rparr>;
          ring = cb_ru_discard_set bm DEFAULT_RUH
      in if prev \<noteq> UNMAPPED_RU_EPOCH \<and> prev > cb_reclaimed_ru_epoch bm DEFAULT_RUH
         then (let set = ring_at ring (nat prev)
               in bm\<lparr>cb_ru_discard_set := (cb_ru_discard_set bm)(DEFAULT_RUH :=
                    ring_put ring (nat prev) (set\<lparr>block_invalid := block_invalid set + 1\<rparr>))\<rparr>)
         else bm)"

section \<open>Allocating, writing and recycling a block\<close>

text \<open>\<open>r\<close> is the random number of \<^verbatim>\<open>randomPartition()\<close>; running out of
  space aborts the process.\<close>

definition allocateBlock :: "flags \<Rightarrow> nat \<Rightarrow> chain_bm \<Rightarrow> (PID \<times> chain_bm) option" where
  "allocateBlock fl r bm =
     (if FLAGS_compress_pages fl
      then (case allocateRawBlock (cb_space bm) of
              Inl _ \<Rightarrow> None
            | Inr (block, sp) \<Rightarrow> Some (of_nat block, bm\<lparr>cb_space := sp\<rparr>))
      else do {
        part \<leftarrow> nth_opt (cb_partitions bm) r;
        let ((pid, prev_ru_epoch, prev_ruh), part') = nextPID part;
        let bm1 = bm\<lparr>cb_partitions := (cb_partitions bm)[r := part']\<rparr>;
        ensure (pid \<noteq> INVALID_PID);
        ensure (cb_track_discard_state bm \<longrightarrow> isFree (cb_discard_state bm pid));
        let ring = cb_ru_discard_set bm1 prev_ruh;
        let set = ring_at ring (nat prev_ru_epoch);
        Some (pid,
          if prev_ru_epoch \<noteq> UNMAPPED_RU_EPOCH \<and> prev_ru_epoch > cb_reclaimed_ru_epoch bm1 prev_ruh
          then bm1\<lparr>cb_ru_discard_set := (cb_ru_discard_set bm1)(prev_ruh :=
                 ring_put ring (nat prev_ru_epoch)
                   (set\<lparr>ds_invalid := ds_invalid set + 1, block_invalid := block_invalid set + 1\<rparr>))\<rparr>
          else bm1)
      })"

definition head_index :: "chain_bm \<Rightarrow> ru_epoch_t \<Rightarrow> nat" where
  "head_index bm ru_epoch = unat ((of_int ru_epoch :: u64) mod cb_max_open_ru_epochs bm)"

text \<open>
  The part of \<^verbatim>\<open>seal\<close> for a block with entries: what is written to the device, the
  accounting, and the new head.
\<close>

definition sealed_block :: "PID \<Rightarrow> PID \<Rightarrow> ru_epoch_t \<Rightarrow> nat \<Rightarrow> LBAChainBlock \<Rightarrow> LBAChainBlock" where
  "sealed_block pid head written_ru_epoch reserved b =
     b\<lparr>b_entries := take reserved (b_entries b) @ replicate (CAPACITY - reserved) INVALID_PID,
       b_magic := MAGIC, b_pid := pid, b_prev := head, b_written_ru_epoch := written_ru_epoch,
       b_count := reserved, b_pad := 0\<rparr>"

definition count_chain_block :: "flags \<Rightarrow> ru_epoch_t \<Rightarrow> chain_bm \<Rightarrow> chain_bm option" where
  "count_chain_block fl written_ru_epoch bm =
     do {
       set \<leftarrow> ring_get (cb_ru_discard_set bm DEFAULT_RUH) (nat written_ru_epoch);
       let set1 = set\<lparr>block_total := block_total set + 1\<rparr>;
       let set2 = (if \<not> FLAGS_compress_pages fl then set1\<lparr>ds_total := ds_total set1 + 1\<rparr> else set1);
       Some (bm\<lparr>cb_ru_discard_set := (cb_ru_discard_set bm)(DEFAULT_RUH :=
                  ring_put (cb_ru_discard_set bm DEFAULT_RUH) (nat written_ru_epoch) set2)\<rparr>)
     }"

definition count_raw_block :: "flags \<Rightarrow> PID \<Rightarrow> ru_epoch_t \<Rightarrow> chain_bm \<Rightarrow> chain_bm" where
  "count_raw_block fl pid written_ru_epoch bm =
     (if FLAGS_compress_pages fl then countBlockWrite (unat pid) written_ru_epoch bm else bm)"

definition seal_write ::
  "flags \<Rightarrow> nat \<Rightarrow> nat \<Rightarrow> LBAChainBlock \<Rightarrow> chain_bm \<Rightarrow> (LBAChainBlock \<times> chain_bm) option" where
  "seal_write fl r reserved b bm =
     do {
       (pid, bm1) \<leftarrow> allocateBlock fl r bm;
       ensure (FLAGS_bg_page_fixer_variant fl = 2);
       let h = head_index bm1 (b_ru_epoch b);
       head \<leftarrow> nth_opt (cb_heads bm1) h;
       let written_ru_epoch = cb_ru_epoch bm1;
       let b' = sealed_block pid head written_ru_epoch reserved b;
       let bm2 = count_raw_block fl pid written_ru_epoch bm1;
       bm3 \<leftarrow> count_chain_block fl written_ru_epoch (bm2\<lparr>cb_ssd := (cb_ssd bm2)(pid := b')\<rparr>);
       Some (b', bm3\<lparr>cb_heads := (cb_heads bm3)[h := pid]\<rparr>)
     }"

definition note_dirty_head :: "ru_epoch_t \<Rightarrow> ru_epoch_t list \<Rightarrow> ru_epoch_t list" where
  "note_dirty_head ru_epoch dirty_heads =
     (if dirty_heads = [] \<or> last dirty_heads \<noteq> ru_epoch then dirty_heads @ [ru_epoch] else dirty_heads)"

text \<open>
  \<^verbatim>\<open>writeChainHeadToPersistantStorage\<close> writes the 4 KiB block that holds the head:
  the heads that share it are written with it.
\<close>

definition head_block :: "chain_bm \<Rightarrow> nat \<Rightarrow> u64" where
  "head_block bm h = chainHeadBlockOffset (cb_max_open_ru_epochs bm) (of_nat h)"

definition writeChainHeadToPersistantStorage :: "ru_epoch_t \<Rightarrow> chain_bm \<Rightarrow> chain_bm" where
  "writeChainHeadToPersistantStorage ru_epoch bm =
     bm\<lparr>cb_ssd_heads :=
        map (\<lambda>h. if head_block bm h = head_block bm (head_index bm ru_epoch)
                 then cb_heads bm ! h else cb_ssd_heads bm ! h) [0..<length (cb_heads bm)]\<rparr>"

definition persistDirtyHeads :: "ru_epoch_t list \<Rightarrow> chain_bm \<Rightarrow> ru_epoch_t list \<times> chain_bm" where
  "persistDirtyHeads dirty_heads bm = ([], fold writeChainHeadToPersistantStorage dirty_heads bm)"

definition recycleBlock :: "flags \<Rightarrow> int \<Rightarrow> PID \<Rightarrow> ru_epoch_t \<Rightarrow> chain_bm \<Rightarrow> chain_bm option" where
  "recycleBlock fl tid pid written_ru_epoch bm =
     (if FLAGS_compress_pages fl
      then (case cs_free tid (rawBlockLocation (unat pid)) (cb_space bm) of
              Inl _ \<Rightarrow> None | Inr sp \<Rightarrow> Some (bm\<lparr>cb_space := sp\<rparr>))
      else Some (recyclePID fl pid written_ru_epoch DEFAULT_RUH bm))"

section \<open>Reading a chain\<close>

text \<open>
  The loop of \<^verbatim>\<open>readChain\<close>.  The chain on the device may be cyclic, so the loop has
  fuel; \<open>None\<close> is that a check failed or that the fuel ran out.
\<close>

fun readChain ::
  "nat \<Rightarrow> (PID \<Rightarrow> LBAChainBlock) \<Rightarrow> PID \<Rightarrow> ru_epoch_t \<Rightarrow> PID list \<times> (PID \<times> ru_epoch_t) list \<Rightarrow>
   (PID list \<times> (PID \<times> ru_epoch_t) list) option" where
  "readChain fuel ssd pid ru_epoch (entries, blocks) =
     (if pid = INVALID_PID then Some (entries, blocks)
      else case fuel of
        0 \<Rightarrow> None
      | Suc fuel' \<Rightarrow>
          (let b = ssd pid
           in do { ensure (b_magic b = MAGIC);
                   ensure (b_pid b = pid);
                   ensure (b_ru_epoch b = ru_epoch);
                   ensure (b_count b \<le> CAPACITY);
                   readChain fuel' ssd (b_prev b) ru_epoch
                     (entries @ take (b_count b) (b_entries b), blocks @ [(pid, b_written_ru_epoch b)]) }))"

declare readChain.simps [simp del]

section \<open>Chains as lists of blocks\<close>

text \<open>
  A chain, newest block first: where each block is, the RU epoch it was written to, and the
  entries it lists.
\<close>

type_synonym chain = "(PID \<times> ru_epoch_t \<times> PID list) list"

definition chain_entries :: "chain \<Rightarrow> PID list" where
  "chain_entries c = concat (map (\<lambda>(pid, w, es). es) c)"

definition chain_blocks :: "chain \<Rightarrow> (PID \<times> ru_epoch_t) list" where
  "chain_blocks c = map (\<lambda>(pid, w, es). (pid, w)) c"

definition chain_pids :: "chain \<Rightarrow> PID set" where
  "chain_pids c = fst ` set c"

fun linked :: "(PID \<Rightarrow> LBAChainBlock) \<Rightarrow> ru_epoch_t \<Rightarrow> PID \<Rightarrow> chain \<Rightarrow> bool" where
  "linked ssd e pid [] \<longleftrightarrow> pid = INVALID_PID"
| "linked ssd e pid ((p, w, es) # c) \<longleftrightarrow>
     pid = p \<and> p \<noteq> INVALID_PID \<and> b_magic (ssd p) = MAGIC \<and> b_pid (ssd p) = p \<and> b_ru_epoch (ssd p) = e \<and>
     b_count (ssd p) \<le> CAPACITY \<and> b_written_ru_epoch (ssd p) = w \<and>
     take (b_count (ssd p)) (b_entries (ssd p)) = es \<and> linked ssd e (b_prev (ssd p)) c"

lemma chain_simps [simp]:
  "chain_entries [] = []" "chain_entries ((p, w, es) # c) = es @ chain_entries c"
  "chain_blocks [] = []" "chain_blocks ((p, w, es) # c) = (p, w) # chain_blocks c"
  "chain_pids [] = {}" "chain_pids (x # c) = insert (fst x) (chain_pids c)"
  by (simp_all add: chain_entries_def chain_blocks_def chain_pids_def)

lemma linked_readChain:
  "linked ssd e pid c \<Longrightarrow> length c \<le> fuel \<Longrightarrow>
   readChain fuel ssd pid e (es, bs) = Some (es @ chain_entries c, bs @ chain_blocks c)"
proof (induction ssd e pid c arbitrary: fuel es bs rule: linked.induct)
  case (1 ssd e pid)
  then show ?case by (subst readChain.simps) simp
next
  case (2 ssd e pid p w es' c)
  then show ?case by (cases fuel; subst readChain.simps) (auto simp: Let_def)
qed

lemma linked_upd: "q \<notin> chain_pids c \<Longrightarrow> linked (ssd(q := b)) e pid c = linked ssd e pid c"
  by (induction ssd e pid c rule: linked.induct) auto

section \<open>Allocated blocks are fresh\<close>

text \<open>
  \<open>used\<close> are the PIDs (or, with compression, the raw blocks) handed out and not given back.
\<close>

definition partitions_inv :: "Partition list \<Rightarrow> PID set \<Rightarrow> bool" where
  "partitions_inv ps used \<longleftrightarrow>
     (\<exists>limit. \<forall>i < length ps.
        pid_inv (of_nat i) (of_nat (length ps)) limit (ps ! i, {p \<in> used. unat p mod length ps = i})) \<and>
     length ps < 2 ^ 64"

definition alloc_inv :: "flags \<Rightarrow> chain_bm \<Rightarrow> PID set \<Rightarrow> bool" where
  "alloc_inv fl bm used =
     (if FLAGS_compress_pages fl
      then (\<exists>pages. pages_inv (cb_space bm, pages) \<and> (\<forall>p \<in> used. rawBlockLocation (unat p) \<in> pages))
      else partitions_inv (cb_partitions bm) used)"

lemma nextPID_residue:
  assumes "pid_inv (of_nat i) (of_nat n) limit (p, used)" "i < n" "n < 2 ^ 64"
    and "nextPID p = ((pid, e, r), p')" "pid \<noteq> INVALID_PID"
  shows "unat pid mod n = i"
proof -
  have "pid_inv (of_nat i) (of_nat n) limit (p', insert pid used)"
    using pid_inv_next [OF assms(1,4,5)] by simp
  then obtain m where "unat pid \<in> nth_pid (of_nat i) (of_nat n) ` {..<m}"
    by (auto simp: pid_inv_def) (metis insertI1)
  then show ?thesis using assms(2,3) by (auto simp: nth_pid_def unat_of_nat take_bit_nat_eq_self)
qed

lemma partitions_inv_alloc:
  assumes inv: "partitions_inv ps used" and r: "r < length ps"
    and n: "nextPID (ps ! r) = ((pid, e, h), p')" and pid: "pid \<noteq> INVALID_PID"
  shows "pid \<notin> used \<and> partitions_inv (ps[r := p']) (insert pid used)"
proof -
  let ?n = "length ps"
  let ?u = "\<lambda>i. {p \<in> used. unat p mod ?n = i}"
  obtain limit where all: "\<And>i. i < ?n \<Longrightarrow> pid_inv (of_nat i) (of_nat ?n) limit (ps ! i, ?u i)" and len: "?n < 2 ^ 64"
    using inv by (auto simp: partitions_inv_def)
  have res: "unat pid mod ?n = r" using nextPID_residue [OF all [OF r] r len n pid] .
  have new: "pid_inv (of_nat r) (of_nat ?n) limit (p', insert pid (?u r))" "pid \<notin> ?u r"
    using pid_inv_next [OF all [OF r] n pid] by auto
  have "{p \<in> insert pid used. unat p mod ?n = i} = (if i = r then insert pid (?u r) else ?u i)" for i
    using res by auto
  then have "pid_inv (of_nat i) (of_nat ?n) limit (ps[r := p'] ! i, {p \<in> insert pid used. unat p mod ?n = i})"
    if "i < ?n" for i
    using that all [OF that] new(1) by (auto simp: nth_list_update)
  then show ?thesis using new(2) res len by (auto simp: partitions_inv_def)
qed


lemma allocateBlock_fields:
  assumes "allocateBlock fl r bm = Some (pid, bm')"
  shows "cb_ssd bm' = cb_ssd bm" "cb_heads bm' = cb_heads bm" "cb_ssd_heads bm' = cb_ssd_heads bm"
    "cb_max_open_ru_epochs bm' = cb_max_open_ru_epochs bm" "cb_ru_epoch bm' = cb_ru_epoch bm"
  using assms by (auto simp: allocateBlock_def Let_def split: if_splits sum.splits prod.splits bind_splits)

lemma chain_block_fresh:
  assumes inv: "alloc_inv fl bm used" and alloc: "allocateBlock fl r bm = Some (pid, bm')"
  shows "pid \<notin> used \<and> pid \<noteq> INVALID_PID \<and> alloc_inv fl bm' (insert pid used)"
proof (cases "FLAGS_compress_pages fl")
  case False
  then obtain part e h part' where "r < length (cb_partitions bm)" "cb_partitions bm ! r = part"
    "nextPID part = ((pid, e, h), part')" "pid \<noteq> INVALID_PID"
    "cb_partitions bm' = (cb_partitions bm)[r := part']"
    using alloc by (auto simp: allocateBlock_def Let_def split: if_splits prod.splits)
  then show ?thesis
    using False inv partitions_inv_alloc [of "cb_partitions bm" used r pid e h part'] by (auto simp: alloc_inv_def)
next
  case True
  then obtain b sp where b: "allocateRawBlock (cb_space bm) = Inr (b, sp)" "pid = of_nat b" "bm' = bm\<lparr>cb_space := sp\<rparr>"
    using alloc by (auto simp: allocateBlock_def split: sum.splits)
  obtain pages where pages: "pages_inv (cb_space bm, pages)" "\<forall>p \<in> used. rawBlockLocation (unat p) \<in> pages"
    using inv True by (auto simp: alloc_inv_def)
  have new: "pages_inv (sp, insert (rawBlockLocation b) pages)" "\<forall>l \<in> pages. cpid_block l \<noteq> b"
    "cpid_block (rawBlockLocation b) = b" and bound: "b * PAGE_SIZE < 2 ^ 48"
    using allocateRawBlock_Inr [OF pages(1) b(1)] by auto
  have ub: "unat pid = b" and "b < 2 ^ 64 - 1" using bound b(2) by (auto simp: PAGE_SIZE_def unat_of_nat take_bit_nat_eq_self)
  moreover have "unat INVALID_PID = 2 ^ 64 - 1"
    by (simp add: INVALID_PID_def unsigned_minus_1_eq_mask mask_eq_exp_minus_1)
  ultimately have "pid \<noteq> INVALID_PID" by auto
  moreover have "pid \<notin> used" using new(2,3) pages(2) ub by metis
  ultimately show ?thesis using True new(1) pages(2) ub b(3) by (auto simp: alloc_inv_def)
qed

section \<open>Sealing extends one chain\<close>

text \<open>
  \<open>E\<close> are the RU epochs that have a chain: their heads are distinct entries of the array of
  heads, the other entries are empty.
\<close>

definition chain_inv :: "flags \<Rightarrow> chain_bm \<Rightarrow> PID set \<Rightarrow> ru_epoch_t set \<Rightarrow> (ru_epoch_t \<Rightarrow> chain) \<Rightarrow> bool" where
  "chain_inv fl bm used E chn \<longleftrightarrow>
     alloc_inv fl bm used \<and> inj_on (head_index bm) E \<and>
     (\<forall>e \<in> E. head_index bm e < length (cb_heads bm) \<and>
        linked (cb_ssd bm) e (cb_heads bm ! head_index bm e) (chn e) \<and> chain_pids (chn e) \<subseteq> used) \<and>
     (\<forall>h < length (cb_heads bm). h \<notin> head_index bm ` E \<longrightarrow> cb_heads bm ! h = INVALID_PID)"

lemma countBlockWrite_fields [simp]:
  "cb_ssd (countBlockWrite b e bm) = cb_ssd bm" "cb_heads (countBlockWrite b e bm) = cb_heads bm"
  "cb_max_open_ru_epochs (countBlockWrite b e bm) = cb_max_open_ru_epochs bm"
  "cb_ssd_heads (countBlockWrite b e bm) = cb_ssd_heads bm"
  "cb_partitions (countBlockWrite b e bm) = cb_partitions bm"
  "cb_space (countBlockWrite b e bm) = snd (exchangeBlockRUEpoch b e (cb_space bm))"
  by (auto simp: countBlockWrite_def Let_def split: prod.splits)

lemma count_raw_block_fields [simp]:
  "cb_ssd (count_raw_block fl pid e bm) = cb_ssd bm" "cb_heads (count_raw_block fl pid e bm) = cb_heads bm"
  "cb_max_open_ru_epochs (count_raw_block fl pid e bm) = cb_max_open_ru_epochs bm"
  "cb_ssd_heads (count_raw_block fl pid e bm) = cb_ssd_heads bm"
  by (simp_all add: count_raw_block_def)

lemma alloc_inv_cong:
  "cb_space bm' = cb_space bm \<Longrightarrow> cb_partitions bm' = cb_partitions bm \<Longrightarrow> alloc_inv fl bm' used = alloc_inv fl bm used"
  by (simp add: alloc_inv_def)

lemma alloc_inv_countBlockWrite:
  assumes "alloc_inv fl bm used"
  shows "alloc_inv fl (countBlockWrite b e bm) used"
proof (cases "FLAGS_compress_pages fl")
  case True
  then obtain pages where "pages_inv (cb_space bm, pages)" "\<forall>p \<in> used. rawBlockLocation (unat p) \<in> pages"
    using assms by (auto simp: alloc_inv_def)
  moreover from this have "pages_inv (snd (exchangeBlockRUEpoch b e (cb_space bm)), pages)"
    using cs_epoch [where s = "cb_space bm" and b = b and e = e] space.inv_step by (metis prod.collapse)
  ultimately show ?thesis using True by (auto simp: alloc_inv_def)
qed (use assms in \<open>simp add: alloc_inv_def\<close>)

lemma head_index_cong: "cb_max_open_ru_epochs bm' = cb_max_open_ru_epochs bm \<Longrightarrow> head_index bm' = head_index bm"
  by (simp add: head_index_def fun_eq_iff)

lemma count_chain_block_fields:
  assumes "count_chain_block fl e bm = Some bm'"
  shows "cb_ssd bm' = cb_ssd bm" "cb_heads bm' = cb_heads bm" "cb_ssd_heads bm' = cb_ssd_heads bm"
    "cb_max_open_ru_epochs bm' = cb_max_open_ru_epochs bm" "cb_space bm' = cb_space bm"
    "cb_partitions bm' = cb_partitions bm"
  using assms by (auto simp: count_chain_block_def Let_def split: bind_splits)

text \<open>What sealing a block changes of the device and the heads.\<close>

lemma seal_write_cases:
  assumes "seal_write fl r reserved b bm = Some (b', bm')" "alloc_inv fl bm used"
  defines "h \<equiv> head_index bm (b_ru_epoch b)"
  obtains pid where "pid \<notin> used" "pid \<noteq> INVALID_PID" "alloc_inv fl bm' (insert pid used)"
    "b' = sealed_block pid (cb_heads bm ! h) (cb_ru_epoch bm) reserved b" "h < length (cb_heads bm)"
    "cb_ssd bm' = (cb_ssd bm)(pid := b')" "cb_heads bm' = (cb_heads bm)[h := pid]" "head_index bm' = head_index bm"
    "cb_ssd_heads bm' = cb_ssd_heads bm"
proof -
  obtain pid bm1 where a: "allocateBlock fl r bm = Some (pid, bm1)"
    using assms(1) by (cases "allocateBlock fl r bm") (auto simp: seal_write_def)
  note f = allocateBlock_fields [OF a]
  have h: "head_index bm1 = head_index bm" using f by (intro head_index_cong)
  let ?e = "cb_ru_epoch bm"
  let ?bm2 = "count_raw_block fl pid ?e bm1"
  let ?b = "sealed_block pid (cb_heads bm ! h) ?e reserved b"
  have hl: "h < length (cb_heads bm)"
    using assms(1) by (simp add: seal_write_def a f h h_def Let_def)
  have "Option.bind (count_chain_block fl ?e (?bm2\<lparr>cb_ssd := (cb_ssd bm)(pid := ?b)\<rparr>))
          (\<lambda>bm3. Some (?b, bm3\<lparr>cb_heads := (cb_heads bm3)[h := pid]\<rparr>)) = Some (b', bm')"
    using assms(1) hl by (simp add: seal_write_def a f h h_def Let_def)
  then obtain bm3 where c: "count_chain_block fl ?e (?bm2\<lparr>cb_ssd := (cb_ssd bm)(pid := ?b)\<rparr>) = Some bm3"
    and b': "b' = ?b" and bm'3: "bm' = bm3\<lparr>cb_heads := (cb_heads bm3)[h := pid]\<rparr>"
    by (cases "count_chain_block fl ?e (?bm2\<lparr>cb_ssd := (cb_ssd bm)(pid := ?b)\<rparr>)") simp_all
  note g = count_chain_block_fields [OF c]
  have bm': "bm' = bm3\<lparr>cb_heads := (cb_heads bm)[h := pid]\<rparr>" using bm'3 g(2) f(2) by simp
  have "alloc_inv fl ?bm2 (insert pid used)"
    using chain_block_fresh [OF assms(2) a] alloc_inv_countBlockWrite by (simp add: count_raw_block_def)
  then have "alloc_inv fl bm' (insert pid used)"
    using g by (subst alloc_inv_cong [of _ ?bm2]) (simp_all add: bm')
  moreover have "head_index bm' = head_index bm" using g f by (intro head_index_cong) (simp add: bm')
  ultimately show thesis
    using that [of pid] chain_block_fresh [OF assms(2) a] b' hl bm' g f by simp
qed

lemma chain_inv_seal:
  assumes inv: "chain_inv fl bm used E chn" and seal: "seal_write fl r reserved b bm = Some (b', bm')"
    and e: "b_ru_epoch b \<in> E" and len: "reserved \<le> CAPACITY" "length (b_entries b) = CAPACITY"
  obtains pid where "chain_inv fl bm' (insert pid used) E
      (chn(b_ru_epoch b := (pid, cb_ru_epoch bm, take reserved (b_entries b)) # chn (b_ru_epoch b)))"
    "pid \<notin> used" "cb_heads bm' = (cb_heads bm)[head_index bm (b_ru_epoch b) := pid]"
    "head_index bm' = head_index bm" "cb_ssd_heads bm' = cb_ssd_heads bm"
proof -
  have al: "alloc_inv fl bm used" and inj: "inj_on (head_index bm) E" using inv by (auto simp: chain_inv_def)
  let ?e = "b_ru_epoch b" and ?h = "head_index bm (b_ru_epoch b)"
  obtain pid where pid: "pid \<notin> used" "pid \<noteq> INVALID_PID" "alloc_inv fl bm' (insert pid used)"
    "b' = sealed_block pid (cb_heads bm ! ?h) (cb_ru_epoch bm) reserved b" "?h < length (cb_heads bm)"
    "cb_ssd bm' = (cb_ssd bm)(pid := b')" "cb_heads bm' = (cb_heads bm)[?h := pid]" "head_index bm' = head_index bm"
    "cb_ssd_heads bm' = cb_ssd_heads bm"
    using seal_write_cases [OF seal al] by blast
  let ?c = "chn(?e := (pid, cb_ru_epoch bm, take reserved (b_entries b)) # chn ?e)"
  have link: "linked (cb_ssd bm) x (cb_heads bm ! head_index bm x) (chn x)" "chain_pids (chn x) \<subseteq> used" if "x \<in> E" for x
    using inv that by (auto simp: chain_inv_def)
  have "linked (cb_ssd bm') x (cb_heads bm' ! head_index bm' x) (?c x) \<and> chain_pids (?c x) \<subseteq> insert pid used \<and>
      head_index bm' x < length (cb_heads bm')" if x: "x \<in> E" for x
  proof -
    have new: "linked ((cb_ssd bm)(pid := b')) x q (chn x) = linked (cb_ssd bm) x q (chn x)" for q
      using link(2) [OF x] pid(1) by (intro linked_upd) auto
    have "head_index bm x \<noteq> ?h" if "x \<noteq> ?e" using inj x e that by (auto dest: inj_onD)
    then show ?thesis
      using link [OF x] pid(2,4,5,6,7,8) len inv x new by (auto simp: sealed_block_def chain_inv_def)
  qed
  then have "chain_inv fl bm' (insert pid used) E ?c"
    using inv pid(3,5,7,8) e by (auto simp: chain_inv_def nth_list_update)
  then show thesis using pid by (intro that)
qed

section \<open>Sealing and reading back\<close>

text \<open>
  A block of the ring as the writers leave it: tagged with its RU epoch, its first entries filled.
\<close>

definition filled_block :: "ru_epoch_t \<Rightarrow> PID list \<Rightarrow> LBAChainBlock" where
  "filled_block e es =
     \<lparr>b_magic = 0, b_pid = 0, b_prev = 0, b_ru_epoch = e, b_written_ru_epoch = 0, b_count = 0, b_pad = 0,
      b_entries = es @ replicate (CAPACITY - length es) 0\<rparr>"

text \<open>Seals blocks one after the other, each with its random partition, RU epoch and entries.\<close>

fun seal_blocks :: "flags \<Rightarrow> (nat \<times> ru_epoch_t \<times> PID list) list \<Rightarrow> chain_bm \<Rightarrow> chain_bm option" where
  "seal_blocks fl [] bm = Some bm"
| "seal_blocks fl ((r, e, es) # xs) bm =
     do { (b', bm') \<leftarrow> seal_write fl r (length es) (filled_block e es) bm;
          seal_blocks fl xs bm' }"

definition epoch_entries :: "ru_epoch_t \<Rightarrow> (nat \<times> ru_epoch_t \<times> PID list) list \<Rightarrow> PID list" where
  "epoch_entries e xs = concat (rev (map (snd \<circ> snd) (filter (\<lambda>x. fst (snd x) = e) xs)))"

lemma epoch_entries_simps [simp]:
  "epoch_entries e [] = []"
  "epoch_entries e ((r, e', es) # xs) = epoch_entries e xs @ (if e' = e then es else [])"
  by (simp_all add: epoch_entries_def)

lemma seal_blocks_chain:
  assumes "seal_blocks fl xs bm = Some bm'" "chain_inv fl bm used E chn"
    and "\<forall>(r, e, es) \<in> set xs. e \<in> E \<and> length es \<le> CAPACITY"
  shows "\<exists>used' chn'. chain_inv fl bm' used' E chn' \<and>
     (\<forall>e. chain_entries (chn' e) = epoch_entries e xs @ chain_entries (chn e) \<and>
          length (chn' e) = length (filter (\<lambda>x. fst (snd x) = e) xs) + length (chn e))"
  using assms
proof (induction xs arbitrary: bm used chn)
  case Nil
  then show ?case by auto
next
  case (Cons x xs)
  obtain r e es where x: "x = (r, e, es)" by (cases x)
  obtain b bm1 where w: "seal_write fl r (length es) (filled_block e es) bm = Some (b, bm1)"
    and rest: "seal_blocks fl xs bm1 = Some bm'"
    using Cons.prems(1) by (auto simp: x split: bind_splits)
  have e: "e \<in> E" "length es \<le> CAPACITY" using Cons.prems(3) by (auto simp: x)
  obtain pid where inv: "chain_inv fl bm1 (insert pid used) E (chn(e := (pid, cb_ru_epoch bm, es) # chn e))"
    using chain_inv_seal [OF Cons.prems(2) w] e by (auto simp: filled_block_def)
  show ?case
    using Cons.IH [OF rest inv] Cons.prems(3) by (fastforce simp: x)
qed

text \<open>
  C28: An LBA chain reads back what was sealed.  Whatever blocks of whatever RU epochs are sealed, in
  whatever order and by whatever allocator (page identifiers or, with compression, raw blocks),
  walking the chain from the head of an RU epoch fails no check, ends, and lists exactly the
  entries of the blocks sealed for that RU epoch, newest block first, and one block per sealed
  block.
\<close>

theorem chain_roundtrip:
  assumes "seal_blocks fl xs bm = Some bm'" "alloc_inv fl bm {}"
    and "cb_heads bm = replicate (unat (cb_max_open_ru_epochs bm)) INVALID_PID" "0 < cb_max_open_ru_epochs bm"
    and "inj_on (head_index bm) (insert e ((fst \<circ> snd) ` set xs))"
    and "\<forall>(r, e, es) \<in> set xs. length es \<le> CAPACITY"
  shows "\<exists>blocks. readChain (length xs) (cb_ssd bm') (cb_heads bm' ! head_index bm' e) e ([], []) =
           Some (epoch_entries e xs, blocks) \<and>
         length blocks = length (filter (\<lambda>x. fst (snd x) = e) xs)"
proof -
  let ?E = "insert e ((fst \<circ> snd) ` set xs)"
  have "head_index bm x < unat (cb_max_open_ru_epochs bm)" for x
    using assms(4) unfolding head_index_def
    by (metis unat_mono word_mod_less_divisor)
  then have "chain_inv fl bm {} ?E (\<lambda>_. [])"
    using assms(2,3,5) by (simp add: chain_inv_def)
  moreover have "\<forall>(r, e, es) \<in> set xs. e \<in> ?E \<and> length es \<le> CAPACITY" using assms(6) by force
  ultimately obtain used' chn' where inv: "chain_inv fl bm' used' ?E chn'"
    and c: "chain_entries (chn' e) = epoch_entries e xs"
      "length (chn' e) = length (filter (\<lambda>x. fst (snd x) = e) xs)"
    using seal_blocks_chain [OF assms(1), of "{}" ?E "\<lambda>_. []"] by auto
  have "linked (cb_ssd bm') e (cb_heads bm' ! head_index bm' e) (chn' e)" using inv by (simp add: chain_inv_def)
  moreover have "length (chn' e) \<le> length xs" using c(2) by simp
  ultimately have "readChain (length xs) (cb_ssd bm') (cb_heads bm' ! head_index bm' e) e ([], []) =
      Some (epoch_entries e xs, chain_blocks (chn' e))"
    using linked_readChain c(1) by (metis append_Nil)
  then show ?thesis using c(2) by (auto simp: chain_blocks_def)
qed

text \<open>One partition of eight page identifiers, the RU epochs 3 and 4 of a ring of 8 are open.\<close>

definition chain_flags :: flags where
  "chain_flags = default_flags\<lparr>FLAGS_bg_page_fixer_variant := 2\<rparr>"

definition bm_example :: chain_bm where
  "bm_example =
     \<lparr>cb_partitions = [Partition_new 0 0 1 8 0], cb_space = cs_new 0 0 0, cb_track_discard_state = True,
      cb_discard_state = (\<lambda>_. 0), cb_ru_discard_set = (\<lambda>_. replicate 8 ((ds_new default_flags)\<lparr>cur_ru_epoch := 4\<rparr>)),
      cb_ru_epoch = 4, cb_reclaimed_ru_epoch = (\<lambda>_. 2), cb_max_open_ru_epochs = 8,
      cb_heads = replicate 8 INVALID_PID, cb_ssd_heads = replicate 8 INVALID_PID,
      cb_ssd = (\<lambda>_. filled_block 0 [])\<rparr>"

definition blocks_example :: "(nat \<times> ru_epoch_t \<times> PID list) list" where
  "blocks_example = [(0, 3, [10, 11]), (0, 4, [12]), (0, 3, [13])]"

lemma bm_example_alloc: "alloc_inv chain_flags bm_example {}"
proof -
  have "pid_init 0 1 8 (Partition_new 0 0 1 8 0, {})" by (auto simp: pid_init_def)
  then have "pid_inv 0 1 8 (Partition_new 0 0 1 8 0, {})" by (rule pid_client.inv_init)
  then show ?thesis by (auto simp: alloc_inv_def partitions_inv_def chain_flags_def bm_example_def)
qed

lemma head_index_example: "head_index bm_example 3 = 3" "head_index bm_example 4 = 4"
  by (simp_all add: head_index_def bm_example_def)

lemma seal_blocks_example: "\<exists>bm'. seal_blocks chain_flags blocks_example bm_example = Some bm'"
  by (simp add: blocks_example_def seal_write_def allocateBlock_def chain_flags_def bm_example_def
      Partition_new_def nextPID_def head_index_def filled_block_def count_chain_block_def ring_get_def ring_at_def
      ring_put_def count_raw_block_def isFree_def INVALID_PID_def Let_def word_le_nat_alt)

theorem chain_roundtrip_witness:
  "\<exists>bm' blocks. seal_blocks chain_flags blocks_example bm_example = Some bm' \<and>
     readChain 3 (cb_ssd bm') (cb_heads bm' ! head_index bm' 3) 3 ([], []) = Some ([13, 10, 11], blocks) \<and>
     length blocks = 2"
proof -
  obtain bm' where bm': "seal_blocks chain_flags blocks_example bm_example = Some bm'"
    using seal_blocks_example by blast
  have heads: "cb_heads bm_example = replicate (unat (cb_max_open_ru_epochs bm_example)) INVALID_PID"
    "0 < cb_max_open_ru_epochs bm_example"
    by (simp_all add: bm_example_def)
  have inj: "inj_on (head_index bm_example) (insert 3 ((fst \<circ> snd) ` set blocks_example))"
    by (auto simp: blocks_example_def inj_on_def head_index_example)
  have caps: "\<forall>(r, e, es) \<in> set blocks_example. length es \<le> CAPACITY"
    by (simp add: blocks_example_def CAPACITY_def HEADER_SIZE_def PAGE_SIZE_def)
  have "length blocks_example = 3" "epoch_entries 3 blocks_example = [13, 10, 11]"
    "length (filter (\<lambda>x. fst (snd x) = 3) blocks_example) = 2"
    by (simp_all add: blocks_example_def)
  then show ?thesis
    using chain_roundtrip [OF bm' bm_example_alloc heads inj caps] bm' by metis
qed

section \<open>Persisted heads\<close>

text \<open>
  Writing a head never loses another one that is already up to date; after all dirty heads are
  written, the heads on the device are those in memory wherever they differed only at dirty epochs.
\<close>

definition heads_saved :: "chain_bm \<Rightarrow> nat \<Rightarrow> bool" where
  "heads_saved bm h \<longleftrightarrow> cb_ssd_heads bm ! h = cb_heads bm ! h"

lemma writeChainHead_fields [simp]:
  "cb_heads (writeChainHeadToPersistantStorage e bm) = cb_heads bm"
  "cb_max_open_ru_epochs (writeChainHeadToPersistantStorage e bm) = cb_max_open_ru_epochs bm"
  "cb_ssd (writeChainHeadToPersistantStorage e bm) = cb_ssd bm"
  "cb_space (writeChainHeadToPersistantStorage e bm) = cb_space bm"
  "cb_partitions (writeChainHeadToPersistantStorage e bm) = cb_partitions bm"
  "head_index (writeChainHeadToPersistantStorage e bm) = head_index bm"
  by (simp_all add: writeChainHeadToPersistantStorage_def head_index_def fun_eq_iff)

lemma persistDirtyHeads_fields [simp]:
  "cb_heads (snd (persistDirtyHeads d bm)) = cb_heads bm" "cb_ssd (snd (persistDirtyHeads d bm)) = cb_ssd bm"
  "head_index (snd (persistDirtyHeads d bm)) = head_index bm"
  "cb_space (snd (persistDirtyHeads d bm)) = cb_space bm" "cb_partitions (snd (persistDirtyHeads d bm)) = cb_partitions bm"
  by (induction d arbitrary: bm) (simp_all add: persistDirtyHeads_def)

lemma writeChainHead_saves:
  "h < length (cb_heads bm) \<Longrightarrow> heads_saved bm h \<or> h = head_index bm e \<Longrightarrow>
   heads_saved (writeChainHeadToPersistantStorage e bm) h"
  by (auto simp: heads_saved_def writeChainHeadToPersistantStorage_def)

lemma persistDirtyHeads_saves:
  assumes "\<forall>h < length (cb_heads bm). heads_saved bm h \<or> h \<in> head_index bm ` set dirty"
  shows "\<forall>h < length (cb_heads bm). heads_saved (snd (persistDirtyHeads dirty bm)) h"
  using assms unfolding persistDirtyHeads_def
proof (induction dirty arbitrary: bm)
  case (Cons e dirty)
  have "\<forall>h < length (cb_heads bm). heads_saved (writeChainHeadToPersistantStorage e bm) h \<or>
      h \<in> head_index bm ` set dirty"
    using Cons.prems by (auto intro: writeChainHead_saves)
  then show ?case using Cons.IH [of "writeChainHeadToPersistantStorage e bm"] by simp
qed simp

end
