(* ===== verification/LBA_Ring.thy ===== *)
theory LBA_Ring
  imports LBA_Chain
begin

text \<open>
  The concurrent ring of \<^verbatim>\<open>LBAChain\<close> (\<^verbatim>\<open>buffer-manager/LBAChain.hpp\<close>,
  \<^verbatim>\<open>LBAChain.cpp\<close>): writers record page identifiers into the active block while the
  RU epoch manager closes and seals blocks.

  Every thread is a program counter; a step performs one access to shared memory (the private
  accesses next to it are folded in).  \<open>wpc\<close> are the points of
  \<^verbatim>\<open>record\<close>, \<open>act\<close> those of \<^verbatim>\<open>activateNext\<close>, which writers and
  the manager share, and \<open>mpc\<close> those of the manager's operations.  A loop that waits is a step
  to the same point.  The 64-bit sequence numbers and the counters of a block are natural
  numbers, the control words keep their 64-bit layout with the sequence number cut to 32 bits.
\<close>

section \<open>State\<close>

record Control =
  c_word :: u64
  c_filled :: nat
  c_reserved :: nat

record LBAChain =
  n_blocks :: nat
  open_ru_epoch :: ru_epoch_t
  controls :: "nat \<Rightarrow> Control"
  blocks :: "nat \<Rightarrow> LBAChainBlock"
  active_seq :: nat
  stalls_counter :: nat
  stalled_writers :: int
  closed_waiters :: int
  closer_waiting :: bool
  sealed_seq :: nat
  dirty_heads :: "ru_epoch_t list"

definition control :: "LBAChain \<Rightarrow> nat \<Rightarrow> Control" where
  "control c seq = controls c (seq mod n_blocks c)"

definition block :: "LBAChain \<Rightarrow> nat \<Rightarrow> LBAChainBlock" where
  "block c seq = blocks c (seq mod n_blocks c)"

definition set_control :: "nat \<Rightarrow> Control \<Rightarrow> LBAChain \<Rightarrow> LBAChain" where
  "set_control seq x c = c\<lparr>controls := (controls c)(seq mod n_blocks c := x)\<rparr>"

definition set_block :: "nat \<Rightarrow> LBAChainBlock \<Rightarrow> LBAChain \<Rightarrow> LBAChain" where
  "set_block seq b c = c\<lparr>blocks := (blocks c)(seq mod n_blocks c := b)\<rparr>"

text \<open>The constructor; \<open>m0\<close> is what the uninitialised memory of the blocks holds.\<close>

definition LBAChain_new :: "nat \<Rightarrow> ru_epoch_t \<Rightarrow> (nat \<Rightarrow> LBAChainBlock) \<Rightarrow> LBAChain option" where
  "LBAChain_new n epoch m0 =
     do { ensure (2 \<le> n);
          Some \<lparr>n_blocks = n, open_ru_epoch = epoch,
                controls = (\<lambda>i. \<lparr>c_word = makeWord i, c_filled = 0, c_reserved = 0\<rparr>),
                blocks = m0(0 := (m0 0)\<lparr>b_ru_epoch := epoch\<rparr>), active_seq = 0, stalls_counter = 0,
                stalled_writers = 0, closed_waiters = 0, closer_waiting = False, sealed_seq = 0,
                dirty_heads = []\<rparr> }"

definition stalls :: "LBAChain \<Rightarrow> nat" where "stalls c = stalls_counter c"
definition stalledWriters :: "LBAChain \<Rightarrow> int" where "stalledWriters c = stalled_writers c"
definition closedWaiters :: "LBAChain \<Rightarrow> int" where "closedWaiters c = closed_waiters c"
definition closerWaiting :: "LBAChain \<Rightarrow> bool" where "closerWaiting c = closer_waiting c"

section \<open>Activating the next block\<close>

datatype act =
    AReserve nat nat ru_epoch_t
  | AWait nat ru_epoch_t bool
  | ATag nat ru_epoch_t
  | APublish nat ru_epoch_t

text \<open>The points of \<^verbatim>\<open>activateNext\<close>; \<open>None\<close> is that it has returned.\<close>

fun act_step :: "act \<Rightarrow> LBAChain \<Rightarrow> act option \<times> LBAChain" where
  "act_step (AReserve seq reserved e) c =
     (Some (AWait seq e False), set_control seq ((control c seq)\<lparr>c_reserved := reserved\<rparr>) c)"
| "act_step (AWait seq e stalled) c =
     (if wordSeq (c_word (control c (seq + 1))) \<noteq> of_nat (seq + 1)
      then (if stalled then (Some (AWait seq e True), c)
            else (Some (AWait seq e True),
                  c\<lparr>stalls_counter := stalls_counter c + 1, stalled_writers := stalled_writers c + 1\<rparr>))
      else (Some (ATag seq e), if stalled then c\<lparr>stalled_writers := stalled_writers c - 1\<rparr> else c))"
| "act_step (ATag seq e) c =
     (Some (APublish seq e), set_block (seq + 1) ((block c (seq + 1))\<lparr>b_ru_epoch := e\<rparr>) c)"
| "act_step (APublish seq e) c = (None, c\<lparr>active_seq := seq + 1\<rparr>)"

section \<open>Writers\<close>

datatype wpc =
    WIdle
  | WLoad PID bool
  | WAdd PID bool nat
  | WFill PID bool nat nat
  | WEpoch PID bool nat nat
  | WFilled PID bool nat nat ru_epoch_t
  | WTomb PID bool nat nat
  | WTombFilled PID bool nat nat
  | WActivate PID bool nat
  | WAct PID bool act
  | WDone PID ru_epoch_t

definition fetch_add :: "nat \<Rightarrow> u64 \<Rightarrow> LBAChain \<Rightarrow> u64 \<times> LBAChain" where
  "fetch_add seq x c =
     (let k = control c seq in (c_word k, set_control seq (k\<lparr>c_word := c_word k + x\<rparr>) c))"

definition add_filled :: "nat \<Rightarrow> LBAChain \<Rightarrow> LBAChain" where
  "add_filled seq c = (let k = control c seq in set_control seq (k\<lparr>c_filled := c_filled k + 1\<rparr>) c)"

definition put_entry :: "nat \<Rightarrow> nat \<Rightarrow> PID \<Rightarrow> LBAChain \<Rightarrow> LBAChain" where
  "put_entry seq slot pid c =
     (let b = block c seq in set_block seq (b\<lparr>b_entries := (b_entries b)[slot := pid]\<rparr>) c)"

text \<open>
  One step of a writer that is inside \<^verbatim>\<open>record(pid)\<close>; the flag is the local
  variable \<^verbatim>\<open>waiting\<close>.
\<close>

fun record_step :: "wpc \<Rightarrow> LBAChain \<Rightarrow> wpc \<times> LBAChain" where
  "record_step (WLoad pid waiting) c = (WAdd pid waiting (active_seq c), c)"
| "record_step (WAdd pid waiting seq) c =
     (let (word, c') = fetch_add seq 1 c; slot = wordCount word
      in if slot < CAPACITY
         then (if wordSeq word = of_nat seq then (WFill pid waiting seq slot, c')
               else (WTomb pid waiting seq slot, c'))
         else if slot = CAPACITY \<and> wordSeq word = of_nat seq then (WActivate pid waiting seq, c')
         else (WLoad pid True,
               if waiting then c' else c'\<lparr>closed_waiters := closed_waiters c' + 1\<rparr>))"
| "record_step (WFill pid waiting seq slot) c = (WEpoch pid waiting seq slot, put_entry seq slot pid c)"
| "record_step (WEpoch pid waiting seq slot) c = (WFilled pid waiting seq slot (b_ru_epoch (block c seq)), c)"
| "record_step (WFilled pid waiting seq slot e) c =
     (WDone pid e,
      let c' = add_filled seq c in if waiting then c'\<lparr>closed_waiters := closed_waiters c' - 1\<rparr> else c')"
| "record_step (WTomb pid waiting seq slot) c = (WTombFilled pid waiting seq slot, put_entry seq slot INVALID_PID c)"
| "record_step (WTombFilled pid waiting seq slot) c = (WLoad pid waiting, add_filled seq c)"
| "record_step (WActivate pid waiting seq) c =
     (WAct pid waiting (AReserve seq CAPACITY (b_ru_epoch (block c seq))), c)"
| "record_step (WAct pid waiting a) c =
     (case act_step a c of (Some a', c') \<Rightarrow> (WAct pid waiting a', c') | (None, c') \<Rightarrow> (WLoad pid waiting, c'))"
| "record_step pc c = (pc, c)"

section \<open>The RU epoch manager\<close>

text \<open>
  \<open>after\<close>: what the caller of \<^verbatim>\<open>closeActiveBlock\<close> does when it returns
  (\<^verbatim>\<open>openRUEpoch\<close>, \<^verbatim>\<open>sealUpTo\<close>); \<open>ret\<close>: where
  \<^verbatim>\<open>sealClosedBlocks\<close> returns to.
\<close>

datatype after = ToOpen ru_epoch_t | ToSeal

datatype ret = RetIdle | RetActive nat ru_epoch_t after | RetSlot nat nat ru_epoch_t after

datatype mpc =
    MIdle
  | MClose ru_epoch_t after
  | MCloseAdd nat ru_epoch_t after
  | MWaitActive nat ru_epoch_t after
  | MWaitSlot nat nat ru_epoch_t after
  | MAct act after
  | MSealLoad ret
  | MSealLoop nat ret
  | MSealWait nat ret
  | MSealWrite nat ret
  | MSealFilled nat ret
  | MSealWord nat ret
  | MPersist ret
  | MAborted

fun return_to :: "ret \<Rightarrow> mpc" where
  "return_to RetIdle = MIdle"
| "return_to (RetActive seq next_e af) = MWaitActive seq next_e af"
| "return_to (RetSlot seq reserved next_e af) = MWaitSlot seq reserved next_e af"

text \<open>
  One step of the manager, with the state of the buffer manager and the number of blocks
  written so far in the call.  \<open>r\<close> is the random partition a sealed block is allocated from.
\<close>

fun manager_step ::
  "flags \<Rightarrow> nat \<Rightarrow> mpc \<Rightarrow> LBAChain \<times> chain_bm \<times> nat \<Rightarrow> mpc \<times> LBAChain \<times> chain_bm \<times> nat" where
  "manager_step fl r (MClose next_e af) (c, bm, written) = (MCloseAdd (active_seq c) next_e af, c, bm, written)"
| "manager_step fl r (MCloseAdd seq next_e af) (c, bm, written) =
     (let (word, c') = fetch_add seq CLOSED c; reserved = wordCount word
      in if wordSeq word \<noteq> of_nat seq then (MAborted, c', bm, written)
         else if reserved > CAPACITY
         then (MWaitActive seq next_e af, c'\<lparr>closer_waiting := True\<rparr>, bm, written)
         else (MWaitSlot seq reserved next_e af, c'\<lparr>closer_waiting := True\<rparr>, bm, written))"
| "manager_step fl r (MWaitActive seq next_e af) (c, bm, written) =
     (if active_seq c = seq then (MSealLoad (RetActive seq next_e af), c, bm, written)
      else (MClose next_e af, c, bm, written))"
| "manager_step fl r (MWaitSlot seq reserved next_e af) (c, bm, written) =
     (if wordSeq (c_word (control c (seq + 1))) \<noteq> of_nat (seq + 1)
      then (MSealLoad (RetSlot seq reserved next_e af), c, bm, written)
      else (MAct (AReserve seq reserved next_e) af, c, bm, written))"
| "manager_step fl r (MAct a af) (c, bm, written) =
     (case act_step a c of
        (Some a', c') \<Rightarrow> (MAct a' af, c', bm, written)
      | (None, c') \<Rightarrow>
          (case af of
             ToOpen new_e \<Rightarrow> (MIdle, c'\<lparr>closer_waiting := False, open_ru_epoch := new_e\<rparr>, bm, written)
           | ToSeal \<Rightarrow> (MSealLoad RetIdle, c'\<lparr>closer_waiting := False\<rparr>, bm, written)))"
| "manager_step fl r (MSealLoad rt) (c, bm, written) = (MSealLoop (active_seq c) rt, c, bm, written)"
| "manager_step fl r (MSealLoop act_seq rt) (c, bm, written) =
     (if sealed_seq c < act_seq then (MSealWait act_seq rt, c, bm, written) else (MPersist rt, c, bm, written))"
| "manager_step fl r (MSealWait act_seq rt) (c, bm, written) =
     (let k = control c (sealed_seq c)
      in if c_filled k \<noteq> c_reserved k then (MSealWait act_seq rt, c, bm, written)
         else (MSealWrite act_seq rt, c, bm, written))"
| "manager_step fl r (MSealWrite act_seq rt) (c, bm, written) =
     (let seq = sealed_seq c; reserved = c_reserved (control c seq); b = block c seq
      in if reserved > 0
         then (case seal_write fl r reserved b bm of
                 None \<Rightarrow> (MAborted, c, bm, written)
               | Some (b', bm') \<Rightarrow>
                   (MSealFilled act_seq rt,
                    (set_block seq b' c)\<lparr>dirty_heads := note_dirty_head (b_ru_epoch b) (dirty_heads c)\<rparr>,
                    bm', written + 1))
         else (MSealFilled act_seq rt, c, bm, written))"
| "manager_step fl r (MSealFilled act_seq rt) (c, bm, written) =
     (MSealWord act_seq rt,
      set_control (sealed_seq c) ((control c (sealed_seq c))\<lparr>c_filled := 0\<rparr>) c, bm, written)"
| "manager_step fl r (MSealWord act_seq rt) (c, bm, written) =
     (MSealLoop act_seq rt,
      (set_control (sealed_seq c)
         ((control c (sealed_seq c))\<lparr>c_reserved := 0, c_word := makeWord (sealed_seq c + n_blocks c)\<rparr>) c)
        \<lparr>sealed_seq := sealed_seq c + 1\<rparr>, bm, written)"
| "manager_step fl r (MPersist rt) (c, bm, written) =
     (let (dirty, bm') = persistDirtyHeads (dirty_heads c) bm
      in (return_to rt, c\<lparr>dirty_heads := dirty\<rparr>, bm', written))"
| "manager_step fl r pc (c, bm, written) = (pc, c, bm, written)"

text \<open>The calls of the manager.\<close>

definition openRUEpoch :: "ru_epoch_t \<Rightarrow> LBAChain \<Rightarrow> mpc" where
  "openRUEpoch new_e c = (if open_ru_epoch c < new_e then MClose new_e (ToOpen new_e) else MAborted)"

definition sealUpTo :: "ru_epoch_t \<Rightarrow> LBAChain \<Rightarrow> mpc" where
  "sealUpTo e c = (if e \<ge> open_ru_epoch c then MClose (open_ru_epoch c) ToSeal else MSealLoad RetIdle)"

definition sealClosedBlocks :: mpc where
  "sealClosedBlocks = MSealLoad RetIdle"

section \<open>The system\<close>

text \<open>
  Ghosts: \<open>recorded\<close> are the page identifiers whose \<^verbatim>\<open>record\<close> has returned, with the RU
  epoch it returned; \<open>due\<close> those the last call of \<^verbatim>\<open>sealUpTo\<close> has to make durable;
  \<open>live\<close> the RU epochs opened so far, \<open>pages\<close> the identifiers taken by other threads.
\<close>

record ring_sys =
  rs_chain :: LBAChain
  rs_bm :: chain_bm
  rs_written :: nat
  rs_writers :: "nat \<Rightarrow> wpc"
  rs_manager :: mpc
  recorded :: "(PID \<times> ru_epoch_t) set"
  due :: "(PID \<times> ru_epoch_t) set"
  live :: "ru_epoch_t set"
  pages :: "PID set"

definition recorded_by :: "wpc \<Rightarrow> (PID \<times> ru_epoch_t) set" where
  "recorded_by pc = (case pc of WFilled pid waiting seq slot e \<Rightarrow> {(pid, e)} | _ \<Rightarrow> {})"

definition writer_moves :: "nat \<Rightarrow> ring_sys \<Rightarrow> ring_sys" where
  "writer_moves i s =
     (let (pc', c') = record_step (rs_writers s i) (rs_chain s)
      in s\<lparr>rs_chain := c', rs_writers := (rs_writers s)(i := pc'),
           recorded := recorded s \<union> recorded_by (rs_writers s i)\<rparr>)"

definition manager_moves :: "flags \<Rightarrow> nat \<Rightarrow> ring_sys \<Rightarrow> ring_sys" where
  "manager_moves fl r s =
     (let (pc', c', bm', w') = manager_step fl r (rs_manager s) (rs_chain s, rs_bm s, rs_written s)
      in s\<lparr>rs_chain := c', rs_bm := bm', rs_written := w', rs_manager := pc'\<rparr>)"

text \<open>
  The steps.  An RU epoch is opened only when its entry of the array of heads is free.  The
  other threads take page identifiers, write the pages they took and move the RU epoch and the
  accounting.
\<close>

inductive ring_step :: "flags \<Rightarrow> ring_sys \<Rightarrow> ring_sys \<Rightarrow> bool" for fl where
  call_record: "rs_writers s i = WIdle \<or> (\<exists>p e. rs_writers s i = WDone p e) \<Longrightarrow> pid \<noteq> INVALID_PID \<Longrightarrow>
    ring_step fl s (s\<lparr>rs_writers := (rs_writers s)(i := WLoad pid False)\<rparr>)"
| writer: "ring_step fl s (writer_moves i s)"
| call_open: "rs_manager s = MIdle \<Longrightarrow> head_index (rs_bm s) e \<notin> head_index (rs_bm s) ` live s \<Longrightarrow>
    head_index (rs_bm s) e < length (cb_heads (rs_bm s)) \<Longrightarrow>
    ring_step fl s (s\<lparr>rs_manager := openRUEpoch e (rs_chain s), rs_written := 0, live := insert e (live s), due := {}\<rparr>)"
| call_sealUpTo: "rs_manager s = MIdle \<Longrightarrow>
    ring_step fl s (s\<lparr>rs_manager := sealUpTo e (rs_chain s), rs_written := 0, due := {x \<in> recorded s. snd x \<le> e}\<rparr>)"
| call_seal: "rs_manager s = MIdle \<Longrightarrow>
    ring_step fl s (s\<lparr>rs_manager := sealClosedBlocks, rs_written := 0, due := {}\<rparr>)"
| manager: "ring_step fl s (manager_moves fl r s)"
| take_page: "allocateBlock fl r (rs_bm s) = Some (pid, bm') \<Longrightarrow>
    ring_step fl s (s\<lparr>rs_bm := bm', pages := insert pid (pages s)\<rparr>)"
| write_page: "pid \<in> pages s \<Longrightarrow>
    ring_step fl s (s\<lparr>rs_bm := (rs_bm s)\<lparr>cb_ssd := (cb_ssd (rs_bm s))(pid := b)\<rparr>\<rparr>)"
| next_epoch:
    "ring_step fl s (s\<lparr>rs_bm := (rs_bm s)\<lparr>cb_ru_epoch := e, cb_ru_discard_set := ds, cb_reclaimed_ru_epoch := re\<rparr>\<rparr>)"

text \<open>
  The code relies on the packed count not running into the sequence number and on the 32-bit
  sequence numbers of the blocks in the ring being distinct from those of slow writers.
\<close>

definition in_range :: "LBAChain \<Rightarrow> bool" where
  "in_range c \<longleftrightarrow> sealed_seq c + 2 * n_blocks c < 2 ^ 32 \<and>
     (\<forall>i < n_blocks c. wordCount (c_word (controls c i)) < 2 ^ 31)"

definition bounded_step :: "flags \<Rightarrow> ring_sys \<Rightarrow> ring_sys \<Rightarrow> bool" where
  "bounded_step fl s t \<longleftrightarrow> ring_step fl s t \<and> in_range (rs_chain t)"

text \<open>
  Initially the ring is new; the chains of the live RU epochs may have been recovered, the one of
  the open RU epoch is continued.
\<close>

definition ring_init :: "flags \<Rightarrow> ring_sys \<Rightarrow> bool" where
  "ring_init fl s \<longleftrightarrow>
     (\<exists>n e m0. LBAChain_new n e m0 = Some (rs_chain s) \<and> (\<forall>i. length (b_entries (m0 i)) = CAPACITY) \<and> e \<in> live s) \<and>
     (\<exists>used chn. chain_inv fl (rs_bm s) used (live s) chn) \<and> in_range (rs_chain s) \<and>
     (\<forall>h < length (cb_heads (rs_bm s)). heads_saved (rs_bm s) h) \<and>
     rs_written s = 0 \<and> rs_writers s = (\<lambda>_. WIdle) \<and> rs_manager s = MIdle \<and>
     recorded s = {} \<and> due s = {} \<and> pages s = {}"

section \<open>Control words\<close>

lemma wordCount_eq: "wordCount w = unat w mod 2 ^ 32"
proof -
  have "COUNT_MASK = mask 32" by (simp add: COUNT_MASK_def mask_eq_exp_minus_1 push_bit_eq_mult)
  then have "w AND COUNT_MASK = take_bit 32 w" by (simp add: take_bit_eq_mask)
  then have "wordCount w = take_bit 32 (unat w)" by (simp only: wordCount_def unsigned_take_bit_eq)
  then show ?thesis by (simp only: take_bit_eq_mod)
qed

lemma wordSeq_eq: "wordSeq w = of_nat (unat w div 2 ^ 32)"
proof -
  have "unat (drop_bit 32 w) = unat w div 2 ^ 32" by (simp add: drop_bit_eq_div unat_div)
  moreover have "ucast (drop_bit 32 w) = (of_nat (unat (drop_bit 32 w)) :: u32)" by simp
  ultimately show ?thesis by (simp only: wordSeq_def)
qed

lemma word_add:
  assumes "wordCount w + n < 2 ^ 32"
  shows "wordCount (w + of_nat n) = wordCount w + n" "wordSeq (w + of_nat n) = wordSeq w"
proof -
  have lt: "unat w mod 2 ^ 32 + n < 2 ^ 32" using assms by (simp only: wordCount_eq)
  have "unat w < 18446744073709551616" using unsigned_less [of w] by simp
  then have "unat w div 4294967296 < 4294967296" by (simp add: less_mult_imp_div_less)
  moreover have "unat w mod 4294967296 + n < 4294967296" using lt by simp
  moreover have "unat w = unat w div 4294967296 * 4294967296 + unat w mod 4294967296"
    by (simp only: div_mult_mod_eq)
  ultimately have "unat w + n < 18446744073709551616" by linarith
  then have "unat w + n < 2 ^ 64" by simp
  then have u: "unat (w + of_nat n) = unat w + n"
    by (simp add: unat_word_ariths unat_of_nat take_bit_eq_mod mod_simps)
  have "(unat w + n) mod 2 ^ 32 = unat w mod 2 ^ 32 + n"
    using lt by (metis mod_add_left_eq mod_less)
  moreover have "(unat w + n) div 2 ^ 32 = unat w div 2 ^ 32"
    using lt by (subst div_add1_eq) simp
  ultimately show "wordCount (w + of_nat n) = wordCount w + n" "wordSeq (w + of_nat n) = wordSeq w"
    by (simp_all only: wordCount_eq wordSeq_eq u)
qed

lemma word_add_1:
  assumes "wordCount w < 2 ^ 31"
  shows "wordCount (w + 1) = wordCount w + 1" "wordSeq (w + 1) = wordSeq w"
  using word_add [of w 1] assms by simp_all

lemma word_add_CLOSED:
  assumes "wordCount w < 2 ^ 31"
  shows "wordCount (w + CLOSED) = wordCount w + 2 ^ 30" "wordSeq (w + CLOSED) = wordSeq w"
  using word_add [of w "2 ^ 30"] assms by (simp_all add: CLOSED_def push_bit_eq_mult)

lemma makeWord_parts: "wordCount (makeWord k) = 0" "wordSeq (makeWord k) = of_nat k"
proof -
  have "unat (makeWord k) = k * 2 ^ 32 mod 2 ^ 64"
    unfolding makeWord_def unsigned_push_bit_eq by (simp add: unat_of_nat take_bit_push_bit push_bit_eq_mult take_bit_eq_mod mod_mult_left_eq)
  then have u: "unat (makeWord k) = (k mod 2 ^ 32) * 2 ^ 32"
    by (simp add: mult_mod_right mult.commute)
  show "wordCount (makeWord k) = 0" unfolding wordCount_eq u by simp
  show "wordSeq (makeWord k) = of_nat k" unfolding wordSeq_eq u
    by (simp add: word_unat_eq_iff unat_of_nat take_bit_eq_mod)
qed

section \<open>Slots and their reservations\<close>

text \<open>
  The entry a writer has reserved and not yet counted in \<^verbatim>\<open>filled\<close>: the slot of the
  ring and the index of the entry.
\<close>

fun pend :: "nat \<Rightarrow> wpc \<Rightarrow> (nat \<times> nat) option" where
  "pend N (WFill pid w seq j) = Some (seq mod N, j)"
| "pend N (WEpoch pid w seq j) = Some (seq mod N, j)"
| "pend N (WFilled pid w seq j e) = Some (seq mod N, j)"
| "pend N (WTomb pid w seq j) = Some (seq mod N, j)"
| "pend N (WTombFilled pid w seq j) = Some (seq mod N, j)"
| "pend N _ = None"

definition pending :: "nat \<Rightarrow> (nat \<Rightarrow> wpc) \<Rightarrow> nat \<Rightarrow> nat set" where
  "pending N W i = {j. \<exists>t. pend N (W t) = Some (i, j)}"

text \<open>
  \<open>g i\<close> is the number of entries handed out in slot \<open>i\<close>.  As long as the manager has not closed
  the block it is read off the count; \<^verbatim>\<open>filled\<close> is behind by the pending entries,
  except in the slot \<open>rst\<close> that is being recycled.
\<close>

definition slot_ok :: "nat \<Rightarrow> Control \<Rightarrow> nat \<Rightarrow> nat set \<Rightarrow> bool \<Rightarrow> bool" where
  "slot_ok n k g P rst \<longleftrightarrow>
     n = CAPACITY \<and> g \<le> CAPACITY \<and> (wordCount (c_word k) < 2 ^ 30 \<longrightarrow> g = min (wordCount (c_word k)) CAPACITY) \<and>
     P \<subseteq> {..<g} \<and> (if rst then c_filled k = 0 \<and> P = {} else c_filled k + card P = g)"

definition pend_inj :: "nat \<Rightarrow> (nat \<Rightarrow> wpc) \<Rightarrow> bool" where
  "pend_inj N W \<longleftrightarrow> (\<forall>t u x. pend N (W t) = Some x \<longrightarrow> pend N (W u) = Some x \<longrightarrow> t = u)"

definition slots_inv ::
  "nat \<Rightarrow> (nat \<Rightarrow> Control) \<Rightarrow> (nat \<Rightarrow> LBAChainBlock) \<Rightarrow> (nat \<Rightarrow> wpc) \<Rightarrow> (nat \<Rightarrow> nat) \<Rightarrow> nat set \<Rightarrow> bool" where
  "slots_inv N C B W g rst \<longleftrightarrow>
     (\<forall>i < N. slot_ok (length (b_entries (B i))) (C i) (g i) (pending N W i) (i \<in> rst)) \<and>
     pend_inj N W"

lemma pend_inj_upd:
  assumes "pend_inj N W" "pend N pc = None \<or> pend N pc = pend N (W t) \<or> (\<forall>u. pend N (W u) \<noteq> pend N pc)"
  shows "pend_inj N (W(t := pc))"
proof -
  have inj: "\<And>u v x. pend N (W u) = Some x \<Longrightarrow> pend N (W v) = Some x \<Longrightarrow> u = v"
    using assms(1) by (auto simp: pend_inj_def)
  have new: "t = b" if "pend N pc = Some x" "pend N (W b) = Some x" for b x
    using assms(2)
  proof (elim disjE)
    show "t = b" if "pend N pc = pend N (W t)" using inj [of t x b] \<open>pend N pc = Some x\<close> \<open>pend N (W b) = Some x\<close> that by simp
  qed (use that in simp_all)
  have "a = b" if "pend N ((W(t := pc)) a) = Some x" "pend N ((W(t := pc)) b) = Some x" for a b x
    using that unfolding fun_upd_apply by (metis new inj)
  then show ?thesis unfolding pend_inj_def by blast
qed

lemma pending_upd:
  "pending N (W(t := pc)) i = {j. pend N pc = Some (i, j) \<or> (\<exists>u. u \<noteq> t \<and> pend N (W u) = Some (i, j))}"
  by (auto simp: pending_def)

lemma pending_same:
  assumes "pend N pc = pend N (W t)"
  shows "pending N (W(t := pc)) = pending N W"
proof
  show "pending N (W(t := pc)) i = pending N W i" for i
    unfolding pending_upd using assms by (auto simp: pending_def)
qed

lemma pending_new:
  assumes "pend N (W t) = None" "pend N pc = Some (i, j)"
  shows "pending N (W(t := pc)) = (pending N W)(i := insert j (pending N W i))"
proof
  have "u \<noteq> t" if "pend N (W u) = Some x" for u x using assms(1) that by auto
  then show "pending N (W(t := pc)) k = ((pending N W)(i := insert j (pending N W i))) k" for k
    unfolding pending_upd using assms by (auto simp: pending_def)
qed

lemma pending_done:
  assumes "pend N (W t) = Some (i, j)" "pend N pc = None" "pend_inj N W"
  shows "pending N (W(t := pc)) = (pending N W)(i := pending N W i - {j})"
proof
  have "u = t" if "pend N (W u) = Some (i, j)" for u using assms(1,3) that unfolding pend_inj_def by blast
  then have "(\<exists>u. u \<noteq> t \<and> pend N (W u) = Some (k, l)) \<longleftrightarrow> (\<exists>u. pend N (W u) = Some (k, l)) \<and> (k, l) \<noteq> (i, j)" for k l
    using assms(1) by (metis option.inject)
  then show "pending N (W(t := pc)) k = ((pending N W)(i := pending N W i - {j})) k" for k
    unfolding pending_upd using assms(2) by (auto simp: pending_def)
qed

lemma slots_inv_same:
  assumes "slots_inv N C B W g rst" "pend N pc = pend N (W t)"
  shows "slots_inv N C B (W(t := pc)) g rst"
  using assms unfolding slots_inv_def by (simp add: pending_same pend_inj_upd)

lemma finite_pending: "slot_ok n k g P rst \<Longrightarrow> finite P"
  unfolding slot_ok_def by (meson finite_lessThan finite_subset)

text \<open>A writer reserves an entry.\<close>

lemma slots_inv_give:
  assumes inv: "slots_inv N C B W g rst" and i: "i < N" "i \<notin> rst" and cap: "wordCount (c_word (C i)) < CAPACITY"
    and none: "pend N (W t) = None" and some: "pend N pc = Some (i, wordCount (c_word (C i)))"
  shows "slots_inv N (C(i := (C i)\<lparr>c_word := c_word (C i) + 1\<rparr>)) B (W(t := pc)) (g(i := g i + 1)) rst"
    "g i = wordCount (c_word (C i))" "wordCount (c_word (C i)) \<notin> pending N W i"
proof -
  let ?n = "wordCount (c_word (C i))"
  have ok: "slot_ok (length (b_entries (B i))) (C i) (g i) (pending N W i) False" using inv i by (auto simp: slots_inv_def)
  have small: "?n < 2 ^ 30" using cap by (simp add: CAPACITY_def PAGE_SIZE_def HEADER_SIZE_def)
  show g: "g i = ?n" using ok small cap by (simp add: slot_ok_def)
  show notin: "?n \<notin> pending N W i" using ok g by (auto simp: slot_ok_def)
  have add: "wordCount (c_word (C i) + 1) = ?n + 1" using word_add_1 [of "c_word (C i)"] small by simp
  have "slot_ok (length (b_entries (B i))) ((C i)\<lparr>c_word := c_word (C i) + 1\<rparr>) (g i + 1) (insert ?n (pending N W i)) False"
    using ok g cap notin finite_pending [OF ok] by (auto simp: slot_ok_def add)
  moreover have "pend_inj N (W(t := pc))"
    using inv notin some by (intro pend_inj_upd) (auto simp: slots_inv_def pending_def)
  ultimately show "slots_inv N (C(i := (C i)\<lparr>c_word := c_word (C i) + 1\<rparr>)) B (W(t := pc)) (g(i := g i + 1)) rst"
    using inv i unfolding slots_inv_def by (simp add: pending_new [where W = W and t = t, OF none some])
qed

text \<open>A reservation past the end, by a writer or the manager.\<close>

lemma slots_inv_past:
  assumes inv: "slots_inv N C B W g rst" and i: "i < N" and bound: "wordCount (c_word (C i)) < 2 ^ 31"
    and past: "x = CLOSED \<or> x = 1 \<and> CAPACITY \<le> wordCount (c_word (C i))"
  shows "slots_inv N (C(i := (C i)\<lparr>c_word := c_word (C i) + x\<rparr>)) B W g rst"
proof -
  have "slot_ok n ((C i)\<lparr>c_word := c_word (C i) + x\<rparr>) (g i) P r" if "slot_ok n (C i) (g i) P r" for n P r
    using that past word_add_1 [OF bound] word_add_CLOSED [OF bound] by (auto simp: slot_ok_def)
  then show ?thesis using inv i unfolding slots_inv_def by auto
qed

text \<open>A writer counts its entry as filled.\<close>

lemma slots_inv_filled:
  assumes inv: "slots_inv N C B W g rst" and i: "i < N" and some: "pend N (W t) = Some (i, j)" and none: "pend N pc = None"
  shows "slots_inv N (C(i := (C i)\<lparr>c_filled := c_filled (C i) + 1\<rparr>)) B (W(t := pc)) g rst" "i \<notin> rst"
proof -
  let ?P = "pending N W i"
  have ok: "slot_ok (length (b_entries (B i))) (C i) (g i) ?P (i \<in> rst)" using inv i by (auto simp: slots_inv_def)
  have j: "j \<in> ?P" using some by (auto simp: pending_def)
  then show r: "i \<notin> rst" using ok by (auto simp: slot_ok_def)
  have "card (?P - {j}) + 1 = card ?P" using j finite_pending [OF ok] by (metis Suc_eq_plus1 card_Suc_Diff1)
  then have "slot_ok (length (b_entries (B i))) ((C i)\<lparr>c_filled := c_filled (C i) + 1\<rparr>) (g i) (?P - {j}) (i \<in> rst)"
    using ok r by (auto simp: slot_ok_def)
  moreover have un: "pend_inj N W" using inv by (simp add: slots_inv_def)
  moreover have "pend_inj N (W(t := pc))" using un none by (simp add: pend_inj_upd)
  ultimately show "slots_inv N (C(i := (C i)\<lparr>c_filled := c_filled (C i) + 1\<rparr>)) B (W(t := pc)) g rst"
    using inv i unfolding slots_inv_def by (simp add: pending_done [where W = W and t = t, OF some none un])
qed

lemma slots_inv_blocks:
  assumes "slots_inv N C B W g rst" "\<And>i. length (b_entries (B' i)) = length (b_entries (B i))"
    "\<And>i. c_word (C' i) = c_word (C i) \<and> c_filled (C' i) = c_filled (C i)"
  shows "slots_inv N C' B' W g rst"
  using assms unfolding slots_inv_def slot_ok_def by simp

end
