(* ===== verification/LBA_Ring_Invariant.thy ===== *)
theory LBA_Ring_Invariant
  imports LBA_Ring
begin

text \<open>
  The invariant of the ring of LBA chain blocks and its preservation by every step of the writers
  and of the manager: the blocks from \<^verbatim>\<open>sealed_seq\<close> to
  \<^verbatim>\<open>active_seq\<close> are in distinct slots, those before the active one are closed, at most
  one thread activates the next block, and a writer that holds a reservation holds it in a block
  that cannot be sealed.
\<close>

section \<open>The invariant of the ring\<close>

definition count_of :: "LBAChain \<Rightarrow> nat \<Rightarrow> nat" where
  "count_of c k = wordCount (c_word (control c k))"

definition tag :: "LBAChain \<Rightarrow> nat \<Rightarrow> ru_epoch_t" where
  "tag c k = b_ru_epoch (block c k)"

fun act_parts :: "act \<Rightarrow> nat \<times> ru_epoch_t" where
  "act_parts (AReserve seq r e) = (seq, e)"
| "act_parts (AWait seq e st) = (seq, e)"
| "act_parts (ATag seq e) = (seq, e)"
| "act_parts (APublish seq e) = (seq, e)"

text \<open>
  Who activates the block after the active one has closed it for good: its count is past the
  end and the entries handed out no longer change.
\<close>

definition closed_active :: "LBAChain \<Rightarrow> (nat \<Rightarrow> nat) \<Rightarrow> nat \<Rightarrow> nat \<Rightarrow> bool" where
  "closed_active c g seq r \<longleftrightarrow>
     seq = active_seq c \<and> CAPACITY < count_of c seq \<and> r = g (seq mod n_blocks c)"

definition act_ok :: "LBAChain \<Rightarrow> (nat \<Rightarrow> nat) \<Rightarrow> ru_epoch_t \<Rightarrow> act \<Rightarrow> bool" where
  "act_ok c g e a \<longleftrightarrow>
     (let A = active_seq c; free = A + 1 < sealed_seq c + n_blocks c
      in act_parts a = (A, e) \<and>
         (case a of AReserve _ r _ \<Rightarrow> closed_active c g A r
          | AWait _ _ _ \<Rightarrow> closed_active c g A (c_reserved (control c A))
          | ATag _ _ \<Rightarrow> closed_active c g A (c_reserved (control c A)) \<and> free
          | APublish _ _ \<Rightarrow> closed_active c g A (c_reserved (control c A)) \<and> free \<and> tag c (A + 1) = e))"

definition in_window :: "LBAChain \<Rightarrow> nat \<Rightarrow> bool" where
  "in_window c k \<longleftrightarrow> sealed_seq c \<le> k \<and> k \<le> active_seq c"

fun writer_ok :: "LBAChain \<Rightarrow> (nat \<Rightarrow> nat) \<Rightarrow> wpc \<Rightarrow> bool" where
  "writer_ok c g (WAdd pid w seq) \<longleftrightarrow> seq \<le> active_seq c"
| "writer_ok c g (WFill pid w seq j) \<longleftrightarrow> in_window c seq"
| "writer_ok c g (WEpoch pid w seq j) \<longleftrightarrow> in_window c seq \<and> b_entries (block c seq) ! j = pid"
| "writer_ok c g (WFilled pid w seq j e) \<longleftrightarrow>
     in_window c seq \<and> b_entries (block c seq) ! j = pid \<and> e = tag c seq"
| "writer_ok c g (WActivate pid w seq) \<longleftrightarrow> closed_active c g seq CAPACITY"
| "writer_ok c g (WAct pid w a) \<longleftrightarrow> act_ok c g (open_ru_epoch c) a"
| "writer_ok c g _ \<longleftrightarrow> True"

definition close_epoch :: "LBAChain \<Rightarrow> after \<Rightarrow> ru_epoch_t" where
  "close_epoch c af = (case af of ToOpen e \<Rightarrow> e | ToSeal \<Rightarrow> open_ru_epoch c)"

definition close_ok :: "LBAChain \<Rightarrow> ru_epoch_t set \<Rightarrow> ru_epoch_t \<Rightarrow> after \<Rightarrow> bool" where
  "close_ok c lv e af \<longleftrightarrow> e = close_epoch c af \<and> e \<in> lv"

fun ret_ok :: "LBAChain \<Rightarrow> (nat \<Rightarrow> nat) \<Rightarrow> ru_epoch_t set \<Rightarrow> ret \<Rightarrow> bool" where
  "ret_ok c g lv RetIdle \<longleftrightarrow> True"
| "ret_ok c g lv (RetActive seq e af) \<longleftrightarrow> close_ok c lv e af"
| "ret_ok c g lv (RetSlot seq r e af) \<longleftrightarrow> close_ok c lv e af \<and> closed_active c g seq r"

definition sealing :: "LBAChain \<Rightarrow> nat \<Rightarrow> bool" where
  "sealing c a \<longleftrightarrow> sealed_seq c < a \<and> a \<le> active_seq c"

fun manager_ok :: "LBAChain \<Rightarrow> (nat \<Rightarrow> nat) \<Rightarrow> ru_epoch_t set \<Rightarrow> nat set \<Rightarrow> mpc \<Rightarrow> bool" where
  "manager_ok c g lv P (MClose e af) \<longleftrightarrow> close_ok c lv e af"
| "manager_ok c g lv P (MCloseAdd seq e af) \<longleftrightarrow> close_ok c lv e af \<and> in_window c seq"
| "manager_ok c g lv P (MWaitActive seq e af) \<longleftrightarrow> ret_ok c g lv (RetActive seq e af)"
| "manager_ok c g lv P (MWaitSlot seq r e af) \<longleftrightarrow> ret_ok c g lv (RetSlot seq r e af)"
| "manager_ok c g lv P (MAct a af) \<longleftrightarrow> act_ok c g (close_epoch c af) a \<and> close_epoch c af \<in> lv"
| "manager_ok c g lv P (MSealLoad rt) \<longleftrightarrow> ret_ok c g lv rt"
| "manager_ok c g lv P (MSealLoop a rt) \<longleftrightarrow> ret_ok c g lv rt \<and> a \<le> active_seq c"
| "manager_ok c g lv P (MSealWait a rt) \<longleftrightarrow> ret_ok c g lv rt \<and> sealing c a"
| "manager_ok c g lv P (MSealWrite a rt) \<longleftrightarrow> ret_ok c g lv rt \<and> sealing c a \<and> P = {}"
| "manager_ok c g lv P (MSealFilled a rt) \<longleftrightarrow> ret_ok c g lv rt \<and> sealing c a \<and> P = {}"
| "manager_ok c g lv P (MSealWord a rt) \<longleftrightarrow> ret_ok c g lv rt \<and> sealing c a \<and> P = {}"
| "manager_ok c g lv P (MPersist rt) \<longleftrightarrow> ret_ok c g lv rt"
| "manager_ok c g lv P _ \<longleftrightarrow> True"

text \<open>At most one thread activates the next block.\<close>

fun activating :: "wpc \<Rightarrow> bool" where
  "activating (WActivate pid w seq) \<longleftrightarrow> True"
| "activating (WAct pid w a) \<longleftrightarrow> True"
| "activating _ \<longleftrightarrow> False"

fun ret_activating :: "ret \<Rightarrow> bool" where
  "ret_activating (RetSlot seq r e af) \<longleftrightarrow> True"
| "ret_activating _ \<longleftrightarrow> False"

fun manager_activating :: "mpc \<Rightarrow> bool" where
  "manager_activating (MWaitSlot seq r e af) \<longleftrightarrow> True"
| "manager_activating (MAct a af) \<longleftrightarrow> True"
| "manager_activating (MSealLoad rt) \<longleftrightarrow> ret_activating rt"
| "manager_activating (MSealLoop a rt) \<longleftrightarrow> ret_activating rt"
| "manager_activating (MSealWait a rt) \<longleftrightarrow> ret_activating rt"
| "manager_activating (MSealWrite a rt) \<longleftrightarrow> ret_activating rt"
| "manager_activating (MSealFilled a rt) \<longleftrightarrow> ret_activating rt"
| "manager_activating (MSealWord a rt) \<longleftrightarrow> ret_activating rt"
| "manager_activating (MPersist rt) \<longleftrightarrow> ret_activating rt"
| "manager_activating _ \<longleftrightarrow> False"

definition one_activator :: "(nat \<Rightarrow> wpc) \<Rightarrow> mpc \<Rightarrow> bool" where
  "one_activator W mg \<longleftrightarrow>
     (\<forall>t u. activating (W t) \<longrightarrow> activating (W u) \<longrightarrow> t = u) \<and> (manager_activating mg \<longrightarrow> (\<forall>t. \<not> activating (W t)))"

definition window_ok :: "LBAChain \<Rightarrow> (nat \<Rightarrow> nat) \<Rightarrow> ru_epoch_t set \<Rightarrow> bool" where
  "window_ok c g lv \<longleftrightarrow>
     (let N = n_blocks c; S = sealed_seq c; A = active_seq c
      in 2 \<le> N \<and> S \<le> A \<and> A < S + N \<and>
         (\<forall>k. S \<le> k \<and> k < S + N \<longrightarrow> wordSeq (c_word (control c k)) = of_nat k) \<and>
         (\<forall>k. S \<le> k \<and> k < A \<longrightarrow> CAPACITY < count_of c k \<and> c_reserved (control c k) = g (k mod N)) \<and>
         tag c A = open_ru_epoch c \<and> (\<forall>k. in_window c k \<longrightarrow> tag c k \<in> lv))"

definition recycling :: "LBAChain \<Rightarrow> mpc \<Rightarrow> nat set" where
  "recycling c mg = (case mg of MSealWord a rt \<Rightarrow> {sealed_seq c mod n_blocks c} | _ \<Rightarrow> {})"

definition ring_inv :: "LBAChain \<Rightarrow> (nat \<Rightarrow> wpc) \<Rightarrow> mpc \<Rightarrow> (nat \<Rightarrow> nat) \<Rightarrow> ru_epoch_t set \<Rightarrow> bool" where
  "ring_inv c W mg g lv \<longleftrightarrow>
     window_ok c g lv \<and> slots_inv (n_blocks c) (controls c) (blocks c) W g (recycling c mg) \<and>
     (\<forall>t. writer_ok c g (W t)) \<and>
     manager_ok c g lv (pending (n_blocks c) W (sealed_seq c mod n_blocks c)) mg \<and> one_activator W mg"

text \<open>Distinct blocks of the window are in distinct slots.\<close>

lemma slot_eq_iff:
  assumes "s \<le> k" "k < s + N" "s \<le> l" "l < s + (N::nat)"
  shows "k mod N = l mod N \<longleftrightarrow> k = l"
proof
  assume eq: "k mod N = l mod N"
  have "int k mod int N = int l mod int N" using eq by (metis of_nat_mod)
  then have "int N dvd int k - int l" by (simp add: mod_eq_dvd_iff)
  moreover have "\<bar>int k - int l\<bar> < int N" using assms by linarith
  ultimately show "k = l" using dvd_imp_le_int [of "int k - int l" "int N"] by linarith
qed simp

lemma of_nat_u32_inj: "k < 2 ^ 32 \<Longrightarrow> l < 2 ^ 32 \<Longrightarrow> (of_nat k :: u32) = of_nat l \<longleftrightarrow> k = l"
  by (simp add: word_unat_eq_iff unat_of_nat take_bit_nat_eq_self)

lemma window_occupant:
  assumes "window_ok c g lv" "in_range c" "seq \<le> active_seq c" "wordSeq (c_word (control c seq)) = of_nat seq"
  shows "in_window c seq"
proof -
  let ?N = "n_blocks c" and ?S = "sealed_seq c"
  have N: "2 \<le> ?N" "active_seq c < ?S + ?N" and small: "?S + 2 * ?N < 2 ^ 32"
    and ws: "\<And>k. ?S \<le> k \<Longrightarrow> k < ?S + ?N \<Longrightarrow> wordSeq (c_word (control c k)) = of_nat k"
    using assms(1,2) by (auto simp: window_ok_def in_range_def Let_def)
  define k where "k = ?S + (seq + ?N * ?S - ?S) mod ?N"
  have k: "?S \<le> k" "k < ?S + ?N" using N by (auto simp: k_def)
  have "?S \<le> ?N * ?S" using N by simp
  then have "k mod ?N = (?S + (seq + ?N * ?S - ?S)) mod ?N" unfolding k_def by (simp add: mod_add_right_eq)
  also have "?S + (seq + ?N * ?S - ?S) = seq + ?N * ?S" using \<open>?S \<le> ?N * ?S\<close> by linarith
  also have "(seq + ?N * ?S) mod ?N = seq mod ?N" by simp
  finally have "control c k = control c seq" by (simp add: control_def)
  then have "(of_nat k :: u32) = of_nat seq" using ws [OF k] assms(4) by simp
  moreover have "k < 2 ^ 32" "seq < 2 ^ 32" using k small assms(3) N by linarith+
  ultimately have "k = seq" by (simp add: of_nat_u32_inj)
  then show ?thesis using k(1) assms(3) by (simp add: in_window_def)
qed

section \<open>Frames\<close>

lemma set_control_fields [simp]:
  "n_blocks (set_control q x c) = n_blocks c" "open_ru_epoch (set_control q x c) = open_ru_epoch c"
  "active_seq (set_control q x c) = active_seq c" "sealed_seq (set_control q x c) = sealed_seq c"
  "blocks (set_control q x c) = blocks c" "dirty_heads (set_control q x c) = dirty_heads c"
  "controls (set_control q x c) = (controls c)(q mod n_blocks c := x)"
  by (simp_all add: set_control_def)

lemma set_block_fields [simp]:
  "n_blocks (set_block q b c) = n_blocks c" "open_ru_epoch (set_block q b c) = open_ru_epoch c"
  "active_seq (set_block q b c) = active_seq c" "sealed_seq (set_block q b c) = sealed_seq c"
  "controls (set_block q b c) = controls c" "dirty_heads (set_block q b c) = dirty_heads c"
  "blocks (set_block q b c) = (blocks c)(q mod n_blocks c := b)"
  by (simp_all add: set_block_def)

text \<open>What the steps of other threads leave alone of a thread's view of the ring.\<close>

definition same_active :: "LBAChain \<Rightarrow> (nat \<Rightarrow> nat) \<Rightarrow> LBAChain \<Rightarrow> (nat \<Rightarrow> nat) \<Rightarrow> bool" where
  "same_active c g c' g' \<longleftrightarrow>
     (let A = active_seq c
      in active_seq c' = A \<and> open_ru_epoch c' = open_ru_epoch c \<and> count_of c A \<le> count_of c' A \<and>
         g' (A mod n_blocks c) = g (A mod n_blocks c) \<and> c_reserved (control c' A) = c_reserved (control c A) \<and>
         tag c' (A + 1) = tag c (A + 1))"

definition extends :: "LBAChain \<Rightarrow> LBAChain \<Rightarrow> bool" where
  "extends c c' \<longleftrightarrow>
     n_blocks c' = n_blocks c \<and> sealed_seq c \<le> sealed_seq c' \<and> active_seq c \<le> active_seq c' \<and>
     (\<forall>k. in_window c k \<and> sealed_seq c' \<le> k \<longrightarrow> tag c' k = tag c k)"

lemma closed_active_stable:
  "closed_active c g q r \<Longrightarrow> same_active c g c' g' \<Longrightarrow> n_blocks c' = n_blocks c \<Longrightarrow> closed_active c' g' q r"
  by (auto simp: closed_active_def same_active_def Let_def)

lemma act_ok_stable:
  assumes "act_ok c g e a" "same_active c g c' g'" "n_blocks c' = n_blocks c" "sealed_seq c \<le> sealed_seq c'"
  shows "act_ok c' g' e a"
  using assms closed_active_stable [OF _ assms(2,3)]
  by (cases a) (auto simp: act_ok_def same_active_def Let_def)

lemma writer_ok_stable:
  assumes ok: "writer_ok c g pc" and ext: "extends c c'"
    and act: "activating pc \<Longrightarrow> same_active c g c' g'"
    and ent: "\<And>q j. pend (n_blocks c) pc = Some (q mod n_blocks c, j) \<Longrightarrow> in_window c q \<Longrightarrow>
        sealed_seq c' \<le> q \<and> b_entries (block c' q) ! j = b_entries (block c q) ! j"
  shows "writer_ok c' g' pc"
proof (cases pc)
  case (WAct pid w a)
  then have sa: "same_active c g c' g'" using act by simp
  then have "open_ru_epoch c' = open_ru_epoch c" by (simp add: same_active_def Let_def)
  then show ?thesis using WAct ok ext act_ok_stable [OF _ sa] by (simp add: extends_def)
next
  case (WActivate pid w q)
  then show ?thesis using ok ext act closed_active_stable [of c g q CAPACITY c' g'] by (simp add: extends_def)
next
  case (WFill pid w q j)
  then show ?thesis using ok ent [of q j] ext by (simp add: extends_def in_window_def)
next
  case (WEpoch pid w q j)
  then show ?thesis using ok ent [of q j] ext by (simp add: extends_def in_window_def)
next
  case (WFilled pid w q j e)
  then show ?thesis using ok ent [of q j] ext by (simp add: extends_def in_window_def)
qed (use ok ext in \<open>simp_all add: extends_def\<close>)

lemma close_ok_stable: "close_ok c lv e af \<Longrightarrow> open_ru_epoch c' = open_ru_epoch c \<Longrightarrow> close_ok c' lv e af"
  by (auto simp: close_ok_def close_epoch_def split: after.splits)

lemma ret_ok_stable:
  assumes "ret_ok c g lv rt" "open_ru_epoch c' = open_ru_epoch c" "n_blocks c' = n_blocks c"
    and "ret_activating rt \<Longrightarrow> same_active c g c' g'"
  shows "ret_ok c' g' lv rt"
  using assms closed_active_stable [of c g _ _ c' g'] close_ok_stable [of c lv _ _ c'] by (cases rt) auto

lemma manager_ok_stable:
  assumes ok: "manager_ok c g lv P mg" and "open_ru_epoch c' = open_ru_epoch c" "n_blocks c' = n_blocks c"
    and "sealed_seq c' = sealed_seq c" "active_seq c \<le> active_seq c'"
    and act: "manager_activating mg \<Longrightarrow> same_active c g c' g'"
    and P: "P = {} \<Longrightarrow> sealed_seq c < active_seq c \<Longrightarrow> P' = {}"
  shows "manager_ok c' g' lv P' mg"
proof -
  note st = assms(2-5)
  have ret: "ret_ok c' g' lv rt" if "ret_ok c g lv rt" "ret_activating rt \<Longrightarrow> same_active c g c' g'" for rt
    using ret_ok_stable [OF that(1) st(1,2) that(2)] .
  have seal: "sealing c a \<Longrightarrow> sealing c' a" "sealing c a \<Longrightarrow> P = {} \<Longrightarrow> P' = {}" for a
    using st P by (auto simp: sealing_def)
  show ?thesis
  proof (cases mg)
    case (MWaitSlot q r e af)
    then show ?thesis using ok act ret [of "RetSlot q r e af"] by simp
  next
    case (MWaitActive q e af)
    then show ?thesis using ok ret [of "RetActive q e af"] by simp
  next
    case (MAct a af)
    then show ?thesis using ok act act_ok_stable [of c g _ a c' g'] st by (simp add: close_epoch_def split: after.splits)
  qed (use ok act ret seal st close_ok_stable in \<open>auto simp: in_window_def\<close>)
qed

lemma window_ok_stable:
  assumes "window_ok c g lv" "n_blocks c' = n_blocks c" "sealed_seq c' = sealed_seq c" "active_seq c' = active_seq c"
    "open_ru_epoch c' = open_ru_epoch c"
    and "\<And>k. wordSeq (c_word (control c' k)) = wordSeq (c_word (control c k)) \<and> count_of c k \<le> count_of c' k"
    and "\<And>k. sealed_seq c \<le> k \<Longrightarrow> k < active_seq c \<Longrightarrow>
        c_reserved (control c' k) = c_reserved (control c k) \<and> g' (k mod n_blocks c) = g (k mod n_blocks c)"
    and "\<And>k. in_window c k \<Longrightarrow> tag c' k = tag c k"
  shows "window_ok c' g' lv"
proof -
  have w: "2 \<le> n_blocks c" "sealed_seq c \<le> active_seq c" "active_seq c < sealed_seq c + n_blocks c"
    "\<And>k. sealed_seq c \<le> k \<Longrightarrow> k < sealed_seq c + n_blocks c \<Longrightarrow> wordSeq (c_word (control c k)) = of_nat k"
    "\<And>k. sealed_seq c \<le> k \<Longrightarrow> k < active_seq c \<Longrightarrow> CAPACITY < count_of c k \<and> c_reserved (control c k) = g (k mod n_blocks c)"
    "tag c (active_seq c) = open_ru_epoch c" "\<And>k. in_window c k \<Longrightarrow> tag c k \<in> lv"
    using assms(1) by (auto simp: window_ok_def Let_def)
  have "in_window c' k \<longleftrightarrow> in_window c k" for k using assms(3,4) by (simp add: in_window_def)
  moreover have "CAPACITY < count_of c' k" if "sealed_seq c \<le> k" "k < active_seq c" for k
    using w(5) [OF that] assms(6) [of k] by linarith
  moreover have "in_window c (active_seq c)" using w(2) by (simp add: in_window_def)
  ultimately show ?thesis using assms(2-) w unfolding window_ok_def Let_def by auto
qed

text \<open>A writer step that changes neither the window nor anyone's reservation.\<close>

lemma control_cong [simp]:
  "control (c\<lparr>closed_waiters := x\<rparr>) = control c" "control (c\<lparr>stalls_counter := y, stalled_writers := x\<rparr>) = control c"
  "control (c\<lparr>stalls_counter := y\<rparr>) = control c" "block (c\<lparr>stalls_counter := y\<rparr>) = block c"
  "control (c\<lparr>stalled_writers := x\<rparr>) = control c" "control (c\<lparr>closer_waiting := w\<rparr>) = control c"
  "control (c\<lparr>active_seq := n\<rparr>) = control c" "control (c\<lparr>sealed_seq := n\<rparr>) = control c"
  "control (c\<lparr>open_ru_epoch := e\<rparr>) = control c" "control (c\<lparr>dirty_heads := d\<rparr>) = control c"
  "block (c\<lparr>closed_waiters := x\<rparr>) = block c" "block (c\<lparr>stalls_counter := y, stalled_writers := x\<rparr>) = block c"
  "block (c\<lparr>stalled_writers := x\<rparr>) = block c" "block (c\<lparr>closer_waiting := w\<rparr>) = block c"
  "block (c\<lparr>active_seq := n\<rparr>) = block c" "block (c\<lparr>sealed_seq := n\<rparr>) = block c"
  "block (c\<lparr>open_ru_epoch := e\<rparr>) = block c" "block (c\<lparr>dirty_heads := d\<rparr>) = block c"
  "control (set_block q b c) = control c" "block (set_control q cc c) = block c"
  by (simp_all add: control_def block_def fun_eq_iff)

lemma control_set_control: "control (set_control q x c) k = (if k mod n_blocks c = q mod n_blocks c then x else control c k)"
  by (simp add: control_def)

lemma block_set_block: "block (set_block q b c) k = (if k mod n_blocks c = q mod n_blocks c then b else block c k)"
  by (simp add: block_def)

text \<open>
  What a writer's step does to its own invariant, one point of \<^verbatim>\<open>record\<close> at a time, and
  what it leaves to the others: \<open>g_after\<close> are the entries handed out afterwards.
\<close>

definition g_after :: "wpc \<Rightarrow> LBAChain \<Rightarrow> (nat \<Rightarrow> nat) \<Rightarrow> nat \<Rightarrow> nat" where
  "g_after pc c g =
     (case pc of WAdd pid w seq \<Rightarrow>
        (let i = seq mod n_blocks c in if count_of c seq < CAPACITY then g(i := g i + 1) else g)
      | _ \<Rightarrow> g)"

text \<open>How a writer's step may change the ring.\<close>

definition writer_effect :: "LBAChain \<Rightarrow> (nat \<Rightarrow> nat) \<Rightarrow> wpc \<Rightarrow> LBAChain \<Rightarrow> bool" where
  "writer_effect c g pc c' \<longleftrightarrow>
     n_blocks c' = n_blocks c \<and> sealed_seq c' = sealed_seq c \<and> open_ru_epoch c' = open_ru_epoch c \<and>
     (if \<exists>pid w q e. pc = WAct pid w (APublish q e) then active_seq c' = active_seq c + 1 else active_seq c' = active_seq c) \<and>
     (\<forall>k. wordSeq (c_word (control c' k)) = wordSeq (c_word (control c k)) \<and> count_of c k \<le> count_of c' k) \<and>
     (\<forall>k. in_window c k \<longrightarrow> tag c' k = tag c k) \<and>
     (\<not> activating pc \<longrightarrow> (\<forall>k. tag c' k = tag c k \<and> c_reserved (control c' k) = c_reserved (control c k))) \<and>
     (\<forall>k. sealed_seq c \<le> k \<and> k < active_seq c \<longrightarrow> c_reserved (control c' k) = c_reserved (control c k)) \<and>
     (\<forall>i j. pend (n_blocks c) pc \<noteq> Some (i, j) \<longrightarrow> b_entries (blocks c' i) ! j = b_entries (blocks c i) ! j) \<and>
     (\<forall>i. length (b_entries (blocks c' i)) = length (b_entries (blocks c i)))"

lemma tag_set_block [simp]: "b_ru_epoch b = b_ru_epoch (block c q) \<Longrightarrow> tag (set_block q b c) = tag c"
  by (auto simp: tag_def block_def fun_eq_iff)

lemma act_step_effect:
  assumes act: "act_ok c g e a" and w: "window_ok c g lv" and st: "act_step a c = (a', c')"
  shows "writer_effect c g (WAct pid w0 a) c'"
proof -
  let ?A = "active_seq c" and ?S = "sealed_seq c" and ?N = "n_blocks c"
  have win: "?S \<le> ?A" "?A < ?S + ?N" using w by (auto simp: window_ok_def Let_def)
  have slotA: "k mod ?N = ?A mod ?N \<longleftrightarrow> k = ?A" if "?S \<le> k" "k < ?A" for k
    using slot_eq_iff [of ?S k ?N ?A] that win by simp
  show ?thesis
  proof (cases a)
    case (AReserve q r e')
    then show ?thesis using act st slotA
      by (auto simp: act_ok_def Let_def writer_effect_def control_def count_of_def tag_def)
  next
    case (AWait q e' sd)
    then show ?thesis using st
      by (auto simp: writer_effect_def count_of_def tag_def split: if_splits)
  next
    case (ATag q e')
    then have q: "q = ?A" "?A + 1 < ?S + ?N" using act by (auto simp: act_ok_def Let_def)
    have "k mod ?N = (?A + 1) mod ?N \<longleftrightarrow> k = ?A + 1" if "?S \<le> k" "k \<le> ?A" for k
      using slot_eq_iff [of ?S k ?N "?A + 1"] that q by simp
    then show ?thesis using ATag q st
      by (auto simp: writer_effect_def count_of_def tag_def block_set_block in_window_def block_def)
  next
    case (APublish q e')
    then show ?thesis using act st
      by (auto simp: act_ok_def Let_def writer_effect_def count_of_def tag_def)
  qed
qed

lemma in_range_count: "in_range c \<Longrightarrow> 2 \<le> n_blocks c \<Longrightarrow> wordCount (c_word (control c k)) < 2 ^ 31"
  by (simp add: in_range_def control_def)

lemma fetch_add_effect:
  assumes "in_range c" "2 \<le> n_blocks c"
  shows "writer_effect c g (WAdd pid w q) (snd (fetch_add q 1 c))"
  using word_add_1 [OF in_range_count [OF assms, of q]]
  by (auto simp: fetch_add_def Let_def writer_effect_def control_def count_of_def tag_def block_def)

lemma record_step_effect:
  assumes w: "window_ok c g lv" and r: "in_range c" and ok: "writer_ok c g pc" and st: "record_step pc c = (pc', c')"
  shows "writer_effect c g pc c'"
proof (cases pc)
  case (WAdd pid wt q)
  have N: "2 \<le> n_blocks c" using w by (simp add: window_ok_def Let_def)
  have "c' = snd (fetch_add q 1 c) \<or> c' = (snd (fetch_add q 1 c))\<lparr>closed_waiters := closed_waiters c + 1\<rparr>"
    using WAdd st by (auto simp: Let_def fetch_add_def set_control_def split: if_splits)
  then show ?thesis
    using fetch_add_effect [OF r N, of g pid wt q] WAdd by (auto simp: writer_effect_def count_of_def tag_def)
next
  case (WAct pid wt a)
  obtain a' c1 where a: "act_step a c = (a', c1)" by (cases "act_step a c")
  then have "c' = c1" using WAct st by (auto split: option.splits)
  then show ?thesis using act_step_effect [OF _ w a] ok WAct by auto
qed (use st in \<open>auto simp: writer_effect_def put_entry_def add_filled_def Let_def count_of_def tag_def control_def block_def
        split: if_splits\<close>)

lemma CAPACITY_less: "CAPACITY < 2 ^ 30"
  by (simp add: CAPACITY_def PAGE_SIZE_def HEADER_SIZE_def)

lemma recycled_count:
  assumes "window_ok c g lv" "manager_ok c g lv P mg" "i \<in> recycling c mg"
  shows "CAPACITY < wordCount (c_word (controls c i))"
  using assms by (auto simp: window_ok_def Let_def recycling_def sealing_def count_of_def control_def split: mpc.splits)

lemma slots_inv_writer:
  assumes inv: "ring_inv c W mg g lv" and r: "in_range c" and st: "record_step (W t) c = (pc', c')"
  shows "slots_inv (n_blocks c) (controls c') (blocks c') (W(t := pc')) (g_after (W t) c g) (recycling c mg)"
proof -
  let ?N = "n_blocks c"
  have sl: "slots_inv ?N (controls c) (blocks c) W g (recycling c mg)" and w: "window_ok c g lv"
    and mk: "manager_ok c g lv (pending ?N W (sealed_seq c mod ?N)) mg"
    using inv by (auto simp: ring_inv_def)
  then have N: "2 \<le> ?N" by (simp add: window_ok_def Let_def)
  show ?thesis
  proof (cases "W t")
    case (WAdd pid wt q)
    let ?i = "q mod ?N" and ?n = "wordCount (c_word (control c q))"
    have i: "?i < ?N" using N by simp
    have C: "controls c' = (controls c)(?i := (control c q)\<lparr>c_word := c_word (control c q) + 1\<rparr>)" "blocks c' = blocks c"
      using WAdd st by (auto simp: fetch_add_def Let_def split: if_splits)
    show ?thesis
    proof (cases "?n < CAPACITY")
      case True
      have nr: "?i \<notin> recycling c mg" using recycled_count [OF w mk, of ?i] True by (auto simp: control_def)
      have "pend ?N pc' = Some (?i, ?n)"
        using WAdd st True by (auto simp: fetch_add_def Let_def split: if_splits)
      then show ?thesis
        using slots_inv_give(1) [OF sl i nr, of t pc'] True WAdd C by (simp add: g_after_def Let_def control_def count_of_def)
    next
      case False
      have none: "pend ?N pc' = None"
        using WAdd st False by (auto simp: fetch_add_def Let_def split: if_splits)
      have "slots_inv ?N (controls c') (blocks c') W g (recycling c mg)"
        using slots_inv_past [OF sl i, of 1] False in_range_count [OF r N, of q] C by (simp add: control_def)
      then show ?thesis
        using slots_inv_same [of ?N _ _ W g _ pc' t] none WAdd False by (simp add: g_after_def Let_def count_of_def)
    qed
  next
    case (WFilled pid wt q j e)
    have "q mod ?N < ?N" using N by simp
    from slots_inv_filled(1) [OF sl this, of t j "WDone pid e"] WFilled st show ?thesis
      by (auto simp: g_after_def add_filled_def Let_def control_def split: if_splits)
  next
    case (WTombFilled pid wt q j)
    have "q mod ?N < ?N" using N by simp
    from slots_inv_filled(1) [OF sl this, of t j "WLoad pid wt"] WTombFilled st show ?thesis
      by (auto simp: g_after_def add_filled_def Let_def control_def)
  next
    case (WAct pid wt a)
    obtain a' where a: "act_step a c = (a', c')" using WAct st by (cases "act_step a c") (auto split: option.splits)
    have "pend ?N pc' = pend ?N (W t)" using WAct st a by (auto split: option.splits)
    from slots_inv_same [OF sl this] have "slots_inv ?N (controls c) (blocks c) (W(t := pc')) g (recycling c mg)" .
    then have "slots_inv ?N (controls c') (blocks c') (W(t := pc')) g (recycling c mg)"
      by (rule slots_inv_blocks) (use a in \<open>cases a; auto simp: control_def block_def split: if_splits\<close>)+
    then show ?thesis using WAct by (simp add: g_after_def)
  next
    case (WFill pid wt q j)
    then have "pend ?N pc' = pend ?N (W t)" using st by auto
    from slots_inv_blocks [OF slots_inv_same [OF sl this], of "blocks c'" "controls c'"] WFill st show ?thesis
      by (auto simp: g_after_def put_entry_def Let_def block_def)
  next
    case (WTomb pid wt q j)
    then have "pend ?N pc' = pend ?N (W t)" using st by auto
    from slots_inv_blocks [OF slots_inv_same [OF sl this], of "blocks c'" "controls c'"] WTomb st show ?thesis
      by (auto simp: g_after_def put_entry_def Let_def block_def)
  next
    case (WDone pid e)
    then have "pc' = WDone pid e" "c' = c" using st by auto
    then show ?thesis using slots_inv_same [OF sl, of pc' t] WDone by (simp add: g_after_def)
  qed (use st slots_inv_same [OF sl, of pc' t] in \<open>auto simp: g_after_def\<close>)
qed

lemma next_free:
  assumes w: "window_ok c g lv" and r: "in_range c" and free: "wordSeq (c_word (control c (active_seq c + 1))) = of_nat (active_seq c + 1)"
  shows "active_seq c + 1 < sealed_seq c + n_blocks c"
proof (rule ccontr)
  let ?S = "sealed_seq c" and ?N = "n_blocks c" and ?A = "active_seq c"
  assume "\<not> ?A + 1 < ?S + ?N"
  moreover have win: "?A < ?S + ?N" "2 \<le> ?N" using w by (auto simp: window_ok_def Let_def)
  ultimately have eq: "?A + 1 = ?S + ?N" by linarith
  then have "control c (?A + 1) = control c ?S" by (simp add: control_def)
  moreover have "wordSeq (c_word (control c ?S)) = of_nat ?S" using w win by (simp add: window_ok_def Let_def)
  ultimately have "(of_nat (?A + 1) :: u32) = of_nat ?S" using free by simp
  moreover have "?A + 1 < 2 ^ 32" "?S < 2 ^ 32" using r eq by (auto simp: in_range_def)
  ultimately have "?A + 1 = ?S" using of_nat_u32_inj by blast
  then show False using eq win by linarith
qed

lemma slot_entries: "slots_inv N C B W g rst \<Longrightarrow> i < N \<Longrightarrow> length (b_entries (B i)) = CAPACITY \<and> g i \<le> CAPACITY"
  by (auto simp: slots_inv_def slot_ok_def)

lemma slot_pend: "slots_inv N C B W g rst \<Longrightarrow> i < N \<Longrightarrow> pend N (W t) = Some (i, j) \<Longrightarrow> j < g i"
  by (auto simp: slots_inv_def slot_ok_def pending_def)

lemma act_step_ok:
  assumes a: "act_ok c g e a" and w: "window_ok c g lv" and r: "in_range c" and st: "act_step a c = (Some a', c')"
  shows "act_ok c' g e a'"
proof (cases a)
  case (AReserve q r0 e')
  then show ?thesis using st a
    by (auto simp: act_ok_def Let_def closed_active_def count_of_def control_set_control)
next
  case (AWait q e' sd)
  then have "q = active_seq c" using a by (simp add: act_ok_def Let_def)
  then have "active_seq c + 1 < sealed_seq c + n_blocks c" if "wordSeq (c_word (control c (q + 1))) = of_nat (q + 1)"
    using next_free [OF w r] that by simp
  then show ?thesis using AWait st a
    by (auto simp: act_ok_def Let_def closed_active_def count_of_def split: if_splits)
next
  case (ATag q e')
  then show ?thesis using st a
    by (auto simp: act_ok_def Let_def closed_active_def count_of_def tag_def block_set_block)
qed (use st in simp)

text \<open>The point a writer reaches is as the invariant says.\<close>

lemma writer_ok_self:
  assumes inv: "ring_inv c W mg g lv" and r: "in_range c" and st: "record_step (W t) c = (pc', c')"
  shows "writer_ok c' (g_after (W t) c g) pc'"
proof -
  let ?N = "n_blocks c" and ?A = "active_seq c"
  have sl: "slots_inv ?N (controls c) (blocks c) W g (recycling c mg)" and w: "window_ok c g lv" and ok: "writer_ok c g (W t)"
    using inv by (auto simp: ring_inv_def)
  then have N: "2 \<le> ?N" and open_tag: "tag c ?A = open_ru_epoch c"
    and cl: "\<And>k. sealed_seq c \<le> k \<Longrightarrow> k < ?A \<Longrightarrow> CAPACITY < count_of c k" by (auto simp: window_ok_def Let_def)
  have mod: "q mod ?N < ?N" for q using N by simp
  show ?thesis
  proof (cases "W t")
    case (WAdd pid wt q)
    let ?n = "wordCount (c_word (control c q))"
    have q: "q \<le> ?A" using ok WAdd by simp
    have occ: "in_window c q" if "wordSeq (c_word (control c q)) = of_nat q" using window_occupant [OF w r q that] .
    have "closed_active c' g q CAPACITY" if "?n = CAPACITY" "wordSeq (c_word (control c q)) = of_nat q" "c' = snd (fetch_add q 1 c)"
    proof -
      have "q = ?A" using occ [OF that(2)] cl [of q] that(1) q by (force simp: in_window_def count_of_def)
      moreover have "g (q mod ?N) = CAPACITY"
        using sl that(1) mod [of q] CAPACITY_less by (auto simp: slots_inv_def slot_ok_def control_def)
      moreover have "count_of c' q = CAPACITY + 1"
        using word_add_1(1) [OF in_range_count [OF r N, of q]] that(1,3) by (simp add: count_of_def fetch_add_def Let_def control_set_control)
      ultimately show ?thesis using that(3) by (simp add: closed_active_def fetch_add_def Let_def)
    qed
    then show ?thesis
      using WAdd st occ by (auto simp: Let_def fetch_add_def g_after_def count_of_def in_window_def split: if_splits)
  next
    case (WFill pid wt q j)
    have "j < CAPACITY" using slot_pend [OF sl mod, of t q j] slot_entries [OF sl mod, of q] WFill by simp
    then show ?thesis using WFill st ok slot_entries [OF sl mod, of q]
      by (auto simp: g_after_def put_entry_def Let_def in_window_def block_set_block block_def)
  next
    case (WEpoch pid wt q j)
    then show ?thesis using st ok by (auto simp: tag_def)
  next
    case (WActivate pid wt q)
    then show ?thesis using st ok open_tag by (auto simp: g_after_def act_ok_def Let_def closed_active_def tag_def)
  next
    case (WAct pid wt a)
    then have a: "act_ok c g (open_ru_epoch c) a" using ok by simp
    obtain a' c1 where st': "act_step a c = (a', c1)" by (cases "act_step a c")
    show ?thesis
    proof (cases a')
      case (Some a1)
      have "open_ru_epoch c1 = open_ru_epoch c" using st' by (cases a) (auto split: if_splits)
      then show ?thesis using WAct Some st st' act_step_ok [OF a w r, of a1 c1] by (auto simp: g_after_def)
    qed (use WAct st st' in auto)
  next
    case (WDone pid e)
    then have "pc' = WDone pid e" using st by auto
    then show ?thesis by simp
  qed (use st in \<open>auto split: if_splits\<close>)
qed

lemma manager_activating_closed:
  "manager_activating mg \<Longrightarrow> manager_ok c g lv P mg \<Longrightarrow> CAPACITY < count_of c (active_seq c)"
proof -
  have "ret_ok c g lv rt \<Longrightarrow> ret_activating rt \<Longrightarrow> CAPACITY < count_of c (active_seq c)" for rt
    by (cases rt) (auto simp: closed_active_def)
  moreover have "act_ok c g e a \<Longrightarrow> CAPACITY < count_of c (active_seq c)" for e a
    by (cases a) (auto simp: act_ok_def closed_active_def Let_def)
  ultimately show "manager_activating mg \<Longrightarrow> manager_ok c g lv P mg \<Longrightarrow> CAPACITY < count_of c (active_seq c)"
    by (cases mg) (auto simp: closed_active_def)
qed

lemma activating_closed: "activating pc \<Longrightarrow> writer_ok c g pc \<Longrightarrow> CAPACITY < count_of c (active_seq c)"
  by (cases pc) (auto simp: act_ok_def closed_active_def Let_def split: act.splits)

lemma g_after_closed: "CAPACITY < count_of c k \<Longrightarrow> g_after pc c g (k mod n_blocks c) = g (k mod n_blocks c)"
  by (cases pc) (auto simp: g_after_def Let_def count_of_def control_def)

text \<open>Another thread that activates the next block sees the active block unchanged.\<close>

lemma writer_same_active:
  assumes eff: "writer_effect c g pc c'" and na: "\<not> activating pc" and cl: "CAPACITY < count_of c (active_seq c)"
  shows "same_active c g c' (g_after pc c g)"
proof -
  have "\<not> (\<exists>pid w q e. pc = WAct pid w (APublish q e))" using na by auto
  then show ?thesis
    using eff na g_after_closed [OF cl, of pc g] by (simp add: same_active_def writer_effect_def Let_def)
qed

lemma writer_activates:
  assumes inv: "ring_inv c W mg g lv" and r: "in_range c" and st: "record_step (W t) c = (pc', c')"
    and "activating pc'" "\<not> activating (W t)"
  shows "count_of c (active_seq c) = CAPACITY"
proof -
  obtain pid wt q where q: "W t = WAdd pid wt q" "wordCount (c_word (control c q)) = CAPACITY"
    "wordSeq (c_word (control c q)) = of_nat q"
    using st assms(4,5) by (cases "W t") (auto simp: Let_def fetch_add_def split: if_splits option.splits prod.splits)
  have w: "window_ok c g lv" and ok: "writer_ok c g (W t)" using inv by (auto simp: ring_inv_def)
  then have "in_window c q" using window_occupant [OF w r _ q(3)] q(1) by simp
  moreover have "\<not> (sealed_seq c \<le> q \<and> q < active_seq c)" using w q(2) by (auto simp: window_ok_def Let_def count_of_def)
  ultimately have "q = active_seq c" by (auto simp: in_window_def)
  then show ?thesis using q(2) by (simp add: count_of_def)
qed

lemma pending_closed:
  assumes st: "record_step (W t) c = (pc', c')" and cl: "CAPACITY < count_of c k"
  shows "pending (n_blocks c) (W(t := pc')) (k mod n_blocks c) \<subseteq> pending (n_blocks c) W (k mod n_blocks c)"
proof -
  have "pend (n_blocks c) pc' = Some (k mod n_blocks c, j) \<Longrightarrow> pend (n_blocks c) (W t) = Some (k mod n_blocks c, j)" for j
    using st cl by (cases "W t") (auto simp: Let_def fetch_add_def count_of_def control_def split: if_splits option.splits prod.splits)
  then show ?thesis unfolding pending_upd by (auto simp: pending_def)
qed

lemma window_ok_publish:
  assumes w: "window_ok c g lv" and a: "act_ok c g e (APublish q e)" and lv: "e \<in> lv"
  shows "window_ok (c\<lparr>active_seq := q + 1, open_ru_epoch := e\<rparr>) g lv"
proof -
  let ?A = "active_seq c" and ?S = "sealed_seq c" and ?N = "n_blocks c"
  have q: "q = ?A" "?A + 1 < ?S + ?N" "tag c (?A + 1) = e" "CAPACITY < count_of c ?A"
    "c_reserved (control c ?A) = g (?A mod ?N)"
    using a by (auto simp: act_ok_def Let_def closed_active_def)
  have [simp]: "tag (c\<lparr>active_seq := n, open_ru_epoch := e\<rparr>) = tag c" "control (c\<lparr>active_seq := n, open_ru_epoch := e\<rparr>) = control c"
    "count_of (c\<lparr>active_seq := n, open_ru_epoch := e\<rparr>) = count_of c" for n
    by (auto simp: tag_def block_def control_def count_of_def fun_eq_iff)
  have "CAPACITY < count_of c k \<and> c_reserved (control c k) = g (k mod ?N)" if "?S \<le> k" "k \<le> ?A" for k
    using w q that by (cases "k = ?A") (auto simp: window_ok_def Let_def)
  moreover have "tag c k \<in> lv" if "?S \<le> k" "k \<le> ?A + 1" for k
    using w q lv that by (cases "k = ?A + 1") (auto simp: window_ok_def Let_def in_window_def)
  ultimately show ?thesis using w q by (auto simp: window_ok_def Let_def in_window_def)
qed

lemma window_ok_writer:
  assumes inv: "ring_inv c W mg g lv" and r: "in_range c" and st: "record_step (W t) c = (pc', c')"
  shows "window_ok c' (g_after (W t) c g) lv"
proof -
  have w: "window_ok c g lv" and ok: "writer_ok c g (W t)" using inv by (auto simp: ring_inv_def)
  have eff: "writer_effect c g (W t) c'" using record_step_effect [OF w r ok st] .
  show ?thesis
  proof (cases "\<exists>pid w q e. W t = WAct pid w (APublish q e)")
    case True
    then obtain pid wt q e where p: "W t = WAct pid wt (APublish q e)" by blast
    then have a: "act_ok c g e (APublish q e)" and e: "e = open_ru_epoch c"
      using ok by (auto simp: act_ok_def Let_def)
    have "e \<in> lv" using w e by (auto simp: window_ok_def Let_def in_window_def)
    from window_ok_publish [OF w a this] show ?thesis
      using p st e by (auto simp: g_after_def)
  next
    case False
    have cl: "CAPACITY < count_of c k" if "sealed_seq c \<le> k" "k < active_seq c" for k
      using w that by (auto simp: window_ok_def Let_def)
    show ?thesis
      by (rule window_ok_stable [OF w]) (use eff False g_after_closed [OF cl] in \<open>auto simp: writer_effect_def\<close>)
  qed
qed

lemma one_activator_upd:
  assumes "one_activator W mg" "activating pc' \<Longrightarrow> activating (W t) \<or> (\<forall>u. \<not> activating (W u)) \<and> \<not> manager_activating mg"
  shows "one_activator (W(t := pc')) mg"
  unfolding one_activator_def
proof (intro conjI impI allI)
  fix u v assume "activating ((W(t := pc')) u)" "activating ((W(t := pc')) v)"
  then show "u = v" using assms unfolding one_activator_def by (metis fun_upd_apply)
next
  fix u assume "manager_activating mg"
  then show "\<not> activating ((W(t := pc')) u)" using assms unfolding one_activator_def by (metis fun_upd_apply)
qed

lemma ring_inv_writer:
  assumes inv: "ring_inv c W mg g lv" and r: "in_range c" and st: "record_step (W t) c = (pc', c')"
  shows "ring_inv c' (W(t := pc')) mg (g_after (W t) c g) lv"
proof -
  let ?N = "n_blocks c" and ?g = "g_after (W t) c g"
  have w: "window_ok c g lv" and ok: "\<And>u. writer_ok c g (W u)"
    and mk: "manager_ok c g lv (pending ?N W (sealed_seq c mod ?N)) mg" and one: "one_activator W mg"
    and sl: "slots_inv ?N (controls c) (blocks c) W g (recycling c mg)"
    using inv by (auto simp: ring_inv_def)
  have eff: "writer_effect c g (W t) c'" using record_step_effect [OF w r ok st] .
  then have f: "n_blocks c' = ?N" "sealed_seq c' = sealed_seq c" "open_ru_epoch c' = open_ru_epoch c"
    "active_seq c \<le> active_seq c'" and tags: "\<And>k. in_window c k \<Longrightarrow> tag c' k = tag c k"
    by (auto simp: writer_effect_def split: if_splits)
  have rec: "recycling c' mg = recycling c mg" using f by (simp add: recycling_def split: mpc.splits)
  have inj: "pend_inj ?N W" using sl by (simp add: slots_inv_def)
  have other: "writer_ok c' ?g (W u)" if u: "u \<noteq> t" for u
  proof (rule writer_ok_stable [OF ok [of u]])
    show "extends c c'" using f tags by (simp add: extends_def)
    show "same_active c g c' ?g" if "activating (W u)"
      using writer_same_active [OF eff] activating_closed [OF that ok] that one u by (auto simp: one_activator_def)
    fix q j assume p: "pend ?N (W u) = Some (q mod ?N, j)" "in_window c q"
    have "pend ?N (W t) \<noteq> Some (q mod ?N, j)" using p inj u by (auto simp: pend_inj_def)
    then show "sealed_seq c' \<le> q \<and> b_entries (block c' q) ! j = b_entries (block c q) ! j"
      using eff p f by (auto simp: writer_effect_def in_window_def block_def)
  qed
  have "manager_ok c' ?g lv (pending ?N (W(t := pc')) (sealed_seq c mod ?N)) mg"
  proof (rule manager_ok_stable [OF mk f(3,1,2,4)])
    show "same_active c g c' ?g" if "manager_activating mg"
      using writer_same_active [OF eff] manager_activating_closed [OF that mk] that one by (auto simp: one_activator_def)
    assume "pending ?N W (sealed_seq c mod ?N) = {}" "sealed_seq c < active_seq c"
    moreover from this have "CAPACITY < count_of c (sealed_seq c)" using w by (auto simp: window_ok_def Let_def)
    ultimately show "pending ?N (W(t := pc')) (sealed_seq c mod ?N) = {}" using pending_closed [where W = W, OF st] by blast
  qed
  moreover have "one_activator (W(t := pc')) mg"
  proof (rule one_activator_upd [OF one])
    assume a: "activating pc'"
    show "activating (W t) \<or> (\<forall>u. \<not> activating (W u)) \<and> \<not> manager_activating mg"
      using writer_activates [OF inv r st a] activating_closed [OF _ ok] manager_activating_closed [OF _ mk] by force
  qed
  ultimately show ?thesis
    unfolding ring_inv_def f(1,2) rec
    using window_ok_writer [OF inv r st] slots_inv_writer [OF inv r st] writer_ok_self [OF inv r st] other by simp
qed

section \<open>Steps of the manager\<close>

text \<open>A step of the manager that leaves the window, the reservations and the entries alone.\<close>

lemma ring_inv_frame:
  assumes inv: "ring_inv c W mg g lv" and ext: "extends c c'" "sealed_seq c' = sealed_seq c" "active_seq c' = active_seq c"
    and w: "window_ok c' g lv"
    and sl: "slots_inv (n_blocks c) (controls c') (blocks c') W g (recycling c mg')"
    and mk: "manager_ok c' g lv (pending (n_blocks c) W (sealed_seq c mod n_blocks c)) mg'"
    and act: "manager_activating mg' \<Longrightarrow> (\<forall>t. \<not> activating (W t))"
    and same: "(\<exists>t. activating (W t)) \<Longrightarrow> same_active c g c' g"
    and ent: "\<And>t q j. pend (n_blocks c) (W t) = Some (q mod n_blocks c, j) \<Longrightarrow> in_window c q \<Longrightarrow>
        b_entries (block c' q) ! j = b_entries (block c q) ! j"
  shows "ring_inv c' W mg' g lv"
proof -
  have N: "n_blocks c' = n_blocks c" using ext by (simp add: extends_def)
  have "recycling c' mg' = recycling c mg'" using N ext(2) by (simp add: recycling_def split: mpc.splits)
  moreover have "writer_ok c' g (W t)" for t
  proof (rule writer_ok_stable [where c = c and g = g])
    show "writer_ok c g (W t)" using inv by (simp add: ring_inv_def)
    show "same_active c g c' g" if "activating (W t)" using same that by blast
    show "sealed_seq c' \<le> q \<and> b_entries (block c' q) ! j = b_entries (block c q) ! j"
      if "pend (n_blocks c) (W t) = Some (q mod n_blocks c, j)" "in_window c q" for q j
      using ent [OF that] that(2) ext(2) by (simp add: in_window_def)
  qed (rule ext(1))
  moreover have "one_activator W mg'" using inv act by (simp add: ring_inv_def one_activator_def)
  ultimately show ?thesis
    unfolding ring_inv_def N ext(2) using w sl mk by simp
qed

lemma ring_inv_same:
  assumes inv: "ring_inv c W mg g lv" and "recycling c mg' = recycling c mg"
    and "manager_ok c g lv (pending (n_blocks c) W (sealed_seq c mod n_blocks c)) mg'"
    and "manager_activating mg' \<Longrightarrow> manager_activating mg \<or> (\<forall>t. \<not> activating (W t))"
  shows "ring_inv c W mg' g lv"
  using assms by (auto simp: ring_inv_def one_activator_def)

lemma ring_inv_cong:
  assumes "ring_inv c W mg g lv" "n_blocks c' = n_blocks c" "open_ru_epoch c' = open_ru_epoch c" "controls c' = controls c"
    "blocks c' = blocks c" "active_seq c' = active_seq c" "sealed_seq c' = sealed_seq c"
  shows "ring_inv c' W mg g lv"
proof -
  have c: "control c' = control c" "block c' = block c" using assms by (auto simp: control_def block_def fun_eq_iff)
  then have d: "count_of c' = count_of c" "tag c' = tag c" by (auto simp: count_of_def tag_def fun_eq_iff)
  then have same: "same_active c g c' g" using assms c by (simp add: same_active_def Let_def)
  have win: "in_window c' = in_window c" using assms by (simp add: in_window_def fun_eq_iff)
  have "window_ok c' g lv" using assms c d win by (simp add: ring_inv_def window_ok_def Let_def)
  moreover have "manager_ok c' g lv (pending (n_blocks c) W (sealed_seq c mod n_blocks c)) mg"
    by (rule manager_ok_stable [where c = c and g = g]) (use assms same in \<open>auto simp: ring_inv_def\<close>)
  moreover have "extends c c'" using assms d by (simp add: extends_def)
  ultimately show ?thesis
    using assms same c by (intro ring_inv_frame [OF assms(1)]) (auto simp: ring_inv_def one_activator_def recycling_def)
qed

lemma ring_inv_close:
  assumes inv: "ring_inv c W (MCloseAdd seq e af) g lv" and r: "in_range c"
    and st: "manager_step fl rr (MCloseAdd seq e af) (c, bm, wr) = (mg', c', bm', wr')"
  shows "ring_inv c' W mg' g lv"
proof -
  let ?N = "n_blocks c" and ?k = "control c seq" and ?A = "active_seq c"
  let ?n = "wordCount (c_word ?k)" and ?c = "snd (fetch_add seq CLOSED c)"
  have w: "window_ok c g lv" and sl: "slots_inv ?N (controls c) (blocks c) W g {}" and ok: "\<And>t. writer_ok c g (W t)"
    and win: "in_window c seq" and ce: "close_ok c lv e af"
    using inv by (auto simp: ring_inv_def recycling_def)
  then have N: "2 \<le> ?N" and seq: "wordSeq (c_word ?k) = of_nat seq"
    and cl: "seq < ?A \<Longrightarrow> CAPACITY < ?n" by (auto simp: window_ok_def Let_def in_window_def count_of_def)
  have i: "seq mod ?N < ?N" using N by simp
  note add = word_add_CLOSED [OF in_range_count [OF r N, of seq]]
  have cnt: "count_of ?c k = (if k mod ?N = seq mod ?N then ?n + 2 ^ 30 else count_of c k)" for k
    by (simp add: count_of_def fetch_add_def Let_def control_set_control add)
  have le: "count_of c k \<le> count_of ?c k" for k
    unfolding cnt by (auto simp: count_of_def control_def)
  have parts: "blocks ?c = blocks c" "n_blocks ?c = ?N" "active_seq ?c = ?A" "sealed_seq ?c = sealed_seq c"
    "open_ru_epoch ?c = open_ru_epoch c" "tag ?c = tag c" "block ?c = block c"
    "\<And>k. c_reserved (control ?c k) = c_reserved (control c k)"
    "\<And>k. wordSeq (c_word (control ?c k)) = wordSeq (c_word (control c k))"
    using add by (auto simp: fetch_add_def Let_def tag_def block_def control_def)
  have win': "window_ok ?c g lv" by (rule window_ok_stable [OF w]) (use parts le in auto)
  have "slots_inv ?N ((controls c)(seq mod ?N := (controls c (seq mod ?N))\<lparr>c_word := c_word (controls c (seq mod ?N)) + CLOSED\<rparr>))
      (blocks c) W g {}"
    using slots_inv_past [OF sl i, of CLOSED] in_range_count [OF r N, of seq] by (simp add: control_def)
  then have sl': "slots_inv ?N (controls ?c) (blocks ?c) W g {}" by (simp add: fetch_add_def Let_def control_def)
  have same: "same_active c g ?c g" using parts le by (simp add: same_active_def Let_def)
  let ?mg = "if CAPACITY < ?n then MWaitActive seq e af else MWaitSlot seq ?n e af"
  have st': "mg' = ?mg" "c' = ?c\<lparr>closer_waiting := True\<rparr>"
    using st seq by (auto simp: fetch_add_def Let_def split: if_splits)
  have "ring_inv ?c W ?mg g lv"
  proof (rule ring_inv_frame [OF inv])
    show "manager_ok ?c g lv (pending ?N W (sealed_seq c mod ?N)) ?mg"
    proof (cases "CAPACITY < ?n")
      case False
      then have "seq = ?A" using cl win by (metis in_window_def le_neq_implies_less)
      moreover have "g (seq mod ?N) = ?n"
        using sl i False CAPACITY_less by (auto simp: slots_inv_def slot_ok_def control_def)
      moreover have "CAPACITY < count_of ?c seq" unfolding cnt using CAPACITY_less by simp
      ultimately show ?thesis using False ce parts by (simp add: closed_active_def close_ok_stable [of c])
    qed (use ce parts in \<open>simp add: close_ok_stable [of c]\<close>)
    show "\<forall>t. \<not> activating (W t)" if "manager_activating ?mg"
    proof -
      have "\<not> CAPACITY < ?n" using that by (auto split: if_splits)
      moreover from this have "seq = ?A" using cl win by (metis in_window_def le_neq_implies_less)
      ultimately show ?thesis using activating_closed [OF _ ok] by (auto simp: count_of_def)
    qed
    show "slots_inv ?N (controls ?c) (blocks ?c) W g (recycling c ?mg)" using sl' by (simp add: recycling_def)
  qed (use parts win' same in \<open>auto simp: extends_def\<close>)
  then show ?thesis unfolding st' by (rule ring_inv_cong) (simp_all add: parts)
qed

lemma ring_inv_act:
  assumes inv: "ring_inv c W (MAct a af) g lv" and r: "in_range c" and st: "act_step a c = (Some a', c')"
  shows "ring_inv c' W (MAct a' af) g lv"
proof -
  let ?e = "close_epoch c af"
  have w: "window_ok c g lv" and sl: "slots_inv (n_blocks c) (controls c) (blocks c) W g {}" and lv: "?e \<in> lv"
    and a: "act_ok c g ?e a" and one: "\<forall>t. \<not> activating (W t)"
    using inv by (auto simp: ring_inv_def recycling_def one_activator_def)
  note eff = act_step_effect [OF a w st, unfolded writer_effect_def]
  have np: "\<And>q e. a \<noteq> APublish q e" using st by auto
  have f: "n_blocks c' = n_blocks c" "sealed_seq c' = sealed_seq c" "active_seq c' = active_seq c"
    "open_ru_epoch c' = open_ru_epoch c"
    using eff np by auto
  have "window_ok c' g lv" by (rule window_ok_stable [OF w]) (use eff np in auto)
  moreover have "slots_inv (n_blocks c) (controls c') (blocks c') W g {}"
    by (rule slots_inv_blocks [OF sl]) (use st in \<open>cases a; auto simp: control_def block_def split: if_splits\<close>)+
  moreover have "close_epoch c' af = ?e" using f by (simp add: close_epoch_def split: after.splits)
  then have "manager_ok c' g lv (pending (n_blocks c) W (sealed_seq c mod n_blocks c)) (MAct a' af)"
    using act_step_ok [OF a w r st] lv by simp
  ultimately show ?thesis
    using one eff f by (intro ring_inv_frame [OF inv]) (auto simp: extends_def recycling_def block_def)
qed

lemma ring_inv_publish:
  assumes inv: "ring_inv c W (MAct (APublish q e) af) g lv"
  defines "c' \<equiv> c\<lparr>active_seq := q + 1, closer_waiting := False, open_ru_epoch := close_epoch c af\<rparr>"
  shows "ring_inv c' W (case af of ToOpen new_e \<Rightarrow> MIdle | ToSeal \<Rightarrow> MSealLoad RetIdle) g lv"
proof -
  let ?e = "close_epoch c af"
  let ?d = "c\<lparr>active_seq := q + 1, open_ru_epoch := ?e\<rparr>"
  have w: "window_ok c g lv" and sl: "slots_inv (n_blocks c) (controls c) (blocks c) W g {}" and lv: "?e \<in> lv"
    and a: "act_ok c g ?e (APublish q e)" and one: "\<forall>t. \<not> activating (W t)" and ok: "\<And>t. writer_ok c g (W t)"
    using inv by (auto simp: ring_inv_def recycling_def one_activator_def)
  have e: "e = ?e" "q = active_seq c" using a by (auto simp: act_ok_def Let_def)
  have win: "window_ok ?d g lv" using window_ok_publish [OF w, of ?e q] a lv e by simp
  have same: "control c' = control c" "block c' = block c" "control ?d = control c" "block ?d = block c"
    by (auto simp: control_def block_def c'_def fun_eq_iff)
  have "window_ok c' g lv"
    using win unfolding window_ok_def Let_def in_window_def tag_def count_of_def same by (simp add: c'_def)
  moreover have "writer_ok c' g (W t)" for t
  proof (rule writer_ok_stable [OF ok])
    show "extends c c'" using e by (simp add: extends_def tag_def same) (simp add: c'_def)
    show "sealed_seq c' \<le> k \<and> b_entries (block c' k) ! j = b_entries (block c k) ! j" if "in_window c k" for k j
      using that by (simp add: same in_window_def) (simp add: c'_def)
  qed (use one in auto)
  moreover have "slots_inv (n_blocks c') (controls c') (blocks c') W g {}" using sl by (simp add: c'_def)
  ultimately show ?thesis
    using one by (auto simp: ring_inv_def recycling_def one_activator_def split: after.splits)
qed

text \<open>Sealing: the block at \<^verbatim>\<open>sealed_seq\<close> is closed, its slot is not that of the active block.\<close>

lemma sealing_slot:
  assumes "window_ok c g lv" "sealing c a"
  shows "CAPACITY < count_of c (sealed_seq c)" "c_reserved (control c (sealed_seq c)) = g (sealed_seq c mod n_blocks c)"
    "sealed_seq c < active_seq c" "sealed_seq c mod n_blocks c < n_blocks c"
    "\<And>k. sealed_seq c < k \<Longrightarrow> k < sealed_seq c + n_blocks c \<Longrightarrow> k mod n_blocks c \<noteq> sealed_seq c mod n_blocks c"
  using assms slot_eq_iff [of "sealed_seq c" _ "n_blocks c" "sealed_seq c"]
  by (auto simp: window_ok_def sealing_def Let_def)

lemma ring_inv_filled_all:
  assumes inv: "ring_inv c W (MSealWait a rt) g lv"
    and "c_filled (control c (sealed_seq c)) = c_reserved (control c (sealed_seq c))"
  shows "ring_inv c W (MSealWrite a rt) g lv"
proof -
  let ?N = "n_blocks c" and ?i = "sealed_seq c mod n_blocks c"
  have w: "window_ok c g lv" and s: "sealing c a" and sl: "slots_inv ?N (controls c) (blocks c) W g {}"
    using inv by (auto simp: ring_inv_def recycling_def)
  note slot = sealing_slot [OF w s]
  have ok: "slot_ok (length (b_entries (blocks c ?i))) (controls c ?i) (g ?i) (pending ?N W ?i) False"
    using sl slot(4) by (auto simp: slots_inv_def)
  then have "card (pending ?N W ?i) = 0" using assms(2) slot(2) by (simp add: slot_ok_def control_def)
  then have "pending ?N W ?i = {}" using finite_pending [OF ok] by simp
  then show ?thesis using inv by (intro ring_inv_same [OF inv]) (auto simp: ring_inv_def recycling_def)
qed

lemma ring_inv_write:
  assumes inv: "ring_inv c W (MSealWrite a rt) g lv" and sb: "b_ru_epoch b' = b_ru_epoch (block c (sealed_seq c))"
    "length (b_entries b') = CAPACITY"
  shows "ring_inv ((set_block (sealed_seq c) b' c)\<lparr>dirty_heads := d\<rparr>) W (MSealFilled a rt) g lv"
proof -
  let ?N = "n_blocks c" and ?S = "sealed_seq c" and ?c = "set_block (sealed_seq c) b' c"
  have w: "window_ok c g lv" and s: "sealing c a" and sl: "slots_inv ?N (controls c) (blocks c) W g {}"
    and mk: "manager_ok c g lv (pending ?N W (?S mod ?N)) (MSealWrite a rt)" and P: "pending ?N W (?S mod ?N) = {}"
    using inv by (auto simp: ring_inv_def recycling_def)
  have tags: "tag ?c = tag c" using sb by simp
  have same: "same_active c g ?c g" by (simp add: same_active_def Let_def tags count_of_def)
  have "window_ok ?c g lv" by (rule window_ok_stable [OF w]) (auto simp: tags count_of_def)
  moreover have "slots_inv ?N (controls ?c) (blocks ?c) W g {}"
    by (rule slots_inv_blocks [OF sl]) (use sb(2) slot_entries [OF sl sealing_slot(4) [OF w s]] in auto)
  moreover have "ret_ok ?c g lv rt" using ret_ok_stable [of c g lv rt ?c g] mk same by simp
  then have "manager_ok ?c g lv (pending ?N W (?S mod ?N)) (MSealFilled a rt)" using s P by (simp add: sealing_def)
  moreover have "b_entries (block ?c q) ! j = b_entries (block c q) ! j" if "pend ?N (W t) = Some (q mod ?N, j)" for t q j
    using P that by (auto simp: block_set_block pending_def)
  ultimately have "ring_inv ?c W (MSealFilled a rt) g lv"
    using inv same by (intro ring_inv_frame [OF inv]) (auto simp: extends_def tags recycling_def ring_inv_def one_activator_def)
  then show ?thesis by (rule ring_inv_cong) simp_all
qed

lemma ring_inv_reset:
  assumes inv: "ring_inv c W (MSealFilled a rt) g lv"
  shows "ring_inv (set_control (sealed_seq c) ((control c (sealed_seq c))\<lparr>c_filled := 0\<rparr>) c) W (MSealWord a rt) g lv"
proof -
  let ?N = "n_blocks c" and ?S = "sealed_seq c" and ?i = "sealed_seq c mod n_blocks c"
  let ?c = "set_control ?S ((control c ?S)\<lparr>c_filled := 0\<rparr>) c"
  have w: "window_ok c g lv" and s: "sealing c a" and sl: "slots_inv ?N (controls c) (blocks c) W g {}"
    and mk: "manager_ok c g lv (pending ?N W ?i) (MSealFilled a rt)" and P: "pending ?N W ?i = {}"
    using inv by (auto simp: ring_inv_def recycling_def)
  have words: "c_word (control ?c k) = c_word (control c k)" "c_reserved (control ?c k) = c_reserved (control c k)" for k
    by (auto simp: control_def)
  have tags: "tag ?c = tag c" by (simp add: tag_def fun_eq_iff)
  have same: "same_active c g ?c g" by (simp add: same_active_def Let_def tags count_of_def words)
  have "window_ok ?c g lv" by (rule window_ok_stable [OF w]) (auto simp: tags count_of_def words)
  moreover have "slots_inv ?N (controls ?c) (blocks ?c) W g {?i}"
    using sl P unfolding slots_inv_def slot_ok_def by (auto simp: control_def)
  moreover have "ret_ok ?c g lv rt" using ret_ok_stable [of c g lv rt ?c g] mk same by simp
  then have "manager_ok ?c g lv (pending ?N W ?i) (MSealWord a rt)" using s P by (simp add: sealing_def)
  ultimately show ?thesis
    using inv same by (intro ring_inv_frame [OF inv]) (auto simp: extends_def tags recycling_def ring_inv_def one_activator_def)
qed

lemma ring_inv_recycle:
  assumes inv: "ring_inv c W (MSealWord a rt) g lv"
  defines "c' \<equiv> (set_control (sealed_seq c)
      ((control c (sealed_seq c))\<lparr>c_reserved := 0, c_word := makeWord (sealed_seq c + n_blocks c)\<rparr>) c)\<lparr>sealed_seq := sealed_seq c + 1\<rparr>"
  shows "ring_inv c' W (MSealLoop a rt) (g(sealed_seq c mod n_blocks c := 0)) lv"
proof -
  let ?N = "n_blocks c" and ?S = "sealed_seq c" and ?A = "active_seq c" and ?i = "sealed_seq c mod n_blocks c"
  let ?g = "g(?i := 0)"
  have w: "window_ok c g lv" and s: "sealing c a" and sl: "slots_inv ?N (controls c) (blocks c) W g {?i}"
    and mk: "manager_ok c g lv (pending ?N W ?i) (MSealWord a rt)" and P: "pending ?N W ?i = {}"
    and ok: "\<And>t. writer_ok c g (W t)" and one: "one_activator W (MSealWord a rt)"
    using inv by (auto simp: ring_inv_def recycling_def)
  note slot = sealing_slot [OF w s]
  have f: "n_blocks c' = ?N" "sealed_seq c' = ?S + 1" "active_seq c' = ?A" "open_ru_epoch c' = open_ru_epoch c"
    "block c' = block c" "tag c' = tag c" "blocks c' = blocks c"
    by (auto simp: c'_def tag_def fun_eq_iff)
  have ctl: "control c' k = (if k mod ?N = ?i then (control c ?S)\<lparr>c_reserved := 0, c_word := makeWord (?S + ?N)\<rparr> else control c k)" for k
    by (simp add: c'_def control_set_control)
  have other: "control c' k = control c k \<and> count_of c' k = count_of c k \<and> ?g (k mod ?N) = g (k mod ?N)"
    if "?S < k" "k < ?S + ?N" for k
    using slot(5) [OF that] by (simp add: ctl count_of_def)
  have win: "?A < ?S + ?N" "2 \<le> ?N" using w by (auto simp: window_ok_def Let_def)
  have "wordSeq (c_word (control c' k)) = of_nat k" if "?S + 1 \<le> k" "k < ?S + 1 + ?N" for k
  proof (cases "k = ?S + ?N")
    case True
    then show ?thesis by (simp add: ctl makeWord_parts)
  next
    case False
    then show ?thesis using that other [of k] w by (simp add: window_ok_def Let_def)
  qed
  moreover have "CAPACITY < count_of c' k \<and> c_reserved (control c' k) = ?g (k mod ?N)" if "?S + 1 \<le> k" "k < ?A" for k
    using that other [of k] w win by (simp add: window_ok_def Let_def)
  ultimately have w': "window_ok c' ?g lv"
    using w slot(3) win unfolding window_ok_def Let_def f in_window_def by auto
  have same: "same_active c g c' ?g"
    using other [OF slot(3) win(1)] f by (simp add: same_active_def Let_def)
  have sl': "slots_inv ?N (controls c') (blocks c') W ?g {}"
    using sl P unfolding slots_inv_def slot_ok_def by (auto simp: c'_def makeWord_parts control_def)
  have "writer_ok c' ?g (W t)" for t
  proof (rule writer_ok_stable [OF ok])
    show "extends c c'" by (simp add: extends_def f)
    show "sealed_seq c' \<le> q \<and> b_entries (block c' q) ! j = b_entries (block c q) ! j"
      if "pend ?N (W t) = Some (q mod ?N, j)" "in_window c q" for q j
    proof -
      have "q \<noteq> ?S" using that P by (auto simp: pending_def)
      then show ?thesis using that(2) f by (simp add: in_window_def)
    qed
  qed (rule same)
  moreover have "ret_ok c' ?g lv rt" using ret_ok_stable [of c g lv rt c' ?g] mk same f by simp
  ultimately show ?thesis
    using w' sl' s one f by (simp add: ring_inv_def recycling_def one_activator_def sealing_def)
qed

definition g_manager :: "mpc \<Rightarrow> LBAChain \<Rightarrow> (nat \<Rightarrow> nat) \<Rightarrow> nat \<Rightarrow> nat" where
  "g_manager mg c g = (case mg of MSealWord a rt \<Rightarrow> g(sealed_seq c mod n_blocks c := 0) | _ \<Rightarrow> g)"

lemma seal_write_block:
  assumes "seal_write fl r reserved b bm = Some (b', bm')" "alloc_inv fl bm used"
  shows "b_ru_epoch b' = b_ru_epoch b"
    "reserved \<le> CAPACITY \<Longrightarrow> length (b_entries b) = CAPACITY \<Longrightarrow> length (b_entries b') = CAPACITY"
    "reserved \<le> length (b_entries b) \<Longrightarrow> take reserved (b_entries b') = take reserved (b_entries b)"
proof -
  obtain pid head e where "b' = sealed_block pid head e reserved b" using seal_write_cases [OF assms] by blast
  then show "b_ru_epoch b' = b_ru_epoch b"
    "reserved \<le> CAPACITY \<Longrightarrow> length (b_entries b) = CAPACITY \<Longrightarrow> length (b_entries b') = CAPACITY"
    "reserved \<le> length (b_entries b) \<Longrightarrow> take reserved (b_entries b') = take reserved (b_entries b)"
    by (simp_all add: sealed_block_def)
qed

lemma ring_inv_manager:
  assumes inv: "ring_inv c W mg g lv" and r: "in_range c" and al: "alloc_inv fl bm used"
    and st: "manager_step fl rr mg (c, bm, wr) = (mg', c', bm', wr')"
  shows "ring_inv c' W mg' (g_manager mg c g) lv"
proof (cases mg)
  case (MClose e af)
  then show ?thesis using inv st
    by (auto simp: g_manager_def ring_inv_def in_window_def window_ok_def Let_def recycling_def one_activator_def)
next
  case (MCloseAdd seq e af)
  then show ?thesis using ring_inv_close [of c W seq e af g lv fl rr bm wr mg' c' bm' wr'] inv r st by (simp add: g_manager_def)
next
  case (MWaitActive seq e af)
  then show ?thesis using inv st
    by (auto simp: g_manager_def ring_inv_def recycling_def one_activator_def split: if_splits)
next
  case (MWaitSlot seq q e af)
  then show ?thesis using inv st
    by (auto simp: g_manager_def ring_inv_def recycling_def one_activator_def act_ok_def Let_def closed_active_def close_ok_def
        split: if_splits)
next
  case (MAct a af)
  obtain a' c1 where a: "act_step a c = (a', c1)" by (cases "act_step a c")
  show ?thesis
  proof (cases a')
    case (Some a1)
    then show ?thesis using MAct a st ring_inv_act [of c W a af g lv a1 c1] inv r by (auto simp: g_manager_def)
  next
    case None
    then obtain q e where p: "a = APublish q e" "c1 = c\<lparr>active_seq := q + 1\<rparr>"
      using a by (cases a) (auto split: if_splits)
    have "c' = c\<lparr>active_seq := q + 1, closer_waiting := False, open_ru_epoch := close_epoch c af\<rparr>"
      using MAct None a p st by (auto simp: close_epoch_def split: after.splits)
    then show ?thesis
      using ring_inv_publish [of c W q e af g lv] inv MAct None a p st by (auto simp: g_manager_def split: after.splits)
  qed
next
  case (MSealLoad rt)
  then show ?thesis using inv st by (auto simp: g_manager_def ring_inv_def recycling_def one_activator_def)
next
  case (MSealLoop a rt)
  then show ?thesis using inv st
    by (auto simp: g_manager_def ring_inv_def recycling_def one_activator_def sealing_def split: if_splits)
next
  case (MSealWait a rt)
  then show ?thesis using inv st ring_inv_filled_all [of c W a rt g lv]
    by (auto simp: g_manager_def Let_def split: if_splits)
next
  case (MSealWrite a rt)
  let ?b = "block c (sealed_seq c)" and ?res = "c_reserved (control c (sealed_seq c))"
  have w: "window_ok c g lv" and s: "sealing c a" and sl: "slots_inv (n_blocks c) (controls c) (blocks c) W g {}"
    using inv MSealWrite by (auto simp: ring_inv_def recycling_def)
  note slot = sealing_slot [OF w s]
  have len: "length (b_entries ?b) = CAPACITY" "?res \<le> CAPACITY"
    using slot_entries [OF sl slot(4)] slot(2) by (simp_all add: block_def)
  show ?thesis
  proof (cases "?res > 0")
    case True
    then show ?thesis
    proof (cases "seal_write fl rr ?res ?b bm")
      case (Some p)
      obtain b' bm1 where p: "p = (b', bm1)" by (cases p)
      note sb = seal_write_block [OF Some [unfolded p] al]
      show ?thesis
        using ring_inv_write [of c W a rt g lv b'] sb len inv st MSealWrite True Some p by (auto simp: g_manager_def Let_def)
    qed (use inv st MSealWrite in \<open>auto simp: g_manager_def Let_def ring_inv_def recycling_def one_activator_def\<close>)
  next
    case False
    then show ?thesis using inv st MSealWrite
      by (auto simp: g_manager_def Let_def ring_inv_def recycling_def one_activator_def)
  qed
next
  case (MSealFilled a rt)
  then show ?thesis using inv st ring_inv_reset [of c W a rt g lv] by (auto simp: g_manager_def)
next
  case (MSealWord a rt)
  then show ?thesis using inv st ring_inv_recycle [of c W a rt g lv] by (auto simp: g_manager_def)
next
  case (MPersist rt)
  have "ring_inv c W (return_to rt) g lv"
    using inv MPersist by (intro ring_inv_same [OF inv]) (cases rt; auto simp: ring_inv_def recycling_def)+
  then have "ring_inv (c\<lparr>dirty_heads := []\<rparr>) W (return_to rt) g lv" by (rule ring_inv_cong) simp_all
  then show ?thesis using MPersist st by (auto simp: g_manager_def persistDirtyHeads_def)
qed (use inv st in \<open>auto simp: g_manager_def\<close>)

end
