(* ===== verification/LBA_Ring_Durable.thy ===== *)
theory LBA_Ring_Durable
  imports LBA_Ring_Invariant
begin

text \<open>
  What the ring and the chains promise together: a page identifier whose
  \<^verbatim>\<open>record\<close> returned is listed in an unsealed block of the RU epoch it was given or in the
  chain of that RU epoch on the device, and \<^verbatim>\<open>sealUpTo\<close> leaves the identifiers recorded
  before it in chains that can be read from the persisted heads.
\<close>

section \<open>Where a recorded identifier is\<close>

definition placed :: "LBAChain \<Rightarrow> (nat \<Rightarrow> wpc) \<Rightarrow> (nat \<Rightarrow> nat) \<Rightarrow> nat \<Rightarrow> PID \<Rightarrow> bool" where
  "placed c W g k pid \<longleftrightarrow>
     (\<exists>j < g (k mod n_blocks c). j \<notin> pending (n_blocks c) W (k mod n_blocks c) \<and> b_entries (block c k) ! j = pid)"

text \<open>In the chain of its RU epoch, or in a block of the ring before \<open>x\<close>.\<close>

definition kept ::
  "LBAChain \<Rightarrow> (nat \<Rightarrow> wpc) \<Rightarrow> (nat \<Rightarrow> nat) \<Rightarrow> (ru_epoch_t \<Rightarrow> chain) \<Rightarrow> nat \<Rightarrow> PID \<times> ru_epoch_t \<Rightarrow> bool" where
  "kept c W g chn x r \<longleftrightarrow>
     (case r of (pid, e) \<Rightarrow> pid \<in> set (chain_entries (chn e)) \<or>
        (\<exists>k. in_window c k \<and> k < x \<and> tag c k = e \<and> placed c W g k pid))"

lemma kept_mono: "kept c W g chn x r \<Longrightarrow> x \<le> y \<Longrightarrow> kept c W g chn y r"
  by (auto simp: kept_def split: prod.splits)

lemma kept_window: "kept c W g chn x r \<Longrightarrow> kept c W g chn (active_seq c + 1) r"
  unfolding kept_def in_window_def by (fastforce split: prod.splits)

lemma kept_step:
  assumes "kept c W g chn x r"
    and "\<And>k pid. in_window c k \<Longrightarrow> k < x \<Longrightarrow> placed c W g k pid \<Longrightarrow>
        in_window c' k \<and> tag c' k = tag c k \<and> placed c' W' g' k pid \<or> pid \<in> set (chain_entries (chn' (tag c k)))"
    and "\<And>e. set (chain_entries (chn e)) \<subseteq> set (chain_entries (chn' e))"
  shows "kept c' W' g' chn' x r"
proof (cases r)
  case (Pair pid e)
  with assms(1) consider "pid \<in> set (chain_entries (chn e))"
    | k where "in_window c k" "k < x" "tag c k = e" "placed c W g k pid"
    by (auto simp: kept_def)
  then show ?thesis
  proof cases
    case 1
    then show ?thesis using Pair assms(3) [of e] by (auto simp: kept_def)
  next
    case 2
    then show ?thesis using Pair assms(2) [OF 2(1,2,4)] by (auto simp: kept_def)
  qed
qed

lemma placed_cong:
  assumes "placed c W g k pid" "n_blocks c' = n_blocks c" "g (k mod n_blocks c) \<le> g' (k mod n_blocks c)"
    and "\<And>j. j < g (k mod n_blocks c) \<Longrightarrow> j \<notin> pending (n_blocks c) W (k mod n_blocks c) \<Longrightarrow>
        j \<notin> pending (n_blocks c) W' (k mod n_blocks c) \<and> b_entries (block c' k) ! j = b_entries (block c k) ! j"
  shows "placed c' W' g' k pid"
  using assms unfolding placed_def by (metis order_less_le_trans)

text \<open>Steps of a writer.\<close>

lemma writer_new_pending:
  assumes inv: "ring_inv c W mg g lv" and st: "record_step (W t) c = (pc', c')"
    and j: "j < g i" "j \<in> pending (n_blocks c) (W(t := pc')) i"
  shows "j \<in> pending (n_blocks c) W i"
proof -
  let ?N = "n_blocks c"
  have sl: "slots_inv ?N (controls c) (blocks c) W g (recycling c mg)" and N: "2 \<le> ?N"
    and mk: "manager_ok c g lv (pending ?N W (sealed_seq c mod ?N)) mg" and w: "window_ok c g lv"
    using inv by (auto simp: ring_inv_def window_ok_def Let_def)
  from j(2) consider u where "pend ?N (W u) = Some (i, j)" | "pend ?N pc' = Some (i, j)"
    by (auto simp: pending_upd)
  then show ?thesis
  proof cases
    case 2
    show ?thesis
    proof (cases "pend ?N (W t) = Some (i, j)")
      case False
      have "pend ?N pc' = None" if "W t = WDone p e" for p e using st unfolding that by auto
      then have "\<And>p e. W t \<noteq> WDone p e" using 2 by force
      with False obtain pid wt q where q: "W t = WAdd pid wt q" "i = q mod ?N" "wordCount (c_word (control c q)) = j" "j < CAPACITY"
        using 2 st by (cases "W t") (auto simp: Let_def fetch_add_def split: if_splits option.splits prod.splits)
      then have "i < ?N" using N by simp
      then have "g i = min j CAPACITY"
        using sl q CAPACITY_less by (auto simp: slots_inv_def slot_ok_def control_def)
      then show ?thesis using j(1) q(4) by simp
    qed (auto simp: pending_def)
  qed (auto simp: pending_def)
qed

lemma placed_writer:
  assumes inv: "ring_inv c W mg g lv" and r: "in_range c" and st: "record_step (W t) c = (pc', c')"
    and p: "placed c W g k pid" "in_window c k"
  shows "in_window c' k \<and> tag c' k = tag c k \<and> placed c' (W(t := pc')) (g_after (W t) c g) k pid"
proof -
  have w: "window_ok c g lv" and ok: "writer_ok c g (W t)" using inv by (auto simp: ring_inv_def)
  note eff = record_step_effect [OF w r ok st, unfolded writer_effect_def]
  have N: "n_blocks c' = n_blocks c" using eff by simp
  have "in_window c' k" "tag c' k = tag c k" using eff p(2) by (auto simp: in_window_def split: if_splits)
  moreover have "g i \<le> g_after (W t) c g i" for i by (cases "W t") (auto simp: g_after_def Let_def)
  then have "placed c' (W(t := pc')) (g_after (W t) c g) k pid"
  proof (rule placed_cong [OF p(1) N])
    fix j assume j: "j < g (k mod n_blocks c)" "j \<notin> pending (n_blocks c) W (k mod n_blocks c)"
    then have "pend (n_blocks c) (W t) \<noteq> Some (k mod n_blocks c, j)" by (auto simp: pending_def)
    then show "j \<notin> pending (n_blocks c) (W(t := pc')) (k mod n_blocks c) \<and> b_entries (block c' k) ! j = b_entries (block c k) ! j"
      using writer_new_pending [OF inv st j(1)] j(2) eff N by (auto simp: block_def)
  qed
  ultimately show ?thesis by blast
qed

lemma kept_writer:
  assumes "ring_inv c W mg g lv" "in_range c" "record_step (W t) c = (pc', c')" "kept c W g chn x r"
  shows "kept c' (W(t := pc')) (g_after (W t) c g) chn x r"
  using assms(4) by (rule kept_step) (use placed_writer [OF assms(1-3)] in auto)

text \<open>The entry of a writer that returns is in its block.\<close>

lemma kept_recorded:
  assumes inv: "ring_inv c W mg g lv" and r: "in_range c" and st: "record_step (W t) c = (pc', c')"
    and rec: "x \<in> recorded_by (W t)"
  shows "kept c' (W(t := pc')) (g_after (W t) c g) chn (active_seq c' + 1) x" "snd x \<in> lv"
proof -
  obtain pid wt q j e where q: "W t = WFilled pid wt q j e" "x = (pid, e)"
    using rec by (auto simp: recorded_by_def split: wpc.splits)
  let ?N = "n_blocks c" and ?i = "q mod n_blocks c"
  have sl: "slots_inv ?N (controls c) (blocks c) W g (recycling c mg)" and N: "2 \<le> ?N" and w: "window_ok c g lv"
    and ok: "writer_ok c g (W t)"
    using inv by (auto simp: ring_inv_def window_ok_def Let_def)
  have win: "in_window c q" "b_entries (block c q) ! j = pid" "e = tag c q" using ok q by auto
  then show "snd x \<in> lv" using w q by (auto simp: window_ok_def Let_def)
  have j: "j < g ?i" using slot_pend [OF sl, of ?i t j] N q by simp
  have pc': "pc' = WDone pid e" and c': "block c' = block c" "tag c' = tag c" "in_window c' = in_window c" "n_blocks c' = ?N"
    "active_seq c' = active_seq c"
    using st q by (auto simp: add_filled_def Let_def tag_def in_window_def fun_eq_iff split: if_splits)
  have "pending ?N (W(t := pc')) = (pending ?N W)(?i := pending ?N W ?i - {j})"
    by (rule pending_done) (use q pc' sl in \<open>auto simp: slots_inv_def\<close>)
  then have "placed c' (W(t := pc')) g q pid"
    unfolding placed_def c' using j win by (intro exI [of _ j]) simp
  then show "kept c' (W(t := pc')) (g_after (W t) c g) chn (active_seq c' + 1) x"
    using win q c' by (auto simp: kept_def g_after_def in_window_def intro!: exI [of _ q])
qed

section \<open>The invariant of the system\<close>

text \<open>Before the blocks \<open>x\<close> of \<open>due_bound mg c = Some x\<close> are sealed, everything due is kept.\<close>

fun due_bound :: "mpc \<Rightarrow> LBAChain \<Rightarrow> nat option" where
  "due_bound MIdle c = Some 0"
| "due_bound (MSealLoad RetIdle) c = Some (active_seq c)"
| "due_bound (MSealLoop a RetIdle) c = Some a"
| "due_bound (MSealWait a RetIdle) c = Some a"
| "due_bound (MSealWrite a RetIdle) c = Some a"
| "due_bound (MSealFilled a RetIdle) c = Some a"
| "due_bound (MSealWord a RetIdle) c = Some a"
| "due_bound (MPersist RetIdle) c = Some 0"
| "due_bound mg c = None"

fun ret_opens :: "ret \<Rightarrow> bool" where
  "ret_opens (RetActive q e (ToOpen n)) \<longleftrightarrow> True"
| "ret_opens (RetSlot q r e (ToOpen n)) \<longleftrightarrow> True"
| "ret_opens _ \<longleftrightarrow> False"

fun opens :: "mpc \<Rightarrow> bool" where
  "opens (MClose e (ToOpen n)) \<longleftrightarrow> True"
| "opens (MCloseAdd q e (ToOpen n)) \<longleftrightarrow> True"
| "opens (MWaitActive q e (ToOpen n)) \<longleftrightarrow> True"
| "opens (MWaitSlot q r e (ToOpen n)) \<longleftrightarrow> True"
| "opens (MAct a (ToOpen n)) \<longleftrightarrow> True"
| "opens (MSealLoad rt) \<longleftrightarrow> ret_opens rt"
| "opens (MSealLoop a rt) \<longleftrightarrow> ret_opens rt"
| "opens (MSealWait a rt) \<longleftrightarrow> ret_opens rt"
| "opens (MSealWrite a rt) \<longleftrightarrow> ret_opens rt"
| "opens (MSealFilled a rt) \<longleftrightarrow> ret_opens rt"
| "opens (MSealWord a rt) \<longleftrightarrow> ret_opens rt"
| "opens (MPersist rt) \<longleftrightarrow> ret_opens rt"
| "opens _ \<longleftrightarrow> False"

text \<open>The points between a write and the persisting of the heads.\<close>

fun heads_dirty :: "mpc \<Rightarrow> bool" where
  "heads_dirty (MSealLoop a rt) \<longleftrightarrow> True"
| "heads_dirty (MSealWait a rt) \<longleftrightarrow> True"
| "heads_dirty (MSealWrite a rt) \<longleftrightarrow> True"
| "heads_dirty (MSealFilled a rt) \<longleftrightarrow> True"
| "heads_dirty (MSealWord a rt) \<longleftrightarrow> True"
| "heads_dirty (MPersist rt) \<longleftrightarrow> True"
| "heads_dirty MAborted \<longleftrightarrow> True"
| "heads_dirty _ \<longleftrightarrow> False"

fun written_out :: "mpc \<Rightarrow> bool" where
  "written_out (MSealFilled a rt) \<longleftrightarrow> True"
| "written_out (MSealWord a rt) \<longleftrightarrow> True"
| "written_out _ \<longleftrightarrow> False"

definition heads_ok :: "chain_bm \<Rightarrow> mpc \<Rightarrow> ru_epoch_t list \<Rightarrow> bool" where
  "heads_ok bm mg dirty \<longleftrightarrow>
     (\<forall>h < length (cb_heads bm). heads_saved bm h \<or> h \<in> head_index bm ` set dirty) \<and> (heads_dirty mg \<or> dirty = [])"

definition chains_ok :: "flags \<Rightarrow> chain_bm \<Rightarrow> PID set \<Rightarrow> ru_epoch_t set \<Rightarrow> PID set \<Rightarrow> (ru_epoch_t \<Rightarrow> chain) \<Rightarrow> bool" where
  "chains_ok fl bm pgs lv used chn \<longleftrightarrow>
     chain_inv fl bm used lv chn \<and> pgs \<subseteq> used \<and> (\<forall>e \<in> lv. pgs \<inter> chain_pids (chn e) = {})"

definition records_ok :: "ring_sys \<Rightarrow> (nat \<Rightarrow> nat) \<Rightarrow> (ru_epoch_t \<Rightarrow> chain) \<Rightarrow> bool" where
  "records_ok s g chn \<longleftrightarrow>
     (let c = rs_chain s; W = rs_writers s; mg = rs_manager s
      in (\<forall>x \<in> recorded s. snd x \<in> live s \<and> kept c W g chn (active_seq c + 1) x) \<and>
         due s \<subseteq> recorded s \<and> (opens mg \<longrightarrow> due s = {}) \<and>
         (case due_bound mg c of None \<Rightarrow> True | Some x \<Rightarrow> \<forall>d \<in> due s. kept c W g chn x d) \<and>
         (written_out mg \<longrightarrow> (\<forall>j < g (sealed_seq c mod n_blocks c).
            b_entries (block c (sealed_seq c)) ! j \<in> set (chain_entries (chn (tag c (sealed_seq c)))))))"

definition sys_ok :: "flags \<Rightarrow> ring_sys \<Rightarrow> (nat \<Rightarrow> nat) \<Rightarrow> PID set \<Rightarrow> (ru_epoch_t \<Rightarrow> chain) \<Rightarrow> bool" where
  "sys_ok fl s g used chn \<longleftrightarrow>
     ring_inv (rs_chain s) (rs_writers s) (rs_manager s) g (live s) \<and> in_range (rs_chain s) \<and>
     chains_ok fl (rs_bm s) (pages s) (live s) used chn \<and>
     heads_ok (rs_bm s) (rs_manager s) (dirty_heads (rs_chain s)) \<and> records_ok s g chn"

definition ring_sys_inv :: "flags \<Rightarrow> ring_sys \<Rightarrow> bool" where
  "ring_sys_inv fl s \<longleftrightarrow> (\<exists>g used chn. sys_ok fl s g used chn)"

section \<open>Writers keep it\<close>

lemma due_bound_mono: "due_bound mg c = Some x \<Longrightarrow> active_seq c \<le> active_seq c' \<Longrightarrow> \<exists>y. due_bound mg c' = Some y \<and> x \<le> y"
  by (induction mg c rule: due_bound.induct) auto

lemma due_bound_same: "active_seq c' = active_seq c \<Longrightarrow> due_bound mg c' = due_bound mg c"
  by (induction mg c rule: due_bound.induct) auto

lemma due_bound_None: "due_bound mg c = None \<Longrightarrow> due_bound mg c' = None"
  by (induction mg c rule: due_bound.induct) auto

lemma act_step_dirty: "dirty_heads (snd (act_step a c)) = dirty_heads c"
  by (cases a) auto

lemma record_step_dirty: "dirty_heads (snd (record_step pc c)) = dirty_heads c"
proof (cases pc)
  case (WAct pid w a)
  then show ?thesis using act_step_dirty [of a c] by (auto split: option.splits prod.splits)
qed (auto simp: fetch_add_def put_entry_def add_filled_def Let_def)

lemma sys_ok_writer:
  assumes ok: "sys_ok fl s g used chn" and rng: "in_range (rs_chain (writer_moves t s))"
  shows "sys_ok fl (writer_moves t s) (g_after (rs_writers s t) (rs_chain s) g) used chn"
proof -
  let ?c = "rs_chain s" and ?W = "rs_writers s" and ?mg = "rs_manager s"
  obtain pc' c' where st: "record_step (?W t) ?c = (pc', c')" by (cases "record_step (?W t) ?c")
  have s': "writer_moves t s = s\<lparr>rs_chain := c', rs_writers := ?W(t := pc'), recorded := recorded s \<union> recorded_by (?W t)\<rparr>"
    using st by (simp add: writer_moves_def)
  have inv: "ring_inv ?c ?W ?mg g (live s)" and r: "in_range ?c" and rec: "records_ok s g chn"
    using ok by (auto simp: sys_ok_def)
  have w: "window_ok ?c g (live s)" and wok: "writer_ok ?c g (?W t)"
    and mk: "manager_ok ?c g (live s) (pending (n_blocks ?c) ?W (sealed_seq ?c mod n_blocks ?c)) ?mg"
    using inv by (auto simp: ring_inv_def)
  note eff = record_step_effect [OF w r wok st, unfolded writer_effect_def]
  let ?g = "g_after (?W t) ?c g" and ?W' = "?W(t := pc')"
  have f: "n_blocks c' = n_blocks ?c" "sealed_seq c' = sealed_seq ?c" "active_seq ?c \<le> active_seq c'"
    and dirty: "dirty_heads c' = dirty_heads ?c"
    using eff record_step_dirty [of "?W t" ?c] st by (auto split: if_splits)
  have keep: "kept c' ?W' ?g chn x d" if "kept ?c ?W g chn x d" for x d
    using kept_writer [where W = ?W, OF inv r st that] .
  have "snd x \<in> live s \<and> kept c' ?W' ?g chn (active_seq c' + 1) x" if "x \<in> recorded s \<union> recorded_by (?W t)" for x
    using that
  proof
    assume "x \<in> recorded s"
    then have "snd x \<in> live s" "kept ?c ?W g chn (active_seq ?c + 1) x" using rec by (auto simp: records_ok_def Let_def)
    then show ?thesis using keep kept_window by blast
  qed (use kept_recorded [where W = ?W, OF inv r st] in blast)
  moreover have "\<forall>d \<in> due s. kept c' ?W' ?g chn y d" if y: "due_bound ?mg c' = Some y" for y
  proof
    fix d assume d: "d \<in> due s"
    obtain x where x: "due_bound ?mg ?c = Some x" using y due_bound_None [of ?mg ?c c'] by fastforce
    then have "x \<le> y" using due_bound_mono [OF x f(3)] y by simp
    moreover have "kept ?c ?W g chn x d" using rec x d by (auto simp: records_ok_def Let_def)
    ultimately show "kept c' ?W' ?g chn y d" using keep kept_mono by blast
  qed
  moreover have "b_entries (block c' (sealed_seq c')) ! j \<in> set (chain_entries (chn (tag c' (sealed_seq c'))))"
    if wo: "written_out ?mg" and j: "j < ?g (sealed_seq c' mod n_blocks c')" for j
  proof -
    have s: "sealing ?c a" if "?mg = MSealFilled a rt \<or> ?mg = MSealWord a rt" for a rt using mk that by auto
    then obtain a where s: "sealing ?c a" using wo by (cases ?mg) auto
    note slot = sealing_slot [OF w s]
    have P: "pending (n_blocks ?c) ?W (sealed_seq ?c mod n_blocks ?c) = {}" using mk wo by (cases ?mg) auto
    have "j < g (sealed_seq ?c mod n_blocks ?c)" using j f g_after_closed [OF slot(1)] by simp
    moreover have "in_window ?c (sealed_seq ?c)" using slot(3) by (simp add: in_window_def)
    then have "tag c' (sealed_seq ?c) = tag ?c (sealed_seq ?c)" using eff by simp
    moreover have "b_entries (block c' (sealed_seq ?c)) ! j = b_entries (block ?c (sealed_seq ?c)) ! j"
      using eff P by (auto simp: block_def pending_def)
    ultimately show ?thesis using rec wo f by (auto simp: records_ok_def Let_def)
  qed
  moreover have "due s \<subseteq> recorded s \<union> recorded_by (?W t)" "opens ?mg \<longrightarrow> due s = {}"
    using rec by (auto simp: records_ok_def Let_def)
  ultimately have "records_ok (writer_moves t s) ?g chn"
    unfolding s' records_ok_def Let_def by (auto split: option.splits)
  then show ?thesis
    using ok rng dirty ring_inv_writer [OF inv r st] unfolding s' sys_ok_def by simp
qed

section \<open>The manager keeps it\<close>

definition quiet :: "LBAChain \<Rightarrow> LBAChain \<Rightarrow> bool" where
  "quiet c c' \<longleftrightarrow>
     n_blocks c' = n_blocks c \<and> sealed_seq c' = sealed_seq c \<and> active_seq c \<le> active_seq c' \<and>
     dirty_heads c' = dirty_heads c \<and> (\<forall>k. in_window c k \<longrightarrow> tag c' k = tag c k) \<and>
     (\<forall>k. b_entries (block c' k) = b_entries (block c k))"

lemma quiet_refl: "quiet c c"
  by (simp add: quiet_def)

lemma kept_quiet:
  assumes "kept c W g chn x d" "quiet c c'"
  shows "kept c' W g chn x d"
  using assms(1) by (rule kept_step) (use assms(2) in \<open>auto simp: quiet_def placed_def in_window_def\<close>)

text \<open>A step of the manager that writes nothing.\<close>

lemma sys_ok_quiet:
  assumes ok: "sys_ok fl s g used chn" and ring: "ring_inv c' (rs_writers s) mg' g (live s)" "in_range c'"
    and q: "quiet (rs_chain s) c'"
    and hd: "heads_dirty (rs_manager s) \<Longrightarrow> heads_dirty mg'"
    and op: "opens mg' \<Longrightarrow> due s = {}"
    and wo: "written_out mg' \<Longrightarrow> written_out (rs_manager s)"
    and due: "\<And>y d. due_bound mg' c' = Some y \<Longrightarrow> d \<in> due s \<Longrightarrow> kept (rs_chain s) (rs_writers s) g chn y d"
  shows "sys_ok fl (s\<lparr>rs_chain := c', rs_manager := mg', rs_written := w\<rparr>) g used chn"
proof -
  let ?c = "rs_chain s" and ?W = "rs_writers s"
  have rec: "records_ok s g chn" and win: "in_window ?c (sealed_seq ?c)"
    using ok by (auto simp: sys_ok_def ring_inv_def window_ok_def Let_def in_window_def)
  have keep: "kept c' ?W g chn (active_seq c' + 1) x" if "kept ?c ?W g chn (active_seq ?c + 1) x" for x
    using kept_quiet [OF that q] kept_window by blast
  have "b_entries (block c' (sealed_seq c')) = b_entries (block ?c (sealed_seq ?c)) \<and> tag c' (sealed_seq c') = tag ?c (sealed_seq ?c)"
    using q win by (simp add: quiet_def)
  then have "records_ok (s\<lparr>rs_chain := c', rs_manager := mg', rs_written := w\<rparr>) g chn"
    using rec keep op wo kept_quiet [OF due q] q unfolding records_ok_def Let_def
    by (auto simp: quiet_def split: option.splits)
  moreover have "heads_ok (rs_bm s) mg' (dirty_heads c')"
    using ok hd q by (auto simp: sys_ok_def heads_ok_def quiet_def)
  ultimately show ?thesis using ok ring by (simp add: sys_ok_def)
qed

lemma opens_due: "sys_ok fl s g used chn \<Longrightarrow> opens (rs_manager s) \<Longrightarrow> due s = {}"
  by (auto simp: sys_ok_def records_ok_def Let_def)

lemma due_kept: "sys_ok fl s g used chn \<Longrightarrow> due_bound (rs_manager s) (rs_chain s) = Some x \<Longrightarrow> d \<in> due s \<Longrightarrow>
    kept (rs_chain s) (rs_writers s) g chn x d"
  by (auto simp: sys_ok_def records_ok_def Let_def)

lemma recorded_kept: "sys_ok fl s g used chn \<Longrightarrow> d \<in> due s \<Longrightarrow>
    kept (rs_chain s) (rs_writers s) g chn (active_seq (rs_chain s) + 1) d"
  by (auto simp: sys_ok_def records_ok_def Let_def)

lemma act_step_quiet:
  assumes "act_ok c g e a" "window_ok c g lv" "act_step a c = (a', c')"
  shows "quiet c c'"
proof -
  note eff = act_step_effect [OF assms, unfolded writer_effect_def]
  have "b_entries (block c' k) = b_entries (block c k)" for k
    using assms(3) by (cases a) (auto simp: block_set_block block_def split: if_splits)
  then show ?thesis using eff act_step_dirty [of a c] assms(3) by (auto simp: quiet_def split: if_splits)
qed

lemma fetch_add_quiet: "quiet c (snd (fetch_add q x c))"
  by (simp add: quiet_def fetch_add_def Let_def tag_def)

lemma quiet_cong:
  "quiet c c1 \<Longrightarrow> n_blocks c' = n_blocks c1 \<Longrightarrow> sealed_seq c' = sealed_seq c1 \<Longrightarrow> active_seq c' = active_seq c1 \<Longrightarrow>
   dirty_heads c' = dirty_heads c1 \<Longrightarrow> blocks c' = blocks c1 \<Longrightarrow> quiet c c'"
  unfolding quiet_def tag_def block_def by auto

text \<open>The points from which a step writes to the device or recycles a slot.\<close>

fun loud :: "mpc \<Rightarrow> bool" where
  "loud (MSealWrite a rt) \<longleftrightarrow> True"
| "loud (MSealWord a rt) \<longleftrightarrow> True"
| "loud (MPersist rt) \<longleftrightarrow> True"
| "loud _ \<longleftrightarrow> False"

lemma manager_step_quiet:
  assumes inv: "ring_inv c W mg g lv" and st: "manager_step fl r mg (c, bm, wr) = (mg', c', bm', wr')" and nl: "\<not> loud mg"
  shows "quiet c c' \<and> bm' = bm \<and> g_manager mg c g = g \<and> (heads_dirty mg \<longrightarrow> heads_dirty mg') \<and>
    (opens mg' \<longrightarrow> opens mg) \<and> (written_out mg' \<longrightarrow> written_out mg)"
proof (cases mg)
  case (MCloseAdd q e af)
  have "quiet c (snd (fetch_add q CLOSED c))" by (rule fetch_add_quiet)
  then show ?thesis
    using MCloseAdd st by (cases af) (auto simp: Let_def fetch_add_def g_manager_def split: if_splits intro: quiet_cong)
next
  case (MAct a af)
  obtain a' c1 where a: "act_step a c = (a', c1)" by (cases "act_step a c")
  have "quiet c c1" using act_step_quiet [OF _ _ a] inv MAct by (auto simp: ring_inv_def)
  then show ?thesis
    using MAct a st by (cases a'; cases af) (auto simp: g_manager_def intro: quiet_cong)
next
  case (MSealFilled a rt)
  then show ?thesis using st by (auto simp: g_manager_def quiet_def tag_def)
next
  case (MClose e af)
  then show ?thesis using st by (cases af) (auto simp: g_manager_def quiet_refl)
next
  case (MWaitActive q e af)
  then show ?thesis using st by (cases af) (auto simp: g_manager_def quiet_refl split: if_splits)
next
  case (MWaitSlot q rr e af)
  then show ?thesis using st by (cases af) (auto simp: g_manager_def quiet_refl split: if_splits)
qed (use st nl in \<open>auto simp: g_manager_def quiet_refl Let_def split: if_splits\<close>)

lemma manager_step_due:
  assumes ok: "sys_ok fl s g used chn" and nl: "\<not> loud (rs_manager s)"
    and st: "manager_step fl r (rs_manager s) (rs_chain s, bm, wr) = (mg', c', bm', wr')"
    and b: "due_bound mg' c' = Some y" and d: "d \<in> due s"
  shows "kept (rs_chain s) (rs_writers s) g chn y d"
proof -
  let ?c = "rs_chain s"
  have no: "\<not> opens (rs_manager s)" using opens_due [OF ok] d by blast
  have mk: "manager_ok ?c g (live s) P (rs_manager s)" if "P = pending (n_blocks ?c) (rs_writers s) (sealed_seq ?c mod n_blocks ?c)" for P
    using ok that by (simp add: sys_ok_def ring_inv_def)
  note due = due_kept [OF ok _ d] and rec = recorded_kept [OF ok d]
  show ?thesis
  proof (cases "rs_manager s")
    case (MAct a af)
    obtain a' c1 where a: "act_step a ?c = (a', c1)" by (cases "act_step a ?c")
    have "a' = None" "af = ToSeal" "mg' = MSealLoad RetIdle" "active_seq c' = active_seq c1"
      using MAct a st b no by (auto split: option.splits after.splits)
    moreover from this have "active_seq c1 = active_seq ?c + 1"
      using a mk MAct by (cases a) (auto simp: act_ok_def Let_def split: if_splits)
    ultimately show ?thesis using b rec by simp
  next
    case (MSealLoop a rt)
    show ?thesis
    proof (cases "sealed_seq ?c < a")
      case True
      then show ?thesis using MSealLoop st b due by (cases rt) auto
    next
      case False
      then have rt: "rt = RetIdle" "y = 0" using MSealLoop st b by (cases rt; auto)+
      have "kept ?c (rs_writers s) g chn a d" using due MSealLoop rt by simp
      then show ?thesis using False rt unfolding kept_def in_window_def by (fastforce split: prod.splits)
    qed
  next
    case (MSealLoad rt)
    then show ?thesis using st b due by (cases rt) auto
  next
    case (MSealWait a rt)
    have "mg' = MSealWait a rt \<or> mg' = MSealWrite a rt" "c' = ?c"
      using st unfolding MSealWait by (auto simp: Let_def split: if_splits)
    then have "rt = RetIdle" "y = a" using b by (cases rt; auto)+
    then show ?thesis using due [of a] unfolding MSealWait by simp
  next
    case (MSealFilled a rt)
    then show ?thesis using st b due by (cases rt) auto
  qed (use st b nl due in \<open>auto simp: Let_def fetch_add_def split: if_splits\<close>)
qed


text \<open>A step that writes a block.\<close>

lemma note_dirty_head_set [simp]: "set (note_dirty_head e d) = insert e (set d)"
  by (cases d rule: rev_cases) (auto simp: note_dirty_head_def)

lemma heads_ok_seal:
  assumes "heads_ok bm mg d" "cb_heads bm' = (cb_heads bm)[head_index bm e := pid]" "head_index bm' = head_index bm"
    "cb_ssd_heads bm' = cb_ssd_heads bm" "heads_dirty mg'"
  shows "heads_ok bm' mg' (note_dirty_head e d)"
  unfolding heads_ok_def heads_saved_def
proof (intro conjI allI impI)
  fix h assume h: "h < length (cb_heads bm')"
  show "cb_ssd_heads bm' ! h = cb_heads bm' ! h \<or> h \<in> head_index bm' ` set (note_dirty_head e d)"
    using assms h by (cases "h = head_index bm e") (auto simp: heads_ok_def heads_saved_def)
qed (use assms in simp)

lemma sealed_entries:
  assumes "window_ok c g lv" "sealing c a" "take r (b_entries b') = take r (b_entries (block c (sealed_seq c)))"
    and "r = c_reserved (control c (sealed_seq c))" "k mod n_blocks c = sealed_seq c mod n_blocks c" "j < g (k mod n_blocks c)"
  shows "b_entries b' ! j = b_entries (block c k) ! j"
proof -
  have "j < r" "block c k = block c (sealed_seq c)"
    using sealing_slot [OF assms(1,2)] assms(4-6) by (simp_all add: block_def)
  then show ?thesis using assms(3) by (metis nth_take)
qed

lemma sys_ok_seal_write:
  assumes ok: "sys_ok fl s g used chn" and m: "rs_manager s = MSealWrite a rt"
    and res: "0 < c_reserved (control (rs_chain s) (sealed_seq (rs_chain s)))"
    and w: "seal_write fl r (c_reserved (control (rs_chain s) (sealed_seq (rs_chain s)))) (block (rs_chain s) (sealed_seq (rs_chain s))) (rs_bm s) = Some (b', bm')"
  shows "\<exists>used' chn'. sys_ok fl (manager_moves fl r s) g used' chn'"
proof -
  let ?c = "rs_chain s" and ?W = "rs_writers s"
  let ?S = "sealed_seq ?c" and ?N = "n_blocks ?c"
  let ?b = "block ?c ?S" and ?r = "c_reserved (control ?c ?S)"
  let ?e = "b_ru_epoch ?b"
  define c' where "c' = (set_block ?S b' ?c)\<lparr>dirty_heads := note_dirty_head ?e (dirty_heads ?c)\<rparr>"
  have inv: "ring_inv ?c ?W (MSealWrite a rt) g (live s)" and rng: "in_range ?c" and rec: "records_ok s g chn"
    and ch: "chain_inv fl (rs_bm s) used (live s) chn" and hd: "heads_ok (rs_bm s) (rs_manager s) (dirty_heads ?c)"
    and pg: "pages s \<subseteq> used" "\<forall>e \<in> live s. pages s \<inter> chain_pids (chn e) = {}"
    using ok m by (auto simp: sys_ok_def chains_ok_def)
  have win: "window_ok ?c g (live s)" and sg: "sealing ?c a" and sl: "slots_inv ?N (controls ?c) (blocks ?c) ?W g {}"
    using inv by (auto simp: ring_inv_def recycling_def)
  note slot = sealing_slot [OF win sg]
  have len: "length (b_entries ?b) = CAPACITY" "?r \<le> CAPACITY"
    using slot_entries [OF sl slot(4)] slot(2) by (simp_all add: block_def)
  have e: "?e \<in> live s" using win slot(3) by (auto simp: window_ok_def Let_def in_window_def tag_def)
  have al: "alloc_inv fl (rs_bm s) used" using ch by (simp add: chain_inv_def)
  note sb = seal_write_block [OF w al]
  let ?chn = "\<lambda>pid. chn(?e := (pid, cb_ru_epoch (rs_bm s), take ?r (b_entries ?b)) # chn ?e)"
  obtain pid where pid: "chain_inv fl bm' (insert pid used) (live s) (?chn pid)" "pid \<notin> used"
    "cb_heads bm' = (cb_heads (rs_bm s))[head_index (rs_bm s) ?e := pid]" "head_index bm' = head_index (rs_bm s)"
    "cb_ssd_heads bm' = cb_ssd_heads (rs_bm s)"
    using chain_inv_seal [OF ch w e len(2,1)] .
  have s': "manager_moves fl r s = s\<lparr>rs_chain := c', rs_bm := bm', rs_written := rs_written s + 1, rs_manager := MSealFilled a rt\<rparr>"
    using m res w by (simp add: manager_moves_def Let_def c'_def)
  have f: "sealed_seq c' = ?S" "active_seq c' = active_seq ?c" "n_blocks c' = ?N" "in_window c' = in_window ?c"
    "tag c' = tag ?c" "dirty_heads c' = note_dirty_head ?e (dirty_heads ?c)"
    "\<And>k. block c' k = (if k mod ?N = ?S mod ?N then b' else block ?c k)"
    using tag_set_block [OF sb(1)] unfolding c'_def
    by (simp_all add: in_window_def fun_eq_iff block_set_block tag_def)
  note same = sealed_entries [OF win sg sb(3) refl]
  have keep: "kept c' ?W g (?chn pid) x d" if "kept ?c ?W g chn x d" for x d
    using that
  proof (rule kept_step)
    fix k p assume k: "in_window ?c k" "placed ?c ?W g k p"
    have "placed c' ?W g k p" by (rule placed_cong [OF k(2)]) (use same [of k] len in \<open>auto simp: f\<close>)
    then show "in_window c' k \<and> tag c' k = tag ?c k \<and> placed c' ?W g k p \<or> p \<in> set (chain_entries (?chn pid (tag ?c k)))"
      using k(1) by (simp add: f)
  qed auto
  have "b_entries (block c' ?S) ! j \<in> set (chain_entries (?chn pid (tag c' ?S)))" if "j < g (?S mod ?N)" for j
  proof -
    have "b_entries b' ! j = b_entries ?b ! j" using same [of ?S j] len that by simp
    moreover have "j < length (take ?r (b_entries ?b))" using that slot(2) len by simp
    then have "b_entries ?b ! j \<in> set (take ?r (b_entries ?b))" by (metis nth_mem nth_take length_take min_less_iff_conj)
    ultimately show ?thesis by (simp add: f tag_def)
  qed
  moreover have "due_bound (MSealFilled a rt) c' = due_bound (MSealWrite a rt) ?c" by (cases rt) auto
  ultimately have "records_ok (manager_moves fl r s) g (?chn pid)"
    using rec keep m unfolding s' records_ok_def Let_def by (auto simp: f split: option.splits)
  moreover have "chains_ok fl bm' (pages s) (live s) (insert pid used) (?chn pid)"
    using pid(1,2) pg e unfolding chains_ok_def by auto
  moreover have "heads_ok bm' (MSealFilled a rt) (dirty_heads c')"
    unfolding f(6) by (rule heads_ok_seal [OF hd pid(3-5)]) simp
  moreover have "ring_inv c' ?W (MSealFilled a rt) g (live s)"
    unfolding c'_def by (rule ring_inv_write [OF inv sb(1) sb(2) [OF len(2,1)]])
  moreover have "in_range c'" using rng by (simp add: c'_def in_range_def)
  ultimately have "sys_ok fl (manager_moves fl r s) g (insert pid used) (?chn pid)"
    unfolding s' sys_ok_def by simp
  then show ?thesis by blast
qed


lemma sys_ok_write:
  assumes ok: "sys_ok fl s g used chn" and m: "rs_manager s = MSealWrite a rt"
  shows "\<exists>used' chn'. sys_ok fl (manager_moves fl r s) g used' chn'"
proof -
  let ?c = "rs_chain s"
  let ?S = "sealed_seq ?c"
  let ?r = "c_reserved (control ?c ?S)"
  have inv: "ring_inv ?c (rs_writers s) (MSealWrite a rt) g (live s)" "in_range ?c" "alloc_inv fl (rs_bm s) used"
    using ok m by (auto simp: sys_ok_def chains_ok_def chain_inv_def)
  have "?thesis" if mg': "manager_moves fl r s = s\<lparr>rs_manager := mg'\<rparr>" "mg' = MAborted \<or> mg' = MSealFilled a rt \<and> ?r = 0" for mg'
  proof -
    have "ring_inv ?c (rs_writers s) mg' g (live s)"
      using inv(1) mg'(2) by (auto simp: ring_inv_def recycling_def one_activator_def)
    moreover have "due_bound mg' ?c = None \<or> due_bound mg' ?c = due_bound (rs_manager s) ?c" "opens mg' \<Longrightarrow> opens (rs_manager s)"
      "heads_dirty mg'"
      using mg'(2) m by (cases rt; auto)+
    moreover have "written_out mg' \<Longrightarrow> g (?S mod n_blocks ?c) = 0"
      using sealing_slot(2) [of ?c g "live s" a] inv(1) mg'(2) by (auto simp: ring_inv_def)
    ultimately have "sys_ok fl (s\<lparr>rs_manager := mg'\<rparr>) g used chn"
      using ok unfolding sys_ok_def records_ok_def heads_ok_def Let_def by (auto split: option.splits)
    then show ?thesis unfolding mg' by blast
  qed
  moreover have "\<exists>mg'. manager_moves fl r s = s\<lparr>rs_manager := mg'\<rparr> \<and> (mg' = MAborted \<or> mg' = MSealFilled a rt \<and> ?r = 0)"
    if "?r = 0 \<or> seal_write fl r ?r (block ?c ?S) (rs_bm s) = None"
    using that m by (auto simp: manager_moves_def Let_def)
  ultimately show ?thesis using sys_ok_seal_write [OF ok m] by (metis not_gr_zero option.exhaust prod.exhaust)
qed

text \<open>Recycling the slot of a block that is in its chain.\<close>

lemma sys_ok_recycle:
  assumes ok: "sys_ok fl s g used chn" and m: "rs_manager s = MSealWord a rt"
    and rng: "in_range (rs_chain (manager_moves fl r s))"
  shows "sys_ok fl (manager_moves fl r s) (g(sealed_seq (rs_chain s) mod n_blocks (rs_chain s) := 0)) used chn"
proof -
  let ?c = "rs_chain s" and ?W = "rs_writers s"
  let ?S = "sealed_seq ?c" and ?N = "n_blocks ?c"
  let ?g = "g(?S mod ?N := 0)"
  define c' where "c' = (set_control ?S ((control ?c ?S)\<lparr>c_reserved := 0, c_word := makeWord (?S + ?N)\<rparr>) ?c)\<lparr>sealed_seq := ?S + 1\<rparr>"
  have s': "manager_moves fl r s = s\<lparr>rs_chain := c', rs_bm := rs_bm s, rs_written := rs_written s, rs_manager := MSealLoop a rt\<rparr>"
    using m by (simp add: manager_moves_def c'_def)
  have inv: "ring_inv ?c ?W (MSealWord a rt) g (live s)" and rec: "records_ok s g chn"
    using ok m by (auto simp: sys_ok_def)
  have win: "window_ok ?c g (live s)" and sg: "sealing ?c a" using inv by (auto simp: ring_inv_def)
  note slot = sealing_slot [OF win sg]
  have A: "active_seq ?c < ?S + ?N" using win by (simp add: window_ok_def Let_def)
  have out: "\<forall>j < g (?S mod ?N). b_entries (block ?c ?S) ! j \<in> set (chain_entries (chn (tag ?c ?S)))"
    using rec m by (simp add: records_ok_def Let_def)
  have f: "sealed_seq c' = ?S + 1" "active_seq c' = active_seq ?c" "n_blocks c' = ?N" "tag c' = tag ?c" "block c' = block ?c"
    "dirty_heads c' = dirty_heads ?c"
    by (auto simp: c'_def tag_def fun_eq_iff)
  have keep: "kept c' ?W ?g chn x d" if "kept ?c ?W g chn x d" for x d
    using that
  proof (rule kept_step)
    fix k p assume k: "in_window ?c k" "placed ?c ?W g k p"
    show "in_window c' k \<and> tag c' k = tag ?c k \<and> placed c' ?W ?g k p \<or> p \<in> set (chain_entries (chn (tag ?c k)))"
    proof (cases "k = ?S")
      case True
      then show ?thesis using out k(2) by (auto simp: placed_def)
    next
      case False
      then have "k mod ?N \<noteq> ?S mod ?N" using slot(5) [of k] k(1) A by (auto simp: in_window_def)
      then show ?thesis using k False by (auto simp: in_window_def placed_def f)
    qed
  qed simp
  moreover have "due_bound (MSealLoop a rt) c' = due_bound (MSealWord a rt) ?c" "opens (MSealLoop a rt) = opens (MSealWord a rt)"
    by (cases rt; simp)+
  ultimately have "records_ok (manager_moves fl r s) ?g chn"
    using rec m unfolding s' records_ok_def Let_def by (auto simp: f split: option.splits)
  moreover have "ring_inv c' ?W (MSealLoop a rt) ?g (live s)"
    using ring_inv_recycle [OF inv] by (simp add: c'_def)
  ultimately show ?thesis
    using ok rng m unfolding s' sys_ok_def by (simp add: f heads_ok_def)
qed

text \<open>Persisting the heads.\<close>

lemma sys_ok_persist:
  assumes ok: "sys_ok fl s g used chn" and m: "rs_manager s = MPersist rt"
  shows "sys_ok fl (manager_moves fl r s) g used chn"
proof -
  let ?c = "rs_chain s" and ?W = "rs_writers s" and ?d = "dirty_heads (rs_chain s)"
  let ?bm = "snd (persistDirtyHeads ?d (rs_bm s))" and ?c' = "?c\<lparr>dirty_heads := []\<rparr>"
  have s': "manager_moves fl r s = s\<lparr>rs_chain := ?c', rs_bm := ?bm, rs_written := rs_written s, rs_manager := return_to rt\<rparr>"
    using m by (simp add: manager_moves_def persistDirtyHeads_def)
  have inv: "ring_inv ?c ?W (MPersist rt) g (live s)" and rec: "records_ok s g chn"
    and ch: "chains_ok fl (rs_bm s) (pages s) (live s) used chn" and hd: "heads_ok (rs_bm s) (rs_manager s) ?d"
    using ok m by (auto simp: sys_ok_def)
  have q: "kept ?c' ?W g chn x d = kept ?c ?W g chn x d" for x d
    by (simp add: kept_def placed_def in_window_def tag_def)
  have "due_bound (return_to rt) ?c' = due_bound (MPersist rt) ?c" "opens (return_to rt) \<longleftrightarrow> opens (MPersist rt)"
    "\<not> written_out (return_to rt)"
    by (induction rt rule: ret_opens.induct) auto
  then have "records_ok (manager_moves fl r s) g chn"
    using rec m unfolding s' records_ok_def Let_def by (auto simp: q split: option.splits)
  moreover have "\<forall>h < length (cb_heads (rs_bm s)). heads_saved ?bm h"
    by (rule persistDirtyHeads_saves) (use hd in \<open>simp add: heads_ok_def\<close>)
  then have "heads_ok ?bm (return_to rt) []" by (simp add: heads_ok_def)
  moreover have "chains_ok fl ?bm (pages s) (live s) used chn"
    using ch alloc_inv_cong [of ?bm "rs_bm s" fl used] by (simp add: chains_ok_def chain_inv_def)
  moreover have "ring_inv ?c' ?W (return_to rt) g (live s)"
    using ring_inv_manager [OF inv, where fl = fl and bm = "rs_bm s" and used = used and wr = 0] ok
    by (simp add: sys_ok_def chains_ok_def chain_inv_def persistDirtyHeads_def g_manager_def)
  ultimately show ?thesis using ok unfolding s' sys_ok_def by (simp add: in_range_def)
qed

lemma sys_ok_manager:
  assumes ok: "sys_ok fl s g used chn" and rng: "in_range (rs_chain (manager_moves fl r s))"
  shows "\<exists>g' used' chn'. sys_ok fl (manager_moves fl r s) g' used' chn'"
proof (cases "loud (rs_manager s)")
  case False
  let ?c = "rs_chain s"
  obtain mg' c' bm' w' where st: "manager_step fl r (rs_manager s) (?c, rs_bm s, rs_written s) = (mg', c', bm', w')"
    by (cases "manager_step fl r (rs_manager s) (?c, rs_bm s, rs_written s)")
  have inv: "ring_inv ?c (rs_writers s) (rs_manager s) g (live s)" "in_range ?c" "alloc_inv fl (rs_bm s) used"
    using ok by (auto simp: sys_ok_def chains_ok_def chain_inv_def)
  note q = manager_step_quiet [OF inv(1) st False]
  have "ring_inv c' (rs_writers s) mg' g (live s)" using ring_inv_manager [OF inv(1,2) _ st] inv(3) q by simp
  moreover have "in_range c'" using rng st by (simp add: manager_moves_def)
  ultimately have "sys_ok fl (s\<lparr>rs_chain := c', rs_manager := mg', rs_written := w'\<rparr>) g used chn"
    using q opens_due [OF ok] manager_step_due [OF ok False st] by (intro sys_ok_quiet [OF ok]) auto
  moreover have "manager_moves fl r s = s\<lparr>rs_chain := c', rs_manager := mg', rs_written := w'\<rparr>"
    using st q by (simp add: manager_moves_def)
  ultimately show ?thesis by auto
next
  case True
  then consider a rt where "rs_manager s = MSealWrite a rt" | a rt where "rs_manager s = MSealWord a rt"
    | rt where "rs_manager s = MPersist rt"
    by (cases "rs_manager s") auto
  then show ?thesis
  proof cases
    case 1
    then show ?thesis using sys_ok_write [OF ok] by blast
  next
    case 2
    then show ?thesis using sys_ok_recycle [OF ok _ rng] by blast
  next
    case 3
    then show ?thesis using sys_ok_persist [OF ok] by blast
  qed
qed


section \<open>Calls and the other threads\<close>

lemma ring_inv_call:
  assumes "ring_inv c W MIdle g lv" "lv \<subseteq> lv'" "manager_ok c g lv' {} mg" "\<not> manager_activating mg"
    and "\<And>P. manager_ok c g lv' P mg = manager_ok c g lv' {} mg" "\<And>a rt. mg \<noteq> MSealWord a rt"
  shows "ring_inv c W mg g lv'"
proof -
  have "recycling c mg = {}" using assms(6) by (cases mg) (auto simp: recycling_def)
  moreover have "window_ok c g lv'" using assms(1,2) by (auto simp: ring_inv_def window_ok_def Let_def)
  moreover have "manager_ok c g lv' (pending (n_blocks c) W (sealed_seq c mod n_blocks c)) mg"
    using assms(3,5) by blast
  ultimately show ?thesis
    using assms(1,4) unfolding ring_inv_def by (simp add: recycling_def one_activator_def)
qed

lemma head_slot_free:
  "chain_inv fl bm used E chn \<Longrightarrow> head_index bm e \<notin> head_index bm ` E \<Longrightarrow> head_index bm e < length (cb_heads bm) \<Longrightarrow>
   e \<notin> E \<and> chain_inv fl bm used (insert e E) (chn(e := []))"
  unfolding chain_inv_def by (intro conjI) (auto simp del: fun_upd_apply simp: fun_upd_def)

text \<open>The calls.\<close>

lemma sys_ok_record:
  assumes ok: "sys_ok fl s g used chn" and i: "rs_writers s i = WIdle \<or> (\<exists>p e. rs_writers s i = WDone p e)"
  shows "sys_ok fl (s\<lparr>rs_writers := (rs_writers s)(i := WLoad pid False)\<rparr>) g used chn"
proof -
  let ?c = "rs_chain s" and ?W = "rs_writers s" and ?W' = "(rs_writers s)(i := WLoad pid False)"
  have inv: "ring_inv ?c ?W (rs_manager s) g (live s)" and rec: "records_ok s g chn" using ok by (auto simp: sys_ok_def)
  have P: "pending (n_blocks ?c) ?W' = pending (n_blocks ?c) ?W" using i by (intro pending_same) auto
  have "kept ?c ?W' g chn = kept ?c ?W g chn" by (simp add: kept_def placed_def fun_eq_iff P)
  then have "records_ok (s\<lparr>rs_writers := ?W'\<rparr>) g chn" using rec by (simp add: records_ok_def Let_def split: option.splits)
  moreover have "ring_inv ?c ?W' (rs_manager s) g (live s)"
    using inv i P unfolding ring_inv_def by (auto simp: one_activator_def intro!: slots_inv_same)
  ultimately show ?thesis using ok by (simp add: sys_ok_def)
qed

lemma sys_ok_call:
  assumes ok: "sys_ok fl s g used chn" and idle: "rs_manager s = MIdle"
    and ring: "ring_inv (rs_chain s) (rs_writers s) mg g (live s)"
    and mg: "\<not> written_out mg" "opens mg \<Longrightarrow> D = {}" "D \<subseteq> recorded s"
    and D: "\<And>x d. due_bound mg (rs_chain s) = Some x \<Longrightarrow> d \<in> D \<Longrightarrow> kept (rs_chain s) (rs_writers s) g chn x d"
  shows "sys_ok fl (s\<lparr>rs_manager := mg, rs_written := 0, due := D\<rparr>) g used chn"
  using assms unfolding sys_ok_def records_ok_def Let_def by (auto simp: heads_ok_def split: option.splits)


text \<open>
  \<^verbatim>\<open>sealUpTo(e)\<close> with an RU epoch older than the open one need not close the active
  block: no identifier of an RU epoch up to \<open>e\<close> is in it.
\<close>

lemma kept_before_active:
  assumes "window_ok c g lv" "kept c W g chn (active_seq c + 1) d" "snd d < open_ru_epoch c"
  shows "kept c W g chn (active_seq c) d"
proof (cases d)
  case (Pair pid e)
  have "k < active_seq c" if "in_window c k" "tag c k = e" for k
  proof -
    have "k \<noteq> active_seq c" using assms(1,3) Pair that(2) by (auto simp: window_ok_def Let_def)
    then show ?thesis using that(1) by (simp add: in_window_def)
  qed
  then show ?thesis using assms(2) Pair by (auto simp: kept_def)
qed

lemma sys_ok_sealUpTo:
  assumes ok: "sys_ok fl s g used chn" and idle: "rs_manager s = MIdle"
  shows "sys_ok fl (s\<lparr>rs_manager := sealUpTo e (rs_chain s), rs_written := 0, due := {x \<in> recorded s. snd x \<le> e}\<rparr>) g used chn"
proof (rule sys_ok_call [OF ok idle])
  let ?c = "rs_chain s"
  have inv: "ring_inv ?c (rs_writers s) MIdle g (live s)" and rec: "records_ok s g chn" using ok idle by (auto simp: sys_ok_def)
  then have win: "window_ok ?c g (live s)" by (simp add: ring_inv_def)
  then have open_live: "open_ru_epoch ?c \<in> live s"
    unfolding window_ok_def Let_def in_window_def by (metis order_refl)
  show "ring_inv ?c (rs_writers s) (sealUpTo e ?c) g (live s)"
    by (rule ring_inv_call [OF inv]) (use open_live in \<open>auto simp: sealUpTo_def close_ok_def close_epoch_def split: if_splits\<close>)
  show "kept ?c (rs_writers s) g chn x d"
    if x: "due_bound (sealUpTo e ?c) ?c = Some x" and d: "d \<in> {x \<in> recorded s. snd x \<le> e}" for x d
  proof -
    have "x = active_seq ?c" "e < open_ru_epoch ?c" using x by (auto simp: sealUpTo_def split: if_splits)
    moreover have "kept ?c (rs_writers s) g chn (active_seq ?c + 1) d" using rec d by (auto simp: records_ok_def Let_def)
    ultimately show ?thesis using kept_before_active [OF win] d by auto
  qed
qed (auto simp: sealUpTo_def split: if_splits)

lemma sys_ok_sealClosed:
  assumes ok: "sys_ok fl s g used chn" and idle: "rs_manager s = MIdle"
  shows "sys_ok fl (s\<lparr>rs_manager := sealClosedBlocks, rs_written := 0, due := {}\<rparr>) g used chn"
proof (rule sys_ok_call [OF ok idle])
  show "ring_inv (rs_chain s) (rs_writers s) sealClosedBlocks g (live s)"
    by (rule ring_inv_call [of _ _ _ "live s"]) (use ok idle in \<open>auto simp: sys_ok_def sealClosedBlocks_def\<close>)
qed (auto simp: sealClosedBlocks_def)

lemma sys_ok_open:
  assumes ok: "sys_ok fl s g used chn" and idle: "rs_manager s = MIdle"
    and h: "head_index (rs_bm s) e \<notin> head_index (rs_bm s) ` live s" "head_index (rs_bm s) e < length (cb_heads (rs_bm s))"
  shows "sys_ok fl (s\<lparr>rs_manager := openRUEpoch e (rs_chain s), rs_written := 0, live := insert e (live s), due := {}\<rparr>)
     g used (chn(e := []))"
proof -
  let ?c = "rs_chain s" and ?W = "rs_writers s"
  let ?s = "s\<lparr>live := insert e (live s)\<rparr>"
  have inv: "ring_inv ?c ?W MIdle g (live s)" and rec: "records_ok s g chn"
    and ch: "chain_inv fl (rs_bm s) used (live s) chn"
    using ok idle by (auto simp: sys_ok_def chains_ok_def)
  note new = head_slot_free [OF ch h]
  have "kept ?c ?W g (chn(e := [])) x d = kept ?c ?W g chn x d" if "snd d \<in> live s" for x d
    using new that by (cases d) (auto simp: kept_def)
  moreover have "\<forall>x \<in> recorded s \<union> due s. snd x \<in> live s" using rec by (auto simp: records_ok_def Let_def)
  ultimately have "records_ok ?s g (chn(e := []))"
    using rec idle unfolding records_ok_def Let_def by (simp add: ball_Un)
  moreover have "chains_ok fl (rs_bm s) (pages s) (insert e (live s)) used (chn(e := []))"
    using ok new by (auto simp: sys_ok_def chains_ok_def)
  moreover have "ring_inv ?c ?W MIdle g (insert e (live s))" by (rule ring_inv_call [OF inv]) auto
  ultimately have ok': "sys_ok fl ?s g used (chn(e := []))" using ok idle by (simp add: sys_ok_def)
  have "sys_ok fl (?s\<lparr>rs_manager := openRUEpoch e ?c, rs_written := 0, due := {}\<rparr>) g used (chn(e := []))"
  proof (rule sys_ok_call [OF ok'])
    show "ring_inv (rs_chain ?s) (rs_writers ?s) (openRUEpoch e ?c) g (live ?s)"
      using inv by (simp, intro ring_inv_call [OF inv]) (auto simp: openRUEpoch_def close_ok_def close_epoch_def split: if_splits)
  qed (use idle in \<open>auto simp: openRUEpoch_def\<close>)
  moreover have "?s\<lparr>rs_manager := openRUEpoch e ?c, rs_written := 0, due := {}\<rparr> =
      s\<lparr>rs_manager := openRUEpoch e ?c, rs_written := 0, live := insert e (live s), due := {}\<rparr>"
    by (cases s) simp
  ultimately show ?thesis by simp
qed

text \<open>The other threads.\<close>

lemma sys_ok_bm:
  assumes ok: "sys_ok fl s g used chn" and ch: "chains_ok fl bm' pgs (live s) used' chn"
    and bm: "cb_heads bm' = cb_heads (rs_bm s)" "cb_ssd_heads bm' = cb_ssd_heads (rs_bm s)"
      "cb_max_open_ru_epochs bm' = cb_max_open_ru_epochs (rs_bm s)"
  shows "sys_ok fl (s\<lparr>rs_bm := bm', pages := pgs\<rparr>) g used' chn"
proof -
  have "head_index bm' = head_index (rs_bm s)" using bm(3) by (intro head_index_cong)
  then have "heads_ok bm' (rs_manager s) (dirty_heads (rs_chain s))"
    using ok bm by (simp add: sys_ok_def heads_ok_def heads_saved_def)
  then show ?thesis using ok ch by (simp add: sys_ok_def records_ok_def Let_def split: option.splits)
qed


lemma sys_ok_take_page:
  assumes ok: "sys_ok fl s g used chn" and a: "allocateBlock fl r (rs_bm s) = Some (pid, bm')"
  shows "sys_ok fl (s\<lparr>rs_bm := bm', pages := insert pid (pages s)\<rparr>) g (insert pid used) chn"
proof (rule sys_ok_bm [OF ok])
  have ch: "chains_ok fl (rs_bm s) (pages s) (live s) used chn" and al: "alloc_inv fl (rs_bm s) used"
    using ok by (auto simp: sys_ok_def chains_ok_def chain_inv_def)
  note f = allocateBlock_fields [OF a]
  have h: "head_index bm' = head_index (rs_bm s)" using f by (intro head_index_cong)
  have "pid \<notin> chain_pids (chn e)" if "e \<in> live s" for e
    using chain_block_fresh [OF al a] ch that by (auto simp: chains_ok_def chain_inv_def)
  then show "chains_ok fl bm' (insert pid (pages s)) (live s) (insert pid used) chn"
    using ch chain_block_fresh [OF al a] f h by (auto simp: chains_ok_def chain_inv_def)
qed (use allocateBlock_fields [OF a] in simp_all)

lemma sys_ok_write_page:
  assumes ok: "sys_ok fl s g used chn" and p: "pid \<in> pages s"
  shows "sys_ok fl (s\<lparr>rs_bm := (rs_bm s)\<lparr>cb_ssd := (cb_ssd (rs_bm s))(pid := b)\<rparr>\<rparr>) g used chn"
proof -
  let ?bm = "(rs_bm s)\<lparr>cb_ssd := (cb_ssd (rs_bm s))(pid := b)\<rparr>"
  have ch: "chains_ok fl (rs_bm s) (pages s) (live s) used chn" using ok by (simp add: sys_ok_def)
  have "linked (cb_ssd ?bm) e h (chn e) = linked (cb_ssd (rs_bm s)) e h (chn e)" if "e \<in> live s" for e h
    using ch p that by (simp add: chains_ok_def disjoint_iff linked_upd)
  moreover have "head_index ?bm = head_index (rs_bm s)" "alloc_inv fl ?bm used = alloc_inv fl (rs_bm s) used"
    by (intro head_index_cong alloc_inv_cong; simp)+
  ultimately have "chains_ok fl ?bm (pages s) (live s) used chn"
    using ch unfolding chains_ok_def chain_inv_def by simp
  then have "sys_ok fl (s\<lparr>rs_bm := ?bm, pages := pages s\<rparr>) g used chn" by (rule sys_ok_bm [OF ok]) simp_all
  then show ?thesis by simp
qed

lemma sys_ok_next_epoch:
  assumes ok: "sys_ok fl s g used chn"
  shows "sys_ok fl (s\<lparr>rs_bm := (rs_bm s)\<lparr>cb_ru_epoch := e, cb_ru_discard_set := ds, cb_reclaimed_ru_epoch := re\<rparr>\<rparr>) g used chn"
proof -
  let ?bm = "(rs_bm s)\<lparr>cb_ru_epoch := e, cb_ru_discard_set := ds, cb_reclaimed_ru_epoch := re\<rparr>"
  have "head_index ?bm = head_index (rs_bm s)" "alloc_inv fl ?bm used = alloc_inv fl (rs_bm s) used"
    by (intro head_index_cong alloc_inv_cong; simp)+
  then have "chains_ok fl ?bm (pages s) (live s) used chn"
    using ok unfolding sys_ok_def chains_ok_def chain_inv_def by simp
  then have "sys_ok fl (s\<lparr>rs_bm := ?bm, pages := pages s\<rparr>) g used chn" by (rule sys_ok_bm [OF ok]) simp_all
  then show ?thesis by simp
qed

section \<open>Every reachable state\<close>

lemma ring_init_inv:
  assumes "ring_init fl s"
  shows "ring_sys_inv fl s"
proof -
  obtain n e m0 used chn where new: "LBAChain_new n e m0 = Some (rs_chain s)"
    and m0: "\<And>i. length (b_entries (m0 i)) = CAPACITY" and e: "e \<in> live s"
    and ch: "chain_inv fl (rs_bm s) used (live s) chn" and rng: "in_range (rs_chain s)"
    and hd: "\<forall>h < length (cb_heads (rs_bm s)). heads_saved (rs_bm s) h"
    and s: "rs_writers s = (\<lambda>_. WIdle)" "rs_manager s = MIdle" "recorded s = {}" "due s = {}" "pages s = {}"
    using assms by (auto simp: ring_init_def)
  let ?c = "rs_chain s"
  have n: "2 \<le> n" and c: "n_blocks ?c = n" "open_ru_epoch ?c = e" "active_seq ?c = 0" "sealed_seq ?c = 0"
    "blocks ?c = m0(0 := (m0 0)\<lparr>b_ru_epoch := e\<rparr>)" "dirty_heads ?c = []"
    "controls ?c = (\<lambda>i. \<lparr>c_word = makeWord i, c_filled = 0, c_reserved = 0\<rparr>)"
    using new [symmetric] by (auto simp: LBAChain_new_def split: bind_splits)
  have P: "pending n (\<lambda>_. WIdle) i = {}" for i by (simp add: pending_def)
  have "window_ok ?c (\<lambda>_. 0) (live s)"
    using n e by (auto simp: window_ok_def Let_def c control_def makeWord_parts tag_def block_def in_window_def)
  moreover have "slots_inv n (controls ?c) (blocks ?c) (\<lambda>_. WIdle) (\<lambda>_. 0) {}"
    using m0 by (auto simp: slots_inv_def slot_ok_def P c makeWord_parts pend_inj_def)
  ultimately have "ring_inv ?c (rs_writers s) (rs_manager s) (\<lambda>_. 0) (live s)"
    by (simp add: ring_inv_def s recycling_def one_activator_def c)
  moreover have "records_ok s (\<lambda>_. 0) chn" by (simp add: records_ok_def Let_def s)
  moreover have "chains_ok fl (rs_bm s) (pages s) (live s) used chn" using ch by (simp add: chains_ok_def s)
  moreover have "heads_ok (rs_bm s) (rs_manager s) (dirty_heads ?c)" using hd by (simp add: heads_ok_def c)
  ultimately show ?thesis using rng by (auto simp: ring_sys_inv_def sys_ok_def)
qed

lemma bounded_step_inv:
  assumes "ring_sys_inv fl s" "bounded_step fl s t"
  shows "ring_sys_inv fl t"
proof -
  obtain g used chn where ok: "sys_ok fl s g used chn" using assms(1) by (auto simp: ring_sys_inv_def)
  have "ring_step fl s t" "in_range (rs_chain t)" using assms(2) by (auto simp: bounded_step_def)
  then have "\<exists>g used chn. sys_ok fl t g used chn"
  proof (cases rule: ring_step.cases)
    case (call_record i pid)
    then show ?thesis using sys_ok_record [OF ok] by blast
  next
    case (writer i)
    then show ?thesis using sys_ok_writer [OF ok] \<open>in_range (rs_chain t)\<close> by blast
  next
    case (call_open e)
    then show ?thesis using sys_ok_open [OF ok] by blast
  next
    case (call_sealUpTo e)
    then show ?thesis using sys_ok_sealUpTo [OF ok] by blast
  next
    case call_seal
    then show ?thesis using sys_ok_sealClosed [OF ok] by blast
  next
    case (manager r)
    then show ?thesis using sys_ok_manager [OF ok] \<open>in_range (rs_chain t)\<close> by blast
  next
    case (take_page r pid bm')
    then show ?thesis using sys_ok_take_page [OF ok] by blast
  next
    case (write_page pid b)
    then show ?thesis using sys_ok_write_page [OF ok] by blast
  next
    case (next_epoch e ds re)
    then show ?thesis using sys_ok_next_epoch [OF ok] by blast
  qed
  then show ?thesis by (simp add: ring_sys_inv_def)
qed

interpretation lba_ring: invariant_of "ring_init fl" "bounded_step fl" "ring_sys_inv fl"
  by unfold_locales (auto intro: ring_init_inv bounded_step_inv)

end
