(* ===== verification/LBA_Ring_Runs.thy ===== *)
theory LBA_Ring_Runs
  imports LBA_Ring_Durable
begin

text \<open>
  The guarantees of the LBA chain ring in every reachable state, with concrete schedules of the
  threads.  The epochs of a run are never reclaimed, so a run opens at most
  \<^verbatim>\<open>max_open_ru_epochs\<close> of them.
\<close>

section \<open>Guarantees\<close>

definition in_chain :: "chain_bm \<Rightarrow> PID list \<Rightarrow> PID \<Rightarrow> ru_epoch_t \<Rightarrow> bool" where
  "in_chain bm heads pid e \<longleftrightarrow>
     (\<exists>fuel entries blocks. readChain fuel (cb_ssd bm) (heads ! head_index bm e) e ([], []) = Some (entries, blocks) \<and>
        pid \<in> set entries)"

lemma chain_inv_in_chain:
  assumes "chain_inv fl bm used E chn" "e \<in> E" "pid \<in> set (chain_entries (chn e))"
    "heads ! head_index bm e = cb_heads bm ! head_index bm e"
  shows "in_chain bm heads pid e"
proof -
  have "linked (cb_ssd bm) e (heads ! head_index bm e) (chn e)" using assms by (simp add: chain_inv_def)
  then show ?thesis
    using linked_readChain [of "cb_ssd bm" e _ "chn e" "length (chn e)"] assms(3) unfolding in_chain_def by fastforce
qed

text \<open>
  C29: No recorded page identifier is lost, whatever the interleaving of the writers, the manager
  and the other users of the device: from the moment \<^verbatim>\<open>record\<close> has returned the RU epoch
  \<open>e\<close> for \<open>pid\<close>, either walking the chain of \<open>e\<close> from its head succeeds and lists
  \<open>pid\<close>, or one of the blocks of the ring that are not yet sealed is tagged with \<open>e\<close> and
  holds \<open>pid\<close> in one of its entries.  A block that still has a writer is never written or recycled.
\<close>

theorem recorded_not_lost:
  assumes "reach (ring_init fl) (bounded_step fl) s" "(pid, e) \<in> recorded s"
  shows "in_chain (rs_bm s) (cb_heads (rs_bm s)) pid e \<or>
    (\<exists>k j. sealed_seq (rs_chain s) \<le> k \<and> k \<le> active_seq (rs_chain s) \<and> j < CAPACITY \<and>
       b_ru_epoch (block (rs_chain s) k) = e \<and> b_entries (block (rs_chain s) k) ! j = pid)"
proof -
  let ?c = "rs_chain s"
  obtain g used chn where ok: "sys_ok fl s g used chn" using lba_ring.reach_inv [OF assms(1)] by (auto simp: ring_sys_inv_def)
  then have kept: "kept ?c (rs_writers s) g chn (active_seq ?c + 1) (pid, e)" and e: "e \<in> live s"
    and ch: "chain_inv fl (rs_bm s) used (live s) chn" and inv: "ring_inv ?c (rs_writers s) (rs_manager s) g (live s)"
    using assms(2) by (auto simp: sys_ok_def records_ok_def chains_ok_def Let_def)
  have g: "g (k mod n_blocks ?c) \<le> CAPACITY" for k
    using inv slot_entries [of "n_blocks ?c" "controls ?c" "blocks ?c" "rs_writers s" g]
    by (auto simp: ring_inv_def window_ok_def Let_def)
  from kept consider "pid \<in> set (chain_entries (chn e))"
    | k j where "in_window ?c k" "tag ?c k = e" "j < g (k mod n_blocks ?c)" "b_entries (block ?c k) ! j = pid"
    by (auto simp: kept_def placed_def)
  then show ?thesis
  proof cases
    case 1
    then show ?thesis using chain_inv_in_chain [OF ch e] by blast
  next
    case 2
    then have "sealed_seq ?c \<le> k" "k \<le> active_seq ?c" "j < CAPACITY" "b_ru_epoch (block ?c k) = e"
      using g [of k] by (simp_all add: in_window_def tag_def)
    then show ?thesis using 2(4) by blast
  qed
qed

text \<open>
  C30: \<^verbatim>\<open>sealUpTo\<close> makes durable.  When the manager is back from
  \<^verbatim>\<open>sealUpTo(e)\<close>, every page identifier that had been recorded for an RU epoch up to
  \<open>e\<close> before the call (the set \<open>due\<close>) is listed by the chain of its RU epoch read from the
  heads on the device alone, so it survives a crash.
\<close>

theorem sealUpTo_durable:
  assumes "reach (ring_init fl) (bounded_step fl) s" "rs_manager s = MIdle" "(pid, e) \<in> due s"
  shows "in_chain (rs_bm s) (cb_ssd_heads (rs_bm s)) pid e"
proof -
  obtain g used chn where ok: "sys_ok fl s g used chn" using lba_ring.reach_inv [OF assms(1)] by (auto simp: ring_sys_inv_def)
  then have "kept (rs_chain s) (rs_writers s) g chn 0 (pid, e)" and e: "e \<in> live s"
    and ch: "chain_inv fl (rs_bm s) used (live s) chn" and hd: "heads_ok (rs_bm s) MIdle (dirty_heads (rs_chain s))"
    using assms(2,3) by (fastforce simp: sys_ok_def records_ok_def chains_ok_def Let_def)+
  then have "pid \<in> set (chain_entries (chn e))" "head_index (rs_bm s) e < length (cb_heads (rs_bm s))"
    by (auto simp: kept_def chain_inv_def)
  then show ?thesis
    by (intro chain_inv_in_chain [OF ch e]) (use hd in \<open>auto simp: heads_ok_def heads_saved_def\<close>)
qed

section \<open>Schedules\<close>

datatype event = Record nat PID | Writer nat | SealUpTo ru_epoch_t | Manager nat

fun play :: "flags \<Rightarrow> event \<Rightarrow> ring_sys \<Rightarrow> ring_sys" where
  "play fl (Record i pid) s = s\<lparr>rs_writers := (rs_writers s)(i := WLoad pid False)\<rparr>"
| "play fl (Writer i) s = writer_moves i s"
| "play fl (SealUpTo e) s =
     s\<lparr>rs_manager := sealUpTo e (rs_chain s), rs_written := 0, due := {x \<in> recorded s. snd x \<le> e}\<rparr>"
| "play fl (Manager r) s = manager_moves fl r s"

fun may_play :: "event \<Rightarrow> ring_sys \<Rightarrow> bool" where
  "may_play (Record i pid) s \<longleftrightarrow>
     (case rs_writers s i of WIdle \<Rightarrow> True | WDone p e \<Rightarrow> True | _ \<Rightarrow> False) \<and> pid \<noteq> INVALID_PID"
| "may_play (SealUpTo e) s \<longleftrightarrow> rs_manager s = MIdle"
| "may_play _ s \<longleftrightarrow> True"

fun playable :: "flags \<Rightarrow> event list \<Rightarrow> ring_sys \<Rightarrow> bool" where
  "playable fl [] s \<longleftrightarrow> True"
| "playable fl (v # vs) s \<longleftrightarrow> 
     may_play v s \<and> in_range (rs_chain (play fl v s)) \<and> playable fl vs (play fl v s)"

lemma play_step: "may_play v s \<Longrightarrow> in_range (rs_chain (play fl v s)) \<Longrightarrow> bounded_step fl s (play fl v s)"
  unfolding bounded_step_def by (cases v) (auto intro: ring_step.intros split: wpc.splits)

lemma reach_play: "reach init (bounded_step fl) s \<Longrightarrow> playable fl vs s \<Longrightarrow> reach init (bounded_step fl) (fold (play fl) vs s)"
  by (induction vs arbitrary: s) (auto intro: reach_step play_step)

text \<open>Two blocks, the RU epoch 4 open.\<close>

definition ring_example :: ring_sys where
  "ring_example =
     \<lparr>rs_chain = the (LBAChain_new 2 4 (\<lambda>_. filled_block 0 [])), rs_bm = bm_example, rs_written = 0,
      rs_writers = (\<lambda>_. WIdle), rs_manager = MIdle, recorded = {}, due = {}, live = {4}, pages = {}\<rparr>"

lemma ring_example_init: "ring_init chain_flags ring_example"
proof -
  have "chain_inv chain_flags bm_example {} {4} (\<lambda>_. [])"
    using bm_example_alloc head_index_example by (simp add: chain_inv_def) (simp add: bm_example_def nth_Cons' less_Suc_eq_le)
  moreover have "in_range (the (LBAChain_new 2 4 (\<lambda>_. filled_block 0 [])))"
    by (auto simp: in_range_def LBAChain_new_def makeWord_parts)
  moreover have "\<forall>h < length (cb_heads bm_example). heads_saved bm_example h"
    by (simp add: heads_saved_def bm_example_def)
  moreover have "length (b_entries (filled_block 0 [])) = CAPACITY" by (simp add: filled_block_def)
  ultimately show ?thesis
    unfolding ring_init_def ring_example_def by (auto simp: LBAChain_new_def intro!: exI [of _ "2::nat"])
qed

text \<open>Evaluating a schedule.\<close>

lemma word_values:
  "makeWord 0 = 0" "makeWord (Suc 0) = 4294967296" "makeWord (Suc (Suc 0)) = 8589934592" "CLOSED = 1073741824" "CAPACITY = 506"
  by (simp_all add: makeWord_def CLOSED_def push_bit_eq_mult CAPACITY_def HEADER_SIZE_def PAGE_SIZE_def)

lemma wordSeq_div: "wordSeq w = of_nat (unat w div 2 ^ 32)"
  by (metis of_nat_unat wordSeq_def unat_drop_bit_eq drop_bit_eq_div)

lemma in_range_two: "n_blocks c = 2 \<Longrightarrow> in_range c \<longleftrightarrow>
   sealed_seq c + 4 < 2 ^ 32 \<and> wordCount (c_word (controls c 0)) < 2 ^ 31 \<and> wordCount (c_word (controls c 1)) < 2 ^ 31"
  by (auto simp: in_range_def less_2_cases_iff)

lemmas writer_eval = ring_example_def LBAChain_new_def writer_moves_def recorded_by_def fetch_add_def control_def
  set_control_def block_def set_block_def put_entry_def add_filled_def Let_def word_values wordCount_eq wordSeq_div in_range_two
  INVALID_PID_def

definition record_run :: "event list" where
  "record_run = [Record 0 10, Writer 0, Writer 0, Writer 0, Writer 0, Writer 0]"

lemma record_run_plays:
  "playable chain_flags record_run ring_example \<and>
   (10, 4) \<in> recorded (fold (play chain_flags) record_run ring_example)"
  by (simp add: record_run_def writer_eval)





definition close_run :: "event list" where
  "close_run = record_run @ SealUpTo 4 # [Manager 0, Manager 0, Manager 0, Manager 0, Manager 0, Manager 0, Manager 0, Manager 0]"

definition ring_closed :: ring_sys where
  "ring_closed =
     \<lparr>rs_chain =
        \<lparr>n_blocks = 2, open_ru_epoch = 4,
         controls = (\<lambda>i. \<lparr>c_word = makeWord i, c_filled = 0, c_reserved = 0\<rparr>)
           (0 := \<lparr>c_word = 1073741825, c_filled = 1, c_reserved = 1\<rparr>),
         blocks = (\<lambda>_. filled_block 0 [])
           (0 := (filled_block 0 [])\<lparr>b_ru_epoch := 4, b_entries := (b_entries (filled_block 0 []))[0 := 10]\<rparr>,
            Suc 0 := (filled_block 0 [])\<lparr>b_ru_epoch := 4\<rparr>),
         active_seq = 1, stalls_counter = 0, stalled_writers = 0, closed_waiters = 0, closer_waiting = False,
         sealed_seq = 0, dirty_heads = []\<rparr>,
      rs_bm = bm_example, rs_written = 0, rs_writers = (\<lambda>_. WIdle)(0 := WDone 10 4),
      rs_manager = MSealLoop 1 RetIdle, recorded = {(10, 4)}, due = {x. x = (10, 4) \<and> snd x \<le> 4}, live = {4}, pages = {}\<rparr>"

lemma close_run_plays:
  "playable chain_flags close_run ring_example" "fold (play chain_flags) close_run ring_example = ring_closed"
  by (simp_all add: close_run_def ring_closed_def record_run_def writer_eval manager_moves_def sealUpTo_def)

definition seal_run :: "event list" where
  "seal_run = [Manager 0, Manager 0, Manager 0, Manager 0, Manager 0, Manager 0, Manager 0, Manager 0]"

lemma seal_example: "b_ru_epoch b = 4 \<Longrightarrow> \<exists>x. seal_write chain_flags 0 n b bm_example = Some x"
  by (simp add: seal_write_def allocateBlock_def chain_flags_def bm_example_def
      Partition_new_def nextPID_def head_index_def count_chain_block_def ring_get_def ring_at_def
      ring_put_def count_raw_block_def isFree_def INVALID_PID_def Let_def word_le_nat_alt)

lemma seal_run_plays:
  "playable chain_flags seal_run ring_closed" "(10, 4) \<in> due (fold (play chain_flags) seal_run ring_closed)"
  "rs_manager (fold (play chain_flags) seal_run ring_closed) = MIdle"
proof -
  let ?b = "(filled_block 0 [])\<lparr>b_ru_epoch := 4, b_entries := (b_entries (filled_block 0 []))[0 := 10]\<rparr>"
  obtain b' bm' where w: "seal_write chain_flags 0 (Suc 0) ?b bm_example = Some (b', bm')"
    using seal_example [of ?b "Suc 0"] by auto
  show "playable chain_flags seal_run ring_closed" "(10, 4) \<in> due (fold (play chain_flags) seal_run ring_closed)"
    "rs_manager (fold (play chain_flags) seal_run ring_closed) = MIdle"
    by (simp_all add: seal_run_def ring_closed_def writer_eval manager_moves_def w persistDirtyHeads_def)
qed


theorem recorded_not_lost_witness:
  "let s = fold (play chain_flags) record_run ring_example
   in (10, 4) \<in> recorded s \<and>
      (in_chain (rs_bm s) (cb_heads (rs_bm s)) 10 4 \<or>
       (\<exists>k j. sealed_seq (rs_chain s) \<le> k \<and> k \<le> active_seq (rs_chain s) \<and> j < CAPACITY \<and>
          b_ru_epoch (block (rs_chain s) k) = 4 \<and> b_entries (block (rs_chain s) k) ! j = 10))"
  using recorded_not_lost [OF reach_play [OF reach_init [of "ring_init chain_flags", OF ring_example_init]]] record_run_plays
  unfolding Let_def by blast

theorem sealUpTo_durable_witness:
  "let s = fold (play chain_flags) seal_run (fold (play chain_flags) close_run ring_example)
   in rs_manager s = MIdle \<and> (10, 4) \<in> due s \<and> in_chain (rs_bm s) (cb_ssd_heads (rs_bm s)) 10 4"
  using sealUpTo_durable [OF reach_play [OF reach_play [OF reach_init [of "ring_init chain_flags", OF ring_example_init]]]]
    close_run_plays seal_run_plays
  unfolding Let_def by metis

end
