(* ===== verification/Buffer_Frame.thy ===== *)
theory Buffer_Frame
  imports Saturating_Counter Latch Units
begin

text \<open>
  Buffer frames (\<^verbatim>\<open>buffer-manager/BufferFrame.hpp\<close>,
  \<^verbatim>\<open>BufferFrame.cpp\<close>): the header, the page header, the discardability of a page and
  the per page log (PPL), a small buffer of log records between the header and the page.

  Pointers are optional: a frame is named by its index, a log by its number.  The size of the
  PPL buffer depends on the size of the header, which the sources only bound; it is the length of
  \<open>ppl_log_records\<close>.  The content of the page beside its header belongs to the data structure
  (\<open>BTreeNode\<close> for a B-tree).
\<close>

section \<open>Headers\<close>

type_synonym DTID = int
type_synonym WORKERID = u16

datatype UNDISCARDABLE_CAUSE =
    NONE | NEWLY_ALLOCATED | PPL_BUFFER_FULL | MAX_DISCARDING_DEPTH_EXCEEDED | JUST_SPLITTED
  | RECLAIMED_RU_EPOCH | INNER_NODE | NOT_DEFAULT_RUH | OTHER | PARENT_FULL

datatype STATE = FREE | HOT | COOL | LOADED

record OptimisticParentPointer =
  parent_bf :: "nat option"
  parent_pid :: PID
  parent_plsn :: LID
  swip_ptr :: "nat option"
  pos_in_parent :: int

definition opp_update ::
  "nat option \<Rightarrow> PID \<Rightarrow> LID \<Rightarrow> nat option \<Rightarrow> int \<Rightarrow> OptimisticParentPointer \<Rightarrow> OptimisticParentPointer" where
  "opp_update new_parent_bf new_parent_pid new_parent_gsn new_swip_ptr new_pos p =
     (if parent_bf p \<noteq> new_parent_bf \<or> parent_pid p \<noteq> new_parent_pid \<or> parent_plsn p \<noteq> new_parent_gsn \<or>
         swip_ptr p \<noteq> new_swip_ptr \<or> pos_in_parent p \<noteq> new_pos
      then \<lparr>parent_bf = new_parent_bf, parent_pid = new_parent_pid, parent_plsn = new_parent_gsn,
            swip_ptr = new_swip_ptr, pos_in_parent = new_pos\<rparr>
      else p)"

record Header =
  last_writer_worker_id :: WORKERID
  last_written_plsn :: LID
  h_state :: STATE
  is_being_written_back :: bool
  undiscardable_cause :: UNDISCARDABLE_CAUSE
  keep_in_memory :: bool
  not_yet_persisted :: bool
  will_flush_ppl :: bool
  next_ruh :: ruh_id_t
  h_pid :: PID
  h_latch :: HybridLatch
  next_free_bf :: "nat option"
  h_logging :: "nat option"
  flush_sink_log :: bool
  fixed_at_plsn :: LID
  pending_lsn_count :: u8
  pending_lsn :: "LID list"
  h_discard_count :: u8
  loaded_from_dirty_swip :: bool
  discardable :: bool
  optimistic_parent_pointer :: OptimisticParentPointer
  h_crc :: u64

definition Header_new :: "LID list \<Rightarrow> PID \<Rightarrow> Header" where
  "Header_new lsns uninit =
     \<lparr>last_writer_worker_id = 255, last_written_plsn = 0, h_state = FREE, is_being_written_back = False,
      undiscardable_cause = NONE, keep_in_memory = False, not_yet_persisted = True, will_flush_ppl = False,
      next_ruh = UNMAPPED_RUH, h_pid = 9999, h_latch = \<lparr>lt_version = 0, lt_owner = None, lt_readers = {}\<rparr>,
      next_free_bf = None, h_logging = None, flush_sink_log = False, fixed_at_plsn = 0, pending_lsn_count = 0,
      pending_lsn = lsns, h_discard_count = 0, loaded_from_dirty_swip = False, discardable = False,
      optimistic_parent_pointer =
        \<lparr>parent_bf = None, parent_pid = uninit, parent_plsn = 0, swip_ptr = None, pos_in_parent = - 1\<rparr>,
      h_crc = 0\<rparr>"

definition header_reset :: "Header \<Rightarrow> Header option" where
  "header_reset h =
     do { ensure (\<not> is_being_written_back h);
          ensure (isExclusivelyLatched (h_latch h));
          Some (h\<lparr>h_crc := 0, last_writer_worker_id := 255, last_written_plsn := 0, h_state := FREE,
                  next_ruh := UNMAPPED_RUH, is_being_written_back := False, h_pid := 9999, next_free_bf := None,
                  h_logging := None, fixed_at_plsn := 0, discardable := False, flush_sink_log := False,
                  keep_in_memory := False, pending_lsn_count := 0, h_discard_count := 0,
                  loaded_from_dirty_swip := False, undiscardable_cause := NONE, will_flush_ppl := False\<rparr>) }"

section \<open>The per page log\<close>

datatype WAL_TYPE =
  TX_START | TX_COMMIT | TX_ABORT | DT_SPECIFIC | PER_PAGE_DT_SPECIFIC | CARRIAGE_RETURN | SKIP

record WALEntry =
  w_type :: WAL_TYPE
  w_size :: u16
  w_magic :: u64
  w_lsn :: LID
  w_prev_lsn :: LID

record PerPageLogEntryHeader =
  pe_gsn :: LID
  pe_dt_id :: DTID
  pe_pid :: PID

record PPL =
  wal_entry :: WALEntry
  ppl_header :: PerPageLogEntryHeader
  last_entry_offset :: u16
  absorbed_writes :: int
  nb_log_records :: u8
  ppl_log_records :: "u8 list"

definition saturating_u8 :: int_type where "saturating_u8 = \<lparr>bits = 8, is_signed = False\<rparr>"
definition int32 :: int_type where "int32 = \<lparr>bits = 32, is_signed = True\<rparr>"

definition log_records_offset :: nat where "log_records_offset = 60"

definition sizeof_PPL :: "PPL \<Rightarrow> nat" where
  "sizeof_PPL p = log_records_offset + length (ppl_log_records p)"

definition ppl_reset :: "PPL \<Rightarrow> PPL" where
  "ppl_reset p =
     p\<lparr>nb_log_records := 0, absorbed_writes := counter_of saturating_u8 int32 0,
       wal_entry := (wal_entry p)\<lparr>w_size := of_nat log_records_offset\<rparr>, last_entry_offset := - 1,
       ppl_log_records := replicate (length (ppl_log_records p)) 0xff\<rparr>"

definition ppl_init :: "PPL \<Rightarrow> PPL" where
  "ppl_init p = ppl_reset (p\<lparr>wal_entry := (wal_entry p)\<lparr>w_type := PER_PAGE_DT_SPECIFIC, w_magic := 99\<rparr>\<rparr>)"

text \<open>The 16-bit size is widened, the sum is made in 32 bits.\<close>

definition hasSpaceFor :: "u32 \<Rightarrow> PPL \<Rightarrow> bool" where
  "hasSpaceFor log_record_size p \<longleftrightarrow>
     unat (ucast (w_size (wal_entry p)) + log_record_size) \<le> sizeof_PPL p"

definition payload_size :: "PPL \<Rightarrow> u16" where
  "payload_size p = w_size (wal_entry p) - of_nat log_records_offset"

text \<open>\<^verbatim>\<open>memcpy\<close> into an array; a write outside of it is undefined.\<close>

definition copy_in :: "nat \<Rightarrow> u8 list \<Rightarrow> u8 list \<Rightarrow> u8 list option" where
  "copy_in off src dst =
     (if off + length src \<le> length dst then Some (take off dst @ src @ drop (off + length src) dst) else None)"

definition insertLogRecord :: "flags \<Rightarrow> u8 list \<Rightarrow> u32 \<Rightarrow> PPL \<Rightarrow> (bool \<times> PPL) option" where
  "insertLogRecord fl log_record_buf log_record_size p =
     do {
       ensure (FLAGS_per_page_logging fl);
       if \<not> hasSpaceFor log_record_size p
       then do { ensure (FLAGS_ppl_merge_threshold fl > 1); Some (False, p) }
       else do {
         ensure (FLAGS_ppl_merge_threshold fl \<le> 1 \<longrightarrow> last_entry_offset p = - 1);
         ensure (FLAGS_ppl_merge_threshold fl \<le> 1 \<longrightarrow> payload_size p = 0);
         ensure (unat log_record_size \<le> length log_record_buf);
         recs \<leftarrow> copy_in (unat (payload_size p)) (take (unat log_record_size) log_record_buf) (ppl_log_records p);
         Some (True, p\<lparr>last_entry_offset := payload_size p, ppl_log_records := recs,
                       nb_log_records := nb_log_records p + 1,
                       wal_entry := (wal_entry p)\<lparr>w_size := w_size (wal_entry p) + ucast log_record_size\<rparr>,
                       absorbed_writes := plus_assign saturating_u8 int32 (absorbed_writes p) 1\<rparr>)
       }
     }"

definition insertPPL :: "flags \<Rightarrow> PPL \<Rightarrow> PPL \<Rightarrow> PPL option" where
  "insertPPL fl other p =
     do {
       ensure (FLAGS_per_page_logging fl);
       ensure (hasSpaceFor (ucast (payload_size other)) p);
       ensure (last_entry_offset p = - 1);
       ensure (payload_size p = 0);
       recs \<leftarrow> copy_in 0 (take (unat (payload_size other)) (ppl_log_records other)) (ppl_log_records p);
       Some (p\<lparr>ppl_log_records := recs, nb_log_records := nb_log_records other,
               wal_entry := (wal_entry p)\<lparr>w_size := w_size (wal_entry p) + payload_size other\<rparr>,
               last_entry_offset := last_entry_offset other,
               absorbed_writes := plus_assign saturating_u8 saturating_u8 (absorbed_writes p) (absorbed_writes other)\<rparr>)
     }"

section \<open>Pages and frames\<close>

record PageHeader =
  PLSN :: LID
  GSN :: LID
  dt_id :: DTID
  pg_magic_debugging_number :: u64
  prev_ru_epoch :: ru_epoch_t
  pg_ru_epoch :: ru_epoch_t
  prev_ruh :: ruh_id_t
  pg_ruh :: ruh_id_t
  last_written_lsn :: LID
  write_back_count :: u32
  bg_page_fixed_count :: u32

definition PageHeader_new :: "u64 \<Rightarrow> PageHeader" where
  "PageHeader_new uninit =
     \<lparr>PLSN = 0, GSN = 0, dt_id = 9999, pg_magic_debugging_number = uninit, prev_ru_epoch = UNMAPPED_RU_EPOCH,
      pg_ru_epoch = UNMAPPED_RU_EPOCH, prev_ruh = UNMAPPED_RUH, pg_ruh = UNMAPPED_RUH,
      last_written_lsn = INVALID_LSN, write_back_count = 0, bg_page_fixed_count = 0\<rparr>"

definition page_reset :: "PageHeader \<Rightarrow> PageHeader" where
  "page_reset p =
     p\<lparr>PLSN := 0, GSN := 0, dt_id := 9999, prev_ru_epoch := UNMAPPED_RU_EPOCH, pg_ru_epoch := UNMAPPED_RU_EPOCH,
       prev_ruh := UNMAPPED_RUH, pg_ruh := UNMAPPED_RUH, last_written_lsn := INVALID_LSN,
       write_back_count := 0, bg_page_fixed_count := 0\<rparr>"

record BufferFrame =
  bf_header :: Header
  ppl :: PPL
  page :: PageHeader

definition isDirty :: "BufferFrame \<Rightarrow> bool" where
  "isDirty bf \<longleftrightarrow> PLSN (page bf) \<noteq> last_written_plsn (bf_header bf)"

definition bf_isFree :: "BufferFrame \<Rightarrow> bool" where
  "bf_isFree bf \<longleftrightarrow> h_state (bf_header bf) = FREE"

definition isDiscardable :: "BufferFrame \<Rightarrow> bool" where
  "isDiscardable bf = discardable (bf_header bf)"

definition markUnDiscardable :: "UNDISCARDABLE_CAUSE \<Rightarrow> BufferFrame \<Rightarrow> BufferFrame" where
  "markUnDiscardable cause bf =
     (if \<not> discardable (bf_header bf) then bf
      else bf\<lparr>bf_header := (bf_header bf)\<lparr>undiscardable_cause := cause, discardable := False\<rparr>\<rparr>)"

definition bf_reset :: "BufferFrame \<Rightarrow> BufferFrame option" where
  "bf_reset bf = do { h \<leftarrow> header_reset (bf_header bf); Some (bf\<lparr>bf_header := h, ppl := ppl_reset (ppl bf)\<rparr>) }"

definition BufferFrame_new :: "LID list \<Rightarrow> PID \<Rightarrow> PPL \<Rightarrow> u64 \<Rightarrow> BufferFrame" where
  "BufferFrame_new lsns pid0 ppl0 magic0 =
     \<lparr>bf_header = Header_new lsns pid0, ppl = ppl_init ppl0, page = PageHeader_new magic0\<rparr>"

text \<open>The pointer returned is an index into the records of the PPL.\<close>

definition lastLogRecord :: "flags \<Rightarrow> BufferFrame \<Rightarrow> nat option option" where
  "lastLogRecord fl bf =
     do { ensure (FLAGS_per_page_logging fl);
          ensure (FLAGS_opportunistic_log_compaction fl);
          Some (if last_entry_offset (ppl bf) = - 1 then None else Some (unat (last_entry_offset (ppl bf)))) }"

text \<open>
  \<open>sizeof_WT\<close> is the size of the entry type of the template.  The second check of
  \<^verbatim>\<open>overrides_previous\<close> compares a 16-bit offset with the integer \<open>-1\<close> and
  always holds.
\<close>

definition bf_reservePPLEntry :: "flags \<Rightarrow> u32 \<Rightarrow> u32 \<Rightarrow> bool \<Rightarrow> BufferFrame \<Rightarrow> (nat option \<times> BufferFrame) option" where
  "bf_reservePPLEntry fl sizeof_WT payload overrides_previous bf =
     do {
       ensure (FLAGS_per_page_logging fl);
       let total = sizeof_WT + payload;
       let p = ppl bf;
       if \<not> isDiscardable bf then Some (None, bf)
       else if \<not> hasSpaceFor total p then Some (None, markUnDiscardable PPL_BUFFER_FULL bf)
       else if overrides_previous
       then do {
         last \<leftarrow> lastLogRecord fl bf;
         ensure (last \<noteq> None);
         ensure (uint (last_entry_offset p) \<noteq> - 1);
         Some (last, bf)
       }
       else do {
         let offset = (ucast (w_size (wal_entry p)) - of_nat log_records_offset :: u32);
         b \<leftarrow> nth_opt (ppl_log_records p) (unat offset);
         ensure (b = 0xff);
         Some (Some (unat offset),
               bf\<lparr>ppl := p\<lparr>wal_entry := (wal_entry p)\<lparr>w_size := w_size (wal_entry p) + ucast total\<rparr>,
                           nb_log_records := nb_log_records p + 1, last_entry_offset := ucast offset\<rparr>\<rparr>)
       }
     }"

section \<open>The PPL as a list of log records\<close>

text \<open>
  The records the PPL holds, in order, followed by the \<open>0xff\<close> of the reset; \<open>n\<close> is the size of the
  buffer.
\<close>

definition ppl_holds :: "PPL \<Rightarrow> u8 list list \<Rightarrow> bool" where
  "ppl_holds p rs \<longleftrightarrow>
     (let payload = concat rs; n = length (ppl_log_records p)
      in n \<le> 1024 \<and> length payload \<le> n \<and> ppl_log_records p = payload @ replicate (n - length payload) 0xff \<and>
         unat (w_size (wal_entry p)) = log_records_offset + length payload \<and>
         nb_log_records p = of_nat (length rs) \<and>
         last_entry_offset p = (if rs = [] then - 1 else of_nat (length (concat (butlast rs)))))"

lemma ppl_holds_reset: "length (ppl_log_records p) \<le> 1024 \<Longrightarrow> ppl_holds (ppl_reset p) []"
  by (simp add: ppl_holds_def ppl_reset_def log_records_offset_def)

lemma ppl_holdsD:
  assumes "ppl_holds p rs"
  shows "unat (w_size (wal_entry p)) = log_records_offset + length (concat rs)"
    "unat (payload_size p) = length (concat rs)" "payload_size p = of_nat (length (concat rs))"
    "length (concat rs) \<le> length (ppl_log_records p)" "length (ppl_log_records p) \<le> 1024"
proof -
  show *: "unat (w_size (wal_entry p)) = log_records_offset + length (concat rs)"
    "length (concat rs) \<le> length (ppl_log_records p)" "length (ppl_log_records p) \<le> 1024"
    using assms by (simp_all add: ppl_holds_def Let_def)
  have "of_nat log_records_offset \<le> w_size (wal_entry p)"
    using * by (simp add: word_le_nat_alt log_records_offset_def)
  then show "unat (payload_size p) = length (concat rs)"
    using * by (simp add: payload_size_def unat_sub log_records_offset_def)
  then show "payload_size p = of_nat (length (concat rs))" by (metis of_nat_unat ucast_id)
qed

lemma unat_ucast_u16: "unat (ucast (x :: u16) :: u32) = unat x"
proof -
  have "unat x < 2 ^ 32" using unsigned_less [of x] by (rule order_less_trans) simp
  then show ?thesis by (simp add: unsigned_ucast_eq take_bit_nat_eq_self)
qed

lemma hasSpaceFor_holds:
  assumes "ppl_holds p rs" "unat n < 2 ^ 31"
  shows "hasSpaceFor n p \<longleftrightarrow> length (concat rs) + unat n \<le> length (ppl_log_records p)"
proof -
  note h = ppl_holdsD [OF assms(1)]
  have "unat (ucast (w_size (wal_entry p)) + n) = log_records_offset + length (concat rs) + unat n"
    using h(1,4,5) assms(2) by (subst unat_add_lem [THEN iffD1]) (simp_all add: unat_ucast_u16 log_records_offset_def)
  then show ?thesis by (simp add: hasSpaceFor_def sizeof_PPL_def)
qed

lemma ppl_holds_append:
  assumes h: "ppl_holds p rs" and fit: "length (concat rs) + length r \<le> length (ppl_log_records p)"
    and p': "ppl_log_records p' = concat rs @ r @ drop (length (concat rs) + length r) (ppl_log_records p)"
      "w_size (wal_entry p') = w_size (wal_entry p) + of_nat (length r)" "nb_log_records p' = nb_log_records p + 1"
      "last_entry_offset p' = payload_size p"
  shows "ppl_holds p' (rs @ [r])"
proof -
  note d = ppl_holdsD [OF h]
  let ?l = "length (concat rs)" and ?n = "length (ppl_log_records p)"
  have recs: "ppl_log_records p = concat rs @ replicate (?n - ?l) 0xff" "nb_log_records p = of_nat (length rs)"
    using h by (simp_all add: ppl_holds_def Let_def)
  have "drop (?l + length r) (ppl_log_records p) = replicate (?n - (?l + length r)) 0xff"
    by (subst recs(1)) (simp add: add.commute)
  moreover have "unat (w_size (wal_entry p')) = log_records_offset + ?l + length r"
    unfolding p'(2) using d(1,5) fit
    by (subst unat_add_lem [THEN iffD1]) (simp_all add: unat_of_nat log_records_offset_def)
  moreover have "length (ppl_log_records p') = ?n" using p'(1) fit by simp
  ultimately show ?thesis
    using p' d fit recs(2) by (simp add: ppl_holds_def Let_def)
qed

section \<open>Appending log records\<close>

lemma insertLogRecord_holds:
  assumes h: "ppl_holds p rs" and fl: "FLAGS_per_page_logging fl" "1 < FLAGS_ppl_merge_threshold fl"
    and n: "length r < 2 ^ 31"
  shows "if length (concat rs) + length r \<le> length (ppl_log_records p)
    then \<exists>p'. insertLogRecord fl r (of_nat (length r)) p = Some (True, p') \<and> ppl_holds p' (rs @ [r]) \<and>
      length (ppl_log_records p') = length (ppl_log_records p)
    else insertLogRecord fl r (of_nat (length r)) p = Some (False, p)"
proof -
  note d = ppl_holdsD [OF h]
  have r: "unat (of_nat (length r) :: u32) = length r" using n by (simp add: unat_of_nat take_bit_nat_eq_self)
  have space: "hasSpaceFor (of_nat (length r)) p \<longleftrightarrow> length (concat rs) + length r \<le> length (ppl_log_records p)"
    using hasSpaceFor_holds [OF h, of "of_nat (length r)"] r n by simp
  show ?thesis
  proof (cases "length (concat rs) + length r \<le> length (ppl_log_records p)")
    case True
    have recs: "take (length (concat rs)) (ppl_log_records p) = concat rs"
      using h by (auto simp: ppl_holds_def Let_def) (metis append_eq_conv_conj)
    have "copy_in (unat (payload_size p)) r (ppl_log_records p) =
        Some (concat rs @ r @ drop (length (concat rs) + length r) (ppl_log_records p))"
      using True recs d(2) by (simp add: copy_in_def)
    moreover have "ucast (of_nat (length r) :: u32) = (of_nat (length r) :: u16)" by (metis of_nat_unat r)
    ultimately show ?thesis
      using True space fl r d ppl_holds_append [OF h True] by (auto simp: insertLogRecord_def)
  next
    case False
    then show ?thesis using space fl by (simp add: insertLogRecord_def)
  qed
qed


lemma insertPPL_holds:
  assumes h: "ppl_holds other rs" and q: "ppl_holds q []" "length (ppl_log_records q) = length (ppl_log_records other)"
    and fl: "FLAGS_per_page_logging fl"
  shows "\<exists>q'. insertPPL fl other q = Some q' \<and> ppl_holds q' rs"
proof -
  note d = ppl_holdsD [OF h] and dq = ppl_holdsD [OF q(1)]
  let ?n = "length (ppl_log_records other)" and ?l = "length (concat rs)"
  have o: "ppl_log_records other = concat rs @ replicate (?n - ?l) 0xff" "nb_log_records other = of_nat (length rs)"
    "last_entry_offset other = (if rs = [] then - 1 else of_nat (length (concat (butlast rs))))"
    using h by (simp_all add: ppl_holds_def Let_def)
  have recs: "take ?l (ppl_log_records other) = concat rs" by (subst o(1)) simp
  have q0: "ppl_log_records q = replicate ?n 0xff" "last_entry_offset q = - 1" "unat (w_size (wal_entry q)) = log_records_offset"
    using q by (auto simp: ppl_holds_def Let_def)
  have "copy_in 0 (take (unat (payload_size other)) (ppl_log_records other)) (ppl_log_records q) =
      Some (concat rs @ replicate (?n - ?l) 0xff)"
    using d(2,4) q0(1) by (simp add: copy_in_def recs)
  moreover have "hasSpaceFor (ucast (payload_size other)) q"
    using hasSpaceFor_holds [OF q(1), of "ucast (payload_size other)"] d(2,4,5) q(2) by (simp add: unat_ucast_u16)
  moreover have "payload_size q = 0" using dq(3) by simp
  moreover have "unat (w_size (wal_entry q) + payload_size other) = log_records_offset + ?l"
    using d(2,4,5) q0(3) by (subst unat_add_lem [THEN iffD1]) (simp_all add: log_records_offset_def)
  ultimately show ?thesis
    using fl q0(2) d(4,5) o(2,3) by (auto simp: insertPPL_def ppl_holds_def Let_def)
qed

text \<open>Log records inserted one after the other, with the answers.\<close>

fun insert_all :: "flags \<Rightarrow> u8 list list \<Rightarrow> PPL \<Rightarrow> (bool list \<times> PPL) option" where
  "insert_all fl [] p = Some ([], p)"
| "insert_all fl (r # rs) p =
     do { (ok, p1) \<leftarrow> insertLogRecord fl r (of_nat (length r)) p;
          (oks, p2) \<leftarrow> insert_all fl rs p1;
          Some (ok # oks, p2) }"

text \<open>The specification: a list of records of bounded total size.\<close>

fun bounded_log :: "nat \<Rightarrow> u8 list list \<Rightarrow> u8 list list \<Rightarrow> bool list \<times> u8 list list" where
  "bounded_log n acc [] = ([], acc)"
| "bounded_log n acc (r # rs) =
     (let ok = length (concat acc) + length r \<le> n; (oks, res) = bounded_log n (if ok then acc @ [r] else acc) rs
      in (ok # oks, res))"

lemma insert_all_holds:
  assumes "ppl_holds p acc" "FLAGS_per_page_logging fl" "1 < FLAGS_ppl_merge_threshold fl" "\<forall>r \<in> set rs. length r < 2 ^ 31"
  shows "\<exists>p'. insert_all fl rs p = Some (fst (bounded_log (length (ppl_log_records p)) acc rs), p') \<and>
    ppl_holds p' (snd (bounded_log (length (ppl_log_records p)) acc rs)) \<and>
    length (ppl_log_records p') = length (ppl_log_records p)"
  using assms
proof (induction rs arbitrary: p acc)
  case (Cons r rs)
  show ?case
  proof (cases "length (concat acc) + length r \<le> length (ppl_log_records p)")
    case True
    then obtain p1 where p1: "insertLogRecord fl r (of_nat (length r)) p = Some (True, p1)" "ppl_holds p1 (acc @ [r])"
      "length (ppl_log_records p1) = length (ppl_log_records p)"
      using insertLogRecord_holds [OF Cons.prems(1-3), of r] Cons.prems(4) by auto
    then show ?thesis using Cons.IH [OF p1(2)] Cons.prems True by (auto simp: Let_def split: prod.splits)
  next
    case False
    then have "insertLogRecord fl r (of_nat (length r)) p = Some (False, p)"
      using insertLogRecord_holds [OF Cons.prems(1-3), of r] Cons.prems(4) by auto
    then show ?thesis using Cons.IH [OF Cons.prems(1)] Cons.prems False by (auto simp: Let_def split: prod.splits)
  qed
qed simp

text \<open>
  C31: The per page log is a list of log records of bounded size.  From a reset PPL, any
  sequence of insertions answers as the bounded list does, fails no check, and leaves a PPL whose
  records, size, count and offset of the last record are those of the list, the rest of the buffer
  being erased; a record that does not fit changes nothing.  Inserting the PPL into an empty one
  (as done when a page is recovered) gives the same list of records.
\<close>

theorem ppl_refines_bounded_log:
  assumes "FLAGS_per_page_logging fl" "1 < FLAGS_ppl_merge_threshold fl" "\<forall>r \<in> set rs. length r < 2 ^ 31"
    and "length (ppl_log_records p) \<le> 1024" "length (ppl_log_records q) = length (ppl_log_records p)"
  shows "\<exists>p' q'. insert_all fl rs (ppl_reset p) = Some (fst (bounded_log (length (ppl_log_records p)) [] rs), p') \<and>
    ppl_holds p' (snd (bounded_log (length (ppl_log_records p)) [] rs)) \<and>
    insertPPL fl p' (ppl_reset q) = Some q' \<and>
    ppl_holds q' (snd (bounded_log (length (ppl_log_records p)) [] rs))"
proof -
  have len: "length (ppl_log_records (ppl_reset x)) = length (ppl_log_records x)" for x by (simp add: ppl_reset_def)
  obtain p' where "insert_all fl rs (ppl_reset p) = Some (fst (bounded_log (length (ppl_log_records p)) [] rs), p')"
    and h: "ppl_holds p' (snd (bounded_log (length (ppl_log_records p)) [] rs))"
    and "length (ppl_log_records p') = length (ppl_log_records p)"
    using insert_all_holds [OF ppl_holds_reset [OF assms(4)] assms(1-3)] unfolding len by blast
  then show ?thesis
    using insertPPL_holds [OF h ppl_holds_reset [of q] _ assms(1)] assms(4,5) by (auto simp: len)
qed

definition ppl_example :: PPL where
  "ppl_example =
     \<lparr>wal_entry = \<lparr>w_type = PER_PAGE_DT_SPECIFIC, w_size = 0, w_magic = 0, w_lsn = 0, w_prev_lsn = 0\<rparr>,
      ppl_header = \<lparr>pe_gsn = 0, pe_dt_id = 0, pe_pid = 0\<rparr>, last_entry_offset = 0, absorbed_writes = 0,
      nb_log_records = 0, ppl_log_records = replicate 8 0\<rparr>"

theorem ppl_refines_bounded_log_witness:
  "\<exists>p' q'. insert_all default_flags [[1, 2, 3], [4, 5, 6, 7, 8, 9], [10, 11]] (ppl_reset ppl_example) =
      Some ([True, False, True], p') \<and> ppl_holds p' [[1, 2, 3], [10, 11]] \<and>
    insertPPL default_flags p' (ppl_reset ppl_example) = Some q' \<and> ppl_holds q' [[1, 2, 3], [10, 11]]"
  using ppl_refines_bounded_log [of default_flags "[[1, 2, 3], [4, 5, 6, 7, 8, 9], [10, 11]]" ppl_example ppl_example]
  by (simp add: ppl_example_def)

text \<open>
  C32: Reserving space for a log record in the PPL of a frame.  A frame that is not discardable
  is left alone; when the record does not fit the frame becomes undiscardable for the cause
  \<open>PPL_BUFFER_FULL\<close> and nothing else changes; otherwise the place returned is the end of the
  records and once the caller has written the record there the PPL lists it after the others.
\<close>

theorem reservePPLEntry_cases:
  assumes h: "ppl_holds (ppl bf) rs" and fl: "FLAGS_per_page_logging fl"
    and r: "r \<noteq> []" "sizeof_WT + payload = of_nat (length r)" "length r < 2 ^ 31"
  defines "fits_in_buffer \<equiv> length (concat rs) + length r \<le> length (ppl_log_records (ppl bf))"
  shows "case bf_reservePPLEntry fl sizeof_WT payload False bf of
      None \<Rightarrow> False
    | Some (None, bf') \<Rightarrow>
        \<not> isDiscardable bf \<and> bf' = bf \<or>
        isDiscardable bf \<and> \<not> fits_in_buffer \<and>
        bf' = bf\<lparr>bf_header := (bf_header bf)\<lparr>undiscardable_cause := PPL_BUFFER_FULL, discardable := False\<rparr>\<rparr>
    | Some (Some off, bf') \<Rightarrow>
        isDiscardable bf \<and> fits_in_buffer \<and> off = length (concat rs) \<and> bf_header bf' = bf_header bf \<and>
        (\<exists>recs. copy_in off r (ppl_log_records (ppl bf')) = Some recs \<and>
           ppl_holds ((ppl bf')\<lparr>ppl_log_records := recs\<rparr>) (rs @ [r]))"
proof -
  let ?p = "ppl bf" and ?l = "length (concat rs)"
  note d = ppl_holdsD [OF h]
  have len: "unat (of_nat (length r) :: u32) = length r" using r(3) by (simp add: unat_of_nat take_bit_nat_eq_self)
  have space: "hasSpaceFor (sizeof_WT + payload) ?p \<longleftrightarrow> fits_in_buffer"
    using hasSpaceFor_holds [OF h, of "of_nat (length r)"] r(2,3) len by (simp add: fits_in_buffer_def)
  show ?thesis
  proof (cases "isDiscardable bf \<and> fits_in_buffer")
    case False
    then show ?thesis using fl space by (auto simp: bf_reservePPLEntry_def markUnDiscardable_def isDiscardable_def Let_def)
  next
    case True
    let ?off = "ucast (w_size (wal_entry ?p)) - of_nat log_records_offset :: u32"
    have "of_nat log_records_offset \<le> (ucast (w_size (wal_entry ?p)) :: u32)"
      using d(1) by (simp add: word_le_nat_alt unat_ucast_u16 log_records_offset_def)
    then have off: "unat ?off = ?l"
      using d(1) by (simp add: unat_sub unat_ucast_u16 log_records_offset_def)
    have l: "?l < length (ppl_log_records ?p)" using True r(1) by (cases r) (simp_all add: fits_in_buffer_def)
    have recs: "ppl_log_records ?p = concat rs @ replicate (length (ppl_log_records ?p) - ?l) 0xff"
      using h by (simp add: ppl_holds_def Let_def)
    then have byte: "ppl_log_records ?p ! ?l = 0xff"
      using l by (metis diff_self_eq_0 less_irrefl nth_append nth_replicate zero_less_diff)
    have o16: "ucast ?off = payload_size ?p" using off d(3) by (metis of_nat_unat)
    have t16: "ucast (sizeof_WT + payload) = (of_nat (length r) :: u16)" using r(2) len by (metis of_nat_unat)
    have pre: "take ?l (ppl_log_records ?p) = concat rs" by (subst recs) simp
    have "copy_in ?l r (ppl_log_records ?p) = Some (concat rs @ r @ drop (?l + length r) (ppl_log_records ?p))"
      using True pre by (simp add: copy_in_def fits_in_buffer_def)
    then show ?thesis
      using True fl space off l byte ppl_holds_append [OF h] o16 t16
      by (auto simp: bf_reservePPLEntry_def Let_def fits_in_buffer_def)
  qed
qed

definition frame_example :: BufferFrame where
  "frame_example =
     (BufferFrame_new [] 0 ppl_example 0)\<lparr>bf_header := (Header_new [] 0)\<lparr>discardable := True\<rparr>\<rparr>"

theorem reservePPLEntry_cases_witness:
  "case bf_reservePPLEntry default_flags 4 2 False frame_example of
      None \<Rightarrow> False
    | Some (None, bf') \<Rightarrow> False
    | Some (Some off, bf') \<Rightarrow> off = 0 \<and>
        (\<exists>recs. copy_in off [1, 2, 3, 4, 5, 6] (ppl_log_records (ppl bf')) = Some recs \<and>
           ppl_holds ((ppl bf')\<lparr>ppl_log_records := recs\<rparr>) [[1, 2, 3, 4, 5, 6]])"
proof -
  have "ppl_holds (ppl frame_example) []"
    by (simp add: frame_example_def BufferFrame_new_def ppl_init_def ppl_holds_reset ppl_example_def)
  moreover have "isDiscardable frame_example" "length (ppl_log_records (ppl frame_example)) = 8"
    by (simp_all add: frame_example_def isDiscardable_def BufferFrame_new_def ppl_init_def ppl_reset_def ppl_example_def)
  ultimately show ?thesis
    using reservePPLEntry_cases [of frame_example "[]" default_flags "[1, 2, 3, 4, 5, 6]" 4 2]
    by (auto split: option.splits prod.splits)
qed

section \<open>Discardability and resetting\<close>

text \<open>The first cause is kept: only a reset or the buffer manager makes a frame discardable again.\<close>

lemma markUnDiscardable_idempotent [simp]:
  "markUnDiscardable c' (markUnDiscardable c bf) = markUnDiscardable c bf"
  by (simp add: markUnDiscardable_def)

lemma markUnDiscardable_fields [simp]:
  "\<not> isDiscardable (markUnDiscardable c bf)" "page (markUnDiscardable c bf) = page bf" "ppl (markUnDiscardable c bf) = ppl bf"
  "isDirty (markUnDiscardable c bf) = isDirty bf"
  by (simp_all add: markUnDiscardable_def isDiscardable_def isDirty_def)

lemma opp_update_eq: "opp_update bf pid gsn sw pos p =
    \<lparr>parent_bf = bf, parent_pid = pid, parent_plsn = gsn, swip_ptr = sw, pos_in_parent = pos\<rparr>"
  by (simp add: opp_update_def)

text \<open>A reset header is a new one, apart from what the reset does not touch.\<close>

lemma header_reset_new:
  assumes "header_reset h = Some h'"
  shows "h' = (Header_new (pending_lsn h) uninit)\<lparr>not_yet_persisted := not_yet_persisted h, h_latch := h_latch h,
    optimistic_parent_pointer := optimistic_parent_pointer h\<rparr>"
  using assms by (cases h) (auto simp: header_reset_def Header_new_def)

lemma bf_reset_ppl: "bf_reset bf = Some bf' \<Longrightarrow> length (ppl_log_records (ppl bf)) \<le> 1024 \<Longrightarrow> ppl_holds (ppl bf') []"
  by (auto simp: bf_reset_def ppl_holds_reset split: bind_splits)

end
