(* ===== verification/Commit_Tree.thy ===== *)
theory Commit_Tree
  imports Units "HOL-Library.Product_Lexorder"
begin

text \<open>
  The commit tree of \<^verbatim>\<open>concurrency-recovery/Worker.hpp\<close> and
  \<^verbatim>\<open>ConcurrencyControl.cpp\<close>: each worker's array of pairs (commit timestamp, start
  timestamp) of its committed transactions, from which the other workers find the last transaction
  committed before their snapshot.  The array is cut down to the entries the running snapshots
  need when it is full.

  \<^verbatim>\<open>std::lower_bound\<close> is what the standard specifies for a range partitioned by the
  predicate, which the arrays are (\<open>tree_sorted\<close>).  The debug assertion of
  \<^verbatim>\<open>LCBUnsafe\<close> is the lemma \<open>LCBUnsafe_assert\<close>.
\<close>

type_synonym TXID = u64

definition WORKERS_INCREMENT :: u64 where "WORKERS_INCREMENT = push_bit 8 1"
definition LATCH_BIT :: u64 where "LATCH_BIT = push_bit 63 1"
definition RC_BIT :: u64 where "RC_BIT = push_bit 62 1"
definition OLAP_BIT :: u64 where "OLAP_BIT = push_bit 61 1"
definition CLEAN_BITS_MASK :: u64 where "CLEAN_BITS_MASK = NOT (LATCH_BIT OR OLAP_BIT OR RC_BIT)"
definition MSB :: u64 where "MSB = push_bit 63 1"
definition MSB_MASK :: u64 where "MSB_MASK = NOT MSB"

section \<open>The tree\<close>

record CommitTree =
  ct_capacity :: nat
  ct_array :: "(TXID \<times> TXID) list"

definition CommitTree_new :: "nat \<Rightarrow> CommitTree" where
  "CommitTree_new workers_count = \<lparr>ct_capacity = workers_count + 1, ct_array = []\<rparr>"

text \<open>The clock is \<^verbatim>\<open>global_clock\<close>; a write past the capacity is undefined.\<close>

definition ct_commit :: "TXID \<Rightarrow> u64 \<Rightarrow> CommitTree \<Rightarrow> (TXID \<times> u64 \<times> CommitTree) option" where
  "ct_commit start_ts global_clock t =
     (if length (ct_array t) < ct_capacity t
      then Some (global_clock, global_clock + 1, t\<lparr>ct_array := ct_array t @ [(global_clock, start_ts)]\<rparr>)
      else None)"

definition lower_bound :: "TXID \<Rightarrow> (TXID \<times> TXID) list \<Rightarrow> nat" where
  "lower_bound ts xs = length (takeWhile (\<lambda>p. fst p < ts) xs)"

definition LCBUnsafe :: "TXID \<Rightarrow> (TXID \<times> TXID) list \<Rightarrow> (TXID \<times> TXID) option" where
  "LCBUnsafe start_ts array =
     (let it = lower_bound start_ts array in if it = 0 then None else Some (array ! (it - 1)))"

definition LCB :: "TXID \<Rightarrow> CommitTree \<Rightarrow> TXID" where
  "LCB start_ts t = (case LCBUnsafe start_ts (ct_array t) of None \<Rightarrow> 0 | Some v \<Rightarrow> snd v)"

text \<open>
  The set of entries to keep, a \<^verbatim>\<open>std::set\<close> as a sorted list.  \<open>snap\<close> are the
  published snapshots; \<open>None\<close> is that a worker is latched and the loop waits.
\<close>

fun clean_set ::
  "nat list \<Rightarrow> (nat \<Rightarrow> u64) \<Rightarrow> (TXID \<times> TXID) list \<Rightarrow> (TXID \<times> TXID) list \<Rightarrow> (TXID \<times> TXID) list option" where
  "clean_set [] snap array s = Some s"
| "clean_set (w # ws) snap array s =
     (if snap w AND LATCH_BIT \<noteq> 0 then None
      else let its_start_ts = snap w AND CLEAN_BITS_MASK;
               s1 = insort_insert (last array) s;
               s2 = (if its_start_ts = 0 then insort_insert (hd array) s1
                       else case LCBUnsafe its_start_ts array of None \<Rightarrow> s1 | Some v \<Rightarrow> insort_insert v s1)
           in clean_set ws snap array s2)"

definition cleanIfNecessary :: "nat \<Rightarrow> nat \<Rightarrow> (nat \<Rightarrow> u64) \<Rightarrow> CommitTree \<Rightarrow> CommitTree option" where
  "cleanIfNecessary my_worker_id workers_count snap t =
     (if length (ct_array t) < ct_capacity t then Some t
      else map_option (\<lambda>s. t\<lparr>ct_array := s\<rparr>)
             (clean_set (filter (\<lambda>w. w \<noteq> my_worker_id) [0..<workers_count]) snap (ct_array t) []))"

section \<open>Last committed before\<close>

definition tree_sorted :: "(TXID \<times> TXID) list \<Rightarrow> bool" where
  "tree_sorted xs \<longleftrightarrow> sorted_wrt (\<lambda>p q. fst p < fst q) xs"

text \<open>The entry with the largest commit timestamp before \<open>ts\<close>.\<close>

definition last_before :: "TXID \<Rightarrow> (TXID \<times> TXID) set \<Rightarrow> (TXID \<times> TXID) \<Rightarrow> bool" where
  "last_before ts S p \<longleftrightarrow> p \<in> S \<and> fst p < ts \<and> (\<forall>q \<in> S. fst q < ts \<longrightarrow> fst q \<le> fst p)"

lemma tree_sorted_inj: "tree_sorted xs \<Longrightarrow> p \<in> set xs \<Longrightarrow> q \<in> set xs \<Longrightarrow> fst p = fst q \<Longrightarrow> p = q"
  by (induction xs) (auto simp: tree_sorted_def)

lemma lower_bound_split:
  assumes "tree_sorted xs"
  shows "lower_bound ts xs \<le> length xs" "i < lower_bound ts xs \<Longrightarrow> fst (xs ! i) < ts"
    "lower_bound ts xs \<le> i \<Longrightarrow> i < length xs \<Longrightarrow> \<not> fst (xs ! i) < ts"
proof -
  show le: "lower_bound ts xs \<le> length xs" unfolding lower_bound_def by (rule length_takeWhile_le)
  show "fst (xs ! i) < ts" if "i < lower_bound ts xs"
    using that unfolding lower_bound_def by (metis nth_mem set_takeWhileD takeWhile_nth)
  show "\<not> fst (xs ! i) < ts" if i: "lower_bound ts xs \<le> i" "i < length xs"
  proof (cases "i = lower_bound ts xs")
    case True
    then show ?thesis using i nth_length_takeWhile [of "\<lambda>p. fst p < ts" xs] by (simp add: lower_bound_def)
  next
    case False
    then have "fst (xs ! lower_bound ts xs) < fst (xs ! i)"
      using i assms unfolding tree_sorted_def by (intro sorted_wrt_nth_less [of "\<lambda>p q. fst p < fst q" xs]) auto
    moreover have "\<not> fst (xs ! lower_bound ts xs) < ts"
      using i nth_length_takeWhile [of "\<lambda>p. fst p < ts" xs] by (simp add: lower_bound_def)
    ultimately show ?thesis by simp
  qed
qed

lemma LCBUnsafe_Some:
  assumes "tree_sorted xs" "LCBUnsafe ts xs = Some p"
  shows "last_before ts (set xs) p"
proof -
  note s = lower_bound_split [OF assms(1)]
  let ?n = "lower_bound ts xs"
  have n: "0 < ?n" "p = xs ! (?n - 1)" using assms(2) by (auto simp: LCBUnsafe_def Let_def split: if_splits)
  then have p: "p \<in> set xs" "fst p < ts" using s(1) [of ts] s(2) [of "?n - 1" ts] by (auto intro: nth_mem)
  have "fst q \<le> fst p" if q: "q \<in> set xs" "fst q < ts" for q
  proof -
    obtain j where j: "j < length xs" "q = xs ! j" using q(1) by (auto simp: in_set_conv_nth)
    then have "j < ?n" using s(3) [of ts j] q(2) by (metis not_le)
    then show ?thesis
      using j n s(1) [of ts] assms(1) unfolding tree_sorted_def
      by (cases "j = ?n - 1") (auto intro!: less_imp_le sorted_wrt_nth_less [of "\<lambda>p q. fst p < fst q"])
  qed
  with p show ?thesis by (simp add: last_before_def)
qed

lemma LCBUnsafe_assert:
  assumes "tree_sorted xs" "\<forall>p \<in> set xs. snd p < fst p" "LCBUnsafe ts xs = Some p"
  shows "snd p < ts"
proof -
  have "p \<in> set xs" "fst p < ts" using LCBUnsafe_Some [OF assms(1,3)] by (auto simp: last_before_def)
  then show ?thesis using assms(2) order_less_trans by blast
qed

lemma LCBUnsafe_None:
  assumes "tree_sorted xs" "LCBUnsafe ts xs = None" "q \<in> set xs"
  shows "ts \<le> fst q"
proof -
  have "lower_bound ts xs = 0" using assms(2) by (auto simp: LCBUnsafe_def Let_def split: if_splits)
  then show ?thesis using lower_bound_split(3) [OF assms(1), of ts] assms(3) by (auto simp: in_set_conv_nth not_less)
qed

lemma LCBUnsafe_eqI:
  assumes "tree_sorted xs" "last_before ts (set xs) p"
  shows "LCBUnsafe ts xs = Some p"
proof (cases "LCBUnsafe ts xs")
  case None
  then show ?thesis using LCBUnsafe_None [OF assms(1) None, of p] assms(2) by (auto simp: last_before_def)
next
  case (Some q)
  then have "last_before ts (set xs) q" using LCBUnsafe_Some [OF assms(1)] by blast
  then have "fst p = fst q" "p \<in> set xs" "q \<in> set xs" using assms(2) by (auto simp: last_before_def intro: antisym)
  then show ?thesis using tree_sorted_inj [OF assms(1)] Some by blast
qed

text \<open>An array that keeps the entry the answer comes from answers the same.\<close>

lemma LCBUnsafe_subset:
  assumes "tree_sorted xs" "tree_sorted ys" "set ys \<subseteq> set xs" "LCBUnsafe ts xs = None \<or> the (LCBUnsafe ts xs) \<in> set ys"
  shows "LCBUnsafe ts ys = LCBUnsafe ts xs"
proof (cases "LCBUnsafe ts xs")
  case None
  have "\<not> last_before ts (set ys) q" for q
    using LCBUnsafe_None [OF assms(1) None, of q] assms(3) by (auto simp: last_before_def)
  then have "LCBUnsafe ts ys \<noteq> Some q" for q using LCBUnsafe_Some [OF assms(2)] by blast
  then show ?thesis using None by (metis not_None_eq)
next
  case (Some p)
  then have "last_before ts (set ys) p"
    using LCBUnsafe_Some [OF assms(1) Some] assms(3,4) by (auto simp: last_before_def)
  then show ?thesis using LCBUnsafe_eqI [OF assms(2)] Some by simp
qed


section \<open>Cleaning\<close>

lemma tree_sorted_lex: "tree_sorted xs \<Longrightarrow> sorted xs \<and> distinct xs"
  by (induction xs) (auto simp: tree_sorted_def less_eq_prod_def)

lemma lex_tree_sorted:
  assumes "sorted ys" "distinct ys" "set ys \<subseteq> set xs" "tree_sorted xs"
  shows "tree_sorted ys"
  using assms(1-3)
proof (induction ys)
  case (Cons y ys)
  have "fst y < fst z" if z: "z \<in> set ys" for z
  proof -
    have "y \<le> z" "y \<noteq> z" using Cons.prems z by auto
    moreover have "fst y \<noteq> fst z" using tree_sorted_inj [OF assms(4), of y z] Cons.prems z \<open>y \<noteq> z\<close> by auto
    ultimately show ?thesis by (auto simp: less_eq_prod_def)
  qed
  then show ?case using Cons by (auto simp: tree_sorted_def)
qed (simp add: tree_sorted_def)

lemma insort_insert_props:
  "sorted s \<Longrightarrow> distinct s \<Longrightarrow>
   sorted (insort_insert x s) \<and> distinct (insort_insert x s) \<and> set (insort_insert x s) = insert x (set s)"
  by (simp add: sorted_insort_insert distinct_insort_insert set_insort_insert)

text \<open>What is kept: entries of the array, the last one, and the ones the snapshots read need.\<close>

lemma clean_set_props:
  assumes "clean_set ws snap xs s = Some s'" "xs \<noteq> []" "tree_sorted xs" "sorted s" "distinct s" "set s \<subseteq> set xs"
  shows "sorted s' \<and> distinct s' \<and> set s \<subseteq> set s' \<and> set s' \<subseteq> set xs \<and> (ws \<noteq> [] \<longrightarrow> last xs \<in> set s') \<and>
    card (set s') \<le> card (set s) + length ws + (if ws = [] \<or> last xs \<in> set s then 0 else 1) \<and>
    (\<forall>w \<in> set ws. snap w AND LATCH_BIT = 0 \<and>
       (snap w AND CLEAN_BITS_MASK \<noteq> 0 \<longrightarrow> LCBUnsafe (snap w AND CLEAN_BITS_MASK) xs \<noteq> None \<longrightarrow>
        the (LCBUnsafe (snap w AND CLEAN_BITS_MASK) xs) \<in> set s'))"
  using assms
proof (induction ws arbitrary: s)
  case (Cons w ws)
  let ?ts = "snap w AND CLEAN_BITS_MASK"
  define s1 where "s1 = insort_insert (last xs) s"
  define s2 where "s2 = (if ?ts = 0 then insort_insert (hd xs) s1
    else case LCBUnsafe ?ts xs of None \<Rightarrow> s1 | Some v \<Rightarrow> insort_insert v s1)"
  have w: "snap w AND LATCH_BIT = 0" and rest: "clean_set ws snap xs s2 = Some s'"
    using Cons.prems(1) unfolding s1_def s2_def by (auto simp: Let_def split: if_splits)
  have s1: "sorted s1 \<and> distinct s1 \<and> set s1 = insert (last xs) (set s)"
    unfolding s1_def using Cons.prems by (intro insort_insert_props)
  obtain V where V: "sorted s2 \<and> distinct s2 \<and> set s2 = V \<union> set s1" "V \<subseteq> set xs" "card V \<le> 1"
    "?ts \<noteq> 0 \<longrightarrow> LCBUnsafe ?ts xs \<noteq> None \<longrightarrow> the (LCBUnsafe ?ts xs) \<in> V"
  proof (cases "?ts = 0")
    case True
    then have "s2 = insort_insert (hd xs) s1" by (simp add: s2_def)
    then show ?thesis using that [of "{hd xs}"] s1 insort_insert_props [of s1 "hd xs"] Cons.prems(2) True by auto
  next
    case False
    show ?thesis
    proof (cases "LCBUnsafe ?ts xs")
      case None
      then show ?thesis using that [of "{}"] s1 False by (simp add: s2_def)
    next
      case (Some v)
      then have "v \<in> set xs" using LCBUnsafe_Some [OF Cons.prems(3)] by (auto simp: last_before_def)
      moreover have "s2 = insort_insert v s1" using Some False by (simp add: s2_def)
      ultimately show ?thesis using that [of "{v}"] s1 insort_insert_props [of s1 v] Some False by auto
    qed
  qed
  have sub: "set s2 \<subseteq> set xs" using V s1 Cons.prems(2,6) by auto
  note IH = Cons.IH [OF rest Cons.prems(2,3) _ _ sub]
  have "card (set s2) \<le> card (set s) + 1 + (if last xs \<in> set s then 0 else 1)"
    using V(1,3) s1 card_Un_le [of V "set s1"] by (auto simp: card_insert_if split: if_splits)
  then show ?case using IH V w s1 by (auto split: if_splits)
qed simp


text \<open>
  Cleaning keeps the answers for the snapshots it read and for all newer ones, and makes room for
  the next commit.
\<close>

lemma cleanIfNecessary_props:
  assumes c: "cleanIfNecessary me n snap t = Some t'" and s: "tree_sorted (ct_array t)"
    and cap: "ct_capacity t = n + 1" "me < n" "length (ct_array t) \<le> n + 1"
  shows "ct_capacity t' = n + 1" "tree_sorted (ct_array t')" "set (ct_array t') \<subseteq> set (ct_array t)"
    "length (ct_array t') < n + 1"
    "w < n \<Longrightarrow> w \<noteq> me \<Longrightarrow> ct_array t \<noteq> [] \<Longrightarrow> last (ct_array t) \<in> set (ct_array t')"
    "w < n \<Longrightarrow> w \<noteq> me \<Longrightarrow> ct_array t' = ct_array t \<or> snap w AND LATCH_BIT = 0 \<and> (snap w AND CLEAN_BITS_MASK \<noteq> 0 \<longrightarrow>
       LCBUnsafe (snap w AND CLEAN_BITS_MASK) (ct_array t') = LCBUnsafe (snap w AND CLEAN_BITS_MASK) (ct_array t))"
proof -
  let ?ws = "filter (\<lambda>w. w \<noteq> me) [0..<n]" and ?xs = "ct_array t"
  consider "t' = t" "length ?xs < n + 1"
    | s' where "?xs \<noteq> []" "clean_set ?ws snap ?xs [] = Some s'" "t' = t\<lparr>ct_array := s'\<rparr>"
  proof (cases "length ?xs < n + 1")
    case True
    then show ?thesis using c cap(1) by (intro that(1)) (simp_all add: cleanIfNecessary_def)
  next
    case False
    then have "map_option (\<lambda>s. t\<lparr>ct_array := s\<rparr>) (clean_set ?ws snap ?xs []) = Some t'" "?xs \<noteq> []"
      using c cap(1) by (auto simp only: cleanIfNecessary_def if_False list.size)
    then show ?thesis using that(2) by (cases "clean_set ?ws snap ?xs []") simp_all
  qed
  then have "ct_capacity t' = n + 1 \<and> tree_sorted (ct_array t') \<and> set (ct_array t') \<subseteq> set ?xs \<and>
      length (ct_array t') < n + 1 \<and>
      (w < n \<longrightarrow> w \<noteq> me \<longrightarrow> ?xs \<noteq> [] \<longrightarrow> last ?xs \<in> set (ct_array t')) \<and>
      (w < n \<longrightarrow> w \<noteq> me \<longrightarrow> ct_array t' = ?xs \<or> snap w AND LATCH_BIT = 0 \<and> (snap w AND CLEAN_BITS_MASK \<noteq> 0 \<longrightarrow>
         LCBUnsafe (snap w AND CLEAN_BITS_MASK) (ct_array t') = LCBUnsafe (snap w AND CLEAN_BITS_MASK) ?xs))"
  proof cases
    case 1
    then show ?thesis using s cap by auto
  next
    case 2
    have k: "sorted s'" "distinct s'" "set s' \<subseteq> set ?xs" "?ws \<noteq> [] \<longrightarrow> last ?xs \<in> set s'"
      "card (set s') \<le> length ?ws + (if ?ws = [] then 0 else 1)"
      and snaps: "\<And>w. w \<in> set ?ws \<Longrightarrow> snap w AND LATCH_BIT = 0 \<and>
        (snap w AND CLEAN_BITS_MASK \<noteq> 0 \<longrightarrow> LCBUnsafe (snap w AND CLEAN_BITS_MASK) ?xs \<noteq> None \<longrightarrow>
         the (LCBUnsafe (snap w AND CLEAN_BITS_MASK) ?xs) \<in> set s')"
      using clean_set_props [OF 2(2,1) s] by simp_all
    have sorted': "tree_sorted s'" using lex_tree_sorted [OF k(1-3) s] .
    have "length ?ws = n - 1"
    proof -
      have "set ?ws = {0..<n} - {me}" by auto
      then show ?thesis using cap(2) distinct_card [of ?ws] by simp
    qed
    then have "length s' < n + 1"
      using k(2,5) cap(2) distinct_card [of s'] by (cases "?ws = []") simp_all
    moreover have "LCBUnsafe (snap w AND CLEAN_BITS_MASK) s' = LCBUnsafe (snap w AND CLEAN_BITS_MASK) ?xs"
      if "w < n" "w \<noteq> me" "snap w AND CLEAN_BITS_MASK \<noteq> 0"
      proof -
      have "w \<in> set ?ws" using that by simp
      from snaps [OF this] that(3) show ?thesis by (intro LCBUnsafe_subset [OF s sorted' k(3)]) blast
    qed
    moreover have "snap w AND LATCH_BIT = 0" if "w < n" "w \<noteq> me" using snaps [of w] that by simp
    moreover have "?ws \<noteq> []" if "w < n" "w \<noteq> me" using that by (auto simp: filter_empty_conv)
    ultimately show ?thesis using k(3,4) 2(3) cap(1) sorted' by simp
  qed
  then show "ct_capacity t' = n + 1" "tree_sorted (ct_array t')" "set (ct_array t') \<subseteq> set (ct_array t)"
    "length (ct_array t') < n + 1"
    "w < n \<Longrightarrow> w \<noteq> me \<Longrightarrow> ct_array t \<noteq> [] \<Longrightarrow> last (ct_array t) \<in> set (ct_array t')"
    "w < n \<Longrightarrow> w \<noteq> me \<Longrightarrow> ct_array t' = ct_array t \<or> snap w AND LATCH_BIT = 0 \<and> (snap w AND CLEAN_BITS_MASK \<noteq> 0 \<longrightarrow>
       LCBUnsafe (snap w AND CLEAN_BITS_MASK) (ct_array t') = LCBUnsafe (snap w AND CLEAN_BITS_MASK) (ct_array t))"
    by auto
qed

end
