(* ===== verification/Concurrency_Control.thy ===== *)
theory Concurrency_Control
  imports Commit_Tree Transition_System
begin

text \<open>
  Timestamps, snapshots and visibility of \<^verbatim>\<open>concurrency-recovery/Worker.hpp\<close>,
  \<^verbatim>\<open>Worker.cpp\<close>, \<^verbatim>\<open>Transaction.hpp\<close> and
  \<^verbatim>\<open>ConcurrencyControl.cpp\<close>.

  The workers draw timestamps from a global clock and publish their start timestamp (with the
  latch bit while they draw it); committing appends to the worker's commit tree, and now and then
  a worker computes the low watermark.  \<^verbatim>\<open>startTX\<close> is cut at its accesses to shared
  state, \<^verbatim>\<open>refreshGlobalState\<close> between the scan of the snapshots and the computation of
  the watermark; a step of the system is one of these pieces of one worker.  The write-ahead log,
  the timers and the purge of old versions are not part of this theory.
\<close>

section \<open>State\<close>

datatype TX_MODE = OLAP | OLTP | DETERMINISTIC | INSTANTLY_VISIBLE_BULK_INSERT
datatype TX_ISOLATION_LEVEL = READ_UNCOMMITTED | READ_COMMITTED | SNAPSHOT_ISOLATION | SERIALIZABLE

record Transaction =
  start_ts :: TXID
  commit_ts :: TXID
  current_tx_mode :: TX_MODE
  current_tx_isolation_level :: TX_ISOLATION_LEVEL
  has_wrote :: bool

definition isOLAP :: "Transaction \<Rightarrow> bool" where "isOLAP tx \<longleftrightarrow> current_tx_mode tx = OLAP"
definition atLeastSI :: "Transaction \<Rightarrow> bool" where
  "atLeastSI tx \<longleftrightarrow> current_tx_isolation_level tx = SNAPSHOT_ISOLATION \<or> current_tx_isolation_level tx = SERIALIZABLE"
definition isReadCommitted :: "Transaction \<Rightarrow> bool" where
  "isReadCommitted tx \<longleftrightarrow> current_tx_isolation_level tx = READ_COMMITTED"
definition isReadUncommitted :: "Transaction \<Rightarrow> bool" where
  "isReadUncommitted tx \<longleftrightarrow> current_tx_isolation_level tx = READ_UNCOMMITTED"
definition markAsWrite :: "Transaction \<Rightarrow> Transaction" where "markAsWrite tx = tx\<lparr>has_wrote := True\<rparr>"

record ConcurrencyControl =
  local_lwm_latch :: TXID
  oltp_lwm_receiver :: TXID
  all_lwm_receiver :: TXID
  local_latest_write_tx :: TXID
  local_latest_lwm_for_tx :: TXID
  local_global_all_lwm_cache :: TXID
  local_snapshot_cache :: "nat \<Rightarrow> TXID"
  local_snapshot_cache_ts :: "nat \<Rightarrow> TXID"
  local_workers_start_ts :: "nat \<Rightarrow> TXID"
  commit_tree :: CommitTree

record Worker =
  wk_cc :: ConcurrencyControl
  active_tx :: Transaction

record CR =
  global_clock :: u64
  global_workers_current_snapshot :: "nat \<Rightarrow> u64"
  global_oldest_oltp_start_ts :: TXID
  global_oltp_lwm :: TXID
  global_oldest_all_start_ts :: TXID
  global_all_lwm :: TXID
  global_newest_olap_start_ts :: TXID
  workers_count :: nat
  all_workers :: "nat \<Rightarrow> Worker"

abbreviation tx_of :: "CR \<Rightarrow> nat \<Rightarrow> Transaction" where
  "tx_of s w \<equiv> active_tx (all_workers s w)"

abbreviation cc_of :: "CR \<Rightarrow> nat \<Rightarrow> ConcurrencyControl" where
  "cc_of s w \<equiv> wk_cc (all_workers s w)"

definition set_tx :: "nat \<Rightarrow> Transaction \<Rightarrow> CR \<Rightarrow> CR" where
  "set_tx w tx s = s\<lparr>all_workers := (all_workers s)(w := (all_workers s w)\<lparr>active_tx := tx\<rparr>)\<rparr>"

definition set_cc :: "nat \<Rightarrow> ConcurrencyControl \<Rightarrow> CR \<Rightarrow> CR" where
  "set_cc w cc s = s\<lparr>all_workers := (all_workers s)(w := (all_workers s w)\<lparr>wk_cc := cc\<rparr>)\<rparr>"

definition set_snapshot :: "nat \<Rightarrow> u64 \<Rightarrow> CR \<Rightarrow> CR" where
  "set_snapshot w x s = s\<lparr>global_workers_current_snapshot := (global_workers_current_snapshot s)(w := x)\<rparr>"

section \<open>Starting and committing a transaction\<close>

definition start_init :: "nat \<Rightarrow> TX_MODE \<Rightarrow> TX_ISOLATION_LEVEL \<Rightarrow> CR \<Rightarrow> CR" where
  "start_init w mode level s =
     set_tx w ((tx_of s w)\<lparr>has_wrote := False, current_tx_mode := mode, current_tx_isolation_level := level\<rparr>) s"

definition start_latch :: "nat \<Rightarrow> CR \<Rightarrow> CR" where
  "start_latch w s = set_snapshot w (start_ts (tx_of s w) OR LATCH_BIT) s"

definition start_draw :: "nat \<Rightarrow> CR \<Rightarrow> CR" where
  "start_draw w s =
     (set_tx w ((tx_of s w)\<lparr>start_ts := global_clock s\<rparr>) s)\<lparr>global_clock := global_clock s + 1\<rparr>"

definition start_publish :: "flags \<Rightarrow> nat \<Rightarrow> CR \<Rightarrow> CR" where
  "start_publish fl w s =
     set_snapshot w (if FLAGS_olap_mode fl then start_ts (tx_of s w) OR (if isOLAP (tx_of s w) then OLAP_BIT else 0)
                     else start_ts (tx_of s w)) s"

definition start_clean :: "nat \<Rightarrow> CR \<Rightarrow> CR option" where
  "start_clean w s =
     map_option (\<lambda>t. set_cc w ((cc_of s w)\<lparr>commit_tree := t\<rparr>) s)
       (cleanIfNecessary w (workers_count s) (global_workers_current_snapshot s) (commit_tree (cc_of s w)))"

definition start_lwm :: "nat \<Rightarrow> CR \<Rightarrow> CR" where
  "start_lwm w s = set_cc w ((cc_of s w)\<lparr>local_global_all_lwm_cache := global_all_lwm s\<rparr>) s"

definition commitTX :: "nat \<Rightarrow> CR \<Rightarrow> CR option" where
  "commitTX w s =
     (if has_wrote (tx_of s w)
      then do {
        (ts, clock, t) \<leftarrow> ct_commit (start_ts (tx_of s w)) (global_clock s) (commit_tree (cc_of s w));
        let s1 = set_cc w ((cc_of s w)\<lparr>commit_tree := t, local_latest_write_tx := ts\<rparr>) s;
        Some ((set_tx w ((tx_of s w)\<lparr>commit_ts := ts\<rparr>) s1)\<lparr>global_clock := clock\<rparr>)
      }
      else Some s)"

section \<open>The low watermark\<close>

text \<open>
  The scan of the snapshots by a worker whose transaction started at \<open>my_ts\<close>: oldest
  transaction, oldest OLTP and newest OLAP transaction.  \<open>None\<close> is that the loop waits for a
  latched worker.
\<close>

fun scan_snapshots :: "TXID \<Rightarrow> nat list \<Rightarrow> (nat \<Rightarrow> u64) \<Rightarrow> TXID \<times> TXID \<times> TXID \<Rightarrow> (TXID \<times> TXID \<times> TXID) option" where
  "scan_snapshots my_ts [] snap acc = Some acc"
| "scan_snapshots my_ts (w # ws) snap (oldest_tx, oldest_oltp, newest_olap) =
     (let raw = snap w; its = raw AND CLEAN_BITS_MASK
      in if raw AND LATCH_BIT \<noteq> 0 \<and> its < my_ts then None
         else if raw AND RC_BIT \<noteq> 0 then scan_snapshots my_ts ws snap (oldest_tx, oldest_oltp, newest_olap)
         else if raw AND OLAP_BIT \<noteq> 0
         then scan_snapshots my_ts ws snap (min its oldest_tx, oldest_oltp, max its newest_olap)
         else scan_snapshots my_ts ws snap (min its oldest_tx, min its oldest_oltp, newest_olap))"

definition refresh_scan :: "nat \<Rightarrow> CR \<Rightarrow> CR option" where
  "refresh_scan me s =
     map_option (\<lambda>(oldest_tx, oldest_oltp, newest_olap).
         s\<lparr>global_oldest_all_start_ts := oldest_tx, global_oldest_oltp_start_ts := oldest_oltp,
           global_newest_olap_start_ts := newest_olap\<rparr>)
       (scan_snapshots (start_ts (tx_of s me)) [0..<workers_count s] (global_workers_current_snapshot s) (- 1, - 1, 0))"

text \<open>One iteration of the second loop, with the two minima and whether a worker was skipped.\<close>

definition lwm_worker :: "flags \<Rightarrow> nat \<Rightarrow> CR \<times> TXID \<times> TXID \<times> bool \<Rightarrow> CR \<times> TXID \<times> TXID \<times> bool" where
  "lwm_worker fl w = (\<lambda>(s, all_buf, oltp_buf, skipped).
     (let cc = cc_of s w
      in if local_latest_lwm_for_tx cc = local_latest_write_tx cc then (s, all_buf, oltp_buf, True)
         else let its_all = LCB (global_oldest_all_start_ts s) (commit_tree cc);
                  its_oltp0 = LCB (global_oldest_oltp_start_ts s) (commit_tree cc);
                  olap = FLAGS_olap_mode fl \<and> global_oldest_all_start_ts s \<noteq> global_oldest_oltp_start_ts s;
                  oltp_buf' = (if olap then min its_oltp0 oltp_buf else oltp_buf);
                  its_oltp = (if olap then its_oltp0 else its_all)
              in (set_cc w (cc\<lparr>local_latest_lwm_for_tx := local_latest_write_tx cc, all_lwm_receiver := its_all,
                               oltp_lwm_receiver := its_oltp, local_lwm_latch := local_lwm_latch cc + 1 + 1\<rparr>) s,
                  min its_all all_buf, oltp_buf', skipped)))"

definition refresh_lwm :: "flags \<Rightarrow> CR \<Rightarrow> CR" where
  "refresh_lwm fl s =
     (let (s', all_buf, oltp_buf, skipped) = fold (lwm_worker fl) [0..<workers_count s] (s, - 1, - 1, False)
      in if \<not> skipped then s'\<lparr>global_all_lwm := all_buf, global_oltp_lwm := oltp_buf\<rparr> else s')"

text \<open>
  The whole function; \<open>chosen\<close> is that the random number is 0 and the mutex was free.
\<close>

definition refreshGlobalState :: "flags \<Rightarrow> bool \<Rightarrow> nat \<Rightarrow> CR \<Rightarrow> CR option" where
  "refreshGlobalState fl chosen me s =
     (if \<not> FLAGS_todo fl then Some s
      else if chosen then map_option (refresh_lwm fl) (refresh_scan me s) else Some s)"

definition switchToSnapshotIsolationMode :: "flags \<Rightarrow> bool \<Rightarrow> nat \<Rightarrow> CR \<Rightarrow> CR option" where
  "switchToSnapshotIsolationMode fl chosen me s =
     refreshGlobalState fl chosen me (set_snapshot me (global_clock s) s)"

definition switchToReadCommittedMode :: "flags \<Rightarrow> bool \<Rightarrow> nat \<Rightarrow> CR \<Rightarrow> CR option" where
  "switchToReadCommittedMode fl chosen me s =
     refreshGlobalState fl chosen me (set_snapshot me (global_workers_current_snapshot s me OR RC_BIT) s)"

section \<open>Visibility\<close>

datatype VISIBILITY = VISIBLE_ALREADY | VISIBLE_NEXT_ROUND | UNDETERMINED

definition getCommitTimestamp :: "nat \<Rightarrow> TXID \<Rightarrow> CR \<Rightarrow> TXID option" where
  "getCommitTimestamp w tx_ts s =
     (if tx_ts AND MSB \<noteq> 0 then Some (tx_ts AND MSB_MASK)
      else let lcb = LCB tx_ts (commit_tree (cc_of s w)); ts = (if lcb \<noteq> 0 then lcb else - 1)
           in do { ensure (ts > tx_ts); Some ts })"

definition isVisibleForIt_commit :: "nat \<Rightarrow> nat \<Rightarrow> TXID \<Rightarrow> CR \<Rightarrow> VISIBILITY" where
  "isVisibleForIt_commit me whom ts s =
     (if local_workers_start_ts (cc_of s me) whom > ts then VISIBLE_ALREADY else VISIBLE_NEXT_ROUND)"

definition isVisibleForIt :: "nat \<Rightarrow> nat \<Rightarrow> nat \<Rightarrow> TXID \<Rightarrow> CR \<Rightarrow> VISIBILITY option" where
  "isVisibleForIt me whom what tx_ts s =
     do { ts \<leftarrow> (if tx_ts AND MSB \<noteq> 0 then Some (tx_ts AND MSB_MASK) else getCommitTimestamp what tx_ts s);
          Some (isVisibleForIt_commit me whom ts s) }"

text \<open>The answer, and the state with the worker's caches.\<close>

definition isVisibleForMe :: "nat \<Rightarrow> nat \<Rightarrow> u64 \<Rightarrow> bool \<Rightarrow> CR \<Rightarrow> bool \<times> CR" where
  "isVisibleForMe me w tx_ts to_write s =
     (let is_commit_ts = tx_ts AND MSB \<noteq> 0;
          committed_ts = (if is_commit_ts then tx_ts AND MSB_MASK else 0);
          ts = tx_ts AND MSB_MASK; tx = tx_of s me; cc = cc_of s me
      in if \<not> to_write \<and> isReadUncommitted tx then (True, s)
         else if me = w then (True, s)
         else if isReadCommitted tx \<or> isReadUncommitted tx
         then (if is_commit_ts then (True, s)
               else if local_snapshot_cache cc w \<ge> ts then (True, s)
               else let current_ts = global_clock s + 1; largest = LCB current_ts (commit_tree (cc_of s w))
                    in (largest \<ge> ts,
                        set_cc me (cc\<lparr>local_snapshot_cache := (local_snapshot_cache cc)(w := largest),
                                      local_snapshot_cache_ts := (local_snapshot_cache_ts cc)(w := current_ts)\<rparr>) s))
         else if is_commit_ts then (start_ts tx > committed_ts, s)
         else if ts < local_global_all_lwm_cache cc then (True, s)
         else if local_snapshot_cache_ts cc w = start_ts tx then (local_snapshot_cache cc w \<ge> ts, s)
         else if local_snapshot_cache cc w \<ge> ts then (True, s)
         else let largest = LCB (start_ts tx) (commit_tree (cc_of s w))
              in if largest \<noteq> 0
                 then (largest \<ge> ts,
                       set_cc me (cc\<lparr>local_snapshot_cache := (local_snapshot_cache cc)(w := largest),
                                     local_snapshot_cache_ts := (local_snapshot_cache_ts cc)(w := start_ts tx)\<rparr>) s)
                 else (False, s))"

definition isVisibleForAll :: "TXID \<Rightarrow> CR \<Rightarrow> bool" where
  "isVisibleForAll ts s =
     (if ts AND MSB \<noteq> 0 then ts AND MSB_MASK < global_oldest_all_start_ts s else ts < global_all_lwm s)"

section \<open>The system\<close>

text \<open>
  Where a worker is.  \<open>Scanned\<close> is between the two loops of
  \<^verbatim>\<open>refreshGlobalState\<close>, where it holds the global mutex.  \<open>committed w\<close> is a ghost:
  the whole history of pairs (commit, start) of worker \<open>w\<close>, never cut down.
\<close>

datatype tx_pc = Idle | Latched | Drawn | Published | Cleaned | Active | Refresh | Scanned

record cr_sys =
  cr :: CR
  pcs :: "nat \<Rightarrow> tx_pc"
  committed :: "nat \<Rightarrow> (TXID \<times> TXID) list"

definition mutex_free :: "cr_sys \<Rightarrow> bool" where
  "mutex_free s \<longleftrightarrow> (\<forall>w < workers_count (cr s). pcs s w \<noteq> Scanned)"

definition goto :: "nat \<Rightarrow> tx_pc \<Rightarrow> CR \<Rightarrow> cr_sys \<Rightarrow> cr_sys" where
  "goto w pc c s = s\<lparr>cr := c, pcs := (pcs s)(w := pc)\<rparr>"

text \<open>
  The workers run transactions at snapshot isolation or above.  The timestamps stay below the
  flag bits.  A version is asked for by the start timestamp of the transaction that wrote it.
\<close>

inductive cr_step :: "flags \<Rightarrow> cr_sys \<Rightarrow> cr_sys \<Rightarrow> bool" for fl where
  latch: "w < workers_count (cr s) \<Longrightarrow> pcs s w = Idle \<Longrightarrow> level = SNAPSHOT_ISOLATION \<or> level = SERIALIZABLE \<Longrightarrow>
    cr_step fl s (goto w Latched (start_latch w (start_init w mode level (cr s))) s)"
| draw: "w < workers_count (cr s) \<Longrightarrow> pcs s w = Latched \<Longrightarrow> global_clock (cr s) < 2 ^ 61 - 1 \<Longrightarrow>
    cr_step fl s (goto w Drawn (start_draw w (cr s)) s)"
| publish: "w < workers_count (cr s) \<Longrightarrow> pcs s w = Drawn \<Longrightarrow>
    cr_step fl s (goto w Published (start_publish fl w (cr s)) s)"
| clean: "w < workers_count (cr s) \<Longrightarrow> pcs s w = Published \<Longrightarrow> start_clean w (cr s) = Some c \<Longrightarrow>
    cr_step fl s (goto w Cleaned c s)"
| load_lwm: "w < workers_count (cr s) \<Longrightarrow> pcs s w = Cleaned \<Longrightarrow>
    cr_step fl s (goto w Active (start_lwm w (cr s)) s)"
| mark_write: "w < workers_count (cr s) \<Longrightarrow> pcs s w = Active \<Longrightarrow>
    cr_step fl s (s\<lparr>cr := set_tx w (markAsWrite (tx_of (cr s) w)) (cr s)\<rparr>)"
| look: "w < workers_count (cr s) \<Longrightarrow> pcs s w = Active \<Longrightarrow> v < workers_count (cr s) \<Longrightarrow>
    cr_step fl s (s\<lparr>cr := snd (isVisibleForMe w v ts to_write (cr s))\<rparr>)"
| commit: "w < workers_count (cr s) \<Longrightarrow> pcs s w = Active \<Longrightarrow> global_clock (cr s) < 2 ^ 61 - 1 \<Longrightarrow>
    commitTX w (cr s) = Some c \<Longrightarrow>
    cr_step fl s ((goto w Refresh c s)\<lparr>committed :=
      (if has_wrote (tx_of (cr s) w)
       then (committed s)(w := committed s w @ [(global_clock (cr s), start_ts (tx_of (cr s) w))]) else committed s)\<rparr>)"
| scan: "w < workers_count (cr s) \<Longrightarrow> pcs s w = Refresh \<Longrightarrow> FLAGS_todo fl \<Longrightarrow> mutex_free s \<Longrightarrow>
    refresh_scan w (cr s) = Some c \<Longrightarrow> cr_step fl s (goto w Scanned c s)"
| no_refresh: "w < workers_count (cr s) \<Longrightarrow> pcs s w = Refresh \<Longrightarrow> cr_step fl s (goto w Idle (cr s) s)"
| refresh: "w < workers_count (cr s) \<Longrightarrow> pcs s w = Scanned \<Longrightarrow>
    cr_step fl s (goto w Idle (refresh_lwm fl (cr s)) s)"

definition Transaction_new :: Transaction where
  "Transaction_new = \<lparr>start_ts = 0, commit_ts = 0, current_tx_mode = OLTP, current_tx_isolation_level = SNAPSHOT_ISOLATION,
     has_wrote = False\<rparr>"

definition ConcurrencyControl_new :: "nat \<Rightarrow> ConcurrencyControl" where
  "ConcurrencyControl_new n =
     \<lparr>local_lwm_latch = 0, oltp_lwm_receiver = 0, all_lwm_receiver = 0, local_latest_write_tx = 0,
      local_latest_lwm_for_tx = 0, local_global_all_lwm_cache = 0, local_snapshot_cache = (\<lambda>_. 0),
      local_snapshot_cache_ts = (\<lambda>_. 0), local_workers_start_ts = (\<lambda>_. 0), commit_tree = CommitTree_new n\<rparr>"

definition CR_new :: "nat \<Rightarrow> CR" where
  "CR_new n =
     \<lparr>global_clock = WORKERS_INCREMENT, global_workers_current_snapshot = (\<lambda>_. 0), global_oldest_oltp_start_ts = 0,
      global_oltp_lwm = 0, global_oldest_all_start_ts = 0, global_all_lwm = 0, global_newest_olap_start_ts = 0,
      workers_count = n,
      all_workers = (\<lambda>_. \<lparr>wk_cc = ConcurrencyControl_new n, active_tx = Transaction_new\<rparr>)\<rparr>"

definition cr_init :: "cr_sys \<Rightarrow> bool" where
  "cr_init s \<longleftrightarrow> (\<exists>n. s = \<lparr>cr = CR_new n, pcs = (\<lambda>_. Idle), committed = (\<lambda>_. [])\<rparr>)"


section \<open>Flag bits\<close>

lemma bit_flag_masks [bit_simps]:
  "bit LATCH_BIT n \<longleftrightarrow> n = 63" "bit RC_BIT n \<longleftrightarrow> n = 62" "bit OLAP_BIT n \<longleftrightarrow> n = 61" "bit MSB n \<longleftrightarrow> n = 63"
  unfolding LATCH_BIT_def RC_BIT_def OLAP_BIT_def MSB_def bit_push_bit_iff bit_1_iff by auto

lemma bit_clean_masks [bit_simps]: "bit CLEAN_BITS_MASK n \<longleftrightarrow> n < 61" "bit MSB_MASK n \<longleftrightarrow> n < 63"
  by (auto simp: CLEAN_BITS_MASK_def MSB_MASK_def bit_simps)

lemma ts_fits: "x < 2 ^ 61 \<Longrightarrow> fits 61 (x :: u64)"
  by (simp add: fits_iff_less)

lemma ts_flags:
  fixes x :: u64
  assumes "x < 2 ^ 61"
  shows "x AND CLEAN_BITS_MASK = x" "(x OR LATCH_BIT) AND CLEAN_BITS_MASK = x" "(x OR OLAP_BIT) AND CLEAN_BITS_MASK = x"
    "x AND LATCH_BIT = 0" "(x OR LATCH_BIT) AND LATCH_BIT \<noteq> 0" "(x OR OLAP_BIT) AND LATCH_BIT = 0"
    "x AND RC_BIT = 0" "(x OR LATCH_BIT) AND RC_BIT = 0" "(x OR OLAP_BIT) AND RC_BIT = 0"
    "x AND MSB = 0" "x AND MSB_MASK = x"
proof -
  have b: "bit x n \<Longrightarrow> n < 61" for n using ts_fits [OF assms] by (rule fits_bitD)
  show "x AND CLEAN_BITS_MASK = x" "(x OR LATCH_BIT) AND CLEAN_BITS_MASK = x" "(x OR OLAP_BIT) AND CLEAN_BITS_MASK = x"
    "x AND LATCH_BIT = 0" "(x OR OLAP_BIT) AND LATCH_BIT = 0"
    "x AND RC_BIT = 0" "(x OR LATCH_BIT) AND RC_BIT = 0" "(x OR OLAP_BIT) AND RC_BIT = 0" "x AND MSB = 0" "x AND MSB_MASK = x"
    by (rule bit_word_eqI; auto simp: bit_simps dest: b)+
  have "bit ((x OR LATCH_BIT) AND LATCH_BIT) 63" by (simp add: bit_simps)
  then show "(x OR LATCH_BIT) AND LATCH_BIT \<noteq> 0" by auto
qed

section \<open>Histories\<close>

definition lcb :: "TXID \<Rightarrow> (TXID \<times> TXID) list \<Rightarrow> TXID" where
  "lcb ts xs = (case LCBUnsafe ts xs of None \<Rightarrow> 0 | Some v \<Rightarrow> snd v)"

lemma LCB_lcb: "LCB ts t = lcb ts (ct_array t)"
  by (simp add: LCB_def lcb_def)

text \<open>The transactions of a worker follow each other: the next one starts after the commit.\<close>

definition hist_ok :: "u64 \<Rightarrow> (TXID \<times> TXID) list \<Rightarrow> bool" where
  "hist_ok K H \<longleftrightarrow> (\<forall>p \<in> set H. 0 < snd p \<and> snd p < fst p \<and> fst p < K) \<and> sorted_wrt (\<lambda>p q. fst p < snd q) H"

lemma hist_ok_sorted: "hist_ok K H \<Longrightarrow> tree_sorted H"
  unfolding hist_ok_def tree_sorted_def by (elim conjE sorted_wrt_mono_rel [rotated]) (meson order_less_trans)

lemma hist_ok_order:
  assumes "hist_ok K H" "p \<in> set H" "q \<in> set H"
  shows "fst p < fst q \<longleftrightarrow> snd p < snd q"
proof -
  have "p = q \<or> fst p < snd q \<or> fst q < snd p"
    using assms unfolding hist_ok_def by (metis in_set_conv_nth linorder_neqE_nat sorted_wrt_nth_less)
  moreover have "snd p < fst p" "snd q < fst q" using assms by (auto simp: hist_ok_def)
  ultimately show ?thesis by (auto dest: order_less_trans)
qed

lemma hist_ok_append: "hist_ok K H \<Longrightarrow> \<forall>p \<in> set H. fst p < s \<Longrightarrow> 0 < s \<Longrightarrow> s < K \<Longrightarrow> K < K' \<Longrightarrow> hist_ok K' (H @ [(K, s)])"
  by (auto simp: hist_ok_def sorted_wrt_append)

lemma hist_ok_mono: "hist_ok K H \<Longrightarrow> K \<le> K' \<Longrightarrow> hist_ok K' H"
  by (auto simp: hist_ok_def)

lemma LCBUnsafe_append: "ts \<le> c \<Longrightarrow> LCBUnsafe ts (xs @ [(c, s)]) = LCBUnsafe ts xs"
proof -
  assume "ts \<le> c"
  then have "lower_bound ts (xs @ [(c, s)]) = lower_bound ts xs"
    by (induction xs) (auto simp: lower_bound_def)
  moreover have "lower_bound ts xs \<le> length xs" unfolding lower_bound_def by (rule length_takeWhile_le)
  ultimately show ?thesis by (auto simp: LCBUnsafe_def Let_def nth_append)
qed

lemma LCBUnsafe_all: "xs \<noteq> [] \<Longrightarrow> \<forall>p \<in> set xs. fst p < ts \<Longrightarrow> LCBUnsafe ts xs = Some (last xs)"
  by (simp add: LCBUnsafe_def lower_bound_def last_conv_nth takeWhile_eq_all_conv [THEN iffD2])

lemma lcb_append: "ts \<le> c \<Longrightarrow> lcb ts (xs @ [(c, s)]) = lcb ts xs"
  by (simp add: lcb_def LCBUnsafe_append)

text \<open>The last commit before a snapshot decides which transactions of the worker it sees.\<close>

lemma lcb_visible:
  assumes h: "hist_ok K H" and s: "0 < s" "s \<in> snd ` set H \<or> (\<forall>p \<in> set H. snd p < s)"
  shows "s \<le> lcb t H \<longleftrightarrow> (\<exists>c. (c, s) \<in> set H \<and> c < t)"
proof (cases "LCBUnsafe t H")
  case None
  then show ?thesis using LCBUnsafe_None [OF hist_ok_sorted [OF h] None] s(1) by (fastforce simp: lcb_def)
next
  case (Some p)
  then have p: "p \<in> set H" "fst p < t" "\<And>q. q \<in> set H \<Longrightarrow> fst q < t \<Longrightarrow> fst q \<le> fst p" "lcb t H = snd p"
    using LCBUnsafe_Some [OF hist_ok_sorted [OF h] Some] by (auto simp: last_before_def lcb_def)
  show ?thesis
  proof
    assume le: "s \<le> lcb t H"
    then obtain q where q: "q \<in> set H" "s = snd q" using s(2) p(1,4) by fastforce
    then have "fst q \<le> fst p" using le p(1,4) hist_ok_order [OF h p(1) q(1)] by (auto simp: not_less [symmetric])
    then show "\<exists>c. (c, s) \<in> set H \<and> c < t" using q p(2) by (intro exI [of _ "fst q"]) (auto dest: order_le_less_trans)
  next
    assume "\<exists>c. (c, s) \<in> set H \<and> c < t"
    then obtain c where c: "(c, s) \<in> set H" "c < t" by blast
    then show "s \<le> lcb t H" using p(3) [OF c(1)] hist_ok_order [OF h p(1) c(1)] p(4) by (auto simp: not_less [symmetric])
  qed
qed

lemma lcb_geI:
  assumes h: "hist_ok K H" and p: "p \<in> set H" "fst p < t"
  shows "snd p \<le> lcb t H"
proof -
  have "0 < snd p" using h p(1) by (simp add: hist_ok_def)
  moreover have "(fst p, snd p) \<in> set H" using p(1) by simp
  ultimately show ?thesis using lcb_visible [OF h, of "snd p" t] p by blast
qed

lemma lcb_mono:
  assumes h: "hist_ok K H" and t: "t \<le> t'"
  shows "lcb t H \<le> lcb t' H"
proof (cases "LCBUnsafe t H")
  case (Some p)
  then have p: "p \<in> set H" "fst p < t"
    using LCBUnsafe_Some [OF hist_ok_sorted [OF h] Some] by (auto simp: last_before_def)
  then have "snd p \<le> lcb t' H" using t by (intro lcb_geI [OF h]) auto
  then show ?thesis using Some by (simp add: lcb_def)
qed (simp add: lcb_def)

lemma lcb_subset:
  assumes h: "hist_ok K H" and xs: "tree_sorted xs" "set xs \<subseteq> set H"
  shows "lcb t xs \<le> lcb t H"
proof (cases "LCBUnsafe t xs")
  case (Some p)
  then have p: "p \<in> set H" "fst p < t" using LCBUnsafe_Some [OF xs(1) Some] xs(2) by (auto simp: last_before_def)
  then have "snd p \<le> lcb t H" by (rule lcb_geI [OF h])
  then show ?thesis using Some by (simp add: lcb_def)
qed (simp add: lcb_def)

end
