(* ===== verification/Snapshot_Isolation.thy ===== *)
theory Snapshot_Isolation
  imports Concurrency_Control
begin

text \<open>
  The invariant of the concurrency control and what it gives: in every interleaving of the
  workers, a transaction sees exactly the transactions that committed before it started, whatever
  the commit trees forgot and whatever the caches and the low watermark answer.
\<close>

section \<open>The invariant\<close>

fun running :: "tx_pc \<Rightarrow> bool" where
  "running Drawn \<longleftrightarrow> True"
| "running Published \<longleftrightarrow> True"
| "running Cleaned \<longleftrightarrow> True"
| "running Active \<longleftrightarrow> True"
| "running _ \<longleftrightarrow> False"

fun latched :: "tx_pc \<Rightarrow> bool" where
  "latched Latched \<longleftrightarrow> True"
| "latched Drawn \<longleftrightarrow> True"
| "latched _ \<longleftrightarrow> False"

text \<open>Start timestamps and histories.\<close>

definition times_ok :: "nat \<Rightarrow> u64 \<Rightarrow> (nat \<Rightarrow> tx_pc) \<Rightarrow> (nat \<Rightarrow> TXID) \<Rightarrow> (nat \<Rightarrow> (TXID \<times> TXID) list) \<Rightarrow> bool" where
  "times_ok n K pc st H \<longleftrightarrow> 0 < K \<and> K < 2 ^ 61 \<and>
     (\<forall>w < n. hist_ok K (H w) \<and> st w < K \<and> (running (pc w) \<longrightarrow> 0 < st w \<and> (\<forall>p \<in> set (H w). fst p < st w)))"

text \<open>Published snapshots.\<close>

definition snaps_ok :: "nat \<Rightarrow> (nat \<Rightarrow> tx_pc) \<Rightarrow> (nat \<Rightarrow> TXID) \<Rightarrow> (nat \<Rightarrow> u64) \<Rightarrow> bool" where
  "snaps_ok n pc st snap \<longleftrightarrow>
     (\<forall>w < n. snap w AND RC_BIT = 0 \<and>
        (if latched (pc w) then snap w AND LATCH_BIT \<noteq> 0 \<and> snap w AND CLEAN_BITS_MASK \<le> st w
         else snap w AND LATCH_BIT = 0 \<and> snap w AND CLEAN_BITS_MASK = st w))"

text \<open>Commit trees: entries of the history, enough of them for every running transaction.\<close>

definition trees_ok ::
  "nat \<Rightarrow> (nat \<Rightarrow> tx_pc) \<Rightarrow> (nat \<Rightarrow> TXID) \<Rightarrow> (nat \<Rightarrow> (TXID \<times> TXID) list) \<Rightarrow> (nat \<Rightarrow> CommitTree) \<Rightarrow> bool" where
  "trees_ok n pc st H T \<longleftrightarrow>
     (\<forall>w < n. ct_capacity (T w) = n + 1 \<and> tree_sorted (ct_array (T w)) \<and> set (ct_array (T w)) \<subseteq> set (H w) \<and>
        length (ct_array (T w)) \<le> n + 1 \<and> (pc w = Cleaned \<or> pc w = Active \<longrightarrow> length (ct_array (T w)) < n + 1) \<and>
        (\<forall>i < n. i \<noteq> w \<longrightarrow> H w \<noteq> [] \<longrightarrow> last (H w) \<in> set (ct_array (T w))) \<and>
        (\<forall>i < n. i \<noteq> w \<longrightarrow> running (pc i) \<longrightarrow> LCBUnsafe (st i) (ct_array (T w)) = LCBUnsafe (st i) (H w)))"

text \<open>The snapshot caches of the workers.\<close>

definition cache_ok :: "TXID \<Rightarrow> (TXID \<times> TXID) list \<Rightarrow> TXID \<Rightarrow> TXID \<Rightarrow> bool" where
  "cache_ok st H v t \<longleftrightarrow> v = 0 \<and> t = 0 \<or> 0 < t \<and> t \<le> st \<and> v = lcb t H"

definition caches_ok ::
  "nat \<Rightarrow> (nat \<Rightarrow> TXID) \<Rightarrow> (nat \<Rightarrow> (TXID \<times> TXID) list) \<Rightarrow> (nat \<Rightarrow> ConcurrencyControl) \<Rightarrow> bool" where
  "caches_ok n st H C \<longleftrightarrow>
     (\<forall>i < n. \<forall>w < n. cache_ok (st i) (H w) (local_snapshot_cache (C i) w) (local_snapshot_cache_ts (C i) w))"

text \<open>\<open>L\<close> is a watermark for the transactions that start at \<open>O\<close> or later.\<close>

definition watermark :: "nat \<Rightarrow> (nat \<Rightarrow> (TXID \<times> TXID) list) \<Rightarrow> TXID \<Rightarrow> TXID \<Rightarrow> bool" where
  "watermark n H ts L \<longleftrightarrow> (\<forall>w < n. L \<le> lcb ts (H w))"

definition old_enough :: "nat \<Rightarrow> u64 \<Rightarrow> (nat \<Rightarrow> tx_pc) \<Rightarrow> (nat \<Rightarrow> TXID) \<Rightarrow> TXID \<Rightarrow> bool" where
  "old_enough n K pc st ts \<longleftrightarrow> ts \<le> K \<and> (\<forall>i < n. running (pc i) \<longrightarrow> ts \<le> st i)"

definition lwm_ok ::
  "nat \<Rightarrow> u64 \<Rightarrow> (nat \<Rightarrow> tx_pc) \<Rightarrow> (nat \<Rightarrow> TXID) \<Rightarrow> (nat \<Rightarrow> (TXID \<times> TXID) list) \<Rightarrow> TXID \<Rightarrow> TXID \<Rightarrow> (nat \<Rightarrow> ConcurrencyControl) \<Rightarrow> bool" where
  "lwm_ok n K pc st H L oldest C \<longleftrightarrow>
     (\<exists>ts. old_enough n K pc st ts \<and> watermark n H ts L) \<and>
     (\<forall>i < n. pc i = Scanned \<longrightarrow> old_enough n K pc st oldest) \<and>
     (\<forall>i < n. pc i = Active \<longrightarrow> (\<exists>ts \<le> st i. watermark n H ts (local_global_all_lwm_cache (C i))))"

definition levels_ok :: "nat \<Rightarrow> (nat \<Rightarrow> tx_pc) \<Rightarrow> (nat \<Rightarrow> Transaction) \<Rightarrow> bool" where
  "levels_ok n pc tx \<longleftrightarrow> (\<forall>i < n. pc i \<noteq> Idle \<longrightarrow> atLeastSI (tx i))"

abbreviation st_of :: "CR \<Rightarrow> nat \<Rightarrow> TXID" where
  "st_of c \<equiv> \<lambda>w. start_ts (tx_of c w)"

definition cr_inv :: "cr_sys \<Rightarrow> bool" where
  "cr_inv s \<longleftrightarrow>
     (let c = cr s; n = workers_count c; K = global_clock c; pc = pcs s; st = st_of c; H = committed s
      in times_ok n K pc st H \<and> snaps_ok n pc st (global_workers_current_snapshot c) \<and>
         trees_ok n pc st H (\<lambda>w. commit_tree (cc_of c w)) \<and> caches_ok n st H (cc_of c) \<and>
         lwm_ok n K pc st H (global_all_lwm c) (global_oldest_all_start_ts c) (cc_of c) \<and> levels_ok n pc (tx_of c))"

lemmas cr_pieces = times_ok_def snaps_ok_def trees_ok_def caches_ok_def lwm_ok_def levels_ok_def

section \<open>Projections\<close>

lemma set_tx_simps [simp]:
  "tx_of (set_tx w tx c) v = (if v = w then tx else tx_of c v)" "cc_of (set_tx w tx c) v = cc_of c v"
  "global_clock (set_tx w tx c) = global_clock c" "workers_count (set_tx w tx c) = workers_count c"
  "global_workers_current_snapshot (set_tx w tx c) = global_workers_current_snapshot c"
  "global_all_lwm (set_tx w tx c) = global_all_lwm c" "global_oldest_all_start_ts (set_tx w tx c) = global_oldest_all_start_ts c"
  by (simp_all add: set_tx_def)

lemma set_cc_simps [simp]:
  "tx_of (set_cc w cc c) v = tx_of c v" "cc_of (set_cc w cc c) v = (if v = w then cc else cc_of c v)"
  "global_clock (set_cc w cc c) = global_clock c" "workers_count (set_cc w cc c) = workers_count c"
  "global_workers_current_snapshot (set_cc w cc c) = global_workers_current_snapshot c"
  "global_all_lwm (set_cc w cc c) = global_all_lwm c" "global_oldest_all_start_ts (set_cc w cc c) = global_oldest_all_start_ts c"
  by (simp_all add: set_cc_def)

lemma set_snapshot_simps [simp]:
  "all_workers (set_snapshot w x c) = all_workers c"
  "global_clock (set_snapshot w x c) = global_clock c" "workers_count (set_snapshot w x c) = workers_count c"
  "global_workers_current_snapshot (set_snapshot w x c) = (global_workers_current_snapshot c)(w := x)"
  "global_all_lwm (set_snapshot w x c) = global_all_lwm c"
  "global_oldest_all_start_ts (set_snapshot w x c) = global_oldest_all_start_ts c"
  by (simp_all add: set_snapshot_def)

lemma goto_simps [simp]:
  "cr (goto w pc c s) = c" "pcs (goto w pc c s) = (pcs s)(w := pc)" "committed (goto w pc c s) = committed s"
  by (simp_all add: goto_def)

section \<open>Steps that keep it\<close>

lemma cr_inv_latch:
  assumes inv: "cr_inv s" and w: "pcs s w = Idle" "w < workers_count (cr s)" and l: "level = SNAPSHOT_ISOLATION \<or> level = SERIALIZABLE"
  shows "cr_inv (goto w Latched (start_latch w (start_init w mode level (cr s))) s)"
proof -
  have "st_of (cr s) w < 2 ^ 61" using inv w by (auto simp: cr_inv_def Let_def times_ok_def)
  note fl = ts_flags [OF this]
  show ?thesis
    using inv w l fl unfolding cr_inv_def Let_def
    by (auto simp: start_latch_def start_init_def cr_pieces old_enough_def atLeastSI_def)
qed

lemma cr_inv_publish:
  assumes inv: "cr_inv s" and w: "pcs s w = Drawn" "w < workers_count (cr s)"
  shows "cr_inv (goto w Published (start_publish fl w (cr s)) s)"
proof -
  have "st_of (cr s) w < 2 ^ 61" using inv w by (auto simp: cr_inv_def Let_def times_ok_def)
  note fl = ts_flags [OF this]
  show ?thesis
    using inv w fl unfolding cr_inv_def Let_def
    by (auto simp: start_publish_def cr_pieces old_enough_def)
qed

lemma cr_inv_load_lwm:
  assumes inv: "cr_inv s" and w: "pcs s w = Cleaned" "w < workers_count (cr s)"
  shows "cr_inv (goto w Active (start_lwm w (cr s)) s)"
  using inv w unfolding cr_inv_def Let_def
  by (auto simp: start_lwm_def cr_pieces old_enough_def)

lemma cr_inv_write:
  assumes inv: "cr_inv s" and w: "pcs s w = Active" "w < workers_count (cr s)"
  shows "cr_inv (s\<lparr>cr := set_tx w (markAsWrite (tx_of (cr s) w)) (cr s)\<rparr>)"
  using inv w unfolding cr_inv_def Let_def
  by (auto simp: markAsWrite_def cr_pieces old_enough_def atLeastSI_def)

lemma cr_inv_no_refresh:
  assumes inv: "cr_inv s" and w: "pcs s w = Refresh" "w < workers_count (cr s)"
  shows "cr_inv (goto w Idle (cr s) s)"
  using inv w unfolding cr_inv_def Let_def
  by (auto simp: cr_pieces old_enough_def)


lemma clock_Suc:
  fixes K :: u64
  assumes "K < 2 ^ 61 - 1"
  shows "K < K + 1" "K + 1 < 2 ^ 61" "x < K \<Longrightarrow> x < K + 1"
proof -
  have "unat K + 1 < 2 ^ 61" using assms by (simp add: word_less_nat_alt)
  then have "unat (K + 1) = unat K + 1" by (subst unat_add_lem [THEN iffD1]) simp_all
  then show "K < K + 1" "K + 1 < 2 ^ 61" using \<open>unat K + 1 < 2 ^ 61\<close> by (simp_all add: word_less_nat_alt)
  then show "x < K \<Longrightarrow> x < K + 1" by (metis order_less_trans)
qed

lemma cache_ok_later: "cache_ok st H v t \<Longrightarrow> st \<le> st' \<Longrightarrow> cache_ok st' H v t"
  by (auto simp: cache_ok_def)

lemma cache_ok_append: "cache_ok st H v t \<Longrightarrow> st \<le> K \<Longrightarrow> cache_ok st (H @ [(K, s)]) v t"
  unfolding cache_ok_def using lcb_append [of t K H s] by auto

lemma hist_ok_less: "hist_ok K H \<Longrightarrow> p \<in> set H \<Longrightarrow> fst p < K"
  by (simp add: hist_ok_def)

lemma LCBUnsafe_newest:
  assumes "hist_ok K H" "tree_sorted xs" "set xs \<subseteq> set H" "H \<noteq> [] \<Longrightarrow> last H \<in> set xs" "K \<le> ts"
  shows "LCBUnsafe ts xs = LCBUnsafe ts H"
proof (cases "H = []")
  case False
  have "\<forall>p \<in> set H. fst p < ts" using assms(1,5) by (auto simp: hist_ok_def)
  then have "LCBUnsafe ts H = Some (last H)" using False by (rule LCBUnsafe_all [rotated])
  then show ?thesis using assms(4) [OF False] by (intro LCBUnsafe_subset [OF hist_ok_sorted [OF assms(1)] assms(2,3)]) simp
qed (use assms(3) in simp)

lemma cr_inv_draw:
  assumes inv: "cr_inv s" and w: "pcs s w = Latched" "w < workers_count (cr s)" and K: "global_clock (cr s) < 2 ^ 61 - 1"
  shows "cr_inv (goto w Drawn (start_draw w (cr s)) s)"
proof -
  let ?c = "cr s" and ?n = "workers_count (cr s)" and ?K = "global_clock (cr s)" and ?H = "committed s"
  let ?st = "(st_of ?c)(w := ?K)" and ?pc = "(pcs s)(w := Drawn)" and ?T = "\<lambda>v. commit_tree (cc_of ?c v)"
  note K1 = clock_Suc [OF K]
  have i: "times_ok ?n ?K (pcs s) (st_of ?c) ?H" "snaps_ok ?n (pcs s) (st_of ?c) (global_workers_current_snapshot ?c)"
    "trees_ok ?n (pcs s) (st_of ?c) ?H ?T" "caches_ok ?n (st_of ?c) ?H (cc_of ?c)"
    "lwm_ok ?n ?K (pcs s) (st_of ?c) ?H (global_all_lwm ?c) (global_oldest_all_start_ts ?c) (cc_of ?c)"
    "levels_ok ?n (pcs s) (tx_of ?c)"
    using inv by (auto simp: cr_inv_def Let_def)
  have st: "st_of ?c v < ?K" if "v < ?n" for v using i(1) that by (simp add: times_ok_def)
  have "times_ok ?n (?K + 1) ?pc ?st ?H"
    using i(1) K1 hist_ok_less [of ?K "?H w"] w(2) by (auto simp: times_ok_def intro: hist_ok_mono less_imp_le)
  moreover have "snaps_ok ?n ?pc ?st (global_workers_current_snapshot ?c)"
  proof -
    have "global_workers_current_snapshot ?c w AND CLEAN_BITS_MASK \<le> ?K"
      using i(2) w st [OF w(2)] unfolding snaps_ok_def by (metis latched.simps(1) less_imp_le order_trans)
    then show ?thesis using i(2) w by (auto simp: snaps_ok_def)
  qed
  moreover have "LCBUnsafe ?K (ct_array (?T v)) = LCBUnsafe ?K (?H v)" if "v < ?n" "w \<noteq> v" for v
    using i(1,3) that w(2) by (intro LCBUnsafe_newest [of ?K]) (auto simp: times_ok_def trees_ok_def)
  then have "trees_ok ?n ?pc ?st ?H ?T"
    using i(3) w by (auto simp: trees_ok_def)
  moreover have "caches_ok ?n ?st ?H (cc_of ?c)"
    using i(4) cache_ok_later [OF _ less_imp_le [OF st [OF w(2)]]] w(2) by (auto simp: caches_ok_def)
  moreover have "lwm_ok ?n (?K + 1) ?pc ?st ?H (global_all_lwm ?c) (global_oldest_all_start_ts ?c) (cc_of ?c)"
  proof -
    have "old_enough ?n (?K + 1) ?pc ?st ts" if "old_enough ?n ?K (pcs s) (st_of ?c) ts" for ts
      using that K1(1) by (auto simp: old_enough_def intro: order_trans less_imp_le)
    then show ?thesis using i(5) w unfolding lwm_ok_def by (auto split: if_splits)
  qed
  moreover have "levels_ok ?n ?pc (\<lambda>v. if v = w then (tx_of ?c w)\<lparr>start_ts := ?K\<rparr> else tx_of ?c v)"
    using i(6) w by (auto simp: levels_ok_def atLeastSI_def)
  moreover have "st_of (start_draw w ?c) = ?st" by (auto simp: start_draw_def fun_eq_iff)
  ultimately show ?thesis by (simp add: cr_inv_def Let_def start_draw_def)
qed

lemma cr_inv_clean:
  assumes inv: "cr_inv s" and w: "pcs s w = Published" "w < workers_count (cr s)" and c: "start_clean w (cr s) = Some c"
  shows "cr_inv (goto w Cleaned c s)"
proof -
  let ?n = "workers_count (cr s)" and ?snap = "global_workers_current_snapshot (cr s)"
  let ?t = "commit_tree (cc_of (cr s) w)" and ?st = "st_of (cr s)"
  obtain t where t: "cleanIfNecessary w ?n ?snap ?t = Some t" "c = set_cc w ((cc_of (cr s) w)\<lparr>commit_tree := t\<rparr>) (cr s)"
    using c by (auto simp: start_clean_def)
  have i: "snaps_ok ?n (pcs s) ?st ?snap" "trees_ok ?n (pcs s) ?st (committed s) (\<lambda>v. commit_tree (cc_of (cr s) v))"
    "times_ok ?n (global_clock (cr s)) (pcs s) ?st (committed s)"
    using inv by (auto simp: cr_inv_def Let_def)
  have pre: "tree_sorted (ct_array ?t)" "ct_capacity ?t = ?n + 1" "length (ct_array ?t) \<le> ?n + 1" "set (ct_array ?t) \<subseteq> set (committed s w)"
    using i(2) w(2) by (auto simp: trees_ok_def)
  note p = cleanIfNecessary_props [OF t(1) pre(1,2) w(2) pre(3)]
  have lst: "last (committed s w) \<in> set (ct_array t)" if "v < ?n" "v \<noteq> w" "committed s w \<noteq> []" for v
  proof -
    have l: "last (committed s w) \<in> set (ct_array ?t)" using i(2) w(2) that by (auto simp: trees_ok_def)
    then have ne: "ct_array ?t \<noteq> []" by auto
    have h: "hist_ok (global_clock (cr s)) (committed s w)" using i(3) w(2) by (simp add: times_ok_def)
    then have b: "\<forall>q \<in> set (committed s w). fst q < global_clock (cr s)" by (auto simp: hist_ok_def)
    then have "LCBUnsafe (global_clock (cr s)) (ct_array ?t) = Some (last (ct_array ?t))"
      using pre(4) ne by (intro LCBUnsafe_all) auto
    moreover have "LCBUnsafe (global_clock (cr s)) (ct_array ?t) = Some (last (committed s w))"
      using LCBUnsafe_newest [OF h pre(1,4) l order_refl] LCBUnsafe_all [OF that(3) b] by simp
    ultimately show ?thesis using p(5) [OF that(1,2) ne] by simp
  qed
  have lcb: "LCBUnsafe (?st v) (ct_array t) = LCBUnsafe (?st v) (committed s w)" if "v < ?n" "v \<noteq> w" "running (pcs s v)" for v
  proof -
    have "LCBUnsafe (?st v) (ct_array ?t) = LCBUnsafe (?st v) (committed s w)" using i(2) w(2) that by (auto simp: trees_ok_def)
    moreover have "ct_array t = ct_array ?t \<or> LCBUnsafe (?st v) (ct_array t) = LCBUnsafe (?st v) (ct_array ?t)"
    proof -
      have "?snap v AND LATCH_BIT = 0 \<longrightarrow> ?snap v AND CLEAN_BITS_MASK = ?st v" using i(1) that(1) unfolding snaps_ok_def by metis
      moreover have "?st v \<noteq> 0" using i(3) that(1,3) by (auto simp: times_ok_def)
      ultimately show ?thesis using p(6) [OF that(1,2)] by metis
    qed
    ultimately show ?thesis by auto
  qed
  have "trees_ok ?n ((pcs s)(w := Cleaned)) ?st (committed s) (\<lambda>v. commit_tree (cc_of c v))"
    using i(2) w lst lcb p(1,2,4) order_trans [OF p(3) pre(4)] by (auto simp: trees_ok_def t(2))
  then show ?thesis
    using inv w unfolding cr_inv_def Let_def t(2)
    by (auto simp: times_ok_def snaps_ok_def caches_ok_def lwm_ok_def levels_ok_def old_enough_def)
qed


lemma cr_inv_commit:
  assumes inv: "cr_inv s" and w: "pcs s w = Active" "w < workers_count (cr s)" and K: "global_clock (cr s) < 2 ^ 61 - 1"
    and c: "commitTX w (cr s) = Some c"
  shows "cr_inv ((goto w Refresh c s)\<lparr>committed :=
      (if has_wrote (tx_of (cr s) w)
       then (committed s)(w := committed s w @ [(global_clock (cr s), start_ts (tx_of (cr s) w))]) else committed s)\<rparr>)"
proof (cases "has_wrote (tx_of (cr s) w)")
  case False
  then have "c = cr s" using c by (simp add: commitTX_def)
  then show ?thesis
    using inv w False unfolding cr_inv_def Let_def by (auto simp: cr_pieces old_enough_def)
next
  case True
  let ?n = "workers_count (cr s)" and ?K = "global_clock (cr s)" and ?st = "st_of (cr s)" and ?H = "committed s"
  let ?t = "commit_tree (cc_of (cr s) w)" and ?p = "(?K, ?st w)"
  let ?H' = "?H(w := ?H w @ [?p])" and ?pc = "(pcs s)(w := Refresh)"
  let ?T = "\<lambda>v. commit_tree (cc_of (cr s) v)"
  let ?T' = "?T(w := ?t\<lparr>ct_array := ct_array ?t @ [?p]\<rparr>)"
  note K1 = clock_Suc [OF K]
  have i: "times_ok ?n ?K (pcs s) ?st ?H" "snaps_ok ?n (pcs s) ?st (global_workers_current_snapshot (cr s))"
    "trees_ok ?n (pcs s) ?st ?H ?T" "caches_ok ?n ?st ?H (cc_of (cr s))"
    "lwm_ok ?n ?K (pcs s) ?st ?H (global_all_lwm (cr s)) (global_oldest_all_start_ts (cr s)) (cc_of (cr s))"
    "levels_ok ?n (pcs s) (tx_of (cr s))"
    using inv by (auto simp: cr_inv_def Let_def)
  have st: "?st v < ?K" if "v < ?n" for v using i(1) that by (simp add: times_ok_def)
  have h: "hist_ok ?K (?H w)" "\<forall>p \<in> set (?H w). fst p < ?st w" "0 < ?st w" using i(1) w by (auto simp: times_ok_def)
  have t: "tree_sorted (ct_array ?t)" "set (ct_array ?t) \<subseteq> set (?H w)" using i(3) w by (auto simp: trees_ok_def)
  have "times_ok ?n (?K + 1) ?pc ?st ?H'"
    using i(1) K1 hist_ok_append [OF h(1,2,3) st [OF w(2)] K1(1)] by (auto simp: times_ok_def intro: hist_ok_mono less_imp_le)
  moreover have "snaps_ok ?n ?pc ?st (global_workers_current_snapshot (cr s))"
    using i(2) w by (auto simp: snaps_ok_def)
  moreover have "tree_sorted (ct_array ?t @ [?p])"
    using t hist_ok_less [OF h(1)] by (auto simp: tree_sorted_def sorted_wrt_append)
  then have "trees_ok ?n ?pc ?st ?H' ?T'"
    using i(3) w st by (auto simp: trees_ok_def LCBUnsafe_append less_imp_le)
  moreover have "caches_ok ?n ?st ?H' (cc_of (cr s))"
    using i(4) cache_ok_append [OF _ less_imp_le [OF st]] by (auto simp: caches_ok_def)
  moreover have "lwm_ok ?n (?K + 1) ?pc ?st ?H' (global_all_lwm (cr s)) (global_oldest_all_start_ts (cr s)) (cc_of (cr s))"
  proof -
    have "old_enough ?n (?K + 1) ?pc ?st ts" if "old_enough ?n ?K (pcs s) ?st ts" for ts
      using that K1(1) by (auto simp: old_enough_def intro: order_trans less_imp_le)
    moreover have "watermark ?n ?H' ts L" if "watermark ?n ?H ts L" "ts \<le> ?K" for ts L
      using that by (simp add: watermark_def lcb_append)
    moreover have "ts \<le> ?K" if "ts \<le> ?st v" "v < ?n" for ts v using st [OF that(2)] that(1) by simp
    moreover have "ts \<le> ?K" if "old_enough ?n ?K (pcs s) ?st ts" for ts using that by (simp add: old_enough_def)
    ultimately show ?thesis using i(5) unfolding lwm_ok_def by (auto split: if_splits) metis+
  qed
  moreover have "levels_ok ?n ?pc (\<lambda>v. if v = w then (tx_of (cr s) w)\<lparr>commit_ts := ?K\<rparr> else tx_of (cr s) v)"
    using i(6) w by (auto simp: levels_ok_def atLeastSI_def)
  moreover have len: "length (ct_array ?t) < ct_capacity ?t" using i(3) w by (auto simp: trees_ok_def)
  then have c': "c = (set_tx w ((tx_of (cr s) w)\<lparr>commit_ts := ?K\<rparr>)
      (set_cc w ((cc_of (cr s) w)\<lparr>commit_tree := ?t\<lparr>ct_array := ct_array ?t @ [?p]\<rparr>, local_latest_write_tx := ?K\<rparr>) (cr s)))
      \<lparr>global_clock := ?K + 1\<rparr>"
    using c True by (simp add: commitTX_def ct_commit_def Let_def)
  moreover have "st_of c = ?st" "(\<lambda>v. commit_tree (cc_of c v)) = ?T'" unfolding c' by (auto simp: fun_eq_iff)
  moreover have "caches_ok ?n ?st ?H' (cc_of c) = caches_ok ?n ?st ?H' (cc_of (cr s))"
    "lwm_ok ?n (?K + 1) ?pc ?st ?H' L O' (cc_of c) = lwm_ok ?n (?K + 1) ?pc ?st ?H' L O' (cc_of (cr s))"
    "levels_ok ?n ?pc (tx_of c)" for L O'
    using i(6) w unfolding c' by (auto simp: caches_ok_def lwm_ok_def levels_ok_def atLeastSI_def)
  ultimately show ?thesis using True by (simp add: cr_inv_def Let_def)
qed


text \<open>Asking for visibility changes the caches only.\<close>

lemma tree_answer:
  assumes inv: "cr_inv s" and w: "running (pcs s w)" "w < workers_count (cr s)" and v: "v < workers_count (cr s)" "v \<noteq> w"
  shows "LCB (st_of (cr s) w) (commit_tree (cc_of (cr s) v)) = lcb (st_of (cr s) w) (committed s v)"
  using assms by (auto simp: cr_inv_def Let_def trees_ok_def LCB_lcb lcb_def)

lemma SI_levels:
  assumes "cr_inv s" "pcs s w = Active" "w < workers_count (cr s)"
  shows "\<not> isReadCommitted (tx_of (cr s) w)" "\<not> isReadUncommitted (tx_of (cr s) w)" "0 < st_of (cr s) w" "st_of (cr s) w < 2 ^ 61"
proof -
  have "atLeastSI (tx_of (cr s) w)" using assms by (auto simp: cr_inv_def Let_def levels_ok_def)
  then show "\<not> isReadCommitted (tx_of (cr s) w)" "\<not> isReadUncommitted (tx_of (cr s) w)"
    by (auto simp: atLeastSI_def isReadCommitted_def isReadUncommitted_def)
  show "0 < st_of (cr s) w" "st_of (cr s) w < 2 ^ 61"
    using assms by (auto simp: cr_inv_def Let_def times_ok_def dest: order_less_trans)
qed

lemma cr_inv_look:
  assumes inv: "cr_inv s" and w: "pcs s w = Active" "w < workers_count (cr s)" and v: "v < workers_count (cr s)"
  shows "cr_inv (s\<lparr>cr := snd (isVisibleForMe w v ts to_write (cr s))\<rparr>)"
proof -
  let ?c = "cr s" and ?st = "st_of (cr s) w"
  let ?c' = "set_cc w ((cc_of ?c w)\<lparr>local_snapshot_cache := (local_snapshot_cache (cc_of ?c w))(v := lcb ?st (committed s v)),
      local_snapshot_cache_ts := (local_snapshot_cache_ts (cc_of ?c w))(v := ?st)\<rparr>) ?c"
  note si = SI_levels [OF inv w]
  have "snd (isVisibleForMe w v ts to_write ?c) = ?c \<or> v \<noteq> w \<and> snd (isVisibleForMe w v ts to_write ?c) = ?c'"
    using si tree_answer [OF inv _ w(2) v] w(1) by (auto simp: isVisibleForMe_def Let_def)
  moreover have "cr_inv (s\<lparr>cr := ?c'\<rparr>)"
  proof -
    have "cache_ok ?st (committed s v) (lcb ?st (committed s v)) ?st" using si(3) by (simp add: cache_ok_def)
    then show ?thesis
      using inv w v unfolding cr_inv_def Let_def by (auto simp: cr_pieces old_enough_def)
  qed
  ultimately show ?thesis using inv by auto
qed

text \<open>The scan finds a timestamp no running transaction is older than.\<close>

lemma scan_snapshots_oldest:
  assumes "scan_snapshots my ws snap (o1, o2, o3) = Some (r1, r2, r3)"
  shows "r1 \<le> o1 \<and> (\<forall>w \<in> set ws. snap w AND RC_BIT = 0 \<longrightarrow> r1 \<le> snap w AND CLEAN_BITS_MASK)"
  using assms
proof (induction my ws snap "(o1, o2, o3)" arbitrary: o1 o2 o3 rule: scan_snapshots.induct)
  case (2 my w ws snap o1 o2 o3)
  let ?m = "snap w AND CLEAN_BITS_MASK"
  consider "snap w AND RC_BIT \<noteq> 0" "r1 \<le> o1" "\<forall>v \<in> set ws. snap v AND RC_BIT = 0 \<longrightarrow> r1 \<le> snap v AND CLEAN_BITS_MASK"
    | "r1 \<le> min ?m o1" "\<forall>v \<in> set ws. snap v AND RC_BIT = 0 \<longrightarrow> r1 \<le> snap v AND CLEAN_BITS_MASK"
    using 2 by (auto simp: Let_def split: if_splits)
  then show ?case by cases auto
qed simp

lemma cr_inv_scan:
  assumes inv: "cr_inv s" and w: "pcs s w = Refresh" "w < workers_count (cr s)" and c: "refresh_scan w (cr s) = Some c"
  shows "cr_inv (goto w Scanned c s)"
proof -
  let ?n = "workers_count (cr s)" and ?snap = "global_workers_current_snapshot (cr s)" and ?st = "st_of (cr s)"
  obtain r1 r2 r3 where r: "scan_snapshots (?st w) [0..<?n] ?snap (- 1, - 1, 0) = Some (r1, r2, r3)"
    "c = (cr s)\<lparr>global_oldest_all_start_ts := r1, global_oldest_oltp_start_ts := r2, global_newest_olap_start_ts := r3\<rparr>"
    using c by (auto simp: refresh_scan_def)
  have i: "snaps_ok ?n (pcs s) ?st ?snap" "times_ok ?n (global_clock (cr s)) (pcs s) ?st (committed s)"
    using inv by (auto simp: cr_inv_def Let_def)
  have m: "?snap v AND CLEAN_BITS_MASK \<le> ?st v" "?snap v AND RC_BIT = 0" if "v < ?n" for v
    using i(1) that unfolding snaps_ok_def by (metis order_refl)+
  have r1: "r1 \<le> ?st v" if "v < ?n" for v
    using scan_snapshots_oldest [OF r(1)] m [OF that] that by (auto intro: order_trans)
  have "?st w < global_clock (cr s)" using i(2) w(2) by (simp add: times_ok_def)
  then have "old_enough ?n (global_clock (cr s)) ((pcs s)(w := Scanned)) ?st r1"
    using r1 [OF w(2)] r1 by (auto simp: old_enough_def)
  then show ?thesis
    using inv w unfolding cr_inv_def Let_def r(2)
    by (auto simp: times_ok_def snaps_ok_def trees_ok_def caches_ok_def lwm_ok_def levels_ok_def old_enough_def)
qed


text \<open>The watermark computed from the trees is one for the histories.\<close>

definition same_core :: "CR \<Rightarrow> CR \<Rightarrow> bool" where
  "same_core c c' \<longleftrightarrow>
     workers_count c' = workers_count c \<and> global_clock c' = global_clock c \<and> (\<forall>v. tx_of c' v = tx_of c v) \<and>
     global_workers_current_snapshot c' = global_workers_current_snapshot c \<and>
     global_oldest_all_start_ts c' = global_oldest_all_start_ts c \<and> global_all_lwm c' = global_all_lwm c \<and>
     (\<forall>v. commit_tree (cc_of c' v) = commit_tree (cc_of c v) \<and>
        local_snapshot_cache (cc_of c' v) = local_snapshot_cache (cc_of c v) \<and>
        local_snapshot_cache_ts (cc_of c' v) = local_snapshot_cache_ts (cc_of c v) \<and>
        local_global_all_lwm_cache (cc_of c' v) = local_global_all_lwm_cache (cc_of c v))"

lemma lwm_worker_step:
  assumes "lwm_worker fl w (c, a, b, sk) = (c', a', b', sk')"
  shows "same_core c c'" "a' \<le> a" "\<not> sk' \<Longrightarrow> \<not> sk \<and> a' \<le> LCB (global_oldest_all_start_ts c) (commit_tree (cc_of c w))"
  using assms by (auto simp: lwm_worker_def Let_def same_core_def fun_eq_iff split: if_splits)

lemma same_core_trans: "same_core a b \<Longrightarrow> same_core b c \<Longrightarrow> same_core a c"
  by (simp add: same_core_def)

lemma lwm_fold:
  assumes "fold (lwm_worker fl) ws (c, a, b, sk) = (c', a', b', sk')"
  shows "same_core c c' \<and> a' \<le> a \<and>
    (\<not> sk' \<longrightarrow> \<not> sk \<and> (\<forall>w \<in> set ws. a' \<le> LCB (global_oldest_all_start_ts c) (commit_tree (cc_of c w))))"
  using assms
proof (induction ws arbitrary: c a b sk)
  case (Cons w ws)
  obtain c1 a1 b1 sk1 where st: "lwm_worker fl w (c, a, b, sk) = (c1, a1, b1, sk1)" by (cases "lwm_worker fl w (c, a, b, sk)")
  note one = lwm_worker_step [OF st]
  have "same_core c1 c' \<and> a' \<le> a1 \<and>
    (\<not> sk' \<longrightarrow> \<not> sk1 \<and> (\<forall>w \<in> set ws. a' \<le> LCB (global_oldest_all_start_ts c1) (commit_tree (cc_of c1 w))))"
    using Cons.IH [of c1 a1 b1 sk1] Cons.prems st by simp
  then show ?case using one same_core_trans [OF one(1)] by (auto simp: same_core_def intro: order_trans)
qed (simp add: same_core_def)

lemma cr_inv_core:
  assumes inv: "cr_inv s" and c: "same_core (cr s) c"
    and L: "L = global_all_lwm (cr s) \<or>
      (\<exists>ts. old_enough (workers_count c) (global_clock c) (pcs s) (st_of c) ts \<and> watermark (workers_count c) (committed s) ts L)"
  shows "cr_inv (s\<lparr>cr := c\<lparr>global_all_lwm := L, global_oltp_lwm := L'\<rparr>\<rparr>)"
proof -
  have st: "st_of c = st_of (cr s)" "tx_of c = tx_of (cr s)" "(\<lambda>v. commit_tree (cc_of c v)) = (\<lambda>v. commit_tree (cc_of (cr s) v))"
    and f: "workers_count c = workers_count (cr s)" "global_clock c = global_clock (cr s)"
      "global_workers_current_snapshot c = global_workers_current_snapshot (cr s)"
      "global_oldest_all_start_ts c = global_oldest_all_start_ts (cr s)"
    using c by (auto simp: same_core_def fun_eq_iff)
  have "caches_ok n st H (cc_of c) = caches_ok n st H (cc_of (cr s))" for n st H
    using c by (simp add: caches_ok_def same_core_def)
  moreover have "lwm_ok (workers_count (cr s)) (global_clock (cr s)) (pcs s) (st_of (cr s)) (committed s) L
      (global_oldest_all_start_ts (cr s)) (cc_of c)"
    using inv c L unfolding cr_inv_def Let_def lwm_ok_def same_core_def st f by metis
  ultimately show ?thesis using inv unfolding cr_inv_def Let_def by (simp add: f st [simplified])
qed

lemma cr_inv_refresh:
  assumes inv: "cr_inv s" and w: "pcs s w = Scanned" "w < workers_count (cr s)"
  shows "cr_inv (goto w Idle (refresh_lwm fl (cr s)) s)"
proof -
  let ?c = "cr s" and ?n = "workers_count (cr s)" and ?O = "global_oldest_all_start_ts (cr s)"
  obtain c' a b sk where f: "fold (lwm_worker fl) [0..<?n] (?c, - 1, - 1, False) = (c', a, b, sk)"
    by (cases "fold (lwm_worker fl) [0..<?n] (?c, - 1, - 1, False)")
  note l = lwm_fold [OF f]
  have i: "trees_ok ?n (pcs s) (st_of ?c) (committed s) (\<lambda>v. commit_tree (cc_of ?c v))"
    "times_ok ?n (global_clock ?c) (pcs s) (st_of ?c) (committed s)" "old_enough ?n (global_clock ?c) (pcs s) (st_of ?c) ?O"
    using inv w by (auto simp: cr_inv_def Let_def lwm_ok_def)
  have "LCB ?O (commit_tree (cc_of ?c v)) \<le> lcb ?O (committed s v)" if "v < ?n" for v
    unfolding LCB_lcb using i(1,2) that by (intro lcb_subset [of "global_clock ?c"]) (auto simp: trees_ok_def times_ok_def)
  then have "watermark ?n (committed s) ?O a" if "\<not> sk"
    using l that unfolding watermark_def by (metis atLeast0LessThan lessThan_iff order_trans set_upt)
  then have "cr_inv (s\<lparr>cr := c'\<lparr>global_all_lwm := (if sk then global_all_lwm ?c else a),
      global_oltp_lwm := (if sk then global_oltp_lwm c' else b)\<rparr>\<rparr>)"
    using l i(3) by (intro cr_inv_core [OF inv]) (auto simp: same_core_def)
  moreover have "refresh_lwm fl ?c = c'\<lparr>global_all_lwm := (if sk then global_all_lwm ?c else a),
      global_oltp_lwm := (if sk then global_oltp_lwm c' else b)\<rparr>"
    using f l by (auto simp: refresh_lwm_def same_core_def)
  ultimately have "cr_inv (s\<lparr>cr := refresh_lwm fl ?c\<rparr>)" by simp
  then show ?thesis
    using w l f unfolding cr_inv_def Let_def
    by (auto simp: cr_pieces old_enough_def refresh_lwm_def same_core_def split: if_splits)
qed

section \<open>Every reachable state\<close>

lemma cr_init_inv: "cr_init s \<Longrightarrow> cr_inv s"
  by (auto simp: cr_init_def cr_inv_def Let_def CR_new_def ConcurrencyControl_new_def CommitTree_new_def Transaction_new_def
      WORKERS_INCREMENT_def cr_pieces hist_ok_def tree_sorted_def cache_ok_def old_enough_def watermark_def
      intro!: exI [of _ 0])

lemma cr_step_inv:
  assumes "cr_inv s" "cr_step fl s t"
  shows "cr_inv t"
  using assms(2,1)
proof (cases rule: cr_step.cases)
  case (latch w level mode)
  then show ?thesis using cr_inv_latch assms(1) by blast
next
  case (draw w)
  then show ?thesis using cr_inv_draw assms(1) by blast
next
  case (publish w)
  then show ?thesis using cr_inv_publish assms(1) by blast
next
  case (clean w c)
  then show ?thesis using cr_inv_clean assms(1) by blast
next
  case (load_lwm w)
  then show ?thesis using cr_inv_load_lwm assms(1) by blast
next
  case (mark_write w)
  then show ?thesis using cr_inv_write assms(1) by blast
next
  case (look w v ts to_write)
  then show ?thesis using cr_inv_look assms(1) by blast
next
  case (commit w c)
  then show ?thesis using cr_inv_commit assms(1) by blast
next
  case (scan w c)
  then show ?thesis using cr_inv_scan assms(1) by blast
next
  case (no_refresh w)
  then show ?thesis using cr_inv_no_refresh assms(1) by blast
next
  case (refresh w)
  then show ?thesis using cr_inv_refresh assms(1) by blast
qed

interpretation cr_system: invariant_of cr_init "cr_step fl" cr_inv
  by unfold_locales (auto intro: cr_init_inv cr_step_inv)


section \<open>Visibility\<close>

text \<open>The start timestamps versions of a worker can carry.\<close>

definition wrote :: "cr_sys \<Rightarrow> nat \<Rightarrow> TXID \<Rightarrow> bool" where
  "wrote s w ts \<longleftrightarrow> ts \<in> snd ` set (committed s w) \<or> running (pcs s w) \<and> ts = st_of (cr s) w"

lemma wrote_ts:
  assumes inv: "cr_inv s" and w: "w < workers_count (cr s)" "wrote s w ts"
  shows "0 < ts" "ts < 2 ^ 61" "ts \<in> snd ` set (committed s w) \<or> (\<forall>p \<in> set (committed s w). snd p < ts)"
    "hist_ok (global_clock (cr s)) (committed s w)"
proof -
  have t: "global_clock (cr s) < 2 ^ 61" "hist_ok (global_clock (cr s)) (committed s w)" "st_of (cr s) w < global_clock (cr s)"
    "running (pcs s w) \<longrightarrow> 0 < st_of (cr s) w \<and> (\<forall>p \<in> set (committed s w). fst p < st_of (cr s) w)"
    using inv w(1) by (auto simp: cr_inv_def Let_def times_ok_def)
  have p: "0 < snd p \<and> snd p < fst p \<and> fst p < global_clock (cr s)" if "p \<in> set (committed s w)" for p
    using t(2) that by (auto simp: hist_ok_def)
  show "0 < ts" using w(2) t(4) p by (auto simp: wrote_def)
  have "ts < global_clock (cr s)" using w(2) t(3) p by (force simp: wrote_def dest: order_less_trans)
  then show "ts < 2 ^ 61" using t(1) by (rule order_less_trans)
  have "snd q < ts" if "running (pcs s w)" "ts = st_of (cr s) w" "q \<in> set (committed s w)" for q
    using order_less_trans [of "snd q" "fst q" ts] t(4) p [OF that(3)] that by blast
  then show "ts \<in> snd ` set (committed s w) \<or> (\<forall>p \<in> set (committed s w). snd p < ts)"
    using w(2) unfolding wrote_def by blast
  show "hist_ok (global_clock (cr s)) (committed s w)" by (rule t(2))
qed

lemma commit_stamp:
  fixes c :: u64
  assumes "c < 2 ^ 61"
  shows "(c OR MSB) AND MSB \<noteq> 0" "(c OR MSB) AND MSB_MASK = c"
proof -
  have b: "bit c n \<Longrightarrow> n < 61" for n using ts_fits [OF assms] by (rule fits_bitD)
  have "bit ((c OR MSB) AND MSB) 63" by (simp add: bit_simps)
  then show "(c OR MSB) AND MSB \<noteq> 0" by auto
  show "(c OR MSB) AND MSB_MASK = c" by (rule bit_word_eqI) (auto simp: bit_simps dest: b)
qed

text \<open>
  C1: Snapshot isolation is exact.  In every interleaving of the workers and whatever the
  commit trees have dropped, a running transaction of worker \<open>i\<close> is told that a version is
  visible exactly if the transaction of worker \<open>w\<close> that wrote it (named by its start timestamp
  \<open>ts\<close>) has committed, with a commit timestamp before the start of \<open>i\<close>'s transaction; the
  answer never depends on the watermark, on the cached snapshots or on whether the intention is
  to write.  A version that carries a commit timestamp is visible exactly if it is before the start.
\<close>

theorem si_visibility_exact:
  assumes "reach cr_init (cr_step fl) s" "pcs s i = Active" "i < workers_count (cr s)" "w < workers_count (cr s)" "w \<noteq> i"
    and "wrote s w ts" "c < 2 ^ 61"
  shows "(fst (isVisibleForMe i w ts to_write (cr s)) \<longleftrightarrow>
      (\<exists>c. (c, ts) \<in> set (committed s w) \<and> c < start_ts (tx_of (cr s) i))) \<and>
    (fst (isVisibleForMe i w (c OR MSB) to_write (cr s)) \<longleftrightarrow> c < start_ts (tx_of (cr s) i))"
proof -
  let ?st = "st_of (cr s) i" and ?H = "committed s w" and ?cc = "cc_of (cr s) i"
  have inv: "cr_inv s" using cr_system.reach_inv [OF assms(1)] .
  note wt = wrote_ts [OF inv assms(4,6)] and si = SI_levels [OF inv assms(2,3)]
  note fl = ts_flags [OF wt(2)] and vis = lcb_visible [OF wt(4,1,3)]
  have tree: "LCB ?st (commit_tree (cc_of (cr s) w)) = lcb ?st ?H"
    using tree_answer [OF inv _ assms(3,4,5)] assms(2) by simp
  have cache: "cache_ok ?st ?H (local_snapshot_cache ?cc w) (local_snapshot_cache_ts ?cc w)"
    using inv assms(3,4) by (auto simp: cr_inv_def Let_def caches_ok_def)
  obtain ts0 where lwm: "ts0 \<le> ?st" "local_global_all_lwm_cache ?cc \<le> lcb ts0 ?H"
    using inv assms(2-4) by (auto simp: cr_inv_def Let_def lwm_ok_def watermark_def)
  have up: "ts \<le> lcb ?st ?H" if "ts \<le> lcb t ?H" "t \<le> ?st" for t
    using lcb_mono [OF wt(4) that(2)] that(1) by simp
  have "fst (isVisibleForMe i w ts to_write (cr s)) \<longleftrightarrow> ts \<le> lcb ?st ?H"
    using si fl assms(5) tree cache wt(1) up [OF _ lwm(1)] lwm(2) up
    by (auto simp: isVisibleForMe_def Let_def cache_ok_def dest: order_less_le_trans)
  moreover have "(c OR MSB) AND MSB \<noteq> 0" "(c OR MSB) AND MSB_MASK = c"
    using commit_stamp [OF assms(7)] by auto
  then have "fst (isVisibleForMe i w (c OR MSB) to_write (cr s)) \<longleftrightarrow> c < ?st"
    using si assms(5) by (simp add: isVisibleForMe_def Let_def)
  ultimately show ?thesis using vis by simp
qed


text \<open>
  C2: The watermark is safe.  When a version written by the transaction of worker \<open>w\<close>
  that started at \<open>ts\<close> is declared visible for all, that transaction has committed before the
  start of every transaction that is running, and before every timestamp still to be drawn: what it
  replaced may be purged.
\<close>

theorem watermark_visible_for_all:
  assumes "reach cr_init (cr_step fl) s" "w < workers_count (cr s)" "wrote s w ts" "isVisibleForAll ts (cr s)"
  shows "\<exists>c. (c, ts) \<in> set (committed s w) \<and> c < global_clock (cr s) \<and>
    (\<forall>i < workers_count (cr s). running (pcs s i) \<longrightarrow> c < start_ts (tx_of (cr s) i))"
proof -
  have inv: "cr_inv s" using cr_system.reach_inv [OF assms(1)] .
  note wt = wrote_ts [OF inv assms(2,3)]
  obtain t where t: "old_enough (workers_count (cr s)) (global_clock (cr s)) (pcs s) (st_of (cr s)) t"
    "global_all_lwm (cr s) \<le> lcb t (committed s w)"
    using inv assms(2) by (auto simp: cr_inv_def Let_def lwm_ok_def watermark_def)
  have "ts \<le> lcb t (committed s w)" using assms(4) t(2) ts_flags(10) [OF wt(2)] by (simp add: isVisibleForAll_def)
  then obtain c where "(c, ts) \<in> set (committed s w)" "c < t" using lcb_visible [OF wt(4,1,3)] by blast
  then show ?thesis using t(1) by (auto simp: old_enough_def intro: order_less_le_trans)
qed

text \<open>
  C33: A commit never overflows the commit tree, although its array has room for only one entry
  more than there are workers: cleaning at the start of the transaction always leaves a free entry.
\<close>

theorem commit_never_overflows:
  assumes "reach cr_init (cr_step fl) s" "pcs s w = Active" "w < workers_count (cr s)"
  shows "\<exists>c. commitTX w (cr s) = Some c \<and> ct_capacity (commit_tree (cc_of c w)) = workers_count (cr s) + 1 \<and>
    length (ct_array (commit_tree (cc_of c w))) \<le> workers_count (cr s) + 1"
proof -
  have "cr_inv s" using cr_system.reach_inv [OF assms(1)] .
  then have "ct_capacity (commit_tree (cc_of (cr s) w)) = workers_count (cr s) + 1"
    "length (ct_array (commit_tree (cc_of (cr s) w))) < workers_count (cr s) + 1"
    using assms(2,3) by (auto simp: cr_inv_def Let_def trees_ok_def)
  then show ?thesis by (simp add: commitTX_def ct_commit_def Let_def)
qed

section \<open>A concrete run\<close>

text \<open>
  Two workers: worker 1 writes and commits, worker 0 starts after that and reads; worker 1 writes
  again in a transaction that is still running.
\<close>

datatype cr_event = Latch nat | Draw nat | Publish nat | Clean nat | Load nat | Write nat | Commit nat | Scan nat | Skip nat | Lwm nat

fun cr_play :: "flags \<Rightarrow> cr_event \<Rightarrow> cr_sys \<Rightarrow> cr_sys option" where
  "cr_play fl (Latch w) s =
     (if w < workers_count (cr s) \<and> pcs s w = Idle
      then Some (goto w Latched (start_latch w (start_init w OLTP SNAPSHOT_ISOLATION (cr s))) s) else None)"
| "cr_play fl (Draw w) s =
     (if w < workers_count (cr s) \<and> pcs s w = Latched \<and> global_clock (cr s) < 2 ^ 61 - 1
      then Some (goto w Drawn (start_draw w (cr s)) s) else None)"
| "cr_play fl (Publish w) s =
     (if w < workers_count (cr s) \<and> pcs s w = Drawn then Some (goto w Published (start_publish fl w (cr s)) s) else None)"
| "cr_play fl (Clean w) s =
     (if w < workers_count (cr s) \<and> pcs s w = Published
      then map_option (\<lambda>c. goto w Cleaned c s) (start_clean w (cr s)) else None)"
| "cr_play fl (Load w) s =
     (if w < workers_count (cr s) \<and> pcs s w = Cleaned then Some (goto w Active (start_lwm w (cr s)) s) else None)"
| "cr_play fl (Write w) s =
     (if w < workers_count (cr s) \<and> pcs s w = Active
      then Some (s\<lparr>cr := set_tx w (markAsWrite (tx_of (cr s) w)) (cr s)\<rparr>) else None)"
| "cr_play fl (Commit w) s =
     (if w < workers_count (cr s) \<and> pcs s w = Active \<and> global_clock (cr s) < 2 ^ 61 - 1
      then map_option (\<lambda>c. (goto w Refresh c s)\<lparr>committed :=
             (if has_wrote (tx_of (cr s) w)
              then (committed s)(w := committed s w @ [(global_clock (cr s), start_ts (tx_of (cr s) w))]) else committed s)\<rparr>)
             (commitTX w (cr s))
      else None)"
| "cr_play fl (Scan w) s =
     (if w < workers_count (cr s) \<and> pcs s w = Refresh \<and> FLAGS_todo fl \<and> list_all (\<lambda>v. pcs s v \<noteq> Scanned) [0..<workers_count (cr s)]
      then map_option (\<lambda>c. goto w Scanned c s) (refresh_scan w (cr s)) else None)"
| "cr_play fl (Skip w) s = (if w < workers_count (cr s) \<and> pcs s w = Refresh then Some (goto w Idle (cr s) s) else None)"
| "cr_play fl (Lwm w) s =
     (if w < workers_count (cr s) \<and> pcs s w = Scanned then Some (goto w Idle (refresh_lwm fl (cr s)) s) else None)"

fun cr_run :: "flags \<Rightarrow> cr_event list \<Rightarrow> cr_sys \<Rightarrow> cr_sys option" where
  "cr_run fl [] s = Some s"
| "cr_run fl (v # vs) s = (case cr_play fl v s of None \<Rightarrow> None | Some t \<Rightarrow> cr_run fl vs t)"

lemma cr_play_step: "cr_play fl v s = Some t \<Longrightarrow> cr_step fl s t"
proof (cases v)
  case (Commit w)
  let ?g = "w < workers_count (cr s) \<and> pcs s w = Active \<and> global_clock (cr s) < 2 ^ 61 - 1"
  assume play: "cr_play fl v s = Some t"
  have g: ?g using play unfolding Commit cr_play.simps by (rule contrapos_pp) (simp only: if_False option.distinct not_False_eq_True)
  obtain c where c: "commitTX w (cr s) = Some c"
    "t = (goto w Refresh c s)\<lparr>committed :=
      (if has_wrote (tx_of (cr s) w)
       then (committed s)(w := committed s w @ [(global_clock (cr s), start_ts (tx_of (cr s) w))]) else committed s)\<rparr>"
    using play unfolding Commit cr_play.simps if_P [OF g] map_option_eq_Some by blast
  show ?thesis unfolding c(2) using g by (intro cr_step.commit c(1)) simp_all
qed (auto simp: mutex_free_def list_all_iff intro: cr_step.intros split: if_splits)

lemma cr_run_reach: "cr_run fl vs s = Some t \<Longrightarrow> reach cr_init (cr_step fl) s \<Longrightarrow> reach cr_init (cr_step fl) t"
proof (induction vs arbitrary: s)
  case (Cons v vs)
  then obtain r where r: "cr_play fl v s = Some r" "cr_run fl vs r = Some t" by (auto simp del: cr_play.simps split: option.splits)
  from cr_play_step [OF r(1)] Cons.prems(2) have "reach cr_init (cr_step fl) r" by (rule reach_step [rotated])
  from Cons.IH [OF r(2) this] show ?case .
qed simp

definition start_events :: "nat \<Rightarrow> cr_event list" where
  "start_events w = [Latch w, Draw w, Publish w, Clean w, Load w]"

definition write_events :: "nat \<Rightarrow> cr_event list" where
  "write_events w = start_events w @ [Write w, Commit w]"

definition cr_example :: cr_sys where
  "cr_example = \<lparr>cr = CR_new 2, pcs = (\<lambda>_. Idle), committed = (\<lambda>_. [])\<rparr>"

definition cr_final :: "cr_event list \<Rightarrow> cr_sys" where
  "cr_final vs = the (cr_run default_flags vs cr_example)"

lemma cr_final_reach: "cr_run default_flags vs cr_example \<noteq> None \<Longrightarrow> reach cr_init (cr_step default_flags) (cr_final vs)"
  unfolding cr_final_def
  by (rule cr_run_reach [of _ vs cr_example]) (auto simp: cr_example_def cr_init_def intro!: reach.reach_init)

text \<open>Worker 1 commits; then worker 0 starts, and worker 1 writes again without committing.\<close>

definition reader_events :: "cr_event list" where
  "reader_events = write_events 1 @ [Skip 1] @ start_events 0 @ start_events 1 @ [Write 1]"

text \<open>Worker 0 commits twice, worker 1 once; when both have started anew, there is a new watermark.\<close>

definition watermark_events :: "cr_event list" where
  "watermark_events = write_events 0 @ [Skip 0] @ write_events 0 @ [Skip 0] @ write_events 1 @ [Skip 1] @
     start_events 0 @ start_events 1 @ [Commit 1, Scan 1, Lwm 1]"

lemma cr_final_I:
  "(case cr_run default_flags vs cr_example of None \<Rightarrow> False | Some s \<Rightarrow> P s) \<Longrightarrow>
   reach cr_init (cr_step default_flags) (cr_final vs) \<and> P (cr_final vs)"
  using cr_final_reach [of vs] by (auto simp: cr_final_def split: option.splits)

lemma reader_run:
  "reach cr_init (cr_step default_flags) (cr_final reader_events)" "pcs (cr_final reader_events) 0 = Active"
  "pcs (cr_final reader_events) 1 = Active" "workers_count (cr (cr_final reader_events)) = 2"
  "committed (cr_final reader_events) 1 = [(257, 256)]" "start_ts (tx_of (cr (cr_final reader_events)) 0) = 258"
  "start_ts (tx_of (cr (cr_final reader_events)) 1) = 259"
proof -
  have "case cr_run default_flags reader_events cr_example of None \<Rightarrow> False
    | Some s \<Rightarrow> pcs s 0 = Active \<and> pcs s 1 = Active \<and> workers_count (cr s) = 2 \<and> committed s 1 = [(257, 256)] \<and>
        start_ts (tx_of (cr s) 0) = 258 \<and> start_ts (tx_of (cr s) 1) = 259"
    by code_simp
  from cr_final_I [OF this] show
    "reach cr_init (cr_step default_flags) (cr_final reader_events)" "pcs (cr_final reader_events) 0 = Active"
    "pcs (cr_final reader_events) 1 = Active" "workers_count (cr (cr_final reader_events)) = 2"
    "committed (cr_final reader_events) 1 = [(257, 256)]" "start_ts (tx_of (cr (cr_final reader_events)) 0) = 258"
    "start_ts (tx_of (cr (cr_final reader_events)) 1) = 259"
    by blast+
qed

lemma watermark_run:
  "reach cr_init (cr_step default_flags) (cr_final watermark_events)" "workers_count (cr (cr_final watermark_events)) = 2"
  "committed (cr_final watermark_events) 0 = [(257, 256), (259, 258)]"
  "isVisibleForAll 256 (cr (cr_final watermark_events))"
proof -
  have "case cr_run default_flags watermark_events cr_example of None \<Rightarrow> False
    | Some s \<Rightarrow> workers_count (cr s) = 2 \<and> committed s 0 = [(257, 256), (259, 258)] \<and> isVisibleForAll 256 (cr s)"
    by code_simp
  from cr_final_I [OF this] show
    "reach cr_init (cr_step default_flags) (cr_final watermark_events)" "workers_count (cr (cr_final watermark_events)) = 2"
    "committed (cr_final watermark_events) 0 = [(257, 256), (259, 258)]"
    "isVisibleForAll 256 (cr (cr_final watermark_events))"
    by blast+
qed

theorem si_visibility_exact_witness:
  "fst (isVisibleForMe 0 1 256 True (cr (cr_final reader_events))) \<and>
   \<not> fst (isVisibleForMe 0 1 259 True (cr (cr_final reader_events)))"
  using si_visibility_exact [OF reader_run(1) reader_run(2), of 1 256 0 True]
    si_visibility_exact [OF reader_run(1) reader_run(2), of 1 259 0 True]
  by (simp add: reader_run wrote_def del: One_nat_def)

theorem watermark_visible_for_all_witness:
  "\<exists>c. (c, 256) \<in> set (committed (cr_final watermark_events) 0) \<and> c < global_clock (cr (cr_final watermark_events))"
  using watermark_visible_for_all [OF watermark_run(1), of 0 256]
  by (auto simp: watermark_run(2-4) wrote_def simp del: One_nat_def)

theorem commit_never_overflows_witness:
  "\<exists>c. commitTX 1 (cr (cr_final reader_events)) = Some c \<and> length (ct_array (commit_tree (cc_of c 1))) \<le> 3"
  using commit_never_overflows [OF reader_run(1) reader_run(3)] by (auto simp: reader_run simp del: One_nat_def)

section \<open>Two queries that go wrong\<close>

text \<open>
  The commit tree answers with start timestamps, but \<^verbatim>\<open>getCommitTimestamp\<close> takes the
  answer for a commit timestamp: the answer is below the timestamp it was asked for, so the check
  behind it fails, except where the tree has no answer.
\<close>

lemma getCommitTimestamp_fails:
  assumes "hist_ok K (ct_array (commit_tree (cc_of s w)))" "tx_ts AND MSB = 0"
    and "LCB tx_ts (commit_tree (cc_of s w)) \<noteq> 0"
  shows "getCommitTimestamp w tx_ts s = None"
proof -
  let ?H = "ct_array (commit_tree (cc_of s w))"
  obtain p where "LCBUnsafe tx_ts ?H = Some p" "LCB tx_ts (commit_tree (cc_of s w)) = snd p"
    using assms(3) by (auto simp: LCB_def split: option.splits)
  moreover from this have "snd p < fst p" "fst p < tx_ts"
    using LCBUnsafe_Some [OF hist_ok_sorted [OF assms(1)]] assms(1) by (auto simp: last_before_def hist_ok_def)
  then have "snd p < tx_ts" by (rule order_less_trans)
  ultimately show ?thesis using assms(2,3) by (auto simp: getCommitTimestamp_def Let_def ensure_def)
qed

text \<open>
  The read-committed query caches its answer under the next value of the clock.  A transaction at
  snapshot isolation of the same worker may draw just that value and then takes the old answer,
  although another transaction has committed in between.
\<close>

definition cache_events :: "cr_event list" where
  "cache_events = start_events 1 @ [Write 1]"

definition read_committed_query :: "cr_sys \<Rightarrow> cr_sys" where
  "read_committed_query s =
     s\<lparr>cr := snd (isVisibleForMe 0 1 256 False (start_init 0 OLTP READ_COMMITTED (cr s)))\<rparr>"

lemma stale_read_committed_cache:
  "case cr_run default_flags ([Commit 1, Skip 1] @ start_events 0) (read_committed_query (cr_final cache_events)) of
     None \<Rightarrow> False
   | Some s \<Rightarrow> committed s 1 = [(257, 256)] \<and> start_ts (tx_of (cr s) 0) = 258 \<and> \<not> fst (isVisibleForMe 0 1 256 False (cr s))"
  by code_simp

end
