(* ===== verification/WAL_Buffer.thy ===== *)
theory WAL_Buffer
  imports Circular_Queue Buffer_Frame Misc
begin

text \<open>
  The log buffer of \<^verbatim>\<open>concurrency-recovery/Logging.hpp\<close> and
  \<^verbatim>\<open>Logging.cpp\<close>.

  Workers reserve room for their log records in a ring of
  \<^verbatim>\<open>FLAGS_wal_buffer_size\<close> bytes under the mutex of the log, fill it without the mutex
  and unlock the hole that stands for it; the longest prefix of unlocked holes is published to the
  group committer, which writes it to the log device and moves
  \<^verbatim>\<open>wal_gct_cursor\<close>.

  An operation that holds the mutex is one function.  It returns \<open>None\<close> where the code
  aborts and also where it spins (for space, or for a hole to be filled): a spinning worker has
  not done its step yet.  That it does return when it need not wait is a theorem.  What is
  published goes through \<^verbatim>\<open>OptimisticSpinStruct\<close>, which hands over whole values
  (\<open>Spin_Struct\<close>); here it is one field.  The log files for people and the debug-only CRC
  are left out.  The buffer is a store of bytes, indexed by the offset.
\<close>

section \<open>State\<close>

definition MAX_PENDING_HOLES :: nat where "MAX_PENDING_HOLES = 16384"
definition CR_ENTRY_SIZE :: nat where "CR_ENTRY_SIZE = 32"
definition LOG_DEV_BLK_SIZE :: u64 where "LOG_DEV_BLK_SIZE = 4096"
definition HOLE_LATCH_BIT :: u32 where "HOLE_LATCH_BIT = push_bit 31 1"

fun wal_type_code :: "WAL_TYPE \<Rightarrow> u8" where
  "wal_type_code TX_START = 0"
| "wal_type_code TX_COMMIT = 1"
| "wal_type_code TX_ABORT = 2"
| "wal_type_code DT_SPECIFIC = 3"
| "wal_type_code PER_PAGE_DT_SPECIFIC = 4"
| "wal_type_code CARRIAGE_RETURN = 5"
| "wal_type_code SKIP = 6"

record WorkerToLW =
  last_gsn :: LID
  wal_written_offset :: u64

record hole_t =
  log_buffer_offset :: u32
  hole_gsn :: LID

record Logging =
  log_id :: u32
  hardened_gsn :: LID
  wt_to_lw :: WorkerToLW
  wal_log_cursor :: u64
  wal_buffer_round :: u64
  wal_next_to_clean :: u64
  wal_gct_cursor :: u64
  wal_buffer :: "nat \<Rightarrow> u8"
  wal_lsn_counter :: LID
  log_gsn_clock :: LID
  log_segment_start :: u64
  log_segment_size :: u64
  fake_wrap_around_offset :: u64
  is_sink_log :: bool
  redirect_to_sink_log :: bool
  holes :: "hole_t CircularQueue"

section \<open>Holes\<close>

definition hole_none :: hole_t where "hole_none = \<lparr>log_buffer_offset = - 1, hole_gsn = 0\<rparr>"

definition hole_new :: "u32 \<Rightarrow> LID \<Rightarrow> hole_t" where
  "hole_new off g = \<lparr>log_buffer_offset = off OR HOLE_LATCH_BIT, hole_gsn = g\<rparr>"

definition hole_isLocked :: "hole_t \<Rightarrow> bool" where
  "hole_isLocked h \<longleftrightarrow> log_buffer_offset h AND HOLE_LATCH_BIT \<noteq> 0"

definition hole_unlock :: "hole_t \<Rightarrow> hole_t option" where
  "hole_unlock h =
     do { ensure (hole_isLocked h);
          Some (h\<lparr>log_buffer_offset := log_buffer_offset h AND NOT HOLE_LATCH_BIT\<rparr>) }"

text \<open>Unlocking through the pointer to a slot of the queue.\<close>

definition unlock_slot :: "nat \<Rightarrow> Logging \<Rightarrow> Logging option" where
  "unlock_slot s l =
     do { h \<leftarrow> hole_unlock (arr (holes l) ! s);
          Some (l\<lparr>holes := (holes l)\<lparr>arr := (arr (holes l))[s := h]\<rparr>\<rparr>) }"

definition publish_hole :: "hole_t \<Rightarrow> Logging \<Rightarrow> Logging" where
  "publish_hole h l =
     l\<lparr>wt_to_lw := (wt_to_lw l)\<lparr>wal_written_offset := ucast (log_buffer_offset h), last_gsn := hole_gsn h\<rparr>\<rparr>"

definition collect_filled_holes :: "bool \<Rightarrow> Logging \<Rightarrow> Logging option" where
  "collect_filled_holes wait_if_none l =
     (case erase_front_while MAX_PENDING_HOLES (\<lambda>h. \<not> hole_isLocked h) (holes l) of
        (None, q) \<Rightarrow> if wait_if_none then None else Some l
      | (Some s, q) \<Rightarrow>
          do { ensure (\<not> full MAX_PENDING_HOLES q);
               Some (publish_hole (arr q ! s) (l\<lparr>holes := q\<rparr>)) })"

definition drain_holes :: "Logging \<Rightarrow> Logging option" where
  "drain_holes l =
     (if empty (holes l) then Some l
      else let hs = visit MAX_PENDING_HOLES (holes l) (it_begin (holes l))
           in do { ensure (list_all (\<lambda>h. \<not> hole_isLocked h) hs);
                   Some (publish_hole (last hs) l) })"

definition insertHole :: "Logging \<Rightarrow> (nat \<times> Logging) option" where
  "insertHole l =
     do { l1 \<leftarrow> collect_filled_holes (full MAX_PENDING_HOLES (holes l)) l;
          (case emplace_back MAX_PENDING_HOLES (hole_new (ucast (wal_log_cursor l1)) (log_gsn_clock l1)) (holes l1) of
             (None, q) \<Rightarrow> None
           | (Some s, q) \<Rightarrow> Some (s, l1\<lparr>holes := q\<rparr>)) }"

definition opportunisticCollectHoles :: "bool \<Rightarrow> Logging \<Rightarrow> Logging option" where
  "opportunisticCollectHoles mutex_free l = (if mutex_free then collect_filled_holes False l else Some l)"

section \<open>Space\<close>

definition gct_aligned :: "Logging \<Rightarrow> u64" where
  "gct_aligned l = downAlign (wal_gct_cursor l) LOG_DEV_BLK_SIZE"

definition walFreeSpace :: "flags \<Rightarrow> Logging \<Rightarrow> u32" where
  "walFreeSpace fl l =
     (let gct_cursor = gct_aligned l
      in ucast (if gct_cursor = wal_log_cursor l then FLAGS_wal_buffer_size fl
                else if gct_cursor < wal_log_cursor l then gct_cursor + (FLAGS_wal_buffer_size fl - wal_log_cursor l)
                else gct_cursor - wal_log_cursor l))"

definition walContiguousFreeSpace :: "flags \<Rightarrow> Logging \<Rightarrow> u32" where
  "walContiguousFreeSpace fl l =
     (let gct_cursor = gct_aligned l
      in ucast (if gct_cursor > wal_log_cursor l then gct_cursor - wal_log_cursor l
                else FLAGS_wal_buffer_size fl - wal_log_cursor l))"

text \<open>The bytes \<^verbatim>\<open>walEnsureEnoughSpace\<close> waits for.\<close>

definition wait_untill_free_bytes :: "flags \<Rightarrow> u32 \<Rightarrow> Logging \<Rightarrow> u32" where
  "wait_untill_free_bytes fl requested_size l =
     (let w = requested_size + of_nat CR_ENTRY_SIZE; rest = FLAGS_wal_buffer_size fl - wal_log_cursor l
      in if rest < ucast w then w + ucast rest else w)"

definition write_bytes :: "nat \<Rightarrow> u8 list \<Rightarrow> (nat \<Rightarrow> u8) \<Rightarrow> nat \<Rightarrow> u8" where
  "write_bytes p bs m = (\<lambda>i. if p \<le> i \<and> i < p + length bs then bs ! (i - p) else m i)"

definition carriage_return :: "flags \<Rightarrow> Logging \<Rightarrow> Logging option" where
  "carriage_return fl l =
     do { let cr_size = FLAGS_wal_buffer_size fl - wal_log_cursor l;
          let c = wal_lsn_counter l + cr_size;
          c' \<leftarrow> (if fake_wrap_around_offset l \<noteq> 0 \<and> fake_wrap_around_offset l \<le> c
                then do { ensure (c = fake_wrap_around_offset l); Some 0 } else Some c);
          let p = unat (wal_log_cursor l);
          let m = write_bytes (p + 2) (le_bytes 2 (ucast cr_size :: u16))
                    (write_bytes p [wal_type_code CARRIAGE_RETURN] (wal_buffer l));
          (s, l1) \<leftarrow> insertHole (l\<lparr>wal_lsn_counter := c', wal_buffer := m, wal_log_cursor := 0\<rparr>);
          l2 \<leftarrow> unlock_slot s l1;
          Some (l2\<lparr>wal_next_to_clean := 0, wal_buffer_round := wal_buffer_round l2 + 1\<rparr>) }"

definition skip_to_block :: "Logging \<Rightarrow> Logging option" where
  "skip_to_block l =
     do { let m = write_bytes (unat (wal_log_cursor l)) [wal_type_code SKIP] (wal_buffer l);
          (s, l1) \<leftarrow> insertHole (l\<lparr>wal_lsn_counter := upAlign (wal_lsn_counter l) LOG_DEV_BLK_SIZE, wal_buffer := m,
                                   wal_log_cursor := upAlign (wal_log_cursor l) LOG_DEV_BLK_SIZE\<rparr>);
          unlock_slot s l1 }"

definition walEnsureEnoughSpace :: "flags \<Rightarrow> u32 \<Rightarrow> Logging \<Rightarrow> Logging option" where
  "walEnsureEnoughSpace fl requested_size l =
     (if \<not> FLAGS_wal fl then Some l
      else do {
        ensure (\<not> redirect_to_sink_log l);
        ensure (\<not> walFreeSpace fl l < wait_untill_free_bytes fl requested_size l);
        l1 \<leftarrow> (if unat (walContiguousFreeSpace fl l) < unat requested_size + CR_ENTRY_SIZE then carriage_return fl l
              else if downAlign (wal_log_cursor l) LOG_DEV_BLK_SIZE \<noteq>
                      downAlign (wal_log_cursor l + ucast requested_size) LOG_DEV_BLK_SIZE
              then skip_to_block l else Some l);
        ensure (requested_size \<le> walContiguousFreeSpace fl l1);
        ensure (wal_log_cursor l1 + ucast requested_size + of_nat CR_ENTRY_SIZE \<le> FLAGS_wal_buffer_size fl);
        Some l1
      })"

section \<open>Reserving\<close>

definition logSegmentFreeSpace :: "Logging \<Rightarrow> u64" where
  "logSegmentFreeSpace l = log_segment_size l - wal_lsn_counter l"

definition reserveLSN :: "flags \<Rightarrow> u64 \<Rightarrow> Logging \<Rightarrow> (LID \<times> Logging) option" where
  "reserveLSN fl requested_size l =
     do { let lsn_counter = wal_lsn_counter l;
          ensure (is_sink_log l \<or> lsn_counter < log_segment_size l);
          ensure (lsn_counter \<le> LSN_OFFSET_MASK);
          let lsn = makeLSN (ucast (log_id l)) lsn_counter;
          let l1 = (if FLAGS_wal_pwrite fl then l\<lparr>wal_lsn_counter := lsn_counter + requested_size\<rparr> else l);
          ensure (requested_size \<le> ucast (walContiguousFreeSpace fl l1));
          l2 \<leftarrow> (if \<not> is_sink_log l1 \<and> logSegmentFreeSpace l1 \<le> FLAGS_wal_buffer_size fl
                then drain_holes (l1\<lparr>redirect_to_sink_log := True\<rparr>) else Some l1);
          Some (lsn, l2) }"

definition sizeof_WALDTEntry :: nat where "sizeof_WALDTEntry = 64"

text \<open>
  The header of a record, a value-initialised \<^verbatim>\<open>WALDTEntry\<close>: all zero but
  \<^verbatim>\<open>type\<close>, \<^verbatim>\<open>size\<close>, the magic number, \<^verbatim>\<open>lsn\<close>, and
  \<^verbatim>\<open>gsn\<close>, \<^verbatim>\<open>dt_id\<close>, \<^verbatim>\<open>pid\<close> at their offsets.
\<close>

definition write_header :: "nat \<Rightarrow> LID \<Rightarrow> u64 \<Rightarrow> PID \<Rightarrow> LID \<Rightarrow> u64 \<Rightarrow> (nat \<Rightarrow> u8) \<Rightarrow> nat \<Rightarrow> u8" where
  "write_header p lsn total_size rec_pid rec_gsn dtid m =
     write_bytes (p + 32) (le_bytes 8 rec_gsn @ le_bytes 8 dtid @ le_bytes 8 rec_pid)
       (write_bytes (p + 8) (le_bytes 8 (99 :: u64) @ le_bytes 8 lsn)
         (write_bytes (p + 2) (le_bytes 2 (ucast total_size :: u16))
           (write_bytes p [wal_type_code DT_SPECIFIC] (write_bytes p (replicate sizeof_WALDTEntry 0) m))))"

record WALEntryHandler =
  h_lsn :: LID
  h_total_size :: u64
  h_in_memory_offset :: u32
  h_hole :: nat

definition reserveDTEntry :: "flags \<Rightarrow> u64 \<Rightarrow> PID \<Rightarrow> LID \<Rightarrow> u64 \<Rightarrow> Logging \<Rightarrow> (WALEntryHandler \<times> Logging) option" where
  "reserveDTEntry fl requested_size rec_pid rec_gsn dtid l =
     do { ensure (\<not> redirect_to_sink_log l);
          let total_size = of_nat sizeof_WALDTEntry + requested_size;
          (lsn, l1) \<leftarrow> reserveLSN fl total_size l;
          let p = wal_log_cursor l1;
          (s, l2) \<leftarrow> insertHole (l1\<lparr>wal_log_cursor := p + total_size,
                                   wal_buffer := write_header (unat p) lsn total_size rec_pid rec_gsn dtid (wal_buffer l1)\<rparr>);
          Some (\<lparr>h_lsn = lsn, h_total_size = total_size, h_in_memory_offset = ucast p, h_hole = s\<rparr>, l2) }"

text \<open>
  The calls of \<^verbatim>\<open>PageGuard::reserveWALEntry\<close> on the log, for a page with number
  \<open>page_GSN\<close>.  The fields \<^verbatim>\<open>ru_epoch\<close> and \<^verbatim>\<open>prev_lsn\<close> the caller sets in the
  reserved record are bytes of the record like its payload.
\<close>

definition setCurrentGSN :: "LID \<Rightarrow> Logging \<Rightarrow> Logging" where
  "setCurrentGSN rec_gsn l = l\<lparr>log_gsn_clock := rec_gsn\<rparr>"

definition reserveWALEntry ::
  "flags \<Rightarrow> u32 \<Rightarrow> PID \<Rightarrow> u64 \<Rightarrow> LID \<Rightarrow> Logging \<Rightarrow> (WALEntryHandler \<times> Logging) option" where
  "reserveWALEntry fl payload rec_pid dtid page_GSN l =
     do { l1 \<leftarrow> walEnsureEnoughSpace fl (of_nat sizeof_WALDTEntry + payload) l;
          let logGSN = max page_GSN (log_gsn_clock l1 + 1);
          reserveDTEntry fl (ucast payload) rec_pid logGSN dtid (setCurrentGSN logGSN l1) }"

text \<open>
  \<^verbatim>\<open>Logging::reservePPLEntry\<close> up to the release of the mutex, for a per page log of
  \<open>ppl_size\<close> bytes; the copy of the log into the buffer and the unlocking of its hole follow
  without the mutex.
\<close>

definition reservePPLEntry :: "flags \<Rightarrow> u16 \<Rightarrow> Logging \<Rightarrow> (WALEntryHandler \<times> Logging) option" where
  "reservePPLEntry fl ppl_size l =
     do { l1 \<leftarrow> walEnsureEnoughSpace fl (ucast ppl_size) l;
          (lsn, l2) \<leftarrow> reserveLSN fl (ucast ppl_size) (l1\<lparr>log_gsn_clock := log_gsn_clock l1 + 1\<rparr>);
          let p = wal_log_cursor l2;
          (s, l3) \<leftarrow> insertHole (l2\<lparr>wal_log_cursor := p + ucast ppl_size\<rparr>);
          Some (\<lparr>h_lsn = lsn, h_total_size = ucast ppl_size, h_in_memory_offset = ucast p, h_hole = s\<rparr>, l3) }"

definition syncGSN :: "LID \<Rightarrow> Logging \<Rightarrow> Logging" where
  "syncGSN other_gsn l = (if other_gsn > log_gsn_clock l then l\<lparr>log_gsn_clock := other_gsn\<rparr> else l)"

text \<open>The reset of a log whose RU epoch was reclaimed.\<close>

definition publishOffset :: "Logging \<Rightarrow> Logging" where
  "publishOffset l = l\<lparr>wt_to_lw := (wt_to_lw l)\<lparr>wal_written_offset := wal_log_cursor l\<rparr>\<rparr>"

definition log_reset :: "bool \<Rightarrow> Logging \<Rightarrow> Logging option" where
  "log_reset keep_redirecting l =
     do { ensure (wal_log_cursor l = wal_gct_cursor l);
          let l1 = l\<lparr>redirect_to_sink_log := keep_redirecting, wal_lsn_counter := 0, wal_log_cursor := 0\<rparr>;
          Some ((publishOffset l1)\<lparr>wal_gct_cursor := 0\<rparr>) }"

section \<open>Reading the buffer\<close>

definition isInWALBuffer :: "flags \<Rightarrow> LID \<Rightarrow> Logging \<Rightarrow> bool" where
  "isInWALBuffer fl lsn l \<longleftrightarrow>
     lsnOffset lsn \<ge> wal_lsn_counter l \<or> wal_lsn_counter l - lsnOffset lsn \<le> FLAGS_wal_buffer_size fl"

text \<open>The check of \<^verbatim>\<open>tryCopyFromWALBuffer\<close>, made three times; the subtraction wraps.\<close>

definition overwritten :: "flags \<Rightarrow> LID \<Rightarrow> Logging \<Rightarrow> bool" where
  "overwritten fl lsn l \<longleftrightarrow> wal_lsn_counter l - lsnOffset lsn > FLAGS_wal_buffer_size fl"

definition buffer_pos :: "flags \<Rightarrow> LID \<Rightarrow> nat" where
  "buffer_pos fl lsn = unat (lsnOffset lsn mod FLAGS_wal_buffer_size fl)"

end
