(* ===== verification/WAL_Space.thy ===== *)
theory WAL_Space
  imports WAL_Buffer
begin

text \<open>
  The space of the log buffer in terms of positions in the log.  A position counts the bytes
  since the start of the segment and is never reduced; the LSN counter is a position, and the
  cursors are positions modulo the size of the buffer.
\<close>

section \<open>Blocks and rings of natural numbers\<close>

definition dn :: "nat \<Rightarrow> nat" where "dn x = x - x mod 4096"
definition up :: "nat \<Rightarrow> nat" where "up x = dn (x + 4095)"

lemma dn_bounds: "dn x \<le> x" "x < dn x + 4096" "4096 dvd dn x" "dn x = 4096 * (x div 4096)"
  by (auto simp: dn_def minus_mod_eq_mult_div)

lemma up_bounds: "x \<le> up x" "up x < x + 4096" "4096 dvd up x"
  using dn_bounds [of "x + 4095"] by (auto simp: up_def)

lemma dn_mono: "x \<le> y \<Longrightarrow> dn x \<le> dn y"
  by (simp add: dn_bounds(4) div_le_mono)

lemma up_least: "4096 dvd y \<Longrightarrow> x \<le> y \<Longrightarrow> up x \<le> y"
proof -
  assume "4096 dvd y" "x \<le> y"
  then obtain k where "y = 4096 * k" by blast
  then show ?thesis using \<open>x \<le> y\<close> unfolding up_def dn_bounds(4) by auto
qed

lemma dn_greatest: "4096 dvd y \<Longrightarrow> y \<le> x \<Longrightarrow> y \<le> dn x"
  by (elim dvdE) (auto simp: dn_bounds(4))

lemma dn_same_block: "4096 dvd x \<Longrightarrow> 0 < k \<Longrightarrow> k \<le> 4096 \<Longrightarrow> dn x = dn (x + k - 1)"
proof -
  assume x: "4096 dvd x" and k: "0 < k" "k \<le> 4096"
  obtain q where q: "x = 4096 * q" using x by (elim dvdE)
  have "(x + k - 1) div 4096 = (4096 * q + (k - 1)) div 4096" using k unfolding q by (simp add: add_diff_assoc2 ac_simps)
  also have "\<dots> = q" using k by simp
  finally show ?thesis unfolding dn_bounds(4) q by simp
qed

lemma dn_mod: "4096 dvd b \<Longrightarrow> dn (x mod b) = dn x mod b"
proof -
  assume "4096 dvd b"
  then obtain k where k: "b = 4096 * k" by (elim dvdE)
  have "x mod b = 4096 * (x div 4096 mod k) + x mod 4096" unfolding k by (rule mod_mult2_eq)
  then have "x mod b div 4096 = x div 4096 mod k" by simp
  then show ?thesis unfolding dn_bounds(4) unfolding k by (simp only: mod_mult_mult1)
qed

lemma up_split:
  assumes "4096 dvd b"
  shows "up x = b * (x div b) + up (x mod b)"
proof -
  obtain k where k: "b * (x div b) = 4096 * k" using assms by (metis dvdE dvd_mult2)
  then have x: "x + 4095 = 4096 * k + (x mod b + 4095)" using mult_div_mod_eq [of b x] by simp
  have "(x + 4095) div 4096 = k + (x mod b + 4095) div 4096" unfolding x by simp
  then show ?thesis unfolding up_def dn_bounds(4) using k by simp
qed

lemma dn_split:
  assumes "4096 dvd b"
  shows "dn x = b * (x div b) + dn (x mod b)"
proof -
  obtain k where k: "b * (x div b) = 4096 * k" using assms by (metis dvdE dvd_mult2)
  then have x: "x = 4096 * k + x mod b" using mult_div_mod_eq [of b x] by simp
  have "x div 4096 = k + x mod b div 4096" by (subst x) simp
  then show ?thesis unfolding dn_bounds(4) using k by simp
qed

lemma up_dn: "up x = x \<Longrightarrow> dn x = x" "up x \<noteq> x \<Longrightarrow> up x = dn x + 4096"
proof -
  show "dn x = x" if "up x = x"
    using up_bounds(3) [of x] that by (simp add: dn_def)
  show "up x = dn x + 4096" if "up x \<noteq> x"
  proof -
    have "4096 dvd up x - dn x" using up_bounds(3) dn_bounds(3) by (intro dvd_diff_nat)
    moreover have "up x - dn x < 2 * 4096" using up_bounds(2) [of x] dn_bounds(2) [of x] by linarith
    moreover have "dn x < up x" using that up_bounds(1) [of x] dn_bounds(1) [of x] by linarith
    ultimately obtain k where "up x - dn x = 4096 * k" "0 < k" "k < 2" by (auto elim!: dvdE)
    then show ?thesis using \<open>dn x < up x\<close> by simp
  qed
qed

lemma up_mod: "4096 dvd b \<Longrightarrow> up (x mod b) < b \<Longrightarrow> up x mod b = up (x mod b)"
  using up_split [of b x] by simp

text \<open>Two positions less than a round apart are in the same round or in neighbouring ones.\<close>

lemma ring_split:
  fixes b :: nat
  assumes "0 < b" "A \<le> L" "L - A < b"
  obtains (same) "L div b = A div b" "L - A = L mod b - A mod b" "A mod b \<le> L mod b"
    | (wrapped) "L div b = A div b + 1" "L - A = b + L mod b - A mod b" "L mod b < A mod b"
proof -
  have L: "L = b * (L div b) + L mod b" and A: "A = b * (A div b) + A mod b" by simp_all
  have r: "L mod b < b" "A mod b < b" using assms(1) by simp_all
  have le: "A div b \<le> L div b" using assms(2) by (rule div_le_mono)
  have "L div b \<le> A div b + 1"
  proof (rule ccontr)
    assume "\<not> ?thesis"
    then have "b * (A div b + 2) \<le> b * (L div b)" by (intro mult_le_mono2) simp
    then have "A + b < L" using L A r assms(1) unfolding distrib_left by linarith
    then show False using assms(3) by simp
  qed
  with le consider "L div b = A div b" | "L div b = A div b + 1" by linarith
  then show thesis
  proof cases
    case 1
    then have "b * (L div b) = b * (A div b)" by simp
    then show ?thesis using L A assms(2) by (intro same [OF 1]) linarith+
  next
    case 2
    then have "b * (L div b) = b * (A div b) + b" by simp
    then show ?thesis using L A r assms(2,3) by (intro wrapped [OF 2]) linarith+
  qed
qed

lemma ring_free:
  fixes b :: nat
  assumes "0 < b" "A \<le> L" "L - A < b"
  shows "(if A mod b = L mod b then b else if A mod b < L mod b then A mod b + (b - L mod b) else A mod b - L mod b) =
    b - (L - A)"
proof -
  have r: "L mod b < b" "A mod b < b" using assms(1) by simp_all
  show ?thesis by (cases rule: ring_split [OF assms]) (use r in \<open>auto split: if_splits\<close>)
qed

lemma ring_contiguous:
  fixes b :: nat
  assumes "0 < b" "A \<le> L" "L - A < b"
  shows "(if L mod b < A mod b then A mod b - L mod b else b - L mod b) = min (b - L mod b) (b - (L - A))"
proof -
  have r: "L mod b < b" "A mod b < b" using assms(1) by simp_all
  show ?thesis by (cases rule: ring_split [OF assms]) (use r in \<open>auto split: if_splits\<close>)
qed

text \<open>Different positions less than a round apart have different offsets.\<close>

lemma ring_inj: "p < q \<Longrightarrow> q < p + b \<Longrightarrow> p mod b \<noteq> q mod (b :: nat)"
proof
  assume pq: "p < q" "q < p + b" "p mod b = q mod b"
  then have "b dvd q - p" by (metis mod_eq_dvd_iff_nat less_imp_le)
  then have "b \<le> q - p" using pq(1) by (intro dvd_imp_le) auto
  then show False using pq by simp
qed

lemma mod_add_less: "x mod b + k < b \<Longrightarrow> (x + k) mod b = x mod b + (k :: nat)"
  by (metis mod_add_left_eq mod_less)

section \<open>The state in terms of positions\<close>

text \<open>The configuration \<^verbatim>\<open>LogManager\<close> insists on, for a log that is written to the device.\<close>

definition wal_geom :: "flags \<Rightarrow> nat \<Rightarrow> bool" where
  "wal_geom fl b \<longleftrightarrow> unat (FLAGS_wal_buffer_size fl) = b \<and> 4096 dvd b \<and> 16384 \<le> b \<and> b < 2 ^ 31 \<and>
     FLAGS_wal fl \<and> FLAGS_wal_pwrite fl"

text \<open>\<open>L\<close> is the position of the LSN counter, \<open>G\<close> that of the group committer.\<close>

definition wal_pos :: "nat \<Rightarrow> nat \<Rightarrow> nat \<Rightarrow> Logging \<Rightarrow> bool" where
  "wal_pos b L G l \<longleftrightarrow> unat (wal_lsn_counter l) = L \<and> unat (wal_log_cursor l) = L mod b \<and>
     unat (wal_gct_cursor l) = G mod b \<and> G \<le> L \<and> L - dn G + 32 \<le> b \<and> L mod b + 32 \<le> b \<and> L < 2 ^ 48"

lemma unat_downAlign: "unat (downAlign x LOG_DEV_BLK_SIZE) = dn (unat x)"
  using downAlign_unat [of x 12] by (simp add: LOG_DEV_BLK_SIZE_def dn_def)

lemma unat_upAlign: "unat x + 4096 \<le> 2 ^ 64 \<Longrightarrow> unat (upAlign x LOG_DEV_BLK_SIZE) = up (unat x)"
  using upAlign_unat [of 12 x] by (simp add: LOG_DEV_BLK_SIZE_def up_def dn_def)

lemma of_nat_of_unat: "unat (w :: u64) = k \<Longrightarrow> w = of_nat k"
proof -
  assume "unat w = k"
  then have "of_nat (unat w) = (of_nat k :: u64)" by (rule arg_cong)
  then show ?thesis by simp
qed

lemma unat_ucast_32: "unat x < 2 ^ 32 \<Longrightarrow> unat (ucast (x :: u64) :: u32) = unat x"
  by (simp add: unsigned_ucast_eq take_bit_nat_eq_self)

lemma unat_ucast_64 [simp]: "unat (ucast (x :: u32) :: u64) = unat x"
  using unsigned_less [of x, where 'a = nat] by (simp add: unsigned_ucast_eq take_bit_nat_eq_self)

lemma pos_facts:
  assumes "wal_geom fl b" "wal_pos b L G l"
  shows
  "0 < b" "dn G \<le> L" "L - dn G < b" "unat (gct_aligned l) = dn G mod b" "unat (wal_log_cursor l) = L mod b"
  "unat (FLAGS_wal_buffer_size fl) = b" "L mod b + 32 \<le> b" "b < 2 ^ 31"
  using assms dn_bounds(1) [of G]
  by (auto simp: wal_geom_def wal_pos_def gct_aligned_def unat_downAlign dn_mod)

lemma unat_walFreeSpace:
  assumes "wal_geom fl b" "wal_pos b L G l"
  shows "unat (walFreeSpace fl l) = b - (L - dn G)"
proof -
  note f = pos_facts [OF assms(1,2)]
  have r: "dn G mod b < b" using f(1) by simp
  let ?x = "if gct_aligned l = wal_log_cursor l then FLAGS_wal_buffer_size fl
    else if gct_aligned l < wal_log_cursor l then gct_aligned l + (FLAGS_wal_buffer_size fl - wal_log_cursor l)
    else gct_aligned l - wal_log_cursor l"
  have d: "unat (FLAGS_wal_buffer_size fl - wal_log_cursor l) = b - L mod b"
    using f by (simp add: unat_sub_if')
  have "unat ?x = (if dn G mod b = L mod b then b else if dn G mod b < L mod b then dn G mod b + (b - L mod b)
      else dn G mod b - L mod b)"
    using f r d by (auto simp: word_unat_eq_iff word_less_nat_alt unat_plus_if' unat_sub_if')
  then have "unat ?x = b - (L - dn G)" by (simp only: ring_free [OF f(1-3)])
  moreover have "b - (L - dn G) < 2 ^ 32" using f(8) by simp
  ultimately show ?thesis unfolding walFreeSpace_def Let_def by (simp only: unat_ucast_32)
qed

lemma unat_walContiguousFreeSpace:
  assumes "wal_geom fl b" "wal_pos b L G l"
  shows "unat (walContiguousFreeSpace fl l) = min (b - L mod b) (b - (L - dn G))"
proof -
  note f = pos_facts [OF assms(1,2)]
  let ?x = "if gct_aligned l > wal_log_cursor l then gct_aligned l - wal_log_cursor l
    else FLAGS_wal_buffer_size fl - wal_log_cursor l"
  have "unat ?x = (if L mod b < dn G mod b then dn G mod b - L mod b else b - L mod b)"
    using f by (auto simp: word_less_nat_alt unat_sub_if')
  then have "unat ?x = min (b - L mod b) (b - (L - dn G))" by (simp only: ring_contiguous [OF f(1-3)])
  moreover have "min (b - L mod b) (b - (L - dn G)) < 2 ^ 32" using f(8) by simp
  ultimately show ?thesis unfolding walContiguousFreeSpace_def Let_def by (simp only: unat_ucast_32)
qed

lemma unat_wait_bytes:
  assumes "wal_geom fl b" "wal_pos b L G l" "unat req + 32 \<le> 4096"
  shows "unat (wait_untill_free_bytes fl req l) =
    unat req + 32 + (if b - L mod b < unat req + 32 then b - L mod b else 0)"
proof -
  note f = pos_facts [OF assms(1,2)]
  have w: "unat (req + of_nat CR_ENTRY_SIZE) = unat req + 32"
    using assms(3) by (simp add: CR_ENTRY_SIZE_def unat_plus_if')
  have d: "unat (FLAGS_wal_buffer_size fl - wal_log_cursor l) = b - L mod b"
    using f by (simp add: unat_sub_if')
  then have d32: "unat (ucast (FLAGS_wal_buffer_size fl - wal_log_cursor l) :: u32) = b - L mod b"
    using f(8) by (subst unat_ucast_32) simp_all
  show ?thesis
    unfolding wait_untill_free_bytes_def Let_def word_less_nat_alt unat_ucast_64 w d
    using w d32 f(8) assms(3) by (auto simp: unat_plus_if')
qed

end
