(* ===== verification/WAL_Holes.thy ===== *)
theory WAL_Holes
  imports WAL_Space
begin

text \<open>
  The holes of the log buffer.  The queue is related to the list of all holes ever inserted: a
  hole is identified by its index in that list, and the queue holds the holes from its head
  counter on.  What has been published is a prefix of unlocked holes.
\<close>

record hole_ghost =
  gh_pos :: nat
  gh_gsn :: LID
  gh_locked :: bool

definition enc :: "nat \<Rightarrow> hole_ghost \<Rightarrow> hole_t" where
  "enc b h = \<lparr>log_buffer_offset = of_nat (gh_pos h mod b) OR (if gh_locked h then HOLE_LATCH_BIT else 0), hole_gsn = gh_gsn h\<rparr>"

definition ppos :: "hole_ghost list \<Rightarrow> nat \<Rightarrow> nat" where
  "ppos H n = (if n = 0 then 0 else gh_pos (H ! (n - 1)))"

definition pgsn :: "hole_ghost list \<Rightarrow> nat \<Rightarrow> LID" where
  "pgsn H n = (if n = 0 then 0 else gh_gsn (H ! (n - 1)))"

definition holes_ordered :: "hole_ghost list \<Rightarrow> nat \<Rightarrow> bool" where
  "holes_ordered H L \<longleftrightarrow> sorted_wrt (<) (map gh_pos H) \<and> list_all ((<) 0) (map gh_pos H) \<and> ppos H (length H) = L"

text \<open>\<open>n\<close> is the number of holes published.\<close>

definition hinv :: "nat \<Rightarrow> hole_ghost list \<Rightarrow> nat \<Rightarrow> nat \<Rightarrow> Logging \<Rightarrow> bool" where
  "hinv b H n L l \<longleftrightarrow> cq_inv MAX_PENDING_HOLES (holes l) \<and> unat (tail (holes l)) = length H \<and>
     unat (head (holes l)) \<le> n \<and> n \<le> length H \<and>
     cq_list MAX_PENDING_HOLES (holes l) = map (enc b) (drop (unat (head (holes l))) H) \<and>
     (\<forall>i < n. \<not> gh_locked (H ! i)) \<and> holes_ordered H L \<and>
     unat (wal_written_offset (wt_to_lw l)) = ppos H n mod b \<and> last_gsn (wt_to_lw l) = pgsn H n"

section \<open>Encoding\<close>

lemma bit_HOLE_LATCH_BIT: "bit HOLE_LATCH_BIT n \<longleftrightarrow> n = 31"
  unfolding HOLE_LATCH_BIT_def bit_push_bit_iff bit_1_iff by auto

lemma latch_bit_facts:
  fixes w :: u32
  assumes "\<And>i. bit w i \<Longrightarrow> i < 31"
  shows "w AND HOLE_LATCH_BIT = 0" "(w OR HOLE_LATCH_BIT) AND HOLE_LATCH_BIT \<noteq> 0"
    "(w OR HOLE_LATCH_BIT) AND NOT HOLE_LATCH_BIT = w"
proof -
  show "w AND HOLE_LATCH_BIT = 0" "(w OR HOLE_LATCH_BIT) AND NOT HOLE_LATCH_BIT = w"
    by (rule bit_word_eqI; auto simp: bit_and_iff bit_or_iff bit_not_iff bit_HOLE_LATCH_BIT dest: assms)+
  have "bit ((w OR HOLE_LATCH_BIT) AND HOLE_LATCH_BIT) 31" by (simp add: bit_and_iff bit_or_iff bit_HOLE_LATCH_BIT)
  then show "(w OR HOLE_LATCH_BIT) AND HOLE_LATCH_BIT \<noteq> 0" by (metis bit_0_eq bot_apply bot_bool_def)
qed

lemma bit_of_small: "0 < b \<Longrightarrow> b < 2 ^ 31 \<Longrightarrow> bit (of_nat (k mod b) :: u32) i \<Longrightarrow> i < 31"
proof -
  assume b: "0 < b" "b < 2 ^ 31" and i: "bit (of_nat (k mod b) :: u32) i"
  have "k mod b < 2 ^ 31" using b by (meson mod_less_divisor order.strict_trans)
  then have "take_bit 31 (of_nat (k mod b) :: u32) = of_nat (k mod b)"
    by (simp add: take_bit_nat_eq_self flip: of_nat_take_bit)
  then show "i < 31" using i by (metis bit_take_bit_iff)
qed

lemma enc_locked:
  assumes "0 < b" "b < 2 ^ 31"
  shows "hole_isLocked (enc b h) \<longleftrightarrow> gh_locked h"
  using latch_bit_facts [OF bit_of_small [OF assms]] by (simp add: hole_isLocked_def enc_def)

lemma enc_offset:
  assumes "0 < b" "b < 2 ^ 31" "\<not> gh_locked h"
  shows "unat (ucast (log_buffer_offset (enc b h)) :: u64) = gh_pos h mod b"
proof -
  have "gh_pos h mod b < 2 ^ 31" using assms by (meson mod_less_divisor order.strict_trans)
  then show ?thesis using assms(3) by (simp add: enc_def unat_of_nat take_bit_nat_eq_self)
qed

lemma enc_unlock:
  assumes "0 < b" "b < 2 ^ 31" "gh_locked h"
  shows "hole_unlock (enc b h) = Some (enc b (h\<lparr>gh_locked := False\<rparr>))"
  using assms(3) latch_bit_facts(3) [OF bit_of_small [OF assms(1,2)]] enc_locked [OF assms(1,2), of h]
  by (simp add: hole_unlock_def ensure_def enc_def)

lemma hole_new_enc:
  assumes "b < 2 ^ 31" "0 < b" "unat c = p mod b"
  shows "hole_new (ucast (c :: u64)) g = enc b \<lparr>gh_pos = p, gh_gsn = g, gh_locked = True\<rparr>"
proof -
  have "(ucast c :: u32) = of_nat (unat c)" by (simp add: unsigned_ucast_eq)
  then show ?thesis by (simp add: hole_new_def enc_def assms(3))
qed

section \<open>Order\<close>

lemma ordered_mono:
  assumes "holes_ordered H L" "m \<le> n" "n \<le> length H"
  shows "ppos H m \<le> ppos H n"
proof (cases "m = 0 \<or> m = n")
  case False
  then have "map gh_pos H ! (m - 1) < map gh_pos H ! (n - 1)"
    using assms by (intro sorted_wrt_nth_less [of "(<)" "map gh_pos H"]) (auto simp: holes_ordered_def)
  moreover have "m - 1 < length H" "n - 1 < length H" using False assms by auto
  ultimately show ?thesis using False assms by (simp add: ppos_def)
qed (auto simp: ppos_def)

lemma ordered_length: "holes_ordered H L \<Longrightarrow> length H \<le> L"
proof -
  assume H: "holes_ordered H L"
  have "n \<le> ppos H n" if "n \<le> length H" for n
    using that
  proof (induction n)
    case (Suc n)
    show ?case
    proof (cases n)
      case 0
      then show ?thesis using H Suc.prems by (auto simp: holes_ordered_def ppos_def Suc_le_eq list_all_iff)
    next
      case (Suc m)
      then have "gh_pos (H ! m) < gh_pos (H ! Suc m)"
        using H Suc.prems sorted_wrt_nth_less [of "(<)" "map gh_pos H" m "Suc m"] by (simp add: holes_ordered_def)
      then show ?thesis using Suc.IH Suc.prems Suc by (simp add: ppos_def)
    qed
  qed simp
  then show ?thesis using H by (auto simp: holes_ordered_def)
qed

lemma ordered_append:
  assumes "holes_ordered H L" "L < L'"
  shows "holes_ordered (H @ [\<lparr>gh_pos = L', gh_gsn = g, gh_locked = k\<rparr>]) L'"
proof -
  have "gh_pos h < L'" if "h \<in> set H" for h
  proof -
    obtain i where "i < length H" "h = H ! i" using \<open>h \<in> set H\<close> by (auto simp: in_set_conv_nth)
    then have "gh_pos h \<le> L" using ordered_mono [OF assms(1), of "Suc i" "length H"] assms(1)
      by (auto simp: holes_ordered_def ppos_def)
    then show ?thesis using assms(2) by simp
  qed
  then show ?thesis using assms by (auto simp: holes_ordered_def sorted_wrt_append ppos_def nth_append)
qed

lemma ppos_append: "n \<le> length H \<Longrightarrow> ppos (H @ X) n = ppos H n"
  by (auto simp: ppos_def nth_append)

lemma pgsn_append: "n \<le> length H \<Longrightarrow> pgsn (H @ X) n = pgsn H n"
  by (auto simp: pgsn_def nth_append)

lemma pgsn_unlock: "pgsn (H[i := (H ! i)\<lparr>gh_locked := k\<rparr>]) n = pgsn H n"
  by (cases "i < length H") (auto simp: pgsn_def nth_list_update list_update_beyond)

lemma ordered_unlock: "holes_ordered (H[i := (H ! i)\<lparr>gh_locked := k\<rparr>]) L \<longleftrightarrow> holes_ordered H L"
  and ppos_unlock: "ppos (H[i := (H ! i)\<lparr>gh_locked := k\<rparr>]) n = ppos H n"
proof -
  have m: "map gh_pos (H[i := (H ! i)\<lparr>gh_locked := k\<rparr>]) = map gh_pos H"
    using list_update_id [of "map gh_pos H" i] by (cases "i < length H") (simp_all add: map_update list_update_beyond)
  have "gh_pos (H[i := (H ! i)\<lparr>gh_locked := k\<rparr>] ! j) = gh_pos (H ! j)" for j
    by (cases "i < length H") (auto simp: nth_list_update list_update_beyond)
  then show p: "ppos (H[i := (H ! i)\<lparr>gh_locked := k\<rparr>]) n = ppos H n" for n by (simp add: ppos_def)
  show "holes_ordered (H[i := (H ! i)\<lparr>gh_locked := k\<rparr>]) L \<longleftrightarrow> holes_ordered H L"
    unfolding holes_ordered_def m p by simp
qed

section \<open>Operations\<close>

lemma hinv_size: "hinv b H n L l \<Longrightarrow> length (cq_list MAX_PENDING_HOLES (holes l)) = length H - unat (head (holes l))"
  by (simp add: hinv_def)

lemma publish_hole_simps [simp]:
  "holes (publish_hole h l) = holes l" "wal_log_cursor (publish_hole h l) = wal_log_cursor l"
  "log_gsn_clock (publish_hole h l) = log_gsn_clock l"
  by (simp_all add: publish_hole_def)

text \<open>Which fields an operation on the holes leaves alone.\<close>

definition same_but_holes :: "Logging \<Rightarrow> Logging \<Rightarrow> bool" where
  "same_but_holes l l' \<longleftrightarrow> l' = l\<lparr>holes := holes l', wt_to_lw := wt_to_lw l'\<rparr>"

lemma same_but_holesD:
  assumes "same_but_holes l l'"
  shows "wal_log_cursor l' = wal_log_cursor l" "wal_gct_cursor l' = wal_gct_cursor l" "wal_lsn_counter l' = wal_lsn_counter l"
    "wal_buffer l' = wal_buffer l" "log_gsn_clock l' = log_gsn_clock l" "log_segment_size l' = log_segment_size l"
    "log_segment_start l' = log_segment_start l" "fake_wrap_around_offset l' = fake_wrap_around_offset l"
    "is_sink_log l' = is_sink_log l" "redirect_to_sink_log l' = redirect_to_sink_log l" "log_id l' = log_id l"
    "hardened_gsn l' = hardened_gsn l"
  by (subst assms [unfolded same_but_holes_def], simp)+

lemma same_but_holes_trans: "same_but_holes l l' \<Longrightarrow> same_but_holes l' l'' \<Longrightarrow> same_but_holes l l''"
  unfolding same_but_holes_def by (cases l; cases l'; cases l'') simp


lemma erase_loop_frame: "erase_loop N P lei q = (lei', q') \<Longrightarrow> q' = q\<lparr>head := head q'\<rparr>"
proof (induction N P lei q rule: erase_loop.induct)
  case (1 N P lei q)
  show ?case
  proof (cases "\<not> empty q \<and> P (arr q ! slot N (head q))")
    case True
    then have "erase_loop N P (head q) (q\<lparr>head := head q + 1\<rparr>) = (lei', q')"
      using "1.prems" by (simp add: erase_loop.simps [of N P lei q])
    then have "q' = q\<lparr>head := head q + 1\<rparr>\<lparr>head := head q'\<rparr>" using "1.IH" True by blast
    then show ?thesis by simp
  next
    case False
    then show ?thesis using "1.prems" by (auto simp: erase_loop.simps [of N P lei q])
  qed
qed

lemma erase_frame: "erase_front_while N P q = (r, q') \<Longrightarrow> q' = q\<lparr>head := head q'\<rparr>"
  using erase_loop_frame [of N P "- 1" q] by (auto simp: erase_front_while_def Let_def split: prod.splits if_splits)

lemma unat_diff_le: "unat (h :: u64) \<le> unat t \<Longrightarrow> unat (t - h) = unat t - unat h"
  by (simp add: unat_sub word_le_nat_alt)

lemma head_of_remaining:
  fixes t h :: u64
  assumes "unat (t - h) + k = unat t"
  shows "unat h = k"
proof -
  have "t - h \<le> t" using assms by (simp add: word_le_nat_alt)
  then have "unat (t - (t - h)) = unat t - unat (t - h)" by (rule unat_sub)
  moreover have "t - (t - h) = h" by simp
  ultimately have "unat h = unat t - unat (t - h)" by (simp only:)
  then show ?thesis using assms by linarith
qed

text \<open>
  Collecting erases the longest prefix of unlocked holes and publishes its end.
\<close>

lemma collect_spec:
  assumes b: "0 < b" "b < 2 ^ 31" and h: "hinv b H n L l" "L < 2 ^ 48"
  obtains l' n' where "collect_filled_holes False l = Some l'" "hinv b H n' L l'" "same_but_holes l l'" "n \<le> n'"
    "n' = unat (head (holes l'))" "n' < length H \<Longrightarrow> gh_locked (H ! n')"
proof -
  let ?N = MAX_PENDING_HOLES and ?q = "holes l" and ?P = "\<lambda>h. \<not> hole_isLocked h" and ?u = "\<lambda>h. \<not> gh_locked h"
  define hd T where "hd = unat (head ?q)" and "T = drop hd H"
  have q: "cq_inv ?N ?q" "unat (tail ?q) = length H" "hd \<le> n" "n \<le> length H" "cq_list ?N ?q = map (enc b) T"
    "\<forall>i < n. \<not> gh_locked (H ! i)" "holes_ordered H L" "unat (wal_written_offset (wt_to_lw l)) = ppos H n mod b" "last_gsn (wt_to_lw l) = pgsn H n"
    using h(1) by (auto simp: hinv_def hd_def T_def)
  define k where "k = length (takeWhile ?u T)"
  have k: "k \<le> length T" unfolding k_def by (rule length_takeWhile_le)
  have pre: "takeWhile ?P (map (enc b) T) = map (enc b) (take k T)" "dropWhile ?P (map (enc b) T) = map (enc b) (drop k T)"
    using takeWhile_eq_take [of ?u T] dropWhile_eq_drop [of ?u T]
    by (simp_all add: k_def takeWhile_map dropWhile_map o_def enc_locked [OF b])
  obtain r q' where e: "erase_front_while ?N ?P ?q = (r, q')" by fastforce
  have "length H \<le> L" using q(7) by (rule ordered_length)
  then have "unat (head ?q) + length (cq_list ?N ?q) < 2 ^ 64" using h(2) q(3,4,5) by (simp add: hd_def T_def)
  from erase_front_while_spec [OF q(1) this, of ?P]
  have e': "cq_inv ?N q'" "cq_list ?N q' = map (enc b) (drop k T)"
    "r = None \<Longrightarrow> k = 0" "\<And>s. r = Some s \<Longrightarrow> 0 < k \<and> arr q' ! s = enc b (T ! (k - 1))"
    using k by (auto simp: e q(5) pre last_map last_conv_nth split: option.splits)
  have fr: "tail q' = tail ?q" using arg_cong [OF erase_frame [OF e], of tail] by simp
  have "length (cq_list ?N q') = unat (tail q' - head q')" by simp
  then have hd': "unat (head q') = hd + k"
    using e'(2) fr q(2,3,4) k by (intro head_of_remaining [of "tail q'"]) (simp add: T_def)
  have unl: "\<not> gh_locked (T ! i)" if "i < k" for i
  proof -
    have "T ! i \<in> set (takeWhile ?u T)" using that takeWhile_nth [of i ?u T] nth_mem [of i "takeWhile ?u T"] by (simp add: k_def)
    then show ?thesis by (auto dest: set_takeWhileD)
  qed
  have lk: "gh_locked (T ! k)" if "k < length T" using nth_length_takeWhile [of ?u T] that by (simp add: k_def)
  have Tn: "T ! i = H ! (hd + i)" for i using q(3,4) by (simp add: T_def)
  have all: "\<not> gh_locked (H ! i)" if "i < hd + k" for i
    using unl [of "i - hd"] q(3,6) that by (cases "i < hd") (auto simp: Tn)
  have n: "n \<le> hd + k"
  proof (rule ccontr)
    assume *: "\<not> ?thesis"
    then have "k < length T" using q(3,4) by (simp add: T_def)
    then show False using lk q(6) * by (auto simp: Tn)
  qed
  show thesis
  proof (cases r)
    case None
    then have "k = 0" "n = hd" using e'(3) n q(3) by auto
    moreover from this have "head q' = head ?q" using hd' by (simp add: hd_def word_unat_eq_iff)
    then have "q' = ?q" using erase_frame [OF e] by simp
    ultimately show ?thesis
      using that [of l n] h(1) e None lk Tn [of 0] q(2)
      by (auto simp: collect_filled_holes_def same_but_holes_def hd_def T_def)
  next
    case (Some s)
    then have ks: "0 < k" "arr q' ! s = enc b (T ! (k - 1))" using e'(4) by blast+
    have "length (cq_list ?N q') < ?N"
      using e'(2) ks(1) q(1,5) k by (auto simp: cq_inv_def dest: arg_cong [where f = length])
    then have nf: "\<not> full ?N q'" by (simp add: full_def)
    let ?l = "publish_hole (arr q' ! s) (l\<lparr>holes := q'\<rparr>)"
    have "unat (wal_written_offset (wt_to_lw ?l)) = gh_pos (T ! (k - 1)) mod b"
      using enc_offset [OF b unl [of "k - 1"]] ks by (simp add: publish_hole_def)
    also have "gh_pos (T ! (k - 1)) = ppos H (hd + k)" using ks(1) by (simp add: ppos_def Tn)
    finally have w: "unat (wal_written_offset (wt_to_lw ?l)) = ppos H (hd + k) mod b" .
    have gs: "last_gsn (wt_to_lw ?l) = pgsn H (hd + k)" using ks by (simp add: publish_hole_def enc_def pgsn_def Tn)
    have "hd + k \<le> length H" using k q(3,4) by (simp add: T_def)
    moreover have "drop k T = drop (unat (head q')) H" by (simp add: T_def hd' add.commute)
    ultimately have "hinv b H (hd + k) L ?l"
      unfolding hinv_def w gs publish_hole_simps Logging.select_convs Logging.update_convs using q(2,7) e'(1,2) hd' all fr by simp
    moreover have "collect_filled_holes False l = Some ?l"
      using e Some nf by (simp add: collect_filled_holes_def ensure_def)
    moreover have "same_but_holes l ?l" by (simp add: same_but_holes_def publish_hole_def)
    moreover have "gh_locked (H ! (hd + k))" if "hd + k < length H" using lk that by (simp add: T_def)
    ultimately show ?thesis using n hd' by (intro that [of ?l "hd + k"]) simp_all
  qed
qed


lemma emplace_spec:
  assumes "hinv b H n L l" "length H - unat (head (holes l)) < MAX_PENDING_HOLES" "L < L'" "L' < 2 ^ 48" "0 < b" "b < 2 ^ 31"
    "unat (wal_log_cursor l) = L' mod b"
  defines "h \<equiv> \<lparr>gh_pos = L', gh_gsn = log_gsn_clock l, gh_locked = True\<rparr>"
  obtains q where "emplace_back MAX_PENDING_HOLES (hole_new (ucast (wal_log_cursor l)) (log_gsn_clock l)) (holes l) =
      (Some (slot MAX_PENDING_HOLES (tail (holes l))), q)" "hinv b (H @ [h]) n L' (l\<lparr>holes := q\<rparr>)" "head q = head (holes l)"
proof -
  let ?N = MAX_PENDING_HOLES and ?q = "holes l"
  have q: "cq_inv ?N ?q" "unat (tail ?q) = length H" "unat (head ?q) \<le> n" "n \<le> length H"
    "cq_list ?N ?q = map (enc b) (drop (unat (head ?q)) H)" "\<forall>i < n. \<not> gh_locked (H ! i)" "holes_ordered H L"
    "unat (wal_written_offset (wt_to_lw l)) = ppos H n mod b" "last_gsn (wt_to_lw l) = pgsn H n"
    using assms(1) by (auto simp: hinv_def)
  have nf: "\<not> full ?N ?q" using assms(2) q(2-4) by (simp add: full_def unat_diff_le)
  have x: "hole_new (ucast (wal_log_cursor l)) (log_gsn_clock l) = enc b h"
    unfolding h_def using assms(5-7) by (intro hole_new_enc)
  let ?q' = "?q\<lparr>arr := (arr ?q)[slot ?N (tail ?q) := enc b h], tail := tail ?q + 1\<rparr>"
  have "length H < 2 ^ 48" using ordered_length [OF q(7)] assms(3,4) by simp
  then have t: "unat (tail ?q + 1) = length H + 1" using q(2) by (simp add: unat_plus_if')
  have "hinv b (H @ [h]) n L' (l\<lparr>holes := ?q'\<rparr>)"
    using cq_inv_emplace [OF q(1) nf, of "enc b h"] q t ordered_append [OF q(7) assms(3)]
    by (auto simp: hinv_def h_def nth_append ppos_append pgsn_append)
  moreover have "emplace_back ?N (enc b h) ?q = (Some (slot ?N (tail ?q)), ?q')" using nf by (simp add: emplace_back_def Let_def)
  ultimately show thesis using that [of ?q'] x by simp
qed

text \<open>Inserting a hole waits only when there is no room for it, and may publish older ones.\<close>

lemma collect_wait: "collect_filled_holes w l = Some l' \<Longrightarrow> collect_filled_holes False l = Some l'"
  by (auto simp: collect_filled_holes_def split: prod.splits option.splits if_splits)

lemma insertHole_cases:
  assumes "hinv b H n L l" "L < L'" "L' < 2 ^ 48" "0 < b" "b < 2 ^ 31" "unat (wal_log_cursor l) = L' mod b"
  defines "h \<equiv> \<lparr>gh_pos = L', gh_gsn = log_gsn_clock l, gh_locked = True\<rparr>"
  obtains (stuck) "insertHole l = None" "MAX_PENDING_HOLES \<le> length H - unat (head (holes l))"
    | (ok) l' n' where "insertHole l = Some (slot MAX_PENDING_HOLES (of_nat (length H)), l')" "hinv b (H @ [h]) n' L' l'"
      "same_but_holes l l'" "n \<le> n'" "n' = unat (head (holes l'))"
proof (cases "collect_filled_holes (full MAX_PENDING_HOLES (holes l)) l")
  case None
  obtain l1 where "collect_filled_holes False l = Some l1"
    using collect_spec [OF assms(4,5,1)] assms(2,3) by (metis order.strict_trans)
  then have "full MAX_PENDING_HOLES (holes l)" using None by (cases "full MAX_PENDING_HOLES (holes l)") auto
  then have "MAX_PENDING_HOLES \<le> length H - unat (head (holes l))" using assms(1) by (auto simp: hinv_def full_def unat_diff_le)
  then show thesis using stuck None by (simp add: insertHole_def)
next
  case (Some l1)
  then obtain n1 where c: "hinv b H n1 L l1" "same_but_holes l l1" "n \<le> n1" "n1 = unat (head (holes l1))"
    using collect_spec [OF assms(4,5,1)] assms(2,3) collect_wait [OF Some] by (metis order.strict_trans option.inject)
  note same = same_but_holesD [OF c(2)]
  have hd: "unat (head (holes l)) \<le> n" using assms(1) by (simp add: hinv_def)
  show thesis
  proof (cases "length H - unat (head (holes l1)) < MAX_PENDING_HOLES")
    case False
    then have "full MAX_PENDING_HOLES (holes l1)" using c(1) by (auto simp: hinv_def full_def unat_diff_le)
    then have "insertHole l = None" using Some by (simp add: insertHole_def emplace_back_def)
    moreover have "MAX_PENDING_HOLES \<le> length H - unat (head (holes l))" using False c(3,4) hd by simp
    ultimately show ?thesis by (rule stuck)
  next
    case True
    from emplace_spec [OF c(1) this assms(2-5)] obtain q where
      q: "emplace_back MAX_PENDING_HOLES (hole_new (ucast (wal_log_cursor l1)) (log_gsn_clock l1)) (holes l1) =
        (Some (slot MAX_PENDING_HOLES (tail (holes l1))), q)" "hinv b (H @ [h]) n1 L' (l1\<lparr>holes := q\<rparr>)" "head q = head (holes l1)"
      using assms(6) unfolding same h_def by blast
    have "tail (holes l1) = of_nat (length H)" using c(1) by (intro of_nat_of_unat) (simp add: hinv_def)
    moreover have "same_but_holes l (l1\<lparr>holes := q\<rparr>)"
      using c(2) same_but_holes_trans [of l l1 "l1\<lparr>holes := q\<rparr>"] by (simp add: same_but_holes_def)
    ultimately show ?thesis
      using ok [of "l1\<lparr>holes := q\<rparr>" n1] Some c(3,4) q by (simp add: insertHole_def)
  qed
qed

text \<open>Unlocking the hole with index \<open>i\<close>.\<close>

lemma unlock_spec:
  assumes "hinv b H n L l" "i < length H" "gh_locked (H ! i)" "0 < b" "b < 2 ^ 31" "L < 2 ^ 48"
  obtains l' where "unlock_slot (slot MAX_PENDING_HOLES (of_nat i)) l = Some l'"
    "hinv b (H[i := (H ! i)\<lparr>gh_locked := False\<rparr>]) n L l'" "same_but_holes l l'" "head (holes l') = head (holes l)"
    "wt_to_lw l' = wt_to_lw l"
proof -
  let ?N = MAX_PENDING_HOLES and ?q = "holes l" and ?h = "(H ! i)\<lparr>gh_locked := False\<rparr>"
  have q: "cq_inv ?N ?q" "unat (tail ?q) = length H" "unat (head ?q) \<le> n" "n \<le> length H"
    "cq_list ?N ?q = map (enc b) (drop (unat (head ?q)) H)" "\<forall>i < n. \<not> gh_locked (H ! i)" "holes_ordered H L"
    "unat (wal_written_offset (wt_to_lw l)) = ppos H n mod b" "last_gsn (wt_to_lw l) = pgsn H n"
    using assms(1) by (auto simp: hinv_def)
  define hd k where "hd = unat (head ?q)" and "k = i - hd"
  have i: "n \<le> i" using q(6) assms(3) by (meson not_less)
  then have k: "i = hd + k" "hd \<le> i" using q(3) by (auto simp: k_def hd_def)
  have len: "length (cq_list ?N ?q) = length H - hd" using q(2-4) by (simp add: unat_diff_le hd_def)
  then have kl: "k < length (cq_list ?N ?q)" using assms(2) k by simp
  have "of_nat i = head ?q + of_nat k" using k(1) by (simp add: hd_def)
  then have sl: "slot ?N (of_nat i) = slot ?N (head ?q + of_nat k)" by simp
  have N: "?N dvd 2 ^ 64" "0 < ?N" "length (arr ?q) = ?N" "length (cq_list ?N ?q) \<le> ?N"
    using q(1) by (auto simp: cq_inv_def)
  have at: "arr ?q ! slot ?N (of_nat i) = enc b (H ! i)"
  proof -
    have "cq_list ?N ?q ! k = arr ?q ! slot ?N (of_nat i)" unfolding sl using kl by (simp add: cq_list_def)
    then show ?thesis using q(5) kl k assms(2) by (simp add: hd_def)
  qed
  let ?q' = "?q\<lparr>arr := (arr ?q)[slot ?N (of_nat i) := enc b ?h]\<rparr>"
  have "cq_list ?N ?q' = (cq_list ?N ?q)[k := enc b ?h]"
  proof (rule nth_equalityI)
    fix j assume "j < length (cq_list ?N ?q')"
    then have j: "j < length (cq_list ?N ?q)" by simp
    then have "slot ?N (head ?q + of_nat j) = slot ?N (of_nat i) \<longleftrightarrow> j = k"
      unfolding sl using kl N by (intro slot_inj) auto
    then show "cq_list ?N ?q' ! j = (cq_list ?N ?q)[k := enc b ?h] ! j"
      using j N by (auto simp: cq_list_def nth_list_update)
  qed simp
  also have "\<dots> = map (enc b) (drop hd (H[i := ?h]))"
    using q(5) k(1) by (simp add: hd_def map_update drop_update_swap)
  finally have "hinv b (H[i := ?h]) n L (l\<lparr>holes := ?q'\<rparr>)"
    using q i by (auto simp: hinv_def hd_def ordered_unlock ppos_unlock pgsn_unlock cq_inv_def)
  moreover have "unlock_slot (slot ?N (of_nat i)) l = Some (l\<lparr>holes := ?q'\<rparr>)"
    using at enc_unlock [OF assms(4,5,3)] by (simp add: unlock_slot_def)
  ultimately show thesis using that [of "l\<lparr>holes := ?q'\<rparr>"] by (simp add: same_but_holes_def)
qed

text \<open>Draining publishes everything, and waits only for a locked hole.\<close>

lemma drain_cases:
  assumes "hinv b H n L l" "0 < b" "b < 2 ^ 31"
  obtains (stuck) "drain_holes l = None" "\<exists>h \<in> set H. gh_locked h"
    | (ok) l' n' where "drain_holes l = Some l'" "hinv b H n' L l'" "same_but_holes l l'" "n \<le> n'" "holes l' = holes l"
proof (cases "empty (holes l)")
  case True
  then show thesis using ok [of l n] assms(1) by (simp add: drain_holes_def same_but_holes_def)
next
  case False
  let ?N = MAX_PENDING_HOLES and ?q = "holes l"
  have q: "unat (head ?q) \<le> n" "n \<le> length H" "cq_list ?N ?q = map (enc b) (drop (unat (head ?q)) H)" "\<forall>i < n. \<not> gh_locked (H ! i)"
    using assms(1) by (auto simp: hinv_def)
  have v: "visit ?N ?q (it_begin ?q) = cq_list ?N ?q" by (simp add: visit_eq_map it_begin_def cq_list_def)
  have ne: "drop (unat (head ?q)) H \<noteq> []" using False empty_iff_cq_list [of ?q ?N] q(3) by auto
  have d: "drain_holes l = (if list_all (\<lambda>h. \<not> hole_isLocked h) (cq_list ?N ?q) then Some (publish_hole (last (cq_list ?N ?q)) l) else None)"
    using False by (simp add: drain_holes_def Let_def v ensure_def)
  show thesis
  proof (cases "\<exists>h \<in> set (drop (unat (head ?q)) H). gh_locked h")
    case True
    then have "drain_holes l = None" unfolding d q(3) using enc_locked [OF assms(2,3)] by (auto simp: list_all_iff)
    then show ?thesis using True by (intro stuck) (auto dest: in_set_dropD)
  next
    case False
    have all: "\<not> gh_locked (H ! i)" if "i < length H" for i
    proof (cases "i < n")
      case False
      then have "H ! i \<in> set (drop (unat (head ?q)) H)" using that q(1) by (auto simp: in_set_conv_nth intro!: exI [of _ "i - unat (head ?q)"])
      then show ?thesis using \<open>\<not> (\<exists>h \<in> set (drop (unat (head ?q)) H). gh_locked h)\<close> by blast
    qed (use q(4) in blast)
    have dr: "drain_holes l = Some (publish_hole (last (cq_list ?N ?q)) l)"
      unfolding d using False enc_locked [OF assms(2,3)] q(3) by (auto simp: list_all_iff)
    have l: "last (cq_list ?N ?q) = enc b (last H)" using ne q(3) by (simp add: last_map last_drop)
    have "H \<noteq> []" using ne by auto
    then have "\<not> gh_locked (last H)" using all [of "length H - 1"] by (simp add: last_conv_nth)
    then have "unat (wal_written_offset (wt_to_lw (publish_hole (enc b (last H)) l))) = gh_pos (last H) mod b"
      using enc_offset [OF assms(2,3), of "last H"] by (simp add: publish_hole_def)
    moreover have "gh_pos (last H) = ppos H (length H)" using ne by (auto simp: ppos_def last_conv_nth)
    moreover have "last_gsn (wt_to_lw (publish_hole (enc b (last H)) l)) = pgsn H (length H)"
      using \<open>H \<noteq> []\<close> by (simp add: publish_hole_def enc_def pgsn_def last_conv_nth)
    ultimately have "hinv b H (length H) L (publish_hole (enc b (last H)) l)"
      using assms(1) q all by (auto simp: hinv_def)
    then show ?thesis using ok [of "publish_hole (enc b (last H)) l" "length H"] dr q(2) l
      by (simp add: same_but_holes_def publish_hole_def)
  qed
qed

end
