(* ===== verification/WAL_Reserve.thy ===== *)
theory WAL_Reserve
  imports WAL_Holes
begin

text \<open>
  What a reservation does: it never fails when it need not wait, the record lies in one block of
  the device and in one piece of the buffer, at the offset its LSN says, and nothing that is not
  yet on the device is overwritten.
\<close>

section \<open>Invariant of a log\<close>

text \<open>
  \<open>H\<close> is the history of holes, \<open>n\<close> the number published, \<open>L\<close> the position of the next
  record and \<open>G\<close> that of the group committer.
\<close>

definition linv :: "flags \<Rightarrow> nat \<Rightarrow> hole_ghost list \<Rightarrow> nat \<Rightarrow> nat \<Rightarrow> nat \<Rightarrow> Logging \<Rightarrow> bool" where
  "linv fl b H n L G l \<longleftrightarrow> wal_geom fl b \<and> wal_pos b L G l \<and> hinv b H n L l \<and> \<not> is_sink_log l \<and>
     fake_wrap_around_offset l = 0 \<and> unat (log_segment_size l) \<le> 2 ^ 47 \<and> L + 4096 \<le> unat (log_segment_size l) \<and>
     (\<not> redirect_to_sink_log l \<longrightarrow> L + b < unat (log_segment_size l)) \<and> unat (log_id l) < 1024"

text \<open>
  A reservation of \<open>req\<close> bytes need not wait: there is space, the queue of holes has room, and
  no record is being filled when the segment is about to be closed.
\<close>

definition wal_ready :: "flags \<Rightarrow> u32 \<Rightarrow> Logging \<Rightarrow> bool" where
  "wal_ready fl req l \<longleftrightarrow> wait_untill_free_bytes fl req l \<le> walFreeSpace fl l \<and>
     unat (cq_size (holes l)) + 2 \<le> MAX_PENDING_HOLES \<and>
     (unat (log_segment_size l) \<le> unat (wal_lsn_counter l) + unat (FLAGS_wal_buffer_size fl) + 8192 \<longrightarrow>
      list_all (\<lambda>h. \<not> hole_isLocked h) (cq_list MAX_PENDING_HOLES (holes l)))"

text \<open>The bytes of the buffer that belong to the positions from \<open>L\<close> to \<open>L'\<close>.\<close>

definition writes_only :: "nat \<Rightarrow> nat \<Rightarrow> nat \<Rightarrow> (nat \<Rightarrow> u8) \<Rightarrow> (nat \<Rightarrow> u8) \<Rightarrow> bool" where
  "writes_only b L L' m m' \<longleftrightarrow> (\<forall>i. m' i \<noteq> m i \<longrightarrow> (\<exists>p. L \<le> p \<and> p < L' \<and> i = p mod b))"

lemma writes_only_refl [simp]: "writes_only b L L' m m"
  by (simp add: writes_only_def)

lemma writes_only_trans:
  "writes_only b L L' m m' \<Longrightarrow> writes_only b L' L'' m' m'' \<Longrightarrow> L \<le> L' \<Longrightarrow> L' \<le> L'' \<Longrightarrow> writes_only b L L'' m m''"
  unfolding writes_only_def by (metis order.trans order.strict_trans1 order.strict_trans2)

lemma writes_only_write:
  assumes "writes_only b L L' m m'" "L mod b + k + length bs \<le> b" "L + k + length bs \<le> L'" "0 < b"
  shows "writes_only b L L' m (write_bytes (L mod b + k) bs m')"
  unfolding writes_only_def
proof (intro allI impI)
  fix i assume ch: "write_bytes (L mod b + k) bs m' i \<noteq> m i"
  show "\<exists>p. L \<le> p \<and> p < L' \<and> i = p mod b"
  proof (cases "L mod b + k \<le> i \<and> i < L mod b + k + length bs")
    case True
    define d where "d = i - L mod b"
    have d: "i = L mod b + d" "d < k + length bs" using True by (auto simp: d_def)
    then have "L mod b + d < b" using assms(2) True by linarith
    then have "(L + d) mod b = i" using d(1) mod_add_less by simp
    then show ?thesis using d(2) assms(3) by (intro exI [of _ "L + d"]) auto
  next
    case False
    then have "m' i \<noteq> m i" using ch by (auto simp: write_bytes_def)
    then show ?thesis using assms(1) by (auto simp: writes_only_def)
  qed
qed

text \<open>The fields that making space leaves alone.\<close>

definition same_static :: "Logging \<Rightarrow> Logging \<Rightarrow> bool" where
  "same_static l l' \<longleftrightarrow> log_id l' = log_id l \<and> hardened_gsn l' = hardened_gsn l \<and> wal_gct_cursor l' = wal_gct_cursor l \<and>
     log_segment_start l' = log_segment_start l \<and> log_segment_size l' = log_segment_size l \<and>
     fake_wrap_around_offset l' = fake_wrap_around_offset l \<and> is_sink_log l' = is_sink_log l"

lemma same_static_trans: "same_static l l' \<Longrightarrow> same_static l' l'' \<Longrightarrow> same_static l l''"
  by (simp add: same_static_def)

lemma same_static_holes: "same_but_holes l l' \<Longrightarrow> same_static l l'"
  using same_but_holesD [of l l'] by (simp add: same_static_def)

lemma hinv_cong:
  "hinv b H n L l \<Longrightarrow> holes l' = holes l \<Longrightarrow> wt_to_lw l' = wt_to_lw l \<Longrightarrow> hinv b H n L l'"
  by (simp add: hinv_def)

section \<open>A hole for skipped bytes\<close>

text \<open>Both ways of skipping insert a hole that is unlocked at once.\<close>

lemma skip_hole:
  assumes "hinv b H n L l" "L < L'" "L' < 2 ^ 48" "0 < b" "b < 2 ^ 31" "unat (wal_log_cursor l) = L' mod b"
  obtains (stuck) "insertHole l = None" "MAX_PENDING_HOLES \<le> length H - unat (head (holes l))"
    | (ok) s l1 l2 n' where "insertHole l = Some (s, l1)" "unlock_slot s l1 = Some l2"
      "hinv b (H @ [\<lparr>gh_pos = L', gh_gsn = log_gsn_clock l, gh_locked = False\<rparr>]) n' L' l2" "same_but_holes l l2" "n \<le> n'"
      "unat (head (holes l)) \<le> unat (head (holes l2))"
proof (cases rule: insertHole_cases [OF assms])
  case 1
  then show thesis by (rule stuck)
next
  case (2 l1 n1)
  let ?h = "\<lparr>gh_pos = L', gh_gsn = log_gsn_clock l, gh_locked = True\<rparr>"
  have "length H < length (H @ [?h])" "gh_locked ((H @ [?h]) ! length H)" by simp_all
  from unlock_spec [OF 2(2) this assms(4,5,3)] obtain l2 where u:
    "unlock_slot (slot MAX_PENDING_HOLES (of_nat (length H))) l1 = Some l2"
    "hinv b ((H @ [?h])[length H := ((H @ [?h]) ! length H)\<lparr>gh_locked := False\<rparr>]) n1 L' l2" "same_but_holes l1 l2"
    "head (holes l2) = head (holes l1)" by metis
  have "unat (head (holes l)) \<le> n" using assms(1) by (simp add: hinv_def)
  then show thesis
    using ok [OF 2(1) u(1) _ same_but_holes_trans [OF 2(3) u(3)], of n1] u(2,4) 2(4,5) by simp
qed

section \<open>Making space\<close>

text \<open>The state after making space for \<open>req\<close> bytes: the next record starts at \<open>L1\<close>.\<close>

definition spaced ::
  "nat \<Rightarrow> nat \<Rightarrow> hole_ghost list \<Rightarrow> nat \<Rightarrow> nat \<Rightarrow> nat \<Rightarrow> Logging \<Rightarrow> hole_ghost list \<Rightarrow> nat \<Rightarrow> nat \<Rightarrow> Logging \<Rightarrow> bool" where
  "spaced b req H n L G l X n1 L1 l1 \<longleftrightarrow>
     wal_pos b L1 G l1 \<and> hinv b (H @ X) n1 L1 l1 \<and> L \<le> L1 \<and> L1 < L + 4096 \<and>
     (X = [] \<or> X = [\<lparr>gh_pos = L1, gh_gsn = log_gsn_clock l, gh_locked = False\<rparr>]) \<and>
     n \<le> n1 \<and> unat (head (holes l)) \<le> unat (head (holes l1)) \<and> writes_only b L L1 (wal_buffer l) (wal_buffer l1) \<and>
     L1 mod b + req + 32 \<le> b \<and> L1 + req + 32 - dn G \<le> b \<and> dn L1 = dn (L1 + req - 1) \<and> same_static l l1 \<and>
     redirect_to_sink_log l1 = redirect_to_sink_log l \<and> log_gsn_clock l1 = log_gsn_clock l"

lemma spaced_by_hole:
  assumes pos: "wal_pos b L G l" and h: "hinv b H n L l"
    and b: "0 < b" "b < 2 ^ 31" and L1: "L < L1" "L1 < 2 ^ 48" "L1 < L + 4096" "L1 mod b + req + 32 \<le> b" "L1 + req + 32 - dn G \<le> b"
      "dn L1 = dn (L1 + req - 1)"
    and l0: "same_static l l0" "holes l0 = holes l" "wt_to_lw l0 = wt_to_lw l" "redirect_to_sink_log l0 = redirect_to_sink_log l"
      "log_gsn_clock l0 = log_gsn_clock l" "unat (wal_lsn_counter l0) = L1" "unat (wal_log_cursor l0) = L1 mod b"
      "writes_only b L L1 (wal_buffer l) (wal_buffer l0)"
  obtains (stuck) "insertHole l0 = None" "MAX_PENDING_HOLES \<le> length H - unat (head (holes l))"
    | (ok) s l1 l2 X n1 where "insertHole l0 = Some (s, l1)" "unlock_slot s l1 = Some l2" "spaced b req H n L G l X n1 L1 l2"
proof (cases rule: skip_hole [OF hinv_cong [OF h l0(2,3)] L1(1,2) b l0(7)])
  case 1
  then show thesis using stuck l0(2) by simp
next
  case (2 s l1 l2 n')
  note s = same_but_holesD [OF 2(4)]
  have "wal_pos b L1 G l2"
    using pos s l0(1,6,7) L1 unfolding wal_pos_def same_static_def by simp
  then have "spaced b req H n L G l [\<lparr>gh_pos = L1, gh_gsn = log_gsn_clock l0, gh_locked = False\<rparr>] n' L1 l2"
    unfolding spaced_def using 2 s l0 L1 same_static_trans [OF l0(1) same_static_holes [OF 2(4)]] by simp
  then show thesis using ok 2(1,2) by blast
qed

lemma carriage_return_spec:
  assumes g: "wal_geom fl b" and pos: "wal_pos b L G l" and h: "hinv b H n L l"
    and fake: "fake_wrap_around_offset l = 0"
    and req: "0 < req" "req + 32 \<le> 4096" "b - L mod b < req + 32" "req + 32 + (b - L mod b) \<le> b - (L - dn G)" and big: "L + 4096 < 2 ^ 48"
  obtains (stuck) "carriage_return fl l = None" "MAX_PENDING_HOLES \<le> length H - unat (head (holes l))"
    | (ok) l1 X n1 L1 where "carriage_return fl l = Some l1" "spaced b req H n L G l X n1 L1 l1"
proof -
  note f = pos_facts [OF g pos]
  define L1 where "L1 = L + (b - L mod b)"
  let ?c = "FLAGS_wal_buffer_size fl - wal_log_cursor l"
  have b: "0 < b" "b < 2 ^ 31" "4096 dvd b" "16384 \<le> b" using g by (auto simp: wal_geom_def)
  have c: "unat ?c = b - L mod b" using f by (simp add: unat_sub_if')
  have "L = b * (L div b) + L mod b" by simp
  then have Lm: "L1 = b * (L div b) + b" using f(7) unfolding L1_def by linarith
  then have m: "L1 mod b = 0" by simp
  have "4096 dvd L1" unfolding Lm using b(3) by simp
  then have d: "dn L1 = dn (L1 + req - 1)" using req(1,2) by (intro dn_same_block) simp_all
  define m0 where "m0 = write_bytes (L mod b + 2) (le_bytes 2 (ucast ?c :: u16)) (write_bytes (L mod b) [wal_type_code CARRIAGE_RETURN] (wal_buffer l))"
  have w: "writes_only b L L1 (wal_buffer l) m0"
    unfolding m0_def using f(1,7) L1_def writes_only_write [of b L L1 "wal_buffer l" "wal_buffer l" 0 "[wal_type_code CARRIAGE_RETURN]"]
    by (intro writes_only_write) (auto simp: le_bytes_def)
  let ?l = "l\<lparr>wal_lsn_counter := wal_lsn_counter l + ?c, wal_buffer := m0, wal_log_cursor := 0\<rparr>"
  have cnt: "unat (wal_lsn_counter ?l) = L1"
    using pos big f(7) c b(2) by (simp add: wal_pos_def unat_plus_if' L1_def)
  have LL: "L < L1" "L1 < 2 ^ 48" "L1 < L + 4096" "L1 mod b + req + 32 \<le> b" "L1 + req + 32 - dn G \<le> b"
    using req f(2,3,7) big b m L1_def by linarith+
  have l0: "same_static l ?l" "holes ?l = holes l" "wt_to_lw ?l = wt_to_lw l" "redirect_to_sink_log ?l = redirect_to_sink_log l"
    "log_gsn_clock ?l = log_gsn_clock l" "unat (wal_log_cursor ?l) = L1 mod b" "writes_only b L L1 (wal_buffer l) (wal_buffer ?l)"
    using m w by (simp_all add: same_static_def)
  show thesis
  proof (cases rule: spaced_by_hole [OF pos h b(1,2) LL d l0(1-5) cnt l0(6,7)])
    case 1
    then have "carriage_return fl l = None" unfolding carriage_return_def Let_def f(5) m0_def [symmetric] using fake by simp
    then show ?thesis using 1(2) by (rule stuck)
  next
    case (2 s l1 l2 X n1)
    then have r: "carriage_return fl l = Some (l2\<lparr>wal_next_to_clean := 0, wal_buffer_round := wal_buffer_round l2 + 1\<rparr>)"
      unfolding carriage_return_def Let_def f(5) m0_def [symmetric] using fake by simp
    have "spaced b req H n L G l X n1 L1 (l2\<lparr>wal_next_to_clean := 0, wal_buffer_round := wal_buffer_round l2 + 1\<rparr>)"
      using 2(3) pos unfolding spaced_def wal_pos_def hinv_def same_static_def by simp
    then show thesis using ok r by blast
  qed
qed

lemma skip_to_block_spec:
  assumes g: "wal_geom fl b" and pos: "wal_pos b L G l" and h: "hinv b H n L l"
    and req: "0 < req" "req + 32 \<le> 4096" "L mod b + req + 32 \<le> b" "req + 32 \<le> b - (L - dn G)"
      "dn (L mod b) \<noteq> dn (L mod b + req)" and big: "L + 4096 < 2 ^ 48"
  obtains (stuck) "skip_to_block l = None" "MAX_PENDING_HOLES \<le> length H - unat (head (holes l))"
    | (ok) l1 X n1 L1 where "skip_to_block l = Some l1" "spaced b req H n L G l X n1 L1 l1"
proof -
  note f = pos_facts [OF g pos]
  have b: "0 < b" "b < 2 ^ 31" "4096 dvd b" "16384 \<le> b" using g by (auto simp: wal_geom_def)
  have cross: "up (L mod b) \<le> L mod b + req"
  proof -
    have "dn (L mod b) < dn (L mod b + req)" using req(5) dn_mono [of "L mod b" "L mod b + req"] by simp
    then have "L mod b \<le> dn (L mod b + req)" using dn_bounds(2) [of "L mod b"] dn_bounds(3)
      by (metis dn_greatest linorder_le_cases order_less_le_trans order_less_irrefl)
    then have "up (L mod b) \<le> dn (L mod b + req)" by (intro up_least dn_bounds(3))
    then show ?thesis using dn_bounds(1) order_trans by blast
  qed
  then have "up (L mod b) < b" using req(3) by simp
  then have um: "up L mod b = up (L mod b)" by (rule up_mod [OF b(3)])
  have upb: "up (L mod b) + 4096 \<le> b"
    using \<open>up (L mod b) < b\<close> up_bounds(3) [of "L mod b"] b(3) by (auto elim!: dvdE)
  have uL: "up L = L + (up (L mod b) - L mod b)"
  proof -
    have "up L = b * (L div b) + up (L mod b)" by (rule up_split [OF b(3)])
    moreover have "L = b * (L div b) + L mod b" by simp
    ultimately show ?thesis using up_bounds(1) [of "L mod b"] by linarith
  qed
  define L1 where "L1 = up L"
  have "L1 - dn G < b" using uL cross req(3,4) f(2,3) up_bounds(1) [of "L mod b"] unfolding L1_def by linarith
  moreover have "4096 dvd L1" "4096 dvd dn G" "dn G \<le> L1"
    using up_bounds(1,3) [of L] f(2) dn_bounds(3) unfolding L1_def by auto
  then have "4096 dvd L1 - dn G" by (simp add: dvd_diff_nat)
  ultimately have "L1 - dn G + 4096 \<le> b" using b(3) by (auto elim!: dvdE)
  then have LG: "L1 + req + 32 - dn G \<le> b" using req(2) by linarith
  have "L mod b \<noteq> up (L mod b)"
  proof
    assume "L mod b = up (L mod b)"
    then have "4096 dvd L mod b" using up_bounds(3) [of "L mod b"] by simp
    then have "dn (L mod b) = dn (L mod b + (req + 1) - 1)" using req(2) by (intro dn_same_block) simp_all
    then show False using req(5) by simp
  qed
  then have lt: "L mod b < up (L mod b)" using up_bounds(1) [of "L mod b"] by simp
  have LL: "L < L1" "L1 < 2 ^ 48" "L1 < L + 4096" "L1 mod b + req + 32 \<le> b"
    using uL lt up_bounds(2) [of L] big um upb req(2) unfolding L1_def by linarith+
  have d: "dn L1 = dn (L1 + req - 1)" using \<open>4096 dvd L1\<close> req(1,2) by (intro dn_same_block) simp_all
  define m0 where "m0 = write_bytes (L mod b) [wal_type_code SKIP] (wal_buffer l)"
  have w: "writes_only b L L1 (wal_buffer l) m0"
    unfolding m0_def using f(1,7) LL(1) writes_only_write [of b L L1 "wal_buffer l" "wal_buffer l" 0 "[wal_type_code SKIP]"] by simp
  let ?l = "l\<lparr>wal_lsn_counter := upAlign (wal_lsn_counter l) LOG_DEV_BLK_SIZE, wal_buffer := m0,
    wal_log_cursor := upAlign (wal_log_cursor l) LOG_DEV_BLK_SIZE\<rparr>"
  have "unat (wal_lsn_counter l) = L" using pos by (simp add: wal_pos_def)
  then have cnt: "unat (wal_lsn_counter ?l) = L1" using big by (simp add: unat_upAlign L1_def)
  have cur: "unat (wal_log_cursor ?l) = L1 mod b" using f(5,7) b(2) um by (simp add: unat_upAlign L1_def)
  have l0: "same_static l ?l" "holes ?l = holes l" "wt_to_lw ?l = wt_to_lw l" "redirect_to_sink_log ?l = redirect_to_sink_log l"
    "log_gsn_clock ?l = log_gsn_clock l" "writes_only b L L1 (wal_buffer l) (wal_buffer ?l)"
    using w by (simp_all add: same_static_def)
  show thesis
  proof (cases rule: spaced_by_hole [OF pos h b(1,2) LL LG d l0(1-5) cnt cur l0(6)])
    case 1
    then have "skip_to_block l = None" unfolding skip_to_block_def Let_def f(5) m0_def [symmetric] by simp
    then show ?thesis using 1(2) by (rule stuck)
  next
    case (2 s l1 l2 X n1)
    then have "skip_to_block l = Some l2" unfolding skip_to_block_def Let_def f(5) m0_def [symmetric] by simp
    then show thesis using ok 2(3) by blast
  qed
qed

lemma spaced_unchanged:
  assumes "wal_pos b L G l" "hinv b H n L l" "L mod b + req + 32 \<le> b" "L + req + 32 - dn G \<le> b" "dn L = dn (L + req - 1)"
  shows "spaced b req H n L G l [] n L l"
  using assms by (simp add: spaced_def same_static_def)

text \<open>
  \<^verbatim>\<open>walEnsureEnoughSpace\<close> returns unless it waits for space or for a place for a hole: its
  checks never fail.
\<close>

lemma walEnsureEnoughSpace_cases:
  assumes inv: "linv fl b H n L G l" and red: "\<not> redirect_to_sink_log l"
    and req: "0 < unat req" "unat req + 32 \<le> 4096"
  obtains (stuck) "walEnsureEnoughSpace fl req l = None"
      "\<not> wait_untill_free_bytes fl req l \<le> walFreeSpace fl l \<or> MAX_PENDING_HOLES \<le> length H - unat (head (holes l))"
    | (ok) l1 X n1 L1 where "walEnsureEnoughSpace fl req l = Some l1" "spaced b (unat req) H n L G l X n1 L1 l1"
proof (cases "wait_untill_free_bytes fl req l \<le> walFreeSpace fl l")
  case False
  moreover from this have "walEnsureEnoughSpace fl req l = None"
    using inv red by (simp add: walEnsureEnoughSpace_def ensure_def linv_def wal_geom_def not_less)
  ultimately show thesis using stuck by blast
next
  case ready: True
  have g: "wal_geom fl b" and pos: "wal_pos b L G l" and h: "hinv b H n L l" and fake: "fake_wrap_around_offset l = 0"
    and big: "L + 4096 < 2 ^ 48" using inv by (auto simp: linv_def)
  note f = pos_facts [OF g pos]
  have b: "4096 dvd b" "FLAGS_wal fl" using g by (auto simp: wal_geom_def)
  have free: "unat req + 32 + (if b - L mod b < unat req + 32 then b - L mod b else 0) \<le> b - (L - dn G)"
    using ready unfolding word_le_nat_alt unat_walFreeSpace [OF g pos] unat_wait_bytes [OF g pos req(2)] .
  have cont: "unat (walContiguousFreeSpace fl l) = min (b - L mod b) (b - (L - dn G))"
    by (rule unat_walContiguousFreeSpace [OF g pos])
  have adv: "unat (wal_log_cursor l + ucast req) = L mod b + unat req"
    using f(5,7,8) req(2) by (simp add: unat_plus_if')
  define l0 where "l0 = (if unat (walContiguousFreeSpace fl l) < unat req + CR_ENTRY_SIZE then carriage_return fl l
      else if downAlign (wal_log_cursor l) LOG_DEV_BLK_SIZE \<noteq> downAlign (wal_log_cursor l + ucast req) LOG_DEV_BLK_SIZE
      then skip_to_block l else Some l)"
  have unf: "walEnsureEnoughSpace fl req l = do { l1 \<leftarrow> l0;
      ensure (req \<le> walContiguousFreeSpace fl l1);
      ensure (wal_log_cursor l1 + ucast req + of_nat CR_ENTRY_SIZE \<le> FLAGS_wal_buffer_size fl); Some l1 }"
    unfolding walEnsureEnoughSpace_def l0_def using b(2) red ready by (simp add: ensure_def not_less)
  consider (none) "l0 = None" "MAX_PENDING_HOLES \<le> length H - unat (head (holes l))"
    | (some) l1 X n1 L1 where "l0 = Some l1" "spaced b (unat req) H n L G l X n1 L1 l1"
  proof (cases "b - L mod b < unat req + 32")
    case True
    then have "unat (walContiguousFreeSpace fl l) < unat req + CR_ENTRY_SIZE" using cont by (simp add: CR_ENTRY_SIZE_def)
    then have c: "l0 = carriage_return fl l" by (simp add: l0_def)
    have "unat req + 32 + (b - L mod b) \<le> b - (L - dn G)" using free True by simp
    from carriage_return_spec [OF g pos h fake req True this big] that show ?thesis unfolding c by metis
  next
    case fits: False
    then have c: "\<not> unat (walContiguousFreeSpace fl l) < unat req + CR_ENTRY_SIZE"
      using cont free by (simp add: CR_ENTRY_SIZE_def min_def split: if_splits)
    have r: "L mod b + unat req + 32 \<le> b" "unat req + 32 \<le> b - (L - dn G)" using fits free f(7) by auto
    have eq: "downAlign (wal_log_cursor l) LOG_DEV_BLK_SIZE = downAlign (wal_log_cursor l + ucast req) LOG_DEV_BLK_SIZE \<longleftrightarrow>
        dn (L mod b) = dn (L mod b + unat req)"
      by (auto simp: word_unat_eq_iff unat_downAlign adv f(5))
    show ?thesis
    proof (cases "dn (L mod b) = dn (L mod b + unat req)")
      case False
      then have "l0 = skip_to_block l" using c eq by (simp add: l0_def)
      with skip_to_block_spec [OF g pos h req r False big] that show ?thesis by metis
    next
      case True
      then have "l0 = Some l" using c eq by (simp add: l0_def)
      moreover have "dn L = dn (L + unat req - 1)"
      proof -
        have "L + unat req - 1 = b * (L div b) + (L mod b + unat req - 1)"
          using req(1) mult_div_mod_eq [of b L] by linarith
        moreover have "dn (L mod b + unat req - 1) = dn (L mod b)"
          using True dn_mono [of "L mod b" "L mod b + unat req - 1"] dn_mono [of "L mod b + unat req - 1" "L mod b + unat req"] req(1)
          by simp
        moreover have "dn (b * k + x) = b * k + dn x" for k x
          using b(1) by (auto simp: dn_bounds(4) mult.assoc elim!: dvdE)
        moreover have "L = b * (L div b) + L mod b" by simp
        ultimately show ?thesis by metis
      qed
      then have "spaced b (unat req) H n L G l [] n L l"
        using r f(2,3) by (intro spaced_unchanged [OF pos h]) simp_all
      ultimately show ?thesis using that(2) by blast
    qed
  qed
  then show thesis
  proof cases
    case none
    then show ?thesis using unf by (intro stuck) simp_all
  next
    case some
    have pos1: "wal_pos b L1 G l1" and fit: "L1 mod b + unat req + 32 \<le> b" "L1 + unat req + 32 - dn G \<le> b"
      using some(2) by (auto simp: spaced_def)
    note f1 = pos_facts [OF g pos1]
    have "unat req \<le> unat (walContiguousFreeSpace fl l1)"
      unfolding unat_walContiguousFreeSpace [OF g pos1] using fit f1(2,3) by (intro min.boundedI) linarith+
    moreover have "unat (wal_log_cursor l1 + ucast req + of_nat CR_ENTRY_SIZE) = L1 mod b + unat req + 32"
      using f1(5,7,8) req(2) by (simp add: CR_ENTRY_SIZE_def unat_plus_if')
    ultimately have "walEnsureEnoughSpace fl req l = Some l1"
      using unf some(1) fit(1) f1(6) by (simp add: ensure_def word_le_nat_alt)
    then show thesis using ok some(2) by blast
  qed
qed

section \<open>The reservation\<close>

text \<open>
  A record of \<open>tot\<close> bytes reserved at position \<open>off\<close>: in one piece and in one block, behind
  everything else, with a locked hole, and with the LSN of its position.
\<close>

definition reserved ::
  "flags \<Rightarrow> nat \<Rightarrow> nat \<Rightarrow> hole_ghost list \<Rightarrow> nat \<Rightarrow> nat \<Rightarrow> nat \<Rightarrow> Logging \<Rightarrow>
   WALEntryHandler \<Rightarrow> hole_ghost list \<Rightarrow> nat \<Rightarrow> nat \<Rightarrow> Logging \<Rightarrow> bool" where
  "reserved fl b tot H n L G l h H' n' off l' \<longleftrightarrow>
     linv fl b H' n' (off + tot) G l' \<and> L \<le> off \<and> off < L + 4096 \<and> n \<le> n' \<and> n' = unat (head (holes l')) \<and>
     (\<exists>X. H' = H @ X @ [\<lparr>gh_pos = off + tot, gh_gsn = log_gsn_clock l', gh_locked = True\<rparr>] \<and>
       (X = [] \<or> X = [\<lparr>gh_pos = off, gh_gsn = log_gsn_clock l, gh_locked = False\<rparr>])) \<and>
     writes_only b L (off + tot) (wal_buffer l) (wal_buffer l') \<and> off mod b + tot \<le> b \<and> dn off = dn (off + tot - 1) \<and>
     off + tot - dn G \<le> b \<and> same_static l l' \<and>
     h_lsn h = makeLSN (ucast (log_id l)) (of_nat off) \<and> unat (h_total_size h) = tot \<and> unat (h_in_memory_offset h) = off mod b \<and>
     h_hole h = slot MAX_PENDING_HOLES (of_nat (length H' - 1))"

lemma reserveLSN_cases:
  assumes g: "wal_geom fl b" and pos: "wal_pos b L1 G l" and h: "hinv b H n L1 l" and seg: "L1 < unat (log_segment_size l)"
      "unat (log_segment_size l) \<le> 2 ^ 47" "\<not> is_sink_log l" "\<not> redirect_to_sink_log l" "L1 + unat tot < unat (log_segment_size l)"
    and tot: "L1 mod b + unat tot + 32 \<le> b" "L1 + unat tot + 32 - dn G \<le> b"
  obtains (stuck) "reserveLSN fl tot l = None" "unat (log_segment_size l) \<le> L1 + unat tot + b" "\<exists>h \<in> set H. gh_locked h"
    | (ok) l1 n1 where "reserveLSN fl tot l = Some (makeLSN (ucast (log_id l)) (of_nat L1), l1)" "hinv b H n1 L1 l1" "n \<le> n1"
      "unat (wal_lsn_counter l1) = L1 + unat tot" "\<not> redirect_to_sink_log l1 \<longrightarrow> L1 + unat tot + b < unat (log_segment_size l)"
      "holes l1 = holes l" "wal_buffer l1 = wal_buffer l" "wal_log_cursor l1 = wal_log_cursor l" "same_static l l1"
      "log_gsn_clock l1 = log_gsn_clock l"
proof -
  note f = pos_facts [OF g pos]
  have cnt: "unat (wal_lsn_counter l) = L1" using pos by (simp add: wal_pos_def)
  then have c: "wal_lsn_counter l = of_nat L1" by (rule of_nat_of_unat)
  have u: "unat (of_nat L1 :: u64) = L1" using cnt unfolding c .
  let ?l = "l\<lparr>wal_lsn_counter := of_nat L1 + tot\<rparr>"
  have cnt1: "unat (wal_lsn_counter ?l) = L1 + unat tot"
    using u seg(2,5) by (simp add: unat_plus_if')
  have "L1 < 2 ^ 48" using seg by simp
  then have chk: "of_nat L1 < log_segment_size l" "of_nat L1 \<le> LSN_OFFSET_MASK"
    using u seg(1) by (simp_all add: word_less_nat_alt word_le_nat_alt lsn_defs)
  have "walContiguousFreeSpace fl ?l = walContiguousFreeSpace fl l"
    by (simp add: walContiguousFreeSpace_def gct_aligned_def Let_def)
  then have "unat tot \<le> unat (walContiguousFreeSpace fl ?l)"
    using unat_walContiguousFreeSpace [OF g pos] tot f(2,3) by (simp only:) (intro min.boundedI; linarith)
  then have chk2: "tot \<le> ucast (walContiguousFreeSpace fl ?l)" by (simp add: word_le_nat_alt)
  have free: "unat (logSegmentFreeSpace ?l) = unat (log_segment_size l) - (L1 + unat tot)"
    using cnt1 seg(5) by (simp add: logSegmentFreeSpace_def unat_sub_if')
  have h1: "hinv b H n L1 ?l" using hinv_cong [OF h, of ?l] by simp
  have pw: "FLAGS_wal_pwrite fl" and bs: "unat (FLAGS_wal_buffer_size fl) = b" using g by (auto simp: wal_geom_def)
  have unf: "reserveLSN fl tot l =
    do { l2 \<leftarrow> (if logSegmentFreeSpace ?l \<le> FLAGS_wal_buffer_size fl then drain_holes (?l\<lparr>redirect_to_sink_log := True\<rparr>) else Some ?l);
         Some (makeLSN (ucast (log_id l)) (of_nat L1), l2) }"
    using chk chk2 pw seg(3) by (simp add: reserveLSN_def Let_def ensure_def c)
  show thesis
  proof (cases "logSegmentFreeSpace ?l \<le> FLAGS_wal_buffer_size fl")
    case True
    then have full: "unat (log_segment_size l) \<le> L1 + unat tot + b" using free bs by (simp add: word_le_nat_alt)
    have "hinv b H n L1 (?l\<lparr>redirect_to_sink_log := True\<rparr>)" using hinv_cong [OF h1] by simp
    then show ?thesis
    proof (cases rule: drain_cases [OF _ f(1,8), consumes 1])
      case 1
      then show ?thesis using True unf full by (intro stuck) simp_all
    next
      case (2 l1 n1)
      note s = same_but_holesD [OF 2(3)]
      show ?thesis
        using 2 s cnt1 True unf same_static_holes [OF 2(3)] by (intro ok [of l1 n1]) (simp_all add: same_static_def)
    qed
  next
    case False
    then have "L1 + unat tot + b < unat (log_segment_size l)" using free bs by (simp add: word_le_nat_alt)
    then show ?thesis using h1 cnt1 False unf by (intro ok [of ?l n]) (simp_all add: same_static_def)
  qed
qed


text \<open>
  The part both kinds of records share: draw the LSN, move the cursor, insert the hole.  The
  function \<open>w\<close> is what is written into the buffer meanwhile.
\<close>

definition finish_reservation ::
  "flags \<Rightarrow> u64 \<Rightarrow> (nat \<Rightarrow> LID \<Rightarrow> (nat \<Rightarrow> u8) \<Rightarrow> nat \<Rightarrow> u8) \<Rightarrow> Logging \<Rightarrow> (WALEntryHandler \<times> Logging) option" where
  "finish_reservation fl tot w l =
     do { (lsn, l1) \<leftarrow> reserveLSN fl tot l;
          let p = wal_log_cursor l1;
          (s, l2) \<leftarrow> insertHole (l1\<lparr>wal_log_cursor := p + tot, wal_buffer := w (unat p) lsn (wal_buffer l1)\<rparr>);
          Some (\<lparr>h_lsn = lsn, h_total_size = tot, h_in_memory_offset = ucast p, h_hole = s\<rparr>, l2) }"

lemma finish_reservation_cases:
  assumes inv: "linv fl b H n L G l" and red: "\<not> redirect_to_sink_log l" and tot: "0 < unat tot" "unat tot + 32 \<le> 4096"
    and sp: "spaced b (unat tot) H n L G l X n1 L1 l1" and l1': "l1' = l1\<lparr>log_gsn_clock := g\<rparr>"
    and w: "\<And>lsn m. writes_only b L1 (L1 + unat tot) m (w (L1 mod b) lsn m)"
  obtains (stuck) "finish_reservation fl tot w l1' = None"
      "MAX_PENDING_HOLES \<le> length H + 1 - unat (head (holes l)) \<or>
       unat (log_segment_size l) \<le> L + b + 8192 \<and> (\<exists>h \<in> set H. gh_locked h)"
    | (ok) h H' n' l' where "finish_reservation fl tot w l1' = Some (h, l')" "reserved fl b (unat tot) H n L G l h H' n' L1 l'"
proof -
  have iv: "wal_geom fl b" "\<not> is_sink_log l" "fake_wrap_around_offset l = 0" "unat (log_segment_size l) \<le> 2 ^ 47"
    "L + b < unat (log_segment_size l)" "unat (log_id l) < 1024" using inv red by (auto simp: linv_def)
  have b: "0 < b" "b < 2 ^ 31" "16384 \<le> b" using iv(1) by (auto simp: wal_geom_def)
  have s: "wal_pos b L1 G l1" "hinv b (H @ X) n1 L1 l1" "L \<le> L1" "L1 < L + 4096" "list_all (\<lambda>h. \<not> gh_locked h) X" "length X \<le> 1"
    "n \<le> n1" "unat (head (holes l)) \<le> unat (head (holes l1))" "writes_only b L L1 (wal_buffer l) (wal_buffer l1)"
    "L1 mod b + unat tot + 32 \<le> b" "L1 + unat tot + 32 - dn G \<le> b" "same_static l l1" "\<not> redirect_to_sink_log l1"
    "dn L1 = dn (L1 + unat tot - 1)" "X = [] \<or> X = [\<lparr>gh_pos = L1, gh_gsn = log_gsn_clock l, gh_locked = False\<rparr>]"
    using sp red by (auto simp: spaced_def)
  note st = s(12) [unfolded same_static_def]
  have pos1: "wal_pos b L1 G l1'" and h1: "hinv b (H @ X) n1 L1 l1'"
    using s(1) hinv_cong [OF s(2), of l1'] unfolding l1' by (simp_all add: wal_pos_def)
  have lim: "L1 + unat tot < 2 ^ 48" "L1 < L1 + unat tot" "L1 < unat (log_segment_size l)"
    "L1 + unat tot < unat (log_segment_size l)" and lim5: "L1 + unat tot + 4096 \<le> unat (log_segment_size l)"
    using iv(4,5) s(4) tot b(3) by simp_all
  let ?lsn = "makeLSN (ucast (log_id l)) (of_nat L1)"
  have seg: "L1 < unat (log_segment_size l1')" "unat (log_segment_size l1') \<le> 2 ^ 47" "\<not> is_sink_log l1'" "\<not> redirect_to_sink_log l1'"
    "L1 + unat tot < unat (log_segment_size l1')" "log_id l1' = log_id l" "log_segment_size l1' = log_segment_size l"
    using lim iv s(13) st by (simp_all add: l1')
  show thesis
  proof (cases rule: reserveLSN_cases [OF iv(1) pos1 h1 seg(1-5) s(10,11)])
    case 1
    then have "unat (log_segment_size l) \<le> L + b + 8192 \<and> (\<exists>h \<in> set H. gh_locked h)"
      using s(4,5) tot seg(7) by (auto simp: list_all_iff)
    then show ?thesis using 1(1) by (intro stuck) (simp_all add: finish_reservation_def)
  next
    case (2 l2 n2)
    have cur: "unat (wal_log_cursor l2) = L1 mod b" using s(1) 2(8) by (simp add: l1' wal_pos_def)
    define l3 where "l3 = l2\<lparr>wal_log_cursor := wal_log_cursor l2 + tot, wal_buffer := w (L1 mod b) ?lsn (wal_buffer l2)\<rparr>"
    have unf: "finish_reservation fl tot w l1' =
      do { (s, l) \<leftarrow> insertHole l3;
           Some (\<lparr>h_lsn = ?lsn, h_total_size = tot, h_in_memory_offset = ucast (wal_log_cursor l2), h_hole = s\<rparr>, l) }"
      unfolding finish_reservation_def 2(1) by (simp add: Let_def l3_def cur seg(6))
    have m: "(L1 + unat tot) mod b = L1 mod b + unat tot" using s(10) by (intro mod_add_less) simp
    have cur': "unat (wal_log_cursor l3) = (L1 + unat tot) mod b"
      using cur m s(10) b(2) by (simp add: l3_def unat_plus_if')
    have h3: "hinv b (H @ X) n2 L1 l3" using hinv_cong [OF 2(2), of l3] by (simp add: l3_def)
    have hd: "unat (head (holes l)) \<le> unat (head (holes l3))" using s(8) 2(6) by (simp add: l3_def l1')
    have gs: "log_gsn_clock l3 = g" using 2(10) by (simp add: l3_def l1')
    have st3: "same_static l l3" using st 2(9) by (simp add: l3_def l1' same_static_def)
    show ?thesis
    proof (cases rule: insertHole_cases [OF h3 lim(2,1) b(1,2) cur'])
      case 1
      have "MAX_PENDING_HOLES \<le> length H + 1 - unat (head (holes l))" using 1(2) hd s(6) by simp
      then show ?thesis using unf 1(1) by (intro stuck disjI1) simp_all
    next
      case (2 l4 n4)
      note e = same_but_holesD [OF 2(3)]
      have st4: "same_static l l4" using same_static_trans [OF st3 same_static_holes [OF 2(3)]] .
      have "wal_pos b (L1 + unat tot) G l4"
        using s(1,10,11) st st4 e cur' \<open>unat (wal_lsn_counter l2) = _\<close> lim m dn_bounds(1) [of G]
        unfolding wal_pos_def same_static_def by (auto simp: l3_def)
      then have "linv fl b (H @ X @ [\<lparr>gh_pos = L1 + unat tot, gh_gsn = g, gh_locked = True\<rparr>]) n4 (L1 + unat tot) G l4"
        using 2(2) gs iv st4 e \<open>\<not> redirect_to_sink_log l2 \<longrightarrow> _\<close> seg(7) lim5 unfolding linv_def same_static_def
        by (auto simp: l3_def)
      moreover have "writes_only b L (L1 + unat tot) (wal_buffer l) (wal_buffer l4)"
        using writes_only_trans [OF s(9) w [of "wal_buffer l1" ?lsn] s(3)] e \<open>wal_buffer l2 = _\<close> by (simp add: l1' l3_def)
      moreover have "unat (ucast (wal_log_cursor l2) :: u32) = L1 mod b"
        using cur s(10) b(2) by (subst unat_ucast_32) simp_all
      moreover have "n \<le> n4" using s(7) \<open>n1 \<le> n2\<close> 2(4) by simp
      ultimately have "reserved fl b (unat tot) H n L G l
          \<lparr>h_lsn = ?lsn, h_total_size = tot, h_in_memory_offset = ucast (wal_log_cursor l2), h_hole = slot MAX_PENDING_HOLES (of_nat (length (H @ X)))\<rparr>
          (H @ X @ [\<lparr>gh_pos = L1 + unat tot, gh_gsn = g, gh_locked = True\<rparr>]) n4 L1 l4"
        using s(3,4,10,11,14,15) 2(5) st4 e(5) gs unfolding reserved_def by (auto simp: l3_def)
      then show ?thesis using unf 2(1) by (intro ok) simp_all
    qed
  qed
qed


text \<open>What a reservation waits for.\<close>

lemma not_ready:
  assumes inv: "linv fl b H n L G l" "n = unat (head (holes l))"
    and "\<not> wait_untill_free_bytes fl req l \<le> walFreeSpace fl l \<or> MAX_PENDING_HOLES \<le> length H + 1 - unat (head (holes l)) \<or>
      unat (log_segment_size l) \<le> L + b + 8192 \<and> (\<exists>h \<in> set H. gh_locked h)"
  shows "\<not> wal_ready fl req l"
proof
  assume ready: "wal_ready fl req l"
  have i: "0 < b" "b < 2 ^ 31" "unat (FLAGS_wal_buffer_size fl) = b" "unat (wal_lsn_counter l) = L" "hinv b H n L l"
    using inv(1) by (auto simp: linv_def wal_geom_def wal_pos_def)
  then have q: "unat (tail (holes l)) = length H" "unat (head (holes l)) \<le> length H"
    "cq_list MAX_PENDING_HOLES (holes l) = map (enc b) (drop n H)" "\<forall>i < n. \<not> gh_locked (H ! i)"
    using inv(2) by (auto simp: hinv_def)
  have "length H - unat (head (holes l)) + 2 \<le> MAX_PENDING_HOLES"
    using ready q by (simp add: wal_ready_def cq_size_def unat_diff_le)
  then obtain h where h: "unat (log_segment_size l) \<le> L + b + 8192" "h \<in> set H" "gh_locked h"
    using assms(3) ready by (auto simp: wal_ready_def)
  have "h \<in> set (take n H) \<or> h \<in> set (drop n H)" using h(2) by (metis append_take_drop_id set_append Un_iff)
  then have "h \<in> set (drop n H)" using q(4) h(3) by (auto simp: in_set_conv_nth)
  then show False
    using ready h(1,3) i q(3) enc_locked [OF i(1,2)] by (auto simp: wal_ready_def list_all_iff add.commute)
qed

lemma header_writes:
  assumes "L1 mod b + tot + 32 \<le> b" "64 \<le> tot" "0 < b"
  shows "writes_only b L1 (L1 + tot) m (write_header (L1 mod b) lsn tsz pg gs dt m)"
proof -
  let ?z = "write_bytes (L1 mod b) (replicate sizeof_WALDTEntry 0) m"
  have z: "writes_only b L1 (L1 + tot) m ?z"
    using assms writes_only_write [of b L1 "L1 + tot" m m 0 "replicate sizeof_WALDTEntry 0"] by (simp add: sizeof_WALDTEntry_def)
  then have "writes_only b L1 (L1 + tot) m (write_bytes (L1 mod b) [wal_type_code DT_SPECIFIC] ?z)"
    using assms writes_only_write [of b L1 "L1 + tot" m ?z 0 "[wal_type_code DT_SPECIFIC]"] by simp
  then show ?thesis
    unfolding write_header_def using assms by (intro writes_only_write) (auto simp: le_bytes_def)
qed

text \<open>The two ways to reserve.\<close>

lemma reserveWALEntry_cases:
  assumes inv: "linv fl b H n L G l" "n = unat (head (holes l))" and red: "\<not> redirect_to_sink_log l"
    and sz: "unat payload + 96 \<le> 4096"
  obtains (stuck) "reserveWALEntry fl payload pg dt gs l = None" "\<not> wal_ready fl (of_nat sizeof_WALDTEntry + payload) l"
    | (ok) h l' H' n' off where "reserveWALEntry fl payload pg dt gs l = Some (h, l')"
      "reserved fl b (64 + unat payload) H n L G l h H' n' off l'"
proof -
  let ?req = "of_nat sizeof_WALDTEntry + payload" and ?tot = "of_nat sizeof_WALDTEntry + ucast payload :: u64"
  have req: "unat ?req = 64 + unat payload" "unat ?tot = 64 + unat payload"
    using sz by (simp_all add: sizeof_WALDTEntry_def unat_plus_if')
  have rq: "0 < unat ?req" "unat ?req + 32 \<le> 4096" "0 < unat ?tot" "unat ?tot + 32 \<le> 4096" using sz req by simp_all
  have b: "0 < b" using inv(1) by (auto simp: linv_def wal_geom_def)
  show thesis
  proof (cases rule: walEnsureEnoughSpace_cases [OF inv(1) red rq(1,2)])
    case 1
    then have "\<not> wal_ready fl ?req l" by (intro not_ready [OF inv]) linarith
    then show ?thesis using 1(1) by (intro stuck) (simp_all add: reserveWALEntry_def)
  next
    case (2 l1 X n1 L1)
    have sp: "spaced b (unat ?tot) H n L G l X n1 L1 l1" using 2(2) req by simp
    define g where "g = max gs (log_gsn_clock l1 + 1)"
    let ?w = "\<lambda>p lsn m. write_header p lsn ?tot pg g dt m"
    have w: "writes_only b L1 (L1 + unat ?tot) m (?w (L1 mod b) lsn m)" for lsn m
      using sp req(2) b by (intro header_writes) (simp_all add: spaced_def)
    have "\<not> redirect_to_sink_log l1" using sp red by (simp add: spaced_def)
    then have unf: "reserveWALEntry fl payload pg dt gs l = finish_reservation fl ?tot ?w (l1\<lparr>log_gsn_clock := g\<rparr>)"
      using 2(1) by (simp add: reserveWALEntry_def reserveDTEntry_def setCurrentGSN_def finish_reservation_def Let_def g_def ensure_def)
    show ?thesis
    proof (cases rule: finish_reservation_cases [where w = ?w and g = g, OF inv(1) red rq(3,4) sp refl w])
      case 1
      then have "\<not> wal_ready fl ?req l" by (intro not_ready [OF inv]) blast
      then show ?thesis using 1(1) unf by (intro stuck) simp_all
    next
      case (2 h H' n' l')
      then show ?thesis using unf req(2) by (intro ok) simp_all
    qed
  qed
qed

lemma reserve_ppl_cases:
  assumes inv: "linv fl b H n L G l" "n = unat (head (holes l))" and red: "\<not> redirect_to_sink_log l"
    and sz: "0 < unat psz" "unat psz + 32 \<le> 4096"
  obtains (stuck) "reservePPLEntry fl psz l = None" "\<not> wal_ready fl (ucast (psz :: u16)) l"
    | (ok) h l' H' n' off where "reservePPLEntry fl psz l = Some (h, l')" "reserved fl b (unat psz) H n L G l h H' n' off l'"
proof -
  let ?req = "ucast psz :: u32" and ?tot = "ucast psz :: u64"
  have req: "unat ?req = unat psz" "unat ?tot = unat psz"
    using sz by (simp_all add: unsigned_ucast_eq take_bit_nat_eq_self)
  have rq: "0 < unat ?req" "unat ?req + 32 \<le> 4096" "0 < unat ?tot" "unat ?tot + 32 \<le> 4096" using sz req by simp_all
  show thesis
  proof (cases rule: walEnsureEnoughSpace_cases [OF inv(1) red rq(1,2)])
    case 1
    then have "\<not> wal_ready fl ?req l" by (intro not_ready [OF inv]) linarith
    then show ?thesis using 1(1) by (intro stuck) (simp_all add: reservePPLEntry_def)
  next
    case (2 l1 X n1 L1)
    have sp: "spaced b (unat ?tot) H n L G l X n1 L1 l1" using 2(2) req by simp
    let ?w = "\<lambda>(p :: nat) (lsn :: LID) m. m"
    have w: "writes_only b L1 (L1 + unat ?tot) m (?w (L1 mod b) lsn m)" for lsn m by simp
    have unf: "reservePPLEntry fl psz l = finish_reservation fl ?tot ?w (l1\<lparr>log_gsn_clock := log_gsn_clock l1 + 1\<rparr>)"
      using 2(1) by (simp add: reservePPLEntry_def finish_reservation_def Let_def)
    show ?thesis
    proof (cases rule: finish_reservation_cases [where w = ?w and g = "log_gsn_clock l1 + 1", OF inv(1) red rq(3,4) sp refl w])
      case 1
      then have "\<not> wal_ready fl ?req l" by (intro not_ready [OF inv]) blast
      then show ?thesis using 1(1) unf by (intro stuck) simp_all
    next
      case (2 h H' n' l')
      then show ?thesis using unf req(2) by (intro ok) simp_all
    qed
  qed
qed

end
