(* ===== verification/WAL_Device.thy ===== *)
theory WAL_Device
  imports WAL_Reserve
begin

text \<open>
  The log device: the segments \<^verbatim>\<open>LogManager\<close> lays out, the writes
  \<^verbatim>\<open>LogManager::add_pwrite\<close> prepares and the two phases of a round of
  \<^verbatim>\<open>CRManager::groupCommiter\<close>, for one log.  The device is a store of bytes that does
  what \<^verbatim>\<open>submitAndWait\<close> asks for; the statistics are left out.
\<close>

section \<open>Layout\<close>

record per_worker_log_segment =
  start_off :: u64
  end_off :: u64
  seg_off :: u64
  last_start_offset :: u64
  seg_hardened_gsn :: LID

record LogManager =
  log_count :: u32
  log_dev_size :: u64
  log_file_offset :: u64
  log_start_offset :: u64
  meta_size :: u64
  lm_segment_size :: u64
  lm_fake_wrap_around_offset :: u64

text \<open>\<open>fake\<close> is \<^verbatim>\<open>FLAGS_log_fake_wrap_around\<close>.\<close>

definition LogManager_new :: "flags \<Rightarrow> bool \<Rightarrow> u32 \<Rightarrow> u64 \<Rightarrow> u64 \<Rightarrow> LogManager option" where
  "LogManager_new fl fake nb_logs file_offset dev_size =
     do { let meta = upAlign (48 + ucast nb_logs * 40) LOG_DEV_BLK_SIZE;
          ensure (file_offset mod LOG_DEV_BLK_SIZE = 0);
          ensure (meta < dev_size);
          let size0 = downAlign ((dev_size - meta) div ucast nb_logs) LOG_DEV_BLK_SIZE;
          ensure (size0 > 2 * FLAGS_wal_buffer_size fl);
          ensure (FLAGS_wal_buffer_size fl mod 4096 = 0);
          let seg = size0 - size0 mod FLAGS_wal_buffer_size fl;
          let half = seg div 2 - (seg div 2) mod FLAGS_wal_buffer_size fl;
          ensure (fake \<longrightarrow> half \<ge> FLAGS_wal_buffer_size fl);
          Some \<lparr>log_count = nb_logs, log_dev_size = dev_size, log_file_offset = file_offset, log_start_offset = file_offset + meta,
                meta_size = meta, lm_segment_size = seg, lm_fake_wrap_around_offset = (if fake then half else 0)\<rparr> }"

text \<open>The segment and the log number \<open>i\<close> of a new database; \<open>sink_logs\<close> is \<^verbatim>\<open>FLAGS_wal_sink_logs\<close>.\<close>

definition segment_new :: "LogManager \<Rightarrow> u32 \<Rightarrow> per_worker_log_segment" where
  "segment_new lm i =
     (let s = log_start_offset lm + ucast i * lm_segment_size lm
      in \<lparr>start_off = s, end_off = s + lm_segment_size lm, seg_off = 0, last_start_offset = 0, seg_hardened_gsn = 0\<rparr>)"

definition isSinkLog :: "u32 \<Rightarrow> u32 \<Rightarrow> bool" where
  "isSinkLog sink_logs i \<longleftrightarrow> i < sink_logs"

definition Logging_new :: "u32 \<Rightarrow> LogManager \<Rightarrow> u32 \<Rightarrow> Logging" where
  "Logging_new sink_logs lm i =
     \<lparr>log_id = i, hardened_gsn = 0, wt_to_lw = \<lparr>last_gsn = 0, wal_written_offset = 0\<rparr>, wal_log_cursor = 0, wal_buffer_round = 0,
      wal_next_to_clean = 0, wal_gct_cursor = 0, wal_buffer = (\<lambda>_. 0), wal_lsn_counter = 0, log_gsn_clock = 0,
      log_segment_start = start_off (segment_new lm i), log_segment_size = lm_segment_size lm,
      fake_wrap_around_offset = lm_fake_wrap_around_offset lm, is_sink_log = isSinkLog sink_logs i, redirect_to_sink_log = False,
      holes = \<lparr>arr = replicate MAX_PENDING_HOLES hole_none, head = 0, tail = 0\<rparr>\<rparr>"

definition LSN2LogID :: "LogManager \<Rightarrow> LID \<Rightarrow> u32 option" where
  "LSN2LogID lm lsn =
     (if \<not> isRegularLSN lsn then Some (- 1)
      else do { ensure (lsnLogID lsn < log_count lm); Some (lsnLogID lsn) })"

text \<open>The absolute offset of a record on the device, given the start of each segment.\<close>

definition LSN2DevOffset :: "LogManager \<Rightarrow> LID \<Rightarrow> u64 option" where
  "LSN2DevOffset lm lsn =
     do { ensure (isRegularLSN lsn);
          i \<leftarrow> LSN2LogID lm lsn;
          ensure (lsnOffset lsn < lm_segment_size lm);
          Some (start_off (segment_new lm i) + lsnOffset lsn) }"

section \<open>Writing\<close>

text \<open>A write: offset on the device, offset in the buffer, size.\<close>

type_synonym pwrite = "u64 \<times> u64 \<times> u64"

definition add_pwrite ::
  "flags \<Rightarrow> LogManager \<Rightarrow> u64 \<Rightarrow> u64 \<Rightarrow> bool \<Rightarrow> per_worker_log_segment \<times> pwrite list \<Rightarrow>
   (per_worker_log_segment \<times> pwrite list) option" where
  "add_pwrite fl lm buffer_offset sz block_full = (\<lambda>(lseg, sqes).
     if \<not> FLAGS_wal_pwrite fl then Some (lseg, sqes)
     else do {
       ensure (sz mod LOG_DEV_BLK_SIZE = 0);
       if sz = 0 then Some (lseg, sqes)
       else do {
         ensure (start_off lseg + seg_off lseg < log_file_offset lm + log_dev_size lm);
         ensure (seg_off lseg mod 4096 = 0);
         ensure (start_off lseg mod 4096 = 0);
         let sqes1 = sqes @ [(start_off lseg + seg_off lseg, buffer_offset, sz)];
         let off = seg_off lseg + sz;
         ensure (off < lm_segment_size lm);
         let off1 = (if block_full then off else off - LOG_DEV_BLK_SIZE);
         off2 \<leftarrow> (if lm_fake_wrap_around_offset lm \<noteq> 0 \<and> lm_fake_wrap_around_offset lm \<le> off1
                 then do { ensure (off1 = lm_fake_wrap_around_offset lm); Some 0 } else Some off1);
         Some (lseg\<lparr>seg_off := off2, last_start_offset := buffer_offset\<rparr>, sqes1)
       }
     })"

definition apply_write :: "(nat \<Rightarrow> u8) \<Rightarrow> pwrite \<Rightarrow> (nat \<Rightarrow> u8) \<Rightarrow> nat \<Rightarrow> u8" where
  "apply_write buf = (\<lambda>(fo, bo, sz) dev i.
     if unat fo \<le> i \<and> i < unat fo + unat sz then buf (unat bo + (i - unat fo)) else dev i)"

definition submitAndWait :: "(nat \<Rightarrow> u8) \<Rightarrow> pwrite list \<Rightarrow> (nat \<Rightarrow> u8) \<Rightarrow> nat \<Rightarrow> u8" where
  "submitAndWait buf sqes dev = fold (apply_write buf) sqes dev"

text \<open>
  Phase 1 for one log: the published offset and the writes for the bytes up to it, which may go
  round the end of the buffer.  \<open>seen\<close> is \<^verbatim>\<open>per_log_last_seen_gsn\<close>.
\<close>

definition gct_phase1 ::
  "flags \<Rightarrow> LogManager \<Rightarrow> LID \<Rightarrow> Logging \<Rightarrow> per_worker_log_segment \<Rightarrow>
   (WorkerToLW \<times> per_worker_log_segment \<times> pwrite list) option" where
  "gct_phase1 fl lm seen l lseg =
     (let log2gct = wt_to_lw l; written = wal_written_offset log2gct; gct = wal_gct_cursor l;
          lower = downAlign gct LOG_DEV_BLK_SIZE; upper = upAlign written LOG_DEV_BLK_SIZE; block_full = (upper = written)
      in if last_gsn log2gct = seen then Some (log2gct, lseg, [])
         else do {
           ensure (seen < last_gsn log2gct);
           (lseg', sqes) \<leftarrow>
             (if is_sink_log l then Some (lseg, [])
              else if written > gct then add_pwrite fl lm lower (upper - lower) block_full (lseg, [])
              else if written < gct
              then do { r \<leftarrow> add_pwrite fl lm lower (FLAGS_wal_buffer_size fl - lower) True (lseg, []);
                        add_pwrite fl lm 0 upper block_full r }
              else Some (lseg, []));
           Some (log2gct, lseg', sqes)
         })"

text \<open>Phase 2 for one log, when the writes are done.\<close>

definition gct_phase2 :: "LID \<Rightarrow> WorkerToLW \<Rightarrow> Logging \<Rightarrow> per_worker_log_segment \<Rightarrow> LID \<times> Logging \<times> per_worker_log_segment" where
  "gct_phase2 seen copy l lseg =
     (if last_gsn copy \<noteq> seen
      then (last_gsn copy, l\<lparr>wal_gct_cursor := wal_written_offset copy, hardened_gsn := last_gsn copy\<rparr>,
            lseg\<lparr>seg_hardened_gsn := last_gsn copy\<rparr>)
      else (seen, l, lseg))"

text \<open>The shutdown, for one log: collecting all holes, and the check that nothing is left.\<close>

definition gctCollectAllFilledHoles :: "Logging \<Rightarrow> Logging option" where
  "gctCollectAllFilledHoles l =
     do { l1 \<leftarrow> collect_filled_holes False l;
          ensure (empty (holes l1));
          Some l1 }"

definition log_buffer_empty :: "Logging \<Rightarrow> bool" where
  "log_buffer_empty l \<longleftrightarrow> empty (holes l) \<and> wal_written_offset (wt_to_lw l) = wal_log_cursor l \<and>
     wal_gct_cursor l = wal_log_cursor l \<and> hardened_gsn l = last_gsn (wt_to_lw l)"

text \<open>
  The last round for one log, when the workers have stopped: collecting all holes, one round with
  its writes, and the verification; it returns what the committer has seen, the log, its segment
  and the device.
\<close>

definition last_round ::
  "flags \<Rightarrow> LogManager \<Rightarrow> LID \<Rightarrow> Logging \<Rightarrow> per_worker_log_segment \<Rightarrow> (nat \<Rightarrow> u8) \<Rightarrow>
   (LID \<times> Logging \<times> per_worker_log_segment \<times> (nat \<Rightarrow> u8)) option" where
  "last_round fl lm seen l lseg dev = do {
     l1 \<leftarrow> gctCollectAllFilledHoles l;
     (copy, lseg1, sqes) \<leftarrow> gct_phase1 fl lm seen l1 lseg;
     let dev1 = submitAndWait (wal_buffer l1) sqes dev;
     let (seen2, l2, lseg2) = gct_phase2 seen copy l1 lseg1;
     ensure (log_buffer_empty l2);
     Some (seen2, l2, lseg2, dev1) }"

section \<open>What the writes cover\<close>

text \<open>
  The writes put the bytes from the block of the group committer up to \<open>P\<close> where their
  positions say, and touch nothing before.
\<close>

definition covers :: "nat \<Rightarrow> nat \<Rightarrow> nat \<Rightarrow> nat \<Rightarrow> pwrite list \<Rightarrow> bool" where
  "covers b s0 G P q \<longleftrightarrow> (\<forall>buf dev p. (dn G \<le> p \<and> p < P \<longrightarrow> submitAndWait buf q dev (s0 + p) = buf (p mod b)) \<and>
     (p < dn G \<longrightarrow> submitAndWait buf q dev (s0 + p) = dev (s0 + p)))"

text \<open>The segment of a log: its place on the device.\<close>

definition seg_ok :: "LogManager \<Rightarrow> Logging \<Rightarrow> per_worker_log_segment \<Rightarrow> bool" where
  "seg_ok lm l lseg \<longleftrightarrow> lm_segment_size lm = log_segment_size l \<and> lm_fake_wrap_around_offset lm = 0 \<and>
     log_segment_start l = start_off lseg \<and> log_id l < log_count lm \<and> start_off (segment_new lm (log_id l)) = start_off lseg \<and> 4096 dvd unat (start_off lseg) \<and>
     unat (start_off lseg) + unat (log_segment_size l) \<le> unat (log_file_offset lm) + unat (log_dev_size lm) \<and>
     unat (log_file_offset lm) + unat (log_dev_size lm) < 2 ^ 63"

lemma add_pwrite_result:
  assumes pw: "FLAGS_wal_pwrite fl" and lm: "lm_fake_wrap_around_offset lm = 0" and a: "add_pwrite fl lm bo sz blk (lseg, q) = Some (lseg', q')"
    and nz: "sz \<noteq> 0"
  shows "q' = q @ [(start_off lseg + seg_off lseg, bo, sz)]"
    "seg_off lseg' = (if blk then seg_off lseg + sz else seg_off lseg + sz - LOG_DEV_BLK_SIZE)"
    "seg_off lseg + sz < lm_segment_size lm" "start_off lseg' = start_off lseg"
  using assms by (auto simp: add_pwrite_def ensure_def Let_def split: if_splits)

lemma add_pwrite_zero: "FLAGS_wal_pwrite fl \<Longrightarrow> add_pwrite fl lm bo 0 blk (lseg, q) = Some (lseg, q)"
  by (simp add: add_pwrite_def ensure_def LOG_DEV_BLK_SIZE_def)


lemma submit_one: "submitAndWait buf [(fo, bo, sz)] dev i =
    (if unat fo \<le> i \<and> i < unat fo + unat sz then buf (unat bo + (i - unat fo)) else dev i)"
  by (simp add: submitAndWait_def apply_write_def)

lemma submit_two: "submitAndWait buf [w1, w2] dev = apply_write buf w2 (apply_write buf w1 dev)"
  by (simp add: submitAndWait_def)

text \<open>The writes of phase 1.\<close>

lemma phase1_same_round:
  assumes b: "4096 dvd b" "0 < b" and G: "G \<le> P" "P div b = G div b" "G mod b < P mod b"
    and w: "unat fo = s0 + dn G" "unat bo = dn (G mod b)" "unat sz = up (P mod b) - dn (G mod b)"
  shows "covers b s0 G P [(fo, bo, sz)]"
proof -
  define B where "B = b * (G div b)"
  have d: "dn G = B + dn (G mod b)" unfolding B_def by (rule dn_split [OF b(1)])
  have P: "P = B + P mod b" using G(2) mult_div_mod_eq [of b P] by (simp add: B_def)
  have r: "P mod b \<le> up (P mod b)" "P mod b < b" using up_bounds(1) b(2) by auto
  show ?thesis
    unfolding covers_def submit_one
  proof (intro allI conjI impI)
    fix buf dev p
    assume p: "dn G \<le> p \<and> p < P"
    have "p - dn G < unat sz" using p d P r(1) w(3) by linarith
    moreover have "dn (G mod b) + (p - dn G) = p mod b"
    proof -
      have "p = B + (p - B)" "p - B < b" using p d P r(2) by linarith+
      then have "p mod b = p - B" unfolding B_def by (metis mod_mult_self4 mod_less)
      then show ?thesis using p d by linarith
    qed
    moreover have "unat fo \<le> s0 + p" "s0 + p < unat fo + unat sz" using p w(1) \<open>p - dn G < unat sz\<close> by linarith+
    ultimately show "(if unat fo \<le> s0 + p \<and> s0 + p < unat fo + unat sz then buf (unat bo + (s0 + p - unat fo)) else dev (s0 + p)) = buf (p mod b)"
      using w(1,2) by simp
  qed (use w in auto)
qed

lemma phase1_next_round:
  assumes b: "4096 dvd b" "0 < b" and G: "P div b = G div b + 1"
    and w1: "unat fo1 = s0 + dn G" "unat bo1 = dn (G mod b)" "unat sz1 = b - dn (G mod b)"
    and w2: "P mod b = 0 \<and> q = [] \<or> q = [(fo2, bo2, sz2)] \<and> unat fo2 = s0 + b * (G div b + 1) \<and> unat bo2 = 0 \<and> unat sz2 = up (P mod b)"
  shows "covers b s0 G P ((fo1, bo1, sz1) # q)"
proof -
  define B where "B = b * (G div b)"
  have d: "dn G = B + dn (G mod b)" unfolding B_def by (rule dn_split [OF b(1)])
  have P: "P = B + b + P mod b" using G mult_div_mod_eq [of b P] by (simp add: B_def)
  have r: "dn (G mod b) < b" "P mod b < b" "P mod b \<le> up (P mod b)"
    using b(2) dn_bounds(1) [of "G mod b"] mod_less_divisor [of b G] up_bounds(1) by (auto intro: le_less_trans)
  have first: "apply_write buf (fo1, bo1, sz1) dev (s0 + p) = (if dn G \<le> p \<and> p < B + b then buf (p mod b) else dev (s0 + p))" for buf dev p
  proof (cases "dn G \<le> p \<and> p < B + b")
    case True
    then have "p = B + (p - B)" "p - B < b" using d by linarith+
    then have "p mod b = p - B" unfolding B_def by (metis mod_mult_self4 mod_less)
    then have "dn (G mod b) + (p - dn G) = p mod b" using True d by linarith
    moreover have "s0 + p < unat fo1 + unat sz1" "unat fo1 \<le> s0 + p" using True d w1 r(1) by linarith+
    ultimately show ?thesis using True w1 by (simp add: apply_write_def)
  next
    case False
    then have "\<not> (unat fo1 \<le> s0 + p \<and> s0 + p < unat fo1 + unat sz1)" using d w1 r(1) by linarith
    then show ?thesis using False unfolding apply_write_def prod.case by (simp only: if_False)
  qed
  show ?thesis
    using w2
  proof
    assume q: "P mod b = 0 \<and> q = []"
    then show ?thesis using P d by (auto simp: covers_def submitAndWait_def first)
  next
    assume q: "q = [(fo2, bo2, sz2)] \<and> unat fo2 = s0 + b * (G div b + 1) \<and> unat bo2 = 0 \<and> unat sz2 = up (P mod b)"
    have fo2: "unat fo2 = s0 + (B + b)" using q by (simp add: B_def)
    have sec: "submitAndWait buf ((fo1, bo1, sz1) # q) dev (s0 + p) =
        (if B + b \<le> p \<and> p < B + b + up (P mod b) then buf (p - (B + b)) else apply_write buf (fo1, bo1, sz1) dev (s0 + p))" for buf dev p
    proof -
      have "unat fo2 \<le> s0 + p \<and> s0 + p < unat fo2 + unat sz2 \<longleftrightarrow> B + b \<le> p \<and> p < B + b + up (P mod b)"
        using q fo2 by linarith
      moreover have "unat bo2 + (s0 + p - unat fo2) = p - (B + b)" using q fo2 by linarith
      ultimately show ?thesis using q by (simp add: submit_two) (simp add: apply_write_def)
    qed
    have late: "p - (B + b) = p mod b" if "B + b \<le> p" "p < P" for p
    proof -
      have "p = b * (G div b + 1) + (p - (B + b))" "p - (B + b) < b" using that P r(2) by (auto simp: B_def)
      then show ?thesis by (metis mod_mult_self4 mod_less)
    qed
    show ?thesis unfolding covers_def
    proof (intro allI conjI impI)
      fix buf dev p
      assume p: "dn G \<le> p \<and> p < P"
      show "submitAndWait buf ((fo1, bo1, sz1) # q) dev (s0 + p) = buf (p mod b)"
        unfolding sec first using p late [of p] P r(3) by (cases "B + b \<le> p") auto
    next
      fix buf dev p
      assume "p < dn G"
      then show "submitAndWait buf ((fo1, bo1, sz1) # q) dev (s0 + p) = dev (s0 + p)"
        unfolding sec first using d r(1) by auto
    qed
  qed
qed


lemma blk_dn: "unat (LOG_DEV_BLK_SIZE :: u64) = 4096"
  by (simp add: LOG_DEV_BLK_SIZE_def)

text \<open>The end of a write: the block of the last byte, unless that is full.\<close>

lemma seg_off_after:
  fixes o0 sz :: u64
  assumes "unat o0 = x" "unat sz = up y - z" "z \<le> dn y" "x + up y < 2 ^ 63" "blk = (up y = y)"
  shows "unat (if blk then o0 + sz else o0 + sz - LOG_DEV_BLK_SIZE) = x + (dn y - z)"
proof -
  have z: "z \<le> up y" using assms(3) dn_bounds(1) [of y] up_bounds(1) [of y] by linarith
  then have s: "unat (o0 + sz) = x + (up y - z)" using assms by (simp add: unat_plus_if')
  show ?thesis
  proof (cases blk)
    case True
    then have "dn y = y" "up y = y" using assms(5) up_dn(1) [of y] by auto
    then show ?thesis using s True by simp
  next
    case False
    then have "up y = dn y + 4096" using assms(5) up_dn(2) [of y] by auto
    then have "unat (o0 + sz - LOG_DEV_BLK_SIZE) = x + (dn y - z)"
      using s assms(3) by (simp add: unat_sub_if' blk_dn)
    then show ?thesis using False by simp
  qed
qed

lemma gct_phase1_spec:
  assumes g: "wal_geom fl b" and pos: "wal_pos b L G l" and seg: "seg_ok lm l lseg" and off: "unat (seg_off lseg) = dn G"
    and P: "G \<le> P" "P \<le> L" "unat (wal_written_offset (wt_to_lw l)) = P mod b" and S: "L < unat (log_segment_size l)" "unat (log_segment_size l) \<le> 2 ^ 47" and sink: "\<not> is_sink_log l"
    and ph: "gct_phase1 fl lm seen l lseg = Some (copy, lseg', q)" and gsn: "last_gsn (wt_to_lw l) \<noteq> seen"
  shows "copy = wt_to_lw l" "start_off lseg' = start_off lseg" "unat (seg_off lseg') = dn P"
    "P = G \<and> q = [] \<or> covers b (unat (start_off lseg)) G P q"
proof -
  note f = pos_facts [OF g pos]
  have b: "4096 dvd b" "0 < b" "b < 2 ^ 31" "FLAGS_wal_pwrite fl" "unat (FLAGS_wal_buffer_size fl) = b" using g by (auto simp: wal_geom_def)
  have pg: "P - G < b" using P f(3) dn_bounds(1) [of G] by linarith
  have gct: "unat (wal_gct_cursor l) = G mod b" using pos by (simp add: wal_pos_def)
  have so: "lm_fake_wrap_around_offset lm = 0" "unat (start_off lseg) + unat (log_segment_size l) < 2 ^ 63" "lm_segment_size lm = log_segment_size l"
    using seg by (simp_all add: seg_ok_def)
  define lower upper where "lower = downAlign (wal_gct_cursor l) LOG_DEV_BLK_SIZE"
    and "upper = upAlign (wal_written_offset (wt_to_lw l)) LOG_DEV_BLK_SIZE"
  have lo: "unat lower = dn (G mod b)" using gct by (simp add: lower_def unat_downAlign)
  have Pb: "P mod b < b" "G mod b < b" using b(2) by simp_all
  have upb: "up (P mod b) \<le> b" using Pb b(1) by (intro up_least) auto
  have "unat (wal_written_offset (wt_to_lw l)) < 2 ^ 31" using P(3) Pb(1) b(3) by linarith
  then have "unat upper = up (unat (wal_written_offset (wt_to_lw l)))" unfolding upper_def by (intro unat_upAlign) simp
  then have hi: "unat upper = up (P mod b)" using P(3) by simp
  have full: "upper = wal_written_offset (wt_to_lw l) \<longleftrightarrow> up (P mod b) = P mod b" using hi P(3) by (auto simp: word_unat_eq_iff)
  define blk where "blk = (upper = wal_written_offset (wt_to_lw l))"
  have dL: "dn G \<le> L" using f(2) .
  have ph': "copy = wt_to_lw l \<and> (if wal_written_offset (wt_to_lw l) > wal_gct_cursor l then add_pwrite fl lm lower (upper - lower) blk (lseg, [])
      else if wal_written_offset (wt_to_lw l) < wal_gct_cursor l
      then do { r \<leftarrow> add_pwrite fl lm lower (FLAGS_wal_buffer_size fl - lower) True (lseg, []); add_pwrite fl lm 0 upper blk r }
      else Some (lseg, [])) = Some (lseg', q)"
    using ph gsn sink unfolding gct_phase1_def Let_def lower_def [symmetric] upper_def [symmetric] blk_def [symmetric]
    by (auto simp: ensure_def split: if_splits bind_splits)
  then show "copy = wt_to_lw l" by blast
  have fo: "unat (start_off lseg + seg_off lseg) = unat (start_off lseg) + dn G"
    using off so(2) dL S(1) by (simp add: unat_plus_if')
  have "start_off lseg' = start_off lseg \<and> unat (seg_off lseg') = dn P \<and> (P = G \<and> q = [] \<or> covers b (unat (start_off lseg)) G P q)"
  proof (cases rule: ring_split [OF b(2) P(1) pg])
    case 1
    show ?thesis
    proof (cases "P = G")
      case True
      then have "wal_written_offset (wt_to_lw l) = wal_gct_cursor l" using gct P(3) by (simp add: word_unat_eq_iff)
      then show ?thesis using ph' off True by simp
    next
      case False
      then have lt: "G mod b < P mod b" using 1 P(1) by linarith
      have le: "dn (G mod b) \<le> G mod b" "P mod b \<le> up (P mod b)" using dn_bounds(1) up_bounds(1) by auto
      have sz: "unat (upper - lower) = up (P mod b) - dn (G mod b)" using lo hi le lt by (simp add: unat_sub_if')
      have nz: "upper - lower \<noteq> 0" using sz le lt by (metis diff_is_0_eq not_le order_le_less_trans order_less_le_trans unsigned_0)
      have "wal_written_offset (wt_to_lw l) > wal_gct_cursor l" using lt gct P(3) by (simp add: word_less_nat_alt)
      then have "add_pwrite fl lm lower (upper - lower) blk (lseg, []) = Some (lseg', q)" using ph' by simp
      note a = add_pwrite_result [OF b(4) so(1) this nz]
      have "dn G + up (P mod b) < 2 ^ 63" using dL S upb b(3) by simp
      moreover have "dn (G mod b) \<le> dn (P mod b)" using lt by (intro dn_mono) simp
      ultimately have "unat (seg_off lseg') = dn G + (dn (P mod b) - dn (G mod b))"
        unfolding a(2) using off sz full by (intro seg_off_after) (simp_all add: blk_def)
      then have "unat (seg_off lseg') = dn P"
        using dn_split [OF b(1), of G] dn_split [OF b(1), of P] 1(1) \<open>dn (G mod b) \<le> dn (P mod b)\<close> by simp
      moreover have "covers b (unat (start_off lseg)) G P q"
        unfolding a(1) append_Nil using fo lo sz by (intro phase1_same_round [OF b(1,2) P(1) 1(1) lt])
      ultimately show ?thesis using a(4) by simp
    qed
  next
    case 2
    have gl: "wal_written_offset (wt_to_lw l) < wal_gct_cursor l" using 2(3) gct P(3) by (simp add: word_less_nat_alt)
    let ?sz = "FLAGS_wal_buffer_size fl - lower"
    have lob: "dn (G mod b) < b" using dn_bounds(1) [of "G mod b"] Pb(2) by linarith
    have sz: "unat ?sz = b - dn (G mod b)" using lo lob b(5) by (simp add: unat_sub_if')
    then have nz: "?sz \<noteq> 0" using lob by auto
    have "\<not> wal_gct_cursor l < wal_written_offset (wt_to_lw l)" using gl by simp
    then obtain lseg1 q1 where w: "add_pwrite fl lm lower ?sz True (lseg, []) = Some (lseg1, q1)"
      "add_pwrite fl lm 0 upper blk (lseg1, q1) = Some (lseg', q)"
      using ph' gl by (auto simp: bind_eq_Some_conv split: if_splits)
    note a = add_pwrite_result [OF b(4) so(1) w(1) nz]
    let ?B = "b * (G div b + 1)"
    have B: "dn G + (b - dn (G mod b)) = ?B" using dn_split [OF b(1), of G] lob by simp
    have BP: "?B + P mod b = P" using 2(1) mult_div_mod_eq [of b P] by simp
    have "dn G + b < 2 ^ 63" using dL S b(3) by simp
    then have o1: "unat (seg_off lseg1) = ?B" unfolding a(2) using off sz B lob by (simp add: unat_plus_if')
    have fo2: "unat (start_off lseg1 + seg_off lseg1) = unat (start_off lseg) + ?B"
      unfolding a(4) using o1 BP P(2) S(1) so(2) by (simp add: unat_plus_if')
    have dP: "dn P = ?B + dn (P mod b)" using dn_split [OF b(1), of P] 2(1) by simp
    show ?thesis
    proof (cases "upper = 0")
      case True
      then have z: "P mod b = 0" using hi up_bounds(1) [of "P mod b"] by simp
      have "lseg' = lseg1" "q = q1" using w(2) True add_pwrite_zero [OF b(4)] by auto
      moreover have "covers b (unat (start_off lseg)) G P q1"
        unfolding a(1) append_Nil using fo lo sz z by (intro phase1_next_round [OF b(1,2) 2(1)]) simp_all
      moreover have "dn P = ?B" using dP z by (simp add: dn_def)
      ultimately show ?thesis using a(4) o1 by simp
    next
      case False
      note a2 = add_pwrite_result [OF b(4) so(1) w(2) False]
      have "?B \<le> 2 ^ 47" using BP P(2) S by linarith
      then have "?B + up (P mod b) < 2 ^ 63" using upb b(3) by simp
      then have "unat (seg_off lseg') = ?B + (dn (P mod b) - 0)"
        unfolding a2(2) using o1 hi full by (intro seg_off_after) (simp_all add: blk_def)
      moreover have "covers b (unat (start_off lseg)) G P q"
        unfolding a2(1) a(1) append_Nil append_Cons using fo lo sz fo2 hi
        by (intro phase1_next_round [OF b(1,2) 2(1), where ?fo2.0 = "start_off lseg1 + seg_off lseg1" and ?bo2.0 = 0 and ?sz2.0 = upper]) simp_all
      ultimately show ?thesis using a(4) a2(4) dP by simp
    qed
  qed
  then show "start_off lseg' = start_off lseg" "unat (seg_off lseg') = dn P"
    "P = G \<and> q = [] \<or> covers b (unat (start_off lseg)) G P q" by auto
qed


section \<open>The checks of the group committer hold\<close>

lemma add_pwrite_returns:
  fixes sz :: u64
  assumes "4096 dvd unat sz" "seg_ok lm l lseg" "4096 dvd unat (seg_off lseg)" "unat (seg_off lseg) + unat sz < unat (log_segment_size l)"
  shows "\<exists>y. add_pwrite fl lm bo sz blk (lseg, q) = Some y"
proof -
  have blk: "w mod LOG_DEV_BLK_SIZE = 0 \<longleftrightarrow> 4096 dvd unat w" for w :: u64
    by (simp add: word_unat_eq_iff unat_mod blk_dn mod_eq_0_iff_dvd)
  have so: "unat (start_off lseg) + unat (log_segment_size l) \<le> unat (log_file_offset lm) + unat (log_dev_size lm)"
    "unat (log_file_offset lm) + unat (log_dev_size lm) < 2 ^ 63" "lm_segment_size lm = log_segment_size l" "lm_fake_wrap_around_offset lm = 0"
    "4096 dvd unat (start_off lseg)" using assms(2) by (simp_all add: seg_ok_def)
  have "unat (start_off lseg + seg_off lseg) = unat (start_off lseg) + unat (seg_off lseg)"
    "unat (log_file_offset lm + log_dev_size lm) = unat (log_file_offset lm) + unat (log_dev_size lm)"
    "unat (seg_off lseg + sz) = unat (seg_off lseg) + unat sz"
    using so(1,2) assms(4) by (simp_all add: unat_plus_if')
  then have "start_off lseg + seg_off lseg < log_file_offset lm + log_dev_size lm" "seg_off lseg + sz < lm_segment_size lm"
    using so(1,3) assms(4) by (simp_all add: word_less_nat_alt)
  moreover have "seg_off lseg mod 4096 = 0" "start_off lseg mod 4096 = 0" "sz mod LOG_DEV_BLK_SIZE = 0"
    using blk assms(1,3) so(5) by (simp_all add: LOG_DEV_BLK_SIZE_def)
  ultimately show ?thesis using so(4) by (simp add: add_pwrite_def Let_def ensure_def)
qed

lemma gct_phase1_returns:
  assumes g: "wal_geom fl b" and pos: "wal_pos b L G l" and seg: "seg_ok lm l lseg" and off: "unat (seg_off lseg) = dn G"
    and P: "G \<le> P" "P \<le> L" "unat (wal_written_offset (wt_to_lw l)) = P mod b" and S: "L + 4096 \<le> unat (log_segment_size l)"
    and gsn: "seen \<le> last_gsn (wt_to_lw l)"
  shows "\<exists>x. gct_phase1 fl lm seen l lseg = Some x"
proof -
  note f = pos_facts [OF g pos]
  have b: "4096 dvd b" "0 < b" "b < 2 ^ 31" "unat (FLAGS_wal_buffer_size fl) = b" "FLAGS_wal_pwrite fl" using g by (auto simp: wal_geom_def)
  have pg: "P - G < b" using P f(3) dn_bounds(1) [of G] by linarith
  have gct: "unat (wal_gct_cursor l) = G mod b" using pos by (simp add: wal_pos_def)
  define lower upper where "lower = downAlign (wal_gct_cursor l) LOG_DEV_BLK_SIZE"
    and "upper = upAlign (wal_written_offset (wt_to_lw l)) LOG_DEV_BLK_SIZE"
  have lo: "unat lower = dn (G mod b)" using gct by (simp add: lower_def unat_downAlign)
  have "unat (wal_written_offset (wt_to_lw l)) < 2 ^ 31" using P(3) mod_less_divisor [OF b(2), of P] b(3) by linarith
  then have "unat upper = up (unat (wal_written_offset (wt_to_lw l)))" unfolding upper_def by (intro unat_upAlign) simp
  then have hi: "unat upper = up (P mod b)" using P(3) by simp
  have upP: "up P < unat (log_segment_size l)" using up_bounds(2) [of P] P(2) S by linarith
  define blk where "blk = (upper = wal_written_offset (wt_to_lw l))"
  have w: "\<exists>y. (if wal_written_offset (wt_to_lw l) > wal_gct_cursor l then add_pwrite fl lm lower (upper - lower) blk (lseg, [])
      else if wal_written_offset (wt_to_lw l) < wal_gct_cursor l
      then do { r \<leftarrow> add_pwrite fl lm lower (FLAGS_wal_buffer_size fl - lower) True (lseg, []); add_pwrite fl lm 0 upper blk r }
      else Some (lseg, [])) = Some y"
  proof (cases rule: ring_split [OF b(2) P(1) pg])
    case 1
    have "\<exists>y. add_pwrite fl lm lower (upper - lower) blk (lseg, []) = Some y"
    proof (rule add_pwrite_returns [OF _ seg])
      have le: "dn (G mod b) \<le> up (P mod b)" using 1(3) dn_bounds(1) [of "G mod b"] up_bounds(1) [of "P mod b"] by linarith
      then have sz: "unat (upper - lower) = up (P mod b) - dn (G mod b)" using lo hi by (simp add: unat_sub_if')
      show "4096 dvd unat (upper - lower)" unfolding sz using up_bounds(3) dn_bounds(3) by (rule dvd_diff_nat)
      show "4096 dvd unat (seg_off lseg)" unfolding off by (rule dn_bounds(3))
      have "dn G + (up (P mod b) - dn (G mod b)) = up P" using le dn_split [OF b(1), of G] up_split [OF b(1), of P] 1(1) by simp
      then show "unat (seg_off lseg) + unat (upper - lower) < unat (log_segment_size l)" unfolding off sz using upP by simp
    qed
    moreover have "\<not> wal_written_offset (wt_to_lw l) < wal_gct_cursor l" using 1(3) gct P(3) by (simp add: word_less_nat_alt)
    ultimately show ?thesis by auto
  next
    case 2
    have lob: "dn (G mod b) < b" using dn_bounds(1) [of "G mod b"] mod_less_divisor [OF b(2), of G] by linarith
    let ?sz = "FLAGS_wal_buffer_size fl - lower"
    have sz: "unat ?sz = b - dn (G mod b)" using lo lob b(4) by (simp add: unat_sub_if')
    then have nz: "?sz \<noteq> 0" using lob by auto
    let ?B = "b * (G div b + 1)"
    have B: "dn G + (b - dn (G mod b)) = ?B" using dn_split [OF b(1), of G] lob by simp
    have up: "up P = ?B + up (P mod b)" using up_split [OF b(1), of P] 2(1) by simp
    have al: "4096 dvd unat ?sz" unfolding sz using b(1) dn_bounds(3) by (rule dvd_diff_nat)
    have "\<exists>y. add_pwrite fl lm lower ?sz True (lseg, []) = Some y"
      by (rule add_pwrite_returns [OF al seg]) (use off dn_bounds(3) B sz up upP in simp_all)
    then obtain lseg1 q1 where w1: "add_pwrite fl lm lower ?sz True (lseg, []) = Some (lseg1, q1)" by fastforce
    have fake: "lm_fake_wrap_around_offset lm = 0" using seg by (simp add: seg_ok_def)
    note a = add_pwrite_result [OF b(5) fake w1 nz]
    have lt: "unat (seg_off lseg) + unat ?sz < 2 ^ 64" using a(3) off sz B up upP unsigned_less [of "log_segment_size l", where 'a = nat] by simp
    have o1: "unat (seg_off lseg1) = ?B" unfolding a(2) using lt off sz B by (simp add: unat_plus_if')
    have "seg_ok lm l lseg1" using seg a(4) by (simp add: seg_ok_def)
    then have "\<exists>y. add_pwrite fl lm 0 upper blk (lseg1, q1) = Some y"
      using hi up_bounds(3) o1 b(1) up upP by (intro add_pwrite_returns) simp_all
    moreover have "wal_written_offset (wt_to_lw l) < wal_gct_cursor l" using 2(3) gct P(3) by (simp add: word_less_nat_alt)
    ultimately show ?thesis using w1 by auto
  qed
  have "seen = last_gsn (wt_to_lw l) \<or> seen < last_gsn (wt_to_lw l)" using gsn by (simp add: order.order_iff_strict disj_commute)
  then show ?thesis
    using w unfolding gct_phase1_def Let_def lower_def [symmetric] upper_def [symmetric] blk_def [symmetric] by (auto simp: ensure_def bind_eq_Some_conv)
qed

end
