(* ===== verification/WAL_System.thy ===== *)
theory WAL_System
  imports WAL_Device Transition_System
begin

text \<open>
  Workers, readers and the group committer around one log.  A step is one atomic piece of one
  thread: a reservation under the mutex of the log, one byte written into a reserved record, the
  unlocking of its hole, collecting holes, one of the pieces of a round of the group committer,
  or one of the pieces of \<^verbatim>\<open>tryCopyFromWALBuffer\<close>, which copies byte by byte without any
  lock.  A reservation is one step for the readers too: the code moves the LSN counter before it
  writes, so a reader that comes in between sees bytes as before the step and the counter as after
  it.  The destination of a reader is large enough for a record.

  The GSN clock is taken not to run over \<open>2 ^ 64\<close>.  The history of holes, the records with their bytes and the position of the group committer are
  ghosts.  A log that is reset starts anew; the runs are those of one life of a segment.
\<close>

section \<open>The system\<close>

record wal_record =
  r_off :: nat
  r_size :: nat
  r_gsn :: LID
  r_hole :: nat
  r_bytes :: "u8 list option"

text \<open>Where a round of the group committer is, with the position it has read.\<close>

datatype gct_pc = GRound | GSubmit WorkerToLW "pwrite list" nat | GFinish WorkerToLW nat

text \<open>Where a reader is, with the bytes copied; the result is \<open>None\<close> if the record was overwritten.\<close>

datatype rd_pc = RIdle | RHead LID "u8 list" | RBody LID nat "u8 list" | RDone LID "u8 list option"

record wal_sys =
  lg :: Logging
  seg :: per_worker_log_segment
  log_dev :: "nat \<Rightarrow> u8"
  seen :: LID
  gct :: gct_pc
  readers :: "nat \<Rightarrow> rd_pc"
  hist :: "hole_ghost list"
  records :: "wal_record list"
  gpos :: nat

text \<open>The size field in the header of a record.\<close>

definition wal_entry_size :: "u8 list \<Rightarrow> nat" where
  "wal_entry_size bs = unat (bs ! 2) + 256 * unat (bs ! 3)"

text \<open>
  The holes a reservation inserted: one for the bytes it skipped, if any, and the locked one of
  the record at \<open>off\<close>.
\<close>

definition new_holes :: "Logging \<Rightarrow> Logging \<Rightarrow> nat \<Rightarrow> nat \<Rightarrow> hole_ghost list" where
  "new_holes l l' off tot =
     (if unat (tail (holes l')) = unat (tail (holes l)) + 1 then []
      else [\<lparr>gh_pos = off, gh_gsn = log_gsn_clock l, gh_locked = False\<rparr>]) @
     [\<lparr>gh_pos = off + tot, gh_gsn = log_gsn_clock l', gh_locked = True\<rparr>]"

definition after_reserve :: "WALEntryHandler \<Rightarrow> Logging \<Rightarrow> wal_sys \<Rightarrow> wal_sys" where
  "after_reserve h l' s =
     (let off = unat (lsnOffset (h_lsn h)); tot = unat (h_total_size h); H = hist s @ new_holes (lg s) l' off tot
      in s\<lparr>lg := l', hist := H,
           records := records s @ [\<lparr>r_off = off, r_size = tot, r_gsn = log_gsn_clock l', r_hole = length H - 1, r_bytes = None\<rparr>]\<rparr>)"

definition record_slice :: "flags \<Rightarrow> wal_sys \<Rightarrow> wal_record \<Rightarrow> u8 list" where
  "record_slice fl s r = map (\<lambda>k. wal_buffer (lg s) ((r_off r + k) mod unat (FLAGS_wal_buffer_size fl))) [0..<r_size r]"

definition submitted :: "wal_sys \<Rightarrow> LID \<Rightarrow> bool" where
  "submitted s lsn \<longleftrightarrow> (\<exists>r \<in> set (records s). lsn = makeLSN (ucast (log_id (lg s))) (of_nat (r_off r)) \<and>
     (\<exists>bs. r_bytes r = Some bs \<and> 32 \<le> length bs \<and> wal_entry_size bs = length bs))"

inductive wal_step :: "flags \<Rightarrow> LogManager \<Rightarrow> wal_sys \<Rightarrow> wal_sys \<Rightarrow> bool" for fl lm where
  reserve: "\<not> redirect_to_sink_log (lg s) \<Longrightarrow> log_gsn_clock (lg s) < - 1 \<Longrightarrow> unat payload + 96 \<le> 4096 \<Longrightarrow>
    reserveWALEntry fl payload pg dt gs (lg s) = Some (h, l') \<Longrightarrow> wal_step fl lm s (after_reserve h l' s)"
| reserve_ppl: "\<not> redirect_to_sink_log (lg s) \<Longrightarrow> log_gsn_clock (lg s) < - 1 \<Longrightarrow> 0 < unat psz \<Longrightarrow> unat psz + 32 \<le> 4096 \<Longrightarrow>
    reservePPLEntry fl psz (lg s) = Some (h, l') \<Longrightarrow> wal_step fl lm s (after_reserve h l' s)"
| fill: "r \<in> set (records s) \<Longrightarrow> r_bytes r = None \<Longrightarrow> k < r_size r \<Longrightarrow>
    wal_step fl lm s (s\<lparr>lg := (lg s)\<lparr>wal_buffer :=
      (wal_buffer (lg s))((r_off r + k) mod unat (FLAGS_wal_buffer_size fl) := x)\<rparr>\<rparr>)"
| submit: "i < length (records s) \<Longrightarrow> r = records s ! i \<Longrightarrow> r_bytes r = None \<Longrightarrow>
    unlock_slot (slot MAX_PENDING_HOLES (of_nat (r_hole r))) (lg s) = Some l' \<Longrightarrow>
    wal_step fl lm s (s\<lparr>lg := l', hist := (hist s)[r_hole r := (hist s ! r_hole r)\<lparr>gh_locked := False\<rparr>],
      records := (records s)[i := r\<lparr>r_bytes := Some (record_slice fl s r)\<rparr>]\<rparr>)"
| collect: "opportunisticCollectHoles mutex_free (lg s) = Some l' \<Longrightarrow> wal_step fl lm s (s\<lparr>lg := l'\<rparr>)"
| sync: "wal_step fl lm s (s\<lparr>lg := syncGSN g (lg s)\<rparr>)"
| gct_read: "gct s = GRound \<Longrightarrow> gct_phase1 fl lm (seen s) (lg s) (seg s) = Some (copy, lseg, q) \<Longrightarrow>
    wal_step fl lm s (s\<lparr>seg := lseg, gct := GSubmit copy q
      (if last_gsn copy = seen s then gpos s else ppos (hist s) (unat (head (holes (lg s)))))\<rparr>)"
| gct_write: "gct s = GSubmit copy q P \<Longrightarrow>
    wal_step fl lm s (s\<lparr>log_dev := submitAndWait (wal_buffer (lg s)) q (log_dev s), gct := GFinish copy P\<rparr>)"
| gct_store: "gct s = GFinish copy P \<Longrightarrow> gct_phase2 (seen s) copy (lg s) (seg s) = (g, l', lseg) \<Longrightarrow>
    wal_step fl lm s (s\<lparr>seen := g, lg := l', seg := lseg, gct := GRound, gpos := P\<rparr>)"
| rd_start: "readers s i = RIdle \<Longrightarrow> submitted s lsn \<Longrightarrow>
    wal_step fl lm s (s\<lparr>readers := (readers s)(i := if overwritten fl lsn (lg s) then RDone lsn None else RHead lsn [])\<rparr>)"
| rd_head: "readers s i = RHead lsn dst \<Longrightarrow> length dst < 32 \<Longrightarrow>
    wal_step fl lm s (s\<lparr>readers := (readers s)(i := RHead lsn (dst @ [wal_buffer (lg s) (buffer_pos fl lsn + length dst)]))\<rparr>)"
| rd_check: "readers s i = RHead lsn dst \<Longrightarrow> length dst = 32 \<Longrightarrow>
    wal_step fl lm s (s\<lparr>readers := (readers s)(i := if overwritten fl lsn (lg s) then RDone lsn None
      else RBody lsn (wal_entry_size dst) dst)\<rparr>)"
| rd_body: "readers s i = RBody lsn n dst \<Longrightarrow> length dst < n \<Longrightarrow>
    wal_step fl lm s (s\<lparr>readers := (readers s)(i := RBody lsn n (dst @ [wal_buffer (lg s) (buffer_pos fl lsn + length dst)]))\<rparr>)"
| rd_last: "readers s i = RBody lsn n dst \<Longrightarrow> length dst = n \<Longrightarrow>
    wal_step fl lm s (s\<lparr>readers := (readers s)(i := if overwritten fl lsn (lg s) then RDone lsn None else RDone lsn (Some dst))\<rparr>)"
| rd_again: "readers s i = RDone lsn res \<Longrightarrow> wal_step fl lm s (s\<lparr>readers := (readers s)(i := RIdle)\<rparr>)"

text \<open>
  The start: a log that is not a sink log of a new database whose configuration passed the checks
  of \<^verbatim>\<open>LogManager\<close>, with buffers of at least four blocks and less than 2 GiB, segments of
  at most \<open>2 ^ 47\<close> bytes, and room for the logs on the device.
\<close>

definition wal_init :: "flags \<Rightarrow> LogManager \<Rightarrow> wal_sys \<Rightarrow> bool" where
  "wal_init fl lm s \<longleftrightarrow> (\<exists>nb fo ds sinks i. LogManager_new fl False nb fo ds = Some lm \<and> wal_geom fl (unat (FLAGS_wal_buffer_size fl)) \<and>
     i < nb \<and> nb \<le> 1024 \<and> \<not> isSinkLog sinks i \<and> unat (lm_segment_size lm) \<le> 2 ^ 47 \<and> unat fo + unat ds < 2 ^ 63 \<and>
     lg s = Logging_new sinks lm i \<and> seg s = segment_new lm i \<and> seen s = 0 \<and> gct s = GRound \<and> (\<forall>j. readers s j = RIdle) \<and>
     hist s = [] \<and> records s = [] \<and> gpos s = 0)"

section \<open>Invariant\<close>

abbreviation wpos :: "wal_sys \<Rightarrow> nat" where "wpos s \<equiv> unat (wal_lsn_counter (lg s))"
abbreviation npub :: "wal_sys \<Rightarrow> nat" where "npub s \<equiv> unat (head (holes (lg s)))"

text \<open>A position up to which everything has been published.\<close>

definition boundary :: "hole_ghost list \<Rightarrow> nat \<Rightarrow> nat \<Rightarrow> bool" where
  "boundary H n p \<longleftrightarrow> (\<exists>k \<le> n. p = ppos H k)"

definition record_ok :: "nat \<Rightarrow> hole_ghost list \<Rightarrow> wal_record \<Rightarrow> bool" where
  "record_ok b H r \<longleftrightarrow> r_hole r < length H \<and> gh_pos (H ! r_hole r) = r_off r + r_size r \<and> gh_gsn (H ! r_hole r) = r_gsn r \<and> ppos H (r_hole r) \<le> r_off r \<and>
     0 < r_size r \<and> r_off r mod b + r_size r \<le> b \<and> dn (r_off r) = dn (r_off r + r_size r - 1) \<and>
     (gh_locked (H ! r_hole r) \<longleftrightarrow> r_bytes r = None) \<and> (\<forall>bs. r_bytes r = Some bs \<longrightarrow> length bs = r_size r)"

definition records_ok :: "nat \<Rightarrow> hole_ghost list \<Rightarrow> wal_record list \<Rightarrow> bool" where
  "records_ok b H R \<longleftrightarrow> (\<forall>r \<in> set R. record_ok b H r) \<and> distinct (map r_hole R) \<and>
     (\<forall>j < length H. gh_locked (H ! j) \<longrightarrow> j \<in> r_hole ` set R)"

text \<open>The buffer is a window on the log, and the device has what the group committer has passed.\<close>

definition buffer_ok :: "nat \<Rightarrow> nat \<Rightarrow> wal_record list \<Rightarrow> (nat \<Rightarrow> u8) \<Rightarrow> bool" where
  "buffer_ok b L R buf \<longleftrightarrow> (\<forall>r \<in> set R. \<forall>bs k. r_bytes r = Some bs \<and> L \<le> r_off r + b \<and> k < r_size r \<longrightarrow> buf ((r_off r + k) mod b) = bs ! k)"

definition device_ok :: "nat \<Rightarrow> nat \<Rightarrow> wal_record list \<Rightarrow> (nat \<Rightarrow> u8) \<Rightarrow> bool" where
  "device_ok s0 G R dev \<longleftrightarrow> (\<forall>r \<in> set R. \<forall>bs k. r_bytes r = Some bs \<and> r_off r + r_size r \<le> G \<and> k < r_size r \<longrightarrow> dev (s0 + r_off r + k) = bs ! k)"

fun gct_ok :: "nat \<Rightarrow> wal_sys \<Rightarrow> gct_pc \<Rightarrow> bool" where
  "gct_ok b s GRound \<longleftrightarrow> unat (seg_off (seg s)) = dn (gpos s)"
| "gct_ok b s (GSubmit copy q P) \<longleftrightarrow> gpos s \<le> P \<and> boundary (hist s) (npub s) P \<and> unat (seg_off (seg s)) = dn P \<and>
     (last_gsn copy = seen s \<longrightarrow> P = gpos s) \<and> (last_gsn copy \<noteq> seen s \<longrightarrow> unat (wal_written_offset copy) = P mod b) \<and>
     (P = gpos s \<and> q = [] \<or> covers b (unat (start_off (seg s))) (gpos s) P q)"
| "gct_ok b s (GFinish copy P) \<longleftrightarrow> gpos s \<le> P \<and> boundary (hist s) (npub s) P \<and> unat (seg_off (seg s)) = dn P \<and>
     (last_gsn copy = seen s \<longrightarrow> P = gpos s) \<and> (last_gsn copy \<noteq> seen s \<longrightarrow> unat (wal_written_offset copy) = P mod b) \<and>
     device_ok (unat (start_off (seg s))) P (records s) (log_dev s)"

text \<open>What a reader has copied is right as long as the record is not overwritten.\<close>

definition reading :: "nat \<Rightarrow> wal_sys \<Rightarrow> LID \<Rightarrow> u8 list \<Rightarrow> wal_record \<Rightarrow> u8 list \<Rightarrow> bool" where
  "reading b s lsn dst r bs \<longleftrightarrow> r \<in> set (records s) \<and> lsn = makeLSN (ucast (log_id (lg s))) (of_nat (r_off r)) \<and>
     r_bytes r = Some bs \<and> 32 \<le> length bs \<and> wal_entry_size bs = length bs \<and> length dst \<le> length bs \<and>
     (wpos s \<le> r_off r + b \<longrightarrow> dst = take (length dst) bs)"

fun reader_ok :: "nat \<Rightarrow> wal_sys \<Rightarrow> rd_pc \<Rightarrow> bool" where
  "reader_ok b s RIdle \<longleftrightarrow> True"
| "reader_ok b s (RHead lsn dst) \<longleftrightarrow> length dst \<le> 32 \<and> (\<exists>r bs. reading b s lsn dst r bs)"
| "reader_ok b s (RBody lsn n dst) \<longleftrightarrow> (\<exists>r bs. reading b s lsn dst r bs \<and> n = length bs)"
| "reader_ok b s (RDone lsn res) \<longleftrightarrow> (\<exists>r bs. reading b s lsn [] r bs \<and> (res = Some bs \<or> res = None \<and> r_off r + b < wpos s))"

definition wal_inv :: "flags \<Rightarrow> LogManager \<Rightarrow> wal_sys \<Rightarrow> bool" where
  "wal_inv fl lm s \<longleftrightarrow> (let b = unat (FLAGS_wal_buffer_size fl) in
     linv fl b (hist s) (npub s) (wpos s) (gpos s) (lg s) \<and> boundary (hist s) (npub s) (gpos s) \<and> seg_ok lm (lg s) (seg s) \<and>
     records_ok b (hist s) (records s) \<and> buffer_ok b (wpos s) (records s) (wal_buffer (lg s)) \<and>
     device_ok (unat (start_off (seg s))) (gpos s) (records s) (log_dev s) \<and> gct_ok b s (gct s) \<and> (\<forall>i. reader_ok b s (readers s i)))"

section \<open>Boundaries and records\<close>

lemma boundary_mono: "boundary H n p \<Longrightarrow> n \<le> n' \<Longrightarrow> boundary H n' p"
  by (auto simp: boundary_def intro: order_trans)

lemma boundary_append: "boundary H n p \<Longrightarrow> n \<le> length H \<Longrightarrow> boundary (H @ X) n p"
  by (auto simp: boundary_def ppos_append)

lemma boundary_unlock: "boundary (H[i := (H ! i)\<lparr>gh_locked := k\<rparr>]) n p \<longleftrightarrow> boundary H n p"
  by (simp add: boundary_def ppos_unlock)

lemma boundary_le: "holes_ordered H L \<Longrightarrow> n \<le> length H \<Longrightarrow> boundary H n p \<Longrightarrow> p \<le> ppos H n"
  by (auto simp: boundary_def intro: ordered_mono)

lemma ppos_le: "holes_ordered H L \<Longrightarrow> n \<le> length H \<Longrightarrow> ppos H n \<le> L"
  using ordered_mono [of H L n "length H"] by (simp add: holes_ordered_def)

lemma record_end: "record_ok b H r \<Longrightarrow> ppos H (Suc (r_hole r)) = r_off r + r_size r"
  by (simp add: record_ok_def ppos_def)

lemma record_end_le: "holes_ordered H L \<Longrightarrow> record_ok b H r \<Longrightarrow> r_off r + r_size r \<le> L"
  using ppos_le [of H L "Suc (r_hole r)"] by (auto simp: record_ok_def ppos_def)

lemma record_order:
  assumes "holes_ordered H L" "record_ok b H r" "record_ok b H r'" "r_hole r < r_hole r'"
  shows "r_off r + r_size r \<le> r_off r'"
proof -
  have "ppos H (Suc (r_hole r)) \<le> ppos H (r_hole r')"
    using assms by (intro ordered_mono [OF assms(1)]) (auto simp: record_ok_def)
  then show ?thesis using record_end [OF assms(2)] assms(3) by (auto simp: record_ok_def)
qed

lemma unfilled_after:
  assumes "holes_ordered H L" "record_ok b H r" "r_bytes r = None" "\<forall>i < n. \<not> gh_locked (H ! i)" "n \<le> length H"
  shows "ppos H n \<le> r_off r"
proof -
  have "n \<le> r_hole r" using assms(2-4) by (auto simp: record_ok_def not_less [symmetric])
  then have "ppos H n \<le> ppos H (r_hole r)" using assms(2) by (intro ordered_mono [OF assms(1)]) (auto simp: record_ok_def)
  then show ?thesis using assms(2) by (auto simp: record_ok_def)
qed

lemma record_ok_append: "record_ok b H r \<Longrightarrow> record_ok b (H @ X) r"
  by (auto simp: record_ok_def nth_append ppos_append)

text \<open>A record before a boundary ends before it.\<close>

lemma record_before_boundary:
  assumes "holes_ordered H L" "record_ok b H r" "boundary H n p" "n \<le> length H" "\<forall>i < n. \<not> gh_locked (H ! i)" "r_off r + r_size r \<le> p"
  shows "r_bytes r \<noteq> None"
proof
  assume "r_bytes r = None"
  then have "ppos H n \<le> r_off r" using unfilled_after [OF assms(1,2) _ assms(5,4)] by blast
  then show False using boundary_le [OF assms(1,4,3)] assms(2,6) by (auto simp: record_ok_def)
qed

text \<open>Writing behind the end of the log keeps the records in the window.\<close>

lemma buffer_ok_writes:
  assumes "buffer_ok b L R buf" "writes_only b L L' buf buf'" "L \<le> L'" "\<forall>r \<in> set R. r_off r + r_size r \<le> L"
  shows "buffer_ok b L' R buf'"
  unfolding buffer_ok_def
proof (intro ballI allI impI)
  fix r bs k
  assume r: "r \<in> set R" and k: "r_bytes r = Some bs \<and> L' \<le> r_off r + b \<and> k < r_size r"
  have e: "r_off r + r_size r \<le> L" using assms(4) r by blast
  have "buf' ((r_off r + k) mod b) = buf ((r_off r + k) mod b)"
  proof (rule ccontr)
    assume "\<not> ?thesis"
    then obtain p where p: "L \<le> p" "p < L'" "(r_off r + k) mod b = p mod b" using assms(2) by (auto simp: writes_only_def)
    have "r_off r + k < p" "p < r_off r + k + b" using p k e by linarith+
    then show False using ring_inj p(3) by blast
  qed
  moreover have "buf ((r_off r + k) mod b) = bs ! k" using assms(1,3) r k by (auto simp: buffer_ok_def)
  ultimately show "buf' ((r_off r + k) mod b) = bs ! k" by simp
qed

section \<open>What does not change\<close>

lemma gct_ok_change:
  assumes "gct_ok b s g" "seg s' = seg s" "seen s' = seen s" "gpos s' = gpos s"
    and "\<And>P. boundary (hist s) (npub s) P \<Longrightarrow> boundary (hist s') (npub s') P"
    and "\<And>P. boundary (hist s) (npub s) P \<Longrightarrow> device_ok (unat (start_off (seg s))) P (records s) (log_dev s) \<Longrightarrow>
      device_ok (unat (start_off (seg s))) P (records s') (log_dev s')"
  shows "gct_ok b s' g"
  using assms by (cases g) auto

definition extends :: "wal_sys \<Rightarrow> wal_sys \<Rightarrow> bool" where
  "extends s s' \<longleftrightarrow> (\<forall>r \<in> set (records s). r_bytes r \<noteq> None \<longrightarrow> r \<in> set (records s')) \<and> log_id (lg s') = log_id (lg s) \<and> wpos s \<le> wpos s'"

lemma reading_extends: "reading b s lsn dst r bs \<Longrightarrow> extends s s' \<Longrightarrow> reading b s' lsn dst r bs"
  by (auto simp: reading_def extends_def)

lemma reader_ok_extends: "reader_ok b s x \<Longrightarrow> extends s s' \<Longrightarrow> reader_ok b s' x"
proof (cases x)
  case (RDone lsn res)
  assume "reader_ok b s x" and e: "extends s s'"
  then obtain r bs where r: "reading b s lsn [] r bs" "res = Some bs \<or> res = None \<and> r_off r + b < wpos s"
    using RDone by auto
  have "wpos s \<le> wpos s'" using e by (simp add: extends_def)
  then have "res = Some bs \<or> res = None \<and> r_off r + b < wpos s'" using r(2) by auto
  then show ?thesis using RDone reading_extends [OF r(1) e] by auto
qed (auto dest: reading_extends)

lemma wal_invD:
  assumes "wal_inv fl lm s" and b: "b = unat (FLAGS_wal_buffer_size fl)"
  shows "linv fl b (hist s) (npub s) (wpos s) (gpos s) (lg s)" "boundary (hist s) (npub s) (gpos s)" "seg_ok lm (lg s) (seg s)"
    "records_ok b (hist s) (records s)" "buffer_ok b (wpos s) (records s) (wal_buffer (lg s))"
    "device_ok (unat (start_off (seg s))) (gpos s) (records s) (log_dev s)" "gct_ok b s (gct s)" "\<And>i. reader_ok b s (readers s i)"
  using assms by (auto simp: wal_inv_def Let_def)

lemma wal_invI:
  assumes b: "b = unat (FLAGS_wal_buffer_size fl)"
    and "linv fl b (hist s) (npub s) (wpos s) (gpos s) (lg s)" "boundary (hist s) (npub s) (gpos s)" "seg_ok lm (lg s) (seg s)"
    "records_ok b (hist s) (records s)" "buffer_ok b (wpos s) (records s) (wal_buffer (lg s))"
    "device_ok (unat (start_off (seg s))) (gpos s) (records s) (log_dev s)" "gct_ok b s (gct s)" "\<And>i. reader_ok b s (readers s i)"
  shows "wal_inv fl lm s"
  using assms by (auto simp: wal_inv_def Let_def)

lemma linvD:
  assumes "linv fl b H n L G l"
  shows "holes_ordered H L" "n \<le> length H" "\<forall>i < n. \<not> gh_locked (H ! i)" "0 < b" "b < 2 ^ 31" "L < 2 ^ 48" "unat (wal_lsn_counter l) = L"
    "L - dn G + 32 \<le> b" "G \<le> L" "unat (head (holes l)) \<le> n" "L < unat (log_segment_size l)" "L + 4096 \<le> unat (log_segment_size l)"
  using assms by (auto simp: linv_def hinv_def wal_geom_def wal_pos_def)

end
