(* ===== verification/WAL_Durable.thy ===== *)
theory WAL_Durable
  imports WAL_System
begin

text \<open>The invariant of the system of workers, readers and the group committer holds in every run.\<close>

section \<open>The start\<close>

lemma new_segments:
  assumes "LogManager_new fl False nb fo ds = Some lm" "wal_geom fl b" "0 < unat nb" "unat nb \<le> 1024"
  obtains m where "log_count lm = nb" "log_file_offset lm = fo" "log_dev_size lm = ds" "lm_fake_wrap_around_offset lm = 0"
    "b < unat (lm_segment_size lm)" "log_start_offset lm = fo + m" "unat m < unat ds" "unat (lm_segment_size lm) \<le> (unat ds - unat m) div unat nb"
    "4096 dvd unat m" "4096 dvd unat fo" "4096 dvd unat (lm_segment_size lm)"
proof -
  have b: "b = unat (FLAGS_wal_buffer_size fl)" "b < 2 ^ 31" "0 < b" "4096 dvd b" using assms(2) by (auto simp: wal_geom_def)
  define m where "m = upAlign (48 + ucast nb * 40) LOG_DEV_BLK_SIZE"
  define size0 where "size0 = downAlign ((ds - m) div ucast nb) LOG_DEV_BLK_SIZE"
  have r: "log_count lm = nb" "log_file_offset lm = fo" "log_dev_size lm = ds" "lm_fake_wrap_around_offset lm = 0" "log_start_offset lm = fo + m"
    "m < ds" "2 * FLAGS_wal_buffer_size fl < size0" "lm_segment_size lm = size0 - size0 mod FLAGS_wal_buffer_size fl" "fo mod LOG_DEV_BLK_SIZE = 0"
    using assms(1) unfolding LogManager_new_def Let_def m_def [symmetric] size0_def [symmetric]
    by (auto simp: ensure_def split: if_splits bind_splits)
  have "unat (48 + ucast nb * 40 :: u64) + 4096 \<le> 2 ^ 64" using assms(4) by (simp add: unat_word_ariths)
  then have mal: "4096 dvd unat m" unfolding m_def by (simp add: unat_upAlign up_bounds(3))
  have "unat size0 = dn (unat ((ds - m) div ucast nb))" unfolding size0_def by (rule unat_downAlign)
  moreover have "unat ((ds - m) div ucast nb) = (unat ds - unat m) div unat nb"
    using r(6) unat_diff_le [of m ds] by (simp add: unat_div word_less_nat_alt)
  ultimately have s0: "unat size0 \<le> (unat ds - unat m) div unat nb" using dn_bounds(1) by simp
  have sz: "unat (lm_segment_size lm) = unat size0 - unat size0 mod b"
    using b(1) by (simp add: r(8) unat_sub word_le_nat_alt unat_mod)
  have "unat (2 * FLAGS_wal_buffer_size fl) = 2 * b" using b(1,2) by (simp add: unat_word_ariths(2))
  then have "2 * b < unat size0" using r(7) by (simp add: word_less_nat_alt)
  then have "b < unat size0 - unat size0 mod b" using mod_less_divisor [OF b(3), of "unat size0"] by linarith
  moreover have "4096 dvd unat (lm_segment_size lm)" unfolding sz using b(4) by (simp add: minus_mod_eq_mult_div)
  moreover have "unat (fo mod LOG_DEV_BLK_SIZE) = 0" using r(9) by simp
  then have "4096 dvd unat fo" by (simp add: unat_mod blk_dn mod_eq_0_iff_dvd)
  ultimately show thesis using r s0 sz mal by (intro that [of m]) (simp_all add: word_less_nat_alt)
qed

text \<open>The segment of a log lies on the device behind the meta block, aligned to blocks.\<close>

lemma segment_place:
  assumes lm: "LogManager_new fl False nb fo ds = Some lm" "wal_geom fl b" and i: "i < nb" "nb \<le> 1024" and fits: "unat fo + unat ds < 2 ^ 63"
  shows "4096 dvd unat (start_off (segment_new lm i))" "4096 dvd unat (lm_segment_size lm)" "log_start_offset lm \<le> start_off (segment_new lm i)"
    "unat (start_off (segment_new lm i)) + unat (lm_segment_size lm) \<le> unat (log_file_offset lm) + unat (log_dev_size lm)"
    "unat (log_file_offset lm) + unat (log_dev_size lm) < 2 ^ 63" "log_count lm = nb" "lm_fake_wrap_around_offset lm = 0" "b < unat (lm_segment_size lm)"
proof -
  have nb: "0 < unat nb" "unat i < unat nb" "unat nb \<le> 1024" using i by (simp_all add: word_less_nat_alt word_le_nat_alt)
  obtain m where cnt: "log_count lm = nb" "log_file_offset lm = fo" "log_dev_size lm = ds" and
    m: "lm_fake_wrap_around_offset lm = 0" "b < unat (lm_segment_size lm)" "log_start_offset lm = fo + m"
    "unat m < unat ds" "unat (lm_segment_size lm) \<le> (unat ds - unat m) div unat nb"
    "4096 dvd unat m" "4096 dvd unat fo" "4096 dvd unat (lm_segment_size lm)"
    by (rule new_segments [OF lm nb(1,3)])
  define S where "S = unat (lm_segment_size lm)"
  have "unat nb * S \<le> unat nb * ((unat ds - unat m) div unat nb)" using m(5) unfolding S_def by (rule mult_le_mono2)
  also have "\<dots> \<le> unat ds - unat m" by simp
  finally have "unat nb * S \<le> unat ds - unat m" .
  moreover have "(unat i + 1) * S \<le> unat nb * S" using nb(2) by (intro mult_le_mono1) simp
  ultimately have room: "unat fo + unat m + unat i * S + S \<le> unat fo + unat ds" using m(4) by simp
  have p: "unat (ucast i * lm_segment_size lm) = unat i * S"
    using room fits by (simp add: unat_word_ariths(2) S_def)
  have fm: "unat (fo + m) = unat fo + unat m" using room fits by (simp add: unat_plus_if')
  then have st: "unat (start_off (segment_new lm i)) = unat fo + unat m + unat i * S"
    using room p fits by (simp add: segment_new_def Let_def m(3) unat_plus_if')
  then show "4096 dvd unat (start_off (segment_new lm i))" using m(6-8) by (simp add: S_def)
  show "log_start_offset lm \<le> start_off (segment_new lm i)" using st fm m(3) by (simp add: word_le_nat_alt)
  show "unat (start_off (segment_new lm i)) + unat (lm_segment_size lm) \<le> unat (log_file_offset lm) + unat (log_dev_size lm)"
    using st room cnt by (simp add: S_def)
  show "4096 dvd unat (lm_segment_size lm)" "unat (log_file_offset lm) + unat (log_dev_size lm) < 2 ^ 63" "log_count lm = nb"
    "lm_fake_wrap_around_offset lm = 0" "b < unat (lm_segment_size lm)" using m cnt fits by simp_all
qed

lemma wal_inv_init:
  assumes "wal_init fl lm s"
  shows "wal_inv fl lm s"
proof -
  define b where "b = unat (FLAGS_wal_buffer_size fl)"
  obtain nb fo ds sinks i where i: "LogManager_new fl False nb fo ds = Some lm" "wal_geom fl b" "i < nb" "nb \<le> 1024" "\<not> isSinkLog sinks i"
    "unat (lm_segment_size lm) \<le> 2 ^ 47" "unat fo + unat ds < 2 ^ 63" and l: "lg s = Logging_new sinks lm i" and
    s: "seg s = segment_new lm i" "seen s = 0" "gct s = GRound" "\<forall>j. readers s j = RIdle" "hist s = []" "records s = []" "gpos s = 0"
    using assms unfolding wal_init_def b_def [symmetric] by blast
  have g: "0 < b" "b < 2 ^ 31" "16384 \<le> b" using i(2) by (auto simp: wal_geom_def)
  have nb: "unat i < unat nb" "unat nb \<le> 1024" using i(3,4) by (simp_all add: word_less_nat_alt word_le_nat_alt)
  note pl = segment_place [OF i(1-4,7)]
  have cq: "cq_inv MAX_PENDING_HOLES \<lparr>arr = replicate MAX_PENDING_HOLES hole_none, head = 0, tail = 0\<rparr>"
    by (simp add: cq_inv_def MAX_PENDING_HOLES_def)
  have "hinv b [] 0 0 (lg s)"
    using cq unfolding hinv_def l Logging_new_def by (simp add: cq_list_def holes_ordered_def ppos_def pgsn_def)
  moreover have "wal_pos b 0 0 (lg s)" using g by (simp add: wal_pos_def l Logging_new_def dn_def)
  ultimately have "linv fl b [] 0 0 0 (lg s)"
    using i(2,5,6) pl(7,8) nb g(3) by (simp add: linv_def l Logging_new_def)
  moreover have "seg_ok lm (lg s) (seg s)" using pl i(3) by (simp add: seg_ok_def l s(1) Logging_new_def)
  moreover have "unat (head (holes (lg s))) = 0" "wpos s = 0" by (simp_all add: l Logging_new_def)
  ultimately show ?thesis
    using s by (intro wal_invI [OF b_def]) (simp_all add: boundary_def ppos_def records_ok_def buffer_ok_def device_ok_def segment_new_def Let_def dn_def)
qed

section \<open>The steps of the workers\<close>

lemma unat_of_nat_48: "off < 2 ^ 48 \<Longrightarrow> unat (of_nat off :: u64) = off"
  by (simp add: unsigned_of_nat take_bit_nat_eq_self)

lemma fits_of_nat: "off < 2 ^ 48 \<Longrightarrow> fits 48 (of_nat off :: u64)"
  by (simp add: fits_iff_unat_less unat_of_nat_48)

lemma after_reserve_extends:
  assumes "wal_inv fl lm s" and b: "b = unat (FLAGS_wal_buffer_size fl)"
    and r: "reserved fl b tot (hist s) (npub s) (wpos s) (gpos s) (lg s) h H' n' off l'"
  shows "lsnOffset (h_lsn h) = of_nat off" "off < 2 ^ 48" "H' = hist s @ new_holes (lg s) l' off tot"
    "after_reserve h l' s = s\<lparr>lg := l', hist := H', records := records s @ [\<lparr>r_off = off, r_size = tot, r_gsn = log_gsn_clock l', r_hole = length H' - 1, r_bytes = None\<rparr>]\<rparr>"
proof -
  note i = wal_invD [OF assms(1,2)]
  have l: "linv fl b H' n' (off + tot) (gpos s) l'" using r unfolding reserved_def by blast
  note d = linvD [OF l]
  show off: "off < 2 ^ 48" using d(6) by simp
  show o: "lsnOffset (h_lsn h) = of_nat off"
    using r off lsnOffset_makeLSN [of "of_nat off :: u64"] by (simp add: reserved_def fits_of_nat)
  show H: "H' = hist s @ new_holes (lg s) l' off tot"
  proof -
    have t: "unat (tail (holes l')) = length H'" "unat (tail (holes (lg s))) = length (hist s)"
      using l i(1) by (auto simp: linv_def hinv_def)
    show ?thesis using r unfolding reserved_def new_holes_def t by auto
  qed
  have "unat (of_nat off :: u64) = off" using off by (rule unat_of_nat_48)
  moreover have "unat (h_total_size h) = tot" using r by (simp add: reserved_def)
  ultimately show "after_reserve h l' s = s\<lparr>lg := l', hist := H', records := records s @ [\<lparr>r_off = off, r_size = tot, r_gsn = log_gsn_clock l', r_hole = length H' - 1, r_bytes = None\<rparr>]\<rparr>"
    using H by (simp add: after_reserve_def Let_def o)
qed


lemma record_ok_new:
  assumes "holes_ordered H L" "L \<le> off" "0 < tot" "off mod b + tot \<le> b" "dn off = dn (off + tot - 1)"
    and H': "H' = H @ X @ [\<lparr>gh_pos = off + tot, gh_gsn = g, gh_locked = True\<rparr>]"
    and X: "X = [] \<or> X = [\<lparr>gh_pos = off, gh_gsn = g', gh_locked = False\<rparr>]"
  shows "record_ok b H' \<lparr>r_off = off, r_size = tot, r_gsn = g, r_hole = length H' - 1, r_bytes = None\<rparr>"
proof -
  have "ppos H' (length H' - 1) \<le> off"
    using X
  proof
    assume "X = []"
    then show ?thesis using assms(1,2) by (simp add: H' ppos_append holes_ordered_def)
  qed (simp add: H' ppos_def nth_append)
  moreover have "H' ! (length H' - 1) = \<lparr>gh_pos = off + tot, gh_gsn = g, gh_locked = True\<rparr>" by (simp add: H' nth_append)
  moreover have "length H' - 1 < length H'" by (simp add: H')
  ultimately show ?thesis using assms(3-5) by (simp add: record_ok_def)
qed

lemma reserved_step:
  assumes inv: "wal_inv fl lm s" and b: "b = unat (FLAGS_wal_buffer_size fl)" and tot: "0 < tot"
    and r: "reserved fl b tot (hist s) (npub s) (wpos s) (gpos s) (lg s) h H' n' off l'"
  shows "wal_inv fl lm (after_reserve h l' s)"
proof -
  note i = wal_invD [OF inv b]
  note d = linvD [OF i(1)]
  let ?r = "\<lparr>r_off = off, r_size = tot, r_gsn = log_gsn_clock l', r_hole = length H' - 1, r_bytes = None\<rparr>"
  define s' where "s' = s\<lparr>lg := l', hist := H', records := records s @ [?r]\<rparr>"
  have eq: "after_reserve h l' s = s'" unfolding s'_def by (rule after_reserve_extends(4) [OF inv b r])
  obtain X where X: "H' = hist s @ X @ [\<lparr>gh_pos = off + tot, gh_gsn = log_gsn_clock l', gh_locked = True\<rparr>]"
    "X = [] \<or> X = [\<lparr>gh_pos = off, gh_gsn = log_gsn_clock (lg s), gh_locked = False\<rparr>]" using r unfolding reserved_def by blast
  have rs: "linv fl b H' n' (off + tot) (gpos s) l'" "wpos s \<le> off" "npub s \<le> n'" "unat (head (holes l')) = n'"
    "writes_only b (wpos s) (off + tot) (wal_buffer (lg s)) (wal_buffer l')" "off mod b + tot \<le> b" "dn off = dn (off + tot - 1)"
    "same_static (lg s) l'" using r unfolding reserved_def by blast+
  have fs: "npub s' = n'" "wpos s' = off + tot" "lg s' = l'" "hist s' = H'" "records s' = records s @ [?r]" "gpos s' = gpos s" "seg s' = seg s"
    "seen s' = seen s" "log_dev s' = log_dev s" "gct s' = gct s" "readers s' = readers s"
    using rs(4) linvD(7) [OF rs(1)] by (simp_all add: s'_def)
  have bd: "boundary H' n' p" if "boundary (hist s) (npub s) p" for p
    unfolding X(1) using boundary_mono [OF boundary_append [OF that d(2)] rs(3)] .
  have R: "\<forall>r \<in> set (records s). record_ok b (hist s) r" "distinct (map r_hole (records s))"
    and lk: "\<And>j. j < length (hist s) \<Longrightarrow> gh_locked (hist s ! j) \<Longrightarrow> j \<in> r_hole ` set (records s)" using i(4) by (simp_all add: records_ok_def)
  have "\<forall>r \<in> set (records s). r_hole r < length H' - 1" using R(1) unfolding X(1) by (auto simp: record_ok_def)
  moreover have "j \<in> r_hole ` set (records s @ [?r])" if j: "j < length H'" "gh_locked (H' ! j)" for j
  proof (cases "j < length (hist s)")
    case True
    then show ?thesis using lk [of j] j(2) by (auto simp: X(1) nth_append)
  next
    case False
    then have "j = length H' - 1" using X(2) j by (auto simp: X(1) nth_append split: if_splits)
    then show ?thesis by simp
  qed
  ultimately have "records_ok b H' (records s @ [?r])"
    using R record_ok_new [OF d(1) rs(2) tot rs(6,7) X] record_ok_append [of b "hist s"] X(1) unfolding records_ok_def by auto
  moreover have "buffer_ok b (off + tot) (records s) (wal_buffer l')"
    using rs(2) R(1) record_end_le [OF d(1)] by (intro buffer_ok_writes [OF i(5) rs(5)]) auto
  then have "buffer_ok b (off + tot) (records s @ [?r]) (wal_buffer l')" by (simp add: buffer_ok_def)
  moreover have dv: "device_ok s0 p (records s @ [?r]) dev = device_ok s0 p (records s) dev" for s0 p dev by (simp add: device_ok_def)
  moreover have "gct_ok b s' (gct s)" using bd dv by (intro gct_ok_change [OF i(7)]) (simp_all add: fs rs(4))
  moreover have e: "extends s s'" using rs(2,8) fs(2) by (simp add: extends_def fs(3,5) same_static_def)
  moreover have "seg_ok lm l' (seg s)" using i(3) rs(8) by (simp add: seg_ok_def same_static_def)
  ultimately show ?thesis
    unfolding eq using rs(1) bd [OF i(2)] i(6) reader_ok_extends [OF i(8) e] by (intro wal_invI [OF b]) (simp_all only: fs rs(4) linvD(7) [OF rs(1)])
qed


text \<open>A step that changes the log only.\<close>

lemma log_step:
  assumes inv: "wal_inv fl lm s" and b: "b = unat (FLAGS_wal_buffer_size fl)"
    and l: "linv fl b (hist s) (unat (head (holes l'))) (wpos s) (gpos s) l'" "npub s \<le> unat (head (holes l'))" "same_static (lg s) l'"
    and buf: "buffer_ok b (wpos s) (records s) (wal_buffer l')"
  shows "wal_inv fl lm (s\<lparr>lg := l'\<rparr>)"
proof -
  note i = wal_invD [OF inv b]
  have w: "unat (wal_lsn_counter l') = wpos s" using linvD(7) [OF l(1)] .
  have bd: "boundary (hist s) (unat (head (holes l'))) p" if "boundary (hist s) (npub s) p" for p by (rule boundary_mono [OF that l(2)])
  have "extends s (s\<lparr>lg := l'\<rparr>)" using w l(3) by (simp add: extends_def same_static_def)
  note rd = reader_ok_extends [OF i(8) this]
  moreover have "gct_ok b (s\<lparr>lg := l'\<rparr>) (gct s)" using bd by (intro gct_ok_change [OF i(7)]) simp_all
  moreover have "seg_ok lm l' (seg s)" using i(3) l(3) by (simp add: seg_ok_def same_static_def)
  ultimately show ?thesis using l(1) buf bd [OF i(2)] i(4,6) w by (intro wal_invI [OF b]) simp_all
qed

lemma sync_step:
  assumes inv: "wal_inv fl lm s"
  shows "wal_inv fl lm (s\<lparr>lg := syncGSN g (lg s)\<rparr>)"
proof -
  note i = wal_invD [OF inv refl]
  have e: "holes (syncGSN g l) = holes l" "wal_buffer (syncGSN g l) = wal_buffer l" "same_static l (syncGSN g l)"
    "linv fl b H n L G (syncGSN g l) = linv fl b H n L G l" for b H n L G l
    by (simp_all add: syncGSN_def same_static_def linv_def wal_pos_def hinv_def)
  show ?thesis using i(1,5) by (intro log_step [OF inv refl]) (simp_all add: e)
qed

lemma collect_step:
  assumes inv: "wal_inv fl lm s" and c: "opportunisticCollectHoles f (lg s) = Some l'"
  shows "wal_inv fl lm (s\<lparr>lg := l'\<rparr>)"
proof (cases f)
  case False
  then have "s\<lparr>lg := l'\<rparr> = s" using c by (simp add: opportunisticCollectHoles_def)
  then show ?thesis using inv by simp
next
  case True
  define b where "b = unat (FLAGS_wal_buffer_size fl)"
  note i = wal_invD [OF inv b_def] and d = linvD [OF wal_invD(1) [OF inv b_def]]
  have h: "hinv b (hist s) (npub s) (wpos s) (lg s)" using i(1) by (simp add: linv_def)
  obtain l1 n1 where c1: "collect_filled_holes False (lg s) = Some l1" "hinv b (hist s) n1 (wpos s) l1" "same_but_holes (lg s) l1" "npub s \<le> n1"
    "n1 = unat (head (holes l1))" by (rule collect_spec [OF d(4,5) h d(6)])
  have "l1 = l'" using c True c1(1) by (simp add: opportunisticCollectHoles_def)
  note c' = c1(2-5) [unfolded this]
  note e = same_but_holesD [OF c'(2)]
  have "linv fl b (hist s) n1 (wpos s) (gpos s) l'" using i(1) c'(1) e by (simp add: linv_def wal_pos_def)
  then show ?thesis using c' e(4) i(5) same_static_holes [OF c'(2)] by (intro log_step [OF inv b_def]) simp_all
qed

text \<open>A byte of a record that is being filled is not one of a record in the window.\<close>

lemma fill_elsewhere:
  assumes H: "holes_ordered H L" "n \<le> length H" "\<forall>i < n. \<not> gh_locked (H ! i)" "boundary H n G" "L \<le> dn G + b"
    and R: "records_ok b H R" and r: "r \<in> set R" "r_bytes r = None" "k < r_size r"
    and r': "r' \<in> set R" "r_bytes r' \<noteq> None" "L \<le> r_off r' + b" "k' < r_size r'"
  shows "(r_off r' + k') mod b \<noteq> (r_off r + k) mod b"
proof -
  have ok: "record_ok b H r" "record_ok b H r'" using R r(1) r'(1) by (auto simp: records_ok_def)
  have "r_hole r \<noteq> r_hole r'" using R r(1,2) r'(1,2) by (auto simp: records_ok_def distinct_map inj_on_def)
  then consider "r_hole r' < r_hole r" | "r_hole r < r_hole r'" by linarith
  then show ?thesis
  proof cases
    case 1
    have "r_off r' + r_size r' \<le> r_off r" by (rule record_order [OF H(1) ok(2,1) 1])
    moreover have "r_off r + r_size r \<le> L" by (rule record_end_le [OF H(1) ok(1)])
    ultimately show ?thesis using r(3) r'(3,4) by (intro ring_inj) linarith+
  next
    case 2
    have "r_off r + r_size r \<le> r_off r'" by (rule record_order [OF H(1) ok 2])
    moreover have "r_off r' + r_size r' \<le> L" by (rule record_end_le [OF H(1) ok(2)])
    moreover have "G \<le> r_off r"
      using boundary_le [OF H(1,2,4)] unfilled_after [OF H(1) ok(1) r(2) H(3,2)] by simp
    ultimately have "(r_off r + k) mod b \<noteq> (r_off r' + k') mod b"
      using r(3) r'(4) H(5) dn_bounds(1) [of G] by (intro ring_inj) linarith+
    then show ?thesis by simp
  qed
qed

lemma fill_step:
  assumes inv: "wal_inv fl lm s" and r: "r \<in> set (records s)" "r_bytes r = None" "k < r_size r"
  shows "wal_inv fl lm (s\<lparr>lg := (lg s)\<lparr>wal_buffer := (wal_buffer (lg s))((r_off r + k) mod unat (FLAGS_wal_buffer_size fl) := x)\<rparr>\<rparr>)"
proof -
  define b where "b = unat (FLAGS_wal_buffer_size fl)"
  note i = wal_invD [OF inv b_def] and d = linvD [OF wal_invD(1) [OF inv b_def]]
  let ?l = "(lg s)\<lparr>wal_buffer := (wal_buffer (lg s))((r_off r + k) mod b := x)\<rparr>"
  have "linv fl b (hist s) (npub s) (wpos s) (gpos s) ?l" using i(1) by (simp add: linv_def wal_pos_def hinv_def)
  moreover have "wpos s \<le> dn (gpos s) + b" using d(8) by simp
  note fe = fill_elsewhere [OF d(1,2,3) i(2) this i(4) r]
  have "buffer_ok b (wpos s) (records s) (wal_buffer ?l)"
    using i(5) fe by (auto simp: buffer_ok_def)
  ultimately show ?thesis unfolding b_def [symmetric] by (intro log_step [OF inv b_def]) (simp_all add: same_static_def)
qed

lemma records_ok_submit:
  assumes R: "records_ok b H R" and i: "i < length R" "r = R ! i" and bs: "length bs = r_size r"
  shows "records_ok b (H[r_hole r := (H ! r_hole r)\<lparr>gh_locked := False\<rparr>]) (R[i := r\<lparr>r_bytes := Some bs\<rparr>])"
proof -
  let ?H = "H[r_hole r := (H ! r_hole r)\<lparr>gh_locked := False\<rparr>]"
  have ok: "\<And>q. q \<in> set R \<Longrightarrow> record_ok b H q" and di: "distinct (map r_hole R)" using R by (auto simp: records_ok_def)
  have r: "record_ok b H r" using ok i by simp
  have keep: "record_ok b ?H (R ! j)" if j: "j < length R" "j \<noteq> i" for j
  proof -
    have "r_hole (R ! j) \<noteq> r_hole r" using di i j nth_eq_iff_index_eq [OF di, of j i] by auto
    then show ?thesis using ok [of "R ! j"] j(1) by (auto simp: record_ok_def ppos_unlock)
  qed
  have "record_ok b ?H (r\<lparr>r_bytes := Some bs\<rparr>)" using r bs by (auto simp: record_ok_def ppos_unlock)
  with keep have "record_ok b ?H (R[i := r\<lparr>r_bytes := Some bs\<rparr>] ! j)" if "j < length R" for j
    using that i(1) by (cases "j = i") simp_all
  then have "\<forall>q \<in> set (R[i := r\<lparr>r_bytes := Some bs\<rparr>]). record_ok b ?H q" by (auto simp: in_set_conv_nth)
  moreover have "map r_hole (R[i := r\<lparr>r_bytes := Some bs\<rparr>]) = map r_hole R"
    using i list_update_id [of "map r_hole R" i] by (simp add: map_update)
  moreover have "j \<in> r_hole ` set (R[i := r\<lparr>r_bytes := Some bs\<rparr>])" if j: "j < length ?H" "gh_locked (?H ! j)" for j
  proof -
    have "j \<noteq> r_hole r" using j by auto
    then have "j \<in> set (map r_hole R)" using j R by (simp add: records_ok_def)
    then show ?thesis using \<open>map r_hole (R[i := _]) = _\<close> by (metis list.set_map)
  qed
  ultimately show ?thesis using di by (simp add: records_ok_def)
qed

lemma submit_step:
  assumes inv: "wal_inv fl lm s" and i: "i < length (records s)" "r = records s ! i" "r_bytes r = None"
    and u: "unlock_slot (slot MAX_PENDING_HOLES (of_nat (r_hole r))) (lg s) = Some l'"
  shows "wal_inv fl lm (s\<lparr>lg := l', hist := (hist s)[r_hole r := (hist s ! r_hole r)\<lparr>gh_locked := False\<rparr>],
      records := (records s)[i := r\<lparr>r_bytes := Some (record_slice fl s r)\<rparr>]\<rparr>)"
    (is "wal_inv fl lm ?s")
proof -
  define b where "b = unat (FLAGS_wal_buffer_size fl)"
  define bs where "bs = record_slice fl s r"
  define R H where "R = (records s)[i := r\<lparr>r_bytes := Some bs\<rparr>]" and "H = (hist s)[r_hole r := (hist s ! r_hole r)\<lparr>gh_locked := False\<rparr>]"
  note v = wal_invD [OF inv b_def] and d = linvD [OF wal_invD(1) [OF inv b_def]]
  have ok: "\<And>q. q \<in> set (records s) \<Longrightarrow> record_ok b (hist s) q" using v(4) by (simp add: records_ok_def)
  have r: "record_ok b (hist s) r" "r \<in> set (records s)" using ok i by auto
  then have lk: "r_hole r < length (hist s)" "gh_locked (hist s ! r_hole r)" using i(3) by (auto simp: record_ok_def)
  have h: "hinv b (hist s) (npub s) (wpos s) (lg s)" using v(1) by (simp add: linv_def)
  obtain l1 where u1: "unlock_slot (slot MAX_PENDING_HOLES (of_nat (r_hole r))) (lg s) = Some l1" "hinv b H (npub s) (wpos s) l1"
    "same_but_holes (lg s) l1" "head (holes l1) = head (holes (lg s))" unfolding H_def by (rule unlock_spec [OF h lk d(4,5,6)])
  have "l1 = l'" using u u1(1) by simp
  note u' = u1(2-4) [unfolded this]
  note e = same_but_holesD [OF u'(2)]
  have len: "length bs = r_size r" by (simp add: bs_def record_slice_def)
  have "linv fl b H (npub s) (wpos s) (gpos s) l'" using v(1) u'(1) e by (simp add: linv_def wal_pos_def)
  moreover have bd: "boundary H n p = boundary (hist s) n p" for n p unfolding H_def by (rule boundary_unlock)
  moreover have "seg_ok lm l' (seg s)" using v(3) e by (simp add: seg_ok_def)
  moreover have "records_ok b H R" unfolding R_def H_def by (rule records_ok_submit [OF v(4) i(1,2) len])
  moreover have "buffer_ok b (wpos s) R (wal_buffer l')"
  proof -
    have "set R \<subseteq> insert (r\<lparr>r_bytes := Some bs\<rparr>) (set (records s))" unfolding R_def by (rule set_update_subset_insert)
    then show ?thesis using v(5) e(4) unfolding buffer_ok_def by (fastforce simp: bs_def record_slice_def b_def)
  qed
  moreover have dv: "device_ok s0 p R (log_dev s)" if "device_ok s0 p (records s) (log_dev s)" "boundary (hist s) (npub s) p" for s0 p
  proof -
    have "\<not> r_off r + r_size r \<le> p" using record_before_boundary [OF d(1) r(1) that(2) d(2,3)] i(3) by auto
    moreover have "set R \<subseteq> insert (r\<lparr>r_bytes := Some bs\<rparr>) (set (records s))" unfolding R_def by (rule set_update_subset_insert)
    ultimately show ?thesis using that(1) unfolding device_ok_def by fastforce
  qed
  moreover have "gct_ok b ?s (gct s)"
    using bd dv u'(3) by (intro gct_ok_change [OF v(7)]) (simp_all add: R_def H_def bs_def)
  moreover have ex: "extends s ?s"
  proof -
    have "q \<in> set R" if q: "q \<in> set (records s)" "r_bytes q \<noteq> None" for q
    proof -
      obtain j where j: "j < length (records s)" "q = records s ! j" using q(1) by (auto simp: in_set_conv_nth)
      have "j \<noteq> i" using i(2,3) j(2) q(2) by auto
      then show ?thesis using j by (auto simp: R_def in_set_conv_nth intro!: exI [of _ j])
    qed
    then show ?thesis using e by (simp add: extends_def R_def bs_def)
  qed
  ultimately show ?thesis
    using v(2) dv [OF v(6,2)] reader_ok_extends [OF v(8) ex] u'(3) e(3)
    by (intro wal_invI [OF b_def]) (simp_all add: R_def H_def bs_def)
qed


section \<open>The steps of the group committer\<close>

lemma device_ok_mono: "device_ok s0 P R dev \<Longrightarrow> G \<le> P \<Longrightarrow> device_ok s0 G R dev"
  unfolding device_ok_def by (meson order_trans)

text \<open>The steps of the group committer keep what the others rely on.\<close>

lemma gct_step:
  assumes inv: "wal_inv fl lm s" and b: "b = unat (FLAGS_wal_buffer_size fl)"
    and s': "hist s' = hist s" "records s' = records s" "readers s' = readers s" "start_off (seg s') = start_off (seg s)"
    and l': "lg s' = (lg s)\<lparr>wal_gct_cursor := wal_gct_cursor (lg s'), hardened_gsn := hardened_gsn (lg s')\<rparr>"
    and "linv fl b (hist s) (npub s) (wpos s) (gpos s') (lg s')" "boundary (hist s) (npub s) (gpos s')"
      "device_ok (unat (start_off (seg s))) (gpos s') (records s) (log_dev s')" "gct_ok b s' (gct s')"
  shows "wal_inv fl lm s'"
proof -
  note i = wal_invD [OF inv b]
  have e: "log_segment_start (lg s') = log_segment_start (lg s)" "log_segment_size (lg s') = log_segment_size (lg s)"
    "log_id (lg s') = log_id (lg s)" "wal_buffer (lg s') = wal_buffer (lg s)" "wal_lsn_counter (lg s') = wal_lsn_counter (lg s)"
    "holes (lg s') = holes (lg s)" by (subst l', simp)+
  have "extends s s'" using e s' by (simp add: extends_def)
  note rd = reader_ok_extends [OF i(8) this]
  have "seg_ok lm (lg s') (seg s')" using i(3) e s'(4) by (simp add: seg_ok_def)
  then show ?thesis using assms(8-11) i(4,5) rd by (intro wal_invI [OF b]) (simp_all add: e s')
qed

lemma gct_read_step:
  assumes inv: "wal_inv fl lm s" and g: "gct s = GRound" and ph: "gct_phase1 fl lm (seen s) (lg s) (seg s) = Some (copy, lseg, q)"
  shows "wal_inv fl lm (s\<lparr>seg := lseg, gct := GSubmit copy q
      (if last_gsn copy = seen s then gpos s else ppos (hist s) (npub s))\<rparr>)"
proof -
  define b where "b = unat (FLAGS_wal_buffer_size fl)"
  note i = wal_invD [OF inv b_def] and d = linvD [OF wal_invD(1) [OF inv b_def]]
  define P where "P = (if last_gsn copy = seen s then gpos s else ppos (hist s) (npub s))"
  have copy: "copy = wt_to_lw (lg s)" and same: "last_gsn copy = seen s \<Longrightarrow> lseg = seg s \<and> q = []"
    using ph by (auto simp: gct_phase1_def Let_def ensure_def split: if_splits bind_splits)
  have off: "unat (seg_off (seg s)) = dn (gpos s)" using i(7) g by simp
  have lv: "wal_geom fl b" "wal_pos b (wpos s) (gpos s) (lg s)" "unat (log_segment_size (lg s)) \<le> 2 ^ 47" "\<not> is_sink_log (lg s)"
    "unat (wal_written_offset (wt_to_lw (lg s))) = ppos (hist s) (npub s) mod b" using i(1) by (auto simp: linv_def hinv_def)
  have P: "boundary (hist s) (npub s) P" using i(2) by (auto simp: P_def boundary_def)
  have GP: "gpos s \<le> P" using boundary_le [OF d(1,2) i(2)] by (simp add: P_def)
  have "start_off lseg = start_off (seg s) \<and> unat (seg_off lseg) = dn P \<and>
      (P = gpos s \<and> q = [] \<or> covers b (unat (start_off (seg s))) (gpos s) P q)"
  proof (cases "last_gsn copy = seen s")
    case True
    then show ?thesis using same off by (simp add: P_def)
  next
    case False
    then have Pe: "P = ppos (hist s) (npub s)" by (simp add: P_def)
    have "unat (wal_written_offset (wt_to_lw (lg s))) = P mod b" "P \<le> wpos s" using lv(5) ppos_le [OF d(1,2)] by (simp_all add: Pe)
    from gct_phase1_spec [OF lv(1,2) i(3) off GP this(2,1) d(11) lv(3,4) ph] False copy show ?thesis by simp
  qed
  then show ?thesis
    unfolding P_def [symmetric] using P GP i(1,2,6) lv(5) copy
    by (intro gct_step [OF inv b_def]) (auto simp: P_def)
qed

text \<open>Once the writes are done, the device has all records up to the position that was read.\<close>

lemma covered:
  assumes c: "covers b s0 G P q" and R: "records_ok b H R" and buf: "buffer_ok b L R buf" and dev: "device_ok s0 G R dev" and L: "L \<le> dn G + b"
  shows "device_ok s0 P R (submitAndWait buf q dev)"
  unfolding device_ok_def
proof (intro ballI allI impI)
  fix r bs k
  assume r: "r \<in> set R" and k: "r_bytes r = Some bs \<and> r_off r + r_size r \<le> P \<and> k < r_size r"
  have ok: "record_ok b H r" using R r by (simp add: records_ok_def)
  have blk: "dn G \<le> r_off r" if "dn G \<le> r_off r + r_size r - 1"
  proof -
    have "dn G \<le> dn (r_off r + r_size r - 1)" using that by (intro dn_greatest dn_bounds(3))
    then show ?thesis using ok dn_bounds(1) [of "r_off r"] by (simp add: record_ok_def)
  qed
  show "submitAndWait buf q dev (s0 + r_off r + k) = bs ! k"
  proof (cases "r_off r + k < dn G")
    case True
    then have "r_off r + r_size r \<le> G" using blk dn_bounds(1) [of G] by linarith
    then have "dev (s0 + r_off r + k) = bs ! k" using dev r k by (auto simp: device_ok_def)
    then show ?thesis using c True by (simp add: covers_def add.assoc)
  next
    case False
    then have "dn G \<le> r_off r" using k by (intro blk) linarith
    then have "buf ((r_off r + k) mod b) = bs ! k" using buf r k L unfolding buffer_ok_def by (meson add_le_mono1 order_trans)
    then show ?thesis using c False k by (simp add: covers_def add.assoc)
  qed
qed

lemma gct_write_step:
  assumes inv: "wal_inv fl lm s" and g: "gct s = GSubmit copy q P"
  shows "wal_inv fl lm (s\<lparr>log_dev := submitAndWait (wal_buffer (lg s)) q (log_dev s), gct := GFinish copy P\<rparr>)"
proof -
  define b where "b = unat (FLAGS_wal_buffer_size fl)"
  note i = wal_invD [OF inv b_def] and d = linvD [OF wal_invD(1) [OF inv b_def]]
  have k: "gct_ok b s (GSubmit copy q P)" using i(7) g by simp
  define dev where "dev = submitAndWait (wal_buffer (lg s)) q (log_dev s)"
  have dv: "device_ok (unat (start_off (seg s))) P (records s) dev"
  proof (cases "P = gpos s \<and> q = []")
    case True
    then show ?thesis using i(6) by (simp add: dev_def submitAndWait_def)
  next
    case False
    then have "covers b (unat (start_off (seg s))) (gpos s) P q" using k by auto
    moreover have "wpos s \<le> dn (gpos s) + b" using d(8) by simp
    ultimately show ?thesis unfolding dev_def by (rule covered [OF _ i(4,5,6)])
  qed
  moreover have "gpos s \<le> P" using k by simp
  ultimately have "device_ok (unat (start_off (seg s))) (gpos s) (records s) dev" by (rule device_ok_mono)
  then show ?thesis
    unfolding dev_def [symmetric] using k dv i(1,2)
    by (intro gct_step [OF inv b_def]) auto
qed

lemma gct_store_step:
  assumes inv: "wal_inv fl lm s" and g: "gct s = GFinish copy P" and ph: "gct_phase2 (seen s) copy (lg s) (seg s) = (sn, l', lseg)"
  shows "wal_inv fl lm (s\<lparr>seen := sn, lg := l', seg := lseg, gct := GRound, gpos := P\<rparr>)"
proof -
  define b where "b = unat (FLAGS_wal_buffer_size fl)"
  note i = wal_invD [OF inv b_def] and d = linvD [OF wal_invD(1) [OF inv b_def]]
  have k: "gct_ok b s (GFinish copy P)" using i(7) g by simp
  have bP: "P \<le> wpos s" using boundary_le [OF d(1,2)] ppos_le [OF d(1,2)] k by (auto intro: order_trans)
  obtain cur hg where l': "l' = (lg s)\<lparr>wal_gct_cursor := cur, hardened_gsn := hg\<rparr>" "unat cur = P mod b"
  proof (cases "last_gsn copy = seen s")
    case True
    then have "l' = (lg s)\<lparr>wal_gct_cursor := wal_gct_cursor (lg s), hardened_gsn := hardened_gsn (lg s)\<rparr>" using ph by (auto simp: gct_phase2_def)
    moreover have "unat (wal_gct_cursor (lg s)) = P mod b" using i(1) k True by (simp add: linv_def wal_pos_def)
    ultimately show thesis by (rule that)
  next
    case False
    then show thesis using ph k that by (auto simp: gct_phase2_def)
  qed
  have lseg: "start_off lseg = start_off (seg s)" "seg_off lseg = seg_off (seg s)" using ph by (auto simp: gct_phase2_def split: if_splits)
  have "dn (gpos s) \<le> dn P" using k by (intro dn_mono) simp
  then have "wal_pos b (wpos s) P l'" using i(1) l' bP unfolding linv_def wal_pos_def by auto
  then have "linv fl b (hist s) (npub s) (wpos s) P l'" using i(1) l'(1) unfolding linv_def hinv_def by simp
  then show ?thesis using k l'(1) lseg by (intro gct_step [OF inv b_def]) simp_all
qed


section \<open>The steps of the readers\<close>

lemma reading_facts:
  assumes inv: "wal_inv fl lm s" and b: "b = unat (FLAGS_wal_buffer_size fl)" and r: "reading b s lsn dst r bs"
  shows "overwritten fl lsn (lg s) \<longleftrightarrow> r_off r + b < wpos s" "r_size r = length bs"
    "k < length bs \<Longrightarrow> wpos s \<le> r_off r + b \<Longrightarrow> wal_buffer (lg s) (buffer_pos fl lsn + k) = bs ! k"
proof -
  note i = wal_invD [OF inv b] and d = linvD [OF wal_invD(1) [OF inv b]]
  have rr: "r \<in> set (records s)" "lsn = makeLSN (ucast (log_id (lg s))) (of_nat (r_off r))" "r_bytes r = Some bs" using r by (auto simp: reading_def)
  have ok: "record_ok b (hist s) r" using i(4) rr(1) by (simp add: records_ok_def)
  show sz: "r_size r = length bs" using ok rr(3) by (simp add: record_ok_def)
  have le: "r_off r \<le> wpos s" "r_off r < 2 ^ 48" using record_end_le [OF d(1) ok] d(6) by simp_all
  have off: "unat (lsnOffset lsn) = r_off r"
    using le(2) lsnOffset_makeLSN [OF fits_of_nat [OF le(2)]] unat_of_nat_48 [OF le(2)] unfolding rr(2) by simp
  show "overwritten fl lsn (lg s) \<longleftrightarrow> r_off r + b < wpos s"
    unfolding overwritten_def word_less_nat_alt using unat_diff_le [of "lsnOffset lsn" "wal_lsn_counter (lg s)"] off le(1) b by auto
  show "wal_buffer (lg s) (buffer_pos fl lsn + k) = bs ! k" if k: "k < length bs" "wpos s \<le> r_off r + b"
  proof -
    have "buffer_pos fl lsn = r_off r mod b" by (simp add: buffer_pos_def unat_mod off b)
    moreover have "r_off r mod b + k < b" using ok k(1) sz by (simp add: record_ok_def)
    ultimately have "buffer_pos fl lsn + k = (r_off r + k) mod b" by (simp add: mod_add_less)
    then show ?thesis using i(5) rr(1,3) k sz by (simp add: buffer_ok_def)
  qed
qed

text \<open>A step of a reader changes where that reader is, and nothing else.\<close>

lemma reader_step:
  assumes inv: "wal_inv fl lm s" and x: "reader_ok (unat (FLAGS_wal_buffer_size fl)) s x"
  shows "wal_inv fl lm (s\<lparr>readers := (readers s)(i := x)\<rparr>)"
proof -
  define b where "b = unat (FLAGS_wal_buffer_size fl)"
  note v = wal_invD [OF inv b_def]
  let ?s = "s\<lparr>readers := (readers s)(i := x)\<rparr>"
  have "extends s ?s" by (simp add: extends_def)
  then have "reader_ok b ?s y" if "reader_ok b s y" for y using that by (rule reader_ok_extends [rotated])
  then have "reader_ok b ?s (readers ?s j)" for j using v(8) x by (simp add: b_def)
  moreover have "gct_ok b ?s (gct s)" by (intro gct_ok_change [OF v(7)]) simp_all
  ultimately show ?thesis using v(1-6) by (intro wal_invI [OF b_def]) simp_all
qed

text \<open>Copying the next byte.\<close>

lemma reading_next:
  assumes inv: "wal_inv fl lm s" and b: "b = unat (FLAGS_wal_buffer_size fl)" and r: "reading b s lsn dst r bs" and "length dst < length bs"
  shows "reading b s lsn (dst @ [wal_buffer (lg s) (buffer_pos fl lsn + length dst)]) r bs"
  using r assms(4) reading_facts(3) [OF inv b r assms(4)] by (auto simp: reading_def take_Suc_conv_app_nth)

lemma reading_start: "reading b s lsn dst r bs \<Longrightarrow> reading b s lsn [] r bs"
  by (simp add: reading_def)

lemma reader_reads:
  assumes inv: "wal_inv fl lm s" and b: "b = unat (FLAGS_wal_buffer_size fl)"
  shows "submitted s lsn \<Longrightarrow> reader_ok b s (if overwritten fl lsn (lg s) then RDone lsn None else RHead lsn [])"
    and "reader_ok b s (RHead lsn dst) \<Longrightarrow> length dst < 32 \<Longrightarrow>
      reader_ok b s (RHead lsn (dst @ [wal_buffer (lg s) (buffer_pos fl lsn + length dst)]))"
    and "reader_ok b s (RHead lsn dst) \<Longrightarrow> length dst = 32 \<Longrightarrow>
      reader_ok b s (if overwritten fl lsn (lg s) then RDone lsn None else RBody lsn (wal_entry_size dst) dst)"
    and "reader_ok b s (RBody lsn n dst) \<Longrightarrow> length dst < n \<Longrightarrow>
      reader_ok b s (RBody lsn n (dst @ [wal_buffer (lg s) (buffer_pos fl lsn + length dst)]))"
    and "reader_ok b s (RBody lsn n dst) \<Longrightarrow> length dst = n \<Longrightarrow>
      reader_ok b s (if overwritten fl lsn (lg s) then RDone lsn None else RDone lsn (Some dst))"
proof -
  have gone: "reader_ok b s (RDone lsn None)" if r: "reading b s lsn d r bs" "overwritten fl lsn (lg s)" for d r bs
    using reading_start [OF r(1)] r(2) reading_facts(1) [OF inv b r(1)] by auto
  show "reader_ok b s (if overwritten fl lsn (lg s) then RDone lsn None else RHead lsn [])" if "submitted s lsn"
  proof -
    from that obtain r bs where "reading b s lsn [] r bs" by (auto simp: submitted_def reading_def)
    then show ?thesis using gone by auto
  qed
  show "reader_ok b s (RHead lsn (dst @ [wal_buffer (lg s) (buffer_pos fl lsn + length dst)]))"
    if h: "reader_ok b s (RHead lsn dst)" "length dst < 32"
  proof -
    from h obtain r bs where r: "reading b s lsn dst r bs" by auto
    then have "length dst < length bs" using h(2) by (simp add: reading_def)
    then show ?thesis using reading_next [OF inv b r] h(2) by auto
  qed
  show "reader_ok b s (if overwritten fl lsn (lg s) then RDone lsn None else RBody lsn (wal_entry_size dst) dst)"
    if h: "reader_ok b s (RHead lsn dst)" "length dst = 32"
  proof -
    from h obtain r bs where r: "reading b s lsn dst r bs" by auto
    have "wal_entry_size dst = length bs" if "\<not> overwritten fl lsn (lg s)"
    proof -
      have "dst = take 32 bs" using r that reading_facts(1) [OF inv b r] h(2) by (simp add: reading_def)
      then have "wal_entry_size dst = wal_entry_size bs" by (simp add: wal_entry_size_def)
      then show ?thesis using r by (simp add: reading_def)
    qed
    then show ?thesis using r gone [OF r] by auto
  qed
  show "reader_ok b s (RBody lsn n (dst @ [wal_buffer (lg s) (buffer_pos fl lsn + length dst)]))"
    if h: "reader_ok b s (RBody lsn n dst)" "length dst < n"
  proof -
    from h(1) obtain r bs where r: "reading b s lsn dst r bs" "n = length bs" by auto
    then show ?thesis using reading_next [OF inv b r(1)] h(2) by auto
  qed
  show "reader_ok b s (if overwritten fl lsn (lg s) then RDone lsn None else RDone lsn (Some dst))"
    if h: "reader_ok b s (RBody lsn n dst)" "length dst = n"
  proof -
    from h obtain r bs where r: "reading b s lsn dst r bs" "n = length bs" by auto
    have "dst = bs" if "\<not> overwritten fl lsn (lg s)"
      using r that reading_facts(1) [OF inv b r(1)] h(2) by (simp add: reading_def)
    then show ?thesis using reading_start [OF r(1)] gone [OF r(1)] by auto
  qed
qed

section \<open>Every run\<close>

lemma wal_inv_step:
  assumes inv: "wal_inv fl lm s" and st: "wal_step fl lm s t"
  shows "wal_inv fl lm t"
  using st
proof (cases rule: wal_step.cases)
  case (reserve payload pg dt gs h l')
  note i = wal_invD [OF inv refl]
  have "wal_inv fl lm (after_reserve h l' s)"
  proof (cases rule: reserveWALEntry_cases [OF i(1) refl reserve(2,4), of pg dt gs])
    case 1
    then show ?thesis using reserve(5) by simp
  next
    case (2 h1 l1 H' n' off)
    then show ?thesis using reserve(5) by (intro reserved_step [OF inv refl]) simp_all
  qed
  then show ?thesis by (simp only: reserve(1))
next
  case (reserve_ppl psz h l')
  note i = wal_invD [OF inv refl]
  have "wal_inv fl lm (after_reserve h l' s)"
  proof (cases rule: reserve_ppl_cases [OF i(1) refl reserve_ppl(2,4,5)])
    case 1
    then show ?thesis using reserve_ppl(6) by simp
  next
    case (2 h1 l1 H' n' off)
    then show ?thesis using reserve_ppl(4,6) by (intro reserved_step [OF inv refl]) simp_all
  qed
  then show ?thesis by (simp only: reserve_ppl(1))
next
  case (submit i r l')
  then show ?thesis by (simp only:) (rule submit_step [OF inv submit(2) refl])
next
  case (rd_start i lsn)
  then show ?thesis using reader_reads(1) [OF inv refl] by (simp only:) (rule reader_step [OF inv])
next
  case (rd_head i lsn dst)
  then show ?thesis using wal_invD(8) [OF inv refl, of i] reader_reads(2) [OF inv refl] by (simp only:) (rule reader_step [OF inv])
next
  case (rd_check i lsn dst)
  then show ?thesis using wal_invD(8) [OF inv refl, of i] reader_reads(3) [OF inv refl] by (simp only:) (rule reader_step [OF inv])
next
  case (rd_body i lsn n dst)
  then show ?thesis using wal_invD(8) [OF inv refl, of i] reader_reads(4) [OF inv refl] by (simp only:) (rule reader_step [OF inv])
next
  case (rd_last i lsn n dst)
  then show ?thesis using wal_invD(8) [OF inv refl, of i] reader_reads(5) [OF inv refl] by (simp only:) (rule reader_step [OF inv])
next
  case (rd_again i lsn res)
  then show ?thesis by (simp only:) (rule reader_step [OF inv], simp)
qed (use fill_step [OF inv] collect_step [OF inv] sync_step [OF inv] gct_read_step [OF inv] gct_write_step [OF inv] gct_store_step [OF inv] in \<open>simp_all only:\<close>)

interpretation wal_system: invariant_of "wal_init fl lm" "wal_step fl lm" "wal_inv fl lm" for fl lm
  by unfold_locales (auto intro: wal_inv_init wal_inv_step)

end
