(* ===== verification/WAL_Commit.thy ===== *)
theory WAL_Commit
  imports WAL_Durable
begin

text \<open>
  What the hardened GSN of a log promises, and the properties of the log that its users rely on.
  A transaction is committed when the GSNs of its records are hardened, so a record up to the
  hardened GSN has to be on the device.
\<close>

section \<open>The GSN clock\<close>

lemma unlock_slot_clock: "unlock_slot i l = Some l' \<Longrightarrow> log_gsn_clock l' = log_gsn_clock l"
  by (auto simp: unlock_slot_def split: bind_splits)

lemma collect_clock: "collect_filled_holes w l = Some l' \<Longrightarrow> log_gsn_clock l' = log_gsn_clock l"
  by (auto simp: collect_filled_holes_def ensure_def split: prod.splits option.splits if_splits bind_splits)

lemma insertHole_clock: "insertHole l = Some (i, l') \<Longrightarrow> log_gsn_clock l' = log_gsn_clock l"
  by (auto simp: insertHole_def dest!: collect_clock split: prod.splits option.splits bind_splits)

lemma drain_clock: "drain_holes l = Some l' \<Longrightarrow> log_gsn_clock l' = log_gsn_clock l"
  by (auto simp: drain_holes_def Let_def ensure_def split: if_splits bind_splits)

lemma carriage_return_clock: "carriage_return fl l = Some l' \<Longrightarrow> log_gsn_clock l' = log_gsn_clock l"
  by (auto simp: carriage_return_def Let_def dest!: insertHole_clock unlock_slot_clock split: prod.splits bind_splits)

lemma skip_to_block_clock: "skip_to_block l = Some l' \<Longrightarrow> log_gsn_clock l' = log_gsn_clock l"
  by (auto simp: skip_to_block_def Let_def dest!: insertHole_clock unlock_slot_clock split: prod.splits bind_splits)

lemma ensure_space_clock: "walEnsureEnoughSpace fl req l = Some l' \<Longrightarrow> log_gsn_clock l' = log_gsn_clock l"
  by (auto simp: walEnsureEnoughSpace_def ensure_def dest!: carriage_return_clock skip_to_block_clock split: if_splits bind_splits)

lemma reserveLSN_clock: "reserveLSN fl req l = Some (lsn, l') \<Longrightarrow> log_gsn_clock l' = log_gsn_clock l"
  by (auto simp: reserveLSN_def Let_def ensure_def dest!: drain_clock split: if_splits bind_splits)

lemmas clock_rules = insertHole_clock ensure_space_clock reserveLSN_clock

lemma reserveWALEntry_clock:
  "reserveWALEntry fl payload pg dt gs l = Some (h, l') \<Longrightarrow> log_gsn_clock l' = max gs (log_gsn_clock l + 1)"
  by (auto simp: reserveWALEntry_def reserveDTEntry_def setCurrentGSN_def ensure_def Let_def dest!: clock_rules split: if_splits bind_splits)

lemma reservePPLEntry_clock: "reservePPLEntry fl psz l = Some (h, l') \<Longrightarrow> log_gsn_clock l' = log_gsn_clock l + 1"
  by (auto simp: reservePPLEntry_def Let_def dest!: clock_rules split: bind_splits)

lemma plus_one_less: "(c :: u64) < - 1 \<Longrightarrow> c < c + 1"
proof -
  assume "c < - 1"
  then have "unat c < 2 ^ 64 - 1" by (simp add: word_less_nat_alt unsigned_minus_1_eq_mask mask_eq_exp_minus_1)
  then show ?thesis by (simp add: word_less_nat_alt unat_plus_if')
qed

section \<open>Hardened records\<close>

text \<open>\<open>g\<close> was published, and all records with a GSN up to it end at or before \<open>P\<close>.\<close>

definition gsn_upto :: "wal_sys \<Rightarrow> LID \<Rightarrow> nat \<Rightarrow> bool" where
  "gsn_upto s g P \<longleftrightarrow> g \<le> log_gsn_clock (lg s) \<and> (\<exists>k \<le> npub s. g = pgsn (hist s) k) \<and> (\<forall>r \<in> set (records s). r_gsn r \<le> g \<longrightarrow> r_off r + r_size r \<le> P)"

fun gct_gsn :: "wal_sys \<Rightarrow> gct_pc \<Rightarrow> bool" where
  "gct_gsn s GRound \<longleftrightarrow> True"
| "gct_gsn s (GSubmit copy q P) \<longleftrightarrow> gsn_upto s (last_gsn copy) P"
| "gct_gsn s (GFinish copy P) \<longleftrightarrow> gsn_upto s (last_gsn copy) P"

definition gsn_ordered :: "hole_ghost list \<Rightarrow> wal_record list \<Rightarrow> LID \<Rightarrow> bool" where
  "gsn_ordered H R c \<longleftrightarrow> sorted (map gh_gsn H) \<and> (\<forall>h \<in> set H. gh_gsn h \<le> c) \<and> (\<forall>r \<in> set R. 0 < r_gsn r \<and> (\<forall>j < r_hole r. gh_gsn (H ! j) < r_gsn r))"

definition gsn_ok :: "wal_sys \<Rightarrow> bool" where
  "gsn_ok s \<longleftrightarrow> gsn_ordered (hist s) (records s) (log_gsn_clock (lg s)) \<and> hardened_gsn (lg s) = seen s \<and>
     gsn_upto s (seen s) (gpos s) \<and> gct_gsn s (gct s) \<and>
     (hist s \<noteq> [] \<longrightarrow> length (hist s) - 1 \<in> r_hole ` set (records s))"

text \<open>The records of a later state are those of an earlier one, or newer than its clock.\<close>

definition gsn_extends :: "wal_sys \<Rightarrow> wal_sys \<Rightarrow> bool" where
  "gsn_extends s s' \<longleftrightarrow> log_gsn_clock (lg s) \<le> log_gsn_clock (lg s') \<and>
     npub s \<le> npub s' \<and> (\<forall>k \<le> npub s. pgsn (hist s') k = pgsn (hist s) k) \<and>
     (\<forall>r \<in> set (records s'). log_gsn_clock (lg s) < r_gsn r \<or>
       (\<exists>q \<in> set (records s). r_gsn q = r_gsn r \<and> r_off q = r_off r \<and> r_size q = r_size r))"

lemma gsn_upto_extends:
  assumes "gsn_upto s g P" "gsn_extends s s'"
  shows "gsn_upto s' g P"
proof -
  obtain k where k: "k \<le> npub s" "g = pgsn (hist s) k" using assms(1) by (auto simp: gsn_upto_def)
  then have "\<exists>k \<le> npub s'. g = pgsn (hist s') k" using assms(2) by (intro exI [of _ k]) (auto simp: gsn_extends_def)
  moreover have "r_off r + r_size r \<le> P" if "r \<in> set (records s')" "r_gsn r \<le> g" for r
    using assms that unfolding gsn_upto_def gsn_extends_def by fastforce
  moreover have "g \<le> log_gsn_clock (lg s')" using assms unfolding gsn_upto_def gsn_extends_def by (blast intro: order_trans)
  ultimately show ?thesis by (simp add: gsn_upto_def)
qed

lemma gct_gsn_extends: "gct_gsn s x \<Longrightarrow> gsn_extends s s' \<Longrightarrow> gct_gsn s' x"
  by (cases x) (auto intro: gsn_upto_extends)

lemma gsn_okI:
  assumes "gsn_ok s" "gsn_extends s s'" "gsn_ordered (hist s') (records s') (log_gsn_clock (lg s'))"
    "hist s' \<noteq> [] \<longrightarrow> length (hist s') - 1 \<in> r_hole ` set (records s')"
    and "hardened_gsn (lg s') = hardened_gsn (lg s)" "seen s' = seen s" "gpos s' = gpos s" "gct s' = gct s"
  shows "gsn_ok s'"
  using assms gsn_upto_extends [OF _ assms(2)] gct_gsn_extends [OF _ assms(2)] by (simp add: gsn_ok_def)

text \<open>Steps that keep the holes and the records.\<close>

lemma gsn_ok_same:
  assumes "gsn_ok s" "records s' = records s" "hist s' = hist s" "log_gsn_clock (lg s) \<le> log_gsn_clock (lg s')" "npub s \<le> npub s'"
    and "hardened_gsn (lg s') = hardened_gsn (lg s)" "seen s' = seen s" "gpos s' = gpos s" "gct s' = gct s"
  shows "gsn_ok s'"
proof (rule gsn_okI [OF assms(1) _ _ _ assms(6-9)])
  show "hist s' \<noteq> [] \<longrightarrow> length (hist s') - 1 \<in> r_hole ` set (records s')" using assms(1-3) by (simp add: gsn_ok_def)
  show "gsn_extends s s'" using assms(2-5) by (auto simp: gsn_extends_def)
  show "gsn_ordered (hist s') (records s') (log_gsn_clock (lg s'))"
    using assms(1,4) by (auto simp: gsn_ok_def gsn_ordered_def assms(2,3) intro: order_trans)
qed

lemma gsn_reserved:
  assumes inv: "wal_inv fl lm s" and g: "gsn_ok s" and b: "b = unat (FLAGS_wal_buffer_size fl)"
    and r: "reserved fl b tot (hist s) (npub s) (wpos s) (gpos s) (lg s) h H' n' off l'" and clk: "log_gsn_clock (lg s) < log_gsn_clock l'"
  shows "gsn_ok (after_reserve h l' s)"
proof -
  obtain X where X: "H' = hist s @ X @ [\<lparr>gh_pos = off + tot, gh_gsn = log_gsn_clock l', gh_locked = True\<rparr>]"
    "X = [] \<or> X = [\<lparr>gh_pos = off, gh_gsn = log_gsn_clock (lg s), gh_locked = False\<rparr>]" using r unfolding reserved_def by blast
  have hd: "hardened_gsn l' = hardened_gsn (lg s)" using r by (simp add: reserved_def same_static_def)
  have hp: "npub s \<le> unat (head (holes l'))" using r by (auto simp: reserved_def)
  have n: "npub s \<le> length (hist s)" using linvD(2) [OF wal_invD(1) [OF inv b]] .
  have o: "\<forall>h \<in> set (hist s). gh_gsn h \<le> log_gsn_clock (lg s)"
    "\<forall>q \<in> set (records s). 0 < r_gsn q \<and> (\<forall>j < r_hole q. gh_gsn (hist s ! j) < r_gsn q)"
    and so: "sorted (map gh_gsn (hist s))"
    using g by (auto simp: gsn_ok_def gsn_ordered_def)
  have "\<forall>h \<in> set (hist s). gh_gsn h \<le> log_gsn_clock l'" using o(1) clk by (auto intro: order_trans less_imp_le)
  then have so': "sorted (map gh_gsn H')" using so o(1) X(2) clk unfolding X(1) by (auto simp: sorted_append less_imp_le)
  have R: "\<forall>q \<in> set (records s). r_hole q < length (hist s)"
    using wal_invD(4) [OF inv b] by (auto simp: records_ok_def record_ok_def)
  have old: "gh_gsn (H' ! j) \<le> log_gsn_clock (lg s)" if j: "j < length H' - 1" for j
  proof (cases "j < length (hist s)")
    case True
    then show ?thesis using o(1) by (simp add: X(1) nth_append)
  next
    case False
    then show ?thesis using X(2) j by (auto simp: X(1) nth_append)
  qed
  have "gh_gsn h \<le> log_gsn_clock l'" if "h \<in> set H'" for h
    using that o(1) X(2) clk unfolding X(1) by (auto intro: order_trans less_imp_le)
  moreover have "gh_gsn (H' ! j) < r_gsn q" if "q \<in> set (records s)" "j < r_hole q" for q j
  proof -
    have "H' ! j = hist s ! j" using that R by (auto simp: X(1) nth_append)
    then show ?thesis using o(2) that by simp
  qed
  moreover have "0 < log_gsn_clock l'" using clk by (meson le_less_trans word_zero_le)
  ultimately have "gsn_ordered H' (records s @ [\<lparr>r_off = off, r_size = tot, r_gsn = log_gsn_clock l', r_hole = length H' - 1, r_bytes = None\<rparr>]) (log_gsn_clock l')"
    using so' o(2) le_less_trans [OF old clk] unfolding gsn_ordered_def by auto
  then show ?thesis
    unfolding after_reserve_extends(4) [OF inv b r] using clk hd hp n
    by (intro gsn_okI [OF g]) (auto simp: gsn_extends_def X(1) pgsn_append)
qed

lemma gsn_submit:
  assumes inv: "wal_inv fl lm s" and g: "gsn_ok s" and i: "i < length (records s)" "r = records s ! i" "r_bytes r = None"
    and u: "unlock_slot (slot MAX_PENDING_HOLES (of_nat (r_hole r))) (lg s) = Some l'"
  shows "gsn_ok (s\<lparr>lg := l', hist := (hist s)[r_hole r := (hist s ! r_hole r)\<lparr>gh_locked := False\<rparr>],
      records := (records s)[i := r\<lparr>r_bytes := Some bs\<rparr>]\<rparr>)"
proof -
  let ?H = "(hist s)[r_hole r := (hist s ! r_hole r)\<lparr>gh_locked := False\<rparr>]" and ?R = "(records s)[i := r\<lparr>r_bytes := Some bs\<rparr>]"
  have l: "log_gsn_clock l' = log_gsn_clock (lg s)" "hardened_gsn l' = hardened_gsn (lg s)" "head (holes l') = head (holes (lg s))"
    using u by (auto simp: unlock_slot_def split: bind_splits)
  have sub: "set ?R \<subseteq> insert (r\<lparr>r_bytes := Some bs\<rparr>) (set (records s))" by (rule set_update_subset_insert)
  have same: "\<exists>q \<in> set (records s). r_gsn q = r_gsn p \<and> r_off q = r_off p \<and> r_size q = r_size p \<and> r_hole q = r_hole p" if "p \<in> set ?R" for p
  proof (cases "p \<in> set (records s)")
    case False
    then have "p = r\<lparr>r_bytes := Some bs\<rparr>" using sub that by blast
    then show ?thesis using i(1,2) by (intro bexI [of _ r]) simp_all
  qed blast
  have Hj: "gh_gsn (?H ! j) = gh_gsn (hist s ! j)" if "j < length (hist s)" for j
    using that by (cases "j = r_hole r") simp_all
  have "gsn_ordered (hist s) (records s) (log_gsn_clock (lg s))" using g by (simp add: gsn_ok_def)
  note o = this [unfolded gsn_ordered_def]
  have "gh_gsn h \<le> log_gsn_clock (lg s)" if "h \<in> set ?H" for h
  proof -
    from that obtain j where "j < length (hist s)" "h = ?H ! j" by (auto simp: in_set_conv_nth)
    then show ?thesis using o Hj by simp
  qed
  moreover have "0 < r_gsn p \<and> (\<forall>j < r_hole p. gh_gsn (?H ! j) < r_gsn p)" if p: "p \<in> set ?R" for p
  proof -
    obtain q where q: "q \<in> set (records s)" "r_gsn q = r_gsn p" "r_hole q = r_hole p" using same [OF p] by blast
    have "r_hole q < length (hist s)" using wal_invD(4) [OF inv refl] q(1) by (auto simp: records_ok_def record_ok_def)
    then show ?thesis using o q Hj by auto
  qed
  moreover have "map gh_gsn ?H = map gh_gsn (hist s)" by (rule nth_equalityI) (simp_all add: Hj)
  then have "sorted (map gh_gsn ?H)" using o by (simp only:)
  ultimately have "gsn_ordered ?H ?R (log_gsn_clock l')" unfolding gsn_ordered_def l by blast
  moreover have "map r_hole ?R = map r_hole (records s)"
    using i(1,2) list_update_id [of "map r_hole (records s)" i] by (simp add: map_update)
  then have "r_hole ` set ?R = r_hole ` set (records s)" by (metis list.set_map)
  then have "?H \<noteq> [] \<longrightarrow> length ?H - 1 \<in> r_hole ` set ?R" using g by (simp add: gsn_ok_def)
  ultimately show ?thesis using l same by (intro gsn_okI [OF g]) (fastforce simp: gsn_extends_def pgsn_unlock)+
qed

text \<open>What the group committer reads is a GSN together with a position behind all records up to it.\<close>

lemma gsn_read:
  assumes inv: "wal_inv fl lm s" and g: "gsn_ok s" and ph: "gct_phase1 fl lm (seen s) (lg s) (seg s) = Some (copy, lseg, q)"
  shows "gsn_upto s (last_gsn copy) (if last_gsn copy = seen s then gpos s else ppos (hist s) (npub s))"
proof -
  note i = wal_invD [OF inv refl] and d = linvD [OF wal_invD(1) [OF inv refl]]
  have copy: "copy = wt_to_lw (lg s)"
    using ph by (auto simp: gct_phase1_def Let_def ensure_def split: if_splits bind_splits)
  have pg: "last_gsn copy = pgsn (hist s) (npub s)" using i(1) by (simp add: copy linv_def hinv_def)
  have o: "gsn_ordered (hist s) (records s) (log_gsn_clock (lg s))" and sn: "gsn_upto s (seen s) (gpos s)" using g by (auto simp: gsn_ok_def)
  have "pgsn (hist s) (npub s) \<le> log_gsn_clock (lg s)" using o d(2) by (auto simp: pgsn_def gsn_ordered_def)
  moreover have "r_off r + r_size r \<le> ppos (hist s) (npub s)" if r: "r \<in> set (records s)" "r_gsn r \<le> pgsn (hist s) (npub s)" for r
  proof -
    have ok: "record_ok (unat (FLAGS_wal_buffer_size fl)) (hist s) r" using i(4) r(1) by (simp add: records_ok_def)
    have ord: "0 < r_gsn r" "\<forall>j < r_hole r. gh_gsn (hist s ! j) < r_gsn r" using o r(1) by (auto simp: gsn_ordered_def)
    have "r_hole r < npub s"
    proof (rule ccontr)
      assume "\<not> ?thesis"
      then have "pgsn (hist s) (npub s) < r_gsn r" using ord by (auto simp: pgsn_def)
      then show False using r(2) by simp
    qed
    then have "ppos (hist s) (Suc (r_hole r)) \<le> ppos (hist s) (npub s)" using d(2) by (intro ordered_mono [OF d(1)]) simp_all
    then show ?thesis using record_end [OF ok] by simp
  qed
  ultimately show ?thesis using sn pg by (auto simp: gsn_upto_def)
qed

text \<open>The published GSN never goes back.\<close>

lemma seen_le_published:
  assumes inv: "wal_inv fl lm s" and g: "gsn_ok s"
  shows "seen s \<le> last_gsn (wt_to_lw (lg s))"
proof -
  note i = wal_invD [OF inv refl] and d = linvD [OF wal_invD(1) [OF inv refl]]
  obtain k where k: "k \<le> npub s" "seen s = pgsn (hist s) k" using g by (auto simp: gsn_ok_def gsn_upto_def)
  have "sorted (map gh_gsn (hist s))" using g by (simp add: gsn_ok_def gsn_ordered_def)
  then have "pgsn (hist s) k \<le> pgsn (hist s) (npub s)"
    using k(1) d(2) sorted_nth_mono [of "map gh_gsn (hist s)" "k - 1" "npub s - 1"] by (auto simp: pgsn_def)
  then show ?thesis using i(1) k(2) by (simp add: linv_def hinv_def)
qed


lemma gsn_ok_step:
  assumes inv: "wal_inv fl lm s" and g: "gsn_ok s" and st: "wal_step fl lm s t"
  shows "gsn_ok t"
  using st
proof (cases rule: wal_step.cases)
  case (reserve payload pg dt gs h l')
  note i = wal_invD [OF inv refl]
  have "log_gsn_clock (lg s) < log_gsn_clock l'"
    using reserveWALEntry_clock [OF reserve(5)] reserve(3) by (simp add: less_max_iff_disj plus_one_less)
  then show ?thesis
    using reserveWALEntry_cases [OF i(1) refl reserve(2,4), of pg dt gs] gsn_reserved [OF inv g refl] reserve(1,5)
    by (metis option.distinct(1) option.inject prod.inject)
next
  case (reserve_ppl psz h l')
  note i = wal_invD [OF inv refl]
  have "log_gsn_clock (lg s) < log_gsn_clock l'"
    using reservePPLEntry_clock [OF reserve_ppl(6)] reserve_ppl(3) by (simp add: plus_one_less)
  then show ?thesis
    using reserve_ppl_cases [OF i(1) refl reserve_ppl(2,4,5)] gsn_reserved [OF inv g refl] reserve_ppl(1,6)
    by (metis option.distinct(1) option.inject prod.inject)
next
  case (submit i r l')
  then show ?thesis by (simp only:) (rule gsn_submit [OF inv g submit(2) refl])
next
  case (collect f l')
  note d = linvD [OF wal_invD(1) [OF inv refl]]
  have h: "hinv (unat (FLAGS_wal_buffer_size fl)) (hist s) (npub s) (wpos s) (lg s)" using wal_invD(1) [OF inv refl] by (simp add: linv_def)
  obtain l1 n1 where "collect_filled_holes False (lg s) = Some l1" "npub s \<le> n1" "n1 = unat (head (holes l1))"
    by (rule collect_spec [OF d(4,5) h d(6)])
  then have "npub s \<le> unat (head (holes l'))" using collect(2) by (auto simp: opportunisticCollectHoles_def split: if_splits)
  moreover have "log_gsn_clock l' = log_gsn_clock (lg s)" "hardened_gsn l' = hardened_gsn (lg s)"
    using collect(2) by (auto simp: opportunisticCollectHoles_def collect_filled_holes_def ensure_def publish_hole_def
      split: if_splits prod.splits option.splits bind_splits)
  ultimately show ?thesis unfolding collect(1) by (intro gsn_ok_same [OF g]) simp_all
next
  case (sync g')
  show ?thesis unfolding sync(1) by (intro gsn_ok_same [OF g]) (simp_all add: syncGSN_def less_imp_le)
next
  case (gct_read copy lseg q)
  then show ?thesis using g gsn_read [OF inv g gct_read(3)] by (simp add: gsn_ok_def gsn_upto_def)
next
  case (gct_write copy q P)
  then show ?thesis using g by (simp add: gsn_ok_def gsn_upto_def)
next
  case (gct_store copy P sn l' lseg)
  have "gsn_upto s (last_gsn copy) P" "gct_ok (unat (FLAGS_wal_buffer_size fl)) s (GFinish copy P)"
    using g gct_store(2) wal_invD(7) [OF inv refl] by (auto simp: gsn_ok_def)
  then show ?thesis
    using g gct_store(1,3) by (auto simp: gct_phase2_def gsn_ok_def gsn_upto_def split: if_splits)
qed (use gsn_ok_same [OF g] in simp_all)

interpretation wal_gsns: invariant_of "wal_init fl lm" "wal_step fl lm" "\<lambda>s. wal_inv fl lm s \<and> gsn_ok s" for fl lm
proof
  fix s
  assume i: "wal_init fl lm s"
  then have "gsn_ok s"
    by (auto simp: wal_init_def gsn_ok_def gsn_ordered_def gsn_upto_def Logging_new_def pgsn_def)
  then show "wal_inv fl lm s \<and> gsn_ok s" using wal_inv_init [OF i] by simp
qed (auto intro: wal_inv_step gsn_ok_step)

end
