(* ===== verification/WAL_Properties.thy ===== *)
theory WAL_Properties
  imports WAL_Commit
begin

text \<open>
  What the write-ahead log promises: reservations return, a round of the group committer
  completes, hardened records are on the device, and readers of the buffer get the bytes of the
  record or find it on the device.
\<close>

section \<open>Helpers\<close>

lemma reach_wal_inv:
  assumes "reach (wal_init fl lm) (wal_step fl lm) s"
  shows "wal_inv fl lm s" "gsn_ok s"
  using wal_gsns.reach_inv [OF assms] by auto

lemma ucast_back: "ucast (ucast (x :: u32) :: u64) = x"
  by (rule bit_word_eqI) (auto simp: bit_simps)

text \<open>Where a record of a reachable state is on the device.\<close>

lemma record_on_device:
  assumes inv: "wal_inv fl lm s" and r: "r \<in> set (records s)" "r_off r + r_size r \<le> gpos s"
  obtains bs d where "r_bytes r = Some bs" "length bs = r_size r"
    "LSN2DevOffset lm (makeLSN (ucast (log_id (lg s))) (of_nat (r_off r))) = Some d" "\<forall>k < r_size r. log_dev s (unat d + k) = bs ! k"
proof -
  note i = wal_invD [OF inv refl] and d = linvD [OF wal_invD(1) [OF inv refl]]
  have ok: "record_ok (unat (FLAGS_wal_buffer_size fl)) (hist s) r" using i(4) r(1) by (simp add: records_ok_def)
  obtain bs where bs: "r_bytes r = Some bs" "length bs = r_size r"
    using record_before_boundary [OF d(1) ok i(2) d(2,3) r(2)] ok by (auto simp: record_ok_def)
  have id: "unat (log_id (lg s)) < 1024" using i(1) by (simp add: linv_def)
  have f: "fits 48 (of_nat (r_off r) :: u64)" "unat (of_nat (r_off r) :: u64) = r_off r"
    using record_end_le [OF d(1) ok] d(6) by (simp_all add: fits_of_nat unat_of_nat_48)
  have f16: "fits 10 (ucast (log_id (lg s)) :: u64)" using id by (simp add: fits_iff_unat_less)
  let ?lsn = "makeLSN (ucast (log_id (lg s))) (of_nat (r_off r)) :: LID"
  have "LSN2LogID lm ?lsn = Some (log_id (lg s))"
    using isRegularLSN_makeLSN [OF f16 f(1)] lsnLogID_makeLSN [OF f16 f(1)] i(3)
    by (simp add: LSN2LogID_def ensure_def seg_ok_def ucast_back)
  moreover have "r_off r < unat (log_segment_size (lg s))"
    using record_end_le [OF d(1) ok] d(11) by linarith
  ultimately have "LSN2DevOffset lm ?lsn = Some (start_off (seg s) + of_nat (r_off r))"
    using i(3) isRegularLSN_makeLSN [OF f16 f(1)] lsnOffset_makeLSN [OF f(1)] f(2)
    by (simp add: LSN2DevOffset_def ensure_def seg_ok_def word_less_nat_alt)
  moreover have "unat (start_off (seg s) + of_nat (r_off r)) = unat (start_off (seg s)) + r_off r"
    using f(2) i(3) \<open>r_off r < _\<close> by (simp add: unat_plus_if' seg_ok_def)
  moreover have "\<forall>k < r_size r. log_dev s (unat (start_off (seg s)) + r_off r + k) = bs ! k"
    using i(6) r bs(1) by (simp add: device_ok_def)
  ultimately show thesis using bs that by metis
qed

lemma hardened_on_device:
  assumes inv: "wal_inv fl lm s" "gsn_ok s" and r: "r \<in> set (records s)" "r_gsn r \<le> hardened_gsn (lg s)"
  shows "\<exists>bs d. r_bytes r = Some bs \<and> length bs = r_size r \<and>
    LSN2DevOffset lm (makeLSN (ucast (log_id (lg s))) (of_nat (r_off r))) = Some d \<and> (\<forall>k < r_size r. log_dev s (unat d + k) = bs ! k)"
proof -
  have "r_off r + r_size r \<le> gpos s" using inv(2) r by (simp add: gsn_ok_def gsn_upto_def)
  from record_on_device [OF inv(1) r(1) this] show ?thesis by metis
qed

text \<open>A record that is overwritten in the buffer ends before the position of the group committer.\<close>

lemma overwritten_is_written:
  assumes inv: "wal_inv fl lm s" and r: "r \<in> set (records s)" "r_off r + unat (FLAGS_wal_buffer_size fl) < wpos s"
  shows "r_off r + r_size r \<le> gpos s"
proof -
  define b where "b = unat (FLAGS_wal_buffer_size fl)"
  note i = wal_invD [OF inv b_def] and d = linvD [OF wal_invD(1) [OF inv b_def]]
  have ok: "record_ok b (hist s) r" using i(4) r(1) by (simp add: records_ok_def)
  have "r_off r < dn (gpos s)" using r(2) d(8) unfolding b_def by linarith
  have "r_off r + r_size r - 1 < dn (gpos s)"
  proof (rule ccontr)
    assume "\<not> ?thesis"
    then have "dn (gpos s) \<le> dn (r_off r + r_size r - 1)" by (intro dn_greatest dn_bounds(3)) simp
    then show False using ok \<open>r_off r < dn (gpos s)\<close> dn_bounds(1) [of "r_off r"] by (simp add: record_ok_def)
  qed
  then show ?thesis using dn_bounds(1) [of "gpos s"] by linarith
qed

text \<open>The group committer's checks hold in every state at the start of a round.\<close>

lemma gct_read_returns:
  assumes inv: "wal_inv fl lm s" and g: "gsn_ok s" "gct s = GRound"
  shows "\<exists>x. gct_phase1 fl lm (seen s) (lg s) (seg s) = Some x"
proof -
  define b where "b = unat (FLAGS_wal_buffer_size fl)"
  note i = wal_invD [OF inv b_def] and d = linvD [OF wal_invD(1) [OF inv b_def]]
  have lv: "wal_geom fl b" "wal_pos b (wpos s) (gpos s) (lg s)"
    "unat (wal_written_offset (wt_to_lw (lg s))) = ppos (hist s) (npub s) mod b" using i(1) by (auto simp: linv_def hinv_def)
  have off: "unat (seg_off (seg s)) = dn (gpos s)" using i(7) g(2) by simp
  show ?thesis
    by (rule gct_phase1_returns [OF lv(1,2) i(3) off boundary_le [OF d(1,2) i(2)] ppos_le [OF d(1,2)] lv(3) d(12) seen_le_published [OF inv g(1)]])
qed

text \<open>Once all records are filled, collecting the holes and one round harden all of them.\<close>

lemma collect_publishes_all:
  assumes inv: "wal_inv fl lm s" and all: "\<forall>r \<in> set (records s). r_bytes r \<noteq> None"
  obtains l' where "gctCollectAllFilledHoles (lg s) = Some l'" "collect_filled_holes False (lg s) = Some l'"
    "last_gsn (wt_to_lw l') = pgsn (hist s) (length (hist s))" "unat (head (holes l')) = length (hist s)"
proof -
  define b where "b = unat (FLAGS_wal_buffer_size fl)"
  note i = wal_invD [OF inv b_def] and d = linvD [OF wal_invD(1) [OF inv b_def]]
  have h: "hinv b (hist s) (npub s) (wpos s) (lg s)" using i(1) by (simp add: linv_def)
  have ul: "\<not> gh_locked (hist s ! j)" if j: "j < length (hist s)" for j
  proof
    assume "gh_locked (hist s ! j)"
    then obtain r where "r \<in> set (records s)" "r_hole r = j" "record_ok b (hist s) r" using i(4) j by (auto simp: records_ok_def)
    then show False using all \<open>gh_locked _\<close> by (auto simp: record_ok_def)
  qed
  obtain l' n' where c: "collect_filled_holes False (lg s) = Some l'" "hinv b (hist s) n' (wpos s) l'" "same_but_holes (lg s) l'" "npub s \<le> n'"
    "n' = unat (head (holes l'))" "n' < length (hist s) \<longrightarrow> gh_locked (hist s ! n')"
    by (rule collect_spec [OF d(4,5) h d(6)]) blast
  have "n' = length (hist s)" using c(2,6) ul by (auto simp: hinv_def)
  then have n: "last_gsn (wt_to_lw l') = pgsn (hist s) (length (hist s))" "unat (head (holes l')) = length (hist s)"
    "unat (tail (holes l')) = length (hist s)" using c(2,5) by (auto simp: hinv_def)
  then have "empty (holes l')" by (simp add: empty_def word_unat_eq_iff)
  then have "gctCollectAllFilledHoles (lg s) = Some l'" using c(1) by (simp add: gctCollectAllFilledHoles_def ensure_def)
  then show thesis using c(1) n(1,2) by (rule that)
qed

lemma last_gsn_bound:
  assumes inv: "wal_inv fl lm s" and g: "gsn_ok s" and r: "r \<in> set (records s)"
  shows "r_gsn r \<le> pgsn (hist s) (length (hist s))"
proof -
  have ok: "r_hole r < length (hist s)" "gh_gsn (hist s ! r_hole r) = r_gsn r"
    using wal_invD(4) [OF inv refl] r by (auto simp: records_ok_def record_ok_def)
  have "sorted (map gh_gsn (hist s))" using g by (simp add: gsn_ok_def gsn_ordered_def)
  then show ?thesis
    using ok sorted_nth_mono [of "map gh_gsn (hist s)" "r_hole r" "length (hist s) - 1"] by (auto simp: pgsn_def)
qed

text \<open>When everything is published and hardened, the check at shutdown finds the buffer empty.\<close>

lemma hardened_log_empty:
  assumes inv: "wal_inv fl lm s" and g: "gsn_ok s" and n: "npub s = length (hist s)"
    and all: "\<forall>r \<in> set (records s). r_gsn r \<le> hardened_gsn (lg s)"
  shows "log_buffer_empty (lg s)"
proof -
  define b where "b = unat (FLAGS_wal_buffer_size fl)"
  note i = wal_invD [OF inv b_def] and d = linvD [OF wal_invD(1) [OF inv b_def]]
  have lv: "unat (wal_written_offset (wt_to_lw (lg s))) = ppos (hist s) (npub s) mod b" "last_gsn (wt_to_lw (lg s)) = pgsn (hist s) (npub s)"
    "unat (wal_log_cursor (lg s)) = wpos s mod b" "unat (wal_gct_cursor (lg s)) = gpos s mod b" "unat (tail (holes (lg s))) = length (hist s)"
    using i(1) by (auto simp: linv_def hinv_def wal_pos_def)
  have w: "ppos (hist s) (length (hist s)) = wpos s" using d(1) by (simp add: holes_ordered_def)
  have sn: "hardened_gsn (lg s) = seen s" "gsn_upto s (seen s) (gpos s)" using g by (auto simp: gsn_ok_def)
  have "wpos s \<le> gpos s \<and> pgsn (hist s) (length (hist s)) \<le> hardened_gsn (lg s)"
  proof (cases "hist s = []")
    case True
    then show ?thesis using w by (simp add: ppos_def pgsn_def)
  next
    case False
    then obtain r where r: "r \<in> set (records s)" "r_hole r = length (hist s) - 1" using g by (auto simp: gsn_ok_def)
    have ok: "record_ok b (hist s) r" using i(4) r(1) by (simp add: records_ok_def)
    then have "pgsn (hist s) (length (hist s)) = r_gsn r" "r_off r + r_size r = wpos s"
      using False r(2) w by (auto simp: record_ok_def pgsn_def ppos_def)
    then show ?thesis using all r(1) sn by (auto simp: gsn_upto_def)
  qed
  moreover have "hardened_gsn (lg s) \<le> last_gsn (wt_to_lw (lg s))" using seen_le_published [OF inv g] sn(1) by simp
  ultimately show ?thesis
    using lv n w d(9) by (auto simp: log_buffer_empty_def empty_def word_unat_eq_iff)
qed

lemma round_hardens:
  assumes inv: "wal_inv fl lm s" and g: "gsn_ok s" "gct s = GRound" and all: "\<forall>r \<in> set (records s). r_bytes r \<noteq> None"
  obtains t where "(wal_step fl lm)\<^sup>*\<^sup>* s t" "gct t = GRound" "records t = records s" "\<forall>r \<in> set (records t). r_gsn r \<le> hardened_gsn (lg t)"
    "last_round fl lm (seen s) (lg s) (seg s) (log_dev s) = Some (seen t, lg t, seg t, log_dev t)"
proof -
  obtain l1 where ca: "gctCollectAllFilledHoles (lg s) = Some l1" and l1: "collect_filled_holes False (lg s) = Some l1" "last_gsn (wt_to_lw l1) = pgsn (hist s) (length (hist s))"
    and hd1: "unat (head (holes l1)) = length (hist s)"
    by (rule collect_publishes_all [OF inv all])
  define s1 where "s1 = s\<lparr>lg := l1\<rparr>"
  have st1: "wal_step fl lm s s1" unfolding s1_def by (rule wal_step.collect [where mutex_free = True]) (simp add: opportunisticCollectHoles_def l1(1))
  have inv1: "wal_inv fl lm s1" and g1: "gsn_ok s1" using wal_inv_step [OF inv st1] gsn_ok_step [OF inv g(1) st1] .
  have r1: "gct s1 = GRound" "records s1 = records s" "last_gsn (wt_to_lw (lg s1)) = pgsn (hist s) (length (hist s))" "seen s1 = seen s"
    using g(2) l1(2) by (simp_all add: s1_def)
  obtain copy lseg q where ph: "gct_phase1 fl lm (seen s1) (lg s1) (seg s1) = Some (copy, lseg, q)"
    using gct_read_returns [OF inv1 g1 r1(1)] by auto
  have copy: "copy = wt_to_lw (lg s1)" using ph by (auto simp: gct_phase1_def Let_def ensure_def split: if_splits bind_splits)
  define s2 where "s2 = s1\<lparr>seg := lseg, gct := GSubmit copy q (if last_gsn copy = seen s1 then gpos s1 else ppos (hist s1) (npub s1))\<rparr>"
  have st2: "wal_step fl lm s1 s2" unfolding s2_def by (rule wal_step.gct_read [OF r1(1) ph])
  obtain P where P: "gct s2 = GSubmit copy q P" by (simp add: s2_def)
  define s3 where "s3 = s2\<lparr>log_dev := submitAndWait (wal_buffer (lg s2)) q (log_dev s2), gct := GFinish copy P\<rparr>"
  have st3: "wal_step fl lm s2 s3" unfolding s3_def by (rule wal_step.gct_write [OF P])
  have c3: "gct s3 = GFinish copy P" "records s3 = records s" "seen s3 = seen s" "lg s3 = lg s1" by (simp_all add: s3_def s2_def r1)
  obtain sn l4 lseg4 where ph2: "gct_phase2 (seen s3) copy (lg s3) (seg s3) = (sn, l4, lseg4)" by (metis prod_cases3)
  define t where "t = s3\<lparr>seen := sn, lg := l4, seg := lseg4, gct := GRound, gpos := P\<rparr>"
  have st4: "wal_step fl lm s3 t" unfolding t_def by (rule wal_step.gct_store [OF c3(1) ph2])
  have "hardened_gsn (lg s1) = seen s1" using g1 by (simp add: gsn_ok_def)
  then have hd: "hardened_gsn (lg t) = pgsn (hist s) (length (hist s))"
    using ph2 c3(3,4) r1(3,4) by (auto simp: t_def gct_phase2_def copy split: if_splits)
  have steps: "(wal_step fl lm)\<^sup>*\<^sup>* s t" using st1 st2 st3 st4 by (meson converse_rtranclp_into_rtranclp rtranclp.rtrancl_refl)
  have invt: "wal_inv fl lm t" "gsn_ok t" using wal_gsns.inv_rtranclp [OF steps] inv g(1) by blast+
  have "holes (lg t) = holes l1" "hist t = hist s"
    using ph2 c3(4) by (auto simp: t_def s3_def s2_def s1_def gct_phase2_def split: if_splits)
  then have nt: "npub t = length (hist t)" using hd1 by simp
  have "gct t = GRound" "records t = records s" using c3(2) by (simp_all add: t_def)
  moreover have "\<forall>r \<in> set (records t). r_gsn r \<le> hardened_gsn (lg t)"
    using last_gsn_bound [OF inv g(1)] hd \<open>records t = records s\<close> by simp
  moreover have "last_round fl lm (seen s) (lg s) (seg s) (log_dev s) = Some (seen t, lg t, seg t, log_dev t)"
    using ca ph ph2 hardened_log_empty [OF invt nt calculation(3)] by (simp add: last_round_def t_def s3_def s2_def s1_def)
  ultimately show thesis using steps by (intro that)
qed


text \<open>A reader that is not disturbed copies the record.\<close>

lemma read_completes:
  assumes inv: "wal_inv fl lm s" and rd: "readers s i = RIdle" and sub: "submitted s lsn" and ow: "\<not> overwritten fl lsn (lg s)"
  obtains dst where "(wal_step fl lm)\<^sup>*\<^sup>* s (s\<lparr>readers := (readers s)(i := RDone lsn (Some dst))\<rparr>)"
proof -
  define at where "at x = s\<lparr>readers := (readers s)(i := x)\<rparr>" for x
  define copied where "copied n = map (\<lambda>k. wal_buffer (lg s) (buffer_pos fl lsn + k)) [0..<n]" for n
  have at: "readers (at x) i = x" "lg (at x) = lg s" "at x\<lparr>readers := (readers (at x))(i := y)\<rparr> = at y" for x y by (simp_all add: at_def)
  have go: "wal_step fl lm (at x) (at y)" if "wal_step fl lm (at x) (at x\<lparr>readers := (readers (at x))(i := y)\<rparr>)" for x y
    using that by (simp only: at(3))
  have "wal_step fl lm s (at (RHead lsn []))" using wal_step.rd_start [of s i lsn fl lm] rd sub ow by (simp add: at_def)
  moreover have next_byte: "copied n @ [wal_buffer (lg s) (buffer_pos fl lsn + length (copied n))] = copied (Suc n)" for n by (simp add: copied_def)
  have "(wal_step fl lm)\<^sup>*\<^sup>* (at (RHead lsn (copied 0))) (at (RHead lsn (copied n)))" if "n \<le> 32" for n
    using that
  proof (induction n)
    case (Suc n)
    then have "wal_step fl lm (at (RHead lsn (copied n))) (at (RHead lsn (copied (Suc n))))"
      unfolding next_byte [symmetric] using wal_step.rd_head [of "at (RHead lsn (copied n))" i lsn "copied n" fl lm]
      by (intro go) (simp add: at copied_def)
    then show ?case using Suc by (simp add: rtranclp.rtrancl_into_rtrancl)
  qed simp
  ultimately have h: "(wal_step fl lm)\<^sup>*\<^sup>* s (at (RHead lsn (copied 32)))" by (simp add: copied_def converse_rtranclp_into_rtranclp)
  define N where "N = wal_entry_size (copied 32)"
  have "wal_step fl lm (at (RHead lsn (copied 32))) (at (RBody lsn N (copied 32)))"
    unfolding N_def using wal_step.rd_check [of "at (RHead lsn (copied 32))" i lsn "copied 32" fl lm] ow
    by (intro go) (simp add: at copied_def)
  with h have b: "(wal_step fl lm)\<^sup>*\<^sup>* s (at (RBody lsn N (copied 32)))" by (rule rtranclp.rtrancl_into_rtrancl)
  have "reader_ok (unat (FLAGS_wal_buffer_size fl)) (at (RBody lsn N (copied 32))) (RBody lsn N (copied 32))"
    using wal_invD(8) [OF wal_system.inv_rtranclp [OF b inv] refl, of i] by (simp only: at)
  then have N: "32 \<le> N" by (auto simp: reading_def)
  have "(wal_step fl lm)\<^sup>*\<^sup>* s (at (RBody lsn N (copied (32 + n))))" if "32 + n \<le> N" for n
    using that
  proof (induction n)
    case (Suc n)
    then have "wal_step fl lm (at (RBody lsn N (copied (32 + n)))) (at (RBody lsn N (copied (Suc (32 + n)))))"
      unfolding next_byte [symmetric] using wal_step.rd_body [of "at (RBody lsn N (copied (32 + n)))" i lsn N "copied (32 + n)" fl lm]
      by (intro go) (simp add: at copied_def)
    then show ?case using Suc by (simp add: rtranclp.rtrancl_into_rtrancl)
  qed (use b in simp)
  from this [of "N - 32"] have "(wal_step fl lm)\<^sup>*\<^sup>* s (at (RBody lsn N (copied N)))" using N by simp
  moreover have "wal_step fl lm (at (RBody lsn N (copied N))) (at (RDone lsn (Some (copied N))))"
    using wal_step.rd_last [of "at (RBody lsn N (copied N))" i lsn N "copied N" fl lm] ow by (intro go) (simp add: at copied_def)
  ultimately have "(wal_step fl lm)\<^sup>*\<^sup>* s (at (RDone lsn (Some (copied N))))" by (rule rtranclp.rtrancl_into_rtrancl)
  then show thesis unfolding at_def by (rule that)
qed

section \<open>A run\<close>

text \<open>The start of a run on a device of 64 MiB with one log, and a record reserved, filled and submitted.\<close>

definition demo_flags :: flags where
  "demo_flags = default_flags\<lparr>FLAGS_wal_pwrite := True\<rparr>"

definition demo_lm :: LogManager where
  "demo_lm = \<lparr>log_count = 1, log_dev_size = 67108864, log_file_offset = 0, log_start_offset = 4096, meta_size = 4096,
     lm_segment_size = 62914560, lm_fake_wrap_around_offset = 0\<rparr>"

definition demo_start :: wal_sys where
  "demo_start = \<lparr>lg = Logging_new 0 demo_lm 0, seg = segment_new demo_lm 0, log_dev = (\<lambda>_. 0), seen = 0, gct = GRound,
     readers = (\<lambda>_. RIdle), hist = [], records = [], gpos = 0\<rparr>"

lemma demo_init: "wal_init demo_flags demo_lm demo_start"
proof -
  have "LogManager_new demo_flags False 1 0 67108864 = Some demo_lm" by code_simp
  then show ?thesis unfolding wal_init_def
    by (intro exI [of _ 1] exI [of _ 0] exI [of _ "67108864"])
      (simp add: demo_start_def demo_lm_def demo_flags_def default_flags_def wal_geom_def isSinkLog_def)
qed

lemma demo_ready: "wal_ready demo_flags (of_nat sizeof_WALDTEntry + 8) (lg demo_start)" "\<not> redirect_to_sink_log (lg demo_start)"
  "reach (wal_init demo_flags demo_lm) (wal_step demo_flags demo_lm) demo_start" "gct demo_start = GRound"
proof -
  have fl: "FLAGS_wal_buffer_size demo_flags = 10485760" by (simp add: demo_flags_def default_flags_def)
  have z: "gct_aligned (lg demo_start) = 0" by (simp add: gct_aligned_def demo_start_def Logging_new_def downAlign_def)
  have "wait_untill_free_bytes demo_flags (of_nat sizeof_WALDTEntry + 8) (lg demo_start) \<le> walFreeSpace demo_flags (lg demo_start)"
    unfolding walFreeSpace_def z Let_def wait_untill_free_bytes_def fl
    by (simp add: demo_start_def Logging_new_def sizeof_WALDTEntry_def CR_ENTRY_SIZE_def)
  then show "wal_ready demo_flags (of_nat sizeof_WALDTEntry + 8) (lg demo_start)"
    by (simp add: wal_ready_def demo_start_def Logging_new_def cq_size_def cq_list_def MAX_PENDING_HOLES_def)
qed (simp_all add: demo_start_def Logging_new_def reach_init demo_init [unfolded demo_start_def Logging_new_def])

text \<open>Filling in the size field of a record and submitting it.\<close>

lemma fill_and_submit:
  assumes inv: "wal_inv fl lm s" and r: "records s = [r]" "r_bytes r = None" "r_size r = 72"
  obtains t q where "(wal_step fl lm)\<^sup>*\<^sup>* s t" "records t = [q]" "r_bytes q \<noteq> None" "gct t = gct s" "readers t = readers s"
    "submitted t (makeLSN (ucast (log_id (lg t))) (of_nat (r_off q)))" "r_gsn q = r_gsn r" "seen t = seen s"
    "wt_to_lw (lg t) = wt_to_lw (lg s)" "hardened_gsn (lg t) = hardened_gsn (lg s)"
proof -
  define b where "b = unat (FLAGS_wal_buffer_size fl)"
  define pos where "pos k = (r_off r + k) mod b" for k
  have rs: "r \<in> set (records s)" using r(1) by simp
  define s1 where "s1 = s\<lparr>lg := (lg s)\<lparr>wal_buffer := (wal_buffer (lg s))(pos 2 := 72)\<rparr>\<rparr>"
  define s2 where "s2 = s1\<lparr>lg := (lg s1)\<lparr>wal_buffer := (wal_buffer (lg s1))(pos 3 := 0)\<rparr>\<rparr>"
  have st1: "wal_step fl lm s s1" unfolding s1_def pos_def b_def using r by (intro wal_step.fill) simp_all
  have st2: "wal_step fl lm s1 s2" unfolding s2_def pos_def b_def using r by (intro wal_step.fill) (simp_all add: s1_def)
  have inv2: "wal_inv fl lm s2" by (rule wal_inv_step [OF wal_inv_step [OF inv st1] st2])
  note i = wal_invD [OF inv2 b_def] and d = linvD [OF wal_invD(1) [OF inv2 b_def]]
  have e: "records s2 = [r]" "hist s2 = hist s" "gct s2 = gct s" "readers s2 = readers s" "seen s2 = seen s"
    "wt_to_lw (lg s2) = wt_to_lw (lg s)" "hardened_gsn (lg s2) = hardened_gsn (lg s)" using r(1) by (simp_all add: s2_def s1_def)
  have ok: "record_ok b (hist s2) r" using i(4) e(1) by (simp add: records_ok_def)
  then have lk: "r_hole r < length (hist s2)" "gh_locked (hist s2 ! r_hole r)" using r(2) by (auto simp: record_ok_def)
  have h: "hinv b (hist s2) (npub s2) (wpos s2) (lg s2)" using i(1) by (simp add: linv_def)
  obtain l3 where u: "unlock_slot (slot MAX_PENDING_HOLES (of_nat (r_hole r))) (lg s2) = Some l3" "same_but_holes (lg s2) l3"
    "wt_to_lw l3 = wt_to_lw (lg s2)" using unlock_spec [OF h lk d(4,5,6)] by metis
  define bs where "bs = record_slice fl s2 r"
  define t where "t = s2\<lparr>lg := l3, hist := (hist s2)[r_hole r := (hist s2 ! r_hole r)\<lparr>gh_locked := False\<rparr>],
    records := (records s2)[0 := r\<lparr>r_bytes := Some bs\<rparr>]\<rparr>"
  have st3: "wal_step fl lm s2 t" unfolding t_def bs_def using e(1) r(2) u(1) by (intro wal_step.submit) simp_all
  have m: "r_off r mod b + 72 \<le> b" using ok r(3) by (simp add: record_ok_def)
  then have "pos 2 \<noteq> pos 3" unfolding pos_def by (intro ring_inj) linarith+
  then have "bs ! 2 = 72" "bs ! 3 = 0" using r(3) by (simp_all add: bs_def record_slice_def pos_def b_def s2_def s1_def)
  moreover have "length bs = 72" using r(3) by (simp add: bs_def record_slice_def)
  ultimately have sz: "32 \<le> length bs" "wal_entry_size bs = length bs" by (simp_all add: wal_entry_size_def)
  have rt: "records t = [r\<lparr>r_bytes := Some bs\<rparr>]" by (simp add: t_def e(1))
  then have "submitted t (makeLSN (ucast (log_id (lg t))) (of_nat (r_off (r\<lparr>r_bytes := Some bs\<rparr>))))" using sz by (simp add: submitted_def)
  moreover have "(wal_step fl lm)\<^sup>*\<^sup>* s t" using st1 st2 st3 by (meson converse_rtranclp_into_rtranclp rtranclp.rtrancl_refl)
  ultimately show thesis
    using rt e(3-7) u(3) same_but_holesD(12) [OF u(2)] by (intro that [of t "r\<lparr>r_bytes := Some bs\<rparr>"]) (simp_all add: t_def)
qed

lemma unfilled_gsn:
  assumes inv: "wal_inv fl lm s" "gsn_ok s" and r: "records s = [r]" "r_bytes r = None" "r_gsn r = 1"
  shows "last_gsn (wt_to_lw (lg s)) = 0"
proof -
  define b where "b = unat (FLAGS_wal_buffer_size fl)"
  note i = wal_invD [OF inv(1) b_def] and d = linvD [OF wal_invD(1) [OF inv(1) b_def]]
  have "record_ok b (hist s) r" using i(4) r(1) by (simp add: records_ok_def)
  then have "gh_locked (hist s ! r_hole r)" using r(2) by (simp add: record_ok_def)
  then have n: "npub s \<le> r_hole r" using d(3) by (auto simp: not_less [symmetric])
  have "\<forall>j < r_hole r. gh_gsn (hist s ! j) < 1" using inv(2) r(1,3) by (simp add: gsn_ok_def gsn_ordered_def)
  then have "pgsn (hist s) (npub s) = 0" using n by (auto simp: pgsn_def)
  then show ?thesis using i(1) by (simp add: linv_def hinv_def)
qed

lemma demo_run:
  obtains s r where "reach (wal_init demo_flags demo_lm) (wal_step demo_flags demo_lm) s" "records s = [r]" "r_bytes r \<noteq> None"
    "gct s = GRound" "readers s 0 = RIdle" "submitted s (makeLSN (ucast (log_id (lg s))) (of_nat (r_off r)))"
    "r_gsn r = 1" "seen s = 0" "last_gsn (wt_to_lw (lg s)) = 0" "hardened_gsn (lg s) = 0"
proof -
  note inv = wal_inv_init [OF demo_init]
  have pay: "unat (8 :: u32) + 96 \<le> 4096" by simp
  show thesis
  proof (cases rule: reserveWALEntry_cases [OF wal_invD(1) [OF inv refl] refl demo_ready(2) pay, of 0 0 0])
    case 1
    then show ?thesis using demo_ready(1) by simp
  next
    case (2 h l' H' n' off)
    define s1 where "s1 = after_reserve h l' demo_start"
    have "(0 :: u64) < - 1" by code_simp
    then have "log_gsn_clock (lg demo_start) < - 1" by (simp add: demo_start_def Logging_new_def)
    then have st: "wal_step demo_flags demo_lm demo_start s1" unfolding s1_def by (rule wal_step.reserve [OF demo_ready(2) _ pay 2(1)])
    have s1: "records s1 = [\<lparr>r_off = off, r_size = 64 + unat (8 :: u32), r_gsn = log_gsn_clock l', r_hole = length H' - 1, r_bytes = None\<rparr>]"
      "gct s1 = GRound" "readers s1 = (\<lambda>_. RIdle)" "seen s1 = 0"
      unfolding s1_def after_reserve_extends(4) [OF inv refl 2(2)] by (simp_all add: demo_start_def)
    note inv1 = reach_wal_inv [OF reach_step [OF demo_ready(3) st]]
    have c1: "log_gsn_clock l' = 1" using reserveWALEntry_clock [OF 2(1)] by (simp add: demo_start_def Logging_new_def)
    have g1: "last_gsn (wt_to_lw (lg s1)) = 0" "hardened_gsn (lg s1) = 0"
      using unfilled_gsn [OF inv1 s1(1)] s1(4) c1 inv1(2) by (auto simp: gsn_ok_def)
    obtain t q where
      t: "(wal_step demo_flags demo_lm)\<^sup>*\<^sup>* s1 t" "records t = [q]" "r_bytes q \<noteq> None" "gct t = gct s1" "readers t = readers s1"
      "submitted t (makeLSN (ucast (log_id (lg t))) (of_nat (r_off q)))" "r_gsn q = log_gsn_clock l'" "seen t = seen s1"
      "wt_to_lw (lg t) = wt_to_lw (lg s1)" "hardened_gsn (lg t) = hardened_gsn (lg s1)"
      by (rule fill_and_submit [OF wal_inv_step [OF inv st] s1(1)]) simp_all
    have "reach (wal_init demo_flags demo_lm) (wal_step demo_flags demo_lm) t"
      by (rule reach_rtranclp [OF t(1) reach_step [OF demo_ready(3) st]])
    then show thesis using t s1 c1 g1 by (intro that [of t q]) simp_all
  qed
qed

section \<open>Properties\<close>

text \<open>
  C19: A reservation never aborts: in every state the system reaches, while the log is not
  redirected and the record with its header leaves room for a carriage return in a block,
  \<^verbatim>\<open>PageGuard::reserveWALEntry\<close> returns whenever it need not wait; the record then
  lies in one piece of the buffer, at the offset its LSN says, in one block of the device, and
  overwrites nothing the group committer has not written.
\<close>
theorem reservation_returns:
  assumes "reach (wal_init fl lm) (wal_step fl lm) s" "\<not> redirect_to_sink_log (lg s)" "unat payload + 96 \<le> 4096"
    "wal_ready fl (of_nat sizeof_WALDTEntry + payload) (lg s)"
  shows "\<exists>h l' off. reserveWALEntry fl payload pg dt gs (lg s) = Some (h, l') \<and> h_lsn h = makeLSN (ucast (log_id (lg s))) (of_nat off) \<and>
    unat (wal_lsn_counter (lg s)) \<le> off \<and> unat (h_total_size h) = sizeof_WALDTEntry + unat payload \<and>
    unat (h_in_memory_offset h) = off mod unat (FLAGS_wal_buffer_size fl) \<and>
    off mod unat (FLAGS_wal_buffer_size fl) + unat (h_total_size h) \<le> unat (FLAGS_wal_buffer_size fl) \<and>
    off div 4096 = (off + unat (h_total_size h) - 1) div 4096 \<and>
    off + unat (h_total_size h) \<le> gpos s + unat (FLAGS_wal_buffer_size fl) \<and>
    unat (wal_lsn_counter l') = off + unat (h_total_size h)"
proof -
  define b where "b = unat (FLAGS_wal_buffer_size fl)"
  note inv = reach_wal_inv(1) [OF assms(1)]
  note i = wal_invD [OF inv b_def]
  show ?thesis
  proof (cases rule: reserveWALEntry_cases [OF i(1) refl assms(2,3), of pg dt gs])
    case 1
    then show ?thesis using assms(4) by simp
  next
    case (2 h l' H' n' off)
    have r: "linv fl b H' n' (off + (64 + unat payload)) (gpos s) l'" "wpos s \<le> off" "off mod b + (64 + unat payload) \<le> b"
      "dn off = dn (off + (64 + unat payload) - 1)" "off + (64 + unat payload) - dn (gpos s) \<le> b"
      "h_lsn h = makeLSN (ucast (log_id (lg s))) (of_nat off)" "unat (h_total_size h) = 64 + unat payload" "unat (h_in_memory_offset h) = off mod b"
      using 2(2) unfolding reserved_def by blast+
    have "off div 4096 = (off + (64 + unat payload) - 1) div 4096" using r(4) by (simp add: dn_bounds(4))
    moreover have "off + (64 + unat payload) \<le> gpos s + b" using r(5) dn_bounds(1) [of "gpos s"] by linarith
    moreover have "unat (wal_lsn_counter l') = off + (64 + unat payload)" by (rule linvD(7) [OF r(1)])
    ultimately show ?thesis
      unfolding b_def [symmetric] using 2(1) r(2,3,6,7,8) by (intro exI [of _ h] exI [of _ l'] exI [of _ off]) (simp add: sizeof_WALDTEntry_def)
  qed
qed

theorem reservation_returns_witness:
  "wal_ready demo_flags (of_nat sizeof_WALDTEntry + 8) (lg demo_start) \<and>
   (\<exists>h l'. reserveWALEntry demo_flags 8 7 1 0 (lg demo_start) = Some (h, l') \<and> unat (h_total_size h) = 72)"
  using reservation_returns [OF demo_ready(3,2) _ demo_ready(1), of 7 1 0] demo_ready(1) by (auto simp: sizeof_WALDTEntry_def)

text \<open>
  C22: The checks of the group committer never fail: in every state the system reaches at the start
  of a round, phase 1 prepares its writes without aborting.
\<close>
theorem group_committer_never_aborts:
  assumes "reach (wal_init fl lm) (wal_step fl lm) s" "gct s = GRound"
  shows "\<exists>copy lseg q. gct_phase1 fl lm (seen s) (lg s) (seg s) = Some (copy, lseg, q)"
  using gct_read_returns [OF reach_wal_inv [OF assms(1)] assms(2)] by auto

theorem group_committer_never_aborts_witness:
  "gct demo_start = GRound \<and> (\<exists>copy lseg q. gct_phase1 demo_flags demo_lm 0 (lg demo_start) (seg demo_start) = Some (copy, lseg, q))"
  using group_committer_never_aborts [OF demo_ready(3,4)] demo_ready(4) by (simp add: demo_start_def)

text \<open>
  C20: The last round empties the log.  From every state the system reaches in which all reserved
  records are filled and the group committer is between two rounds, \<open>last_round\<close>, which collects the
  holes and makes exactly one round, returns: no check fails, the verification that the log buffer
  is empty included.  Afterwards every record is hardened and the device has its bytes at the offset
  computed from its LSN.
\<close>
theorem group_commit_completes:
  assumes "reach (wal_init fl lm) (wal_step fl lm) s" "gct s = GRound" "\<forall>r \<in> set (records s). r_bytes r \<noteq> None"
  shows "\<exists>seen' l' lseg' dev'. last_round fl lm (seen s) (lg s) (seg s) (log_dev s) = Some (seen', l', lseg', dev') \<and>
    (\<forall>r \<in> set (records s). r_gsn r \<le> hardened_gsn l' \<and>
      (\<exists>bs d. r_bytes r = Some bs \<and> length bs = r_size r \<and> LSN2DevOffset lm (makeLSN (ucast (log_id l')) (of_nat (r_off r))) = Some d \<and>
         (\<forall>k < r_size r. dev' (unat d + k) = bs ! k)))"
proof -
  note inv = reach_wal_inv [OF assms(1)]
  obtain t where t: "(wal_step fl lm)\<^sup>*\<^sup>* s t" "gct t = GRound" "records t = records s" "\<forall>r \<in> set (records t). r_gsn r \<le> hardened_gsn (lg t)"
    "last_round fl lm (seen s) (lg s) (seg s) (log_dev s) = Some (seen t, lg t, seg t, log_dev t)" by (rule round_hardens [OF inv assms(2,3)])
  note invt = reach_wal_inv [OF reach_rtranclp [OF t(1) assms(1)]]
  have "\<exists>bs d. r_bytes r = Some bs \<and> length bs = r_size r \<and> LSN2DevOffset lm (makeLSN (ucast (log_id (lg t))) (of_nat (r_off r))) = Some d \<and>
    (\<forall>k < r_size r. log_dev t (unat d + k) = bs ! k)" if r: "r \<in> set (records s)" for r
    using hardened_on_device [OF invt, of r] t(3,4) r by simp
  then show ?thesis using t(3-5) by auto
qed

theorem group_commit_completes_witness:
  "\<exists>(s :: wal_sys) (r :: wal_record) seen' l' lseg' dev'. records s = [r] \<and> r_bytes r \<noteq> None \<and>
     last_round demo_flags demo_lm (seen s) (lg s) (seg s) (log_dev s) = Some (seen', l', lseg', dev') \<and> r_gsn r \<le> hardened_gsn l'"
proof (rule demo_run)
  fix s r
  assume s: "reach (wal_init demo_flags demo_lm) (wal_step demo_flags demo_lm) s" "records s = [r]" "r_bytes r \<noteq> None" "gct s = GRound"
  then have "\<forall>q \<in> set (records s). r_bytes q \<noteq> None" by simp
  from group_commit_completes [OF s(1,4) this] obtain seen' l' lseg' dev' where
    "last_round demo_flags demo_lm (seen s) (lg s) (seg s) (log_dev s) = Some (seen', l', lseg', dev')" "\<forall>q \<in> set (records s). r_gsn q \<le> hardened_gsn l'"
    by blast
  then show ?thesis using s(2,3)
    by (intro exI [of _ s] exI [of _ r] exI [of _ seen'] exI [of _ l'] exI [of _ lseg'] exI [of _ dev']) simp
qed

text \<open>
  C3: What is hardened is durable: in every state the system reaches, a record whose GSN is at most
  the hardened GSN of the log has been filled, and the device has exactly its bytes at the offset
  \<^verbatim>\<open>LSN2DevOffset\<close> computes from its LSN.
\<close>
theorem hardened_is_durable:
  assumes "reach (wal_init fl lm) (wal_step fl lm) s" "r \<in> set (records s)" "r_gsn r \<le> hardened_gsn (lg s)"
  shows "\<exists>bs d. r_bytes r = Some bs \<and> length bs = r_size r \<and>
    LSN2DevOffset lm (makeLSN (ucast (log_id (lg s))) (of_nat (r_off r))) = Some d \<and> (\<forall>k < r_size r. log_dev s (unat d + k) = bs ! k)"
  by (rule hardened_on_device [OF reach_wal_inv [OF assms(1)] assms(2,3)])

theorem hardened_is_durable_witness:
  "\<exists>t r bs d. reach (wal_init demo_flags demo_lm) (wal_step demo_flags demo_lm) t \<and> r \<in> set (records t) \<and>
     r_gsn r \<le> hardened_gsn (lg t) \<and> r_bytes r = Some bs \<and>
     LSN2DevOffset demo_lm (makeLSN (ucast (log_id (lg t))) (of_nat (r_off r))) = Some d \<and> (\<forall>k < r_size r. log_dev t (unat d + k) = bs ! k)"
proof (rule demo_run)
  fix s r
  assume s: "reach (wal_init demo_flags demo_lm) (wal_step demo_flags demo_lm) s" "records s = [r]" "r_bytes r \<noteq> None" "gct s = GRound"
  then have all: "\<forall>q \<in> set (records s). r_bytes q \<noteq> None" by simp
  obtain t where t: "(wal_step demo_flags demo_lm)\<^sup>*\<^sup>* s t" "gct t = GRound" "records t = records s"
    "\<forall>q \<in> set (records t). r_gsn q \<le> hardened_gsn (lg t)" by (rule round_hardens [OF reach_wal_inv [OF s(1)] s(4) all])
  have rt: "reach (wal_init demo_flags demo_lm) (wal_step demo_flags demo_lm) t" by (rule reach_rtranclp [OF t(1) s(1)])
  have r: "r \<in> set (records t)" "r_gsn r \<le> hardened_gsn (lg t)" using t(3,4) s(2) by simp_all
  show ?thesis using hardened_is_durable [OF rt r] rt r by blast
qed

text \<open>
  C4: A reader of the log buffer, which copies without a lock while workers reserve, fill and submit
  and the group committer runs, gets exactly the bytes of the record; if instead it finds the record
  overwritten, the device has the record.
\<close>
theorem buffer_reads_are_right:
  assumes "reach (wal_init fl lm) (wal_step fl lm) s" "readers s i = RDone lsn res"
  shows "\<exists>r bs. r \<in> set (records s) \<and> lsn = makeLSN (ucast (log_id (lg s))) (of_nat (r_off r)) \<and> r_bytes r = Some bs \<and>
    (case res of Some dst \<Rightarrow> dst = bs
     | None \<Rightarrow> \<exists>d. LSN2DevOffset lm lsn = Some d \<and> (\<forall>k < r_size r. log_dev s (unat d + k) = bs ! k))"
proof -
  note inv = reach_wal_inv(1) [OF assms(1)]
  have "reader_ok (unat (FLAGS_wal_buffer_size fl)) s (RDone lsn res)" using wal_invD(8) [OF inv refl, of i] assms(2) by simp
  then obtain r bs where r: "reading (unat (FLAGS_wal_buffer_size fl)) s lsn [] r bs"
    "res = Some bs \<or> res = None \<and> r_off r + unat (FLAGS_wal_buffer_size fl) < wpos s" by auto
  have rr: "r \<in> set (records s)" "lsn = makeLSN (ucast (log_id (lg s))) (of_nat (r_off r))" "r_bytes r = Some bs" using r(1) by (auto simp: reading_def)
  show ?thesis
    using r(2)
  proof
    assume "res = None \<and> r_off r + unat (FLAGS_wal_buffer_size fl) < wpos s"
    moreover from this have "r_off r + r_size r \<le> gpos s" by (intro overwritten_is_written [OF inv rr(1)]) simp
    from record_on_device [OF inv rr(1) this] rr obtain d where "LSN2DevOffset lm lsn = Some d" "\<forall>k < r_size r. log_dev s (unat d + k) = bs ! k"
      by (metis option.inject)
    ultimately show ?thesis using rr by auto
  qed (use rr in auto)
qed

theorem buffer_reads_are_right_witness:
  "\<exists>s lsn res r bs. reach (wal_init demo_flags demo_lm) (wal_step demo_flags demo_lm) s \<and> readers s 0 = RDone lsn res \<and>
     r \<in> set (records s) \<and> r_bytes r = Some bs \<and> (res = Some bs \<or> res = None \<and> (\<exists>d. LSN2DevOffset demo_lm lsn = Some d))"
proof (rule demo_run)
  fix s r
  assume s: "reach (wal_init demo_flags demo_lm) (wal_step demo_flags demo_lm) s" "readers s 0 = RIdle"
    "submitted s (makeLSN (ucast (log_id (lg s))) (of_nat (r_off r)))"
  let ?lsn = "makeLSN (ucast (log_id (lg s))) (of_nat (r_off r)) :: LID"
  obtain t res where t: "reach (wal_init demo_flags demo_lm) (wal_step demo_flags demo_lm) t" "readers t 0 = RDone ?lsn res"
  proof (cases "overwritten demo_flags ?lsn (lg s)")
    case True
    let ?t = "s\<lparr>readers := (readers s)(0 := RDone ?lsn None)\<rparr>"
    have "wal_step demo_flags demo_lm s ?t" using wal_step.rd_start [OF s(2,3), of demo_flags demo_lm] True by simp
    then have "reach (wal_init demo_flags demo_lm) (wal_step demo_flags demo_lm) ?t" by (rule reach_step [OF s(1)])
    moreover have "readers ?t 0 = RDone ?lsn None" by simp
    ultimately show thesis by (rule that)
  next
    case False
    obtain dst where st: "(wal_step demo_flags demo_lm)\<^sup>*\<^sup>* s (s\<lparr>readers := (readers s)(0 := RDone ?lsn (Some dst))\<rparr>)"
      by (rule read_completes [OF reach_wal_inv(1) [OF s(1)] s(2,3) False])
    have "readers (s\<lparr>readers := (readers s)(0 := RDone ?lsn (Some dst))\<rparr>) 0 = RDone ?lsn (Some dst)" by simp
    then show thesis by (rule that [OF reach_rtranclp [OF st s(1)]])
  qed
  obtain q bs where "q \<in> set (records t)" "r_bytes q = Some bs" "res = Some bs \<or> res = None \<and> (\<exists>d. LSN2DevOffset demo_lm ?lsn = Some d)"
    using buffer_reads_are_right [OF t] by (cases res) auto
  then show ?thesis using t by blast
qed

end
