(* ===== verification/Group_Commit.thy ===== *)
theory Group_Commit
  imports WAL_Properties Commit_Tree "HOL-Library.Signed_Division"
begin

text \<open>
  What \<^verbatim>\<open>CRManager::groupCommiter\<close> decides over all logs and workers, and how
  \<^verbatim>\<open>LogManager\<close> maps pages and RU epochs to logs.  A round of the group committer reads the
  GSN of every worker and of every log, and from them computes the GSN up to which it takes
  everything to be durable; transactions that observed no larger one are committed.
\<close>

section \<open>The scan of workers and logs\<close>

definition max_u64 :: u64 where "max_u64 = - 1"

text \<open>For each worker: \<^verbatim>\<open>last_precommitted_tx_commit_ts\<close> and \<^verbatim>\<open>gct_visible_worker_gsn_clock\<close>.\<close>

record worker_scan =
  min_all_workers_hardened_commit_ts :: TXID
  min_all_workers_gsn :: LID

definition scan_workers :: "(TXID \<times> LID) list \<Rightarrow> worker_scan" where
  "scan_workers ws = fold (\<lambda>(ts, worker_gsn) a.
     a\<lparr>min_all_workers_hardened_commit_ts := min (min_all_workers_hardened_commit_ts a) ts,
       min_all_workers_gsn := min (min_all_workers_gsn a) worker_gsn\<rparr>) ws
     \<lparr>min_all_workers_hardened_commit_ts = max_u64, min_all_workers_gsn = max_u64\<rparr>"

record log_scan =
  min_all_active_logs_gsn :: LID
  min_all_straggler_logs_gsn :: LID
  min_all_logs_gsn :: LID
  max_all_logs_gsn :: LID
  straggler :: bool

text \<open>For each log: the GSN seen in the last round and the one published now.\<close>

definition scan_log :: "LID \<times> LID \<Rightarrow> log_scan \<Rightarrow> log_scan option" where
  "scan_log = (\<lambda>(seen_gsn, gsn) a.
     let a1 = a\<lparr>max_all_logs_gsn := max (max_all_logs_gsn a) gsn, min_all_logs_gsn := min (min_all_logs_gsn a) gsn\<rparr>
     in if gsn = seen_gsn then Some (a1\<lparr>straggler := True, min_all_straggler_logs_gsn := min (min_all_straggler_logs_gsn a1) gsn\<rparr>)
        else do { ensure (seen_gsn < gsn);
                  Some (a1\<lparr>min_all_active_logs_gsn := min (min_all_active_logs_gsn a1) gsn\<rparr>) })"

fun scan_logs :: "(LID \<times> LID) list \<Rightarrow> log_scan \<Rightarrow> log_scan option" where
  "scan_logs [] a = Some a"
| "scan_logs (x # xs) a = do { a1 \<leftarrow> scan_log x a; scan_logs xs a1 }"

definition scan_start :: log_scan where
  "scan_start = \<lparr>min_all_active_logs_gsn = max_u64, min_all_straggler_logs_gsn = max_u64, min_all_logs_gsn = max_u64,
     max_all_logs_gsn = 0, straggler = False\<rparr>"

definition durable_of :: "worker_scan \<Rightarrow> log_scan \<Rightarrow> LID option" where
  "durable_of w a =
     (if straggler a
      then do { ensure (min_all_straggler_logs_gsn a \<noteq> max_u64);
                Some (if min_all_straggler_logs_gsn a < min (min_all_workers_gsn w) (min_all_active_logs_gsn a)
                      then min (min_all_active_logs_gsn a) (min_all_workers_gsn w) else min_all_logs_gsn a) }
      else do { ensure (min_all_active_logs_gsn a = min_all_logs_gsn a); Some (min_all_logs_gsn a) })"

text \<open>
  The GSN a round takes to be durable; \<open>Some None\<close> is a round without new log records.
\<close>

definition min_durable_gsn :: "LID \<Rightarrow> (TXID \<times> LID) list \<Rightarrow> (LID \<times> LID) list \<Rightarrow> LID option option" where
  "min_durable_gsn prev_min_all_workers_gsn ws ls =
     do { let w = scan_workers ws;
          ensure (min_all_workers_gsn w < max_u64);
          ensure (prev_min_all_workers_gsn \<le> min_all_workers_gsn w);
          a \<leftarrow> scan_logs ls scan_start;
          ensure (min_all_logs_gsn a = min (min_all_straggler_logs_gsn a) (min_all_active_logs_gsn a));
          if min_all_active_logs_gsn a = max_u64 then Some None
          else do { g \<leftarrow> durable_of w a;
                    ensure (g < max_u64);
                    Some (Some g) } }"

section \<open>Committing\<close>

datatype tx_state = IDLE | STARTED | READY_TO_COMMIT | COMMITTED | ABORTED

record precommitted =
  p_state :: tx_state
  p_start_ts :: TXID
  p_commit_ts :: TXID
  max_observed_gsn :: LID

record commit_worker =
  precommitted_queue :: "precommitted list"
  precommitted_queue_rfa :: "precommitted list"
  hardened_commit_ts :: TXID
  signaled_commit_ts :: TXID

definition can_commit :: "LID \<Rightarrow> TXID \<Rightarrow> precommitted \<Rightarrow> bool" where
  "can_commit durable min_ts tx \<longleftrightarrow> max_observed_gsn tx \<le> durable \<and> p_start_ts tx \<le> min_ts"

fun commit_count :: "LID \<Rightarrow> TXID \<Rightarrow> precommitted list \<Rightarrow> nat" where
  "commit_count durable min_ts [] = 0"
| "commit_count durable min_ts (tx # q) = (if can_commit durable min_ts tx then Suc (commit_count durable min_ts q) else 0)"

definition signal_up_to :: "nat \<Rightarrow> precommitted list \<Rightarrow> TXID \<Rightarrow> TXID" where
  "signal_up_to n q ts = (if 0 < n then min ts (p_commit_ts (q ! (n - 1))) else ts)"

text \<open>
  One worker: the transactions committed and the worker afterwards.  \<open>rfa_cut\<close> is
  \<^verbatim>\<open>ready_to_commit_rfa_cut\<close>.
\<close>

definition commit_worker_queue ::
  "LID \<Rightarrow> TXID \<Rightarrow> TXID \<Rightarrow> nat \<Rightarrow> commit_worker \<Rightarrow> precommitted list \<times> commit_worker" where
  "commit_worker_queue durable min_ts hardened rfa_cut w =
     (let n = commit_count durable min_ts (precommitted_queue w);
          sig = signal_up_to rfa_cut (precommitted_queue_rfa w) (signal_up_to n (precommitted_queue w) max_u64)
      in (map (\<lambda>tx. tx\<lparr>p_state := COMMITTED\<rparr>) (take n (precommitted_queue w) @ take rfa_cut (precommitted_queue_rfa w)),
          w\<lparr>precommitted_queue := drop n (precommitted_queue w), precommitted_queue_rfa := drop rfa_cut (precommitted_queue_rfa w),
            hardened_commit_ts := hardened, signaled_commit_ts := (if sig < max_u64 \<and> 0 < sig then sig else signaled_commit_ts w)\<rparr>))"

section \<open>Which log a page belongs to\<close>

datatype PARTITION_BY = WORKER | PAGE | RU_EPOCH

definition getLogID :: "u32 \<Rightarrow> LogManager \<Rightarrow> PARTITION_BY \<Rightarrow> ru_epoch_t \<Rightarrow> u32 option" where
  "getLogID sink_logs lm part e =
     do { ensure (part = RU_EPOCH);
          ensure (log_count lm - sink_logs \<noteq> 0);
          Some (of_int (e smod uint (log_count lm - sink_logs)) + sink_logs) }"

text \<open>With the epoch being reclaimed and, for each log, whether it is redirected.\<close>

definition getLogID_page ::
  "u32 \<Rightarrow> LogManager \<Rightarrow> PARTITION_BY \<Rightarrow> ru_epoch_t \<Rightarrow> (u32 \<Rightarrow> bool) \<Rightarrow> ru_epoch_t \<Rightarrow> PID \<Rightarrow> u32 option" where
  "getLogID_page sink_logs lm part reclaiming redirected e page_id =
     do { ensure (part = RU_EPOCH);
          if e = - 1 \<or> e \<le> reclaiming
          then do { ensure (sink_logs \<noteq> 0); Some (ucast (page_id mod ucast sink_logs)) }
          else do { i \<leftarrow> getLogID sink_logs lm part e;
                    if redirected i then do { ensure (sink_logs \<noteq> 0); Some (ucast (page_id mod ucast sink_logs)) } else Some i } }"

definition getLog ::
  "u32 \<Rightarrow> LogManager \<Rightarrow> PARTITION_BY \<Rightarrow> ru_epoch_t \<Rightarrow> (u32 \<Rightarrow> bool) \<Rightarrow> u32 \<Rightarrow> bool \<Rightarrow> bool \<Rightarrow> ru_epoch_t \<Rightarrow> PID \<Rightarrow> u32 option" where
  "getLog sink_logs lm part reclaiming redirected worker_id new_page can_discard e page_id =
     (case part of
        WORKER \<Rightarrow> Some worker_id
      | RU_EPOCH \<Rightarrow> if new_page \<or> \<not> can_discard
                    then do { ensure (sink_logs \<noteq> 0); Some (ucast (page_id mod ucast sink_logs)) }
                    else getLogID_page sink_logs lm part reclaiming redirected e page_id
      | PAGE \<Rightarrow> do { ensure (log_count lm \<noteq> 0); Some (ucast (page_id mod ucast (log_count lm))) })"

text \<open>
  Reclaiming the log of an RU epoch: the range is trimmed, unless trims are off, and the segment
  starts anew.  The result has whether trims stay enabled; \<open>ioctl_ok\<close> is the answer of the
  device.
\<close>

definition trimRange :: "LogManager \<Rightarrow> bool \<Rightarrow> bool \<Rightarrow> u64 \<Rightarrow> u64 \<Rightarrow> bool option" where
  "trimRange lm trim_enabled ioctl_ok offset sz =
     (if \<not> trim_enabled \<or> sz = 0 then Some trim_enabled
      else do { ensure (offset mod LOG_DEV_BLK_SIZE = 0);
                ensure (sz mod LOG_DEV_BLK_SIZE = 0);
                ensure (offset \<ge> log_start_offset lm);
                ensure (offset + sz \<le> log_file_offset lm + log_dev_size lm);
                Some ioctl_ok })"

definition resetLogSegment ::
  "u32 \<Rightarrow> LogManager \<Rightarrow> PARTITION_BY \<Rightarrow> bool \<Rightarrow> bool \<Rightarrow> ru_epoch_t \<Rightarrow> (u32 \<Rightarrow> per_worker_log_segment) \<Rightarrow>
   (bool \<times> (u32 \<Rightarrow> per_worker_log_segment)) option" where
  "resetLogSegment sink_logs lm part trim_enabled ioctl_ok e segs =
     do { ensure (part = RU_EPOCH);
          ensure (e \<ge> 0);
          i \<leftarrow> getLogID sink_logs lm part e;
          tr \<leftarrow> trimRange lm trim_enabled ioctl_ok (start_off (segs i)) (lm_segment_size lm);
          Some (tr, segs(i := (segs i)\<lparr>seg_off := 0\<rparr>)) }"


section \<open>What a round takes to be durable\<close>

lemma scan_workers_acc:
  "min_all_workers_gsn (fold (\<lambda>(ts, g) a. a\<lparr>min_all_workers_hardened_commit_ts := min (min_all_workers_hardened_commit_ts a) ts,
       min_all_workers_gsn := min (min_all_workers_gsn a) g\<rparr>) ws a) = fold (\<lambda>(ts, g) x. min x g) ws (min_all_workers_gsn a)"
  "min_all_workers_hardened_commit_ts (fold (\<lambda>(ts, g) a. a\<lparr>min_all_workers_hardened_commit_ts := min (min_all_workers_hardened_commit_ts a) ts,
       min_all_workers_gsn := min (min_all_workers_gsn a) g\<rparr>) ws a) = fold (\<lambda>(ts, g) x. min x ts) ws (min_all_workers_hardened_commit_ts a)"
  by (induction ws arbitrary: a) (auto simp: case_prod_beta)

lemma fold_min_acc: "fold (\<lambda>x a. min a (f x)) xs a \<le> (a :: 'a :: linorder)"
proof (induction xs arbitrary: a)
  case (Cons y ys)
  have "fold (\<lambda>x a. min a (f x)) ys (min a (f y)) \<le> min a (f y)" by (rule Cons.IH)
  then show ?case by simp
qed simp

lemma fold_min_le: "x \<in> set xs \<Longrightarrow> fold (\<lambda>x a. min a (f x)) xs a \<le> (f x :: 'a :: linorder)"
proof (induction xs arbitrary: a)
  case (Cons y ys)
  then show ?case using fold_min_acc [of f ys "min a (f y)"] by (cases "x = y") auto
qed simp

lemma scan_workers_le:
  assumes "(ts, g) \<in> set ws"
  shows "min_all_workers_gsn (scan_workers ws) \<le> g" "min_all_workers_hardened_commit_ts (scan_workers ws) \<le> ts"
  using fold_min_le [OF assms, of snd] fold_min_le [OF assms, of fst]
  unfolding scan_workers_def scan_workers_acc by (simp_all add: case_prod_unfold)

text \<open>The minima over the logs that have not moved, those that have, and all of them.\<close>

lemma scan_log_mono:
  assumes "scan_log x a = Some a1"
  shows "min_all_active_logs_gsn a1 \<le> min_all_active_logs_gsn a" "min_all_straggler_logs_gsn a1 \<le> min_all_straggler_logs_gsn a"
    "min_all_logs_gsn a1 \<le> min_all_logs_gsn a"
proof -
  have "min_all_active_logs_gsn a1 \<le> min_all_active_logs_gsn a \<and> min_all_straggler_logs_gsn a1 \<le> min_all_straggler_logs_gsn a \<and>
      min_all_logs_gsn a1 \<le> min_all_logs_gsn a"
    using assms by (cases x) (auto simp: scan_log_def Let_def ensure_def split: if_splits)
  then show "min_all_active_logs_gsn a1 \<le> min_all_active_logs_gsn a" "min_all_straggler_logs_gsn a1 \<le> min_all_straggler_logs_gsn a"
    "min_all_logs_gsn a1 \<le> min_all_logs_gsn a" by auto
qed

lemma scan_logs_mono:
  assumes "scan_logs ls a = Some a'"
  shows "min_all_active_logs_gsn a' \<le> min_all_active_logs_gsn a \<and> min_all_straggler_logs_gsn a' \<le> min_all_straggler_logs_gsn a \<and>
    min_all_logs_gsn a' \<le> min_all_logs_gsn a"
  using assms
proof (induction ls arbitrary: a)
  case (Cons x xs)
  then obtain a1 where a1: "scan_log x a = Some a1" "scan_logs xs a1 = Some a'" by (auto simp: bind_eq_Some_conv)
  then show ?case using Cons.IH [OF a1(2)] scan_log_mono [OF a1(1)] by (auto intro: order_trans)
qed simp

lemma scan_logs_le:
  assumes "scan_logs ls a = Some a'" "(s, g) \<in> set ls"
  shows "min_all_logs_gsn a' \<le> g" "s \<noteq> g \<Longrightarrow> min_all_active_logs_gsn a' \<le> g"
proof -
  have "min_all_logs_gsn a' \<le> g \<and> (s \<noteq> g \<longrightarrow> min_all_active_logs_gsn a' \<le> g)"
    using assms
  proof (induction ls arbitrary: a)
    case (Cons x xs)
    then obtain a1 where a1: "scan_log x a = Some a1" "scan_logs xs a1 = Some a'" by (auto simp: bind_eq_Some_conv)
    show ?case
    proof (cases "x = (s, g)")
      case True
      then have "min_all_logs_gsn a1 \<le> g \<and> (s \<noteq> g \<longrightarrow> min_all_active_logs_gsn a1 \<le> g)"
        using a1(1) by (auto simp: scan_log_def Let_def ensure_def split: if_splits)
      then show ?thesis using scan_logs_mono [OF a1(2)] by (auto intro: order_trans)
    qed (use Cons a1 in auto)
  qed simp
  then show "min_all_logs_gsn a' \<le> g" "s \<noteq> g \<Longrightarrow> min_all_active_logs_gsn a' \<le> g" by auto
qed

text \<open>
  A round never takes more to be durable than every log that moved has published, nor more than
  every log has published unless no worker is behind.
\<close>

lemma min_durable_bounds:
  assumes "min_durable_gsn prev ws ls = Some (Some g)"
  shows "\<forall>(s, x) \<in> set ls. s \<noteq> x \<longrightarrow> g \<le> x" "(\<forall>(s, x) \<in> set ls. g \<le> x) \<or> (\<forall>(ts, w) \<in> set ws. g \<le> w)"
proof -
  obtain a where a: "scan_logs ls scan_start = Some a" "durable_of (scan_workers ws) a = Some g"
    "min_all_logs_gsn a = min (min_all_straggler_logs_gsn a) (min_all_active_logs_gsn a)"
    using assms by (auto simp: min_durable_gsn_def Let_def ensure_def bind_eq_Some_conv split: if_splits)
  have all: "min_all_logs_gsn a \<le> min_all_active_logs_gsn a" using a(3) by simp
  have "g = min_all_logs_gsn a \<or> g = min (min_all_active_logs_gsn a) (min_all_workers_gsn (scan_workers ws))"
    using a(2) by (auto simp: durable_of_def ensure_def split: if_splits)
  then show "\<forall>(s, x) \<in> set ls. s \<noteq> x \<longrightarrow> g \<le> x"
    using scan_logs_le(2) [OF a(1)] all by (auto intro: order_trans min.coboundedI1)
  show "(\<forall>(s, x) \<in> set ls. g \<le> x) \<or> (\<forall>(ts, w) \<in> set ws. g \<le> w)"
    using \<open>g = _ \<or> _\<close>
  proof
    assume "g = min_all_logs_gsn a"
    then show ?thesis using scan_logs_le(1) [OF a(1)] by auto
  next
    assume "g = min (min_all_active_logs_gsn a) (min_all_workers_gsn (scan_workers ws))"
    then show ?thesis using scan_workers_le(1) by (fastforce intro: min.coboundedI2)
  qed
qed

text \<open>
  The GSN of a worker is taken for a bound on what is not durable, but it is published before the
  hole of its record is collected: here the record with GSN 1 is filled, its worker has published
  GSN 1, and the log has not; as another log moved, the round takes GSN 1 to be durable.
\<close>

lemma worker_gsn_not_hardened:
  "\<exists>s r. reach (wal_init demo_flags demo_lm) (wal_step demo_flags demo_lm) s \<and> r \<in> set (records s) \<and> r_bytes r \<noteq> None \<and>
     r_gsn r = 1 \<and> hardened_gsn (lg s) = 0 \<and> gct s = GRound \<and>
     min_durable_gsn 0 [(0, 1)] [(seen s, last_gsn (wt_to_lw (lg s))), (1, 2)] = Some (Some 1)"
proof (rule demo_run)
  fix s r
  assume s: "reach (wal_init demo_flags demo_lm) (wal_step demo_flags demo_lm) s" "records s = [r]" "r_bytes r \<noteq> None" "gct s = GRound"
    "r_gsn r = 1" "seen s = 0" "last_gsn (wt_to_lw (lg s)) = 0" "hardened_gsn (lg s) = 0"
  have "min_durable_gsn 0 [(0, 1)] [(0, 0), (1, 2)] = Some (Some 1)" by code_simp
  then show ?thesis using s by (intro exI [of _ s] exI [of _ r]) simp
qed

section \<open>Transactions that commit\<close>

lemma commit_count_takeWhile: "commit_count durable min_ts q = length (takeWhile (can_commit durable min_ts) q)"
  by (induction q) auto

text \<open>
  Exactly the longest prefix of the queue whose transactions observed durable GSNs only is
  committed, and the rest stays in order.
\<close>

lemma commit_exact:
  assumes "commit_worker_queue durable min_ts hardened rfa_cut w = (txs, w')"
  shows "txs = map (\<lambda>tx. tx\<lparr>p_state := COMMITTED\<rparr>)
      (takeWhile (can_commit durable min_ts) (precommitted_queue w) @ take rfa_cut (precommitted_queue_rfa w))"
    "precommitted_queue w' = dropWhile (can_commit durable min_ts) (precommitted_queue w)"
    "precommitted_queue_rfa w' = drop rfa_cut (precommitted_queue_rfa w)"
  using assms
  by (auto simp: commit_worker_queue_def Let_def commit_count_takeWhile takeWhile_eq_take [symmetric] dropWhile_eq_drop [symmetric])

lemma committed_observed_durable:
  assumes "commit_worker_queue durable min_ts hardened 0 w = (txs, w')" "tx \<in> set txs"
  shows "p_state tx = COMMITTED" "max_observed_gsn tx \<le> durable" "p_start_ts tx \<le> min_ts"
  using assms(2) unfolding commit_exact(1) [OF assms(1)] by (auto simp: can_commit_def dest: set_takeWhileD)

section \<open>Routing\<close>

lemma getLogID_value:
  assumes "sink_logs < log_count lm" "0 \<le> e"
  obtains i where "getLogID sink_logs lm RU_EPOCH e = Some i" "uint i = e mod (uint (log_count lm) - uint sink_logs) + uint sink_logs"
    "sink_logs \<le> i" "i < log_count lm"
proof -
  define k where "k = uint (log_count lm) - uint sink_logs"
  have k: "uint (log_count lm - sink_logs) = k" "0 < k" using assms(1) by (simp_all add: k_def uint_sub_if' word_less_alt)
  have m: "e smod k = e mod k" using assms(2) k(2) by (simp add: smod_int_alt_def sgn_if abs_if)
  define j :: u32 where "j = of_int (e mod k)"
  have lt: "e mod k < k" "0 \<le> e mod k" using k(2) by simp_all
  have bound: "k + uint sink_logs < 2 ^ 32" using unsigned_less [of "log_count lm", where 'a = int] by (simp add: k_def)
  have "uint j = e mod k" 
  proof -
    have "e mod k < 2 ^ 32" using lt bound unsigned_greater_eq [of sink_logs, where 'a = int] by linarith
    then show ?thesis unfolding j_def using lt(2) by (simp add: uint_word_of_int mod_pos_pos_trivial)
  qed
  then have u: "uint (j + sink_logs) = e mod k + uint sink_logs" using lt bound by (simp add: uint_add_lem [THEN iffD1])
  have "log_count lm - sink_logs \<noteq> 0" using assms(1) by auto
  then have "getLogID sink_logs lm RU_EPOCH e = Some (j + sink_logs)"
    unfolding getLogID_def k(1) m j_def by (simp add: ensure_def)
  moreover have "uint (j + sink_logs) < uint (log_count lm)" unfolding u using lt(1) unfolding k_def by linarith
  ultimately show thesis
    using u lt(2) unfolding k_def by (intro that [of "j + sink_logs"]) (simp_all only: word_le_def word_less_alt le_add_same_cancel2)
qed

text \<open>The log of an RU epoch is never a sink log, and epochs that may be open together have different logs.\<close>

lemma epochs_have_own_logs:
  assumes "sink_logs < log_count lm" "0 \<le> e" "e < e'" "e' < e + (uint (log_count lm) - uint sink_logs)"
  shows "getLogID sink_logs lm RU_EPOCH e \<noteq> getLogID sink_logs lm RU_EPOCH e'"
proof
  define k where "k = uint (log_count lm) - uint sink_logs"
  assume eq: "getLogID sink_logs lm RU_EPOCH e = getLogID sink_logs lm RU_EPOCH e'"
  obtain i where i: "getLogID sink_logs lm RU_EPOCH e = Some i" "uint i = e mod k + uint sink_logs"
    unfolding k_def by (rule getLogID_value [OF assms(1,2)])
  have "0 \<le> e'" using assms(2,3) by simp
  then obtain i' where i': "getLogID sink_logs lm RU_EPOCH e' = Some i'" "uint i' = e' mod k + uint sink_logs"
    unfolding k_def by (rule getLogID_value [OF assms(1)])
  have "e mod k = e' mod k" using eq i i' by simp
  then have "k dvd e' - e" by (metis mod_eq_dvd_iff)
  then have "k \<le> e' - e" using assms(3) by (intro zdvd_imp_le) auto
  then show False using assms(4) by (simp add: k_def)
qed

text \<open>Reclaiming the log of an epoch passes all checks of a trim and leaves the sink logs alone.\<close>

lemma trimRange_returns:
  assumes lm: "LogManager_new fl False nb fo ds = Some lm" "wal_geom fl b" and i: "i < nb" "nb \<le> 1024" and fits: "unat fo + unat ds < 2 ^ 63"
  shows "trimRange lm trim ok (start_off (segment_new lm i)) (lm_segment_size lm) = Some (trim \<and> ok)"
proof -
  note p = segment_place [OF lm i fits]
  have blk: "w mod LOG_DEV_BLK_SIZE = 0 \<longleftrightarrow> 4096 dvd unat w" for w :: u64
    by (simp add: word_unat_eq_iff unat_mod blk_dn mod_eq_0_iff_dvd)
  have "unat (start_off (segment_new lm i) + lm_segment_size lm) \<le> unat (log_file_offset lm + log_dev_size lm)"
    using p(4,5) by (simp add: unat_plus_if')
  moreover have "lm_segment_size lm \<noteq> 0" using p(8) by auto
  ultimately show ?thesis using p(1-3) by (auto simp: trimRange_def ensure_def blk word_le_nat_alt)
qed

lemma resetLogSegment_returns:
  assumes lm: "LogManager_new fl False nb fo ds = Some lm" "wal_geom fl b" and nb: "nb \<le> 1024" and fits: "unat fo + unat ds < 2 ^ 63"
    and e: "sink_logs < nb" "0 \<le> e" and segs: "\<And>i. i < nb \<Longrightarrow> start_off (segs i) = start_off (segment_new lm i)"
  obtains i where "getLogID sink_logs lm RU_EPOCH e = Some i" "\<not> isSinkLog sink_logs i"
    "resetLogSegment sink_logs lm RU_EPOCH trim ok e segs = Some (trim \<and> ok, segs(i := (segs i)\<lparr>seg_off := 0\<rparr>))"
proof -
  have cnt: "log_count lm = nb" using segment_place(6) [OF lm e(1) nb fits] .
  obtain i where i: "getLogID sink_logs lm RU_EPOCH e = Some i" "sink_logs \<le> i" "i < nb"
    using getLogID_value [of sink_logs lm e] e unfolding cnt by blast
  have "trimRange lm trim ok (start_off (segs i)) (lm_segment_size lm) = Some (trim \<and> ok)"
    unfolding segs [OF i(3)] by (rule trimRange_returns [OF lm i(3) nb fits])
  then show thesis using i(1,2) e(2) by (intro that [of i]) (simp_all add: resetLogSegment_def ensure_def isSinkLog_def)
qed

end
