(* ===== verification/Spin_Struct.thy ===== *)
theory Spin_Struct
  imports Transition_System
begin

text \<open>
  \<^verbatim>\<open>utils/OptimisticSpinStruct.hpp\<close>: a structure with one writer and many readers.  The
  writer makes the version odd, writes the fields and makes it even again; a reader copies the
  fields and retries when the version was odd or has changed.  The log uses it for the offset and the
  GSN it publishes to the group committer.

  The structure is a list of fields, read and written one by one.  The 64-bit version is taken not to
  come round while a reader copies, so it is a natural number.  The values pushed so far, the initial
  one first, are a ghost.
\<close>

datatype 'w writer_pc = WIdle | WWrite "'w list" nat | WAttr nat 'w

datatype 'w reader_pc = RStart | RCopy nat "'w list" | RGot nat "'w list"

record 'w spin =
  optimistic_latch :: nat
  current_value :: "'w list"
  writer :: "'w writer_pc"
  spin_readers :: "nat \<Rightarrow> 'w reader_pc"
  pushed :: "'w list list"

inductive spin_step :: "'w spin \<Rightarrow> 'w spin \<Rightarrow> bool" where
  push_begin: "writer s = WIdle \<Longrightarrow> length v = length (current_value s) \<Longrightarrow>
    spin_step s (s\<lparr>optimistic_latch := optimistic_latch s + 1, writer := WWrite v 0\<rparr>)"
| push_field: "writer s = WWrite v k \<Longrightarrow> k < length v \<Longrightarrow>
    spin_step s (s\<lparr>current_value := (current_value s)[k := v ! k], writer := WWrite v (Suc k)\<rparr>)"
| push_end: "writer s = WWrite v k \<Longrightarrow> k = length v \<Longrightarrow>
    spin_step s (s\<lparr>optimistic_latch := optimistic_latch s + 1, writer := WIdle, pushed := pushed s @ [v]\<rparr>)"
| update_begin: "writer s = WIdle \<Longrightarrow> a < length (current_value s) \<Longrightarrow>
    spin_step s (s\<lparr>optimistic_latch := optimistic_latch s + 1, writer := WAttr a x\<rparr>)"
| update_field: "writer s = WAttr a x \<Longrightarrow> v = (current_value s)[a := x] \<Longrightarrow>
    spin_step s (s\<lparr>current_value := v, writer := WWrite v (length v)\<rparr>)"
| get_version: "spin_readers s i = RStart \<Longrightarrow> even (optimistic_latch s) \<Longrightarrow>
    spin_step s (s\<lparr>spin_readers := (spin_readers s)(i := RCopy (optimistic_latch s) [])\<rparr>)"
| get_field: "spin_readers s i = RCopy ver cp \<Longrightarrow> length cp < length (current_value s) \<Longrightarrow>
    spin_step s (s\<lparr>spin_readers := (spin_readers s)(i := RCopy ver (cp @ [current_value s ! length cp]))\<rparr>)"
| get_check: "spin_readers s i = RCopy ver cp \<Longrightarrow> length cp = length (current_value s) \<Longrightarrow>
    spin_step s (s\<lparr>spin_readers := (spin_readers s)(i := if optimistic_latch s = ver then RGot ver cp else RStart)\<rparr>)"
| get_again: "spin_readers s i = RGot ver cp \<Longrightarrow> spin_step s (s\<lparr>spin_readers := (spin_readers s)(i := RStart)\<rparr>)"

definition spin_init :: "'w list \<Rightarrow> 'w spin \<Rightarrow> bool" where
  "spin_init v s \<longleftrightarrow> optimistic_latch s = 0 \<and> current_value s = v \<and> writer s = WIdle \<and> (\<forall>i. spin_readers s i = RStart) \<and> pushed s = [v]"

fun writer_ok :: "'w spin \<Rightarrow> 'w writer_pc \<Rightarrow> bool" where
  "writer_ok s WIdle \<longleftrightarrow> optimistic_latch s = 2 * (length (pushed s) - 1) \<and> current_value s = last (pushed s)"
| "writer_ok s (WWrite v k) \<longleftrightarrow> optimistic_latch s = 2 * (length (pushed s) - 1) + 1 \<and> k \<le> length v \<and>
     length v = length (current_value s) \<and> take k (current_value s) = take k v"
| "writer_ok s (WAttr a x) \<longleftrightarrow> optimistic_latch s = 2 * (length (pushed s) - 1) + 1"

fun spin_reader_ok :: "'w spin \<Rightarrow> 'w reader_pc \<Rightarrow> bool" where
  "spin_reader_ok s RStart \<longleftrightarrow> True"
| "spin_reader_ok s (RCopy ver cp) \<longleftrightarrow> even ver \<and> ver \<le> optimistic_latch s \<and> length cp \<le> length (current_value s) \<and>
     (optimistic_latch s = ver \<longrightarrow> cp = take (length cp) (current_value s))"
| "spin_reader_ok s (RGot ver cp) \<longleftrightarrow> ver div 2 < length (pushed s) \<and> cp = pushed s ! (ver div 2)"

definition spin_inv :: "'w spin \<Rightarrow> bool" where
  "spin_inv s \<longleftrightarrow> pushed s \<noteq> [] \<and> writer_ok s (writer s) \<and> (\<forall>i. spin_reader_ok s (spin_readers s i))"

text \<open>A step of the writer: a reader is either unaffected or will notice.\<close>

lemma reader_ok_write:
  assumes "spin_reader_ok s x" "optimistic_latch s \<le> optimistic_latch s'" "length (current_value s') = length (current_value s)"
    and "even (optimistic_latch s') \<longrightarrow> optimistic_latch s' \<noteq> optimistic_latch s \<or> current_value s' = current_value s"
    and "\<exists>zs. pushed s' = pushed s @ zs"
  shows "spin_reader_ok s' x"
proof (cases x)
  case (RCopy ver cp)
  have "cp = take (length cp) (current_value s')" if "optimistic_latch s' = ver"
    using assms(1,2,4) that RCopy by auto
  then show ?thesis using assms(1-3) RCopy by auto
next
  case (RGot ver cp)
  then show ?thesis using assms(1,5) by (auto simp: nth_append)
qed simp

lemma spin_inv_write:
  assumes "spin_inv s" "spin_readers s' = spin_readers s" "pushed s' \<noteq> []" "writer_ok s' (writer s')"
    and "optimistic_latch s \<le> optimistic_latch s'" "length (current_value s') = length (current_value s)"
    and "even (optimistic_latch s') \<longrightarrow> optimistic_latch s' \<noteq> optimistic_latch s \<or> current_value s' = current_value s"
    and "\<exists>zs. pushed s' = pushed s @ zs"
  shows "spin_inv s'"
  using assms reader_ok_write [OF _ assms(5-8)] by (simp add: spin_inv_def)

text \<open>A step of a reader.\<close>

lemma spin_inv_read:
  assumes "spin_inv s" "spin_reader_ok s x"
  shows "spin_inv (s\<lparr>spin_readers := (spin_readers s)(i := x)\<rparr>)"
proof -
  let ?s = "s\<lparr>spin_readers := (spin_readers s)(i := x)\<rparr>"
  have "spin_reader_ok ?s y = spin_reader_ok s y" for y by (cases y) simp_all
  moreover have "writer_ok ?s w = writer_ok s w" for w by (cases w) simp_all
  ultimately show ?thesis using assms by (simp add: spin_inv_def)
qed

lemma spin_idle: "spin_inv s \<Longrightarrow> even (optimistic_latch s) \<Longrightarrow> writer s = WIdle"
  by (cases "writer s") (auto simp: spin_inv_def)

lemma spin_inv_step:
  assumes inv: "spin_inv s" and st: "spin_step s t"
  shows "spin_inv t"
  using st
proof (cases rule: spin_step.cases)
  case (push_begin v)
  have "writer_ok s WIdle" using inv push_begin(2) by (simp add: spin_inv_def)
  then show ?thesis unfolding push_begin(1) using inv push_begin(3) by (intro spin_inv_write [OF inv]) (auto simp: spin_inv_def)
next
  case (push_field v k)
  have w: "writer_ok s (WWrite v k)" using inv push_field(2) by (simp add: spin_inv_def)
  then have "take (Suc k) ((current_value s)[k := v ! k]) = take (Suc k) v"
    using push_field(3) by (simp add: take_Suc_conv_app_nth)
  then show ?thesis unfolding push_field(1) using inv w push_field(3) by (intro spin_inv_write [OF inv]) (auto simp: spin_inv_def)
next
  case (push_end v k)
  have w: "writer_ok s (WWrite v k)" using inv push_end(2) by (simp add: spin_inv_def)
  obtain m where "length (pushed s) = Suc m" using inv by (cases "pushed s") (auto simp: spin_inv_def)
  moreover have "take k (current_value s) = take k v" "length v = length (current_value s)" using w by simp_all
  then have "current_value s = v" using push_end(3) by simp
  ultimately show ?thesis unfolding push_end(1) using push_end(3) w by (intro spin_inv_write [OF inv]) simp_all
next
  case (update_begin a x)
  have "writer_ok s WIdle" using inv update_begin(2) by (simp add: spin_inv_def)
  then show ?thesis unfolding update_begin(1) using inv by (intro spin_inv_write [OF inv]) (auto simp: spin_inv_def)
next
  case (update_field a x v)
  have "writer_ok s (WAttr a x)" using inv update_field(2) by (simp add: spin_inv_def)
  then show ?thesis unfolding update_field(1) using inv update_field(3) by (intro spin_inv_write [OF inv]) (auto simp: spin_inv_def)
next
  case (get_version i)
  show ?thesis unfolding get_version(1) using inv get_version(3) by (intro spin_inv_read) simp_all
next
  case (get_field i ver cp)
  have "spin_reader_ok s (RCopy ver cp)" using inv get_field(2) by (auto simp: spin_inv_def dest!: spec [of _ i])
  then show ?thesis unfolding get_field(1) using inv get_field(3)
    by (intro spin_inv_read) (auto simp: take_Suc_conv_app_nth)
next
  case (get_check i ver cp)
  have r: "spin_reader_ok s (RCopy ver cp)" using inv get_check(2) by (auto simp: spin_inv_def dest!: spec [of _ i])
  have "spin_reader_ok s (if optimistic_latch s = ver then RGot ver cp else RStart)"
  proof (cases "optimistic_latch s = ver")
    case True
    then have "writer s = WIdle" using spin_idle [OF inv] r by simp
    then have "writer_ok s WIdle" "pushed s \<noteq> []" using inv by (auto simp: spin_inv_def)
    then show ?thesis using True r get_check(3) by (simp add: last_conv_nth)
  qed simp
  then show ?thesis unfolding get_check(1) by (rule spin_inv_read [OF inv])
next
  case (get_again i ver cp)
  show ?thesis unfolding get_again(1) using inv by (intro spin_inv_read) simp_all
qed

interpretation spin: invariant_of "spin_init v" spin_step spin_inv for v :: "'w list"
proof
  fix s :: "'w spin"
  assume "spin_init v s"
  then show "spin_inv s" by (simp add: spin_init_def spin_inv_def)
qed (rule spin_inv_step)

text \<open>
  In every interleaving of the writer and the readers a copy is one of the values that were pushed,
  in one piece, and its version says which one.
\<close>

lemma spin_copies_whole_values:
  "reach (spin_init v) spin_step s \<Longrightarrow> spin_readers s i = RGot ver cp \<Longrightarrow>
    ver div 2 < length (pushed s) \<and> cp = pushed s ! (ver div 2)"
  using spin.reach_inv unfolding spin_inv_def by (metis spin_reader_ok.simps(3))

end
