(* ===== verification/Page_Log.thy ===== *)
theory Page_Log
  imports Group_Commit
begin

text \<open>
  Logging a change of a page, from \<^verbatim>\<open>sync-primitives/PageGuard.hpp\<close>: the guard counts
  the change in the page, draws a GSN, reserves the record in the log of the page and notes its LSN
  among the pending LSNs of the frame.  A frame may only be discarded while these are exactly the
  records since it was last written back.

  The frame, the worker and the logs are threaded through; what the attempt reads of the epoch being
  reclaimed, at three points, and of the redirections, when the log is chosen, are arguments, since
  they change concurrently.  An attempt that has to be made again is \<open>Some None\<close>, an abort or a wait
  in the log is \<open>None\<close>.
\<close>

section \<open>The operations\<close>

record guard_worker =
  worker_id :: WORKERID
  worker_gsn_clock :: LID
  rfa_gsn_flushed :: LID
  remote_flush_dependency :: bool

definition worker_setCurrentGSN :: "LID \<Rightarrow> guard_worker \<Rightarrow> guard_worker" where
  "worker_setCurrentGSN g w = w\<lparr>worker_gsn_clock := g\<rparr>"

definition worker_syncGSN :: "LID \<Rightarrow> guard_worker \<Rightarrow> guard_worker" where
  "worker_syncGSN other_gsn w = (if other_gsn > worker_gsn_clock w then w\<lparr>worker_gsn_clock := other_gsn\<rparr> else w)"

definition markAsDirty :: "flags \<Rightarrow> BufferFrame \<Rightarrow> BufferFrame" where
  "markAsDirty fl bf =
     (let bf1 = bf\<lparr>page := (page bf)\<lparr>PLSN := PLSN (page bf) + 1\<rparr>\<rparr>
      in if FLAGS_enable_discarding fl \<and> isDiscardable bf1 \<and>
            PLSN (page bf1) - last_written_plsn (bf_header bf1) > ucast (FLAGS_max_log_records_to_discard fl)
         then markUnDiscardable MAX_DISCARDING_DEPTH_EXCEEDED bf1 else bf1)"

definition incrementGSN :: "flags \<Rightarrow> guard_worker \<Rightarrow> BufferFrame \<Rightarrow> guard_worker \<times> BufferFrame" where
  "incrementGSN fl w bf =
     (let bf1 = markAsDirty fl bf; new_gsn = max (worker_gsn_clock w) (GSN (page bf1)) + 1
      in (worker_setCurrentGSN new_gsn w,
          bf1\<lparr>page := (page bf1)\<lparr>GSN := new_gsn\<rparr>, bf_header := (bf_header bf1)\<lparr>last_writer_worker_id := worker_id w\<rparr>\<rparr>))"

definition guard_syncGSN :: "flags \<Rightarrow> BufferFrame \<Rightarrow> guard_worker \<Rightarrow> guard_worker" where
  "guard_syncGSN fl bf w =
     (if \<not> FLAGS_wal fl then w
      else let w1 = (if FLAGS_wal_rfa fl \<and> GSN (page bf) > rfa_gsn_flushed w \<and> last_writer_worker_id (bf_header bf) \<noteq> worker_id w
                     then w\<lparr>remote_flush_dependency := True\<rparr> else w)
           in worker_setCurrentGSN (max (worker_gsn_clock w1) (GSN (page bf))) w1)"

definition unPin :: "BufferFrame \<Rightarrow> BufferFrame option" where
  "unPin bf = do { ensure (keep_in_memory (bf_header bf)); Some (bf\<lparr>bf_header := (bf_header bf)\<lparr>keep_in_memory := False\<rparr>\<rparr>) }"

text \<open>The part before the log is chosen.\<close>

definition reserve_prepare :: "flags \<Rightarrow> bool \<Rightarrow> guard_worker \<Rightarrow> BufferFrame \<Rightarrow> guard_worker \<times> BufferFrame" where
  "reserve_prepare fl disable_discarding w bf =
     (let bf1 = (if disable_discarding then markUnDiscardable OTHER bf else bf);
          (w1, bf2) = (if FLAGS_wal_tuple_rfa fl then (w, bf1) else incrementGSN fl w bf1)
      in (w1, if pg_ruh (page bf2) \<noteq> UNMAPPED_RUH \<and> pg_ruh (page bf2) \<noteq> DEFAULT_RUH then markUnDiscardable NOT_DEFAULT_RUH bf2 else bf2))"

text \<open>The log is attached to the frame; whether this is the first record of the page in it.\<close>

definition attach_log :: "nat \<Rightarrow> Logging \<Rightarrow> BufferFrame \<Rightarrow> (bool \<times> BufferFrame) option" where
  "attach_log i l bf =
     do { (first_entry_in_log, bf1) \<leftarrow>
            (case h_logging (bf_header bf) of
               None \<Rightarrow> Some (True, bf)
             | Some j \<Rightarrow> if j = i then Some (False, bf)
                         else do { ensure (is_sink_log l); Some (True, bf\<lparr>bf_header := (bf_header bf)\<lparr>flush_sink_log := True\<rparr>\<rparr>) });
          let bf2 = (if is_sink_log l then markUnDiscardable OTHER bf1 else bf1);
          Some (first_entry_in_log, bf2\<lparr>bf_header := (bf_header bf2)\<lparr>h_logging := Some i\<rparr>\<rparr>) }"

text \<open>The LSN is noted in a frame that may be discarded.\<close>

definition note_pending :: "flags \<Rightarrow> bool \<Rightarrow> bool \<Rightarrow> LID \<Rightarrow> BufferFrame \<Rightarrow> BufferFrame option" where
  "note_pending fl sink first_entry_in_log lsn bf =
     (if \<not> (FLAGS_enable_discarding fl \<and> isDiscardable bf) then Some bf
      else do {
        let h = bf_header bf;
        ensure (\<not> sink);
        ensure (\<not> first_entry_in_log \<or> pending_lsn_count h = 0);
        if \<not> will_flush_ppl h
        then do {
          ensure (ucast (pending_lsn_count h) < FLAGS_max_log_records_to_discard fl);
          ensure (unat (pending_lsn_count h) < length (pending_lsn h));
          let h1 = h\<lparr>pending_lsn := (pending_lsn h)[unat (pending_lsn_count h) := lsn], pending_lsn_count := pending_lsn_count h + 1\<rparr>;
          ensure (ucast (pending_lsn_count h1) = PLSN (page bf) - last_written_plsn h1);
          Some (bf\<lparr>bf_header := (if FLAGS_per_page_logging fl \<and> ucast (pending_lsn_count h1) \<ge> FLAGS_ppl_merge_threshold fl
                                then h1\<lparr>will_flush_ppl := True\<rparr> else h1)\<rparr>)
        }
        else do {
          ensure (FLAGS_per_page_logging fl);
          ensure (ucast (pending_lsn_count h) = FLAGS_ppl_merge_threshold fl);
          Some bf
        }
      })"

text \<open>
  One attempt, with the log \<open>l\<close> of number \<open>i\<close>.  The fields \<^verbatim>\<open>prev_lsn\<close> and \<^verbatim>\<open>ru_epoch\<close>
  of the record are at offsets 24 and 56.
\<close>

definition reserve_attempt ::
  "flags \<Rightarrow> u32 \<Rightarrow> ru_epoch_t \<Rightarrow> ru_epoch_t \<Rightarrow> nat \<Rightarrow> Logging \<Rightarrow> guard_worker \<Rightarrow> BufferFrame \<Rightarrow>
   (WALEntryHandler \<times> Logging \<times> guard_worker \<times> BufferFrame) option option" where
  "reserve_attempt fl payload snapshot snapshot2 i l w bf =
     (let e = pg_ru_epoch (page bf)
      in if redirect_to_sink_log l then Some None
         else if snapshot < e \<and> snapshot2 \<noteq> snapshot \<and> snapshot2 \<ge> e then Some None
         else do {
           (first_entry_in_log, bf1) \<leftarrow> attach_log i l bf;
           (h, l1) \<leftarrow> reserveWALEntry fl payload (h_pid (bf_header bf1)) (of_int (dt_id (page bf1))) (GSN (page bf1)) l;
           ensure (worker_gsn_clock w = GSN (page bf1));
           let logGSN = max (GSN (page bf1)) (log_gsn_clock l + 1);
           let w1 = worker_syncGSN logGSN w;
           let prev = (if first_entry_in_log then INVALID_LSN else last_written_lsn (page bf1));
           let off = unat (h_in_memory_offset h);
           let l2 = l1\<lparr>wal_buffer := write_bytes (off + 24) (le_bytes 8 prev)
                        (write_bytes (off + 56) (le_bytes 8 (of_int e :: u64)) (wal_buffer l1))\<rparr>;
           let bf2 = bf1\<lparr>page := (page bf1)\<lparr>GSN := logGSN,
                            last_written_lsn := (if FLAGS_wal_pwrite fl then h_lsn h else NON_PERSISTED_LSN)\<rparr>,
                         ppl := (ppl bf1)\<lparr>absorbed_writes := pre_increment saturating_u8 (absorbed_writes (ppl bf1))\<rparr>\<rparr>;
           bf3 \<leftarrow> note_pending fl (is_sink_log l) first_entry_in_log (h_lsn h) bf2;
           Some (Some (h, l2, w1, bf3)) })"

definition guard_reserveWALEntry ::
  "flags \<Rightarrow> u32 \<Rightarrow> LogManager \<Rightarrow> PARTITION_BY \<Rightarrow> u32 \<Rightarrow> bool \<Rightarrow> ru_epoch_t \<Rightarrow> ru_epoch_t \<Rightarrow> (u32 \<Rightarrow> bool) \<Rightarrow> ru_epoch_t \<Rightarrow>
   (u32 \<Rightarrow> Logging) \<Rightarrow> guard_worker \<Rightarrow> BufferFrame \<Rightarrow> (WALEntryHandler \<times> (u32 \<Rightarrow> Logging) \<times> guard_worker \<times> BufferFrame) option option" where
  "guard_reserveWALEntry fl sink_logs lm part payload disable_discarding snapshot reclaiming redirected snapshot2 all_logs w bf =
     (let (w1, bf1) = reserve_prepare fl disable_discarding w bf
      in do {
        i \<leftarrow> getLog sink_logs lm part reclaiming redirected (ucast (worker_id w1)) (not_yet_persisted (bf_header bf1)) (isDiscardable bf1)
               (pg_ru_epoch (page bf1)) (h_pid (bf_header bf1));
        r \<leftarrow> reserve_attempt fl payload snapshot snapshot2 (unat i) (all_logs i) w1 bf1;
        Some (map_option (\<lambda>(h, l, w, bf). (h, all_logs(i := l), w, bf)) r) })"

section \<open>Pending LSNs\<close>

text \<open>The log the RU epoch of the page is mapped to.\<close>

definition epoch_log :: "u32 \<Rightarrow> LogManager \<Rightarrow> BufferFrame \<Rightarrow> nat option" where
  "epoch_log sk lm bf = map_option unat (getLogID sk lm RU_EPOCH (pg_ru_epoch (page bf)))"

text \<open>
  \<open>S\<close> are the LSNs of the records since the frame was written back.  Up to the threshold of
  the per page log they are all pending; from there on the per page log replaces them.
\<close>

definition pending_full :: "flags \<Rightarrow> LID list \<Rightarrow> bool" where
  "pending_full fl S \<longleftrightarrow> FLAGS_per_page_logging fl \<and> unat (FLAGS_ppl_merge_threshold fl) \<le> length S"

definition pending_ok :: "flags \<Rightarrow> u32 \<Rightarrow> LogManager \<Rightarrow> LID list \<Rightarrow> BufferFrame \<Rightarrow> bool" where
  "pending_ok fl sk lm S bf \<longleftrightarrow>
     (let h = bf_header bf; n = (if pending_full fl S then unat (FLAGS_ppl_merge_threshold fl) else length S)
      in unat (FLAGS_max_log_records_to_discard fl) \<le> length (pending_lsn h) \<and>
         (discardable h \<longrightarrow> unat (PLSN (page bf) - last_written_plsn h) = length S \<and>
            length S \<le> unat (FLAGS_max_log_records_to_discard fl) \<and> unat (pending_lsn_count h) = n \<and>
            will_flush_ppl h = pending_full fl S \<and> take n (pending_lsn h) = take n S \<and> (h_logging h = None \<longrightarrow> S = []) \<and>
            h_logging h \<in> {None, epoch_log sk lm bf}))"

text \<open>The configuration: discarding on, and a count of pending LSNs fits in its byte.\<close>

definition discard_flags :: "flags \<Rightarrow> bool" where
  "discard_flags fl \<longleftrightarrow> FLAGS_enable_discarding fl \<and> \<not> FLAGS_wal_tuple_rfa fl \<and> FLAGS_wal_pwrite fl \<and>
     unat (FLAGS_max_log_records_to_discard fl) < 256 \<and> 0 < unat (FLAGS_ppl_merge_threshold fl)"


text \<open>Between the count of the change and its record the frame is one change ahead.\<close>

definition pending_ahead :: "flags \<Rightarrow> u32 \<Rightarrow> LogManager \<Rightarrow> LID list \<Rightarrow> BufferFrame \<Rightarrow> bool" where
  "pending_ahead fl sk lm S bf \<longleftrightarrow>
     (let h = bf_header bf; n = (if pending_full fl S then unat (FLAGS_ppl_merge_threshold fl) else length S)
      in unat (FLAGS_max_log_records_to_discard fl) \<le> length (pending_lsn h) \<and>
         (discardable h \<longrightarrow> unat (PLSN (page bf) - last_written_plsn h) = Suc (length S) \<and>
            length S < unat (FLAGS_max_log_records_to_discard fl) \<and> unat (pending_lsn_count h) = n \<and>
            will_flush_ppl h = pending_full fl S \<and> take n (pending_lsn h) = take n S \<and> (h_logging h = None \<longrightarrow> S = []) \<and>
            h_logging h \<in> {None, epoch_log sk lm bf}))"

lemma pending_undiscardable:
  "pending_ok fl sk lm S bf \<Longrightarrow> pending_ok fl sk lm S (markUnDiscardable c bf)"
  "pending_ahead fl sk lm S bf \<Longrightarrow> pending_ahead fl sk lm S (markUnDiscardable c bf)"
  by (simp_all add: pending_ok_def pending_ahead_def epoch_log_def markUnDiscardable_def Let_def)

lemma wide_flag: "unat (ucast (x :: u32) :: u64) = unat x"
  using unsigned_less [of x] by (simp add: unsigned_ucast_eq take_bit_nat_eq_self)

lemma wide_count: "unat (ucast (x :: u8) :: u32) = unat x" "unat (ucast x :: u64) = unat x"
proof -
  have "unat x < 256" using unsigned_less [of x] by simp
  then show "unat (ucast x :: u32) = unat x" "unat (ucast x :: u64) = unat x" by (simp_all add: unsigned_ucast_eq take_bit_nat_eq_self)
qed

lemma markAsDirty_ahead:
  assumes "discard_flags fl" "pending_ok fl sk lm S bf"
  shows "pending_ahead fl sk lm S (markAsDirty fl bf)"
    "isDiscardable (markAsDirty fl bf) \<longleftrightarrow> isDiscardable bf \<and> length S < unat (FLAGS_max_log_records_to_discard fl)"
    "GSN (page (markAsDirty fl bf)) = GSN (page bf)" "h_logging (bf_header (markAsDirty fl bf)) = h_logging (bf_header bf)"
proof -
  define d where "d = PLSN (page bf) + 1 - last_written_plsn (bf_header bf)"
  have m: "unat (FLAGS_max_log_records_to_discard fl) < 256" "FLAGS_enable_discarding fl" using assms(1) by (auto simp: discard_flags_def)
  have s: "unat d = Suc (length S)" "length S \<le> unat (FLAGS_max_log_records_to_discard fl)" if "discardable (bf_header bf)"
  proof -
    have l: "unat (PLSN (page bf) - last_written_plsn (bf_header bf)) = length S" "length S \<le> unat (FLAGS_max_log_records_to_discard fl)"
      using assms(2) that by (auto simp: pending_ok_def Let_def)
    have "d = PLSN (page bf) - last_written_plsn (bf_header bf) + 1" by (simp add: d_def)
    then show "unat d = Suc (length S)" using l m(1) by (simp add: unat_plus_if')
    show "length S \<le> unat (FLAGS_max_log_records_to_discard fl)" by (rule l(2))
  qed
  have c: "d > ucast (FLAGS_max_log_records_to_discard fl) \<longleftrightarrow> length S \<ge> unat (FLAGS_max_log_records_to_discard fl)"
    if "discardable (bf_header bf)"
    using s(1) [OF that] by (simp add: word_less_nat_alt wide_flag less_Suc_eq_le)
  note s = s [unfolded d_def] and c = c [unfolded d_def]
  show "pending_ahead fl sk lm S (markAsDirty fl bf)"
    using assms(2) m(2) s c by (auto simp: markAsDirty_def pending_ahead_def pending_ok_def epoch_log_def isDiscardable_def markUnDiscardable_def Let_def)
  show "isDiscardable (markAsDirty fl bf) \<longleftrightarrow> isDiscardable bf \<and> length S < unat (FLAGS_max_log_records_to_discard fl)"
    using m(2) s c by (auto simp: markAsDirty_def isDiscardable_def markUnDiscardable_def Let_def)
  show "GSN (page (markAsDirty fl bf)) = GSN (page bf)" "h_logging (bf_header (markAsDirty fl bf)) = h_logging (bf_header bf)"
    by (simp_all add: markAsDirty_def markUnDiscardable_def Let_def)
qed


lemma reserve_prepare_ahead:
  assumes "discard_flags fl" "pending_ok fl sk lm S bf" "reserve_prepare fl dd w bf = (w', bf')"
  shows "pending_ahead fl sk lm S bf'" "worker_gsn_clock w' = max (worker_gsn_clock w) (GSN (page bf)) + 1" "GSN (page bf') = worker_gsn_clock w'"
    "h_logging (bf_header bf') = h_logging (bf_header bf)" "h_pid (bf_header bf') = h_pid (bf_header bf)"
    "dt_id (page bf') = dt_id (page bf)" "pg_ru_epoch (page bf') = pg_ru_epoch (page bf)"
    "isDiscardable bf' \<longleftrightarrow> isDiscardable bf \<and> \<not> dd \<and> length S < unat (FLAGS_max_log_records_to_discard fl) \<and>
       pg_ruh (page bf) \<in> {UNMAPPED_RUH, DEFAULT_RUH}"
    "not_yet_persisted (bf_header bf') = not_yet_persisted (bf_header bf)" "worker_id w' = worker_id w"
proof -
  define bf0 where "bf0 = (if dd then markUnDiscardable OTHER bf else bf)"
  have bf0: "pending_ok fl sk lm S bf0" using assms(2) by (simp add: bf0_def pending_undiscardable)
  note a = markAsDirty_ahead [OF assms(1) bf0]
  define bf1 where "bf1 = snd (incrementGSN fl w bf0)"
  have w: "w' = fst (incrementGSN fl w bf0)"
    and bf': "bf' = (if pg_ruh (page bf1) \<noteq> UNMAPPED_RUH \<and> pg_ruh (page bf1) \<noteq> DEFAULT_RUH then markUnDiscardable NOT_DEFAULT_RUH bf1 else bf1)"
    using assms(1,3) by (auto simp: reserve_prepare_def discard_flags_def bf0_def bf1_def Let_def split: prod.splits)
  have ah: "pending_ahead fl sk lm S bf1" "isDiscardable bf1 = isDiscardable (markAsDirty fl bf0)" "pg_ruh (page bf1) = pg_ruh (page bf)"
    using a(1) by (simp_all add: bf1_def incrementGSN_def pending_ahead_def epoch_log_def isDiscardable_def Let_def markAsDirty_def bf0_def)
  show "pending_ahead fl sk lm S bf'" using ah(1) by (simp add: bf' pending_undiscardable)
  show "worker_gsn_clock w' = max (worker_gsn_clock w) (GSN (page bf)) + 1"
    using a(3) by (simp add: w incrementGSN_def worker_setCurrentGSN_def Let_def bf0_def)
  show "worker_id w' = worker_id w" by (simp add: w incrementGSN_def worker_setCurrentGSN_def Let_def)
  show "GSN (page bf') = worker_gsn_clock w'" by (simp add: bf' bf1_def w incrementGSN_def worker_setCurrentGSN_def Let_def)
  show "h_logging (bf_header bf') = h_logging (bf_header bf)" "h_pid (bf_header bf') = h_pid (bf_header bf)"
    "dt_id (page bf') = dt_id (page bf)" "pg_ru_epoch (page bf') = pg_ru_epoch (page bf)"
    "not_yet_persisted (bf_header bf') = not_yet_persisted (bf_header bf)"
    by (simp_all add: bf' bf1_def bf0_def incrementGSN_def markAsDirty_def markUnDiscardable_def Let_def)
  show "isDiscardable bf' \<longleftrightarrow> isDiscardable bf \<and> \<not> dd \<and> length S < unat (FLAGS_max_log_records_to_discard fl) \<and>
       pg_ruh (page bf) \<in> {UNMAPPED_RUH, DEFAULT_RUH}"
    using a(2) ah(2,3) by (auto simp: bf' bf0_def)
qed

lemma attach_log_ahead:
  assumes "pending_ahead fl sk lm S bf" "is_sink_log l \<or> isDiscardable bf \<and> epoch_log sk lm bf = Some i"
  obtains first bf' where "attach_log i l bf = Some (first, bf')" "pending_ahead fl sk lm S bf'" "page bf' = page bf"
    "h_pid (bf_header bf') = h_pid (bf_header bf)" "ppl bf' = ppl bf" "h_logging (bf_header bf') = Some i"
    "isDiscardable bf' \<longleftrightarrow> isDiscardable bf \<and> \<not> is_sink_log l" "isDiscardable bf' \<Longrightarrow> first \<Longrightarrow> S = []"
proof -
  have "\<exists>first bf'. attach_log i l bf = Some (first, bf') \<and> pending_ahead fl sk lm S bf' \<and> page bf' = page bf \<and>
    h_pid (bf_header bf') = h_pid (bf_header bf) \<and> ppl bf' = ppl bf \<and> h_logging (bf_header bf') = Some i \<and>
    (isDiscardable bf' \<longleftrightarrow> isDiscardable bf \<and> \<not> is_sink_log l) \<and> (isDiscardable bf' \<longrightarrow> first \<longrightarrow> S = [])"
    using assms
    by (cases "h_logging (bf_header bf)")
      (auto simp: attach_log_def ensure_def pending_ahead_def epoch_log_def isDiscardable_def markUnDiscardable_def Let_def)
  then show thesis using that by blast
qed

lemma note_pending_ok:
  assumes fl: "discard_flags fl" and a: "pending_ahead fl sk lm S bf" and lg: "h_logging (bf_header bf) \<noteq> None"
    and c: "isDiscardable bf \<Longrightarrow> \<not> sink" "isDiscardable bf \<Longrightarrow> first \<Longrightarrow> S = []"
  obtains bf' where "note_pending fl sink first lsn bf = Some bf'" "pending_ok fl sk lm (S @ [lsn]) bf'" "page bf' = page bf" "ppl bf' = ppl bf"
    "isDiscardable bf' = isDiscardable bf" "h_logging (bf_header bf') = h_logging (bf_header bf)"
proof (cases "isDiscardable bf")
  case False
  then show thesis using a by (intro that [of bf]) (simp_all add: note_pending_def pending_ok_def pending_ahead_def isDiscardable_def Let_def)
next
  case True
  have f: "FLAGS_enable_discarding fl" "unat (FLAGS_max_log_records_to_discard fl) < 256" "0 < unat (FLAGS_ppl_merge_threshold fl)"
    using fl by (auto simp: discard_flags_def)
  note d = True [unfolded isDiscardable_def]
  let ?h = "bf_header bf"
  have h: "unat (FLAGS_max_log_records_to_discard fl) \<le> length (pending_lsn ?h)" "unat (PLSN (page bf) - last_written_plsn ?h) = Suc (length S)"
    "length S < unat (FLAGS_max_log_records_to_discard fl)" "will_flush_ppl ?h = pending_full fl S"
    "unat (pending_lsn_count ?h) = (if pending_full fl S then unat (FLAGS_ppl_merge_threshold fl) else length S)"
    "take (unat (pending_lsn_count ?h)) (pending_lsn ?h) = take (unat (pending_lsn_count ?h)) S"
    using a d by (auto simp: pending_ahead_def Let_def)
  have ep: "h_logging ?h \<in> {None, epoch_log sk lm bf}" using a d by (simp add: pending_ahead_def Let_def)
  have z: "\<not> first \<or> pending_lsn_count ?h = 0"
  proof (cases "S = []")
    case True
    then show ?thesis using h(5) f(3) by (auto simp: pending_full_def unat_eq_zero split: if_splits)
  qed (use c(2) [OF \<open>isDiscardable bf\<close>] in blast)
  show thesis
  proof (cases "pending_full fl S")
    case True
    then have "note_pending fl sink first lsn bf = Some bf"
      using f d z h(4,5) c(1) [OF \<open>isDiscardable bf\<close>]
      by (simp add: note_pending_def isDiscardable_def ensure_def Let_def pending_full_def word_unat_eq_iff wide_count)
    moreover have "pending_ok fl sk lm (S @ [lsn]) bf"
      using True h lg ep by (auto simp: pending_ok_def Let_def pending_full_def)
    ultimately show thesis using that by blast
  next
    case False
    let ?n = "pending_lsn_count ?h"
    have n: "unat ?n = length S" "unat (?n + 1) = Suc (length S)" using h(3,5) f(2) False by (simp_all add: unat_plus_if')
    define h1 where "h1 = ?h\<lparr>pending_lsn := (pending_lsn ?h)[unat ?n := lsn], pending_lsn_count := ?n + 1\<rparr>"
    define h2 where "h2 = (if FLAGS_per_page_logging fl \<and> ucast (?n + 1) \<ge> FLAGS_ppl_merge_threshold fl then h1\<lparr>will_flush_ppl := True\<rparr> else h1)"
    have "note_pending fl sink first lsn bf = Some (bf\<lparr>bf_header := h2\<rparr>)"
      using f d z h(1-4) n False c(1) [OF \<open>isDiscardable bf\<close>]
      by (simp add: note_pending_def isDiscardable_def ensure_def Let_def h2_def h1_def word_less_nat_alt word_unat_eq_iff wide_count)
    moreover have "pending_ok fl sk lm (S @ [lsn]) (bf\<lparr>bf_header := h2\<rparr>)"
    proof -
      have t: "take (Suc (length S)) ((pending_lsn ?h)[length S := lsn]) = S @ [lsn]"
        using h(1,3,6) n by (simp add: take_Suc_conv_app_nth)
      have m: "(if pending_full fl (S @ [lsn]) then unat (FLAGS_ppl_merge_threshold fl) else length (S @ [lsn])) = Suc (length S)"
        using False by (auto simp: pending_full_def)
      have wf: "will_flush_ppl h2 = pending_full fl (S @ [lsn])"
        using h(4) False n by (auto simp: h2_def h1_def pending_full_def word_le_nat_alt wide_count)
      show ?thesis
        using h(1-3) n t wf lg m ep by (simp add: pending_ok_def epoch_log_def Let_def h2_def h1_def)
    qed
    ultimately show thesis by (rule that) (simp_all add: isDiscardable_def h2_def h1_def)
  qed
qed


section \<open>Logging a change\<close>

text \<open>A frame that may be discarded, a sink log and the log of an RU epoch, for the witness.\<close>

definition demo_frame :: BufferFrame where
  "demo_frame = \<lparr>bf_header = (Header_new (replicate 7 0) 0)\<lparr>discardable := True, not_yet_persisted := False\<rparr>, ppl = ppl_example,
     page = (PageHeader_new 0)\<lparr>pg_ru_epoch := 5\<rparr>\<rparr>"

definition demo_worker :: guard_worker where
  "demo_worker = \<lparr>worker_id = 1, worker_gsn_clock = 5, rfa_gsn_flushed = 0, remote_flush_dependency = False\<rparr>"

definition demo_logs_lm :: LogManager where "demo_logs_lm = demo_lm\<lparr>log_count := 2\<rparr>"

definition demo_logs :: "u32 \<Rightarrow> Logging" where
  "demo_logs i = (if i < 1 then (lg demo_start)\<lparr>is_sink_log := True\<rparr> else lg demo_start)"

lemma demo_reserves: "\<exists>h l'. reserveWALEntry demo_flags 8 pg dt gs (lg demo_start) = Some (h, l')"
proof (cases rule: reserveWALEntry_cases [OF wal_invD(1) [OF reach_wal_inv(1) [OF demo_ready(3)] refl] refl demo_ready(2), of 8 pg dt gs])
  case 2
  then show ?thesis using demo_ready(1) by simp
qed auto

text \<open>The log that is chosen: a sink log, or the log of the epoch, and that only for a discardable frame.\<close>

lemma getLog_route:
  assumes "sk \<noteq> 0" "sk < log_count lm"
  obtains i where "getLog sk lm RU_EPOCH reclaiming redirected wid new_page cd e pg = Some i"
    "isSinkLog sk i \<or> cd \<and> getLogID sk lm RU_EPOCH e = Some i"
proof -
  have "log_count lm - sk \<noteq> 0" using assms(2) by auto
  then obtain j where j: "getLogID sk lm RU_EPOCH e = Some j" by (simp add: getLogID_def)
  have "ucast (pg mod ucast sk) < sk"
  proof -
    have s: "unat (ucast sk :: u64) = unat sk" by (rule wide_flag)
    then have u: "unat (pg mod ucast sk) < unat sk" using assms(1) by (simp add: unat_mod unat_gt_0)
    then have "unat (ucast (pg mod ucast sk) :: u32) = unat (pg mod ucast sk)"
      using unsigned_less [of sk, where 'a = nat] by (simp add: unsigned_ucast_eq take_bit_nat_eq_self)
    then show ?thesis using u by (simp add: word_less_nat_alt)
  qed
  moreover have "getLog sk lm RU_EPOCH reclaiming redirected wid new_page cd e pg =
      Some (if new_page \<or> \<not> cd \<or> e = - 1 \<or> e \<le> reclaiming \<or> redirected j then ucast (pg mod ucast sk) else j)"
    using assms(1) j by (simp add: getLog_def getLogID_page_def)
  ultimately show thesis using that j by (auto simp: isSinkLog_def split: if_splits)
qed

text \<open>The attempt, with the prepared frame and the log that was chosen.\<close>

lemma reserve_attempt_exact:
  fixes payload :: u32
  assumes "discard_flags fl" "pending_ahead fl sk lm S bf" "GSN (page bf) = worker_gsn_clock w"
    and "is_sink_log l \<or> isDiscardable bf \<and> epoch_log sk lm bf = Some i"
    and "\<not> redirect_to_sink_log l" "\<not> (snapshot < pg_ru_epoch (page bf) \<and> snapshot2 \<noteq> snapshot \<and> snapshot2 \<ge> pg_ru_epoch (page bf))"
  defines "R \<equiv> reserveWALEntry fl payload (h_pid (bf_header bf)) (of_int (dt_id (page bf))) (GSN (page bf)) l"
  shows "R = None \<Longrightarrow> reserve_attempt fl payload snapshot snapshot2 i l w bf = None"
    and "R = Some (h, l1) \<Longrightarrow> \<exists>l2 w' bf'. reserve_attempt fl payload snapshot snapshot2 i l w bf = Some (Some (h, l2, w', bf')) \<and>
      pending_ok fl sk lm (S @ [h_lsn h]) bf' \<and> (isDiscardable bf' \<longleftrightarrow> isDiscardable bf \<and> \<not> is_sink_log l) \<and>
      h_logging (bf_header bf') = Some i \<and> last_written_lsn (page bf') = h_lsn h \<and> pg_ru_epoch (page bf') = pg_ru_epoch (page bf) \<and>
      GSN (page bf') = log_gsn_clock l2 \<and> worker_gsn_clock w' = log_gsn_clock l2"
proof -
  obtain first bf2 where b: "attach_log i l bf = Some (first, bf2)" "pending_ahead fl sk lm S bf2" "page bf2 = page bf"
    "h_pid (bf_header bf2) = h_pid (bf_header bf)" "ppl bf2 = ppl bf" "h_logging (bf_header bf2) = Some i"
    "isDiscardable bf2 \<longleftrightarrow> isDiscardable bf \<and> \<not> is_sink_log l" "isDiscardable bf2 \<Longrightarrow> first \<Longrightarrow> S = []"
    using attach_log_ahead [OF assms(2,4)] by blast
  have R: "reserveWALEntry fl payload (h_pid (bf_header bf2)) (of_int (dt_id (page bf2))) (GSN (page bf2)) l = R"
    using b(3,4) by (simp add: R_def)
  note run = assms(5,6) b(1)
  show "reserve_attempt fl payload snapshot snapshot2 i l w bf = None" if "R = None"
    using run R that by (simp add: reserve_attempt_def Let_def)
  assume r: "R = Some (h, l1)"
  define logGSN where "logGSN = max (GSN (page bf)) (log_gsn_clock l + 1)"
  define bf3 where "bf3 = bf2\<lparr>page := (page bf2)\<lparr>GSN := logGSN, last_written_lsn := h_lsn h\<rparr>,
    ppl := (ppl bf2)\<lparr>absorbed_writes := pre_increment saturating_u8 (absorbed_writes (ppl bf2))\<rparr>\<rparr>"
  have bf3: "pending_ahead fl sk lm S bf3" "h_logging (bf_header bf3) = Some i" "isDiscardable bf3 = isDiscardable bf2"
    using b(2,6) by (simp_all add: bf3_def pending_ahead_def epoch_log_def isDiscardable_def)
  obtain bf4 where n: "note_pending fl (is_sink_log l) first (h_lsn h) bf3 = Some bf4" "pending_ok fl sk lm (S @ [h_lsn h]) bf4"
    "page bf4 = page bf3" "isDiscardable bf4 = isDiscardable bf3" "h_logging (bf_header bf4) = Some i"
    using note_pending_ok [OF assms(1) bf3(1), of "is_sink_log l" first "h_lsn h"] bf3(2,3) b(7,8) by (metis option.distinct(1))
  have g: "log_gsn_clock l1 = logGSN" using reserveWALEntry_clock [OF r [unfolded R_def]] by (simp add: logGSN_def)
  have ws: "worker_gsn_clock (worker_syncGSN logGSN w) = logGSN" using assms(3) by (simp add: worker_syncGSN_def logGSN_def max_def)
  have pw: "FLAGS_wal_pwrite fl" using assms(1) by (simp add: discard_flags_def)
  have "\<exists>l2. reserve_attempt fl payload snapshot snapshot2 i l w bf = Some (Some (h, l2, worker_syncGSN logGSN w, bf4)) \<and>
    log_gsn_clock l2 = log_gsn_clock l1"
    using run R r b(3) assms(3) n(1) pw by (simp add: reserve_attempt_def ensure_def Let_def logGSN_def bf3_def)
  then show "\<exists>l2 w' bf'. reserve_attempt fl payload snapshot snapshot2 i l w bf = Some (Some (h, l2, w', bf')) \<and>
      pending_ok fl sk lm (S @ [h_lsn h]) bf' \<and> (isDiscardable bf' \<longleftrightarrow> isDiscardable bf \<and> \<not> is_sink_log l) \<and>
      h_logging (bf_header bf') = Some i \<and> last_written_lsn (page bf') = h_lsn h \<and> pg_ru_epoch (page bf') = pg_ru_epoch (page bf) \<and>
      GSN (page bf') = log_gsn_clock l2 \<and> worker_gsn_clock w' = log_gsn_clock l2"
    using n g ws bf3(3) b(3,7) by (fastforce simp: bf3_def)
qed

text \<open>Whether a change leaves the frame discardable, before the log is known.\<close>

definition stays_discardable :: "flags \<Rightarrow> bool \<Rightarrow> nat \<Rightarrow> BufferFrame \<Rightarrow> bool" where
  "stays_discardable fl disable_discarding changes bf \<longleftrightarrow>
     isDiscardable bf \<and> \<not> disable_discarding \<and> changes < unat (FLAGS_max_log_records_to_discard fl) \<and>
     pg_ruh (page bf) \<in> {UNMAPPED_RUH, DEFAULT_RUH}"

text \<open>
  C21: The pending LSNs of a frame are exact.  With logs partitioned by RU epoch, for a frame whose
  pending LSNs are those of the changes \<open>S\<close> since it was written back and whatever an attempt of
  \<^verbatim>\<open>PageGuard::reserveWALEntry\<close> reads of the epoch being reclaimed and of the redirections:
  the attempt is made again exactly when the log it chose has been redirected or the page's epoch
  has come to be reclaimed meanwhile; otherwise it fails only where the reservation in that log
  does, and none of its own checks ever fires, the one for a frame that changes its log included.
  Then the frame's pending LSNs are those of \<open>S\<close> and of the new record, in order, up to the point
  where the per page log takes over, as long as it stays discardable, which it does exactly when the
  caller allows it, the page is not placed specially, the number of changes is within the bound and
  the chosen log is not a sink.  Page, worker and log end with the same GSN, and the page knows its
  last record.
\<close>
theorem pending_lsns_exact:
  fixes payload :: u32 and dd :: bool and snapshot reclaiming snapshot2 :: ru_epoch_t and redirected :: "u32 \<Rightarrow> bool" and w :: guard_worker
  assumes "discard_flags fl" "pending_ok fl sk lm S bf" "sk \<noteq> 0" "sk < log_count lm" "\<forall>i. is_sink_log (all_logs i) = isSinkLog sk i"
  defines "G \<equiv> guard_reserveWALEntry fl sk lm RU_EPOCH payload dd snapshot reclaiming redirected snapshot2 all_logs w bf"
    and "e \<equiv> pg_ru_epoch (page bf)" and "cd \<equiv> stays_discardable fl dd (length S) bf"
  shows "\<exists>i. getLog sk lm RU_EPOCH reclaiming redirected (ucast (worker_id w)) (not_yet_persisted (bf_header bf)) cd e (h_pid (bf_header bf)) = Some i \<and>
    (let l = all_logs i; again = (redirect_to_sink_log l \<or> snapshot < e \<and> snapshot2 \<noteq> snapshot \<and> snapshot2 \<ge> e);
         R = reserveWALEntry fl payload (h_pid (bf_header bf)) (of_int (dt_id (page bf))) (max (worker_gsn_clock w) (GSN (page bf)) + 1) l
     in (again \<longrightarrow> G = Some None) \<and> (\<not> again \<and> R = None \<longrightarrow> G = None) \<and>
        (\<forall>h l1. \<not> again \<and> R = Some (h, l1) \<longrightarrow> (\<exists>l2 w' bf'. G = Some (Some (h, all_logs(i := l2), w', bf')) \<and>
           pending_ok fl sk lm (S @ [h_lsn h]) bf' \<and> (isDiscardable bf' \<longleftrightarrow> cd \<and> \<not> isSinkLog sk i) \<and>
           h_logging (bf_header bf') = Some (unat i) \<and> last_written_lsn (page bf') = h_lsn h \<and>
           GSN (page bf') = log_gsn_clock l2 \<and> worker_gsn_clock w' = log_gsn_clock l2)))"
proof -
  obtain w1 bf1 where p: "reserve_prepare fl dd w bf = (w1, bf1)" by fastforce
  note a = reserve_prepare_ahead [OF assms(1,2) p]
  have cd: "isDiscardable bf1 = cd" using a(8) by (simp add: cd_def stays_discardable_def)
  obtain i where i: "getLog sk lm RU_EPOCH reclaiming redirected (ucast (worker_id w)) (not_yet_persisted (bf_header bf)) cd e
      (h_pid (bf_header bf)) = Some i" "isSinkLog sk i \<or> cd \<and> getLogID sk lm RU_EPOCH e = Some i"
    by (rule getLog_route [OF assms(3,4)])
  let ?l = "all_logs i"
  have sink: "is_sink_log ?l = isSinkLog sk i" using assms(5) by simp
  have route: "is_sink_log ?l \<or> isDiscardable bf1 \<and> epoch_log sk lm bf1 = Some (unat i)"
    using i(2) sink cd a(7) by (auto simp: epoch_log_def e_def)
  have G: "G = do { r \<leftarrow> reserve_attempt fl payload snapshot snapshot2 (unat i) ?l w1 bf1;
      Some (map_option (\<lambda>(h, l, w, bf). (h, all_logs(i := l), w, bf)) r) }"
    using i(1) p cd a(5,7,9,10) by (simp add: G_def guard_reserveWALEntry_def e_def)
  define again where "again \<longleftrightarrow> redirect_to_sink_log ?l \<or> snapshot < e \<and> snapshot2 \<noteq> snapshot \<and> snapshot2 \<ge> e"
  have 1: "G = Some None" if again using that a(7) unfolding G by (auto simp: again_def reserve_attempt_def e_def Let_def)
  have na: "\<not> redirect_to_sink_log ?l" "\<not> (snapshot < pg_ru_epoch (page bf1) \<and> snapshot2 \<noteq> snapshot \<and> snapshot2 \<ge> pg_ru_epoch (page bf1))"
    if "\<not> again" using that a(7) by (auto simp: again_def e_def)
  let ?R = "reserveWALEntry fl payload (h_pid (bf_header bf)) (of_int (dt_id (page bf))) (max (worker_gsn_clock w) (GSN (page bf)) + 1) ?l"
  note A = reserve_attempt_exact [OF assms(1) a(1,3) route na, of payload, unfolded a(3,5,6), unfolded a(2)]
  have 2: "G = None" if "\<not> again" "?R = None" using A(1) [OF that(1) that(1) that(2)] unfolding G by simp
  have 3: "\<exists>l2 w' bf'. G = Some (Some (h, all_logs(i := l2), w', bf')) \<and>
           pending_ok fl sk lm (S @ [h_lsn h]) bf' \<and> (isDiscardable bf' \<longleftrightarrow> cd \<and> \<not> isSinkLog sk i) \<and>
           h_logging (bf_header bf') = Some (unat i) \<and> last_written_lsn (page bf') = h_lsn h \<and>
           GSN (page bf') = log_gsn_clock l2 \<and> worker_gsn_clock w' = log_gsn_clock l2" if "\<not> again" "?R = Some (h, l1)" for h l1
    using A(2) [OF that(1) that(1) that(2)] cd sink unfolding G by fastforce
  show ?thesis unfolding Let_def
  proof (intro exI [of _ i] conjI impI allI, rule i(1), fold again_def)
    show "G = Some None" if again by (rule 1 [OF that])
    show "G = None" if "\<not> again \<and> ?R = None" using that 2 by blast
    show "\<exists>l2 w' bf'. G = Some (Some (h, all_logs(i := l2), w', bf')) \<and>
           pending_ok fl sk lm (S @ [h_lsn h]) bf' \<and> (isDiscardable bf' \<longleftrightarrow> cd \<and> \<not> isSinkLog sk i) \<and>
           h_logging (bf_header bf') = Some (unat i) \<and> last_written_lsn (page bf') = h_lsn h \<and>
           GSN (page bf') = log_gsn_clock l2 \<and> worker_gsn_clock w' = log_gsn_clock l2" if "\<not> again \<and> ?R = Some (h, l1)" for h l1
      by (rule 3 [OF conjunct1 [OF that] conjunct2 [OF that]])
  qed
qed

theorem pending_lsns_exact_witness:
  "\<exists>h l2 w' bf'. guard_reserveWALEntry demo_flags 1 demo_logs_lm RU_EPOCH 8 False 0 0 (\<lambda>_. False) 0 demo_logs demo_worker demo_frame =
       Some (Some (h, demo_logs(1 := l2), w', bf')) \<and>
     isDiscardable bf' \<and> pending_lsn_count (bf_header bf') = 1 \<and> hd (pending_lsn (bf_header bf')) = h_lsn h"
proof -
  have fl: "discard_flags demo_flags" by (simp add: discard_flags_def demo_flags_def default_flags_def)
  have ok: "pending_ok demo_flags 1 demo_logs_lm [] demo_frame"
    by (simp add: pending_ok_def pending_full_def demo_flags_def default_flags_def demo_frame_def Header_new_def PageHeader_new_def)
  have cd: "stays_discardable demo_flags False (length ([] :: LID list)) demo_frame"
    by (simp add: stays_discardable_def isDiscardable_def demo_flags_def default_flags_def demo_frame_def Header_new_def PageHeader_new_def)
  have lm: "(1 :: u32) \<noteq> 0" "1 < log_count demo_logs_lm" "\<forall>i. is_sink_log (demo_logs i) = isSinkLog 1 i"
    by (simp_all add: demo_logs_lm_def demo_logs_def isSinkLog_def demo_start_def Logging_new_def)
  have route: "getLog 1 demo_logs_lm RU_EPOCH 0 (\<lambda>_. False) (ucast (worker_id demo_worker)) (not_yet_persisted (bf_header demo_frame)) True
      (pg_ru_epoch (page demo_frame)) (h_pid (bf_header demo_frame)) = Some 1"
    by (simp add: getLog_def getLogID_page_def getLogID_def demo_frame_def Header_new_def PageHeader_new_def demo_logs_lm_def ensure_def signed_modulo_int_def)
  have log1: "demo_logs 1 = lg demo_start" "\<not> isSinkLog 1 (1 :: u32)" by (simp_all add: demo_logs_def isSinkLog_def)
  obtain h l1 where r: "reserveWALEntry demo_flags 8 (h_pid (bf_header demo_frame)) (of_int (dt_id (page demo_frame)))
    (max (worker_gsn_clock demo_worker) (GSN (page demo_frame)) + 1) (lg demo_start) = Some (h, l1)" using demo_reserves by blast
  from pending_lsns_exact [OF fl ok lm, of 0 "\<lambda>_. False" demo_worker False 0 0 8]
  obtain l2 w' bf' where g: "guard_reserveWALEntry demo_flags 1 demo_logs_lm RU_EPOCH 8 False 0 0 (\<lambda>_. False) 0 demo_logs demo_worker demo_frame =
       Some (Some (h, demo_logs(1 := l2), w', bf'))" "pending_ok demo_flags 1 demo_logs_lm [h_lsn h] bf'" "isDiscardable bf'"
    using cd route log1 r demo_ready(2) unfolding Let_def by auto
  have "unat (pending_lsn_count (bf_header bf')) = 1 \<and> take 1 (pending_lsn (bf_header bf')) = [h_lsn h]"
    using g(2,3) by (simp add: pending_ok_def pending_full_def demo_flags_def default_flags_def isDiscardable_def Let_def)
  then have "pending_lsn_count (bf_header bf') = 1" "hd (pending_lsn (bf_header bf')) = h_lsn h"
    by (simp add: word_unat_eq_iff, cases "pending_lsn (bf_header bf')") simp_all
  then show ?thesis using g by blast
qed

end
