(* ===== verification/Spec2Isabelle.thy ===== *)
theory Spec2Isabelle
  imports Page_State Swip Saturating_Counter Misc Circular_Queue Free_Lists Partition RU_Epochs BTree_Pending
    Compressed_Space Block_Packer Latch LBA_Ring_Runs Buffer_Frame Snapshot_Isolation
    Group_Commit Spin_Struct Page_Log
begin

text \<open>
  Verification of the storage engine of epsilon-db, a fork of LeanStore for SSDs with flexible
  data placement.

  \<^bold>\<open>The program.\<close>  Pages of B-trees live in buffer frames.  A parent refers to a child through a
  \<^verbatim>\<open>Swip\<close>, a word that is either the address of a frame or the identifier of an evicted page,
  and a table of \<^verbatim>\<open>PageState\<close> words says of every page whether it is hot, clean or
  \<^emph>\<open>discarded\<close>: dropped from memory without being written, with only the positions of its pending
  log records kept.  Frames come from free lists and are protected by hybrid latches; reads and
  writes in flight are kept in hash tables, one per partition, which also hands out page identifiers.
  Pages are written to reclaim units (RUs) of the device; the engine counts per \<^emph>\<open>RU epoch\<close> what
  was written and what is still valid, and records the addresses written in each epoch in chains
  of blocks, the LBA chains.  Pages may be compressed and packed into blocks.  Workers run
  transactions under snapshot isolation with per worker commit trees, and write log records into
  the buffers of several logs, which a group committer hardens.

  \<^bold>\<open>Theories and the code they model\<close> (paths under \<^verbatim>\<open>src/backend/leanstore\<close> unless they start
  with \<^verbatim>\<open>shared-headers\<close>; \<^verbatim>\<open>bm\<close> stands for \<^verbatim>\<open>storage/buffer-manager\<close>).

  \<^item> \<open>Prelude\<close>: word types, the flags of \<^verbatim>\<open>Config.cpp\<close>, outcomes of operations that may jump
    (\<^verbatim>\<open>JumpMU\<close>) or abort (\<^verbatim>\<open>ensure\<close>), and lemmas on words, bits and lists.
    \<open>Transition_System\<close>: reachability and the locales \<open>invariant_of\<close> and
    \<open>monotone_history\<close>, which every concurrent component interprets.
  \<^item> \<open>Units\<close> (\<^verbatim>\<open>shared-headers/Units.hpp\<close>), \<open>Misc\<close> (\<^verbatim>\<open>utils/Misc.hpp\<close>),
    \<open>Saturating_Counter\<close> (\<^verbatim>\<open>shared-headers/SaturatingCounter.hpp\<close>),
    \<open>Circular_Queue\<close> (\<^verbatim>\<open>utils/CircularQueue.hpp\<close>): LSN layout, alignment and key folding,
    exact saturating arithmetic, and a bounded FIFO whose counters wrap.
  \<^item> \<open>Page_State\<close> (\<^verbatim>\<open>bm/PageState.hpp, .cpp\<close>), \<open>Swip\<close> (\<^verbatim>\<open>bm/Swip.hpp\<close>): the packed words,
    operation by operation, and the threads that lock and unlock a page state; the stores of the
    buffer manager that do not look at the word are steps of their own.
  \<^item> \<open>Latch\<close> (\<^verbatim>\<open>sync-primitives/Latch.hpp, bm/BMPlainGuard.hpp\<close>): each guard operation is a program of
    atomic accesses, and any number of threads run such programs in any interleaving.
  \<^item> \<open>Free_Lists\<close> (\<^verbatim>\<open>bm/FreeList.cpp, bm/CustomSlabAllocator.hpp\<close>): intrusive lists in an explicit
    store.  \<open>Partition\<close> (\<^verbatim>\<open>bm/Partition.cpp, .hpp\<close>): the hash table of pages in flight and the
    allocation of page identifiers.
  \<^item> \<open>RU_Epochs\<close> (\<^verbatim>\<open>bm/RUEpochDiscardSet.cpp, .hpp\<close>): life cycle of an epoch, the ring of epochs, the
    layout of what is persisted.
  \<^item> \<open>LBA_Chain\<close>, \<open>LBA_Ring\<close>, \<open>LBA_Ring_Invariant\<close>, \<open>LBA_Ring_Durable\<close>, \<open>LBA_Ring_Runs\<close>
    (\<^verbatim>\<open>bm/LBAChain.cpp, .hpp\<close>): sealing and reading chains, and the ring of open blocks with its
    writers and the RU epoch manager as interleaved steps.
  \<^item> \<open>Compressed_Space\<close>, \<open>Block_Packer\<close> (\<^verbatim>\<open>bm/CompressedSpace.cpp, .hpp\<close>): allocation of blocks, the
    space map, and packing compressed pages.
  \<^item> \<open>Buffer_Frame\<close> (\<^verbatim>\<open>bm/BufferFrame.hpp, .cpp\<close>): frame headers, what makes a frame
    discardable, and the per page log.
  \<^item> \<open>BTree_Key\<close>, \<open>BTree_Node\<close>, \<open>BTree_Update\<close>, \<open>BTree_Insert\<close>, \<open>BTree_Split\<close>, \<open>BTree_Pending\<close>
    (\<^verbatim>\<open>storage/btree/core/BTreeNode.hpp, .cpp\<close>): the slotted node with its byte heap, prefix
    truncation, heads, hints and fences, and all its operations up to split and merge and to storing
    the LSNs of a discarded child behind its swip.
  \<^item> \<open>Commit_Tree\<close>, \<open>Concurrency_Control\<close>, \<open>Snapshot_Isolation\<close>
    (\<^verbatim>\<open>concurrency-recovery/ConcurrencyControl.cpp, Worker.hpp, Worker.cpp, Transaction.hpp\<close>):
    timestamps, commit trees, visibility and the low watermark, and runs of workers cut at their
    accesses to shared state.
  \<^item> \<open>WAL_Buffer\<close> (\<^verbatim>\<open>concurrency-recovery/Logging.hpp, Logging.cpp, WALEntry.hpp\<close> and
    \<^verbatim>\<open>PageGuard::reserveWALEntry\<close>): the log buffer and its operations.  \<open>WAL_Space\<close>,
    \<open>WAL_Holes\<close>, \<open>WAL_Reserve\<close>: what they do in terms of positions in the log.  \<open>WAL_Device\<close>
    (\<^verbatim>\<open>LogManager.cpp, .hpp\<close>, \<^verbatim>\<open>GroupCommiter.cpp\<close>): segments on the device and the writes of a
    round.  \<open>WAL_System\<close>, \<open>WAL_Durable\<close>, \<open>WAL_Commit\<close>, \<open>WAL_Properties\<close>: workers, readers
    and the group committer interleaved.  \<open>Group_Commit\<close> (\<^verbatim>\<open>GroupCommiter.cpp, LogManager.cpp\<close>):
    what a round decides over all logs, and which log a page belongs to.  \<open>Spin_Struct\<close>
    (\<^verbatim>\<open>utils/OptimisticSpinStruct.hpp\<close>): how what is published reaches the group committer.
  \<^item> \<open>Page_Log\<close> (\<^verbatim>\<open>sync-primitives/PageGuard.hpp\<close>): logging the change of a page, which joins
    the frame, its worker and the log that \<^verbatim>\<open>LogManager::getLog\<close> chooses for it.

  \<^bold>\<open>What is shown.\<close>
  The node operations keep an invariant of the byte layout and insert and remove exactly one entry
  at its rank; searches with hints and heads agree with a linear scan; split and merge keep entries,
  children and separators (the split of a leaf as long as its left half fits, which the code does
  not check); the LSNs of a discarded child are stored behind its swip and read back.  A version is visible exactly
  if its writer committed before the reader started, the watermark is sound, commit trees never
  overflow.  Latches exclude, optimistic readers notice every change and an upgrade keeps what was
  read; the latch of a page state protects its word as long as pages are allocated and given back
  while it is not latched.  Recorded
  addresses are never lost and are in the persisted chains after a seal.  Compressed space never
  hands out a live block and survives a clean shutdown; packed pages read back.  Allocators and
  queues refine their abstract counterparts.  In the log, reservations and rounds of the group
  committer never fail a check, the last round hardens all filled records and finds the buffer
  empty, hardened records are on the
  device where their LSN says, and readers without a lock get the bytes of the record or find it on
  the device.  The pending LSNs of a discardable frame are exactly those of its changes since it was
  written back.

  \<^bold>\<open>How the code is read.\<close>
  Words keep their width.  \<^verbatim>\<open>ensure\<close> and \<^verbatim>\<open>raise(SIGTRAP)\<close> are \<open>None\<close> or an abort value; an
  operation that waits while it holds a mutex is \<open>None\<close> until it can go on, and that it goes on is
  a theorem.  Concurrent code is cut at its accesses to shared state, with sequentially consistent
  accesses; coarser steps are a reservation in the log (under its mutex), a scan of the snapshots of
  all workers, the refresh of the watermark and \<^verbatim>\<open>cleanIfNecessary\<close>, which are one step each.  The
  log that is followed through its life is not a sink log, is written with \<^verbatim>\<open>wal_pwrite\<close> and is not
  reset; a run of the LBA chain ring does not reclaim epochs.  Loops are recursive functions with a measure; the only fuel is the length of a chain in
  \<open>readChain\<close>, and the round trip theorem shows that the number of blocks is enough.  Memory obtained
  from \<^verbatim>\<open>malloc\<close>, the compressor, random choices and the device are arguments.

  \<^bold>\<open>Not modelled.\<close>
  The buffer manager, the page provider, the background page fixer and the RU epoch manager are
  threads around asynchronous I/O, timers and device statistics; what they do to page states, swips,
  frames, epochs and chains are calls of the operations above.  B-tree traversal, iterators, the
  replay of log records and version chains couple latches, logging and node operations in C++
  templates over \<^verbatim>\<open>setjmp\<close>; only the operations they call are modelled.  Recovery of the log's meta
  block, log records of transactions (they throw with discarding), garbage collection of versions,
  placement policies (floating point), profiling, benchmarks and third-party code are left out.
  Weak memory orders are not modelled.
\<close>

end
